(* ===== verification/Prelude.thy ===== *)
theory Prelude
  imports Main "HOL-Library.Word" "HOL-Library.List_Lexorder" "HOL-Library.AList"
begin

text \<open>
  Shared vocabulary of the development: machine integers, bytes and Rust strings, the
  \<open>io::Result\<close> type with the early return of the \<open>?\<close> operator, in-memory readers,
  little-endian integer encodings, UTF-8 validity, decimal text of integers, and the external
  functions (floating point text, the XXH3 hash, Bloom filter sizing) that the code calls but the
  repository does not contain.

  Integers. \<open>u8\<close>, \<open>u32\<close>, \<open>u64\<close>, \<open>i64\<close> are words of that width and
  arithmetic on them wraps, as in the release profile that the Dockerfile builds. \<open>usize\<close>
  values are lengths and positions of in-memory vectors and are natural numbers. A Rust
  \<open>String\<close> is its UTF-8 byte sequence, compared bytewise as \<open>str\<close> is.
\<close>

section \<open>Types\<close>

type_synonym u8 = "8 word"
type_synonym u32 = "32 word"
type_synonym u64 = "64 word"
type_synonym u128 = "128 word"
type_synonym i64 = "64 word"
type_synonym f64 = "64 word"
type_synonym bytes = "u8 list"
type_synonym rstring = bytes

named_theorems io_simps \<open>equations of the error monad and of the readers\<close>
named_theorems codec \<open>round trips of encoders and decoders\<close>
named_theorems len_simps \<open>lengths of encodings\<close>

text \<open>A literal of the source, as bytes.\<close>

definition str :: "string \<Rightarrow> rstring" where
  "str s = map of_char s"

section \<open>Results of fallible code\<close>

text \<open>
  The kinds of \<open>io::Error\<close> that the code tells apart, and \<open>Panicked\<close> for a slice
  index out of range, which ends the thread.
\<close>

datatype error_kind = UnexpectedEof | InvalidData | InvalidInput | NotFound | Panicked

datatype io_error = IoError (kind: error_kind) (message: rstring)

type_synonym 'a io = "io_error + 'a"

text \<open>The continuation after the \<open>?\<close> operator.\<close>

definition and_then :: "'e + 'a \<Rightarrow> ('a \<Rightarrow> 'e + 'b) \<Rightarrow> 'e + 'b" where
  "and_then r f = (case r of Inl e \<Rightarrow> Inl e | Inr x \<Rightarrow> f x)"

lemma and_then_Inl [simp, io_simps]: "and_then (Inl e) f = Inl e"
  by (simp add: and_then_def)

lemma and_then_Inr [simp, io_simps]: "and_then (Inr x) f = f x"
  by (simp add: and_then_def)

lemma and_then_eq_Inr: "and_then r f = Inr y \<longleftrightarrow> (\<exists>x. r = Inr x \<and> f x = Inr y)"
  by (cases r) auto

lemma and_then_eq_Inl:
  "and_then r f = Inl e \<longleftrightarrow> r = Inl e \<or> (\<exists>x. r = Inr x \<and> f x = Inl e)"
  by (cases r) auto

lemma and_then_cong [fundef_cong]:
  "r = s \<Longrightarrow> (\<And>x. s = Inr x \<Longrightarrow> f x = g x) \<Longrightarrow> and_then r f = and_then s g"
  by (cases s) auto

text \<open>\<open>Option::ok_or_else\<close>.\<close>

definition ok_or :: "'a option \<Rightarrow> 'e \<Rightarrow> 'e + 'a" where
  "ok_or x e = (case x of None \<Rightarrow> Inl e | Some y \<Rightarrow> Inr y)"

lemma ok_or_simps [simp, io_simps]: "ok_or None e = Inl e" "ok_or (Some y) e = Inr y"
  by (simp_all add: ok_or_def)

section \<open>Lists\<close>

lemma list_update_middle:
  "length a = n \<Longrightarrow> j < length k \<Longrightarrow> (a @ k @ t)[n + j := b] = a @ k[j := b] @ t"
  by (simp add: list_update_append)

lemma replicate_numeral: "replicate (numeral k) x = x # replicate (pred_numeral k) x"
  by (simp only: numeral_eq_Suc [of k] replicate.simps)

section \<open>Readers over a byte sequence\<close>

text \<open>
  \<open>Read::read_exact\<close> on the bytes left in the file: the buffer and the rest, or
  \<open>UnexpectedEof\<close>.
\<close>

definition read_exact :: "nat \<Rightarrow> bytes \<Rightarrow> (bytes \<times> bytes) io" where
  "read_exact n bs =
     (if length bs < n then Inl (IoError UnexpectedEof (str ''failed to fill whole buffer''))
      else Inr (take n bs, drop n bs))"

lemma read_exact_append [simp, io_simps]:
  "length xs = n \<Longrightarrow> read_exact n (xs @ rest) = Inr (xs, rest)"
  by (simp add: read_exact_def)

lemma read_exact_Inr:
  "read_exact n bs = Inr (xs, rest) \<longleftrightarrow> bs = xs @ rest \<and> length xs = n"
  by (auto simp: read_exact_def)

lemma read_exact_short [simp]:
  "length bs < n \<Longrightarrow>
     read_exact n bs = Inl (IoError UnexpectedEof (str ''failed to fill whole buffer''))"
  by (simp add: read_exact_def)

lemma read_exact_kind: "read_exact n bs = Inl e \<Longrightarrow> kind e = UnexpectedEof"
  by (auto simp: read_exact_def split: if_splits)

section \<open>Composing readers\<close>

text \<open>
  A reader consumes a prefix of the remaining bytes. \<open>rd_bind\<close> is the sequencing of two
  reads with \<open>?\<close> between them, \<open>rd_lift\<close> a fallible computation that reads
  nothing.
\<close>

type_synonym 'a reader = "bytes \<Rightarrow> ('a \<times> bytes) io"

definition rd_bind :: "'a reader \<Rightarrow> ('a \<Rightarrow> 'b reader) \<Rightarrow> 'b reader" where
  "rd_bind f g bs = and_then (f bs) (\<lambda>(x, rest). g x rest)"

definition rd_lift :: "'a io \<Rightarrow> 'a reader" where
  "rd_lift r bs = and_then r (\<lambda>x. Inr (x, bs))"

lemma rd_bind_Inr [simp, io_simps]: "f bs = Inr (x, rest) \<Longrightarrow> rd_bind f g bs = g x rest"
  by (simp add: rd_bind_def)

lemma rd_bind_Inl [simp, io_simps]: "f bs = Inl e \<Longrightarrow> rd_bind f g bs = Inl e"
  by (simp add: rd_bind_def)

lemma rd_lift_simps [simp, io_simps]: "rd_lift (Inr x) bs = Inr (x, bs)" "rd_lift (Inl e) bs = Inl e"
  by (simp_all add: rd_lift_def)

lemma rd_bind_eq_Inr:
  "rd_bind f g bs = Inr (y, rest) \<longleftrightarrow> (\<exists>x r. f bs = Inr (x, r) \<and> g x r = Inr (y, rest))"
  by (auto simp: rd_bind_def and_then_eq_Inr)

lemma rd_lift_eq_Inr: "rd_lift r bs = Inr (x, rest) \<longleftrightarrow> r = Inr x \<and> rest = bs"
  by (cases r) auto

text \<open>
  An exact reader depends only on the bytes it consumes: on an input that is cut short it
  returns the same value when the cut is behind what it consumes and \<open>UnexpectedEof\<close>
  when the cut is inside.
\<close>

definition exact_reader :: "'a reader \<Rightarrow> bool" where
  "exact_reader f \<longleftrightarrow>
     (\<forall>bs x rest. f bs = Inr (x, rest) \<longrightarrow> (\<exists>c. bs = c @ rest)) \<and>
     (\<forall>p q x rest. f (p @ q) = Inr (x, rest) \<longrightarrow>
        (if length q \<le> length rest then \<exists>s. rest = s @ q \<and> f p = Inr (x, s)
         else \<exists>e. f p = Inl e \<and> kind e = UnexpectedEof))"

lemma exact_readerI:
  assumes "\<And>bs x rest. f bs = Inr (x, rest) \<Longrightarrow> \<exists>c. bs = c @ rest"
    and "\<And>p s q x. f (p @ q) = Inr (x, s @ q) \<Longrightarrow> f p = Inr (x, s)"
    and "\<And>p q x rest. f (p @ q) = Inr (x, rest) \<Longrightarrow> length rest < length q \<Longrightarrow>
           \<exists>e. f p = Inl e \<and> kind e = UnexpectedEof"
  shows "exact_reader f"
  unfolding exact_reader_def
proof (intro conjI allI impI)
  fix p q x rest
  assume r: "f (p @ q) = Inr (x, rest)"
  show "if length q \<le> length rest then \<exists>s. rest = s @ q \<and> f p = Inr (x, s)
        else \<exists>e. f p = Inl e \<and> kind e = UnexpectedEof"
  proof (cases "length q \<le> length rest")
    case True
    from assms(1) [OF r] obtain c where c: "p @ q = c @ rest" by blast
    with True obtain s where "rest = s @ q"
      by (auto simp: append_eq_append_conv2)
    with r assms(2) [of p q x s] True show ?thesis by auto
  next
    case False
    with r assms(3) show ?thesis by simp
  qed
qed (use assms(1) in blast)

lemma exact_reader_suffix: "exact_reader f \<Longrightarrow> f bs = Inr (x, rest) \<Longrightarrow> \<exists>c. bs = c @ rest"
  by (auto simp: exact_reader_def)

lemma exact_reader_cut:
  assumes "exact_reader f" and "f (p @ q) = Inr (x, rest)" and "length rest < length q"
  shows "\<exists>e. f p = Inl e \<and> kind e = UnexpectedEof"
  using assms unfolding exact_reader_def by (metis linorder_not_less)

lemma exact_reader_keep:
  assumes "exact_reader f" and "f (p @ q) = Inr (x, rest)" and "length q \<le> length rest"
  obtains s where "rest = s @ q" and "f p = Inr (x, s)"
  using assms unfolding exact_reader_def by meson

lemma exact_read_exact [intro, simp]: "exact_reader (read_exact n)"
proof (rule exact_readerI)
  fix p q :: bytes and x rest
  assume "read_exact n (p @ q) = Inr (x, rest)" and "length rest < length q"
  then have "length p < n" by (auto simp: read_exact_Inr append_eq_append_conv2)
  then show "\<exists>e. read_exact n p = Inl e \<and> kind e = UnexpectedEof" by simp
qed (auto simp: read_exact_Inr)

lemma exact_rd_lift [intro, simp]: "exact_reader (rd_lift r)"
  by (rule exact_readerI) (auto simp: rd_lift_eq_Inr)

lemma exact_rd_bind [intro]:
  assumes f: "exact_reader f" and g: "\<And>x. exact_reader (g x)"
  shows "exact_reader (rd_bind f g)"
proof (rule exact_readerI)
  fix bs x rest
  assume "rd_bind f g bs = Inr (x, rest)"
  then show "\<exists>c. bs = c @ rest"
    using exact_reader_suffix [OF f] exact_reader_suffix [OF g]
    by (fastforce simp: rd_bind_eq_Inr)
next
  fix p s q :: bytes and x
  assume "rd_bind f g (p @ q) = Inr (x, s @ q)"
  then obtain y r where y: "f (p @ q) = Inr (y, r)" and x: "g y r = Inr (x, s @ q)"
    by (auto simp: rd_bind_eq_Inr)
  from exact_reader_suffix [OF g x] have "length q \<le> length r" by auto
  with y obtain t where t: "r = t @ q" "f p = Inr (y, t)"
    using exact_reader_keep [OF f y] by blast
  from x t obtain s' where "s @ q = s' @ q" "g y t = Inr (x, s')"
    using exact_reader_keep [OF g, of y t q x "s @ q"] by auto
  with t show "rd_bind f g p = Inr (x, s)" by simp
next
  fix p q :: bytes and x rest
  assume "rd_bind f g (p @ q) = Inr (x, rest)" and short: "length rest < length q"
  then obtain y r where y: "f (p @ q) = Inr (y, r)" and x: "g y r = Inr (x, rest)"
    by (auto simp: rd_bind_eq_Inr)
  show "\<exists>e. rd_bind f g p = Inl e \<and> kind e = UnexpectedEof"
  proof (cases "length q \<le> length r")
    case True
    with y obtain t where t: "r = t @ q" "f p = Inr (y, t)"
      using exact_reader_keep [OF f y] by blast
    with x short obtain e where "g y t = Inl e" "kind e = UnexpectedEof"
      using exact_reader_cut [OF g, of y t q x rest] by auto
    with t show ?thesis by simp
  next
    case False
    then have "length r < length q" by simp
    from exact_reader_cut [OF f y this] obtain e where "f p = Inl e" "kind e = UnexpectedEof"
      by blast
    then show ?thesis by (auto simp: rd_bind_def)
  qed
qed

section \<open>Little-endian integers\<close>

fun le_bytes :: "nat \<Rightarrow> nat \<Rightarrow> bytes" where
  "le_bytes 0 x = []"
| "le_bytes (Suc n) x = of_nat (x mod 256) # le_bytes n (x div 256)"

lemma le_bytes_numeral:
  "le_bytes (numeral k) x = of_nat (x mod 256) # le_bytes (pred_numeral k) (x div 256)"
  by (simp only: numeral_eq_Suc [of k] le_bytes.simps)

fun le_nat :: "bytes \<Rightarrow> nat" where
  "le_nat [] = 0"
| "le_nat (b # bs) = unat b + 256 * le_nat bs"

lemma length_le_bytes [simp, len_simps]: "length (le_bytes n x) = n"
  by (induction n arbitrary: x) auto

lemma unat_u8_bound: "unat (b :: u8) < 256"
proof -
  have "unat b < 2 ^ LENGTH(8)" by (rule unsigned_less)
  then show ?thesis by simp
qed

lemma unat_of_nat_u8: "unat (of_nat (x mod 256) :: u8) = x mod 256"
  by (simp add: unat_of_nat)

lemma le_nat_le_bytes: "le_nat (le_bytes n x) = x mod 256 ^ n"
proof (induction n arbitrary: x)
  case 0
  then show ?case by simp
next
  case (Suc n)
  have "x mod 256 + 256 * (x div 256 mod 256 ^ n) = x mod 256 ^ Suc n"
    by (simp add: mod_mult2_eq)
  with Suc.IH [of "x div 256"] show ?case
    by (simp only: le_bytes.simps le_nat.simps unat_of_nat_u8)
qed

lemma le_nat_bound: "le_nat bs < 256 ^ length bs"
proof (induction bs)
  case (Cons b bs)
  have "unat b < 256" using unat_u8_bound [of b] by simp
  with Cons show ?case by simp
qed simp

lemma le_bytes_le_nat: "le_bytes (length bs) (le_nat bs) = bs"
proof (induction bs)
  case (Cons b bs)
  have "unat b < 256" using unat_u8_bound [of b] by simp
  with Cons show ?case by simp
qed simp

definition u32_le :: "u32 \<Rightarrow> bytes" where
  "u32_le w = le_bytes 4 (unat w)"

definition u32_from_le :: "bytes \<Rightarrow> u32" where
  "u32_from_le bs = of_nat (le_nat bs)"

definition u64_le :: "u64 \<Rightarrow> bytes" where
  "u64_le w = le_bytes 8 (unat w)"

definition u64_from_le :: "bytes \<Rightarrow> u64" where
  "u64_from_le bs = of_nat (le_nat bs)"

lemma length_u32_le [simp, len_simps]: "length (u32_le w) = 4"
  by (simp add: u32_le_def)

lemma length_u64_le [simp, len_simps]: "length (u64_le w) = 8"
  by (simp add: u64_le_def)

lemma u32_from_le_u32_le [simp, codec]: "u32_from_le (u32_le w) = w"
proof -
  have "unat w < 2 ^ LENGTH(32)" by (rule unsigned_less)
  then have "unat w < 256 ^ 4" by simp
  then show ?thesis by (simp add: u32_from_le_def u32_le_def le_nat_le_bytes)
qed

lemma u64_from_le_u64_le [simp, codec]: "u64_from_le (u64_le w) = w"
proof -
  have "unat w < 2 ^ LENGTH(64)" by (rule unsigned_less)
  then have "unat w < 256 ^ 8" by simp
  then show ?thesis by (simp add: u64_from_le_def u64_le_def le_nat_le_bytes)
qed

text \<open>Big-endian integers.\<close>

definition u32_be :: "u32 \<Rightarrow> bytes" where
  "u32_be w = rev (u32_le w)"

definition u32_from_be :: "bytes \<Rightarrow> u32" where
  "u32_from_be bs = u32_from_le (rev bs)"

definition u64_be :: "u64 \<Rightarrow> bytes" where
  "u64_be w = rev (u64_le w)"

definition u64_from_be :: "bytes \<Rightarrow> u64" where
  "u64_from_be bs = u64_from_le (rev bs)"

lemma length_be [simp, len_simps]: "length (u32_be w) = 4" "length (u64_be v) = 8"
  by (simp_all add: u32_be_def u64_be_def)

lemma from_be [simp, codec]: "u32_from_be (u32_be w) = w" "u64_from_be (u64_be v) = v"
  by (simp_all add: u32_be_def u32_from_be_def u64_be_def u64_from_be_def)

lemma u32_le_u32_from_le: "length bs = 4 \<Longrightarrow> u32_le (u32_from_le bs) = bs"
  using le_nat_bound [of bs] le_bytes_le_nat [of bs]
  by (simp add: u32_le_def u32_from_le_def unat_of_nat)

lemma u64_le_u64_from_le: "length bs = 8 \<Longrightarrow> u64_le (u64_from_le bs) = bs"
  using le_nat_bound [of bs] le_bytes_le_nat [of bs]
  by (simp add: u64_le_def u64_from_le_def unat_of_nat)

text \<open>\<open>u64::checked_add\<close>, and the conversions between \<open>usize\<close> and words.\<close>

definition checked_add :: "u64 \<Rightarrow> u64 \<Rightarrow> u64 option" where
  "checked_add a b = (if unat a + unat b < 2 ^ 64 then Some (a + b) else None)"

lemma checked_add_Some:
  "checked_add a b = Some c \<longleftrightarrow> unat a + unat b < 2 ^ 64 \<and> c = a + b"
  by (auto simp: checked_add_def)

lemma unat_add_u64: "unat a + unat b < 2 ^ 64 \<Longrightarrow> unat (a + b :: u64) = unat a + unat b"
  by (simp add: unat_word_ariths)

lemma unat_Suc_u64: "a < b \<Longrightarrow> unat (a + 1 :: u64) = Suc (unat a)"
proof -
  assume "a < b"
  then have "unat a < unat b" by (simp add: word_less_nat_alt)
  moreover have "unat b < 2 ^ LENGTH(64)" by (rule unsigned_less)
  ultimately show ?thesis using unat_add_u64 [of a 1] by simp
qed

lemma unat_of_nat_u64: "n < 2 ^ 64 \<Longrightarrow> unat (of_nat n :: u64) = n"
  by (simp add: unat_of_nat)

lemma unat_of_nat_u32: "n < 2 ^ 32 \<Longrightarrow> unat (of_nat n :: u32) = n"
  by (simp add: unat_of_nat)

section \<open>UTF-8\<close>

text \<open>
  \<open>String::from_utf8\<close> accepts the well-formed byte sequences of the Unicode standard: no
  overlong forms, no surrogates, nothing above U+10FFFF.
\<close>

definition utf8_cont :: "u8 \<Rightarrow> bool" where
  "utf8_cont b \<longleftrightarrow> 0x80 \<le> b \<and> b \<le> 0xBF"

fun utf8_valid :: "bytes \<Rightarrow> bool" where
  "utf8_valid [] = True"
| "utf8_valid (b # bs) =
     (if b \<le> 0x7F then utf8_valid bs
      else if 0xC2 \<le> b \<and> b \<le> 0xDF then
        (case bs of c # r \<Rightarrow> utf8_cont c \<and> utf8_valid r | _ \<Rightarrow> False)
      else if 0xE0 \<le> b \<and> b \<le> 0xEF then
        (case bs of c # d # r \<Rightarrow>
           (if b = 0xE0 then 0xA0 \<le> c \<and> c \<le> 0xBF
            else if b = 0xED then 0x80 \<le> c \<and> c \<le> 0x9F
            else utf8_cont c) \<and> utf8_cont d \<and> utf8_valid r | _ \<Rightarrow> False)
      else if 0xF0 \<le> b \<and> b \<le> 0xF4 then
        (case bs of c # d # e # r \<Rightarrow>
           (if b = 0xF0 then 0x90 \<le> c \<and> c \<le> 0xBF
            else if b = 0xF4 then 0x80 \<le> c \<and> c \<le> 0x8F
            else utf8_cont c) \<and> utf8_cont d \<and> utf8_cont e \<and> utf8_valid r | _ \<Rightarrow> False)
      else False)"

lemma utf8_valid_ascii: "\<forall>b \<in> set bs. b \<le> 0x7F \<Longrightarrow> utf8_valid bs"
  by (induction bs) auto

definition from_utf8 :: "bytes \<Rightarrow> rstring \<Rightarrow> rstring io" where
  "from_utf8 bs msg = (if utf8_valid bs then Inr bs else Inl (IoError InvalidData msg))"

lemma from_utf8_valid [simp, io_simps]: "utf8_valid bs \<Longrightarrow> from_utf8 bs msg = Inr bs"
  by (simp add: from_utf8_def)

lemma from_utf8_Inr: "from_utf8 bs msg = Inr s \<longleftrightarrow> utf8_valid bs \<and> s = bs"
  by (auto simp: from_utf8_def)

section \<open>Decimal text of integers\<close>

text \<open>\<open>to_string\<close> and \<open>parse\<close> of the integer types.\<close>

fun nat_dec :: "nat \<Rightarrow> bytes" where
  "nat_dec n = (if n < 10 then [of_nat (48 + n)] else nat_dec (n div 10) @ [of_nat (48 + n mod 10)])"

declare nat_dec.simps [simp del]

fun dec_nat :: "nat \<Rightarrow> bytes \<Rightarrow> nat option" where
  "dec_nat acc [] = Some acc"
| "dec_nat acc (b # bs) =
     (if 48 \<le> b \<and> b \<le> 57 then dec_nat (10 * acc + (unat b - 48)) bs else None)"

definition i64_to_string :: "i64 \<Rightarrow> bytes" where
  "i64_to_string w =
     (if sint w < 0 then 45 # nat_dec (nat (- sint w)) else nat_dec (nat (sint w)))"

definition i64_parse :: "bytes \<Rightarrow> i64 option" where
  "i64_parse bs =
     (case bs of [] \<Rightarrow> None
      | b # ds \<Rightarrow>
          if b = 45 then
            (if ds = [] then None
             else case dec_nat 0 ds of None \<Rightarrow> None
                  | Some n \<Rightarrow> if n \<le> 2 ^ 63 then Some (word_of_int (- int n)) else None)
          else
            (let ds' = (if b = 43 then ds else bs) in
             if ds' = [] then None
             else case dec_nat 0 ds' of None \<Rightarrow> None
                  | Some n \<Rightarrow> if n < 2 ^ 63 then Some (word_of_int (int n)) else None))"

definition u32_to_string :: "u32 \<Rightarrow> bytes" where
  "u32_to_string w = nat_dec (unat w)"

definition u32_parse :: "bytes \<Rightarrow> u32 option" where
  "u32_parse bs =
     (let ds = (case bs of b # r \<Rightarrow> if b = 43 then r else bs | [] \<Rightarrow> []) in
      if ds = [] then None
      else case dec_nat 0 ds of None \<Rightarrow> None
           | Some n \<Rightarrow> if n < 2 ^ 32 then Some (of_nat n) else None)"

definition is_digit :: "u8 \<Rightarrow> bool" where
  "is_digit b \<longleftrightarrow> 48 \<le> b \<and> b \<le> 57"

lemma digit_byte:
  assumes "d < 10"
  shows "is_digit (of_nat (48 + d))" and "unat (of_nat (48 + d) :: u8) = 48 + d"
proof -
  from assms show eq: "unat (of_nat (48 + d) :: u8) = 48 + d"
    by (simp add: unat_of_nat del: of_nat_add)
  with assms show "is_digit (of_nat (48 + d))"
    by (simp add: is_digit_def word_le_nat_alt del: of_nat_add)
qed

lemma nat_dec_digits: "\<forall>b \<in> set (nat_dec n). is_digit b"
proof (induction n rule: nat_dec.induct)
  case (1 n)
  then show ?case
    using digit_byte(1) [of n] digit_byte(1) [of "n mod 10"]
    by (subst nat_dec.simps) (auto simp del: of_nat_add)
qed

lemma nat_dec_nonempty [simp]: "nat_dec n \<noteq> []"
  by (subst nat_dec.simps) simp

lemma dec_nat_append:
  "dec_nat acc (xs @ ys) = Option.bind (dec_nat acc xs) (\<lambda>a. dec_nat a ys)"
  by (induction xs arbitrary: acc) auto

lemma dec_nat_digit: "d < 10 \<Longrightarrow> dec_nat acc [of_nat (48 + d)] = Some (10 * acc + d)"
  using digit_byte [of d] by (simp add: is_digit_def del: of_nat_add)

lemma dec_nat_nat_dec: "dec_nat 0 (nat_dec n) = Some n"
proof (induction n rule: nat_dec.induct)
  case (1 n)
  show ?case
  proof (cases "n < 10")
    case True
    then show ?thesis
      using dec_nat_digit [of n 0] by (subst nat_dec.simps) (simp del: of_nat_add dec_nat.simps)
  next
    case False
    with 1 show ?thesis
      using dec_nat_digit [of "n mod 10" "n div 10"]
      by (subst nat_dec.simps) (simp add: dec_nat_append del: of_nat_add dec_nat.simps)
  qed
qed

lemma digits_utf8: "\<forall>b \<in> set bs. is_digit b \<Longrightarrow> utf8_valid bs"
proof (rule utf8_valid_ascii, rule ballI)
  fix b assume "\<forall>b \<in> set bs. is_digit b" "b \<in> set bs"
  then have "b \<le> 57" by (simp add: is_digit_def)
  then show "b \<le> 0x7F" by (rule order_trans) simp
qed

lemma nat_dec_head: "\<exists>b r. nat_dec n = b # r \<and> b \<noteq> 45 \<and> b \<noteq> 43"
proof -
  obtain b r where br: "nat_dec n = b # r" by (cases "nat_dec n") simp_all
  with nat_dec_digits [of n] have "48 \<le> b" by (simp add: is_digit_def)
  then have "b \<noteq> 45 \<and> b \<noteq> 43" by auto
  with br show ?thesis by blast
qed

lemma i64_parse_to_string [simp, codec]: "i64_parse (i64_to_string w) = Some w"
proof -
  have lo: "- (2 ^ 63) \<le> sint w" and hi: "sint w < 2 ^ 63"
    using sint_ge [of w] sint_lt [of w] by simp_all
  show ?thesis
  proof (cases "sint w < 0")
    case True
    with lo show ?thesis
      by (simp add: i64_to_string_def i64_parse_def dec_nat_nat_dec)
  next
    case False
    obtain b r where "nat_dec (nat (sint w)) = b # r" "b \<noteq> 45" "b \<noteq> 43"
      using nat_dec_head by blast
    moreover have "dec_nat 0 (nat_dec (nat (sint w))) = Some (nat (sint w))"
      by (rule dec_nat_nat_dec)
    ultimately show ?thesis
      using False hi by (simp add: i64_to_string_def i64_parse_def del: dec_nat.simps)
  qed
qed

lemma i64_to_string_utf8 [simp]: "utf8_valid (i64_to_string w)"
  using digits_utf8 [OF nat_dec_digits] by (simp add: i64_to_string_def)

lemma u32_parse_to_string [simp, codec]: "u32_parse (u32_to_string w) = Some w"
proof -
  have "unat w < 2 ^ LENGTH(32)" by (rule unsigned_less)
  moreover obtain b r where "nat_dec (unat w) = b # r" "b \<noteq> 43"
    using nat_dec_head by blast
  moreover have "dec_nat 0 (nat_dec (unat w)) = Some (unat w)"
    by (rule dec_nat_nat_dec)
  ultimately show ?thesis
    by (simp add: u32_parse_def u32_to_string_def del: dec_nat.simps)
qed

section \<open>Association lists\<close>

lemma set_update_sub: "set (AList.update k v al) \<subseteq> insert (k, v) (set al)"
  by (induction al) auto

lemma update_keeps_keys: "map_of al k \<noteq> None \<Longrightarrow> map fst (AList.update k v al) = map fst al"
  by (induction al) auto

section \<open>External code\<close>

text \<open>
  What the code calls and the repository does not hold, as a parameter of the model:
  \<^item> \<open>f64_to_string\<close>, \<open>f64_parse\<close>: the decimal text of a 64-bit float (its bit
    pattern here) and the parser of such text;
  \<^item> \<open>xxh3_128\<close>: the hash of the \<open>xxhash_rust\<close> crate;
  \<^item> \<open>bloom_bits n\<close> and \<open>bloom_hashes m n\<close>: the floating point expressions
    \<open>ceil(-n ln p / (ln 2)^2)\<close> and \<open>round(m / n ln 2)\<close> of \<open>BloomFilter::new\<close>
    at \<open>p = 0.01\<close>, cast to \<open>usize\<close>.
\<close>

record ext =
  f64_to_string :: "f64 \<Rightarrow> bytes"
  f64_parse :: "bytes \<Rightarrow> f64 option"
  xxh3_128 :: "bytes \<Rightarrow> u128"
  bloom_bits :: "nat \<Rightarrow> nat"
  bloom_hashes :: "nat \<Rightarrow> nat \<Rightarrow> nat"

text \<open>A concrete instance, at which the witnesses of this development are evaluated.\<close>

definition sample_ext :: ext where
  "sample_ext =
     \<lparr>f64_to_string = (\<lambda>w. nat_dec (unat w)),
      f64_parse = (\<lambda>bs. map_option of_nat (dec_nat 0 bs)),
      xxh3_128 = (\<lambda>bs. of_nat (le_nat bs)),
      bloom_bits = (\<lambda>n. 10 * max 1 n),
      bloom_hashes = (\<lambda>m n. 7)\<rparr>"

end
