(* ===== verification/Wal_Record.thy ===== *)
theory Wal_Record
  imports Prelude
begin

unbundle bit_operations_syntax

text \<open>
  The write-ahead log record (\<open>src/src/lsm/wal/log_record.rs\<close>): typed values, commands, the
  record with its XOR checksum, its binary layout and the reader of that layout.

  Shown here: every well-formed record is read back exactly, whatever follows it; a record that
  is cut short is never accepted; a single damaged byte in the key is always detected.
\<close>

section \<open>Values and commands\<close>

datatype data_type = DInt | DFloat | DString

fun code :: "data_type \<Rightarrow> u8" where
  "code DInt = 1"
| "code DFloat = 2"
| "code DString = 3"

definition from_code :: "u8 \<Rightarrow> data_type io" where
  "from_code c =
     (if c = 1 then Inr DInt
      else if c = 2 then Inr DFloat
      else if c = 3 then Inr DString
      else Inl (IoError InvalidData (str ''invalid data type'')))"

definition from_u8 :: "u8 \<Rightarrow> data_type io" where
  "from_u8 v =
     (if v = 0 then Inr DInt
      else if v = 1 then Inr DFloat
      else if v = 2 then Inr DString
      else Inl (IoError InvalidData (str ''invalid SSTable value type'')))"

text \<open>The cast \<open>data_type as u8\<close>: the position of the variant.\<close>

fun discriminant :: "data_type \<Rightarrow> u8" where
  "discriminant DInt = 0"
| "discriminant DFloat = 1"
| "discriminant DString = 2"

datatype val = VInt i64 | VFloat f64 | VString rstring

fun val_data_type :: "val \<Rightarrow> data_type" where
  "val_data_type (VInt _) = DInt"
| "val_data_type (VFloat _) = DFloat"
| "val_data_type (VString _) = DString"

fun as_bytes :: "'x ext_scheme \<Rightarrow> val \<Rightarrow> bytes" where
  "as_bytes E (VInt i) = i64_to_string i"
| "as_bytes E (VFloat f) = f64_to_string E f"
| "as_bytes E (VString s) = s"

fun from_bytes :: "'x ext_scheme \<Rightarrow> data_type \<Rightarrow> bytes \<Rightarrow> val io" where
  "from_bytes E DInt bs =
     and_then (from_utf8 bs (str ''invalid UTF-8 integer value'')) (\<lambda>s.
     case i64_parse s of
       None \<Rightarrow> Inl (IoError InvalidData (str ''invalid integer value''))
     | Some i \<Rightarrow> Inr (VInt i))"
| "from_bytes E DFloat bs =
     and_then (from_utf8 bs (str ''invalid UTF-8 float value'')) (\<lambda>s.
     case f64_parse E s of
       None \<Rightarrow> Inl (IoError InvalidData (str ''invalid float value''))
     | Some f \<Rightarrow> Inr (VFloat f))"
| "from_bytes E DString bs =
     and_then (from_utf8 bs (str ''invalid UTF-8 string value'')) (\<lambda>s. Inr (VString s))"

datatype command = CmdSet rstring val | CmdDelete rstring

fun command_key :: "command \<Rightarrow> rstring" where
  "command_key (CmdSet key _) = key"
| "command_key (CmdDelete key) = key"

definition key_len :: "command \<Rightarrow> u32" where
  "key_len c = of_nat (length (command_key c))"

fun value_len :: "'x ext_scheme \<Rightarrow> command \<Rightarrow> u32" where
  "value_len E (CmdSet _ v) = of_nat (length (as_bytes E v))"
| "value_len E (CmdDelete _) = 0"

fun command_value :: "command \<Rightarrow> val option" where
  "command_value (CmdSet _ v) = Some v"
| "command_value (CmdDelete _) = None"

definition command_data_type :: "command \<Rightarrow> data_type option" where
  "command_data_type c = map_option val_data_type (command_value c)"

fun command_code :: "command \<Rightarrow> u8" where
  "command_code (CmdSet _ _) = 1"
| "command_code (CmdDelete _) = 2"

section \<open>Records\<close>

record log_record =
  lr_id :: u64
  lr_command :: command
  lr_checksum :: u8

text \<open>\<open>for byte in bytes { checksum ^= byte }\<close>\<close>

definition xor_bytes :: "u8 \<Rightarrow> bytes \<Rightarrow> u8" where
  "xor_bytes c bs = foldl (XOR) c bs"

definition calculate_checksum :: "'x ext_scheme \<Rightarrow> log_record \<Rightarrow> u8" where
  "calculate_checksum E r =
     (let cmd = lr_command r;
          c = xor_bytes 0 (u64_le (lr_id r));
          c = c XOR command_code cmd;
          c = (case command_data_type cmd of Some d \<Rightarrow> c XOR code d | None \<Rightarrow> c);
          c = xor_bytes c (u32_le (key_len cmd));
          c = xor_bytes c (u32_le (value_len E cmd));
          c = xor_bytes c (command_key cmd)
      in (case command_value cmd of Some v \<Rightarrow> xor_bytes c (as_bytes E v) | None \<Rightarrow> c))"

definition log_record_new :: "'x ext_scheme \<Rightarrow> u64 \<Rightarrow> command \<Rightarrow> log_record" where
  "log_record_new E i c =
     (let r = \<lparr>lr_id = i, lr_command = c, lr_checksum = 0\<rparr>
      in r\<lparr>lr_checksum := calculate_checksum E r\<rparr>)"

text \<open>The bytes that \<open>write_to\<close> appends to its writer.\<close>

definition write_to :: "'x ext_scheme \<Rightarrow> log_record \<Rightarrow> bytes" where
  "write_to E r =
     u64_le (lr_id r) @ [command_code (lr_command r)] @
     (case lr_command r of
        CmdSet key v \<Rightarrow>
          (let value_bytes = as_bytes E v in
           [code (val_data_type v)] @ u32_le (of_nat (length key)) @
           u32_le (of_nat (length value_bytes)) @ key @ value_bytes)
      | CmdDelete key \<Rightarrow>
          [0] @ u32_le (of_nat (length key)) @ u32_le 0 @ key) @
     [lr_checksum r]"

definition read_u8 :: "u8 reader" where
  "read_u8 = rd_bind (read_exact 1) (\<lambda>buf. rd_lift (Inr (hd buf)))"

definition read_u32 :: "u32 reader" where
  "read_u32 = rd_bind (read_exact 4) (\<lambda>buf. rd_lift (Inr (u32_from_le buf)))"

text \<open>End of file in the first field is the end of the log, not an error.\<close>

definition read_u64 :: "bytes \<Rightarrow> (u64 \<times> bytes) option io" where
  "read_u64 bs =
     (case read_exact 8 bs of
        Inr (buf, rest) \<Rightarrow> Inr (Some (u64_from_le buf, rest))
      | Inl e \<Rightarrow> if kind e = UnexpectedEof then Inr None else Inl e)"

definition read_bytes :: "u32 \<Rightarrow> bytes reader" where
  "read_bytes len = read_exact (unat len)"

definition read_utf8 :: "bytes \<Rightarrow> rstring \<Rightarrow> rstring io" where
  "read_utf8 bs field = from_utf8 bs (str ''invalid UTF-8 '' @ field)"

definition read_string :: "u32 \<Rightarrow> rstring \<Rightarrow> rstring reader" where
  "read_string len field = rd_bind (read_bytes len) (\<lambda>bs. rd_lift (read_utf8 bs field))"

definition decode_value :: "'x ext_scheme \<Rightarrow> data_type \<Rightarrow> bytes \<Rightarrow> val io" where
  "decode_value E d value_bytes =
     (case d of
        DInt \<Rightarrow> and_then (read_utf8 value_bytes (str ''value'')) (\<lambda>s.
          case i64_parse s of
            None \<Rightarrow> Inl (IoError InvalidData (str ''invalid integer value''))
          | Some i \<Rightarrow> Inr (VInt i))
      | DFloat \<Rightarrow> and_then (read_utf8 value_bytes (str ''value'')) (\<lambda>s.
          case f64_parse E s of
            None \<Rightarrow> Inl (IoError InvalidData (str ''invalid float value''))
          | Some f \<Rightarrow> Inr (VFloat f))
      | DString \<Rightarrow> and_then (read_utf8 value_bytes (str ''value'')) (\<lambda>s. Inr (VString s)))"

definition read_set :: "'x ext_scheme \<Rightarrow> command reader" where
  "read_set E =
     rd_bind read_u8 (\<lambda>c.
     rd_bind (rd_lift (from_code c)) (\<lambda>data_type.
     rd_bind read_u32 (\<lambda>key_len.
     rd_bind read_u32 (\<lambda>value_len.
     rd_bind (read_string key_len (str ''key'')) (\<lambda>key.
     rd_bind (read_bytes value_len) (\<lambda>value_bytes.
     rd_bind (rd_lift (decode_value E data_type value_bytes)) (\<lambda>v.
     rd_lift (Inr (CmdSet key v)))))))))"

definition read_delete :: "command reader" where
  "read_delete =
     rd_bind read_u8 (\<lambda>data_type.
     if data_type \<noteq> 0 then rd_lift (Inl (IoError InvalidData (str ''invalid delete data type'')))
     else
       rd_bind read_u32 (\<lambda>key_len.
       rd_bind read_u32 (\<lambda>value_len.
       rd_bind (read_string key_len (str ''key'')) (\<lambda>key.
       rd_lift (Inr (CmdDelete key))))))"

text \<open>The part of \<open>read_from\<close> behind the record id.\<close>

definition read_body :: "'x ext_scheme \<Rightarrow> u64 \<Rightarrow> log_record reader" where
  "read_body E i =
     rd_bind read_u8 (\<lambda>command_code.
     rd_bind (if command_code = 1 then read_set E
              else if command_code = 2 then read_delete
              else rd_lift (Inl (IoError InvalidData (str ''invalid command'')))) (\<lambda>command.
     rd_bind read_u8 (\<lambda>checksum.
     let record = \<lparr>lr_id = i, lr_command = command, lr_checksum = checksum\<rparr> in
     rd_lift (if calculate_checksum E record \<noteq> checksum
              then Inl (IoError InvalidData (str ''checksum mismatch''))
              else Inr record))))"

definition read_from :: "'x ext_scheme \<Rightarrow> bytes \<Rightarrow> (log_record \<times> bytes) option io" where
  "read_from E bs =
     and_then (read_u64 bs) (\<lambda>r.
     case r of
       None \<Rightarrow> Inr None
     | Some (i, rest) \<Rightarrow> and_then (read_body E i rest) (\<lambda>x. Inr (Some x)))"

section \<open>Well-formed values, commands and records\<close>

text \<open>
  A value survives its text form: strings are UTF-8 (every Rust \<open>String\<close> is), a float is
  read back from its own text (every float but a NaN with a payload is).
\<close>

fun value_ok :: "'x ext_scheme \<Rightarrow> val \<Rightarrow> bool" where
  "value_ok E (VInt i) = True"
| "value_ok E (VFloat f) =
     (utf8_valid (f64_to_string E f) \<and> f64_parse E (f64_to_string E f) = Some f)"
| "value_ok E (VString s) = utf8_valid s"

definition key_ok :: "rstring \<Rightarrow> bool" where
  "key_ok k \<longleftrightarrow> utf8_valid k \<and> length k < 2 ^ 32"

definition val_fits :: "'x ext_scheme \<Rightarrow> val \<Rightarrow> bool" where
  "val_fits E v \<longleftrightarrow> value_ok E v \<and> length (as_bytes E v) < 2 ^ 32"

fun command_ok :: "'x ext_scheme \<Rightarrow> command \<Rightarrow> bool" where
  "command_ok E (CmdSet k v) = (key_ok k \<and> val_fits E v)"
| "command_ok E (CmdDelete k) = key_ok k"

definition record_ok :: "'x ext_scheme \<Rightarrow> log_record \<Rightarrow> bool" where
  "record_ok E r \<longleftrightarrow> command_ok E (lr_command r) \<and> lr_checksum r = calculate_checksum E r"

section \<open>Lemmas\<close>

lemma from_code_code [simp, codec]: "from_code (code d) = Inr d"
  by (cases d) (simp_all add: from_code_def)

lemma from_u8_discriminant [simp, codec]: "from_u8 (discriminant d) = Inr d"
  by (cases d) (simp_all add: from_u8_def)

lemma as_bytes_utf8: "value_ok E v \<Longrightarrow> utf8_valid (as_bytes E v)"
  by (cases v) simp_all

lemma from_bytes_as_bytes [codec]:
  "value_ok E v \<Longrightarrow> from_bytes E (val_data_type v) (as_bytes E v) = Inr v"
  by (cases v) simp_all

lemma decode_value_as_bytes [codec]:
  "value_ok E v \<Longrightarrow> decode_value E (val_data_type v) (as_bytes E v) = Inr v"
  by (cases v) (simp_all add: decode_value_def read_utf8_def)

lemma read_u8_Cons [simp, io_simps]: "read_u8 (b # rest) = Inr (b, rest)"
proof -
  have "read_exact 1 (b # rest) = Inr ([b], rest)"
    using read_exact_append [of "[b]" 1 rest] by simp
  then show ?thesis by (simp add: read_u8_def)
qed

lemma read_u32_append [simp, io_simps]: "read_u32 (u32_le w @ rest) = Inr (w, rest)"
  by (simp add: read_u32_def)

lemma read_u64_append [simp, io_simps]: "read_u64 (u64_le w @ rest) = Inr (Some (w, rest))"
  by (simp add: read_u64_def)

lemma read_bytes_append [simp, io_simps]:
  "length xs < 2 ^ 32 \<Longrightarrow> read_bytes (of_nat (length xs)) (xs @ rest) = Inr (xs, rest)"
  by (simp add: read_bytes_def unat_of_nat_u32)

lemma read_string_append [simp, io_simps]:
  "length s < 2 ^ 32 \<Longrightarrow>
     read_string (of_nat (length s)) field (s @ rest) = and_then (read_utf8 s field) (\<lambda>s. Inr (s, rest))"
  by (simp add: read_string_def rd_lift_def)

lemma xor_bytes_append: "xor_bytes c (xs @ ys) = xor_bytes (xor_bytes c xs) ys"
  by (simp add: xor_bytes_def)

lemma xor_bytes_split: "xor_bytes c bs = c XOR xor_bytes 0 bs"
proof (induction bs arbitrary: c)
  case (Cons b bs)
  from Cons [of "c XOR b"] Cons [of b] show ?case
    by (simp add: xor_bytes_def xor.assoc)
qed (simp add: xor_bytes_def)

lemma xor_bytes_update:
  assumes "j < length bs"
  shows "xor_bytes c (bs[j := b]) = xor_bytes c bs XOR bs ! j XOR b"
proof -
  let ?xs = "take j bs" and ?ys = "drop (Suc j) bs"
  have bs: "bs = ?xs @ bs ! j # ?ys" and up: "bs[j := b] = ?xs @ b # ?ys"
    using assms by (simp_all add: id_take_nth_drop upd_conv_take_nth_drop)
  have cons: "xor_bytes d (x # zs) = d XOR x XOR xor_bytes 0 zs" for d x zs
    using xor_bytes_split [of "d XOR x" zs] by (simp add: xor_bytes_def xor.assoc)
  have "xor_bytes c (bs[j := b]) = xor_bytes c ?xs XOR b XOR xor_bytes 0 ?ys"
    by (simp add: up xor_bytes_append cons)
  moreover have "xor_bytes c bs = xor_bytes c ?xs XOR bs ! j XOR xor_bytes 0 ?ys"
    by (subst bs) (simp add: xor_bytes_append cons)
  ultimately show ?thesis by (simp add: ac_simps)
qed

lemma xor_cancel: "(c :: u8) XOR a = c XOR b \<longleftrightarrow> a = b"
  by (metis xor.assoc xor_self_eq xor.left_neutral)

lemma xor_bytes_inject: "xor_bytes c bs = xor_bytes d bs \<longleftrightarrow> c = d"
  by (metis xor.commute xor_bytes_split xor_cancel)

lemma checksum_cong:
  "lr_id r = lr_id s \<Longrightarrow> lr_command r = lr_command s \<Longrightarrow>
     calculate_checksum E r = calculate_checksum E s"
  by (simp add: calculate_checksum_def)

lemma log_record_new_simps [simp]:
  "lr_id (log_record_new E i c) = i" "lr_command (log_record_new E i c) = c"
  "lr_checksum (log_record_new E i c) = calculate_checksum E (log_record_new E i c)"
  by (simp_all add: log_record_new_def Let_def) (rule checksum_cong, simp_all)

lemma record_ok_new [simp]: "record_ok E (log_record_new E i c) \<longleftrightarrow> command_ok E c"
  by (simp add: record_ok_def)

lemma log_record_eq_new:
  assumes "record_ok E r"
  shows "log_record_new E (lr_id r) (lr_command r) = r"
proof -
  have "calculate_checksum E (log_record_new E (lr_id r) (lr_command r)) = lr_checksum r"
    using assms checksum_cong [of "log_record_new E (lr_id r) (lr_command r)" r E]
    by (simp add: record_ok_def)
  then show ?thesis by simp
qed

subsection \<open>The readers are exact\<close>

lemma exact_read_u8 [intro, simp]: "exact_reader read_u8"
  unfolding read_u8_def by (intro exact_rd_bind) auto

lemma exact_read_u32 [intro, simp]: "exact_reader read_u32"
  unfolding read_u32_def by (intro exact_rd_bind) auto

lemma exact_read_string [intro, simp]: "exact_reader (read_string n f)"
  unfolding read_string_def read_bytes_def by (intro exact_rd_bind) auto

lemma exact_read_set [intro, simp]: "exact_reader (read_set E)"
  unfolding read_set_def read_bytes_def by (intro exact_rd_bind) auto

lemma exact_read_delete [intro, simp]: "exact_reader read_delete"
  unfolding read_delete_def
  by (intro exact_rd_bind) (auto split: if_splits intro!: exact_rd_bind)

lemma exact_read_body [intro, simp]: "exact_reader (read_body E i)"
  unfolding read_body_def
  by (intro exact_rd_bind) (auto simp: Let_def split: if_splits)

subsection \<open>Reading back what was written\<close>

text \<open>The layout behind the id, with the fields that the reader extracts.\<close>

definition body_bytes :: "'x ext_scheme \<Rightarrow> command \<Rightarrow> rstring \<Rightarrow> u8 \<Rightarrow> bytes" where
  "body_bytes E c key cs =
     [command_code c] @
     (case c of
        CmdSet _ v \<Rightarrow> [code (val_data_type v)] @ u32_le (of_nat (length key)) @
          u32_le (of_nat (length (as_bytes E v))) @ key @ as_bytes E v
      | CmdDelete _ \<Rightarrow> [0] @ u32_le (of_nat (length key)) @ u32_le 0 @ key) @ [cs]"

fun with_key :: "command \<Rightarrow> rstring \<Rightarrow> command" where
  "with_key (CmdSet _ v) k = CmdSet k v"
| "with_key (CmdDelete _) k = CmdDelete k"

lemma with_key_id [simp]: "with_key c (command_key c) = c"
  by (cases c) simp_all

lemma write_to_body: "write_to E r =
  u64_le (lr_id r) @ body_bytes E (lr_command r) (command_key (lr_command r)) (lr_checksum r)"
  by (cases "lr_command r") (simp_all add: write_to_def body_bytes_def Let_def)

lemma body_bytes_key:
  obtains a t where "length a = 10"
    and "\<And>key. length key = length (command_key c) \<Longrightarrow> body_bytes E c key cs = a @ key @ t"
proof (cases c)
  case (CmdSet k v)
  show thesis
    by (rule that [of "1 # code (val_data_type v) # u32_le (of_nat (length k)) @
          u32_le (of_nat (length (as_bytes E v)))" "as_bytes E v @ [cs]"])
      (simp_all add: CmdSet body_bytes_def)
next
  case (CmdDelete k)
  show thesis
    by (rule that [of "2 # 0 # u32_le (of_nat (length k)) @ u32_le 0" "[cs]"])
      (simp_all add: CmdDelete body_bytes_def)
qed

lemma write_to_key_update:
  assumes j: "j < length (command_key (lr_command r))"
  shows "(write_to E r @ rest)[18 + j := b] =
    u64_le (lr_id r) @ body_bytes E (lr_command r) ((command_key (lr_command r))[j := b]) (lr_checksum r) @ rest"
proof -
  obtain a t where a: "length a = 10"
      and body: "\<And>key. length key = length (command_key (lr_command r)) \<Longrightarrow>
        body_bytes E (lr_command r) key (lr_checksum r) = a @ key @ t"
    using body_bytes_key by metis
  then show ?thesis
    using list_update_middle [of "u64_le (lr_id r) @ a" 18 j "command_key (lr_command r)" "t @ rest" b] j
    by (simp add: write_to_body)
qed

lemma read_body_bytes:
  assumes "command_ok E c" and "length key = length (command_key c)"
  shows "read_body E i (body_bytes E c key cs @ rest) =
    (if \<not> utf8_valid key then Inl (IoError InvalidData (str ''invalid UTF-8 key''))
     else let r = \<lparr>lr_id = i, lr_command = with_key c key, lr_checksum = cs\<rparr> in
       if calculate_checksum E r \<noteq> cs then Inl (IoError InvalidData (str ''checksum mismatch''))
       else Inr (r, rest))"
proof (cases c)
  case (CmdSet k v)
  with assms have "length key < 2 ^ 32" and "val_fits E v" by (auto simp: key_ok_def)
  with CmdSet show ?thesis
    by (simp add: read_body_def read_set_def body_bytes_def val_fits_def read_utf8_def
        from_utf8_def str_def decode_value_as_bytes rd_lift_def rd_bind_def Let_def)
next
  case (CmdDelete k)
  with assms have "length key < 2 ^ 32" by (auto simp: key_ok_def)
  with CmdDelete show ?thesis
    by (simp add: read_body_def read_delete_def body_bytes_def read_utf8_def
        from_utf8_def str_def rd_lift_def rd_bind_def Let_def)
qed

lemma read_from_write_to [simp, codec]:
  assumes "record_ok E r"
  shows "read_from E (write_to E r @ rest) = Inr (Some (r, rest))"
proof -
  let ?c = "lr_command r"
  from assms have ok: "command_ok E ?c" and cs: "lr_checksum r = calculate_checksum E r"
    by (auto simp: record_ok_def)
  from ok have "utf8_valid (command_key ?c)" by (cases ?c) (auto simp: key_ok_def)
  moreover have eta: "\<lparr>lr_id = lr_id r, lr_command = ?c, lr_checksum = lr_checksum r\<rparr> = r" by simp
  ultimately show ?thesis
    using read_body_bytes [OF ok refl, of "lr_id r" "lr_checksum r" rest]
    by (simp add: read_from_def write_to_body cs [symmetric] eta Let_def)
qed

lemma read_from_progress: "read_from E bs = Inr (Some (r, rest)) \<Longrightarrow> length rest < length bs"
proof -
  assume "read_from E bs = Inr (Some (r, rest))"
  then obtain i rest' where "read_u64 bs = Inr (Some (i, rest'))"
      and body: "read_body E i rest' = Inr (r, rest)"
    by (auto simp: read_from_def and_then_eq_Inr split: option.splits)
  then have "length bs = length rest' + 8"
    by (auto simp: read_u64_def read_exact_Inr split: sum.splits if_splits)
  moreover from exact_reader_suffix [OF exact_read_body body] have "length rest \<le> length rest'"
    by auto
  ultimately show ?thesis by simp
qed

lemma read_from_short: "length bs < 8 \<Longrightarrow> read_from E bs = Inr None"
  by (simp add: read_from_def read_u64_def)

lemma read_from_torn:
  assumes ok: "record_ok E r" and cut: "write_to E r = p @ q" and "q \<noteq> []" and len: "8 \<le> length p"
  shows "\<exists>e. read_from E p = Inl e \<and> kind e = UnexpectedEof"
proof -
  from len cut obtain p' where p: "p = u64_le (lr_id r) @ p'"
      and b: "body_bytes E (lr_command r) (command_key (lr_command r)) (lr_checksum r) = p' @ q"
  proof -
    from cut len have "take 8 p = u64_le (lr_id r)"
      by (metis (no_types, lifting) append_eq_conv_conj length_u64_le take_append take_all_iff
          diff_is_0_eq take0 append_Nil2 write_to_body)
    with cut that [of "drop 8 p"] show thesis
      by (metis append_assoc append_take_drop_id same_append_eq write_to_body)
  qed
  have "read_from E (p @ q) = Inr (Some (r, []))"
    using read_from_write_to [OF ok, of "[]"] cut by simp
  then have "read_body E (lr_id r) (p' @ q) = Inr (r, [])"
    by (auto simp: p read_from_def and_then_eq_Inr)
  then obtain e where "read_body E (lr_id r) p' = Inl e" "kind e = UnexpectedEof"
    using exact_reader_cut [OF exact_read_body, of E "lr_id r" p' q r "[]"] \<open>q \<noteq> []\<close> by auto
  then show ?thesis by (simp add: p read_from_def)
qed

lemma checksum_key_update:
  assumes "j < length (command_key c)" and "b \<noteq> command_key c ! j"
  shows "calculate_checksum E \<lparr>lr_id = i, lr_command = with_key c ((command_key c)[j := b]), lr_checksum = x\<rparr>
       \<noteq> calculate_checksum E \<lparr>lr_id = i, lr_command = c, lr_checksum = y\<rparr>"
proof -
  have "(a :: u8) XOR (command_key c ! j XOR b) \<noteq> a" for a
    using assms(2) by (metis xor_cancel xor.right_neutral xor_self_eq)
  with assms(1) show ?thesis
    by (cases c) (auto simp: calculate_checksum_def Let_def command_data_type_def key_len_def
        xor_bytes_update xor_bytes_inject xor.assoc)
qed

section \<open>Properties\<close>

lemmas sample_eval = key_ok_def val_fits_def i64_to_string_def nat_dec.simps write_to_def u64_le_def
  u32_le_def log_record_new_def calculate_checksum_def xor_bytes_def command_data_type_def key_len_def
  le_bytes_numeral

text \<open>
  C31. A record built by \<open>LogRecord::new\<close> and written by \<open>write_to\<close> is returned
  unchanged by \<open>read_from\<close>, which leaves exactly the bytes that follow the record.
\<close>

theorem wal_record_roundtrip:
  assumes "command_ok E c"
  shows "read_from E (write_to E (log_record_new E i c) @ rest)
         = Inr (Some (log_record_new E i c, rest))"
  using assms by simp

theorem wal_record_roundtrip_witness:
  "read_from sample_ext (write_to sample_ext (log_record_new sample_ext 7 (CmdSet [107] (VInt 5))) @ [1, 2])
   = Inr (Some (log_record_new sample_ext 7 (CmdSet [107] (VInt 5)), [1, 2]))"
proof -
  have "command_ok sample_ext (CmdSet [107] (VInt 5))"
    by (simp add: sample_eval)
  then show ?thesis by (rule wal_record_roundtrip)
qed

text \<open>
  A record of which only a proper prefix reached the file is never accepted: with less than
  the eight id bytes the reader reports the end of the log, with more it fails with
  \<open>UnexpectedEof\<close>.
\<close>

theorem wal_record_torn:
  assumes "command_ok E c" and "write_to E (log_record_new E i c) = p @ q" and "q \<noteq> []"
  shows "if length p < 8 then read_from E p = Inr None
         else \<exists>e. read_from E p = Inl e \<and> kind e = UnexpectedEof"
  using read_from_torn [of E "log_record_new E i c" p q] read_from_short [of p E] assms by simp

theorem wal_record_torn_witness:
  "\<exists>e. read_from sample_ext [0, 0, 0, 0, 0, 0, 0, 0, 2] = Inl e \<and> kind e = UnexpectedEof"
proof -
  have "command_ok sample_ext (CmdDelete [107])" by (simp add: sample_eval)
  moreover have "write_to sample_ext (log_record_new sample_ext 0 (CmdDelete [107]))
      = [0, 0, 0, 0, 0, 0, 0, 0, 2] @ [0, 1, 0, 0, 0, 0, 0, 0, 0, 107, 104]" by (simp add: sample_eval)
  ultimately show ?thesis
    using wal_record_torn [of sample_ext "CmdDelete [107]" 0 "[0, 0, 0, 0, 0, 0, 0, 0, 2]"
        "[0, 1, 0, 0, 0, 0, 0, 0, 0, 107, 104]"] by simp
qed

text \<open>
  C32. Any change of one byte of the stored key makes \<open>read_from\<close> fail with
  \<open>InvalidData\<close>: the XOR checksum (or the UTF-8 check) detects it. The key starts at byte 18
  of the record.
\<close>

theorem wal_key_corruption_detected:
  assumes ok: "command_ok E c" and j: "j < length (command_key c)" and b: "b \<noteq> command_key c ! j"
  shows "\<exists>e. read_from E ((write_to E (log_record_new E i c) @ rest)[18 + j := b]) = Inl e
           \<and> kind e = InvalidData"
proof -
  let ?r = "log_record_new E i c" and ?k = "(command_key c)[j := b]"
  have upd: "(write_to E ?r @ rest)[18 + j := b]
      = u64_le i @ body_bytes E c ?k (lr_checksum ?r) @ rest"
    using write_to_key_update [of j ?r E rest b] j by simp
  have "lr_checksum ?r = calculate_checksum E \<lparr>lr_id = i, lr_command = c, lr_checksum = 0\<rparr>"
    by (simp add: log_record_new_def)
  then have "calculate_checksum E \<lparr>lr_id = i, lr_command = with_key c ?k, lr_checksum = lr_checksum ?r\<rparr>
      \<noteq> lr_checksum ?r"
    using checksum_key_update [OF j b, of E i "lr_checksum ?r" 0] by metis
  then show ?thesis
    using read_body_bytes [OF ok, of ?k i "lr_checksum ?r" rest]
    unfolding upd read_from_def by (auto simp: Let_def)
qed

theorem wal_key_corruption_detected_witness:
  "\<exists>e. read_from sample_ext
      ((write_to sample_ext (log_record_new sample_ext 3 (CmdDelete [107, 49])) @ [])[18 + 1 := 50]) = Inl e
    \<and> kind e = InvalidData"
proof -
  have "command_ok sample_ext (CmdDelete [107, 49])" by (simp add: sample_eval)
  moreover have "1 < length (command_key (CmdDelete [107, 49]))" by simp
  moreover have "50 \<noteq> command_key (CmdDelete [107, 49]) ! 1" by simp
  ultimately show ?thesis by (rule wal_key_corruption_detected)
qed

end
