(* ===== verification/Raft_Types.thy ===== *)
theory Raft_Types
  imports Wal_Record
begin

text \<open>
  The data of the Raft layer: roles, log entries, messages (\<open>src/src/raft/node.rs\<close>,
  \<open>message.rs\<close>), store requests and responders (\<open>request.rs\<close>), and the \<open>bincode\<close>
  codec of log entries as a parameter of the model.
\<close>

section \<open>Nodes and log entries\<close>

type_synonym node_id = u64

datatype role = Follower | Candidate | Leader

fun role_debug :: "role \<Rightarrow> rstring" where
  "role_debug Follower = str ''Follower''"
| "role_debug Candidate = str ''Candidate''"
| "role_debug Leader = str ''Leader''"

datatype entry_payload =
    PCommand log_record
  | PAddNode node_id rstring
  | PRemoveNode node_id

record log_entry =
  le_term :: u64
  le_payload :: entry_payload

datatype peer_change = AddPeer node_id rstring | RemovePeer node_id

section \<open>Messages\<close>

record append_entries =
  ae_term :: u64
  ae_leader_id :: node_id
  ae_prev_log_index :: nat
  ae_prev_log_term :: u64
  ae_entries :: "log_entry list"
  ae_leader_commit :: nat

record append_entries_response =
  ar_term :: u64
  ar_follower_id :: node_id
  ar_success :: bool
  ar_match_index :: nat

record request_vote =
  rv_term :: u64
  rv_candidate_id :: node_id
  rv_last_log_index :: nat
  rv_last_log_term :: u64

record request_vote_response =
  vr_term :: u64
  vr_voter_id :: node_id
  vr_vote_granted :: bool

record client_request =
  cr_request_id :: u64
  cr_client_id :: node_id
  cr_command :: command

record client_query =
  cq_request_id :: u64
  cq_client_id :: node_id
  cq_key :: rstring

record status_query =
  sq_request_id :: u64
  sq_client_id :: node_id

record client_response =
  cp_request_id :: u64
  cp_success :: bool
  cp_value :: "val option"
  cp_message :: rstring
  cp_leader_id :: "node_id option"
  cp_node_id :: node_id
  cp_role :: rstring
  cp_term :: u64
  cp_peers :: "node_id list"

record add_node =
  an_id :: node_id
  an_addr :: rstring

record remove_node =
  rm_id :: node_id

datatype message =
    MRequestVote request_vote
  | MRequestVoteResponse request_vote_response
  | MAppendEntries append_entries
  | MAppendEntriesResponse append_entries_response
  | MClientCommand command
  | MClientRequest client_request
  | MClientQuery client_query
  | MStatusQuery status_query
  | MClientResponse client_response
  | MAddNode add_node
  | MRemoveNode remove_node
  | MTimeout

type_synonym outbox = "(node_id \<times> message) list"

section \<open>Store requests\<close>

datatype store_operation = OpSet rstring val | OpDelete rstring | OpGet rstring | OpStatus

fun to_command :: "store_operation \<Rightarrow> command option" where
  "to_command (OpSet key v) = Some (CmdSet key v)"
| "to_command (OpDelete key) = Some (CmdDelete key)"
| "to_command (OpGet key) = None"
| "to_command OpStatus = None"

record service_response =
  sv_success :: bool
  sv_value :: "val option"
  sv_message :: rstring
  sv_leader_id :: "u64 option"
  sv_term :: u64

text \<open>A one-shot channel is a number; what is sent on channels is recorded in order.\<close>

type_synonym channel = nat

datatype responder = Oneshot channel | RaftClient node_id u64

type_synonym oneshots = "(channel \<times> service_response) list"

record store_request =
  sr_operation :: store_operation
  sr_responder :: responder

definition responder_send ::
  "responder \<Rightarrow> bool \<Rightarrow> val option \<Rightarrow> rstring \<Rightarrow> node_id option \<Rightarrow> u64 \<Rightarrow> node_id \<Rightarrow> role \<Rightarrow>
     node_id list \<Rightarrow> oneshots \<times> outbox \<Rightarrow> oneshots \<times> outbox" where
  "responder_send rsp success v msg leader_id term node_id role peers out =
     (case rsp of
        Oneshot tx \<Rightarrow>
          (fst out @ [(tx, \<lparr>sv_success = success, sv_value = v, sv_message = msg,
             sv_leader_id = leader_id, sv_term = term\<rparr>)], snd out)
      | RaftClient client_id request_id \<Rightarrow>
          (fst out, snd out @ [(client_id, MClientResponse
             \<lparr>cp_request_id = request_id, cp_success = success, cp_value = v, cp_message = msg,
              cp_leader_id = leader_id, cp_node_id = node_id, cp_role = role_debug role,
              cp_term = term, cp_peers = peers\<rparr>)]))"

section \<open>The codec of log entries\<close>

text \<open>\<open>bincode::serialize\<close> and \<open>bincode::deserialize\<close> at the type of log entries.\<close>

record raft_ext = ext +
  bincode_serialize :: "log_entry \<Rightarrow> bytes io"
  bincode_deserialize :: "bytes \<Rightarrow> log_entry io"

text \<open>
  What the code relies on: an entry is read back from its own bytes, and these are fewer than the
  64 MiB that the reader of the log file accepts.
\<close>

definition entry_codec_ok :: "'x raft_ext_scheme \<Rightarrow> log_entry \<Rightarrow> bool" where
  "entry_codec_ok E e \<longleftrightarrow>
     (case bincode_serialize E e of
        Inl _ \<Rightarrow> False
      | Inr payload \<Rightarrow> length payload \<le> 64 * 1024 * 1024 \<and> bincode_deserialize E payload = Inr e)"

text \<open>A concrete codec, for the witnesses.\<close>

fun sample_payload :: "entry_payload \<Rightarrow> bytes" where
  "sample_payload (PCommand r) = 0 # write_to sample_ext r"
| "sample_payload (PAddNode i addr) = 1 # u64_le i @ addr"
| "sample_payload (PRemoveNode i) = 2 # u64_le i"

definition sample_decode :: "bytes \<Rightarrow> log_entry io" where
  "sample_decode bs =
     (let term = u64_from_le (take 8 bs); rest = drop 9 bs in
      if length bs < 9 then Inl (IoError InvalidData [])
      else if bs ! 8 = 0 then
        (case read_from sample_ext rest of
           Inr (Some (r, [])) \<Rightarrow> Inr \<lparr>le_term = term, le_payload = PCommand r\<rparr>
         | _ \<Rightarrow> Inl (IoError InvalidData []))
      else if length rest < 8 then Inl (IoError InvalidData [])
      else if bs ! 8 = 1 then
        Inr \<lparr>le_term = term, le_payload = PAddNode (u64_from_le (take 8 rest)) (drop 8 rest)\<rparr>
      else Inr \<lparr>le_term = term, le_payload = PRemoveNode (u64_from_le (take 8 rest))\<rparr>)"

definition sample_raft_ext :: raft_ext where
  "sample_raft_ext =
     \<lparr>f64_to_string = f64_to_string sample_ext, f64_parse = f64_parse sample_ext,
      xxh3_128 = xxh3_128 sample_ext, bloom_bits = bloom_bits sample_ext,
      bloom_hashes = bloom_hashes sample_ext,
      bincode_serialize = (\<lambda>e. Inr (u64_le (le_term e) @ sample_payload (le_payload e))),
      bincode_deserialize = sample_decode\<rparr>"

lemma nth_after: "length xs = n \<Longrightarrow> (xs @ y # ys) ! n = y"
  by (simp add: nth_append)

lemma sample_codec_command:
  assumes "record_ok sample_ext r" and "length (write_to sample_ext r) < 2 ^ 20"
  shows "entry_codec_ok sample_raft_ext \<lparr>le_term = t, le_payload = PCommand r\<rparr>"
  using assms read_from_write_to [OF assms(1), of "[]"]
  by (simp add: entry_codec_ok_def sample_raft_ext_def sample_decode_def Let_def nth_after)

end
