(* ===== verification/Record_Log.thy ===== *)
theory Record_Log
  imports Prelude
begin

text \<open>
  The contract that the write-ahead log and the Raft log file share: a file of records that are
  appended one by one and scanned from the start until the end of the file or the first record
  that does not parse. The laws are what the record reader promises; what a scan returns after
  complete writes, and after a crash that cut the file anywhere, is proved here once and used at
  both interpretations.
\<close>

locale record_log =
  fixes enc :: "'r \<Rightarrow> bytes"
    and read :: "bytes \<Rightarrow> ('r \<times> bytes) option io"
    and ok :: "'r \<Rightarrow> bool"
    and scan :: "'r list \<Rightarrow> nat \<Rightarrow> bytes \<Rightarrow> 'r list \<times> nat option"
  assumes read_enc: "ok r \<Longrightarrow> read (enc r @ rest) = Inr (Some (r, rest))"
    and read_nil: "read [] = Inr None"
    and read_torn: "ok r \<Longrightarrow> enc r = p @ q \<Longrightarrow> q \<noteq> [] \<Longrightarrow> read p = Inr None \<or> (\<exists>e. read p = Inl e)"
    and scan_unfold: "scan acc pos bs =
      (case read bs of
         Inr (Some (r, rest)) \<Rightarrow> scan (acc @ [r]) (pos + (length bs - length rest)) rest
       | Inr None \<Rightarrow> (acc, None)
       | Inl e \<Rightarrow> (acc, Some pos))"
begin

abbreviation file_of :: "'r list \<Rightarrow> bytes" where
  "file_of rs \<equiv> concat (map enc rs)"

lemma scan_append:
  "list_all ok rs \<Longrightarrow> scan acc pos (file_of rs @ bs) = scan (acc @ rs) (pos + length (file_of rs)) bs"
proof (induction rs arbitrary: acc pos)
  case (Cons r rs)
  then have "scan acc pos (file_of (r # rs) @ bs) =
      scan (acc @ [r]) (pos + length (enc r)) (file_of rs @ bs)"
    by (subst scan_unfold) (simp add: read_enc)
  with Cons show ?case by (simp add: add.assoc)
qed simp

lemma scan_complete: "list_all ok rs \<Longrightarrow> scan acc pos (file_of rs) = (acc @ rs, None)"
  using scan_append [of rs acc pos "[]"]
  by (simp add: scan_unfold [of "acc @ rs" _ "[]"] read_nil)

lemma enc_nonempty: "ok r \<Longrightarrow> enc r \<noteq> []"
  using read_enc [of r "[]"] read_nil by auto

lemma scan_torn:
  assumes "list_all ok rs" and "ok r" and "enc r = p @ q" and "q \<noteq> []"
  shows "scan acc pos (file_of rs @ p) =
    (acc @ rs, if read p = Inr None then None else Some (pos + length (file_of rs)))"
  using assms read_torn [of r p q]
  by (auto simp: scan_append scan_unfold [of _ _ p])

text \<open>A prefix of the file is some complete records and a proper prefix of the next one.\<close>

lemma prefix_split:
  assumes "list_all ok rs" and "n \<le> length (file_of rs)"
  shows "\<exists>m p. m \<le> length rs \<and> take n (file_of rs) = file_of (take m rs) @ p \<and>
    (p = [] \<or> (m < length rs \<and> (\<exists>q. q \<noteq> [] \<and> enc (rs ! m) = p @ q)))"
  using assms
proof (induction rs arbitrary: n)
  case (Cons r rs)
  show ?case
  proof (cases "n < length (enc r)")
    case True
    then have "drop n (enc r) \<noteq> []" by simp
    with True show ?thesis
      by (intro exI [of _ 0] exI [of _ "take n (enc r)"])
        (auto intro!: exI [of _ "drop n (enc r)"])
  next
    case False
    with Cons.prems have "n - length (enc r) \<le> length (file_of rs)" "list_all ok rs" by auto
    then obtain m p where
      "m \<le> length rs" "take (n - length (enc r)) (file_of rs) = file_of (take m rs) @ p"
      "p = [] \<or> (m < length rs \<and> (\<exists>q. q \<noteq> [] \<and> enc (rs ! m) = p @ q))"
      using Cons.IH by blast
    with False show ?thesis
      by (intro exI [of _ "Suc m"] exI [of _ p]) auto
  qed
qed simp

lemma scan_prefix:
  assumes "list_all ok rs" and "n \<le> length (file_of rs)"
  obtains m t where "m \<le> length rs" and "scan [] 0 (take n (file_of rs)) = (take m rs, t)"
    and "length (file_of (take m rs)) \<le> n"
    and "m < length rs \<Longrightarrow> n < length (file_of (take (Suc m) rs))"
    and "case t of None \<Rightarrow> True | Some pos \<Rightarrow> pos = length (file_of (take m rs))"
proof -
  obtain m p where m: "m \<le> length rs" and cut: "take n (file_of rs) = file_of (take m rs) @ p"
    and p: "p = [] \<or> (m < length rs \<and> (\<exists>q. q \<noteq> [] \<and> enc (rs ! m) = p @ q))"
    using prefix_split [OF assms] by blast
  have oks: "list_all ok (take m rs)"
    using assms(1) by (auto simp: list_all_iff dest: in_set_takeD)
  have n: "n = length (file_of (take m rs)) + length p"
    using arg_cong [OF cut, of length] assms(2) by simp
  have next_len: "length p < length (enc (rs ! m))" if "m < length rs"
    using p that enc_nonempty [of "rs ! m"] assms(1) by (auto simp: list_all_length)
  have bound: "m < length rs \<Longrightarrow> n < length (file_of (take (Suc m) rs))"
    using next_len by (simp add: n take_Suc_conv_app_nth)
  from p show thesis
  proof
    assume "p = []"
    with that [of m None] m oks n bound cut show thesis
      by (simp add: scan_complete)
  next
    assume "m < length rs \<and> (\<exists>q. q \<noteq> [] \<and> enc (rs ! m) = p @ q)"
    then obtain q where q: "q \<noteq> []" "enc (rs ! m) = p @ q" and "m < length rs" by blast
    then have "ok (rs ! m)" using assms(1) by (simp add: list_all_length)
    with oks q show thesis
      using scan_torn [of "take m rs" "rs ! m" p q "[]" 0]
        that [of m "if read p = Inr None then None else Some (length (file_of (take m rs)))"]
        m n bound cut by simp
  qed
qed

end

end
