(* ===== verification/Raft_Log_Store.thy ===== *)
theory Raft_Log_Store
  imports Raft_Types Record_Log
begin

text \<open>
  The durable state of a Raft node (\<open>src/src/raft/log_store.rs\<close>): the file of framed log
  entries with the offsets that truncation needs, and the fixed-size metadata record.

  Shown here: what was appended is read back after a restart, after truncation too; a crash that
  cuts the file leaves a prefix of the entries; the metadata record is read back, except for a
  vote for node 0.
\<close>

section \<open>The log file\<close>

record raft_log_store =
  ls_file :: bytes
  ls_offsets :: "nat list"

definition MAX_ENTRY_SIZE :: nat where
  "MAX_ENTRY_SIZE = 64 * 1024 * 1024"

text \<open>\<open>map_err(|e| io::Error::new(io::ErrorKind::InvalidData, e))\<close>\<close>

definition invalid_data :: "'a io \<Rightarrow> 'a io" where
  "invalid_data r = (case r of Inl e \<Rightarrow> Inl (IoError InvalidData (message e)) | Inr x \<Rightarrow> Inr x)"

definition raft_read_entry :: "'x raft_ext_scheme \<Rightarrow> bytes \<Rightarrow> (log_entry \<times> bytes) option io" where
  "raft_read_entry E bs =
     (case read_exact 4 bs of
        Inl e \<Rightarrow> if kind e = UnexpectedEof then Inr None else Inl e
      | Inr (len_buf, rest) \<Rightarrow>
          (let len = unat (u32_from_le len_buf) in
           if len > MAX_ENTRY_SIZE then
             Inl (IoError InvalidData (str ''entry length '' @ nat_dec len @ str '' exceeds maximum '' @ nat_dec MAX_ENTRY_SIZE))
           else
             and_then (read_exact len rest) (\<lambda>(payload, rest).
             and_then (invalid_data (bincode_deserialize E payload)) (\<lambda>entry.
             Inr (Some (entry, rest))))))"

lemma raft_read_entry_progress:
  "raft_read_entry E bs = Inr (Some (e, rest)) \<Longrightarrow> length rest < length bs"
  by (auto simp: raft_read_entry_def Let_def and_then_eq_Inr read_exact_Inr split: sum.splits if_splits prod.splits)

text \<open>The loop of \<open>open\<close>: entries, offsets, and where to cut a corrupt tail.\<close>

function open_loop ::
  "'x raft_ext_scheme \<Rightarrow> log_entry list \<Rightarrow> nat list \<Rightarrow> nat \<Rightarrow> bytes \<Rightarrow>
     log_entry list \<times> nat list \<times> nat option" where
  "open_loop E entries offsets pos bs =
     (case raft_read_entry E bs of
        Inr (Some (entry, rest)) \<Rightarrow>
          open_loop E (entries @ [entry]) (offsets @ [pos]) (pos + (length bs - length rest)) rest
      | Inr None \<Rightarrow> (entries, offsets, None)
      | Inl e \<Rightarrow> (entries, offsets, Some pos))"
  by pat_completeness auto
termination
  by (relation "measure (\<lambda>(E, es, os, pos, bs). length bs)") (auto dest: raft_read_entry_progress)

declare open_loop.simps [simp del]

definition log_store_open :: "'x raft_ext_scheme \<Rightarrow> bytes \<Rightarrow> raft_log_store \<times> log_entry list" where
  "log_store_open E file =
     (case open_loop E [] [] 0 file of
        (entries, offsets, truncate_at) \<Rightarrow>
          (\<lparr>ls_file = (case truncate_at of None \<Rightarrow> file | Some pos \<Rightarrow> take pos file),
            ls_offsets = offsets\<rparr>, entries))"

definition log_store_append ::
  "'x raft_ext_scheme \<Rightarrow> log_entry \<Rightarrow> raft_log_store \<Rightarrow> raft_log_store io" where
  "log_store_append E entry s =
     and_then (invalid_data (bincode_serialize E entry)) (\<lambda>payload.
     let len = of_nat (length payload); pos = length (ls_file s) in
     Inr (s\<lparr>ls_file := ls_file s @ u32_le len @ payload, ls_offsets := ls_offsets s @ [pos]\<rparr>))"

definition truncate_from :: "nat \<Rightarrow> raft_log_store \<Rightarrow> raft_log_store" where
  "truncate_from from s =
     (if from \<ge> length (ls_offsets s) then s
      else s\<lparr>ls_file := take (ls_offsets s ! from) (ls_file s),
             ls_offsets := take from (ls_offsets s)\<rparr>)"

definition log_store_len :: "raft_log_store \<Rightarrow> nat" where
  "log_store_len s = length (ls_offsets s)"

section \<open>The metadata record\<close>

record meta_state =
  ms_commit_index :: nat
  ms_current_term :: u64
  ms_voted_for :: "u64 option"

definition META_SIZE :: nat where
  "META_SIZE = 24"

definition meta_default :: meta_state where
  "meta_default = \<lparr>ms_commit_index = 0, ms_current_term = 0, ms_voted_for = None\<rparr>"

definition meta_open :: "bytes \<Rightarrow> meta_state" where
  "meta_open file =
     (case read_exact META_SIZE file of
        Inr (buf, _) \<Rightarrow>
          (let voted_for_raw = u64_from_le (take 8 (drop 16 buf)) in
           \<lparr>ms_commit_index = unat (u64_from_le (take 8 buf)),
            ms_current_term = u64_from_le (take 8 (drop 8 buf)),
            ms_voted_for = (if voted_for_raw = 0 then None else Some voted_for_raw)\<rparr>)
      | Inl _ \<Rightarrow> meta_default)"

definition meta_save :: "nat \<Rightarrow> u64 \<Rightarrow> u64 option \<Rightarrow> bytes \<Rightarrow> bytes" where
  "meta_save commit_index current_term voted_for file =
     u64_le (of_nat commit_index) @ u64_le current_term @
     u64_le (case voted_for of None \<Rightarrow> 0 | Some v \<Rightarrow> v) @ drop META_SIZE file"

lemma meta_open_save:
  "meta_open (meta_save c t v file) =
     \<lparr>ms_commit_index = c mod 2 ^ 64, ms_current_term = t,
      ms_voted_for = (if v = Some 0 then None else v)\<rparr>"
  by (cases v) (auto simp: meta_open_def meta_save_def META_SIZE_def Let_def read_exact_def unat_of_nat)

section \<open>The log file as a record log\<close>

definition entry_frame :: "'x raft_ext_scheme \<Rightarrow> log_entry \<Rightarrow> bytes" where
  "entry_frame E e =
     (case bincode_serialize E e of Inl _ \<Rightarrow> [] | Inr payload \<Rightarrow> u32_le (of_nat (length payload)) @ payload)"

lemma entry_codec_okE:
  assumes "entry_codec_ok E e"
  obtains payload where "bincode_serialize E e = Inr payload" and "length payload \<le> MAX_ENTRY_SIZE"
    and "bincode_deserialize E payload = Inr e"
    and "entry_frame E e = u32_le (of_nat (length payload)) @ payload"
    and "unat (of_nat (length payload) :: u32) = length payload"
proof -
  obtain payload where p: "bincode_serialize E e = Inr payload" "length payload \<le> MAX_ENTRY_SIZE"
    "bincode_deserialize E payload = Inr e"
    using assms by (auto simp: entry_codec_ok_def MAX_ENTRY_SIZE_def split: sum.splits)
  then have "unat (of_nat (length payload) :: u32) = length payload"
    by (intro unat_of_nat_u32) (simp add: MAX_ENTRY_SIZE_def)
  with p that show thesis by (simp add: entry_frame_def)
qed

lemma read_frame:
  assumes "entry_codec_ok E e"
  shows "raft_read_entry E (entry_frame E e @ rest) = Inr (Some (e, rest))"
  by (rule entry_codec_okE [OF assms]) (simp add: raft_read_entry_def invalid_data_def)

lemma read_short: "length bs < 4 \<Longrightarrow> raft_read_entry E bs = Inr None"
  by (simp add: raft_read_entry_def)

lemma read_frame_torn:
  assumes ok: "entry_codec_ok E e" and cut: "entry_frame E e = p @ q" "q \<noteq> []" and len: "4 \<le> length p"
  shows "\<exists>x. raft_read_entry E p = Inl x"
proof -
  obtain payload where f: "entry_frame E e = u32_le (of_nat (length payload)) @ payload"
    and small: "length payload \<le> MAX_ENTRY_SIZE"
    and len_u: "unat (of_nat (length payload) :: u32) = length payload"
    using entry_codec_okE [OF ok] by metis
  from f cut(1) have eq: "u32_le (of_nat (length payload)) @ payload = p @ q" by simp
  have head: "u32_le (of_nat (length payload)) = take 4 p"
    using arg_cong [OF eq, of "take 4"] len by simp
  have "payload = drop 4 p @ q" using arg_cong [OF eq, of "drop 4"] len by simp
  then have "length (drop 4 p) < length payload" using cut(2) by (cases q) auto
  then have "raft_read_entry E (u32_le (of_nat (length payload)) @ drop 4 p) =
      Inl (IoError UnexpectedEof (str ''failed to fill whole buffer''))"
    using small len_u by (simp add: raft_read_entry_def)
  then show ?thesis by (simp add: head)
qed

text \<open>The offsets that the loop collects do not influence what it finds.\<close>

lemma open_loop_offsets:
  "fst (open_loop E es os pos bs) = fst (open_loop E es os' pos bs) \<and>
   snd (snd (open_loop E es os pos bs)) = snd (snd (open_loop E es os' pos bs))"
proof (induction E es os pos bs arbitrary: os' rule: open_loop.induct)
  case (1 E es os pos bs)
  show ?case
  proof (cases "\<exists>e rest. raft_read_entry E bs = Inr (Some (e, rest))")
    case True
    then obtain e rest where r: "raft_read_entry E bs = Inr (Some (e, rest))" by blast
    from 1 [OF r refl refl, of "os' @ [pos]"] r show ?thesis by (simp add: open_loop.simps [of E es])
  next
    case False
    then show ?thesis by (auto simp: open_loop.simps [of E es] split: sum.splits option.splits)
  qed
qed

definition scan_entries ::
  "'x raft_ext_scheme \<Rightarrow> log_entry list \<Rightarrow> nat \<Rightarrow> bytes \<Rightarrow> log_entry list \<times> nat option" where
  "scan_entries E acc pos bs = (fst (open_loop E acc [] pos bs), snd (snd (open_loop E acc [] pos bs)))"

interpretation raft_log: record_log "entry_frame E" "raft_read_entry E" "entry_codec_ok E" "scan_entries E"
  for E :: "'x raft_ext_scheme"
proof unfold_locales
  fix e p q
  assume "entry_codec_ok E e" "entry_frame E e = p @ q" "q \<noteq> []"
  then show "raft_read_entry E p = Inr None \<or> (\<exists>x. raft_read_entry E p = Inl x)"
    using read_frame_torn [of E e p q] read_short [of p E] by (cases "4 \<le> length p") auto
next
  fix acc pos bs
  show "scan_entries E acc pos bs =
      (case raft_read_entry E bs of
         Inr (Some (r, rest)) \<Rightarrow> scan_entries E (acc @ [r]) (pos + (length bs - length rest)) rest
       | Inr None \<Rightarrow> (acc, None)
       | Inl e \<Rightarrow> (acc, Some pos))"
    using open_loop_offsets [of E _ "[pos]" _ _ "[]"]
    by (auto simp: scan_entries_def open_loop.simps [of E acc] split: sum.split option.split)
qed (simp_all add: read_frame read_short)

section \<open>Invariant of the store\<close>

fun frame_offsets :: "'x raft_ext_scheme \<Rightarrow> nat \<Rightarrow> log_entry list \<Rightarrow> nat list" where
  "frame_offsets E pos [] = []"
| "frame_offsets E pos (e # es) = pos # frame_offsets E (pos + length (entry_frame E e)) es"

abbreviation frames :: "'x raft_ext_scheme \<Rightarrow> log_entry list \<Rightarrow> bytes" where
  "frames E es \<equiv> concat (map (entry_frame E) es)"

definition store_holds :: "'x raft_ext_scheme \<Rightarrow> raft_log_store \<Rightarrow> log_entry list \<Rightarrow> bool" where
  "store_holds E s es \<longleftrightarrow>
     list_all (entry_codec_ok E) es \<and> ls_file s = frames E es \<and> ls_offsets s = frame_offsets E 0 es"

lemma length_frame_offsets [simp]: "length (frame_offsets E pos es) = length es"
  by (induction es arbitrary: pos) auto

lemma frame_offsets_append:
  "frame_offsets E pos (es @ fs) = frame_offsets E pos es @ frame_offsets E (pos + length (frames E es)) fs"
  by (induction es arbitrary: pos) (simp_all add: add.assoc)

lemma open_loop_frames:
  "list_all (entry_codec_ok E) es \<Longrightarrow>
     open_loop E acc os pos (frames E es) = (acc @ es, os @ frame_offsets E pos es, None)"
proof (induction es arbitrary: acc os pos)
  case Nil
  then show ?case by (simp add: open_loop.simps [of E] read_short)
next
  case (Cons e es)
  then show ?case by (simp add: open_loop.simps [of E acc] read_frame)
qed

lemma store_holds_open:
  assumes "list_all (entry_codec_ok E) es"
  obtains s where "log_store_open E (frames E es) = (s, es)" and "store_holds E s es"
  using assms that [of "\<lparr>ls_file = frames E es, ls_offsets = frame_offsets E 0 es\<rparr>"]
  by (simp add: log_store_open_def open_loop_frames store_holds_def)

lemma store_holds_append:
  assumes "store_holds E s es" and "entry_codec_ok E e"
  obtains s' where "log_store_append E e s = Inr s'" and "store_holds E s' (es @ [e])"
proof -
  obtain payload where "bincode_serialize E e = Inr payload"
    "entry_frame E e = u32_le (of_nat (length payload)) @ payload"
    using entry_codec_okE [OF assms(2)] by metis
  with assms that [of "s\<lparr>ls_file := ls_file s @ entry_frame E e, ls_offsets := ls_offsets s @ [length (ls_file s)]\<rparr>"]
  show thesis
    by (simp add: log_store_append_def invalid_data_def store_holds_def frame_offsets_append)
qed

lemma store_holds_truncate:
  assumes "store_holds E s es"
  shows "store_holds E (truncate_from k s) (take k es)"
proof (cases "k < length es")
  case True
  have split: "es = take k es @ drop k es" by simp
  have "list_all (entry_codec_ok E) (take k es)"
    using assms by (auto simp: store_holds_def list_all_iff dest: in_set_takeD)
  moreover have "frame_offsets E 0 es ! k = length (frames E (take k es))"
    by (subst split, subst frame_offsets_append)
      (use True in \<open>simp add: nth_append min_def Cons_nth_drop_Suc [symmetric]\<close>)
  moreover have "take (length (frames E (take k es))) (frames E es) = frames E (take k es)"
    by (subst (2) split) (simp del: append_take_drop_id)
  moreover have "take k (frame_offsets E 0 es) = frame_offsets E 0 (take k es)"
    by (subst split, subst frame_offsets_append) (use True in \<open>simp add: min_def\<close>)
  ultimately show ?thesis using assms True by (simp add: store_holds_def truncate_from_def)
next
  case False
  with assms show ?thesis by (simp add: store_holds_def truncate_from_def)
qed

section \<open>Properties\<close>

text \<open>What a node does to its log: the same on the store and on the list of entries.\<close>

datatype log_op = LogAppend log_entry | LogTruncate nat

fun store_op :: "'x raft_ext_scheme \<Rightarrow> log_op \<Rightarrow> raft_log_store \<Rightarrow> raft_log_store" where
  "store_op E (LogAppend e) s = (case log_store_append E e s of Inr s' \<Rightarrow> s' | Inl _ \<Rightarrow> s)"
| "store_op E (LogTruncate k) s = truncate_from k s"

fun list_op :: "log_op \<Rightarrow> log_entry list \<Rightarrow> log_entry list" where
  "list_op (LogAppend e) es = es @ [e]"
| "list_op (LogTruncate k) es = take k es"

fun op_ok :: "'x raft_ext_scheme \<Rightarrow> log_op \<Rightarrow> bool" where
  "op_ok E (LogAppend e) = entry_codec_ok E e"
| "op_ok E (LogTruncate k) = True"

lemma store_op_holds:
  assumes "store_holds E s es" and "op_ok E opr"
  shows "store_holds E (store_op E opr s) (list_op opr es)"
proof (cases opr)
  case (LogAppend e)
  then have "entry_codec_ok E e" using assms(2) by simp
  from store_holds_append [OF assms(1) this] obtain s' where
    "log_store_append E e s = Inr s'" "store_holds E s' (es @ [e])" by blast
  with LogAppend show ?thesis by simp
qed (use assms store_holds_truncate in simp)

lemma store_ops_hold:
  "store_holds E s es \<Longrightarrow> list_all (op_ok E) ops \<Longrightarrow>
     store_holds E (fold (store_op E) ops s) (fold list_op ops es)"
  by (induction ops arbitrary: s es) (auto intro: store_op_holds)

lemma store_holds_empty: "store_holds E (fst (log_store_open E [])) []"
  by (rule store_holds_open [of E "[]"]) simp_all

text \<open>
  C40. The Raft log survives a restart: after any appends and truncations on a new store, opening its
  file again returns exactly the entries that the same operations leave in a list, and a store that
  is ready for more operations.
\<close>

theorem raft_log_survives_restart:
  assumes "list_all (op_ok E) ops"
  shows "snd (log_store_open E (ls_file (fold (store_op E) ops (fst (log_store_open E [])))))
      = fold list_op ops [] \<and>
    fst (log_store_open E (ls_file (fold (store_op E) ops (fst (log_store_open E [])))))
      = fold (store_op E) ops (fst (log_store_open E []))"
proof -
  let ?s = "fold (store_op E) ops (fst (log_store_open E []))"
  have holds: "store_holds E ?s (fold list_op ops [])"
    using store_ops_hold [OF store_holds_empty assms] .
  then have ok: "list_all (entry_codec_ok E) (fold list_op ops [])"
    and fl: "ls_file ?s = frames E (fold list_op ops [])" by (simp_all add: store_holds_def)
  from store_holds_open [OF ok] obtain s where "log_store_open E (ls_file ?s) = (s, fold list_op ops [])"
    "store_holds E s (fold list_op ops [])" by (metis fl)
  with holds show ?thesis by (simp add: store_holds_def)
qed

text \<open>A sample entry, for the witnesses.\<close>

definition sample_entry :: "u64 \<Rightarrow> log_entry" where
  "sample_entry t = \<lparr>le_term = t, le_payload = PCommand (log_record_new sample_ext 0 (CmdDelete [107]))\<rparr>"

lemma sample_entry_ok: "entry_codec_ok sample_raft_ext (sample_entry t)"
  unfolding sample_entry_def
  by (rule sample_codec_command) (simp_all add: key_ok_def write_to_def)

theorem raft_log_survives_restart_witness:
  "snd (log_store_open sample_raft_ext (ls_file (fold (store_op sample_raft_ext)
      [LogAppend (sample_entry 1), LogAppend (sample_entry 1), LogTruncate 1, LogAppend (sample_entry 2)]
      (fst (log_store_open sample_raft_ext []))))) = [sample_entry 1, sample_entry 2]"
proof -
  have "list_all (op_ok sample_raft_ext)
      [LogAppend (sample_entry 1), LogAppend (sample_entry 1), LogTruncate 1, LogAppend (sample_entry 2)]"
    by (simp add: sample_entry_ok)
  from raft_log_survives_restart [OF this] show ?thesis by simp
qed

text \<open>
  Crash consistency of the Raft log file: if only the first \<open>n\<close> bytes of a file of
  appended entries survive, opening returns a prefix of the entries with every entry whose frame is
  complete.
\<close>

theorem raft_log_crash_prefix:
  assumes "list_all (entry_codec_ok E) es" and "n \<le> length (concat (map (entry_frame E) es))"
  shows "\<exists>m \<le> length es. snd (log_store_open E (take n (concat (map (entry_frame E) es)))) = take m es \<and>
    length (concat (map (entry_frame E) (take m es))) \<le> n \<and>
    (m < length es \<longrightarrow> n < length (concat (map (entry_frame E) (take (Suc m) es))))"
proof -
  obtain m t where m: "m \<le> length es" "scan_entries E [] 0 (take n (frames E es)) = (take m es, t)"
    "length (frames E (take m es)) \<le> n" "m < length es \<Longrightarrow> n < length (frames E (take (Suc m) es))"
    using raft_log.scan_prefix [OF assms] by blast
  from m(2) have "snd (log_store_open E (take n (frames E es))) = take m es"
    by (auto simp: scan_entries_def log_store_open_def split: prod.splits)
  with m show ?thesis by blast
qed

theorem raft_log_crash_prefix_witness:
  "\<exists>m \<le> 2. snd (log_store_open sample_raft_ext (take 15 (concat (map (entry_frame sample_raft_ext)
     [sample_entry 1, sample_entry 2])))) = take m [sample_entry 1, sample_entry 2]"
proof -
  have "list_all (entry_codec_ok sample_raft_ext) [sample_entry 1, sample_entry 2]"
    by (simp add: sample_entry_ok)
  moreover have "15 \<le> length (concat (map (entry_frame sample_raft_ext) [sample_entry 1, sample_entry 2]))"
    by (simp add: entry_frame_def sample_raft_ext_def sample_entry_def write_to_def)
  ultimately show ?thesis using raft_log_crash_prefix [of sample_raft_ext _ 15] by (metis length_Cons list.size(3) numeral_2_eq_2)
qed

text \<open>
  The metadata record is read back after a restart with the commit index, the term and the
  vote, provided that the vote is not for node 0: 0 on disk stands for no vote.
\<close>

theorem raft_meta_roundtrip:
  assumes "commit_index < 2 ^ 64" and "voted_for \<noteq> Some 0"
  shows "meta_open (meta_save commit_index current_term voted_for file) =
    \<lparr>ms_commit_index = commit_index, ms_current_term = current_term, ms_voted_for = voted_for\<rparr>"
  using assms by (simp add: meta_open_save)

theorem raft_meta_roundtrip_witness:
  "meta_open (meta_save 7 3 (Some 2) []) = \<lparr>ms_commit_index = 7, ms_current_term = 3, ms_voted_for = Some 2\<rparr>"
  by (rule raft_meta_roundtrip) simp_all

end
