(* ===== verification/Wal_Logger.thy ===== *)
theory Wal_Logger
  imports Wal_Record Record_Log
begin

text \<open>
  The write-ahead log file (\<open>src/src/lsm/wal/logger.rs\<close>): opening with the scan that cuts a
  corrupt tail, appending, replaying and truncating. The file is its byte sequence; failures of
  the operating system are not modelled.
\<close>

section \<open>The logger\<close>

record logger =
  log_file :: bytes
  log_len :: u64

text \<open>
  The loop of \<open>Logger::new\<close>: \<open>len\<close> so far, the position of the current record, the
  bytes behind it. The result is \<open>len\<close> and, after an error, where to cut the file.
\<close>

function new_loop :: "'x ext_scheme \<Rightarrow> u64 \<Rightarrow> nat \<Rightarrow> bytes \<Rightarrow> u64 \<times> nat option" where
  "new_loop E len record_start bs =
     (case read_from E bs of
        Inr (Some (record, rest)) \<Rightarrow>
          new_loop E (lr_id record + 1) (record_start + (length bs - length rest)) rest
      | Inr None \<Rightarrow> (len, None)
      | Inl e \<Rightarrow> (len, Some record_start))"
  by pat_completeness auto
termination
  by (relation "measure (\<lambda>(E, len, pos, bs). length bs)") (auto dest: read_from_progress)

declare new_loop.simps [simp del]

definition logger_new :: "'x ext_scheme \<Rightarrow> bytes \<Rightarrow> logger" where
  "logger_new E file =
     (case new_loop E 0 0 file of
        (len, None) \<Rightarrow> \<lparr>log_file = file, log_len = len\<rparr>
      | (len, Some record_start) \<Rightarrow> \<lparr>log_file = take record_start file, log_len = len\<rparr>)"

definition logger_log :: "'x ext_scheme \<Rightarrow> command \<Rightarrow> logger \<Rightarrow> logger" where
  "logger_log E command l =
     (let record = log_record_new E (log_len l) command in
      l\<lparr>log_file := log_file l @ write_to E record, log_len := log_len l + 1\<rparr>)"

text \<open>The loop of \<open>read_records\<close>.\<close>

function records_loop ::
  "'x ext_scheme \<Rightarrow> log_record list \<Rightarrow> nat \<Rightarrow> bytes \<Rightarrow> log_record list \<times> nat option" where
  "records_loop E records record_start bs =
     (case read_from E bs of
        Inr (Some (record, rest)) \<Rightarrow>
          records_loop E (records @ [record]) (record_start + (length bs - length rest)) rest
      | Inr None \<Rightarrow> (records, None)
      | Inl e \<Rightarrow> (records, Some record_start))"
  by pat_completeness auto
termination
  by (relation "measure (\<lambda>(E, rs, pos, bs). length bs)") (auto dest: read_from_progress)

declare records_loop.simps [simp del]

definition read_records :: "'x ext_scheme \<Rightarrow> logger \<Rightarrow> log_record list \<times> logger" where
  "read_records E l =
     (case records_loop E [] 0 (log_file l) of
        (records, None) \<Rightarrow> (records, l)
      | (records, Some record_start) \<Rightarrow> (records, l\<lparr>log_file := take record_start (log_file l)\<rparr>))"

definition logger_truncate :: "logger \<Rightarrow> logger" where
  "logger_truncate l = l\<lparr>log_file := [], log_len := 0\<rparr>"

section \<open>The log as a record log\<close>

interpretation wal: record_log "write_to E" "read_from E" "record_ok E" "records_loop E"
  for E :: "'x ext_scheme"
proof unfold_locales
  fix r p q
  assume "record_ok E r" "write_to E r = p @ q" "q \<noteq> []"
  then show "read_from E p = Inr None \<or> (\<exists>e. read_from E p = Inl e)"
    using read_from_torn [of E r p q] read_from_short [of p E] by (cases "8 \<le> length p") auto
qed (simp_all add: read_from_short records_loop.simps [of E])

text \<open>The two loops see the same records.\<close>

lemma records_loop_extends: "\<exists>rs. fst (records_loop E acc pos bs) = acc @ rs"
proof (induction E acc pos bs rule: records_loop.induct)
  case (1 E acc pos bs)
  show ?case
  proof (cases "read_from E bs")
    case (Inr x)
    with 1 show ?thesis
      by (cases x) (fastforce simp: records_loop.simps [of E acc])+
  qed (simp add: records_loop.simps [of E acc])
qed

lemma new_loop_records:
  "new_loop E len pos bs =
     (case records_loop E acc pos bs of
        (rs, t) \<Rightarrow> (if rs = acc then len else lr_id (last rs) + 1, t))"
proof (induction E len pos bs arbitrary: acc rule: new_loop.induct)
  case (1 E len pos bs)
  show ?case
  proof (cases "\<exists>r rest. read_from E bs = Inr (Some (r, rest))")
    case True
    then obtain r rest where r: "read_from E bs = Inr (Some (r, rest))" by blast
    obtain rs t where loop: "records_loop E (acc @ [r]) (pos + (length bs - length rest)) rest = (rs, t)"
      by fastforce
    with records_loop_extends obtain rs' where "rs = acc @ [r] @ rs'"
      by (metis append_assoc fst_conv)
    with 1 [OF r refl refl, of "acc @ [r]"] r loop show ?thesis
      by (simp add: new_loop.simps [of E len] records_loop.simps [of E acc])
  next
    case False
    then show ?thesis
      by (auto simp: new_loop.simps [of E len] records_loop.simps [of E acc]
          split: sum.splits option.splits)
  qed
qed

section \<open>Invariant\<close>

text \<open>\<open>log_holds E l rs\<close>: the file is exactly the records \<open>rs\<close>, each well formed.\<close>

definition log_holds :: "'x ext_scheme \<Rightarrow> logger \<Rightarrow> log_record list \<Rightarrow> bool" where
  "log_holds E l rs \<longleftrightarrow> list_all (record_ok E) rs \<and> log_file l = concat (map (write_to E) rs)"

lemma log_holds_log:
  "log_holds E l rs \<Longrightarrow> command_ok E c \<Longrightarrow>
     log_holds E (logger_log E c l) (rs @ [log_record_new E (log_len l) c])"
  by (simp add: log_holds_def logger_log_def Let_def)

lemma log_holds_truncate [simp]: "log_holds E (logger_truncate l) []"
  by (simp add: log_holds_def logger_truncate_def)

lemma log_holds_read: "log_holds E l rs \<Longrightarrow> read_records E l = (rs, l)"
  by (simp add: log_holds_def read_records_def wal.scan_complete)

text \<open>Opening a complete file keeps it; opening any prefix keeps the complete records in it.\<close>

lemma logger_new_complete:
  assumes "list_all (record_ok E) rs"
  shows "logger_new E (concat (map (write_to E) rs)) =
    \<lparr>log_file = concat (map (write_to E) rs), log_len = (if rs = [] then 0 else lr_id (last rs) + 1)\<rparr>"
  using assms wal.scan_complete [of E rs "[]" 0] new_loop_records [of E 0 0 _ "[]"]
  by (simp add: logger_new_def)

lemma logger_new_torn:
  assumes oks: "list_all (record_ok E) rs" and r: "record_ok E r"
    and cut: "write_to E r = p @ q" "q \<noteq> []" and len: "8 \<le> length p"
  shows "logger_new E (concat (map (write_to E) rs) @ p) = logger_new E (concat (map (write_to E) rs))"
proof -
  from read_from_torn [OF r cut len] have "read_from E p \<noteq> Inr None" by auto
  with wal.scan_torn [OF oks r cut, of "[]" 0] new_loop_records [of E 0 0 _ "[]"]
  show ?thesis
    by (simp add: logger_new_complete [OF oks] logger_new_def [of E "_ @ p"])
qed

text \<open>The records that logging \<open>cs\<close> appends, when the next id is \<open>i\<close>.\<close>

fun records_from :: "'x ext_scheme \<Rightarrow> u64 \<Rightarrow> command list \<Rightarrow> log_record list" where
  "records_from E i [] = []"
| "records_from E i (c # cs) = log_record_new E i c # records_from E (i + 1) cs"

lemma length_records_from [simp]: "length (records_from E i cs) = length cs"
  by (induction cs arbitrary: i) auto

lemma commands_records_from [simp]: "map lr_command (records_from E i cs) = cs"
  by (induction cs arbitrary: i) auto

lemma take_records_from: "take m (records_from E i cs) = records_from E i (take m cs)"
  by (induction cs arbitrary: i m) (auto simp: take_Cons split: nat.splits)

lemma records_from_ok: "list_all (command_ok E) cs \<Longrightarrow> list_all (record_ok E) (records_from E i cs)"
  by (induction cs arbitrary: i) auto

lemma log_file_fold:
  "log_file (fold (logger_log E) cs l) =
     log_file l @ concat (map (write_to E) (records_from E (log_len l) cs))"
  by (induction cs arbitrary: l) (simp_all add: logger_log_def Let_def)

lemma logger_new_empty [simp]: "logger_new E [] = \<lparr>log_file = [], log_len = 0\<rparr>"
  using logger_new_complete [of E "[]"] by simp

lemma reopen_prefix:
  assumes oks: "list_all (record_ok E) rs" and n: "n \<le> length (concat (map (write_to E) rs))"
  obtains m where "m \<le> length rs"
    and "fst (read_records E (logger_new E (take n (concat (map (write_to E) rs))))) = take m rs"
    and "length (concat (map (write_to E) (take m rs))) \<le> n"
    and "m < length rs \<Longrightarrow> n < length (concat (map (write_to E) (take (Suc m) rs)))"
proof -
  let ?f = "take n (concat (map (write_to E) rs))"
  obtain m t where m: "m \<le> length rs" and scan: "records_loop E [] 0 ?f = (take m rs, t)"
    and fits: "length (concat (map (write_to E) (take m rs))) \<le> n"
    and last: "m < length rs \<Longrightarrow> n < length (concat (map (write_to E) (take (Suc m) rs)))"
    and t: "case t of None \<Rightarrow> True | Some pos \<Rightarrow> pos = length (concat (map (write_to E) (take m rs)))"
    using wal.scan_prefix [OF oks n] by blast
  have "fst (read_records E (logger_new E ?f)) = take m rs"
  proof (cases t)
    case None
    with scan new_loop_records [of E 0 0 ?f "[]"] show ?thesis
      by (simp add: logger_new_def read_records_def)
  next
    case (Some pos)
    have "take pos ?f = concat (map (write_to E) (take m rs))"
    proof -
      have "take pos ?f = take pos (concat (map (write_to E) rs))"
        using t Some fits by (simp add: min_def)
      also have "\<dots> = take pos (concat (map (write_to E) (take m rs)) @ concat (map (write_to E) (drop m rs)))"
        by (metis append_take_drop_id concat_append map_append)
      finally show ?thesis using t Some by simp
    qed
    moreover have "list_all (record_ok E) (take m rs)"
      using oks by (auto simp: list_all_iff dest: in_set_takeD)
    ultimately show ?thesis
      using Some scan new_loop_records [of E 0 0 ?f "[]"]
      by (simp add: logger_new_def read_records_def wal.scan_complete)
  qed
  with m fits last that show thesis by blast
qed

section \<open>Properties\<close>

text \<open>
  Durability of the write-ahead log: after logging any commands to an empty log, closing and
  opening it again, the replay returns exactly these commands, in order.
\<close>

theorem wal_replay:
  assumes "list_all (command_ok E) cs"
  shows "map lr_command (fst (read_records E (logger_new E
           (log_file (fold (logger_log E) cs (logger_new E [])))))) = cs"
proof -
  have "list_all (record_ok E) (records_from E 0 cs)"
    using assms by (rule records_from_ok)
  then show ?thesis
    by (simp add: log_file_fold logger_new_complete read_records_def wal.scan_complete)
qed

theorem wal_replay_witness:
  "map lr_command (fst (read_records sample_ext (logger_new sample_ext
     (log_file (fold (logger_log sample_ext) [CmdSet [97] (VString [98]), CmdDelete [97]]
        (logger_new sample_ext [])))))) = [CmdSet [97] (VString [98]), CmdDelete [97]]"
  by (rule wal_replay) (simp add: key_ok_def val_fits_def)

text \<open>
  C26. Crash consistency of the write-ahead log: if a crash leaves only the first \<open>n\<close> bytes of
  the file, recovery returns a prefix of the logged commands, and this prefix holds every command
  whose record is complete within these \<open>n\<close> bytes.
\<close>

theorem wal_crash_prefix:
  assumes oks: "list_all (command_ok E) cs"
    and n: "n \<le> length (log_file (fold (logger_log E) cs (logger_new E [])))"
  shows "\<exists>m \<le> length cs.
    map lr_command (fst (read_records E (logger_new E
      (take n (log_file (fold (logger_log E) cs (logger_new E []))))))) = take m cs \<and>
    length (log_file (fold (logger_log E) (take m cs) (logger_new E []))) \<le> n \<and>
    (m < length cs \<longrightarrow> n < length (log_file (fold (logger_log E) (take (Suc m) cs) (logger_new E []))))"
proof -
  from n have "n \<le> length (concat (map (write_to E) (records_from E 0 cs)))"
    by (simp add: log_file_fold)
  from reopen_prefix [OF records_from_ok [OF oks] this] obtain m where
    "m \<le> length cs"
    "fst (read_records E (logger_new E (take n (concat (map (write_to E) (records_from E 0 cs))))))
       = records_from E 0 (take m cs)"
    "length (concat (map (write_to E) (records_from E 0 (take m cs)))) \<le> n"
    "m < length cs \<Longrightarrow> n < length (concat (map (write_to E) (records_from E 0 (take (Suc m) cs))))"
    by (auto simp: take_records_from)
  then show ?thesis by (auto simp: log_file_fold intro!: exI [of _ m])
qed

theorem wal_crash_prefix_witness:
  "\<exists>m \<le> 1. map lr_command (fst (read_records sample_ext (logger_new sample_ext
      (take 12 (log_file (fold (logger_log sample_ext) [CmdDelete [97]] (logger_new sample_ext [])))))))
      = take m [CmdDelete [97]]"
proof -
  have "list_all (command_ok sample_ext) [CmdDelete [97]]" by (simp add: key_ok_def)
  moreover have "12 \<le> length (log_file (fold (logger_log sample_ext) [CmdDelete [97]] (logger_new sample_ext [])))"
    by (simp add: logger_log_def Let_def write_to_def)
  ultimately show ?thesis
    using wal_crash_prefix [of sample_ext "[CmdDelete [97]]" 12] by auto
qed

text \<open>
  Writing goes on correctly behind a torn record of eight bytes or more: opening cuts the torn
  bytes off, and commands logged afterwards are replayed behind the complete ones.
\<close>

theorem wal_append_after_torn:
  assumes oks: "list_all (command_ok E) cs" and new: "list_all (command_ok E) ds"
    and ok: "command_ok E c" and cut: "write_to E (log_record_new E i c) = p @ q" "q \<noteq> []"
    and len: "8 \<le> length p"
  shows "map lr_command (fst (read_records E (fold (logger_log E) ds
           (logger_new E (log_file (fold (logger_log E) cs (logger_new E [])) @ p))))) = cs @ ds"
proof -
  let ?rs = "records_from E 0 cs"
  have rs: "list_all (record_ok E) ?rs" using oks by (rule records_from_ok)
  let ?l = "logger_new E (concat (map (write_to E) ?rs))"
  have stored: "log_file ?l = concat (map (write_to E) ?rs)"
    by (simp add: logger_new_complete [OF rs])
  have "logger_new E (concat (map (write_to E) ?rs) @ p) = ?l"
    using logger_new_torn [OF rs _ cut len] ok by simp
  moreover have "list_all (record_ok E) (?rs @ records_from E (log_len ?l) ds)"
    using rs records_from_ok [OF new] by simp
  ultimately show ?thesis
    using wal.scan_complete [of E "?rs @ records_from E (log_len ?l) ds" "[]" 0]
    by (simp add: log_file_fold read_records_def stored)
qed

theorem wal_append_after_torn_witness:
  "map lr_command (fst (read_records sample_ext (fold (logger_log sample_ext) [CmdDelete [98]]
     (logger_new sample_ext (log_file (fold (logger_log sample_ext) [CmdDelete [97]] (logger_new sample_ext []))
        @ [0, 0, 0, 0, 0, 0, 0, 0, 2]))))) = [CmdDelete [97]] @ [CmdDelete [98]]"
  by (rule wal_append_after_torn [where c = "CmdDelete [107]" and i = 0
        and q = "[0, 1, 0, 0, 0, 0, 0, 0, 0, 107, 104]"])
    (simp_all add: sample_eval)

lemma le_bytes_high_zero: "x < 256 ^ j \<Longrightarrow> j < n \<Longrightarrow> le_bytes n x ! j = 0"
proof (induction n arbitrary: x j)
  case (Suc n)
  then show ?case
  proof (cases j)
    case (Suc k)
    have "x div 256 < 256 ^ k" using Suc.prems(1) Suc by (simp add: less_mult_imp_div_less mult.commute)
    with Suc.IH Suc.prems(2) Suc show ?thesis by simp
  qed simp
qed simp

lemma records_from_Nil [simp]: "records_from E i cs = [] \<longleftrightarrow> cs = []"
  by (cases cs) simp_all

lemma last_records_from: "cs \<noteq> [] \<Longrightarrow> lr_id (last (records_from E i cs)) + 1 = i + of_nat (length cs)"
proof (induction cs arbitrary: i)
  case (Cons c cs)
  from Cons.IH [of "i + 1"] show ?case by (cases "cs = []") (simp_all add: log_record_new_def algebra_simps)
qed simp

lemma read_u64_split: "length xs = 8 \<Longrightarrow> read_u64 (xs @ ys) = Inr (Some (u64_from_le xs, ys))"
  by (simp add: read_u64_def read_exact_def)

text \<open>
  Stray bytes \<open>p\<close>, fewer than eight, in front of a record with a small id: the reader takes them for the first bytes of
  an id, and a zero byte of the id of the record for the code of a command.
\<close>

lemma read_from_stray:
  assumes "0 < length p" and "length p < 8" and "unat (lr_id r) < 256 ^ (8 - length p)"
  shows "\<exists>e. read_from E (p @ write_to E r @ rest) = Inl e"
proof -
  let ?k = "8 - length p" and ?id = "u64_le (lr_id r)"
  let ?body = "body_bytes E (lr_command r) (command_key (lr_command r)) (lr_checksum r)"
  have "length ?id = 8" by simp
  then have id: "?id = take ?k ?id @ ?id ! ?k # drop (Suc ?k) ?id" using assms(1,2) by (intro id_take_nth_drop) simp
  have "?id ! ?k = 0" unfolding u64_le_def by (rule le_bytes_high_zero [OF assms(3)]) (use assms in simp)
  with id have bytes: "p @ write_to E r @ rest = (p @ take ?k ?id) @ 0 # drop (Suc ?k) ?id @ ?body @ rest"
    unfolding write_to_body by (metis append.assoc append_Cons)
  have "length (p @ take ?k ?id) = 8" using assms(2) by simp
  from read_u64_split [OF this] show ?thesis
    unfolding bytes read_from_def by (simp only: and_then_Inr option.case prod.case) (simp add: read_body_def)
qed

text \<open>
  C38. A torn record of one to seven bytes is taken for a clean end of the log: whatever complete records are in front of it, opening
  the log keeps the stray bytes, and the next recovery returns the commands in front of them and loses every command that was logged behind
  them. (The log has fewer than \<open>256 ^ (8 - length p)\<close> records: fewer than 256 for seven stray bytes, and a flush
  empties the log.)
\<close>

theorem wal_short_tail_loses_writes:
  assumes oks: "list_all (command_ok E) cs" and p: "0 < length p" "length p < 8" and small: "length cs < 256 ^ (8 - length p)"
  shows "map lr_command (fst (read_records E (logger_new E (log_file (fold (logger_log E) ds
           (logger_new E (log_file (fold (logger_log E) cs (logger_new E [])) @ p))))))) = cs"
proof -
  let ?rs = "records_from E 0 cs" and ?n = "of_nat (length cs) :: u64"
  let ?f = "concat (map (write_to E) ?rs)"
  have rs: "list_all (record_ok E) ?rs" using oks by (rule records_from_ok)
  have scan: "records_loop E [] 0 (?f @ p) = (?rs, None)"
    using wal.scan_append [OF rs, of "[]" 0 p] p(2) by (simp add: records_loop.simps [of E _ _ p] read_from_short)
  have len: "log_len (logger_new E (?f @ p)) = ?n" "log_file (logger_new E (?f @ p)) = ?f @ p"
    using scan new_loop_records [of E 0 0 "?f @ p" "[]"] last_records_from [of cs E 0] by (auto simp: logger_new_def)
  have "(256 :: nat) ^ (8 - length p) \<le> 256 ^ 7" by (rule power_increasing) (use p(1) in linarith, simp)
  with small have "length cs < 256 ^ 7" by (rule less_le_trans)
  then have id: "unat ?n < 256 ^ (8 - length p)" using small by (simp add: unat_of_nat)
  have stored: "log_file (fold (logger_log E) ds (logger_new E (?f @ p))) = ?f @ p @ concat (map (write_to E) (records_from E ?n ds))"
    by (simp add: log_file_fold len)
  have "fst (read_records E (logger_new E (?f @ p @ concat (map (write_to E) (records_from E ?n ds))))) = ?rs"
  proof (cases ds)
    case Nil
    then show ?thesis using scan new_loop_records [of E 0 0 "?f @ p" "[]"] by (simp add: logger_new_def read_records_def)
  next
    case (Cons d ds')
    let ?g = "?f @ p @ concat (map (write_to E) (records_from E ?n ds))"
    have "lr_id (log_record_new E ?n d) = ?n" by (simp add: log_record_new_def)
    then obtain e where "read_from E (p @ concat (map (write_to E) (records_from E ?n ds))) = Inl e"
      using read_from_stray [OF p, of "log_record_new E ?n d" E "concat (map (write_to E) (records_from E (?n + 1) ds'))"] id Cons by auto
    then have "records_loop E [] 0 ?g = (?rs, Some (length ?f))"
      using wal.scan_append [OF rs, of "[]" 0] by (simp add: records_loop.simps [of E _ _ "p @ _"])
    then have "log_file (logger_new E ?g) = ?f" using new_loop_records [of E 0 0 ?g "[]"] by (simp add: logger_new_def)
    then show ?thesis using wal.scan_complete [OF rs, of "[]" 0] by (simp add: read_records_def)
  qed
  then have "map lr_command (fst (read_records E (logger_new E (log_file (fold (logger_log E) ds (logger_new E (?f @ p))))))) = cs"
    unfolding stored by simp
  moreover have "log_file (fold (logger_log E) cs (logger_new E [])) = ?f" by (simp add: log_file_fold)
  ultimately show ?thesis by simp
qed

text \<open>A torn first byte of the second record.\<close>

theorem wal_short_tail_loses_writes_witness:
  "map lr_command (fst (read_records sample_ext (logger_new sample_ext (log_file (fold (logger_log sample_ext) [CmdDelete [98]]
     (logger_new sample_ext (log_file (fold (logger_log sample_ext) [CmdDelete [97]] (logger_new sample_ext [])) @ [1]))))))) = [CmdDelete [97]]"
  by (rule wal_short_tail_loses_writes) (simp_all add: key_ok_def)

end
