(* ===== verification/Sstable_Format.thy ===== *)
theory Sstable_Format
  imports Wal_Record
begin

text \<open>
  The layout of an SSTable file: header and data records (\<open>src/src/lsm/sstable/format.rs\<close>) and
  the sorted key index (\<open>src/src/lsm/sstable/index.rs\<close>, \<open>write_index\<close> of
  \<open>writer.rs\<close>).

  Shown here: headers, records and indexes are read back, and the binary search of a strictly
  sorted index is the lookup of the association list it stands for.
\<close>

section \<open>Header\<close>

definition MAGIC :: bytes where
  "MAGIC = str ''SST1''"

definition VERSION :: u8 where
  "VERSION = 2"

definition HEADER_SIZE :: u64 where
  "HEADER_SIZE = 45"

record header =
  index_offset :: u64
  index_len :: u64
  entry_count :: u64
  bloom_offset :: u64
  bloom_len :: u64

definition write_header :: "header \<Rightarrow> bytes" where
  "write_header h =
     MAGIC @ [VERSION] @ u64_le (index_offset h) @ u64_le (index_len h) @
     u64_le (entry_count h) @ u64_le (bloom_offset h) @ u64_le (bloom_len h)"

definition read_le64 :: "u64 reader" where
  "read_le64 = rd_bind (read_exact 8) (\<lambda>buffer. rd_lift (Inr (u64_from_le buffer)))"

definition read_header :: "header reader" where
  "read_header =
     rd_bind (read_exact 4) (\<lambda>magic.
     if magic \<noteq> MAGIC then rd_lift (Inl (IoError InvalidData (str ''invalid SSTable magic'')))
     else
       rd_bind (read_exact 1) (\<lambda>version.
       if hd version \<noteq> VERSION then
         rd_lift (Inl (IoError InvalidData
           (str ''unsupported SSTable version: expected '' @ nat_dec (unat VERSION) @
            str '', found '' @ nat_dec (unat (hd version)))))
       else
         rd_bind read_le64 (\<lambda>index_offset.
         rd_bind read_le64 (\<lambda>index_len.
         rd_bind read_le64 (\<lambda>entry_count.
         rd_bind read_le64 (\<lambda>bloom_offset.
         rd_bind read_le64 (\<lambda>bloom_len.
         rd_lift (Inr \<lparr>index_offset = index_offset, index_len = index_len,
           entry_count = entry_count, bloom_offset = bloom_offset, bloom_len = bloom_len\<rparr>))))))))"

section \<open>Data records\<close>

datatype entry = EntrySet val | EntryDelete

text \<open>\<open>u32::try_from\<close>\<close>

definition u32_try_from :: "nat \<Rightarrow> rstring \<Rightarrow> u32 io" where
  "u32_try_from n msg = (if n < 2 ^ 32 then Inr (of_nat n) else Inl (IoError InvalidInput msg))"

fun entry_fields :: "'x ext_scheme \<Rightarrow> entry \<Rightarrow> u8 \<times> u8 \<times> bytes" where
  "entry_fields E (EntrySet v) = (0, discriminant (val_data_type v), as_bytes E v)"
| "entry_fields E EntryDelete = (1, 0, [])"

text \<open>The bytes appended to the writer, and the returned record length.\<close>

definition write_record :: "'x ext_scheme \<Rightarrow> rstring \<Rightarrow> entry \<Rightarrow> (bytes \<times> u64) io" where
  "write_record E key entry =
     (let (entry_type, value_type, value_bytes) = entry_fields E entry in
      and_then (u32_try_from (length key) (str ''key is too large'')) (\<lambda>key_len.
      and_then (u32_try_from (length value_bytes) (str ''value is too large'')) (\<lambda>value_len.
      let record_len = 10 + of_nat (length key) + of_nat (length value_bytes);
          header = [entry_type, value_type] @ u32_le key_len @ u32_le value_len
      in Inr (header @ key @ value_bytes, record_len))))"

definition read_record_string :: "nat \<Rightarrow> rstring \<Rightarrow> rstring reader" where
  "read_record_string len field =
     rd_bind (read_exact len) (\<lambda>bs.
     rd_lift (from_utf8 bs (str ''invalid UTF-8 '' @ field @ str '' in SSTable'')))"

text \<open>The part of \<open>read_record\<close> behind the ten header bytes.\<close>

definition read_record_body :: "'x ext_scheme \<Rightarrow> bytes \<Rightarrow> (rstring \<times> entry) reader" where
  "read_record_body E header =
     (let entry_type = header ! 0;
          value_type = header ! 1;
          key_len = unat (u32_from_le (take 4 (drop 2 header)));
          value_len = unat (u32_from_le (take 4 (drop 6 header)))
      in
      rd_bind (read_record_string key_len (str ''key'')) (\<lambda>key.
      rd_bind
        (if entry_type = 0 then
           rd_bind (read_exact value_len) (\<lambda>value_bytes.
           rd_bind (rd_lift (from_u8 value_type)) (\<lambda>data_type.
           rd_bind (rd_lift (from_bytes E data_type value_bytes)) (\<lambda>v.
           rd_lift (Inr (EntrySet v)))))
         else if entry_type = 1 then
           (if value_len \<noteq> 0 then
              rd_lift (Inl (IoError InvalidData (str ''delete record contains a value'')))
            else rd_lift (Inr EntryDelete))
         else rd_lift (Inl (IoError InvalidData (str ''invalid SSTable entry type''))))
        (\<lambda>entry. rd_lift (Inr (key, entry)))))"

definition read_record ::
  "'x ext_scheme \<Rightarrow> bytes \<Rightarrow> ((rstring \<times> entry) \<times> bytes) option io" where
  "read_record E bs =
     (case read_exact 10 bs of
        Inl e \<Rightarrow> if kind e = UnexpectedEof then Inr None else Inl e
      | Inr (header, rest) \<Rightarrow>
          and_then (read_record_body E header rest) (\<lambda>x. Inr (Some x)))"

section \<open>Index\<close>

record index_entry =
  ie_key :: rstring
  ie_offset :: u64

type_synonym index = "index_entry list"

definition index_new :: index where
  "index_new = []"

definition index_add :: "index \<Rightarrow> rstring \<Rightarrow> u64 \<Rightarrow> index" where
  "index_add index key offset = index @ [\<lparr>ie_key = key, ie_offset = offset\<rparr>]"

text \<open>\<open>slice::binary_search_by\<close> on the half-open range from \<open>lo\<close> to \<open>hi\<close>.\<close>

function binary_search :: "index \<Rightarrow> rstring \<Rightarrow> nat \<Rightarrow> nat \<Rightarrow> nat option" where
  "binary_search entries key lo hi =
     (if lo < hi then
        (let mid = lo + (hi - lo) div 2; k = ie_key (entries ! mid) in
         if k = key then Some mid
         else if k < key then binary_search entries key (mid + 1) hi
         else binary_search entries key lo mid)
      else None)"
  by pat_completeness auto
termination
  by (relation "measure (\<lambda>(entries, key, lo, hi). hi - lo)") auto

declare binary_search.simps [simp del]

definition index_find :: "index \<Rightarrow> rstring \<Rightarrow> u64 option" where
  "index_find entries key =
     map_option (\<lambda>position. ie_offset (entries ! position))
       (binary_search entries key 0 (length entries))"

text \<open>\<open>write_index\<close>: the bytes and their count.\<close>

fun write_index :: "index \<Rightarrow> (bytes \<times> u64) io" where
  "write_index [] = Inr ([], 0)"
| "write_index (e # es) =
     and_then (u32_try_from (length (ie_key e)) (str ''key is too large'')) (\<lambda>key_len.
     and_then (write_index es) (\<lambda>(bs, n).
     Inr (u32_le key_len @ ie_key e @ u64_le (ie_offset e) @ bs,
          4 + of_nat (length (ie_key e)) + 8 + n)))"

definition read_index_entry :: "index_entry reader" where
  "read_index_entry =
     rd_bind (read_exact 4) (\<lambda>buffer.
     rd_bind (read_exact (unat (u32_from_le buffer))) (\<lambda>key_bytes.
     rd_bind (rd_lift (from_utf8 key_bytes (str ''invalid UTF-8 key in SSTable index''))) (\<lambda>key.
     rd_bind (read_exact 8) (\<lambda>buffer.
     rd_lift (Inr \<lparr>ie_key = key, ie_offset = u64_from_le buffer\<rparr>)))))"

fun read_index_entries :: "nat \<Rightarrow> index \<Rightarrow> index reader" where
  "read_index_entries 0 index = rd_lift (Inr index)"
| "read_index_entries (Suc n) index =
     rd_bind read_index_entry (\<lambda>e. read_index_entries n (index_add index (ie_key e) (ie_offset e)))"

fun index_sorted :: "index \<Rightarrow> bool" where
  "index_sorted (a # b # es) = (ie_key a < ie_key b \<and> index_sorted (b # es))"
| "index_sorted _ = True"

text \<open>\<open>read_index\<close> on a file positioned at \<open>start\<close> with the bytes \<open>bs\<close> ahead.\<close>

definition read_index :: "u64 \<Rightarrow> u64 \<Rightarrow> u64 \<Rightarrow> bytes \<Rightarrow> index io" where
  "read_index start len count bs =
     and_then (ok_or (checked_add start len) (IoError InvalidData (str ''invalid index length'')))
       (\<lambda>end_pos.
     and_then (read_index_entries (unat count) index_new bs) (\<lambda>(index, rest).
     if unat start + (length bs - length rest) \<noteq> unat end_pos then
       Inl (IoError InvalidData (str ''SSTable index length mismatch''))
     else if \<not> index_sorted index then
       Inl (IoError InvalidData (str ''SSTable index is not sorted''))
     else Inr index))"

section \<open>Lemmas: header and records\<close>

lemma length_MAGIC [simp]: "length MAGIC = 4"
  by (simp add: MAGIC_def str_def)

lemma length_write_header [simp, len_simps]: "length (write_header h) = 45"
  by (simp add: write_header_def)

lemma read_le64_append [simp, io_simps]: "read_le64 (u64_le w @ rest) = Inr (w, rest)"
  by (simp add: read_le64_def)

lemma read_exact_1_Cons [simp, io_simps]: "read_exact (Suc 0) (b # rest) = Inr ([b], rest)"
  using read_exact_append [of "[b]" 1 rest] by simp

lemma read_header_write_header [simp, codec]:
  "read_header (write_header h @ rest) = Inr (h, rest)"
  by (simp add: read_header_def write_header_def)

fun entry_ok :: "'x ext_scheme \<Rightarrow> entry \<Rightarrow> bool" where
  "entry_ok E (EntrySet v) = val_fits E v"
| "entry_ok E EntryDelete = True"

fun entry_bytes :: "'x ext_scheme \<Rightarrow> entry \<Rightarrow> bytes" where
  "entry_bytes E (EntrySet v) = as_bytes E v"
| "entry_bytes E EntryDelete = []"

definition record_bytes :: "'x ext_scheme \<Rightarrow> rstring \<times> entry \<Rightarrow> bytes" where
  "record_bytes E = (\<lambda>(key, entry).
     (case entry_fields E entry of (t, vt, vb) \<Rightarrow>
        [t, vt] @ u32_le (of_nat (length key)) @ u32_le (of_nat (length vb)) @ key @ vb))"

definition pair_ok :: "'x ext_scheme \<Rightarrow> rstring \<times> entry \<Rightarrow> bool" where
  "pair_ok E = (\<lambda>(key, entry). key_ok key \<and> entry_ok E entry)"

lemma length_record_bytes [simp, len_simps]:
  "length (record_bytes E (key, entry)) = 10 + length key + length (entry_bytes E entry)"
  by (cases entry) (simp_all add: record_bytes_def)

lemma write_record_ok:
  assumes "pair_ok E (key, entry)"
  shows "write_record E key entry =
    Inr (record_bytes E (key, entry), of_nat (length (record_bytes E (key, entry))))"
  using assms
  by (cases entry)
    (simp_all add: write_record_def record_bytes_def pair_ok_def key_ok_def val_fits_def u32_try_from_def)

lemma read_record_bytes [simp, codec]:
  assumes "pair_ok E (key, entry)"
  shows "read_record E (record_bytes E (key, entry) @ rest) = Inr (Some ((key, entry), rest))"
proof -
  obtain t vt vb where f: "entry_fields E entry = (t, vt, vb)" by (cases entry) auto
  let ?h = "[t, vt] @ u32_le (of_nat (length key)) @ u32_le (of_nat (length vb))"
  have len: "length vb < 2 ^ 32" "length key < 2 ^ 32" "utf8_valid key"
    using assms f by (cases entry; auto simp: pair_ok_def key_ok_def val_fits_def)+
  have "read_exact 10 (record_bytes E (key, entry) @ rest) = Inr (?h, key @ vb @ rest)"
    using read_exact_append [of ?h 10 "key @ vb @ rest"] by (simp add: record_bytes_def f)
  moreover have "read_record_body E ?h (key @ vb @ rest) = Inr ((key, entry), rest)"
    using assms f len
    by (cases entry)
      (auto simp: read_record_body_def read_record_string_def Let_def pair_ok_def val_fits_def
        unat_of_nat_u32 from_bytes_as_bytes)
  ultimately show ?thesis by (simp add: read_record_def)
qed

lemma exact_read_record_body [simp]: "exact_reader (read_record_body E h)"
  unfolding read_record_body_def read_record_string_def Let_def
  by (intro exact_rd_bind) (auto intro!: exact_rd_bind split: if_splits)

section \<open>Lemmas: index\<close>

lemma index_sorted_iff: "index_sorted es \<longleftrightarrow> sorted_wrt (<) (map ie_key es)"
proof (induction es rule: index_sorted.induct)
  case (1 a b es)
  have "transp ((<) :: rstring \<Rightarrow> rstring \<Rightarrow> bool)" by (auto intro: transpI)
  with 1 show ?case by (simp add: sorted_wrt2 del: sorted_wrt.simps)
qed simp_all

lemma index_keys_less:
  "index_sorted es \<Longrightarrow> i < j \<Longrightarrow> j < length es \<Longrightarrow> ie_key (es ! i) < ie_key (es ! j)"
  by (auto simp: index_sorted_iff sorted_wrt_iff_nth_less)

lemma binary_search_correct:
  assumes "index_sorted es" and "hi \<le> length es"
  shows "case binary_search es key lo hi of
      Some p \<Rightarrow> lo \<le> p \<and> p < hi \<and> ie_key (es ! p) = key
    | None \<Rightarrow> (\<forall>p. lo \<le> p \<and> p < hi \<longrightarrow> ie_key (es ! p) \<noteq> key)"
  using assms
proof (induction es key lo hi rule: binary_search.induct)
  case (1 es key lo hi)
  let ?mid = "lo + (hi - lo) div 2"
  note step = binary_search.simps [of es key lo hi]
  show ?case
  proof (cases "lo < hi \<and> ie_key (es ! ?mid) \<noteq> key")
    case False
    then show ?thesis by (auto simp: step Let_def)
  next
    case True
    then have mid: "lo \<le> ?mid" "?mid < hi" by auto
    show ?thesis
    proof (cases "ie_key (es ! ?mid) < key")
      case less: True
      have "ie_key (es ! p) \<noteq> key" if "p \<le> ?mid" for p
        using index_keys_less [OF "1.prems"(1), of p ?mid] that mid less "1.prems"(2)
        by (cases "p = ?mid") auto
      moreover have "case binary_search es key (?mid + 1) hi of
          Some p \<Rightarrow> ?mid + 1 \<le> p \<and> p < hi \<and> ie_key (es ! p) = key
        | None \<Rightarrow> (\<forall>p. ?mid + 1 \<le> p \<and> p < hi \<longrightarrow> ie_key (es ! p) \<noteq> key)"
        using "1.IH"(1) [OF _ refl refl] True less "1.prems" by simp
      ultimately show ?thesis
        using True less mid by (auto simp: step Let_def split: option.splits) (metis not_less_eq_eq)
    next
      case geq: False
      have "ie_key (es ! p) \<noteq> key" if "?mid \<le> p" "p < hi" for p
        using index_keys_less [OF "1.prems"(1), of ?mid p] that geq True "1.prems"(2)
        by (cases "p = ?mid") auto
      moreover have "case binary_search es key lo ?mid of
          Some p \<Rightarrow> lo \<le> p \<and> p < ?mid \<and> ie_key (es ! p) = key
        | None \<Rightarrow> (\<forall>p. lo \<le> p \<and> p < ?mid \<longrightarrow> ie_key (es ! p) \<noteq> key)"
        using "1.IH"(2) [OF _ refl refl] True geq "1.prems" mid by simp
      ultimately show ?thesis
        using True geq mid by (auto simp: step Let_def split: option.splits) (metis not_less)+
    qed
  qed
qed

definition index_pairs :: "index \<Rightarrow> (rstring \<times> u64) list" where
  "index_pairs es = map (\<lambda>e. (ie_key e, ie_offset e)) es"

lemma index_find_map_of:
  assumes "index_sorted es"
  shows "index_find es key = map_of (index_pairs es) key"
proof -
  have dist: "distinct (map fst (index_pairs es))"
    using assms by (simp add: index_sorted_iff index_pairs_def comp_def strict_sorted_iff)
  note bs = binary_search_correct [OF assms order_refl, where key = key and lo = 0]
  show ?thesis
  proof (cases "binary_search es key 0 (length es)")
    case None
    with bs have "key \<notin> fst ` set (index_pairs es)"
      by (auto simp: index_pairs_def in_set_conv_nth)
    with None show ?thesis by (simp add: index_find_def map_of_eq_None_iff [THEN iffD2])
  next
    case (Some p)
    with bs have "p < length es" "ie_key (es ! p) = key" by auto
    then have "(key, ie_offset (es ! p)) \<in> set (index_pairs es)"
      by (force simp: index_pairs_def)
    with dist Some show ?thesis by (simp add: index_find_def)
  qed
qed

definition index_bytes :: "index \<Rightarrow> bytes" where
  "index_bytes es =
     concat (map (\<lambda>e. u32_le (of_nat (length (ie_key e))) @ ie_key e @ u64_le (ie_offset e)) es)"

lemma write_index_ok:
  "list_all (\<lambda>e. key_ok (ie_key e)) es \<Longrightarrow>
     write_index es = Inr (index_bytes es, of_nat (length (index_bytes es)))"
  by (induction es) (simp_all add: index_bytes_def key_ok_def u32_try_from_def)

lemma read_index_entry_bytes:
  "key_ok (ie_key e) \<Longrightarrow>
     read_index_entry ((u32_le (of_nat (length (ie_key e))) @ ie_key e @ u64_le (ie_offset e)) @ rest)
     = Inr (e, rest)"
  by (simp add: read_index_entry_def key_ok_def unat_of_nat_u32)

lemma read_index_entries_bytes:
  "list_all (\<lambda>e. key_ok (ie_key e)) es \<Longrightarrow>
     read_index_entries (length es) acc (index_bytes es @ rest) = Inr (acc @ es, rest)"
proof (induction es arbitrary: acc)
  case (Cons e es)
  then have "read_index_entry (index_bytes (e # es) @ rest) = Inr (e, index_bytes es @ rest)"
    using read_index_entry_bytes [of e "index_bytes es @ rest"] by (simp add: index_bytes_def)
  with Cons show ?case by (simp add: index_add_def)
qed (simp add: index_bytes_def)

lemma read_index_bytes [codec]:
  assumes "list_all (\<lambda>e. key_ok (ie_key e)) es" and "index_sorted es"
    and "unat start + length (index_bytes es) < 2 ^ 64" and "length es < 2 ^ 64"
  shows "read_index start (of_nat (length (index_bytes es))) (of_nat (length es)) (index_bytes es @ rest) = Inr es"
proof -
  have "checked_add start (of_nat (length (index_bytes es))) = Some (start + of_nat (length (index_bytes es)))"
    using assms(3) by (simp add: checked_add_def unat_of_nat_u64)
  moreover have "unat (start + of_nat (length (index_bytes es))) = unat start + length (index_bytes es)"
    using assms(3) unat_add_u64 [of start "of_nat (length (index_bytes es))"] by (simp add: unat_of_nat_u64)
  ultimately show ?thesis
    using assms read_index_entries_bytes [OF assms(1), of index_new rest]
    by (simp add: read_index_def unat_of_nat_u64 index_new_def)
qed

section \<open>Properties\<close>

text \<open>
  The index lookup of a strictly sorted index returns the offset stored for the key and
  nothing for a key that is not there: the binary search agrees with the association list.
\<close>

theorem index_find_correct:
  assumes "index_sorted es"
  shows "index_find es key = Some off \<longleftrightarrow> (\<exists>e \<in> set es. ie_key e = key \<and> ie_offset e = off)"
proof -
  have dist: "distinct (map fst (index_pairs es))"
    using assms by (simp add: index_sorted_iff index_pairs_def comp_def strict_sorted_iff)
  show ?thesis
    unfolding index_find_map_of [OF assms] map_of_eq_Some_iff [OF dist]
    by (auto simp: index_pairs_def)
qed

theorem index_find_correct_witness:
  "index_find [\<lparr>ie_key = [97], ie_offset = 45\<rparr>, \<lparr>ie_key = [98], ie_offset = 60\<rparr>] [98] = Some 60"
proof -
  have "index_sorted [\<lparr>ie_key = [97], ie_offset = 45\<rparr>, \<lparr>ie_key = [98], ie_offset = 60\<rparr>]" by simp
  from index_find_correct [OF this, of "[98]" 60] show ?thesis by simp
qed

end
