(* ===== verification/Bloom.thy ===== *)
theory Bloom
  imports Prelude
begin

unbundle bit_operations_syntax

text \<open>
  The Bloom filter of an SSTable (\<open>src/src/lsm/sstable/bloom.rs\<close>): sizing, insertion, the
  membership test, and its on-disk form with the checks of \<open>from_bytes\<close>.

  Shown here: bit positions are always inside the bit vector, a key that was inserted is always
  found (no false negatives), and a filter is read back from its bytes.
\<close>

section \<open>The filter\<close>

record bloom_filter =
  bf_bits :: bytes
  bf_num_bits :: nat
  bf_num_hashes :: nat

definition BLOOM_HEADER_SIZE :: nat where
  "BLOOM_HEADER_SIZE = 25"

definition HASH_ALGORITHM_XXH3_128 :: u8 where
  "HASH_ALGORITHM_XXH3_128 = 1"

definition div_ceil :: "nat \<Rightarrow> nat \<Rightarrow> nat" where
  "div_ceil a b = (a + b - 1) div b"

text \<open>\<open>BloomFilter::new\<close> at the only rate the code uses, 0.01.\<close>

definition bloom_new :: "'x ext_scheme \<Rightarrow> nat \<Rightarrow> bloom_filter" where
  "bloom_new E expected_items =
     (let n = max expected_items 1;
          num_bits = max (bloom_bits E n) 8;
          num_hashes = max (bloom_hashes E num_bits n) 1
      in \<lparr>bf_bits = replicate (div_ceil num_bits 8) 0, bf_num_bits = num_bits,
          bf_num_hashes = num_hashes\<rparr>)"

definition hash_pair :: "'x ext_scheme \<Rightarrow> rstring \<Rightarrow> u64 \<times> u64" where
  "hash_pair E key =
     (let hash = xxh3_128 E key in (ucast hash, ucast (drop_bit 64 hash) OR 1))"

text \<open>\<open>h1.wrapping_add(i.wrapping_mul(h2)) % num_bits\<close>\<close>

definition bloom_bit :: "'x ext_scheme \<Rightarrow> rstring \<Rightarrow> nat \<Rightarrow> nat \<Rightarrow> nat" where
  "bloom_bit E key num_bits i =
     (let (h1, h2) = hash_pair E key in unat ((h1 + of_nat i * h2) mod of_nat num_bits))"

text \<open>\<open>1 << n\<close> on bytes\<close>

definition bit_mask :: "nat \<Rightarrow> u8" where
  "bit_mask n = push_bit n 1"

definition bloom_insert :: "'x ext_scheme \<Rightarrow> rstring \<Rightarrow> bloom_filter \<Rightarrow> bloom_filter" where
  "bloom_insert E key f =
     f\<lparr>bf_bits := fold (\<lambda>i bits.
         let bit = bloom_bit E key (bf_num_bits f) i in
         bits[bit div 8 := bits ! (bit div 8) OR bit_mask (bit mod 8)])
       [0..<bf_num_hashes f] (bf_bits f)\<rparr>"

definition may_contain :: "'x ext_scheme \<Rightarrow> bloom_filter \<Rightarrow> rstring \<Rightarrow> bool" where
  "may_contain E f key =
     list_all (\<lambda>i.
       let bit = bloom_bit E key (bf_num_bits f) i in
       bf_bits f ! (bit div 8) AND bit_mask (bit mod 8) \<noteq> 0) [0..<bf_num_hashes f]"

definition bloom_to_bytes :: "bloom_filter \<Rightarrow> bytes" where
  "bloom_to_bytes f =
     [HASH_ALGORITHM_XXH3_128] @ u64_le (of_nat (bf_num_bits f)) @
     u64_le (of_nat (bf_num_hashes f)) @ u64_le (of_nat (length (bf_bits f))) @ bf_bits f"

definition bloom_from_bytes :: "bytes \<Rightarrow> bloom_filter io" where
  "bloom_from_bytes bytes =
     (let invalid_data = (\<lambda>m. Inl (IoError InvalidData (str m))) in
      if length bytes < BLOOM_HEADER_SIZE then invalid_data ''truncated Bloom filter header''
      else if bytes ! 0 \<noteq> HASH_ALGORITHM_XXH3_128 then
        invalid_data ''unsupported Bloom filter hash algorithm''
      else
        let num_bits = unat (u64_from_le (take 8 (drop 1 bytes)));
            num_hashes = unat (u64_from_le (take 8 (drop 9 bytes)));
            bits_len = unat (u64_from_le (take 8 (drop 17 bytes))) in
        if num_bits = 0 \<or> num_hashes = 0 then invalid_data ''Bloom filter dimensions must be nonzero''
        else if num_hashes > 100 then invalid_data ''Bloom filter hash count exceeds limit''
        else if bits_len \<noteq> div_ceil num_bits 8 then
          invalid_data ''Bloom filter bit and byte counts disagree''
        else if BLOOM_HEADER_SIZE + bits_len \<ge> 2 ^ 64 then invalid_data ''Bloom filter length overflow''
        else if length bytes \<noteq> BLOOM_HEADER_SIZE + bits_len then
          invalid_data ''Bloom filter payload length mismatch''
        else Inr \<lparr>bf_bits = drop BLOOM_HEADER_SIZE bytes, bf_num_bits = num_bits,
                  bf_num_hashes = num_hashes\<rparr>)"

section \<open>Invariant\<close>

definition bloom_inv :: "bloom_filter \<Rightarrow> bool" where
  "bloom_inv f \<longleftrightarrow> 0 < bf_num_bits f \<and> bf_num_bits f < 2 ^ 64 \<and>
     length (bf_bits f) = div_ceil (bf_num_bits f) 8"

text \<open>
  What the floating point sizing gives at rate 0.01: at most ten bits for each item (the exact
  factor is 9.585) and at most a hundred hashes (it is seven).
\<close>

definition bloom_sizing_ok :: "'x ext_scheme \<Rightarrow> bool" where
  "bloom_sizing_ok E \<longleftrightarrow>
     (\<forall>n \<ge> 1. bloom_bits E n \<le> 10 * n \<and> bloom_hashes E (max (bloom_bits E n) 8) n \<le> 100)"

lemma bloom_sizing_sample [simp]: "bloom_sizing_ok sample_ext"
  by (simp add: bloom_sizing_ok_def sample_ext_def)

lemma bloom_bit_bound:
  assumes "0 < m" and "m < 2 ^ 64"
  shows "bloom_bit E key m i < m"
  using assms by (simp add: bloom_bit_def case_prod_beta unat_mod unat_of_nat_u64 Let_def)

lemma bloom_byte_bound:
  assumes "bloom_inv f"
  shows "bloom_bit E key (bf_num_bits f) i div 8 < length (bf_bits f)"
proof -
  have "bloom_bit E key (bf_num_bits f) i < bf_num_bits f"
    using assms by (simp add: bloom_inv_def bloom_bit_bound)
  with assms show ?thesis by (simp add: bloom_inv_def div_ceil_def)
qed

lemma bloom_new_inv:
  assumes "bloom_sizing_ok E" and "n < 2 ^ 60"
  shows "bloom_inv (bloom_new E n)"
proof -
  have "bloom_bits E (max n 1) \<le> 10 * max n 1"
    using assms(1) by (simp add: bloom_sizing_ok_def)
  with assms(2) show ?thesis
    by (auto simp: bloom_inv_def bloom_new_def Let_def max_def split: if_splits)
qed

section \<open>Bits of a byte vector\<close>

definition bit_at :: "bytes \<Rightarrow> nat \<Rightarrow> bool" where
  "bit_at bits b \<longleftrightarrow> bit (bits ! (b div 8)) (b mod 8)"

lemma bit_bit_mask: "bit (bit_mask n) k \<longleftrightarrow> k = n \<and> n < 8"
  by (auto simp: bit_mask_def bit_exp_iff)

lemma and_bit_mask: "(w :: u8) AND bit_mask n \<noteq> 0 \<longleftrightarrow> n < 8 \<and> bit w n"
proof
  assume nz: "w AND bit_mask n \<noteq> 0"
  show "n < 8 \<and> bit w n"
  proof (rule ccontr)
    assume "\<not> (n < 8 \<and> bit w n)"
    then have "w AND bit_mask n = 0"
      by (intro bit_eqI) (auto simp: bit_and_iff bit_bit_mask)
    with nz show False by simp
  qed
next
  assume "n < 8 \<and> bit w n"
  then have "bit (w AND bit_mask n) n" by (simp add: bit_and_iff bit_bit_mask)
  then show "w AND bit_mask n \<noteq> 0" by auto
qed

lemma may_contain_bits:
  "may_contain E f key \<longleftrightarrow> (\<forall>i < bf_num_hashes f. bit_at (bf_bits f) (bloom_bit E key (bf_num_bits f) i))"
  by (auto simp: may_contain_def bit_at_def list_all_iff Let_def and_bit_mask)

lemma set_bit_at:
  assumes "b div 8 < length bits"
  shows "bit_at (bits[b div 8 := bits ! (b div 8) OR bit_mask (b mod 8)]) c \<longleftrightarrow> c = b \<or> bit_at bits c"
proof -
  have eq: "c = b \<longleftrightarrow> c div 8 = b div 8 \<and> c mod 8 = b mod 8"
    by (metis div_mult_mod_eq)
  show ?thesis
    using assms
    by (cases "c div 8 = b div 8")
      (auto simp: bit_at_def bit_or_iff bit_bit_mask eq)
qed

lemma fold_set_bits:
  fixes g :: "nat \<Rightarrow> nat"
  assumes "\<And>i. g i div 8 < length bits"
  shows "bit_at (fold (\<lambda>i bits. let bit = g i in
           bits[bit div 8 := bits ! (bit div 8) OR bit_mask (bit mod 8)]) xs bits) c
         \<longleftrightarrow> (\<exists>i \<in> set xs. c = g i) \<or> bit_at bits c"
  using assms
proof (induction xs arbitrary: bits)
  case (Cons x xs)
  show ?case
    using Cons.IH [of "bits[g x div 8 := bits ! (g x div 8) OR bit_mask (g x mod 8)]"] Cons.prems
    by (auto simp: Let_def set_bit_at)
qed simp

lemma length_fold_set_bits:
  "length (fold (\<lambda>i bits. let bit = g i in
     bits[bit div 8 := bits ! (bit div 8) OR bit_mask (bit mod 8)]) xs bits) = length bits"
  by (induction xs arbitrary: bits) (simp_all add: Let_def)

lemma bloom_insert_simps [simp]:
  "bf_num_bits (bloom_insert E key f) = bf_num_bits f"
  "bf_num_hashes (bloom_insert E key f) = bf_num_hashes f"
  "length (bf_bits (bloom_insert E key f)) = length (bf_bits f)"
  by (simp_all add: bloom_insert_def length_fold_set_bits)

lemma bloom_insert_inv [simp]: "bloom_inv (bloom_insert E key f) \<longleftrightarrow> bloom_inv f"
  by (simp add: bloom_inv_def)

lemma bloom_insert_bits:
  assumes "bloom_inv f"
  shows "bit_at (bf_bits (bloom_insert E key f)) c \<longleftrightarrow>
    (\<exists>i < bf_num_hashes f. c = bloom_bit E key (bf_num_bits f) i) \<or> bit_at (bf_bits f) c"
  using fold_set_bits [of "bloom_bit E key (bf_num_bits f)" "bf_bits f" "[0..<bf_num_hashes f]" c]
    bloom_byte_bound [OF assms, of E key]
  by (simp add: bloom_insert_def Bex_def)

section \<open>The filter as an approximate set\<close>

text \<open>
  What a table relies on: inserting keeps the invariant, makes the key a possible member and
  never makes another key impossible.
\<close>

locale approx_set =
  fixes ins :: "'k \<Rightarrow> 'f \<Rightarrow> 'f" and mem :: "'f \<Rightarrow> 'k \<Rightarrow> bool" and inv :: "'f \<Rightarrow> bool"
  assumes inv_ins: "inv f \<Longrightarrow> inv (ins k f)"
    and mem_ins: "inv f \<Longrightarrow> mem (ins k f) k"
    and mem_mono: "inv f \<Longrightarrow> mem f k \<Longrightarrow> mem (ins k' f) k"
begin

lemma inv_fold: "inv f \<Longrightarrow> inv (fold ins ks f)"
  by (induction ks arbitrary: f) (simp_all add: inv_ins)

lemma mem_fold_mono: "inv f \<Longrightarrow> mem f k \<Longrightarrow> mem (fold ins ks f) k"
  by (induction ks arbitrary: f) (simp_all add: inv_ins mem_mono)

lemma no_false_negative: "inv f \<Longrightarrow> k \<in> set ks \<Longrightarrow> mem (fold ins ks f) k"
  by (induction ks arbitrary: f) (auto simp: inv_ins mem_ins mem_fold_mono)

end

interpretation bloom: approx_set "bloom_insert E" "may_contain E" bloom_inv for E :: "'x ext_scheme"
  by unfold_locales (auto simp: may_contain_bits bloom_insert_bits)

section \<open>Bytes\<close>

lemma length_bloom_to_bytes [simp, len_simps]:
  "length (bloom_to_bytes f) = BLOOM_HEADER_SIZE + length (bf_bits f)"
  by (simp add: bloom_to_bytes_def BLOOM_HEADER_SIZE_def)

lemma bloom_from_to_bytes [codec]:
  assumes "bloom_inv f" and "0 < bf_num_hashes f" and "bf_num_hashes f \<le> 100"
    and "length (bf_bits f) < 2 ^ 60"
  shows "bloom_from_bytes (bloom_to_bytes f) = Inr f"
proof -
  let ?b = "bloom_to_bytes f"
  let ?n = "u64_le (of_nat (bf_num_bits f))" and ?h = "u64_le (of_nat (bf_num_hashes f))"
    and ?l = "u64_le (of_nat (length (bf_bits f)))"
  have b: "?b = HASH_ALGORITHM_XXH3_128 # ?n @ ?h @ ?l @ bf_bits f"
    by (simp add: bloom_to_bytes_def)
  have b0: "?b ! 0 = HASH_ALGORITHM_XXH3_128" by (simp add: b)
  have n: "take 8 (drop 1 ?b) = ?n" by (simp add: b)
  have h: "take 8 (drop 9 ?b) = ?h" by (simp add: b)
  have l: "take 8 (drop 17 ?b) = ?l" by (simp add: b)
  have d: "drop BLOOM_HEADER_SIZE ?b = bf_bits f" by (simp add: b BLOOM_HEADER_SIZE_def)
  have un: "unat (of_nat (bf_num_bits f) :: u64) = bf_num_bits f"
    using assms(1) by (simp add: bloom_inv_def unat_of_nat_u64)
  have uh: "unat (of_nat (bf_num_hashes f) :: u64) = bf_num_hashes f"
    using assms(3) by (simp add: unat_of_nat_u64)
  have ul: "unat (of_nat (length (bf_bits f)) :: u64) = div_ceil (bf_num_bits f) 8"
    using assms(1,4) by (simp add: bloom_inv_def unat_of_nat_u64)
  have len: "length ?b = BLOOM_HEADER_SIZE + div_ceil (bf_num_bits f) 8"
    using assms(1) by (simp add: bloom_inv_def)
  have "BLOOM_HEADER_SIZE + div_ceil (bf_num_bits f) 8 < 2 ^ 64"
    using assms(1,4) by (simp add: bloom_inv_def BLOOM_HEADER_SIZE_def)
  moreover have "bf_num_bits f \<noteq> 0" "bf_num_hashes f \<noteq> 0" "\<not> 100 < bf_num_hashes f"
    using assms(1,2,3) by (simp_all add: bloom_inv_def)
  ultimately show ?thesis
    unfolding bloom_from_bytes_def Let_def b0 n h l d u64_from_le_u64_le un uh ul len
    by simp
qed

section \<open>Filters built by a table writer\<close>

lemma fold_bloom_insert_simps [simp]:
  "bf_num_bits (fold (bloom_insert E) ks f) = bf_num_bits f"
  "bf_num_hashes (fold (bloom_insert E) ks f) = bf_num_hashes f"
  "length (bf_bits (fold (bloom_insert E) ks f)) = length (bf_bits f)"
  by (induction ks arbitrary: f) simp_all

lemma bloom_new_size:
  assumes "bloom_sizing_ok E"
  shows "length (bf_bits (bloom_new E n)) \<le> 2 * max n 1"
    and "0 < bf_num_hashes (bloom_new E n)" and "bf_num_hashes (bloom_new E n) \<le> 100"
proof -
  have "bloom_bits E (max n 1) \<le> 10 * max n 1"
    and hashes: "bloom_hashes E (max (bloom_bits E (max n 1)) 8) (max n 1) \<le> 100"
    using assms by (simp_all add: bloom_sizing_ok_def)
  then have "div_ceil (max (bloom_bits E (max n 1)) 8) 8 \<le> 2 * max n 1"
    by (auto simp: div_ceil_def max_def)
  with hashes show "length (bf_bits (bloom_new E n)) \<le> 2 * max n 1"
    and "0 < bf_num_hashes (bloom_new E n)" and "bf_num_hashes (bloom_new E n) \<le> 100"
    by (simp_all add: bloom_new_def Let_def less_max_iff_disj)
qed

lemma bloom_built_roundtrip:
  assumes "bloom_sizing_ok E" and "n < 2 ^ 58"
  shows "bloom_from_bytes (bloom_to_bytes (fold (bloom_insert E) ks (bloom_new E n)))
         = Inr (fold (bloom_insert E) ks (bloom_new E n))"
proof (rule bloom_from_to_bytes)
  show "bloom_inv (fold (bloom_insert E) ks (bloom_new E n))"
    using assms by (intro bloom.inv_fold bloom_new_inv) auto
  show "length (bf_bits (fold (bloom_insert E) ks (bloom_new E n))) < 2 ^ 60"
    using bloom_new_size(1) [OF assms(1), of n] assms(2) by simp
qed (use bloom_new_size [OF assms(1), of n] in simp_all)

section \<open>Properties\<close>

text \<open>
  C30. No false negatives: a filter built by inserting some keys answers yes for each of them.
\<close>

theorem bloom_no_false_negatives:
  assumes "bloom_sizing_ok E" and "n < 2 ^ 60" and "k \<in> set ks"
  shows "may_contain E (fold (bloom_insert E) ks (bloom_new E n)) k"
  using bloom_new_inv [OF assms(1,2)] assms(3) by (rule bloom.no_false_negative)

theorem bloom_no_false_negatives_witness:
  "may_contain sample_ext (fold (bloom_insert sample_ext) [[97], [98]] (bloom_new sample_ext 2)) [98]"
  by (rule bloom_no_false_negatives) simp_all

text \<open>
  The on-disk form of a filter that a table writer built passes every check of
  \<open>from_bytes\<close> and gives back the same filter.
\<close>

theorem bloom_disk_roundtrip:
  assumes "bloom_sizing_ok E" and "n < 2 ^ 58"
  shows "bloom_from_bytes (bloom_to_bytes (fold (bloom_insert E) ks (bloom_new E n)))
         = Inr (fold (bloom_insert E) ks (bloom_new E n))"
  using assms by (rule bloom_built_roundtrip)

theorem bloom_disk_roundtrip_witness:
  "bloom_from_bytes (bloom_to_bytes (fold (bloom_insert sample_ext) [[97]] (bloom_new sample_ext 1)))
   = Inr (fold (bloom_insert sample_ext) [[97]] (bloom_new sample_ext 1))"
  by (rule bloom_disk_roundtrip) simp_all

end
