(* ===== verification/Sstable.thy ===== *)
theory Sstable
  imports Sstable_Format Bloom
begin

text \<open>
  SSTable files: the two writers (\<open>src/src/lsm/sstable/writer.rs\<close>), the readers
  (\<open>reader.rs\<close>) and the table object (\<open>mod.rs\<close>). A directory is an association list
  from file names to contents; a writer that fails leaves what it has written so far in the file.

  Shown here: a table written from strictly sorted entries answers every lookup like the
  association list of these entries, also after it is opened again from its file; the sequential
  reader returns the entries in order; the streaming writer accepts exactly sorted input; the
  header-only file that \<open>SSTable::new\<close> leaves behind cannot be opened.
\<close>

section \<open>Files\<close>

type_synonym files = "(rstring \<times> bytes) list"

definition fs_open :: "rstring \<Rightarrow> files \<Rightarrow> bytes io" where
  "fs_open path dir = ok_or (map_of dir path) (IoError NotFound (str ''No such file or directory''))"

definition fs_write :: "rstring \<Rightarrow> bytes \<Rightarrow> files \<Rightarrow> files" where
  "fs_write path content dir = AList.update path content dir"

definition fs_remove :: "rstring \<Rightarrow> files \<Rightarrow> files io" where
  "fs_remove path dir =
     (if map_of dir path = None then Inl (IoError NotFound (str ''No such file or directory''))
      else Inr (AList.delete path dir))"

text \<open>A lookup that decides a \<open>seek\<close> to an absolute position.\<close>

definition seek :: "u64 \<Rightarrow> bytes \<Rightarrow> bytes" where
  "seek pos content = drop (unat pos) content"

section \<open>Writers\<close>

definition STREAMING_EXPECTED_ITEMS :: nat where
  "STREAMING_EXPECTED_ITEMS = 1024"

definition empty_header :: header where
  "empty_header = \<lparr>index_offset = 0, index_len = 0, entry_count = 0, bloom_offset = 0, bloom_len = 0\<rparr>"

definition offset_overflow :: io_error where
  "offset_overflow = IoError InvalidData (str ''SSTable offset overflow'')"

definition writer_create :: "rstring \<Rightarrow> files \<Rightarrow> files" where
  "writer_create path dir = fs_write path (write_header empty_header) dir"

text \<open>The writer's state: the bytes written, the index, the filter and the next offset.\<close>

record streaming_writer =
  sw_file :: bytes
  sw_index :: index
  sw_bloom :: bloom_filter
  sw_offset :: u64

text \<open>
  Appending one record, as in the loop of \<open>write\<close> and in \<open>write_entry\<close>. The state is
  returned with an error too: the record is already in the file when the offset overflows.
\<close>

definition append_entry ::
  "'x ext_scheme \<Rightarrow> rstring \<Rightarrow> entry \<Rightarrow> streaming_writer \<Rightarrow> streaming_writer \<times> unit io" where
  "append_entry E key entry w =
     (case write_record E key entry of
        Inl e \<Rightarrow> (w, Inl e)
      | Inr (record, record_len) \<Rightarrow>
          (let w = w\<lparr>sw_file := sw_file w @ record,
                     sw_index := index_add (sw_index w) key (sw_offset w),
                     sw_bloom := bloom_insert E key (sw_bloom w)\<rparr> in
           case checked_add (sw_offset w) record_len of
             None \<Rightarrow> (w, Inl offset_overflow)
           | Some offset \<Rightarrow> (w\<lparr>sw_offset := offset\<rparr>, Inr ())))"

text \<open>
  The common tail of \<open>write\<close> and \<open>finish\<close>: filter, index, and last the header over the
  first bytes of the file. The result is the content of the file and the index or the error.
\<close>

definition finish :: "streaming_writer \<Rightarrow> bytes \<times> index io" where
  "finish w =
     (let bloom_bytes = bloom_to_bytes (sw_bloom w);
          content = sw_file w @ bloom_bytes in
      case checked_add (sw_offset w) (of_nat (length bloom_bytes)) of
        None \<Rightarrow> (content, Inl offset_overflow)
      | Some i_off \<Rightarrow>
          (case write_index (sw_index w) of
             Inl e \<Rightarrow> (content, Inl e)
           | Inr (i_bytes, i_len) \<Rightarrow>
               (let content = content @ i_bytes in
                case checked_add i_off i_len of
                  None \<Rightarrow> (content, Inl offset_overflow)
                | Some offset \<Rightarrow>
                    (let header = \<lparr>index_offset = i_off, index_len = i_len,
                           entry_count = of_nat (length (sw_index w)), bloom_offset = sw_offset w,
                           bloom_len = of_nat (length bloom_bytes)\<rparr> in
                     (write_header header @ drop 45 content, Inr (sw_index w))))))"

definition writer_start :: "'x ext_scheme \<Rightarrow> nat \<Rightarrow> streaming_writer" where
  "writer_start E expected =
     \<lparr>sw_file = write_header empty_header, sw_index = index_new,
      sw_bloom = bloom_new E expected, sw_offset = HEADER_SIZE\<rparr>"

fun write_loop ::
  "'x ext_scheme \<Rightarrow> (rstring \<times> entry) list \<Rightarrow> streaming_writer \<Rightarrow> streaming_writer \<times> unit io" where
  "write_loop E [] w = (w, Inr ())"
| "write_loop E ((key, entry) # entries) w =
     (case append_entry E key entry w of
        (w, Inl e) \<Rightarrow> (w, Inl e)
      | (w, Inr _) \<Rightarrow> write_loop E entries w)"

text \<open>\<open>writer::write\<close>\<close>

definition writer_write ::
  "'x ext_scheme \<Rightarrow> rstring \<Rightarrow> (rstring \<times> entry) list \<Rightarrow> files \<Rightarrow> files \<times> index io" where
  "writer_write E path entries dir =
     (case write_loop E entries (writer_start E (length entries)) of
        (w, Inl e) \<Rightarrow> (fs_write path (sw_file w) dir, Inl e)
      | (w, Inr _) \<Rightarrow> (case finish w of (content, r) \<Rightarrow> (fs_write path content dir, r)))"

definition streaming_create :: "'x ext_scheme \<Rightarrow> streaming_writer" where
  "streaming_create E = writer_start E STREAMING_EXPECTED_ITEMS"

definition write_entry ::
  "'x ext_scheme \<Rightarrow> rstring \<Rightarrow> entry \<Rightarrow> streaming_writer \<Rightarrow> streaming_writer \<times> unit io" where
  "write_entry E key entry w =
     (if sw_index w \<noteq> [] \<and> ie_key (last (sw_index w)) \<ge> key
      then (w, Inl (IoError InvalidInput (str ''SSTable entries must be sorted'')))
      else append_entry E key entry w)"

section \<open>Readers\<close>

definition validate_header :: "bytes \<Rightarrow> header \<Rightarrow> unit io" where
  "validate_header content h =
     and_then (ok_or (checked_add (index_offset h) (index_len h))
       (IoError InvalidData (str ''SSTable index range overflows''))) (\<lambda>index_end.
     if index_offset h < HEADER_SIZE then
       Inl (IoError InvalidData (str ''invalid SSTable index offset''))
     else if unat index_end > length content then
       Inl (IoError InvalidData (str ''SSTable index exceeds file size''))
     else Inr ())"

record sequential_reader =
  sr_rest :: bytes
  sr_entries_read :: u64
  sr_entry_count :: u64

definition sequential_open :: "bytes \<Rightarrow> sequential_reader io" where
  "sequential_open content =
     and_then (read_header content) (\<lambda>(header, _).
     and_then (validate_header content header) (\<lambda>_.
     Inr \<lparr>sr_rest = seek HEADER_SIZE content, sr_entries_read = 0,
          sr_entry_count = entry_count header\<rparr>))"

definition sequential_next ::
  "'x ext_scheme \<Rightarrow> sequential_reader \<Rightarrow> ((rstring \<times> entry) option \<times> sequential_reader) io" where
  "sequential_next E r =
     (if sr_entries_read r \<ge> sr_entry_count r then Inr (None, r)
      else
        and_then (read_record E (sr_rest r)) (\<lambda>x.
        case x of
          None \<Rightarrow> Inl (IoError UnexpectedEof (str ''SSTable data ended before entry_count''))
        | Some (record, rest) \<Rightarrow>
            Inr (Some record, r\<lparr>sr_rest := rest, sr_entries_read := sr_entries_read r + 1\<rparr>)))"

definition load_index :: "bytes \<Rightarrow> index io" where
  "load_index content =
     and_then (read_header content) (\<lambda>(header, _).
     and_then (validate_header content header) (\<lambda>_.
     read_index (index_offset header) (index_len header) (entry_count header)
       (seek (index_offset header) content)))"

definition reader_read_entry ::
  "'x ext_scheme \<Rightarrow> bytes \<Rightarrow> index \<Rightarrow> rstring \<Rightarrow> entry option io" where
  "reader_read_entry E content index key =
     (case index_find index key of
        None \<Rightarrow> Inr None
      | Some offset \<Rightarrow>
          and_then (read_record E (seek offset content)) (\<lambda>x.
          case x of Some ((_, entry), _) \<Rightarrow> Inr (Some entry) | None \<Rightarrow> Inr None))"

lemma sequential_next_Some:
  "sequential_next E r = Inr (Some x, r') \<Longrightarrow>
     sr_entries_read r < sr_entry_count r \<and> sr_entries_read r' = sr_entries_read r + 1
     \<and> sr_entry_count r' = sr_entry_count r"
  by (auto simp: sequential_next_def and_then_eq_Inr split: if_splits option.splits)

lemma word_Suc_measure: "(a :: u64) < b \<Longrightarrow> unat b - unat (a + 1) < unat b - unat a"
  by (simp add: unat_Suc_u64 word_less_nat_alt)

function load_loop ::
  "'x ext_scheme \<Rightarrow> (rstring \<times> entry) list \<Rightarrow> sequential_reader \<Rightarrow> (rstring \<times> entry) list io" where
  "load_loop E entries r =
     and_then (sequential_next E r) (\<lambda>(x, r).
     case x of None \<Rightarrow> Inr entries | Some entry \<Rightarrow> load_loop E (entries @ [entry]) r)"
  by pat_completeness auto
termination
  by (relation "measure (\<lambda>(E, es, r). unat (sr_entry_count r) - unat (sr_entries_read r))")
    (auto dest!: sequential_next_Some intro: word_Suc_measure)

declare load_loop.simps [simp del]

definition load_entries_sequential :: "'x ext_scheme \<Rightarrow> bytes \<Rightarrow> (rstring \<times> entry) list io" where
  "load_entries_sequential E content =
     and_then (sequential_open content) (\<lambda>reader. load_loop E [] reader)"

definition load_bloom_filter :: "bytes \<Rightarrow> bloom_filter io" where
  "load_bloom_filter content =
     and_then (read_header content) (\<lambda>(header, _).
     if bloom_len header = 0 then
       Inl (IoError InvalidData (str ''SSTable does not contain a persisted Bloom filter''))
     else
       and_then (ok_or (checked_add (bloom_offset header) (bloom_len header))
         (IoError InvalidData (str ''Bloom filter offset overflow''))) (\<lambda>bloom_end.
       if bloom_offset header < HEADER_SIZE \<or> unat bloom_end > length content then
         Inl (IoError InvalidData (str ''Bloom filter points outside the SSTable''))
       else
         and_then (read_exact (unat (bloom_len header)) (seek (bloom_offset header) content))
           (\<lambda>(bytes, _). bloom_from_bytes bytes)))"

section \<open>The table\<close>

record sstable =
  st_file_name :: rstring
  st_file :: bytes
  st_index :: index
  st_bloom_filter :: bloom_filter

definition sstable_new :: "'x ext_scheme \<Rightarrow> rstring \<Rightarrow> files \<Rightarrow> files \<times> sstable io" where
  "sstable_new E file_name dir =
     (let dir = writer_create file_name dir in
      (dir, and_then (fs_open file_name dir) (\<lambda>file.
        Inr \<lparr>st_file_name = file_name, st_file = file, st_index = index_new,
             st_bloom_filter = bloom_new E 1\<rparr>)))"

definition sstable_from_parts :: "rstring \<Rightarrow> index \<Rightarrow> files \<Rightarrow> sstable io" where
  "sstable_from_parts file_name index dir =
     and_then (fs_open file_name dir) (\<lambda>file.
     and_then (load_bloom_filter file) (\<lambda>bloom_filter.
     Inr \<lparr>st_file_name = file_name, st_file = file, st_index = index,
          st_bloom_filter = bloom_filter\<rparr>))"

definition sstable_open :: "rstring \<Rightarrow> files \<Rightarrow> sstable io" where
  "sstable_open file_name dir =
     and_then (fs_open file_name dir) (\<lambda>file.
     and_then (load_bloom_filter file) (\<lambda>bloom_filter.
     and_then (load_index file) (\<lambda>index.
     Inr \<lparr>st_file_name = file_name, st_file = file, st_index = index,
          st_bloom_filter = bloom_filter\<rparr>)))"

text \<open>The open handle of the table sees what is written to its file.\<close>

definition write_entries ::
  "'x ext_scheme \<Rightarrow> (rstring \<times> entry) list \<Rightarrow> sstable \<Rightarrow> files \<Rightarrow> files \<times> sstable io" where
  "write_entries E entries t dir =
     (case writer_write E (st_file_name t) entries dir of
        (dir, Inl e) \<Rightarrow> (dir, Inl e)
      | (dir, Inr index) \<Rightarrow>
          (dir, and_then (fs_open (st_file_name t) dir) (\<lambda>file.
                and_then (load_bloom_filter file) (\<lambda>bloom_filter.
                Inr (t\<lparr>st_file := file, st_index := index, st_bloom_filter := bloom_filter\<rparr>)))))"

definition read_entry :: "'x ext_scheme \<Rightarrow> sstable \<Rightarrow> rstring \<Rightarrow> entry option io" where
  "read_entry E t key =
     (if \<not> may_contain E (st_bloom_filter t) key then Inr None
      else reader_read_entry E (st_file t) (st_index t) key)"

text \<open>\<open>load_entries\<close> collects into a map; later entries win.\<close>

definition load_entries :: "'x ext_scheme \<Rightarrow> sstable \<Rightarrow> files \<Rightarrow> (rstring \<rightharpoonup> entry) io" where
  "load_entries E t dir =
     and_then (fs_open (st_file_name t) dir) (\<lambda>file.
     and_then (load_entries_sequential E file) (\<lambda>entries. Inr (map_of (rev entries))))"

definition sstable_sequential_reader :: "sstable \<Rightarrow> files \<Rightarrow> sequential_reader io" where
  "sstable_sequential_reader t dir = and_then (fs_open (st_file_name t) dir) sequential_open"

section \<open>The content of a table file\<close>

definition data_bytes :: "'x ext_scheme \<Rightarrow> (rstring \<times> entry) list \<Rightarrow> bytes" where
  "data_bytes E es = concat (map (record_bytes E) es)"

fun index_of :: "'x ext_scheme \<Rightarrow> nat \<Rightarrow> (rstring \<times> entry) list \<Rightarrow> index" where
  "index_of E off [] = []"
| "index_of E off (p # es) =
     \<lparr>ie_key = fst p, ie_offset = of_nat off\<rparr> # index_of E (off + length (record_bytes E p)) es"

definition bloom_of :: "'x ext_scheme \<Rightarrow> nat \<Rightarrow> (rstring \<times> entry) list \<Rightarrow> bloom_filter" where
  "bloom_of E n es = fold (bloom_insert E) (map fst es) (bloom_new E n)"

text \<open>Sizes: \<open>weight\<close> bounds the bytes that entries take in data, filter and index.\<close>

definition entry_weight :: "'x ext_scheme \<Rightarrow> rstring \<times> entry \<Rightarrow> nat" where
  "entry_weight E = (\<lambda>(k, e). 24 + 2 * length k + length (entry_bytes E e))"

definition weight :: "'x ext_scheme \<Rightarrow> (rstring \<times> entry) list \<Rightarrow> nat" where
  "weight E es = sum_list (map (entry_weight E) es)"

definition entries_ok :: "'x ext_scheme \<Rightarrow> (rstring \<times> entry) list \<Rightarrow> bool" where
  "entries_ok E es \<longleftrightarrow> list_all (pair_ok E) es \<and> weight E es < 2 ^ 60"

definition keys_sorted :: "(rstring \<times> entry) list \<Rightarrow> bool" where
  "keys_sorted es \<longleftrightarrow> sorted_wrt (<) (map fst es)"

definition table_header :: "'x ext_scheme \<Rightarrow> nat \<Rightarrow> (rstring \<times> entry) list \<Rightarrow> header" where
  "table_header E n es =
     (let b = 45 + length (data_bytes E es); l = length (bloom_to_bytes (bloom_of E n es)) in
      \<lparr>index_offset = of_nat (b + l), index_len = of_nat (length (index_bytes (index_of E 45 es))),
       entry_count = of_nat (length es), bloom_offset = of_nat b, bloom_len = of_nat l\<rparr>)"

definition table_file :: "'x ext_scheme \<Rightarrow> nat \<Rightarrow> (rstring \<times> entry) list \<Rightarrow> bytes" where
  "table_file E n es =
     write_header (table_header E n es) @ data_bytes E es @ bloom_to_bytes (bloom_of E n es) @
     index_bytes (index_of E 45 es)"

lemma weight_simps [simp]:
  "weight E [] = 0" "weight E (p # es) = entry_weight E p + weight E es"
  "weight E (es @ fs) = weight E es + weight E fs"
  by (simp_all add: weight_def)

lemma length_data_index:
  "length (data_bytes E es) + length (index_bytes (index_of E off es)) + 2 * length es \<le> weight E es"
proof (induction es arbitrary: off)
  case (Cons p es)
  obtain k e where p: "p = (k, e)" by (cases p)
  from Cons [of "off + length (record_bytes E p)"] show ?case
    by (simp add: p data_bytes_def index_bytes_def entry_weight_def)
qed (simp add: data_bytes_def index_bytes_def)

lemma length_le_weight: "24 * length es \<le> weight E es"
  by (induction es) (auto simp: entry_weight_def)

lemma length_index_of [simp]: "length (index_of E off es) = length es"
  by (induction es arbitrary: off) auto

lemma index_of_Nil_iff [simp]: "index_of E off es = [] \<longleftrightarrow> es = []"
  by (cases es) auto

lemma index_of_keys [simp]: "map ie_key (index_of E off es) = map fst es"
  by (induction es arbitrary: off) auto

lemma index_of_sorted [simp]: "index_sorted (index_of E off es) \<longleftrightarrow> keys_sorted es"
  by (simp add: index_sorted_iff keys_sorted_def)

lemma index_of_key_ok:
  "list_all (pair_ok E) es \<Longrightarrow> list_all (\<lambda>e. key_ok (ie_key e)) (index_of E off es)"
  by (induction es arbitrary: off) (auto simp: pair_ok_def)

lemma index_of_append:
  "index_of E off (es @ fs) = index_of E off es @ index_of E (off + length (data_bytes E es)) fs"
  by (induction es arbitrary: off) (simp_all add: data_bytes_def add.assoc)

text \<open>Bounds on the sections of a file of acceptable entries.\<close>

lemma table_sizes:
  assumes sizing: "bloom_sizing_ok E" and ok: "entries_ok E es" and n: "n \<le> max (length es) 1024"
  shows "n < 2 ^ 58" and "length es < 2 ^ 56"
    and "45 + length (data_bytes E es) + length (bloom_to_bytes (bloom_of E n es))
         + length (index_bytes (index_of E 45 es)) < 2 ^ 62"
proof -
  have w: "weight E es < 2 ^ 60" using ok by (simp add: entries_ok_def)
  with length_le_weight [of es E] show len: "length es < 2 ^ 56" by simp
  with n show n58: "n < 2 ^ 58" by simp
  have "length (bloom_to_bytes (bloom_of E n es)) \<le> 25 + 2 * max n 1"
    using bloom_new_size(1) [OF sizing, of n] by (simp add: bloom_of_def BLOOM_HEADER_SIZE_def)
  with n58 w length_data_index [of E es 45]
  show "45 + length (data_bytes E es) + length (bloom_to_bytes (bloom_of E n es))
         + length (index_bytes (index_of E 45 es)) < 2 ^ 62"
    by simp
qed

section \<open>What the writers produce\<close>

lemma append_entry_ok:
  assumes "pair_ok E (k, e)" and "unat (sw_offset w) + length (record_bytes E (k, e)) < 2 ^ 64"
  shows "append_entry E k e w =
    (w\<lparr>sw_file := sw_file w @ record_bytes E (k, e),
       sw_index := sw_index w @ [\<lparr>ie_key = k, ie_offset = sw_offset w\<rparr>],
       sw_bloom := bloom_insert E k (sw_bloom w),
       sw_offset := sw_offset w + of_nat (length (record_bytes E (k, e)))\<rparr>, Inr ())"
proof -
  have "checked_add (sw_offset w) (of_nat (length (record_bytes E (k, e))))
      = Some (sw_offset w + of_nat (length (record_bytes E (k, e))))"
    using assms(2) unat_of_nat_u64 [of "length (record_bytes E (k, e))"] by (simp add: checked_add_def)
  then show ?thesis
    using write_record_ok [OF assms(1)] by (simp add: append_entry_def index_add_def)
qed

text \<open>The writer after the entries \<open>es\<close>.\<close>

definition writer_at :: "'x ext_scheme \<Rightarrow> nat \<Rightarrow> (rstring \<times> entry) list \<Rightarrow> streaming_writer" where
  "writer_at E n es =
     \<lparr>sw_file = write_header empty_header @ data_bytes E es, sw_index = index_of E 45 es,
      sw_bloom = bloom_of E n es, sw_offset = of_nat (45 + length (data_bytes E es))\<rparr>"

lemma writer_start_at: "writer_start E n = writer_at E n []"
  by (simp add: writer_start_def writer_at_def data_bytes_def bloom_of_def index_new_def HEADER_SIZE_def)

lemma append_entry_at:
  assumes "entries_ok E (es @ [(k, e)])"
  shows "append_entry E k e (writer_at E n es) = (writer_at E n (es @ [(k, e)]), Inr ())"
proof -
  let ?d = "data_bytes E es" and ?r = "record_bytes E (k, e)"
  have pair: "pair_ok E (k, e)" using assms by (simp add: entries_ok_def)
  have "length ?d + length ?r \<le> weight E (es @ [(k, e)])"
    using length_data_index [of E "es @ [(k, e)]" 45] by (simp add: data_bytes_def)
  with assms have fits: "45 + length ?d + length ?r < 2 ^ 61" by (simp add: entries_ok_def)
  then have "unat (sw_offset (writer_at E n es)) = 45 + length ?d"
    using unat_of_nat_u64 [of "45 + length ?d"] by (simp add: writer_at_def del: of_nat_add)
  with fits append_entry_ok [OF pair, of "writer_at E n es"] show ?thesis
    by (simp add: writer_at_def data_bytes_def index_of_append bloom_of_def add.assoc)
qed

lemma write_loop_at:
  "entries_ok E (es @ fs) \<Longrightarrow> write_loop E fs (writer_at E n es) = (writer_at E n (es @ fs), Inr ())"
proof (induction fs arbitrary: es)
  case (Cons p fs)
  obtain k e where p: "p = (k, e)" by (cases p)
  have "entries_ok E (es @ [(k, e)])" using Cons.prems by (simp add: entries_ok_def p)
  with Cons.IH [of "es @ [p]"] Cons.prems show ?case by (simp add: p append_entry_at)
qed simp

lemma finish_at:
  assumes "bloom_sizing_ok E" and "entries_ok E es" and "n \<le> max (length es) 1024"
  shows "finish (writer_at E n es) = (table_file E n es, Inr (index_of E 45 es))"
proof -
  let ?b = "45 + length (data_bytes E es)" and ?l = "length (bloom_to_bytes (bloom_of E n es))"
    and ?i = "length (index_bytes (index_of E 45 es))"
  have fits: "?b + ?l + ?i < 2 ^ 62" using table_sizes(3) [OF assms] .
  have keys: "list_all (\<lambda>e. key_ok (ie_key e)) (index_of E 45 es)"
    using assms(2) by (simp add: entries_ok_def index_of_key_ok)
  have add: "checked_add (of_nat x) (of_nat y) = Some (of_nat (x + y))" if "x + y < 2 ^ 62" for x y :: nat
    using that by (simp add: checked_add_def unat_of_nat_u64)
  have "checked_add (of_nat ?b) (of_nat ?l) = Some (of_nat (?b + ?l))"
    and "checked_add (of_nat (?b + ?l)) (of_nat ?i) = Some (of_nat (?b + ?l + ?i))"
    using fits by (intro add; simp)+
  then show ?thesis
    by (simp add: finish_def writer_at_def write_index_ok [OF keys] table_file_def table_header_def
        Let_def del: of_nat_add)
qed

lemma writer_write_ok:
  assumes "bloom_sizing_ok E" and "entries_ok E es"
  shows "writer_write E path es dir =
    (fs_write path (table_file E (length es) es) dir, Inr (index_of E 45 es))"
  using write_loop_at [of E "[]" es "length es"] finish_at [OF assms, of "length es"] assms(2)
  by (simp add: writer_write_def writer_start_at)

lemma write_entry_at:
  assumes "entries_ok E (es @ [(k, e)])" and "keys_sorted (es @ [(k, e)])"
  shows "write_entry E k e (writer_at E n es) = (writer_at E n (es @ [(k, e)]), Inr ())"
proof -
  have "ie_key (last (index_of E 45 es)) < k" if "es \<noteq> []"
  proof -
    have "ie_key (last (index_of E 45 es)) = fst (last es)"
      using that index_of_keys [of E 45 es] by (metis last_map length_0_conv length_index_of)
    with assms(2) that show ?thesis by (auto simp: keys_sorted_def sorted_wrt_append)
  qed
  then show ?thesis
    using append_entry_at [OF assms(1)]
    by (auto simp: write_entry_def writer_at_def not_le)
qed

section \<open>What the readers return on a table file\<close>

text \<open>The entries of a table, its Bloom sizing parameter and their side conditions.\<close>

definition table_ok :: "'x ext_scheme \<Rightarrow> nat \<Rightarrow> (rstring \<times> entry) list \<Rightarrow> bool" where
  "table_ok E n es \<longleftrightarrow>
     bloom_sizing_ok E \<and> entries_ok E es \<and> keys_sorted es \<and> n \<le> max (length es) 1024"

lemma table_okD:
  assumes "table_ok E n es"
  shows "bloom_sizing_ok E" "entries_ok E es" "keys_sorted es" "n \<le> max (length es) 1024"
    "list_all (pair_ok E) es"
  using assms by (auto simp: table_ok_def entries_ok_def)

lemma read_header_table [simp]:
  "read_header (table_file E n es) = Inr (table_header E n es,
     data_bytes E es @ bloom_to_bytes (bloom_of E n es) @ index_bytes (index_of E 45 es))"
  by (simp add: table_file_def)

lemma length_table_file:
  "length (table_file E n es) = 45 + length (data_bytes E es)
     + length (bloom_to_bytes (bloom_of E n es)) + length (index_bytes (index_of E 45 es))"
  by (simp add: table_file_def)

lemma table_header_unat:
  assumes "table_ok E n es"
  shows "unat (index_offset (table_header E n es)) =
      45 + length (data_bytes E es) + length (bloom_to_bytes (bloom_of E n es))"
    and "unat (index_len (table_header E n es)) = length (index_bytes (index_of E 45 es))"
    and "unat (entry_count (table_header E n es)) = length es"
    and "unat (bloom_offset (table_header E n es)) = 45 + length (data_bytes E es)"
    and "unat (bloom_len (table_header E n es)) = length (bloom_to_bytes (bloom_of E n es))"
proof -
  note d = table_okD [OF assms]
  have total: "45 + length (data_bytes E es) + length (bloom_to_bytes (bloom_of E n es))
         + length (index_bytes (index_of E 45 es)) < 2 ^ 62"
    using table_sizes(3) [OF d(1,2,4)] .
  have small: "unat (of_nat m :: u64) = m" if "m < 2 ^ 62" for m
    using that by (simp add: unat_of_nat_u64)
  from total table_sizes(2) [OF d(1,2,4)]
  show "unat (index_offset (table_header E n es)) =
      45 + length (data_bytes E es) + length (bloom_to_bytes (bloom_of E n es))"
    and "unat (index_len (table_header E n es)) = length (index_bytes (index_of E 45 es))"
    and "unat (entry_count (table_header E n es)) = length es"
    and "unat (bloom_offset (table_header E n es)) = 45 + length (data_bytes E es)"
    and "unat (bloom_len (table_header E n es)) = length (bloom_to_bytes (bloom_of E n es))"
    unfolding table_header_def Let_def header.simps by (intro small; simp)+
qed

lemma HEADER_SIZE_le: "45 \<le> unat w \<Longrightarrow> \<not> w < HEADER_SIZE"
  by (simp add: HEADER_SIZE_def word_less_nat_alt)

lemma checked_add_fits:
  assumes "unat a + unat b < 2 ^ 64"
  obtains c where "checked_add a b = Some c" and "unat c = unat a + unat b"
  using assms unat_add_u64 [OF assms] by (auto simp: checked_add_def)

lemma validate_table:
  assumes "table_ok E n es"
  shows "validate_header (table_file E n es) (table_header E n es) = Inr ()"
proof -
  note u = table_header_unat [OF assms] and d = table_okD [OF assms]
  have "unat (index_offset (table_header E n es)) + unat (index_len (table_header E n es)) < 2 ^ 64"
    using table_sizes(3) [OF d(1,2,4)] unfolding u by simp
  then obtain c where "checked_add (index_offset (table_header E n es)) (index_len (table_header E n es)) = Some c"
    and "unat c = unat (index_offset (table_header E n es)) + unat (index_len (table_header E n es))"
    by (rule checked_add_fits)
  then show ?thesis
    by (simp add: validate_header_def u HEADER_SIZE_le length_table_file)
qed

lemma load_bloom_table:
  assumes "table_ok E n es"
  shows "load_bloom_filter (table_file E n es) = Inr (bloom_of E n es)"
proof -
  note u = table_header_unat [OF assms] and d = table_okD [OF assms]
  let ?h = "table_header E n es"
  have "unat (bloom_offset ?h) + unat (bloom_len ?h) < 2 ^ 64"
    using table_sizes(3) [OF d(1,2,4)] unfolding u by simp
  then obtain c where c: "checked_add (bloom_offset ?h) (bloom_len ?h) = Some c"
    and cu: "unat c = unat (bloom_offset ?h) + unat (bloom_len ?h)"
    by (rule checked_add_fits)
  have nz: "bloom_len ?h \<noteq> 0"
    using u(5) by (auto simp: BLOOM_HEADER_SIZE_def simp del: unat_eq_zero)
  have "read_exact (unat (bloom_len ?h)) (seek (bloom_offset ?h) (table_file E n es)) =
      Inr (bloom_to_bytes (bloom_of E n es), index_bytes (index_of E 45 es))"
    by (simp add: seek_def u table_file_def)
  moreover have "bloom_from_bytes (bloom_to_bytes (bloom_of E n es)) = Inr (bloom_of E n es)"
    unfolding bloom_of_def using d table_sizes(1) by (intro bloom_built_roundtrip) blast+
  moreover have "\<not> (bloom_offset ?h < HEADER_SIZE \<or> unat c > length (table_file E n es))"
    by (simp add: cu u HEADER_SIZE_le length_table_file)
  ultimately show ?thesis
    using c nz by (simp add: load_bloom_filter_def)
qed

lemma load_index_table:
  assumes "table_ok E n es"
  shows "load_index (table_file E n es) = Inr (index_of E 45 es)"
proof -
  note u = table_header_unat [OF assms] and d = table_okD [OF assms]
  let ?h = "table_header E n es" and ?i = "index_of E 45 es"
  have pos: "seek (index_offset ?h) (table_file E n es) = index_bytes ?i @ []"
    by (simp add: seek_def u table_file_def)
  have len: "index_len ?h = of_nat (length (index_bytes ?i))"
    and count: "entry_count ?h = of_nat (length ?i)"
    by (simp_all add: table_header_def Let_def)
  have "read_index (index_offset ?h) (index_len ?h) (entry_count ?h) (index_bytes ?i @ []) = Inr ?i"
    unfolding len count
  proof (rule read_index_bytes)
    show "list_all (\<lambda>e. key_ok (ie_key e)) ?i" using d by (simp add: index_of_key_ok)
    show "index_sorted ?i" using d by simp
    show "unat (index_offset ?h) + length (index_bytes ?i) < 2 ^ 64"
      using table_sizes(3) [OF d(1,2,4)] unfolding u by simp
    show "length ?i < 2 ^ 64" using table_sizes(2) [OF d(1,2,4)] by simp
  qed
  then show ?thesis
    by (simp add: load_index_def validate_table [OF assms] pos)
qed

text \<open>The sequential reader after the entries of a prefix.\<close>

definition reader_at :: "'x ext_scheme \<Rightarrow> nat \<Rightarrow> (rstring \<times> entry) list \<Rightarrow> nat \<Rightarrow> sequential_reader" where
  "reader_at E n es i =
     \<lparr>sr_rest = data_bytes E (drop i es) @ bloom_to_bytes (bloom_of E n es) @ index_bytes (index_of E 45 es),
      sr_entries_read = of_nat i, sr_entry_count = of_nat (length es)\<rparr>"

lemma sequential_open_table:
  assumes "table_ok E n es"
  shows "sequential_open (table_file E n es) = Inr (reader_at E n es 0)"
proof -
  have "seek HEADER_SIZE (table_file E n es) = sr_rest (reader_at E n es 0)"
    by (simp add: seek_def HEADER_SIZE_def table_file_def reader_at_def)
  moreover have "entry_count (table_header E n es) = of_nat (length es)"
    by (simp add: table_header_def Let_def)
  ultimately show ?thesis
    by (simp add: sequential_open_def validate_table [OF assms] reader_at_def)
qed

lemma sequential_next_at:
  assumes "table_ok E n es" and "i \<le> length es"
  shows "sequential_next E (reader_at E n es i) =
    (if i < length es then Inr (Some (es ! i), reader_at E n es (Suc i))
     else Inr (None, reader_at E n es i))"
proof -
  note d = table_okD [OF assms(1)]
  have "length es < 2 ^ 56" using table_sizes(2) [OF d(1,2,4)] .
  with assms(2) have le: "(of_nat (length es) :: u64) \<le> of_nat i \<longleftrightarrow> \<not> i < length es"
    by (simp add: word_le_nat_alt unat_of_nat_u64 not_less)
  show ?thesis
  proof (cases "i < length es")
    case True
    obtain k e where p: "es ! i = (k, e)" by (cases "es ! i")
    have "pair_ok E (k, e)" using d(5) True p by (auto simp: list_all_length)
    moreover have "drop i es = (k, e) # drop (Suc i) es" using Cons_nth_drop_Suc [OF True] p by simp
    ultimately show ?thesis
      using True le p by (simp add: sequential_next_def reader_at_def data_bytes_def add.commute)
  next
    case False
    then show ?thesis using le by (simp add: sequential_next_def reader_at_def)
  qed
qed

lemma load_loop_at:
  assumes "table_ok E n es" and "i \<le> length es"
  shows "load_loop E acc (reader_at E n es i) = Inr (acc @ drop i es)"
  using assms(2)
proof (induction "length es - i" arbitrary: i acc)
  case 0
  then show ?case
    by (subst load_loop.simps) (simp add: sequential_next_at [OF assms(1)])
next
  case (Suc m)
  then have "i < length es" by simp
  with Suc.hyps(1) [of "Suc i" "acc @ [es ! i]"] Suc.hyps(2) show ?case
    by (subst load_loop.simps) (simp add: sequential_next_at [OF assms(1)] Cons_nth_drop_Suc)
qed

lemma load_entries_table:
  "table_ok E n es \<Longrightarrow> load_entries_sequential E (table_file E n es) = Inr es"
  by (simp add: load_entries_sequential_def sequential_open_table load_loop_at)

text \<open>The record of the \<open>i\<close>-th key is at the offset that the index holds.\<close>

lemma index_of_offset:
  "i < length es \<Longrightarrow> index_of E off es ! i =
     \<lparr>ie_key = fst (es ! i), ie_offset = of_nat (off + length (data_bytes E (take i es)))\<rparr>"
proof (induction es arbitrary: off i)
  case (Cons p es)
  then show ?case by (cases i) (auto simp: data_bytes_def add.assoc)
qed simp

lemma seek_table:
  assumes "table_ok E n es" and "i < length es"
  shows "seek (of_nat (45 + length (data_bytes E (take i es)))) (table_file E n es) =
    record_bytes E (es ! i) @ data_bytes E (drop (Suc i) es) @ bloom_to_bytes (bloom_of E n es) @
    index_bytes (index_of E 45 es)"
proof -
  note d = table_okD [OF assms(1)]
  have parts: "data_bytes E es = data_bytes E (take i es) @ record_bytes E (es ! i) @ data_bytes E (drop (Suc i) es)"
    by (subst id_take_nth_drop [OF assms(2)]) (simp add: data_bytes_def)
  have "45 + length (data_bytes E (take i es)) < 2 ^ 64"
    using table_sizes(3) [OF d(1,2,4)] by (simp add: parts)
  then have "unat (of_nat (45 + length (data_bytes E (take i es))) :: u64) = 45 + length (data_bytes E (take i es))"
    by (rule unat_of_nat_u64)
  then show ?thesis by (simp add: seek_def table_file_def parts del: of_nat_add)
qed

lemma reader_read_entry_table:
  assumes "table_ok E n es"
  shows "reader_read_entry E (table_file E n es) (index_of E 45 es) key = Inr (map_of es key)"
proof -
  note d = table_okD [OF assms]
  have sorted: "index_sorted (index_of E 45 es)" and dist: "distinct (map fst es)"
    using d(3) by (simp_all add: keys_sorted_def strict_sorted_iff)
  show ?thesis
  proof (cases "map_of es key")
    case None
    then have "map_of (index_pairs (index_of E 45 es)) key = None"
      using index_of_keys [of E 45 es]
      by (simp add: map_of_eq_None_iff index_pairs_def comp_def flip: set_map)
    with None show ?thesis
      by (simp add: reader_read_entry_def index_find_map_of [OF sorted])
  next
    case (Some e)
    then obtain i where i: "i < length es" "es ! i = (key, e)"
      by (metis in_set_conv_nth map_of_SomeD)
    then have "(key, of_nat (45 + length (data_bytes E (take i es)))) \<in> set (index_pairs (index_of E 45 es))"
    proof -
      have "index_of E 45 es ! i \<in> set (index_of E 45 es)" using i by simp
      then show ?thesis
        using index_of_offset [OF i(1), of E 45] i(2) unfolding index_pairs_def
        by (auto intro!: image_eqI simp del: of_nat_add)
    qed
    moreover have "distinct (map fst (index_pairs (index_of E 45 es)))"
      using dist index_of_keys [of E 45 es] by (simp add: index_pairs_def comp_def)
    ultimately have "index_find (index_of E 45 es) key = Some (of_nat (45 + length (data_bytes E (take i es))))"
      by (simp add: index_find_map_of [OF sorted] del: of_nat_add)
    moreover have "pair_ok E (key, e)" using d(5) i by (metis list_all_length)
    ultimately show ?thesis
      using seek_table [OF assms i(1)] i(2) Some
      by (simp add: reader_read_entry_def del: of_nat_add)
  qed
qed

section \<open>Tables as sorted maps\<close>

text \<open>The entries of a table, as a scan of its file returns them.\<close>

definition contents :: "'x ext_scheme \<Rightarrow> sstable \<Rightarrow> (rstring \<times> entry) list" where
  "contents E t = (case load_entries_sequential E (st_file t) of Inr es \<Rightarrow> es | Inl _ \<Rightarrow> [])"

definition sstable_inv :: "'x ext_scheme \<Rightarrow> sstable \<Rightarrow> bool" where
  "sstable_inv E t \<longleftrightarrow>
     (\<exists>n. table_ok E n (contents E t) \<and> st_file t = table_file E n (contents E t) \<and>
          st_index t = index_of E 45 (contents E t) \<and> st_bloom_filter t = bloom_of E n (contents E t))"

lemma sstable_invI:
  assumes "table_ok E n es" and "st_file t = table_file E n es" and "st_index t = index_of E 45 es"
    and "st_bloom_filter t = bloom_of E n es"
  shows "sstable_inv E t" and "contents E t = es"
proof -
  show c: "contents E t = es"
    using assms(1,2) by (simp add: contents_def load_entries_table)
  show "sstable_inv E t"
    using assms by (auto simp: sstable_inv_def c)
qed

lemma read_entry_contents:
  assumes "sstable_inv E t"
  shows "read_entry E t key = Inr (map_of (contents E t) key)"
proof -
  obtain n where t: "table_ok E n (contents E t)" "st_file t = table_file E n (contents E t)"
    "st_index t = index_of E 45 (contents E t)" "st_bloom_filter t = bloom_of E n (contents E t)"
    using assms by (auto simp: sstable_inv_def)
  note d = table_okD [OF t(1)]
  have "map_of (contents E t) key = None" if "\<not> may_contain E (bloom_of E n (contents E t)) key"
  proof -
    have "bloom_inv (bloom_new E n)"
      using d table_sizes(1) [OF d(1,2,4)] by (intro bloom_new_inv) auto
    with that bloom.no_false_negative [of "bloom_new E n" key "map fst (contents E t)" E]
    show ?thesis by (auto simp: bloom_of_def map_of_eq_None_iff)
  qed
  then show ?thesis
    using reader_read_entry_table [OF t(1), of key] by (auto simp: read_entry_def t)
qed

lemma sstable_open_inv:
  assumes "table_ok E n es" and "map_of dir path = Some (table_file E n es)"
  obtains t where "sstable_open path dir = Inr t" and "sstable_inv E t" and "contents E t = es"
    and "st_file_name t = path" and "st_file t = table_file E n es"
proof -
  let ?t = "\<lparr>st_file_name = path, st_file = table_file E n es, st_index = index_of E 45 es,
    st_bloom_filter = bloom_of E n es\<rparr>"
  have "sstable_open path dir = Inr ?t"
    using assms by (simp add: sstable_open_def fs_open_def load_bloom_table load_index_table)
  with sstable_invI [OF assms(1), of ?t] that show thesis by simp
qed

lemma sstable_from_parts_inv:
  assumes "table_ok E n es" and "map_of dir path = Some (table_file E n es)"
  obtains t where "sstable_from_parts path (index_of E 45 es) dir = Inr t" and "sstable_inv E t"
    and "contents E t = es" and "st_file_name t = path" and "st_file t = table_file E n es"
proof -
  let ?t = "\<lparr>st_file_name = path, st_file = table_file E n es, st_index = index_of E 45 es,
    st_bloom_filter = bloom_of E n es\<rparr>"
  have "sstable_from_parts path (index_of E 45 es) dir = Inr ?t"
    using assms by (simp add: sstable_from_parts_def fs_open_def load_bloom_table)
  with sstable_invI [OF assms(1), of ?t] that show thesis by simp
qed

lemma map_of_fs_write: "map_of (fs_write path c dir) = (map_of dir)(path \<mapsto> c)"
  by (simp add: fs_write_def update_conv')

lemma write_entries_inv:
  assumes "table_ok E (length es) es"
  obtains t' where
    "write_entries E es t dir = (fs_write (st_file_name t) (table_file E (length es) es) dir, Inr t')"
    and "sstable_inv E t'" and "contents E t' = es" and "st_file_name t' = st_file_name t"
    and "st_file t' = table_file E (length es) es"
proof -
  let ?t = "t\<lparr>st_file := table_file E (length es) es, st_index := index_of E 45 es,
    st_bloom_filter := bloom_of E (length es) es\<rparr>"
  have "write_entries E es t dir = (fs_write (st_file_name t) (table_file E (length es) es) dir, Inr ?t)"
    using table_okD [OF assms] load_bloom_table [OF assms]
    by (simp add: write_entries_def writer_write_ok fs_open_def map_of_fs_write)
  with sstable_invI [OF assms, of ?t] that show thesis by simp
qed

text \<open>
  The interface that the database relies on: a lookup is the lookup in the table's contents, and
  a search through several tables, newest first, finds the entry of the first table that has one.
\<close>

locale lookup_tables =
  fixes lookup :: "'t \<Rightarrow> 'k \<Rightarrow> 'e option io" and entries :: "'t \<Rightarrow> ('k \<times> 'e) list" and inv :: "'t \<Rightarrow> bool"
    and search :: "'t list \<Rightarrow> 'k \<Rightarrow> 'e option io"
  assumes lookup_entries: "inv t \<Longrightarrow> lookup t k = Inr (map_of (entries t) k)"
    and search_Nil: "search [] k = Inr None"
    and search_Cons: "search (t # ts) k =
      and_then (lookup t k) (\<lambda>r. case r of Some e \<Rightarrow> Inr (Some e) | None \<Rightarrow> search ts k)"
begin

lemma search_entries:
  "\<forall>t \<in> set ts. inv t \<Longrightarrow> search ts k = Inr (map_of (concat (map entries ts)) k)"
proof (induction ts)
  case (Cons t ts)
  then show ?case
    by (cases "map_of (entries t) k") (simp_all add: search_Cons lookup_entries map_add_Some_iff map_add_def)
qed (simp add: search_Nil)

end

section \<open>Properties\<close>

text \<open>
  C27. A table written from strictly sorted entries answers every lookup like the association list
  of these entries: the value or tombstone of a key that is there, nothing for any other key.
\<close>

theorem sstable_write_then_read:
  assumes ok: "table_ok E (length es) es"
    and new: "sstable_new E path dir = (dir1, Inr t)"
    and wr: "write_entries E es t dir1 = (dir2, r)"
  shows "\<exists>t'. r = Inr t' \<and> (\<forall>key. read_entry E t' key = Inr (map_of es key))"
  using write_entries_inv [OF ok, of t dir1] read_entry_contents wr
  by (metis prod.inject)

text \<open>Sample entries for the witnesses.\<close>

definition sample_entries :: "(rstring \<times> entry) list" where
  "sample_entries = [([97], EntrySet (VInt 1)), ([98], EntryDelete)]"

lemma sample_table_ok: "table_ok sample_ext (length sample_entries) sample_entries"
  by (simp add: table_ok_def entries_ok_def sample_entries_def pair_ok_def key_ok_def val_fits_def
      keys_sorted_def entry_weight_def i64_to_string_def nat_dec.simps)

theorem sstable_write_then_read_witness:
  "\<exists>t t' dir. sstable_new sample_ext [116] [] = (dir, Inr t)
     \<and> snd (write_entries sample_ext sample_entries t dir) = Inr t'
     \<and> read_entry sample_ext t' [97] = Inr (Some (EntrySet (VInt 1)))"
proof -
  obtain dir t where new: "sstable_new sample_ext [116] [] = (dir, Inr t)"
    by (simp add: sstable_new_def writer_create_def fs_write_def fs_open_def)
  obtain dir2 r where "write_entries sample_ext sample_entries t dir = (dir2, r)" by fastforce
  with sstable_write_then_read [OF sample_table_ok new this] new show ?thesis
    by (fastforce simp: sample_entries_def)
qed

text \<open>
  C28. A table survives being closed: opening the file that \<open>write_entries\<close> produced succeeds,
  and the opened table gives the same answers; the sequential load returns the entries in order.
\<close>

theorem sstable_reopen:
  assumes ok: "table_ok E (length es) es" and wr: "write_entries E es t dir = (dir', r)"
  shows "\<exists>t'. sstable_open (st_file_name t) dir' = Inr t'
           \<and> (\<forall>key. read_entry E t' key = Inr (map_of es key))
           \<and> and_then (fs_open (st_file_name t) dir') (load_entries_sequential E) = Inr es"
proof -
  let ?f = "table_file E (length es) es"
  have dir': "map_of dir' (st_file_name t) = Some ?f"
  proof -
    obtain t'' where "write_entries E es t dir = (fs_write (st_file_name t) ?f dir, Inr t'')"
      using write_entries_inv [OF ok, of t dir] by metis
    with wr have "dir' = fs_write (st_file_name t) ?f dir" by simp
    then show ?thesis by (simp add: map_of_fs_write)
  qed
  then obtain t' where "sstable_open (st_file_name t) dir' = Inr t'" "sstable_inv E t'" "contents E t' = es"
    using sstable_open_inv [OF ok dir'] by metis
  then show ?thesis
    using read_entry_contents [of E t'] dir' load_entries_table [OF ok] by (simp add: fs_open_def)
qed

theorem sstable_reopen_witness:
  "\<exists>t' dir'. sstable_open [116] dir' = Inr t' \<and> read_entry sample_ext t' [98] = Inr (Some EntryDelete)"
proof -
  let ?t = "\<lparr>st_file_name = [116], st_file = [], st_index = [], st_bloom_filter = bloom_new sample_ext 1\<rparr>"
  obtain dir' r where "write_entries sample_ext sample_entries ?t [] = (dir', r)" by fastforce
  from sstable_reopen [OF sample_table_ok this] show ?thesis
    by (fastforce simp: sample_entries_def)
qed

text \<open>Writing a list of entries with the streaming writer.\<close>

fun stream_entries ::
  "'x ext_scheme \<Rightarrow> (rstring \<times> entry) list \<Rightarrow> streaming_writer \<Rightarrow> streaming_writer \<times> unit io" where
  "stream_entries E [] w = (w, Inr ())"
| "stream_entries E ((k, e) # es) w =
     (case write_entry E k e w of (w, Inl err) \<Rightarrow> (w, Inl err) | (w, Inr _) \<Rightarrow> stream_entries E es w)"

lemma stream_entries_at:
  "entries_ok E (es @ fs) \<Longrightarrow> keys_sorted (es @ fs) \<Longrightarrow>
     stream_entries E fs (writer_at E n es) = (writer_at E n (es @ fs), Inr ())"
proof (induction fs arbitrary: es)
  case (Cons p fs)
  obtain k e where p: "p = (k, e)" by (cases p)
  have "entries_ok E (es @ [(k, e)])" "keys_sorted (es @ [(k, e)])"
    using Cons.prems by (auto simp: entries_ok_def keys_sorted_def sorted_wrt_append p)
  with Cons.IH [of "es @ [p]"] Cons.prems show ?case by (simp add: p write_entry_at)
qed simp

text \<open>
  C29. The streaming writer of the compaction and the batch writer of the flush make the same table, up to the size of the filter: for
  entries in strictly increasing key order both succeed, with the same index, the same records behind the header and the same entries in
  a sequential scan, and the two tables answer every lookup alike.
\<close>

theorem streaming_writer_table:
  assumes stream_ok: "table_ok E STREAMING_EXPECTED_ITEMS es" and batch_ok: "table_ok E (length es) es"
    and run: "stream_entries E es (streaming_create E) = (w, r)" and fin: "finish w = (content, ri)"
    and batch: "write_entries E es t dir = (dir', rb)"
  shows "r = Inr () \<and> (\<exists>index ts tb. ri = Inr index
           \<and> sstable_from_parts path index (fs_write path content dir) = Inr ts \<and> rb = Inr tb
           \<and> st_index ts = st_index tb
           \<and> take (length (data_bytes E es)) (drop 45 (st_file ts)) = take (length (data_bytes E es)) (drop 45 (st_file tb))
           \<and> load_entries_sequential E (st_file ts) = Inr es \<and> load_entries_sequential E (st_file tb) = Inr es
           \<and> (\<forall>key. read_entry E ts key = read_entry E tb key \<and> read_entry E tb key = Inr (map_of es key)))"
proof -
  let ?n = STREAMING_EXPECTED_ITEMS
  note d = table_okD [OF stream_ok]
  have "stream_entries E es (streaming_create E) = (writer_at E ?n es, Inr ())"
    using stream_entries_at [of E "[]" es ?n] d by (simp add: streaming_create_def writer_start_at)
  with run have w: "w = writer_at E ?n es" "r = Inr ()" by simp_all
  with fin finish_at [OF d(1,2,4)] have c: "content = table_file E ?n es" "ri = Inr (index_of E 45 es)"
    by simp_all
  have "map_of (fs_write path content dir) path = Some (table_file E ?n es)"
    by (simp add: map_of_fs_write c)
  from sstable_from_parts_inv [OF stream_ok this] obtain ts where ts:
    "sstable_from_parts path (index_of E 45 es) (fs_write path content dir) = Inr ts"
    "sstable_inv E ts" "contents E ts = es" "st_file ts = table_file E ?n es" by metis
  have "st_index ts = index_of E 45 es" using ts(1) by (auto simp: sstable_from_parts_def and_then_eq_Inr)
  moreover obtain tb where tb: "rb = Inr tb" "sstable_inv E tb" "contents E tb = es" "st_file tb = table_file E (length es) es"
    using write_entries_inv [OF batch_ok, of t dir] batch by (metis prod.inject)
  moreover have "st_index tb = index_of E 45 es"
    using batch tb(1) writer_write_ok [OF table_okD(1,2) [OF batch_ok]]
    by (auto simp: write_entries_def and_then_eq_Inr)
  moreover have "take (length (data_bytes E es)) (drop 45 (table_file E m es)) = data_bytes E es" for m by (simp add: table_file_def)
  ultimately show ?thesis
    using w c ts read_entry_contents [of E ts] read_entry_contents [of E tb] load_entries_table [OF stream_ok] load_entries_table [OF batch_ok]
    by auto
qed

theorem streaming_writer_table_witness:
  "\<exists>ts tb. sstable_from_parts [116] (index_of sample_ext 45 sample_entries)
        (fs_write [116] (table_file sample_ext STREAMING_EXPECTED_ITEMS sample_entries) []) = Inr ts
     \<and> read_entry sample_ext ts [97] = read_entry sample_ext tb [97] \<and> read_entry sample_ext tb [97] = Inr (Some (EntrySet (VInt 1)))"
proof -
  have ok: "table_ok sample_ext STREAMING_EXPECTED_ITEMS sample_entries"
    using sample_table_ok by (simp add: table_ok_def STREAMING_EXPECTED_ITEMS_def)
  note d = table_okD [OF ok]
  have run: "stream_entries sample_ext sample_entries (streaming_create sample_ext)
      = (writer_at sample_ext STREAMING_EXPECTED_ITEMS sample_entries, Inr ())"
    using stream_entries_at [of sample_ext "[]" sample_entries STREAMING_EXPECTED_ITEMS] d
    by (simp add: streaming_create_def writer_start_at)
  let ?t = "\<lparr>st_file_name = [116], st_file = [], st_index = [], st_bloom_filter = bloom_new sample_ext 1\<rparr>"
  obtain dir' rb where batch: "write_entries sample_ext sample_entries ?t [] = (dir', rb)" by fastforce
  show ?thesis
    using streaming_writer_table [OF ok sample_table_ok run finish_at [OF d(1,2,4)] batch, of "[116]"]
    by (fastforce simp: sample_entries_def)
qed

text \<open>
  The streaming writer refuses a key that is not greater than the last one, and leaves its
  state unchanged.
\<close>

theorem streaming_writer_rejects_unsorted:
  assumes "sw_index w \<noteq> []" and "key \<le> ie_key (last (sw_index w))"
  shows "\<exists>e. write_entry E key entry w = (w, Inl e) \<and> kind e = InvalidInput"
  using assms by (simp add: write_entry_def)

theorem streaming_writer_rejects_unsorted_witness:
  "\<exists>e. write_entry sample_ext [97] EntryDelete (writer_at sample_ext 1024 sample_entries)
       = (writer_at sample_ext 1024 sample_entries, Inl e) \<and> kind e = InvalidInput"
  by (rule streaming_writer_rejects_unsorted) (simp_all add: writer_at_def sample_entries_def)

text \<open>
  The file that \<open>SSTable::new\<close> creates before any entry is written has an empty header;
  opening it fails with \<open>InvalidData\<close>. A crash between creating and writing a table leaves
  such a file.
\<close>

theorem sstable_created_cannot_be_opened:
  "\<exists>e. sstable_open path (fst (sstable_new E path dir)) = Inl e \<and> kind e = InvalidData"
proof -
  have "read_header (write_header empty_header) = Inr (empty_header, [])"
    using read_header_write_header [of empty_header "[]"] by simp
  then show ?thesis
    by (simp add: sstable_open_def sstable_new_def Let_def writer_create_def fs_open_def map_of_fs_write
        load_bloom_filter_def empty_header_def)
qed

end
