(* ===== verification/Compaction.thy ===== *)
theory Compaction
  imports Sstable "HOL-Library.Multiset"
begin

text \<open>
  The streaming k-way merge of \<open>compact_level\<close> (\<open>src/src/database/compact.rs\<close>): the order
  of merge items, the binary heap, the two nested loops that write the highest-priority version of
  each key and skip the others.

  Shown here: for tables that are each strictly sorted the merge ends, writes strictly sorted
  entries, never fails on the sorted-input check of the writer, and its result has for every key
  the entry of the newest table that has the key, tables of the current level being newer than
  those of the next level.
\<close>

section \<open>Merge items and their heap\<close>

record merge_item =
  mi_key :: rstring
  mi_entry :: entry
  mi_source :: nat
  mi_priority :: nat

text \<open>\<open>Ord for MergeItem\<close>: the key order is reversed, so the greatest item has the least key.\<close>

definition item_less :: "merge_item \<Rightarrow> merge_item \<Rightarrow> bool" where
  "item_less a b \<longleftrightarrow> mi_key b < mi_key a \<or> (mi_key b = mi_key a \<and> mi_priority a < mi_priority b)"

text \<open>\<open>BinaryHeap\<close>: a bag from which a greatest item is taken.\<close>

definition heap_push :: "merge_item \<Rightarrow> merge_item list \<Rightarrow> merge_item list" where
  "heap_push x h = x # h"

fun heap_peek :: "merge_item list \<Rightarrow> merge_item option" where
  "heap_peek [] = None"
| "heap_peek (x # h) =
     (case heap_peek h of None \<Rightarrow> Some x | Some y \<Rightarrow> if item_less x y then Some y else Some x)"

definition heap_pop :: "merge_item list \<Rightarrow> (merge_item \<times> merge_item list) option" where
  "heap_pop h = map_option (\<lambda>x. (x, remove1 x h)) (heap_peek h)"

section \<open>The merge\<close>

definition priority_of :: "nat \<Rightarrow> nat \<Rightarrow> nat" where
  "priority_of current_len source =
     (if source < current_len then source + current_len else source - current_len)"

text \<open>Read the next entry of a source and push it: \<open>if let Some(..) = readers[source].next()?\<close>.\<close>

definition advance ::
  "'x ext_scheme \<Rightarrow> nat \<Rightarrow> nat \<Rightarrow> merge_item list \<Rightarrow> sequential_reader list \<Rightarrow>
     (merge_item list \<times> sequential_reader list) io" where
  "advance E current_len source heap readers =
     (if source < length readers then
        and_then (sequential_next E (readers ! source)) (\<lambda>(x, reader).
        let readers = readers[source := reader] in
        case x of
          None \<Rightarrow> Inr (heap, readers)
        | Some (key, entry) \<Rightarrow>
            Inr (heap_push \<lparr>mi_key = key, mi_entry = entry, mi_source = source,
                   mi_priority = priority_of current_len source\<rparr> heap, readers))
      else Inl (IoError Panicked (str ''index out of bounds'')))"

text \<open>Insert the first entry of every table.\<close>

fun fill_heap ::
  "'x ext_scheme \<Rightarrow> nat \<Rightarrow> nat list \<Rightarrow> merge_item list \<Rightarrow> sequential_reader list \<Rightarrow>
     (merge_item list \<times> sequential_reader list) io" where
  "fill_heap E current_len [] heap readers = Inr (heap, readers)"
| "fill_heap E current_len (source # sources) heap readers =
     and_then (advance E current_len source heap readers) (\<lambda>(heap, readers).
     fill_heap E current_len sources heap readers)"

definition remaining :: "sequential_reader list \<Rightarrow> nat" where
  "remaining readers = sum_list (map (\<lambda>r. unat (sr_entry_count r) - unat (sr_entries_read r)) readers)"

lemma heap_peek_mem: "heap_peek h = Some x \<Longrightarrow> x \<in> set h"
  by (induction h arbitrary: x) (auto split: option.splits if_splits)

lemma heap_pop_length: "heap_pop h = Some (x, h') \<Longrightarrow> Suc (length h') = length h"
  by (auto simp: heap_pop_def length_remove1 dest!: heap_peek_mem) (metis Suc_pred length_pos_if_in_set)

lemma sum_list_update_nat:
  fixes xs :: "nat list"
  shows "i < length xs \<Longrightarrow> sum_list (xs[i := y]) + xs ! i = sum_list xs + y"
  by (induction xs arbitrary: i) (auto split: nat.splits)

lemma advance_measure:
  assumes "advance E cl s heap readers = Inr (heap', readers')"
  shows "length heap' + remaining readers' \<le> length heap + remaining readers"
proof -
  obtain x r where s: "s < length readers" and n: "sequential_next E (readers ! s) = Inr (x, r)"
    and r': "readers' = readers[s := r]"
    and h: "length heap' = length heap + (if x = None then 0 else 1)"
    using assms
    by (auto simp: advance_def and_then_eq_Inr heap_push_def Let_def split: if_splits option.splits)
  let ?m = "\<lambda>r :: sequential_reader. unat (sr_entry_count r) - unat (sr_entries_read r)"
  have "?m r + (if x = None then 0 else 1) \<le> ?m (readers ! s)"
  proof (cases x)
    case None
    with n show ?thesis
      by (auto simp: sequential_next_def and_then_eq_Inr split: if_splits option.splits)
  next
    case (Some y)
    with n sequential_next_Some [of E "readers ! s" y r] word_Suc_measure show ?thesis by fastforce
  qed
  moreover have "remaining readers' + ?m (readers ! s) = remaining readers + ?m r"
    using sum_list_update_nat [of s "map ?m readers" "?m r"] s by (simp add: remaining_def r' map_update)
  ultimately show ?thesis using h by simp
qed

text \<open>The inner loop: consume all lower-priority versions of \<open>key\<close>.\<close>

function skip_duplicates ::
  "'x ext_scheme \<Rightarrow> nat \<Rightarrow> rstring \<Rightarrow> merge_item list \<Rightarrow> sequential_reader list \<Rightarrow>
     (merge_item list \<times> sequential_reader list) io" where
  "skip_duplicates E current_len key heap readers =
     (case heap_pop heap of
        None \<Rightarrow> Inr (heap, readers)
      | Some (duplicate, heap') \<Rightarrow>
          if mi_key duplicate \<noteq> key then Inr (heap, readers)
          else
            and_then (advance E current_len (mi_source duplicate) heap' readers) (\<lambda>(heap, readers).
            skip_duplicates E current_len key heap readers))"
  by pat_completeness auto
termination
  by (relation "measure (\<lambda>(E, cl, key, heap, readers). length heap + remaining readers)")
    (auto dest!: heap_pop_length advance_measure)

declare skip_duplicates.simps [simp del]

lemma skip_duplicates_measure:
  "skip_duplicates E cl key heap readers = Inr (heap', readers') \<Longrightarrow>
     length heap' + remaining readers' \<le> length heap + remaining readers"
proof (induction E cl key heap readers rule: skip_duplicates.induct)
  case (1 E cl key heap readers)
  show ?case
  proof (cases "\<exists>d h. heap_pop heap = Some (d, h) \<and> mi_key d = key")
    case True
    then obtain d h where d: "heap_pop heap = Some (d, h)" "mi_key d = key" by blast
    with "1.prems" obtain h2 r2 where
      a: "advance E cl (mi_source d) h readers = Inr (h2, r2)"
      and s: "skip_duplicates E cl key h2 r2 = Inr (heap', readers')"
      by (auto simp: skip_duplicates.simps [of E cl key heap] and_then_eq_Inr)
    from "1.IH" [OF d(1) refl _ a refl s] d heap_pop_length [OF d(1)] advance_measure [OF a]
    show ?thesis by simp
  next
    case False
    with "1.prems" show ?thesis
      by (auto simp: skip_duplicates.simps [of E cl key heap] split: option.splits if_splits)
  qed
qed

text \<open>The outer loop. The writer is returned with an error too.\<close>

function merge_loop ::
  "'x ext_scheme \<Rightarrow> nat \<Rightarrow> merge_item list \<Rightarrow> sequential_reader list \<Rightarrow> streaming_writer \<Rightarrow>
     streaming_writer \<times> unit io" where
  "merge_loop E current_len heap readers w =
     (case heap_pop heap of
        None \<Rightarrow> (w, Inr ())
      | Some (item, heap) \<Rightarrow>
          (case write_entry E (mi_key item) (mi_entry item) w of
             (w, Inl e) \<Rightarrow> (w, Inl e)
           | (w, Inr _) \<Rightarrow>
               (case and_then (advance E current_len (mi_source item) heap readers)
                   (\<lambda>(heap, readers). skip_duplicates E current_len (mi_key item) heap readers) of
                  Inl e \<Rightarrow> (w, Inl e)
                | Inr (heap, readers) \<Rightarrow> merge_loop E current_len heap readers w)))"
  by pat_completeness auto
termination
  by (relation "measure (\<lambda>(E, cl, heap, readers, w). length heap + remaining readers)")
    (auto simp: and_then_eq_Inr dest!: heap_pop_length advance_measure skip_duplicates_measure)

declare merge_loop.simps [simp del]

section \<open>The heap as a priority queue\<close>

locale max_heap =
  fixes less :: "'a \<Rightarrow> 'a \<Rightarrow> bool" and push :: "'a \<Rightarrow> 'h \<Rightarrow> 'h" and peek :: "'h \<Rightarrow> 'a option"
    and pop :: "'h \<Rightarrow> ('a \<times> 'h) option" and items :: "'h \<Rightarrow> 'a multiset"
  assumes items_push: "items (push x h) = add_mset x (items h)"
    and peek_pop: "peek h = map_option fst (pop h)"
    and pop_None: "pop h = None \<longleftrightarrow> items h = {#}"
    and pop_Some: "pop h = Some (x, h') \<Longrightarrow> items h = add_mset x (items h') \<and> (\<forall>y \<in># items h. \<not> less x y)"
begin

lemma pop_cases:
  obtains "pop h = None" and "items h = {#}"
  | x h' where "pop h = Some (x, h')" and "items h = add_mset x (items h')"
      and "\<forall>y \<in># items h. \<not> less x y"
  using pop_None [of h] pop_Some [of h] by (cases "pop h") auto

end

lemma item_less_trans: "\<not> item_less a b \<Longrightarrow> \<not> item_less b c \<Longrightarrow> \<not> item_less a c"
  by (auto simp: item_less_def not_less)

lemma heap_peek_None [simp]: "heap_peek h = None \<longleftrightarrow> h = []"
  by (cases h) (auto split: option.splits)

lemma heap_peek_max: "heap_peek h = Some x \<Longrightarrow> y \<in> set h \<Longrightarrow> \<not> item_less x y"
proof (induction h arbitrary: x y)
  case (Cons z h)
  show ?case
  proof (cases "heap_peek h")
    case None
    with Cons.prems show ?thesis by (auto simp: item_less_def)
  next
    case (Some m)
    have asym: "item_less z m \<Longrightarrow> \<not> item_less m z" by (auto simp: item_less_def)
    have refl: "\<not> item_less a a" for a by (simp add: item_less_def)
    from Cons.IH [OF Some] have max: "y \<in> set h \<Longrightarrow> \<not> item_less m y" .
    from Cons.prems Some show ?thesis
      using max asym refl item_less_trans [of z m y] by (auto split: if_splits)
  qed
qed simp

interpretation heap: max_heap item_less heap_push heap_peek heap_pop mset
proof unfold_locales
  fix h x h'
  assume "heap_pop h = Some (x, h')"
  then have "heap_peek h = Some x" "h' = remove1 x h" by (auto simp: heap_pop_def)
  then show "mset h = add_mset x (mset h') \<and> (\<forall>y \<in># mset h. \<not> item_less x y)"
    by (auto dest: heap_peek_mem heap_peek_max)
qed (auto simp: heap_push_def heap_pop_def map_option_case split: option.splits)

section \<open>The state of the merge\<close>

text \<open>
  Each source has a list of pending entries: its item in the heap followed by what its reader has
  not yet returned.
\<close>

type_synonym pending = "(rstring \<times> entry) list list"

definition item_of :: "nat \<Rightarrow> pending \<Rightarrow> nat \<Rightarrow> merge_item" where
  "item_of cl P s = \<lparr>mi_key = fst (hd (P ! s)), mi_entry = snd (hd (P ! s)), mi_source = s,
     mi_priority = priority_of cl s\<rparr>"

definition heads :: "nat \<Rightarrow> pending \<Rightarrow> merge_item multiset" where
  "heads cl P = image_mset (item_of cl P) (mset_set {s. s < length P \<and> P ! s \<noteq> []})"

definition reads :: "'x ext_scheme \<Rightarrow> sequential_reader \<Rightarrow> (rstring \<times> entry) list \<Rightarrow> bool" where
  "reads E r es \<longleftrightarrow> (\<exists>n all i. table_ok E n all \<and> i \<le> length all \<and> r = reader_at E n all i \<and> es = drop i all)"

lemma reads_next:
  assumes "reads E r es"
  shows "\<exists>r'. reads E r' (tl es) \<and>
    sequential_next E r = Inr (case es of [] \<Rightarrow> None | e # _ \<Rightarrow> Some e, r')"
proof -
  obtain n all i where a: "table_ok E n all" "i \<le> length all" "r = reader_at E n all i" "es = drop i all"
    using assms by (auto simp: reads_def)
  show ?thesis
  proof (cases "i < length all")
    case True
    with a have es: "es = all ! i # drop (Suc i) all" by (simp add: Cons_nth_drop_Suc)
    have "reads E (reader_at E n all (Suc i)) (drop (Suc i) all)"
      using a(1) True unfolding reads_def by (metis Suc_leI)
    with sequential_next_at [OF a(1,2)] True show ?thesis unfolding es a(3) by auto
  next
    case False
    with a show ?thesis
      by (auto simp: sequential_next_at reads_def intro!: exI [of _ r])
  qed
qed

lemma finite_sources [simp]: "finite {s. s < length (P :: pending) \<and> P ! s \<noteq> []}"
  by simp

lemma heads_update:
  assumes "s < length P"
  shows "heads cl (P[s := Q]) =
    heads cl (P[s := []]) + (if Q = [] then {#} else {#item_of cl (P[s := Q]) s#})"
proof -
  let ?A = "{t. t < length P \<and> t \<noteq> s \<and> P ! t \<noteq> []}"
  have "{t. t < length (P[s := []]) \<and> P[s := []] ! t \<noteq> []} = ?A"
    using assms by (auto simp: nth_list_update)
  moreover have "{t. t < length (P[s := Q]) \<and> P[s := Q] ! t \<noteq> []} = (if Q = [] then ?A else insert s ?A)"
    using assms by (auto simp: nth_list_update)
  moreover have "image_mset (item_of cl (P[s := Q])) (mset_set ?A) = image_mset (item_of cl (P[s := []])) (mset_set ?A)"
    by (rule image_mset_cong) (auto simp: item_of_def)
  ultimately show ?thesis by (auto simp: heads_def)
qed

lemma heads_eq:
  assumes "s < length P" and "P ! s \<noteq> []"
  shows "heads cl P = add_mset (item_of cl P s) (heads cl (P[s := []]))"
  using heads_update [OF assms(1), of cl "P ! s"] assms by simp

text \<open>Popping the item of \<open>s\<close> and advancing \<open>s\<close> drops the first pending entry of \<open>s\<close>.\<close>

definition merge_rep ::
  "'x ext_scheme \<Rightarrow> nat \<Rightarrow> pending \<Rightarrow> merge_item list \<Rightarrow> sequential_reader list \<Rightarrow> bool" where
  "merge_rep E cl P heap readers \<longleftrightarrow>
     length readers = length P \<and> mset heap = heads cl P \<and>
     (\<forall>s < length P. reads E (readers ! s) (tl (P ! s)))"

lemma merge_repD:
  assumes "merge_rep E cl P heap readers"
  shows "length readers = length P" "\<forall>s < length P. reads E (readers ! s) (tl (P ! s))"
  using assms by (simp_all add: merge_rep_def)

lemma advance_rep:
  assumes rd: "length readers = length P" "\<forall>s < length P. reads E (readers ! s) (tl (P ! s))"
    and s: "s < length P" and h: "mset heap = heads cl (P[s := []])"
  shows "\<exists>heap' readers'. advance E cl s heap readers = Inr (heap', readers') \<and>
    merge_rep E cl (P[s := tl (P ! s)]) heap' readers'"
proof -
  obtain r' where r': "reads E r' (tl (tl (P ! s)))"
    and n: "sequential_next E (readers ! s) = Inr (case tl (P ! s) of [] \<Rightarrow> None | e # _ \<Rightarrow> Some e, r')"
    using reads_next rd(2) s by blast
  have reads': "\<forall>t < length P. reads E (readers[s := r'] ! t) (tl (P[s := tl (P ! s)] ! t))"
    using rd r' s by (auto simp: nth_list_update)
  show ?thesis
  proof (cases "tl (P ! s)")
    case Nil
    then have "merge_rep E cl (P[s := tl (P ! s)]) heap (readers[s := r'])"
      using h rd(1) reads' by (simp add: merge_rep_def)
    with n Nil s rd(1) show ?thesis by (simp add: advance_def)
  next
    case (Cons p ps)
    obtain k e where p: "p = (k, e)" by (cases p)
    let ?i = "\<lparr>mi_key = k, mi_entry = e, mi_source = s, mi_priority = priority_of cl s\<rparr>"
    have "mset (heap_push ?i heap) = heads cl (P[s := tl (P ! s)])"
      using heads_update [OF s, of cl "tl (P ! s)"] s h
      by (simp add: heap.items_push Cons p item_of_def)
    then have "merge_rep E cl (P[s := tl (P ! s)]) (heap_push ?i heap) (readers[s := r'])"
      using rd(1) reads' by (simp add: merge_rep_def)
    with n Cons p s rd(1) show ?thesis by (simp add: advance_def)
  qed
qed

text \<open>What is popped is the head of a source with the least key and, for this key, the highest priority.\<close>

lemma pop_rep:
  assumes rep: "merge_rep E cl P heap readers" and pop: "heap_pop heap = Some (x, heap')"
  obtains s where "s < length P" and "P ! s \<noteq> []" and "x = item_of cl P s"
    and "mset heap' = heads cl (P[s := []])"
    and "\<And>t. t < length P \<Longrightarrow> P ! t \<noteq> [] \<Longrightarrow> fst (hd (P ! s)) \<le> fst (hd (P ! t))"
    and "\<And>t. t < length P \<Longrightarrow> P ! t \<noteq> [] \<Longrightarrow> fst (hd (P ! t)) = fst (hd (P ! s)) \<Longrightarrow>
           priority_of cl t \<le> priority_of cl s"
proof -
  from heap.pop_Some [OF pop] rep
  have items: "heads cl P = add_mset x (mset heap')" and max: "\<forall>y \<in># heads cl P. \<not> item_less x y"
    by (simp_all add: merge_rep_def del: set_mset_mset)
  then have "x \<in># heads cl P" by simp
  then obtain s where s: "s < length P" "P ! s \<noteq> []" "x = item_of cl P s"
    by (auto simp: heads_def)
  have other: "\<not> item_less x (item_of cl P t)" if "t < length P" "P ! t \<noteq> []" for t
    using max that by (auto simp: heads_def)
  show thesis
  proof (rule that [OF s])
    show "mset heap' = heads cl (P[s := []])"
      using items heads_eq [OF s(1,2), of cl] s(3) by simp
  qed (use other s in \<open>auto simp: item_less_def item_of_def not_less\<close>)
qed

section \<open>The inner loop\<close>

text \<open>Pending entries without a first entry for \<open>key\<close>.\<close>

definition strip :: "rstring \<Rightarrow> (rstring \<times> entry) list \<Rightarrow> (rstring \<times> entry) list" where
  "strip key es = (if es \<noteq> [] \<and> fst (hd es) = key then tl es else es)"

definition pending_sorted :: "pending \<Rightarrow> bool" where
  "pending_sorted P \<longleftrightarrow> (\<forall>es \<in> set P. keys_sorted es)"

lemma keys_sorted_tl: "keys_sorted es \<Longrightarrow> keys_sorted (tl es)"
  by (cases es) (auto simp: keys_sorted_def)

lemma pending_sorted_tl:
  assumes "pending_sorted P"
  shows "pending_sorted (P[s := tl (P ! s)])"
proof (cases "s < length P")
  case True
  then have "keys_sorted (tl (P ! s))" using assms by (simp add: pending_sorted_def keys_sorted_tl)
  with assms show ?thesis by (auto simp: pending_sorted_def dest!: subsetD [OF set_update_subset_insert])
qed (use assms in \<open>simp add: list_update_beyond\<close>)

lemma tl_keys_greater:
  "keys_sorted es \<Longrightarrow> es \<noteq> [] \<Longrightarrow> tl es \<noteq> [] \<Longrightarrow> fst (hd es) < fst (hd (tl es))"
  by (cases es; cases "tl es") (auto simp: keys_sorted_def)

lemma strip_tl:
  "keys_sorted es \<Longrightarrow> es \<noteq> [] \<Longrightarrow> fst (hd es) = key \<Longrightarrow> strip key (tl es) = strip key es"
  using tl_keys_greater [of es] by (auto simp: strip_def)

lemma map_strip_tl:
  assumes "pending_sorted P" and "s < length P" and "P ! s \<noteq> []" and "fst (hd (P ! s)) = key"
  shows "map (strip key) (P[s := tl (P ! s)]) = map (strip key) P"
proof -
  have "keys_sorted (P ! s)" using assms by (simp add: pending_sorted_def)
  from strip_tl [OF this assms(3,4)] assms(2) show ?thesis
    by (simp add: map_update list_update_same_conv)
qed

definition keys_from :: "rstring \<Rightarrow> pending \<Rightarrow> bool" where
  "keys_from key P \<longleftrightarrow> (\<forall>es \<in> set P. es \<noteq> [] \<longrightarrow> key \<le> fst (hd es))"

lemma keys_from_tl:
  assumes "pending_sorted P" and "keys_from key P" and "s < length P" and "P ! s \<noteq> []"
  shows "keys_from key (P[s := tl (P ! s)])"
proof -
  have "keys_sorted (P ! s)" "key \<le> fst (hd (P ! s))"
    using assms by (auto simp: pending_sorted_def keys_from_def)
  then have "tl (P ! s) \<noteq> [] \<Longrightarrow> key \<le> fst (hd (tl (P ! s)))"
    using tl_keys_greater [of "P ! s"] assms(4) by auto
  with assms(2) show ?thesis
    by (auto simp: keys_from_def dest!: subsetD [OF set_update_subset_insert])
qed

lemma skip_duplicates_rep:
  assumes "merge_rep E cl P heap readers" and "pending_sorted P" and "keys_from key P"
  shows "\<exists>heap' readers'. skip_duplicates E cl key heap readers = Inr (heap', readers') \<and>
    merge_rep E cl (map (strip key) P) heap' readers'"
  using assms
proof (induction E cl key heap readers arbitrary: P rule: skip_duplicates.induct)
  case (1 E cl key heap readers)
  note step = skip_duplicates.simps [of E cl key heap readers]
  have same: "map (strip key) P = P" if "\<forall>es \<in> set P. es \<noteq> [] \<longrightarrow> fst (hd es) \<noteq> key"
    using that by (auto simp: strip_def intro!: map_idI)
  show ?case
  proof (cases "heap_pop heap")
    case None
    with heap.pop_None [of heap] "1.prems"(1) have "\<forall>es \<in> set P. es = []"
      by (auto simp: merge_rep_def heads_def mset_set_empty_iff in_set_conv_nth)
    with None "1.prems"(1) same show ?thesis by (simp add: step)
  next
    case (Some y)
    obtain x heap' where pop: "heap_pop heap = Some (x, heap')" using Some by (cases y) simp
    from pop_rep [OF "1.prems"(1) pop] obtain s where
      s: "s < length P" "P ! s \<noteq> []" and x: "x = item_of cl P s"
      and h': "mset heap' = heads cl (P[s := []])"
      and least: "\<And>t. t < length P \<Longrightarrow> P ! t \<noteq> [] \<Longrightarrow> fst (hd (P ! s)) \<le> fst (hd (P ! t))"
      by metis
    show ?thesis
    proof (cases "mi_key x = key")
      case True
      then have key: "fst (hd (P ! s)) = key" by (simp add: x item_of_def)
      obtain heap2 readers2 where adv: "advance E cl s heap' readers = Inr (heap2, readers2)"
        and rep2: "merge_rep E cl (P[s := tl (P ! s)]) heap2 readers2"
        using advance_rep [OF merge_repD [OF "1.prems"(1)] s(1) h'] by blast
      have src: "mi_source x = s" by (simp add: x item_of_def)
      from "1.IH" [OF pop refl _ adv [folded src] refl rep2 pending_sorted_tl [OF "1.prems"(2)]
          keys_from_tl [OF "1.prems"(2,3) s]] True
        map_strip_tl [OF "1.prems"(2) s key]
      show ?thesis using pop True adv src by (simp add: step)
    next
      case False
      have "fst (hd (P ! t)) \<noteq> key" if "t < length P" "P ! t \<noteq> []" for t
      proof -
        have "key \<le> fst (hd (P ! s))" using "1.prems"(3) s by (simp add: keys_from_def)
        moreover have "fst (hd (P ! s)) \<noteq> key" using False by (simp add: x item_of_def)
        ultimately show ?thesis using least [OF that] by auto
      qed
      then have "map (strip key) P = P" by (intro same) (metis in_set_conv_nth)
      with pop False "1.prems"(1) show ?thesis by (simp add: step)
    qed
  qed
qed

section \<open>Priorities\<close>

text \<open>The sources from highest to lowest priority: the current level backwards, then the next level.\<close>

definition by_priority :: "nat \<Rightarrow> 'a list \<Rightarrow> 'a list" where
  "by_priority cl P = rev (take cl P) @ rev (drop cl P)"

lemma set_by_priority [simp]: "set (by_priority cl P) = set P"
  unfolding by_priority_def by (metis append_take_drop_id set_append set_rev)

lemma map_of_concat_None: "map_of (concat L) k = None \<longleftrightarrow> (\<forall>l \<in> set L. map_of l k = None)"
  by (induction L) (auto simp: map_add_None)

lemma map_of_concat_first:
  "\<forall>l \<in> set A. map_of l k = None \<Longrightarrow> map_of l k = Some e \<Longrightarrow> map_of (concat (A @ l # B)) k = Some e"
  by (simp add: map_add_def map_of_concat_None [THEN iffD2])

lemma map_of_by_priority:
  assumes len: "length P \<le> 2 * cl" and s: "s < length P" and e: "map_of (P ! s) k = Some e"
    and best: "\<And>t. t < length P \<Longrightarrow> map_of (P ! t) k \<noteq> None \<Longrightarrow> priority_of cl t \<le> priority_of cl s"
  shows "map_of (concat (by_priority cl P)) k = Some e"
proof -
  have none: "map_of l k = None" if "l = P ! t" "t < length P" "priority_of cl s < priority_of cl t" for t l
    using best [of t] that by (cases "map_of l k") auto
  show ?thesis
  proof (cases "s < cl")
    case True
    let ?C = "take cl P"
    have sC: "s < length ?C" using True s by simp
    have "by_priority cl P = rev (drop (Suc s) ?C) @ P ! s # (rev (take s ?C) @ rev (drop cl P))"
      by (subst (1) by_priority_def, subst id_take_nth_drop [OF sC]) (simp add: True)
    moreover have "\<forall>l \<in> set (rev (drop (Suc s) ?C)). map_of l k = None"
    proof
      fix l assume "l \<in> set (rev (drop (Suc s) ?C))"
      then obtain j where "l = P ! (Suc s + j)" "Suc s + j < length P" "Suc s + j < cl"
        by (auto simp: in_set_conv_nth)
      with none True show "map_of l k = None" by (auto simp: priority_of_def)
    qed
    ultimately show ?thesis using map_of_concat_first [OF _ e] by metis
  next
    case False
    have "by_priority cl P = (rev (take cl P) @ rev (drop (Suc s) P)) @ P ! s # rev (drop cl (take s P))"
    proof -
      have "drop cl P = drop cl (take s P) @ P ! s # drop (Suc s) P"
        using False s by (subst id_take_nth_drop [OF s]) simp
      then show ?thesis by (simp add: by_priority_def)
    qed
    moreover have "\<forall>l \<in> set (rev (take cl P) @ rev (drop (Suc s) P)). map_of l k = None"
    proof
      fix l assume "l \<in> set (rev (take cl P) @ rev (drop (Suc s) P))"
      then consider t where "l = P ! t" "t < cl" "t < length P"
        | j where "l = P ! (Suc s + j)" "Suc s + j < length P"
        by (auto simp: in_set_conv_nth)
      then show "map_of l k = None"
      proof cases
        case 1
        with none False s len show ?thesis by (auto simp: priority_of_def)
      next
        case 2
        with none False show ?thesis by (auto simp: priority_of_def)
      qed
    qed
    ultimately show ?thesis using map_of_concat_first [OF _ e] by metis
  qed
qed

lemma map_of_concat_cong:
  assumes "length P = length Q" and "\<And>i. i < length P \<Longrightarrow> map_of (P ! i) k = map_of (Q ! i) k"
  shows "map_of (concat P) k = map_of (concat Q) k"
  using assms
proof (induction P Q rule: list_induct2)
  case (Cons p P q Q)
  from Cons.prems [of 0] have "map_of p k = map_of q k" by simp
  moreover have "map_of (concat P) k = map_of (concat Q) k"
    using Cons.IH Cons.prems [of "Suc _"] by fastforce
  ultimately show ?case by (cases "map_of q k") (auto simp: map_add_def split: option.splits)
qed simp

lemma by_priority_map: "by_priority cl (map f P) = map f (by_priority cl P)"
  by (simp add: by_priority_def take_map drop_map rev_map)

lemma map_of_strip:
  "keys_sorted es \<Longrightarrow> k \<noteq> key \<Longrightarrow> map_of (strip key es) k = map_of es k"
  by (cases es) (auto simp: strip_def)

section \<open>The outer loop\<close>

lemma weight_concat: "weight E (concat P) = sum_list (map (weight E) P)"
  by (induction P) auto

lemma weight_strip_le: "weight E (strip k es) \<le> weight E es"
  by (cases es) (auto simp: strip_def)

lemma weight_strip_hd:
  "es \<noteq> [] \<Longrightarrow> fst (hd es) = k \<Longrightarrow> entry_weight E (hd es) + weight E (strip k es) = weight E es"
  by (cases es) (auto simp: strip_def)

lemma weight_map_strip:
  assumes "s < length P" and "P ! s \<noteq> []" and "fst (hd (P ! s)) = k"
  shows "entry_weight E (hd (P ! s)) + weight E (concat (map (strip k) P)) \<le> weight E (concat P)"
  using assms
proof (induction P arbitrary: s)
  case (Cons es P)
  have le: "weight E (concat (map (strip k) P)) \<le> weight E (concat P)"
    unfolding weight_concat map_map comp_def by (intro sum_list_mono weight_strip_le)
  show ?case
  proof (cases s)
    case 0
    with Cons.prems le weight_strip_hd [of es k E] show ?thesis by simp
  next
    case (Suc t)
    with Cons.IH [of t] Cons.prems weight_strip_le [of E k es] show ?thesis by simp
  qed
qed simp

lemma strip_greater:
  assumes "keys_sorted es" and "es \<noteq> [] \<Longrightarrow> k \<le> fst (hd es)" and "p \<in> set (strip k es)"
  shows "k < fst p"
  using assms by (cases es) (auto simp: strip_def keys_sorted_def split: if_splits)

lemma set_strip: "set (strip k es) \<subseteq> set es"
  by (cases es) (auto simp: strip_def)

lemma keys_sorted_strip: "keys_sorted es \<Longrightarrow> keys_sorted (strip k es)"
  by (simp add: strip_def keys_sorted_tl)

text \<open>What the merge of the pending entries \<open>P\<close> may assume of \<open>P\<close> and of the entries already written.\<close>

definition merge_pre :: "'x ext_scheme \<Rightarrow> nat \<Rightarrow> pending \<Rightarrow> (rstring \<times> entry) list \<Rightarrow> bool" where
  "merge_pre E cl P out \<longleftrightarrow>
     pending_sorted P \<and> length P \<le> 2 * cl \<and> list_all (pair_ok E) (concat P) \<and>
     list_all (pair_ok E) out \<and> keys_sorted out \<and> weight E out + weight E (concat P) < 2 ^ 60 \<and>
     (\<forall>p \<in> set (concat P). \<forall>q \<in> set out. fst q < fst p)"

definition merge_post ::
  "'x ext_scheme \<Rightarrow> nat \<Rightarrow> pending \<Rightarrow> (rstring \<times> entry) list \<Rightarrow> (rstring \<times> entry) list \<Rightarrow> bool" where
  "merge_post E cl P out m \<longleftrightarrow>
     keys_sorted (out @ m) \<and> set m \<subseteq> set (concat P) \<and> weight E m \<le> weight E (concat P) \<and>
     (\<forall>k. map_of m k = map_of (concat (by_priority cl P)) k)"

lemma merge_pre_step:
  assumes pre: "merge_pre E cl P out" and s: "s < length P" "P ! s \<noteq> []"
    and least: "\<And>t. t < length P \<Longrightarrow> P ! t \<noteq> [] \<Longrightarrow> fst (hd (P ! s)) \<le> fst (hd (P ! t))"
  defines "k \<equiv> fst (hd (P ! s))"
  shows "merge_pre E cl (map (strip k) P) (out @ [hd (P ! s)])"
    and "entries_ok E (out @ [hd (P ! s)])" and "keys_sorted (out @ [hd (P ! s)])"
    and "keys_from k P"
proof -
  have mem: "hd (P ! s) \<in> set (concat P)" using s by (force intro!: bexI [of _ "P ! s"])
  show from_k: "keys_from k P"
    using least by (auto simp: keys_from_def k_def in_set_conv_nth)
  have w: "entry_weight E (hd (P ! s)) + weight E (concat (map (strip k) P)) \<le> weight E (concat P)"
    using weight_map_strip [OF s, of k] by (simp add: k_def)
  have sub: "set (concat (map (strip k) P)) \<subseteq> set (concat P)"
    using set_strip by fastforce
  show sorted: "keys_sorted (out @ [hd (P ! s)])"
    using pre mem by (auto simp: merge_pre_def keys_sorted_def sorted_wrt_append)
  show "entries_ok E (out @ [hd (P ! s)])"
    using pre mem w by (auto simp: merge_pre_def entries_ok_def list_all_iff)
  have "k < fst p" if "p \<in> set (concat (map (strip k) P))" for p
    using that pre from_k strip_greater [of _ k p]
    by (auto simp: merge_pre_def pending_sorted_def keys_from_def)
  then have "\<forall>p \<in> set (concat (map (strip k) P)). \<forall>q \<in> set (out @ [hd (P ! s)]). fst q < fst p"
    using pre subsetD [OF sub] by (simp add: merge_pre_def k_def del: set_concat)
  moreover have head_ok: "pair_ok E (hd (P ! s))"
    using pre mem by (simp add: merge_pre_def list_all_iff del: set_concat)
  moreover have "list_all (pair_ok E) (concat (map (strip k) P))"
    using pre subsetD [OF sub] by (simp add: merge_pre_def list_all_iff del: set_concat)
  ultimately show "merge_pre E cl (map (strip k) P) (out @ [hd (P ! s)])"
    using pre head_ok w sorted
    by (simp add: merge_pre_def pending_sorted_def list_all_iff keys_sorted_strip del: set_concat)
qed

lemma merge_post_step:
  assumes pre: "merge_pre E cl P out" and s: "s < length P" "P ! s \<noteq> []"
    and least: "\<And>t. t < length P \<Longrightarrow> P ! t \<noteq> [] \<Longrightarrow> fst (hd (P ! s)) \<le> fst (hd (P ! t))"
    and best: "\<And>t. t < length P \<Longrightarrow> P ! t \<noteq> [] \<Longrightarrow> fst (hd (P ! t)) = fst (hd (P ! s)) \<Longrightarrow>
           priority_of cl t \<le> priority_of cl s"
    and post: "merge_post E cl (map (strip (fst (hd (P ! s)))) P) (out @ [hd (P ! s)]) m"
  shows "merge_post E cl P out (hd (P ! s) # m)"
proof -
  define k where "k = fst (hd (P ! s))"
  let ?Q = "map (strip k) P"
  have sortedP: "\<And>t. t < length P \<Longrightarrow> keys_sorted (P ! t)" and len: "length P \<le> 2 * cl"
    using pre by (auto simp: merge_pre_def pending_sorted_def)
  have from_k: "keys_from k P" using least by (auto simp: keys_from_def k_def in_set_conv_nth)
  have head: "P ! t \<noteq> [] \<and> fst (hd (P ! t)) = k" if "t < length P" "map_of (P ! t) k \<noteq> None" for t
  proof -
    have ne: "P ! t \<noteq> []" using that by auto
    then have le: "k \<le> fst (hd (P ! t))" using from_k that by (simp add: keys_from_def)
    from that(2) obtain v where "map_of (P ! t) k = Some v" by blast
    then have "(k, v) \<in> set (P ! t)" by (rule map_of_SomeD)
    with sortedP [OF that(1)] ne have "fst (hd (P ! t)) \<le> k"
      by (cases "P ! t") (auto simp: keys_sorted_def)
    with le ne show ?thesis by simp
  qed
  have at_k: "map_of (concat (by_priority cl P)) k = Some (snd (hd (P ! s)))"
  proof (rule map_of_by_priority [OF len s(1)])
    show "map_of (P ! s) k = Some (snd (hd (P ! s)))"
      using s(2) by (cases "P ! s") (auto simp: k_def)
    show "priority_of cl t \<le> priority_of cl s" if "t < length P" "map_of (P ! t) k \<noteq> None" for t
      using head [OF that] best [of t] that by (simp add: k_def)
  qed
  have other: "map_of (concat (by_priority cl ?Q)) j = map_of (concat (by_priority cl P)) j" if "j \<noteq> k" for j
  proof (rule map_of_concat_cong)
    fix i assume "i < length (by_priority cl ?Q)"
    then have "i < length (by_priority cl P)" by (simp add: by_priority_map)
    moreover from this have "keys_sorted (by_priority cl P ! i)"
      using pre nth_mem [of i "by_priority cl P"] by (auto simp: merge_pre_def pending_sorted_def)
    ultimately show "map_of (by_priority cl ?Q ! i) j = map_of (by_priority cl P ! i) j"
      using that by (simp add: by_priority_map map_of_strip)
  qed (simp add: by_priority_map)
  have "weight E (hd (P ! s) # m) \<le> weight E (concat P)"
    using post weight_map_strip [OF s, of k E] by (simp add: merge_post_def k_def)
  moreover have "set (hd (P ! s) # m) \<subseteq> set (concat P)"
  proof -
    have "hd (P ! s) \<in> set (concat P)" using s by (force intro!: bexI [of _ "P ! s"])
    moreover have "set m \<subseteq> set (concat P)"
      using post set_strip by (fastforce simp: merge_post_def)
    ultimately show ?thesis by simp
  qed
  moreover have "map_of (hd (P ! s) # m) j = map_of (concat (by_priority cl P)) j" for j
    using post at_k other [of j] by (cases "j = k"; cases "hd (P ! s)") (auto simp: merge_post_def k_def)
  ultimately show ?thesis using post by (simp add: merge_post_def)
qed

lemma merge_loop_rep:
  assumes "merge_rep E cl P heap readers" and "merge_pre E cl P out"
  shows "\<exists>m. merge_loop E cl heap readers (writer_at E n out) = (writer_at E n (out @ m), Inr ()) \<and>
    merge_post E cl P out m"
  using assms
proof (induction E cl heap readers "writer_at E n out" arbitrary: P out rule: merge_loop.induct)
  case (1 E cl heap readers)
  note step = merge_loop.simps [of E cl heap readers]
  show ?case
  proof (cases "heap_pop heap")
    case None
    with heap.pop_None [of heap] "1.prems"(1) have "\<forall>es \<in> set P. es = []"
      by (auto simp: merge_rep_def heads_def mset_set_empty_iff in_set_conv_nth)
    then have "concat P = []" "concat (by_priority cl P) = []" by (simp_all add: concat_eq_Nil_conv)
    with None "1.prems"(2) show ?thesis
      by (intro exI [of _ "[]"]) (simp add: step merge_post_def merge_pre_def del: concat_eq_Nil_conv)
  next
    case (Some y)
    obtain x heap1 where pop: "heap_pop heap = Some (x, heap1)" using Some by (cases y) simp
    from pop_rep [OF "1.prems"(1) pop] obtain s where
      s: "s < length P" "P ! s \<noteq> []" and x: "x = item_of cl P s"
      and h1: "mset heap1 = heads cl (P[s := []])"
      and least: "\<And>t. t < length P \<Longrightarrow> P ! t \<noteq> [] \<Longrightarrow> fst (hd (P ! s)) \<le> fst (hd (P ! t))"
      and best: "\<And>t. t < length P \<Longrightarrow> P ! t \<noteq> [] \<Longrightarrow> fst (hd (P ! t)) = fst (hd (P ! s)) \<Longrightarrow>
           priority_of cl t \<le> priority_of cl s"
      by metis
    let ?k = "fst (hd (P ! s))" and ?p = "hd (P ! s)"
    note pre = merge_pre_step [OF "1.prems"(2) s least]
    have sorted: "pending_sorted P" using "1.prems"(2) by (simp add: merge_pre_def)
    have key: "mi_key x = ?k" "mi_source x = s" "(mi_key x, mi_entry x) = ?p"
      by (simp_all add: x item_of_def)
    have written: "write_entry E (mi_key x) (mi_entry x) (writer_at E n out) = (writer_at E n (out @ [?p]), Inr ())"
      using write_entry_at [of E out "mi_key x" "mi_entry x" n] pre(2,3) by (simp add: key(3))
    obtain heap2 readers2 where adv: "advance E cl s heap1 readers = Inr (heap2, readers2)"
      and rep2: "merge_rep E cl (P[s := tl (P ! s)]) heap2 readers2"
      using advance_rep [OF merge_repD [OF "1.prems"(1)] s(1) h1] by blast
    from skip_duplicates_rep [OF rep2 pending_sorted_tl [OF sorted] keys_from_tl [OF sorted pre(4) s]]
    obtain heap3 readers3 where skip: "skip_duplicates E cl ?k heap2 readers2 = Inr (heap3, readers3)"
      and rep3: "merge_rep E cl (map (strip ?k) P) heap3 readers3"
      by (auto simp: map_strip_tl [OF sorted s refl])
    have body: "and_then (advance E cl (mi_source x) heap1 readers)
        (\<lambda>(heap, readers). skip_duplicates E cl (mi_key x) heap readers) = Inr (heap3, readers3)"
      by (simp add: key(1,2) adv skip)
    from "1.hyps" [OF pop refl written [symmetric] refl body refl rep3 pre(1)] obtain m where
      rec: "merge_loop E cl heap3 readers3 (writer_at E n (out @ [?p])) = (writer_at E n ((out @ [?p]) @ m), Inr ())"
      and post: "merge_post E cl (map (strip ?k) P) (out @ [?p]) m"
      by blast
    have "merge_loop E cl heap readers (writer_at E n out) = (writer_at E n (out @ ?p # m), Inr ())"
      using rec by (simp add: step pop written body)
    with merge_post_step [OF "1.prems"(2) s least best post] show ?thesis by blast
  qed
qed

section \<open>Filling the heap\<close>

text \<open>After the sources below \<open>i\<close> have been read once: the others have nothing in the heap.\<close>

lemma fill_heap_rep:
  assumes "length readers = length P" and "i \<le> length P"
    and "mset heap = heads cl (take i P @ replicate (length P - i) [])"
    and "\<forall>s < i. reads E (readers ! s) (tl (P ! s))"
    and "\<forall>s < length P. i \<le> s \<longrightarrow> reads E (readers ! s) (P ! s)"
  shows "\<exists>heap' readers'. fill_heap E cl [i..<length P] heap readers = Inr (heap', readers') \<and>
    merge_rep E cl P heap' readers'"
  using assms
proof (induction "length P - i" arbitrary: i heap readers)
  case 0
  then show ?case by (simp add: merge_rep_def)
next
  case (Suc m)
  then have i: "i < length P" by simp
  obtain r' where r': "reads E r' (tl (P ! i))"
    and n: "sequential_next E (readers ! i) = Inr (case P ! i of [] \<Rightarrow> None | e # _ \<Rightarrow> Some e, r')"
    using reads_next Suc.prems(5) i by blast
  have split: "take (Suc i) P @ replicate (length P - Suc i) [] =
      (take i P @ replicate (length P - i) [])[i := P ! i]"
  proof -
    have "replicate (length P - i) [] = [] # replicate (length P - Suc i) ([] :: (rstring \<times> entry) list)"
      using i by (simp add: Suc_diff_Suc flip: replicate_Suc)
    then show ?thesis using i by (simp add: take_Suc_conv_app_nth list_update_append)
  qed
  have empty: "(take i P @ replicate (length P - i) [])[i := []] = take i P @ replicate (length P - i) []"
    using i by (intro list_update_same_conv [THEN iffD2]) (simp_all add: nth_append)
  let ?push = "\<lambda>h. case P ! i of [] \<Rightarrow> h | (k, e) # _ \<Rightarrow>
      heap_push \<lparr>mi_key = k, mi_entry = e, mi_source = i, mi_priority = priority_of cl i\<rparr> h"
  have adv: "advance E cl i heap readers = Inr (?push heap, readers[i := r'])"
    using i Suc.prems(1) n by (auto simp: advance_def split: list.splits)
  have "mset (?push heap) = heads cl (take (Suc i) P @ replicate (length P - Suc i) [])"
    using heads_update [of i "take i P @ replicate (length P - i) []" cl "P ! i"] i Suc.prems(3)
    by (auto simp: split empty heap.items_push item_of_def nth_append split: list.splits)
  moreover have "\<forall>s < Suc i. reads E (readers[i := r'] ! s) (tl (P ! s))"
    using Suc.prems(1,4) r' i by (auto simp: nth_list_update less_Suc_eq)
  moreover have "\<forall>s < length P. Suc i \<le> s \<longrightarrow> reads E (readers[i := r'] ! s) (P ! s)"
    using Suc.prems(5) by (auto simp: nth_list_update)
  ultimately show ?case
    using Suc.hyps(1) [of "Suc i" "readers[i := r']" "?push heap"] Suc.hyps(2) Suc.prems(1) i adv
    by (simp add: upt_conv_Cons)
qed

lemma fill_heap_start:
  assumes "list_all2 (reads E) readers P"
  shows "\<exists>heap' readers'. fill_heap E cl [0..<length readers] [] readers = Inr (heap', readers') \<and>
    merge_rep E cl P heap' readers'"
proof -
  have "{s. s < length P \<and> replicate (length P) [] ! s \<noteq> ([] :: (rstring \<times> entry) list)} = {}" by auto
  then have "heads cl (replicate (length P) []) = {#}" by (simp only: heads_def length_replicate) simp
  with fill_heap_rep [of readers P 0 "[]" cl E] assms show ?thesis
    by (simp add: list_all2_conv_all_nth)
qed

section \<open>Properties\<close>

lemma reads_start: "table_ok E n es \<Longrightarrow> reads E (reader_at E n es 0) es"
  unfolding reads_def by (metis drop_0 le0)

text \<open>The whole merge: fill the heap, run the loop into a new streaming writer.\<close>

lemma merge_ok:
  assumes "list_all2 (reads E) readers P" and "merge_pre E cl P []"
  obtains heap readers' m where "fill_heap E cl [0..<length readers] [] readers = Inr (heap, readers')"
    and "merge_loop E cl heap readers' (streaming_create E) = (writer_at E STREAMING_EXPECTED_ITEMS m, Inr ())"
    and "merge_post E cl P [] m"
proof -
  obtain heap readers' where fill: "fill_heap E cl [0..<length readers] [] readers = Inr (heap, readers')"
    and rep: "merge_rep E cl P heap readers'"
    using fill_heap_start [OF assms(1)] by blast
  from merge_loop_rep [OF rep assms(2)] fill that show thesis
    by (auto simp: streaming_create_def writer_start_at)
qed

text \<open>
  C22. The k-way merge is correct. Given readers at the start of strictly sorted tables, at least
  half of them of the current level, the merge finishes without an error, has written strictly
  sorted entries, all of them from the inputs, and has for every key the entry of the newest input
  table with this key: the current level from its last table to its first, then the next level.
\<close>

theorem kway_merge_correct:
  assumes tables: "list_all2 (\<lambda>r es. \<exists>n. table_ok E n es \<and> r = reader_at E n es 0) readers P"
    and small: "weight E (concat P) < 2 ^ 60" and len: "length P \<le> 2 * cl"
  shows "\<exists>heap readers' m.
     fill_heap E cl [0..<length readers] [] readers = Inr (heap, readers') \<and>
     merge_loop E cl heap readers' (streaming_create E) = (writer_at E STREAMING_EXPECTED_ITEMS m, Inr ()) \<and>
     keys_sorted m \<and> set m \<subseteq> set (concat P) \<and>
     (\<forall>k. map_of m k = map_of (concat (rev (take cl P) @ rev (drop cl P))) k)"
proof -
  have "list_all2 (reads E) readers P"
    using tables by (rule list_all2_mono) (metis reads_start)
  moreover have "\<forall>es \<in> set P. keys_sorted es \<and> list_all (pair_ok E) es"
  proof
    fix es assume "es \<in> set P"
    then obtain i where "i < length P" "es = P ! i" by (auto simp: in_set_conv_nth)
    with tables obtain n where "table_ok E n es" by (auto simp: list_all2_conv_all_nth)
    then show "keys_sorted es \<and> list_all (pair_ok E) es" using table_okD by blast
  qed
  then have "merge_pre E cl P []"
    using small len by (simp add: merge_pre_def pending_sorted_def list_all_iff) (simp add: keys_sorted_def)
  ultimately obtain heap readers' m where
    "fill_heap E cl [0..<length readers] [] readers = Inr (heap, readers')"
    "merge_loop E cl heap readers' (streaming_create E) = (writer_at E STREAMING_EXPECTED_ITEMS m, Inr ())"
    and post: "merge_post E cl P [] m"
    by (rule merge_ok)
  with post [unfolded merge_post_def by_priority_def append_Nil] show ?thesis by blast
qed

definition sample_readers :: "sequential_reader list" where
  "sample_readers =
     [reader_at sample_ext 2 sample_entries 0, reader_at sample_ext 1 [([97], EntrySet (VInt 7))] 0]"

theorem kway_merge_correct_witness:
  "\<exists>heap readers' m.
     fill_heap sample_ext 1 [0..<length sample_readers] [] sample_readers = Inr (heap, readers') \<and>
     merge_loop sample_ext 1 heap readers' (streaming_create sample_ext)
       = (writer_at sample_ext STREAMING_EXPECTED_ITEMS m, Inr ()) \<and>
     map_of m [97] = Some (EntrySet (VInt 1)) \<and> map_of m [98] = Some EntryDelete"
proof -
  have old: "table_ok sample_ext 1 [([97], EntrySet (VInt 7))]"
    by (simp add: table_ok_def entries_ok_def pair_ok_def key_ok_def val_fits_def
        keys_sorted_def entry_weight_def i64_to_string_def nat_dec.simps)
  have new: "table_ok sample_ext 2 sample_entries"
    using sample_table_ok by (simp add: sample_entries_def numeral_2_eq_2)
  let ?P = "[sample_entries, [([97], EntrySet (VInt 7))]]"
  have tables: "list_all2 (\<lambda>r es. \<exists>n. table_ok sample_ext n es \<and> r = reader_at sample_ext n es 0) sample_readers ?P"
    using old new by (auto simp: sample_readers_def)
  have small: "weight sample_ext (concat ?P) < 2 ^ 60"
    by (simp add: sample_entries_def entry_weight_def i64_to_string_def nat_dec.simps)
  have "length ?P \<le> 2 * 1" by simp
  from kway_merge_correct [OF tables small this] obtain heap readers' m where
    "fill_heap sample_ext 1 [0..<length sample_readers] [] sample_readers = Inr (heap, readers')"
    "merge_loop sample_ext 1 heap readers' (streaming_create sample_ext)
       = (writer_at sample_ext STREAMING_EXPECTED_ITEMS m, Inr ())"
    and m: "\<forall>k. map_of m k = map_of (concat (rev (take 1 ?P) @ rev (drop 1 ?P))) k"
    by (elim exE conjE) (rule that)
  moreover have "map_of m [97] = Some (EntrySet (VInt 1))" "map_of m [98] = Some EntryDelete"
    using m by (simp_all add: sample_entries_def)
  ultimately show ?thesis by (intro exI conjI)
qed

end
