(* ===== verification/Database.thy ===== *)
theory Database
  imports Wal_Logger Compaction
begin

text \<open>
  The storage engine (\<open>src/src/database\<close>): the memtable, the write-ahead log and the levels
  of tables behind \<open>insert\<close>, \<open>delete\<close> and \<open>get\<close>; flush, compaction and recovery.
  Every operation returns the new state with its result, so a failed operation keeps what it has
  already changed. The locks make the operations of one database atomic here.

  The field \<open>db_dir\<close> holds the files of the directory other than \<open>database.log\<close>; the
  logger holds the content of that one. \<open>disk\<close> puts them together.
\<close>

section \<open>State\<close>

record config =
  cfg_sstable_level :: nat
  cfg_data_threshold :: nat
  cfg_sstable_threshold :: nat

definition config_default :: config where
  "config_default = \<lparr>cfg_sstable_level = 2, cfg_data_threshold = 2, cfg_sstable_threshold = 3\<rparr>"

definition config_from :: "nat \<times> nat \<times> nat \<Rightarrow> config" where
  "config_from = (\<lambda>(l, d, s).
     \<lparr>cfg_sstable_level = l, cfg_data_threshold = d, cfg_sstable_threshold = s\<rparr>)"

record database =
  db_dir :: files
  db_data :: "(rstring \<times> entry) list"
  db_log :: logger
  leveled_sstable :: "sstable list list"
  data_threshold :: nat
  sstable_threshold :: nat
  next_sstable_id :: u32
  total_compactions :: u64

text \<open>File names: \<open>sstable_{id}.sst\<close>, and how a name is parsed back.\<close>

definition sstable_name :: "u32 \<Rightarrow> rstring" where
  "sstable_name n = str ''sstable_'' @ u32_to_string n @ str ''.sst''"

definition strip_prefix :: "rstring \<Rightarrow> rstring \<Rightarrow> rstring option" where
  "strip_prefix p s = (if take (length p) s = p then Some (drop (length p) s) else None)"

definition strip_suffix :: "rstring \<Rightarrow> rstring \<Rightarrow> rstring option" where
  "strip_suffix p s =
     (if length p \<le> length s \<and> drop (length s - length p) s = p
      then Some (take (length s - length p) s) else None)"

definition parse_sstable_name :: "rstring \<Rightarrow> u32 option" where
  "parse_sstable_name name =
     (case strip_prefix (str ''sstable_'') name of
        None \<Rightarrow> None
      | Some name \<Rightarrow>
          (case strip_suffix (str ''.sst'') name of
             None \<Rightarrow> None
           | Some digits \<Rightarrow> u32_parse digits))"

section \<open>Flush\<close>

definition flush_memory_to_disk :: "'x ext_scheme \<Rightarrow> database \<Rightarrow> database \<times> unit io" where
  "flush_memory_to_disk E db =
     (if db_data db = [] then (db, Inr ())
      else
        let i = next_sstable_id db;
            db = db\<lparr>next_sstable_id := i + 1\<rparr>;
            file_name = sstable_name i in
        (case sstable_new E file_name (db_dir db) of
           (dir, Inl e) \<Rightarrow> (db\<lparr>db_dir := dir\<rparr>, Inl e)
         | (dir, Inr sstable) \<Rightarrow>
             (let entries = sort_key fst (db_data db) in
              case write_entries E entries sstable dir of
                (dir, Inl e) \<Rightarrow> (db\<lparr>db_dir := dir\<rparr>, Inl e)
              | (dir, Inr sstable) \<Rightarrow>
                  (let db = db\<lparr>db_dir := dir\<rparr> in
                   case leveled_sstable db of
                     [] \<Rightarrow> (db, Inr ())
                   | level0 # levels \<Rightarrow>
                       (db\<lparr>leveled_sstable := (level0 @ [sstable]) # levels,
                           db_log := logger_truncate (db_log db),
                           db_data := []\<rparr>, Inr ())))))"

definition maybe_flush :: "'x ext_scheme \<Rightarrow> database \<Rightarrow> database \<times> unit io" where
  "maybe_flush E db =
     (if length (db_data db) \<ge> data_threshold db then flush_memory_to_disk E db else (db, Inr ()))"

section \<open>Compaction\<close>

fun open_readers :: "sstable list \<Rightarrow> files \<Rightarrow> sequential_reader list io" where
  "open_readers [] dir = Inr []"
| "open_readers (t # ts) dir =
     and_then (sstable_sequential_reader t dir) (\<lambda>r.
     and_then (open_readers ts dir) (\<lambda>rs. Inr (r # rs)))"

fun remove_files :: "rstring list \<Rightarrow> files \<Rightarrow> files \<times> unit io" where
  "remove_files [] dir = (dir, Inr ())"
| "remove_files (path # paths) dir =
     (case fs_remove path dir of
        Inl e \<Rightarrow> (dir, Inl e)
      | Inr dir \<Rightarrow> remove_files paths dir)"

text \<open>The merge of \<open>compact_level\<close>: the content of the output file and its index or the error.\<close>

definition merge_tables ::
  "'x ext_scheme \<Rightarrow> nat \<Rightarrow> sequential_reader list \<Rightarrow> bytes \<times> index io" where
  "merge_tables E current_len readers =
     (let w = streaming_create E in
      case fill_heap E current_len [0..<length readers] [] readers of
        Inl e \<Rightarrow> (sw_file w, Inl e)
      | Inr (heap, readers) \<Rightarrow>
          (case merge_loop E current_len heap readers w of
             (w, Inl e) \<Rightarrow> (sw_file w, Inl e)
           | (w, Inr _) \<Rightarrow> finish w))"

text \<open>Publishing the compacted table and deleting the inputs.\<close>

definition publish_compacted ::
  "nat \<Rightarrow> sstable list \<Rightarrow> sstable list \<Rightarrow> sstable \<Rightarrow> database \<Rightarrow> database \<times> unit io" where
  "publish_compacted level current_level next_level compacted db =
     (let levels = leveled_sstable db in
      if level + 1 \<ge> length levels then (db, Inr ())
      else
        let levels = levels[level := drop (length current_level) (levels ! level)];
            levels = levels[level + 1 := drop (length next_level) (levels ! (level + 1)) @ [compacted]];
            db = db\<lparr>leveled_sstable := levels\<rparr> in
        (case remove_files (map st_file_name (current_level @ next_level)) (db_dir db) of
           (dir, Inl e) \<Rightarrow> (db\<lparr>db_dir := dir\<rparr>, Inl e)
         | (dir, Inr _) \<Rightarrow>
             (db\<lparr>db_dir := dir, total_compactions := total_compactions db + 1\<rparr>, Inr ())))"

definition compact_level :: "'x ext_scheme \<Rightarrow> nat \<Rightarrow> database \<Rightarrow> database \<times> unit io" where
  "compact_level E level db =
     (let levels = leveled_sstable db in
      if level + 1 \<ge> length levels then (db, Inr ())
      else if levels ! level = [] then (db, Inr ())
      else
        let current_level = levels ! level; next_level = levels ! (level + 1) in
        (case open_readers (current_level @ next_level) (db_dir db) of
           Inl e \<Rightarrow> (db, Inl e)
         | Inr readers \<Rightarrow>
             (let i = next_sstable_id db;
                  path = sstable_name i;
                  (content, r) = merge_tables E (length current_level) readers;
                  db = db\<lparr>next_sstable_id := i + 1, db_dir := fs_write path content (db_dir db)\<rparr> in
              (case and_then r (\<lambda>index. sstable_from_parts path index (db_dir db)) of
                 Inl e \<Rightarrow> (db, Inl e)
               | Inr compacted \<Rightarrow> publish_compacted level current_level next_level compacted db))))"

text \<open>
  The directory that \<open>compact_level\<close> leaves when the process stops after \<open>steps\<close> operations on files: the
  complete table is written first, then the inputs are deleted one by one.
\<close>

fun removed_upto :: "nat \<Rightarrow> rstring list \<Rightarrow> files \<Rightarrow> files" where
  "removed_upto steps [] dir = dir"
| "removed_upto 0 (path # paths) dir = dir"
| "removed_upto (Suc steps) (path # paths) dir =
     (case fs_remove path dir of Inl e \<Rightarrow> dir | Inr dir \<Rightarrow> removed_upto steps paths dir)"

definition compact_level_files :: "'x ext_scheme \<Rightarrow> nat \<Rightarrow> nat \<Rightarrow> database \<Rightarrow> files" where
  "compact_level_files E steps level db =
     (let levels = leveled_sstable db in
      if level + 1 \<ge> length levels then db_dir db
      else if levels ! level = [] then db_dir db
      else
        let current_level = levels ! level; next_level = levels ! (level + 1) in
        (case open_readers (current_level @ next_level) (db_dir db) of
           Inl e \<Rightarrow> db_dir db
         | Inr readers \<Rightarrow>
             (let path = sstable_name (next_sstable_id db);
                  (content, r) = merge_tables E (length current_level) readers in
              case steps of
                0 \<Rightarrow> db_dir db
              | Suc steps \<Rightarrow>
                  (let dir = fs_write path content (db_dir db) in
                   case and_then r (\<lambda>index. sstable_from_parts path index dir) of
                     Inl e \<Rightarrow> dir
                   | Inr compacted \<Rightarrow> removed_upto steps (map st_file_name (current_level @ next_level)) dir))))"

fun compact_levels :: "'x ext_scheme \<Rightarrow> (nat \<times> bool) list \<Rightarrow> database \<Rightarrow> database \<times> unit io" where
  "compact_levels E [] db = (db, Inr ())"
| "compact_levels E ((level, should) # rest) db =
     (if should then
        (case compact_level E level db of
           (db, Inl e) \<Rightarrow> (db, Inl e)
         | (db, Inr _) \<Rightarrow> compact_levels E rest db)
      else compact_levels E rest db)"

definition maybe_compact :: "'x ext_scheme \<Rightarrow> database \<Rightarrow> database \<times> unit io" where
  "maybe_compact E db =
     (let levels = leveled_sstable db in
      if length levels < 2 then (db, Inr ())
      else
        let should_compact =
              map (\<lambda>level. length (levels ! level) \<ge> sstable_threshold db) [0..<length levels - 1] in
        compact_levels E (zip [0..<length should_compact] should_compact) db)"

section \<open>Recovery\<close>

definition table_ids :: "files \<Rightarrow> u32 list" where
  "table_ids dir = sort (List.map_filter (\<lambda>(name, _). parse_sstable_name name) dir)"

fun load_tables :: "u32 list \<Rightarrow> database \<Rightarrow> database io" where
  "load_tables [] db = Inr db"
| "load_tables (i # ids) db =
     and_then (sstable_open (sstable_name i) (db_dir db)) (\<lambda>sstable.
     load_tables ids
       (db\<lparr>leveled_sstable := (case leveled_sstable db of
              [] \<Rightarrow> []
            | level0 # levels \<Rightarrow> (level0 @ [sstable]) # levels),
           next_sstable_id := max (next_sstable_id db) (i + 1)\<rparr>))"

definition load_sstables :: "database \<Rightarrow> database io" where
  "load_sstables db =
     (let ids = table_ids (db_dir db) in
      if leveled_sstable db = [] then Inr db else load_tables ids db)"

definition apply_record :: "log_record \<Rightarrow> (rstring \<times> entry) list \<Rightarrow> (rstring \<times> entry) list" where
  "apply_record record data =
     (case lr_command record of
        CmdSet key v \<Rightarrow> AList.update key (EntrySet v) data
      | CmdDelete key \<Rightarrow> AList.update key EntryDelete data)"

definition recover :: "'x ext_scheme \<Rightarrow> database \<Rightarrow> database" where
  "recover E db =
     (case read_records E (db_log db) of
        (records, log) \<Rightarrow> db\<lparr>db_log := log, db_data := fold apply_record records (db_data db)\<rparr>)"

definition log_name :: rstring where
  "log_name = str ''database.log''"

definition open_in_dir :: "'x ext_scheme \<Rightarrow> files \<Rightarrow> config \<Rightarrow> database io" where
  "open_in_dir E dir config =
     (let log = logger_new E (case map_of dir log_name of None \<Rightarrow> [] | Some content \<Rightarrow> content);
          database = \<lparr>db_dir = AList.delete log_name dir, db_data = [], db_log = log,
            leveled_sstable = replicate (cfg_sstable_level config) [],
            data_threshold = cfg_data_threshold config,
            sstable_threshold = cfg_sstable_threshold config,
            next_sstable_id = 0, total_compactions = 0\<rparr> in
      and_then (load_sstables database) (\<lambda>database. Inr (recover E database)))"

text \<open>What the operating system keeps of a database.\<close>

definition disk :: "database \<Rightarrow> files" where
  "disk db = fs_write log_name (log_file (db_log db)) (db_dir db)"

definition disk_usage_bytes :: "database \<Rightarrow> nat" where
  "disk_usage_bytes db = sum_list (map (length \<circ> snd) (disk db))"

section \<open>Operations\<close>

definition log_command :: "'x ext_scheme \<Rightarrow> command \<Rightarrow> database \<Rightarrow> database" where
  "log_command E command db = db\<lparr>db_log := logger_log E command (db_log db)\<rparr>"

definition apply_entry :: "rstring \<Rightarrow> entry \<Rightarrow> database \<Rightarrow> database" where
  "apply_entry key entry db = db\<lparr>db_data := AList.update key entry (db_data db)\<rparr>"

definition log_and_apply :: "'x ext_scheme \<Rightarrow> command \<Rightarrow> rstring \<Rightarrow> entry \<Rightarrow> database \<Rightarrow> database" where
  "log_and_apply E command key entry db = apply_entry key entry (log_command E command db)"

lemma log_and_apply_eq:
  "log_and_apply E command key entry db =
     db\<lparr>db_log := logger_log E command (db_log db), db_data := AList.update key entry (db_data db)\<rparr>"
  by (simp add: log_and_apply_def log_command_def apply_entry_def)

definition maintain :: "'x ext_scheme \<Rightarrow> database \<Rightarrow> database \<times> unit io" where
  "maintain E db =
     (case maybe_flush E db of
        (db, Inl e) \<Rightarrow> (db, Inl e)
      | (db, Inr _) \<Rightarrow> maybe_compact E db)"

definition db_insert :: "'x ext_scheme \<Rightarrow> rstring \<Rightarrow> val \<Rightarrow> database \<Rightarrow> database \<times> unit io" where
  "db_insert E key v db = maintain E (log_and_apply E (CmdSet key v) key (EntrySet v) db)"

definition db_delete :: "'x ext_scheme \<Rightarrow> rstring \<Rightarrow> database \<Rightarrow> database \<times> unit io" where
  "db_delete E key db = maintain E (log_and_apply E (CmdDelete key) key EntryDelete db)"

definition entry_value :: "entry option \<Rightarrow> val option" where
  "entry_value e = (case e of Some (EntrySet v) \<Rightarrow> Some v | _ \<Rightarrow> None)"

fun search_tables :: "'x ext_scheme \<Rightarrow> sstable list \<Rightarrow> rstring \<Rightarrow> entry option io" where
  "search_tables E [] key = Inr None"
| "search_tables E (sstable # sstables) key =
     and_then (read_entry E sstable key) (\<lambda>r.
     case r of Some entry \<Rightarrow> Inr (Some entry) | None \<Rightarrow> search_tables E sstables key)"

definition search_order :: "sstable list list \<Rightarrow> sstable list" where
  "search_order levels = concat (map rev levels)"

definition db_get :: "'x ext_scheme \<Rightarrow> rstring \<Rightarrow> database \<Rightarrow> val option io" where
  "db_get E key db =
     (case map_of (db_data db) key of
        Some entry \<Rightarrow> Inr (entry_value (Some entry))
      | None \<Rightarrow>
          and_then (search_tables E (search_order (leveled_sstable db)) key) (\<lambda>r.
          Inr (entry_value r)))"

interpretation tables: lookup_tables "read_entry E" "contents E" "sstable_inv E" "search_tables E"
  for E :: "'x ext_scheme"
  by unfold_locales (simp_all add: read_entry_contents)

section \<open>File names\<close>

lemma parse_sstable_name [simp]: "parse_sstable_name (sstable_name i) = Some i"
  by (simp add: parse_sstable_name_def sstable_name_def strip_prefix_def strip_suffix_def)

lemma sstable_name_inject [simp]: "sstable_name i = sstable_name j \<longleftrightarrow> i = j"
  by (metis option.inject parse_sstable_name)

lemma parse_log_name [simp]: "parse_sstable_name log_name = None"
  by (simp add: parse_sstable_name_def log_name_def strip_prefix_def str_def)

lemma sstable_name_not_log [simp]: "sstable_name i \<noteq> log_name" "log_name \<noteq> sstable_name i"
  by (metis option.distinct(1) parse_log_name parse_sstable_name)+

section \<open>What a database holds\<close>

text \<open>The tables from newest to oldest, and the entries in the order in which \<open>get\<close> looks.\<close>

abbreviation tables_of :: "database \<Rightarrow> sstable list" where
  "tables_of db \<equiv> search_order (leveled_sstable db)"

definition view :: "'x ext_scheme \<Rightarrow> database \<Rightarrow> rstring \<rightharpoonup> entry" where
  "view E db = map_of (db_data db @ concat (map (contents E) (tables_of db)))"

text \<open>The abstract store: what a client sees.\<close>

definition store :: "'x ext_scheme \<Rightarrow> database \<Rightarrow> rstring \<rightharpoonup> val" where
  "store E db = (\<lambda>key. entry_value (view E db key))"

definition db_weight :: "'x ext_scheme \<Rightarrow> database \<Rightarrow> nat" where
  "db_weight E db = weight E (db_data db) + weight E (concat (map (contents E) (tables_of db)))"

text \<open>A table whose file is in the directory, under a name below the next id.\<close>

definition table_at :: "'x ext_scheme \<Rightarrow> files \<Rightarrow> u32 \<Rightarrow> sstable \<Rightarrow> bool" where
  "table_at E dir next t \<longleftrightarrow>
     sstable_inv E t \<and> map_of dir (st_file_name t) = Some (st_file t) \<and>
     (\<exists>i < next. st_file_name t = sstable_name i)"

definition db_inv :: "'x ext_scheme \<Rightarrow> database \<Rightarrow> bool" where
  "db_inv E db \<longleftrightarrow>
     bloom_sizing_ok E \<and> distinct (map fst (db_data db)) \<and> list_all (pair_ok E) (db_data db) \<and>
     (\<forall>t \<in> set (tables_of db). table_at E (db_dir db) (next_sstable_id db) t) \<and>
     distinct (map st_file_name (tables_of db)) \<and>
     list_all (\<lambda>level. length level \<le> 1) (tl (leveled_sstable db)) \<and>
     db_weight E db < 2 ^ 60 \<and>
     (\<exists>rs. log_holds E (db_log db) rs \<and> db_data db = fold apply_record rs [])"

lemma db_invD:
  assumes "db_inv E db"
  shows "bloom_sizing_ok E" "distinct (map fst (db_data db))" "list_all (pair_ok E) (db_data db)"
    "\<And>t. t \<in> set (tables_of db) \<Longrightarrow> table_at E (db_dir db) (next_sstable_id db) t"
    "distinct (map st_file_name (tables_of db))"
    "list_all (\<lambda>level. length level \<le> 1) (tl (leveled_sstable db))"
    "db_weight E db < 2 ^ 60"
    "\<exists>rs. log_holds E (db_log db) rs \<and> db_data db = fold apply_record rs []"
  using assms by (simp_all add: db_inv_def)

lemma table_atD:
  assumes "table_at E dir next t"
  shows "sstable_inv E t" "map_of dir (st_file_name t) = Some (st_file t)"
    "\<exists>i < next. st_file_name t = sstable_name i"
  using assms by (simp_all add: table_at_def)

lemma db_get_tables:
  assumes "\<forall>t \<in> set (tables_of db). sstable_inv E t"
  shows "db_get E key db = Inr (store E db key)"
  using tables.search_entries [OF assms, of key]
  by (auto simp: db_get_def store_def view_def map_add_def split: option.splits)

lemma db_get_view: "db_inv E db \<Longrightarrow> db_get E key db = Inr (store E db key)"
  by (rule db_get_tables) (blast dest: db_invD(4) table_atD(1))

lemma fresh_name:
  assumes "db_inv E db" and "t \<in> set (tables_of db)"
  shows "st_file_name t \<noteq> sstable_name (next_sstable_id db)"
  using table_atD(3) [OF db_invD(4) [OF assms]] by auto

text \<open>Word successors without wrap-around.\<close>

lemma u32_less_Suc: "unat (n :: u32) + 1 < 2 ^ 32 \<Longrightarrow> n < n + 1 \<and> unat (n + 1) = unat n + 1"
  by (simp add: word_less_nat_alt unat_word_ariths)

lemma table_at_write:
  assumes "table_at E dir next t" and "unat next + 1 < 2 ^ 32"
  shows "table_at E (fs_write (sstable_name next) c dir) (next + 1) t"
proof -
  obtain i where i: "i < next" "st_file_name t = sstable_name i" using table_atD(3) [OF assms(1)] by blast
  then have "i < next + 1" using u32_less_Suc [OF assms(2)] by (blast intro: order.strict_trans)
  with assms(1) i show ?thesis by (auto simp: table_at_def map_of_fs_write)
qed

section \<open>Flush\<close>

lemma weight_sort_key: "weight E (sort_key fst es) = weight E es"
proof -
  have "mset (map (entry_weight E) (sort_key fst es)) = mset (map (entry_weight E) es)" by simp
  then show ?thesis unfolding weight_def by (metis sum_mset_sum_list)
qed

lemma sort_key_table_ok:
  assumes "bloom_sizing_ok E" and "distinct (map fst es)" and "list_all (pair_ok E) es"
    and "weight E es < 2 ^ 60"
  shows "table_ok E (length (sort_key fst es)) (sort_key fst es)" and "map_of (sort_key fst es) = map_of es"
proof -
  have dist: "distinct (map fst (sort_key fst es))"
    by (metis assms(2) distinct_map distinct_sort set_sort)
  then have "keys_sorted (sort_key fst es)"
    unfolding keys_sorted_def by (simp add: strict_sorted_iff)
  then show "table_ok E (length (sort_key fst es)) (sort_key fst es)"
    using assms by (simp add: table_ok_def entries_ok_def weight_sort_key list_all_iff)
  show "map_of (sort_key fst es) = map_of es"
    using map_of_inject_set [OF dist assms(2)] by simp
qed

lemma flush_ok:
  assumes inv: "db_inv E db" and data: "db_data db \<noteq> []" and ids: "unat (next_sstable_id db) + 1 < 2 ^ 32"
  obtains t where
    "flush_memory_to_disk E db =
       (let db = db\<lparr>next_sstable_id := next_sstable_id db + 1,
                    db_dir := fs_write (st_file_name t) (st_file t) (writer_create (st_file_name t) (db_dir db))\<rparr> in
        case leveled_sstable db of
          [] \<Rightarrow> db
        | level0 # levels \<Rightarrow> db\<lparr>leveled_sstable := (level0 @ [t]) # levels,
              db_log := logger_truncate (db_log db), db_data := []\<rparr>, Inr ())"
    and "sstable_inv E t" and "st_file_name t = sstable_name (next_sstable_id db)"
    and "map_of (contents E t) = map_of (db_data db)" and "weight E (contents E t) = weight E (db_data db)"
proof -
  let ?es = "sort_key fst (db_data db)" and ?n = "sstable_name (next_sstable_id db)"
  have w: "weight E (db_data db) < 2 ^ 60" using db_invD(7) [OF inv] by (simp add: db_weight_def)
  note es = sort_key_table_ok [OF db_invD(1-3) [OF inv] w]
  let ?dir = "writer_create ?n (db_dir db)"
  obtain t0 where new: "sstable_new E ?n (db_dir db) = (?dir, Inr t0)" and n0: "st_file_name t0 = ?n"
    by (simp add: sstable_new_def Let_def fs_open_def writer_create_def map_of_fs_write)
  obtain t where t: "write_entries E ?es t0 ?dir = (fs_write (st_file_name t0) (st_file t) ?dir, Inr t)"
    "sstable_inv E t" "contents E t = ?es" "st_file_name t = st_file_name t0"
    using write_entries_inv [OF es(1), of t0 ?dir] by metis
  show thesis
  proof (rule that [of t])
    show "map_of (contents E t) = map_of (db_data db)" "weight E (contents E t) = weight E (db_data db)"
      using es(2) t(3) by (simp_all add: weight_sort_key)
  qed (use data new n0 t in \<open>auto simp: flush_memory_to_disk_def Let_def split: list.split\<close>)
qed

text \<open>
  What an operation that only rearranges the data keeps, and the side conditions of the next one:
  the ids that are left bound the tables that can still be made.
\<close>

definition ids_left :: "database \<Rightarrow> nat \<Rightarrow> bool" where
  "ids_left db n \<longleftrightarrow> unat (next_sstable_id db) + n < 2 ^ 32"

definition same_store :: "'x ext_scheme \<Rightarrow> database \<Rightarrow> database \<Rightarrow> bool" where
  "same_store E db db' \<longleftrightarrow>
     view E db' = view E db \<and> db_weight E db' \<le> db_weight E db \<and>
     length (leveled_sstable db') = length (leveled_sstable db) \<and>
     data_threshold db' = data_threshold db \<and> sstable_threshold db' = sstable_threshold db"

lemma same_store_refl [simp]: "same_store E db db"
  by (simp add: same_store_def)

lemma same_store_trans: "same_store E a b \<Longrightarrow> same_store E b c \<Longrightarrow> same_store E a c"
  by (simp add: same_store_def)

lemma search_order_simps [simp]:
  "search_order [] = []" "search_order (l # ls) = rev l @ search_order ls"
  "search_order (ks @ ls) = search_order ks @ search_order ls"
  by (simp_all add: search_order_def)

lemma map_of_append_cong:
  "map_of xs = map_of ys \<Longrightarrow> map_of (xs @ zs) = map_of (ys @ zs)"
  "map_of xs = map_of ys \<Longrightarrow> map_of (zs @ xs) = map_of (zs @ ys)"
  by simp_all

lemma flush_inv:
  assumes inv: "db_inv E db" and ids: "ids_left db 1"
  obtains db' where "flush_memory_to_disk E db = (db', Inr ())" and "db_inv E db'" and "same_store E db db'"
    and "unat (next_sstable_id db') \<le> unat (next_sstable_id db) + 1"
proof (cases "db_data db = []")
  case True
  then show thesis using that inv by (simp add: flush_memory_to_disk_def)
next
  case False
  let ?next = "next_sstable_id db"
  have room: "unat ?next + 1 < 2 ^ 32" using ids by (simp add: ids_left_def)
  note nx = u32_less_Suc [OF room]
  obtain t where flush: "flush_memory_to_disk E db =
       (let db = db\<lparr>next_sstable_id := next_sstable_id db + 1,
                    db_dir := fs_write (st_file_name t) (st_file t) (writer_create (st_file_name t) (db_dir db))\<rparr> in
        case leveled_sstable db of
          [] \<Rightarrow> db
        | level0 # levels \<Rightarrow> db\<lparr>leveled_sstable := (level0 @ [t]) # levels,
              db_log := logger_truncate (db_log db), db_data := []\<rparr>, Inr ())"
    and t: "sstable_inv E t" "st_file_name t = sstable_name ?next"
      "map_of (contents E t) = map_of (db_data db)" "weight E (contents E t) = weight E (db_data db)"
    using flush_ok [OF inv False room] by metis
  let ?dir = "fs_write (st_file_name t) (st_file t) (writer_create (st_file_name t) (db_dir db))"
  have dir: "map_of ?dir = map_of (fs_write (sstable_name ?next) (st_file t) (db_dir db))"
    by (simp add: writer_create_def map_of_fs_write t(2))
  have old: "table_at E ?dir (?next + 1) u" if "u \<in> set (tables_of db)" for u
    using table_at_write [OF db_invD(4) [OF inv that] room, of "st_file t"] by (simp add: table_at_def dir)
  have new: "table_at E ?dir (?next + 1) t"
    using t nx by (auto simp: table_at_def map_of_fs_write)
  have fresh: "st_file_name t \<notin> st_file_name ` set (tables_of db)"
    using fresh_name [OF inv] t(2) by (metis imageE)
  show thesis
  proof (cases "leveled_sstable db")
    case Nil
    then show thesis
      using that inv flush nx by (simp add: db_inv_def same_store_def view_def db_weight_def)
  next
    case (Cons level0 levels)
    let ?db' = "db\<lparr>next_sstable_id := ?next + 1, db_dir := ?dir,
      leveled_sstable := (level0 @ [t]) # levels, db_log := logger_truncate (db_log db), db_data := []\<rparr>"
    have tables: "search_order ((level0 @ [t]) # levels) = t # tables_of db" using Cons by simp
    have same: "same_store E db ?db'"
      using t by (simp add: same_store_def view_def db_weight_def Cons)
    moreover have "db_inv E ?db'"
      unfolding db_inv_def
    proof (intro conjI)
      show "\<forall>u \<in> set (tables_of ?db'). table_at E (db_dir ?db') (next_sstable_id ?db') u"
        using old new by (simp add: tables del: search_order_simps)
      show "distinct (map st_file_name (tables_of ?db'))"
        using db_invD(5) [OF inv] fresh by (simp add: tables del: search_order_simps)
      show "db_weight E ?db' < 2 ^ 60"
        using same db_invD(7) [OF inv] by (simp add: same_store_def)
      show "\<exists>rs. log_holds E (db_log ?db') rs \<and> db_data ?db' = fold apply_record rs []"
        by (intro exI [of _ "[]"]) simp
    qed (use db_invD(1,6) [OF inv] Cons in simp_all)
    ultimately show thesis
      using that flush Cons nx by (simp add: Let_def)
  qed
qed

section \<open>Compaction\<close>

lemma levels_split:
  assumes "level + 1 < length levels"
  shows "levels = take level levels @ levels ! level # levels ! (level + 1) # drop (level + 2) levels"
proof -
  have "drop level levels = levels ! level # drop (Suc level) levels"
    and "drop (Suc level) levels = levels ! Suc level # drop (Suc (Suc level)) levels"
    using assms by (simp_all add: Cons_nth_drop_Suc)
  then show ?thesis by (metis Suc_eq_plus1 add_2_eq_Suc' append_take_drop_id)
qed

text \<open>The tables of a split list of levels.\<close>

lemma search_order_split:
  assumes "level + 1 < length levels"
  shows "search_order levels = search_order (take level levels) @
     rev (levels ! level) @ rev (levels ! (level + 1)) @ search_order (drop (level + 2) levels)"
  by (subst levels_split [OF assms]) simp

lemma search_order_compacted:
  assumes "level + 1 < length levels"
  shows "search_order (levels[level := [], level + 1 := [t]]) =
     search_order (take level levels) @ t # search_order (drop (level + 2) levels)"
  using assms
  by (subst search_order_split) (auto simp: nth_list_update drop_update_cancel take_update_cancel)

lemma open_readers_ok:
  assumes "\<forall>t \<in> set ts. sstable_inv E t \<and> map_of dir (st_file_name t) = Some (st_file t)"
  obtains readers where "open_readers ts dir = Inr readers"
    and "list_all2 (reads E) readers (map (contents E) ts)"
  using assms
proof (induction ts arbitrary: thesis)
  case (Cons t ts)
  obtain readers where rs: "open_readers ts dir = Inr readers" "list_all2 (reads E) readers (map (contents E) ts)"
    using Cons.IH Cons.prems(2) by auto
  obtain n where n: "table_ok E n (contents E t)" "st_file t = table_file E n (contents E t)"
    using Cons.prems(2) by (auto simp: sstable_inv_def)
  have "sstable_sequential_reader t dir = Inr (reader_at E n (contents E t) 0)"
    using Cons.prems(2) n sequential_open_table [OF n(1)] by (simp add: sstable_sequential_reader_def fs_open_def)
  with rs reads_start [OF n(1)] Cons.prems(1) show ?case by simp
qed simp

lemma remove_files_ok:
  assumes "distinct ps" and "\<forall>p \<in> set ps. map_of dir p \<noteq> None"
  shows "\<exists>dir'. remove_files ps dir = (dir', Inr ()) \<and>
    map_of dir' = (\<lambda>p. if p \<in> set ps then None else map_of dir p) \<and>
    (distinct (map fst dir) \<longrightarrow> distinct (map fst dir'))"
  using assms
proof (induction ps arbitrary: dir)
  case (Cons p ps)
  let ?dir = "AList.delete p dir"
  have "\<forall>q \<in> set ps. map_of ?dir q \<noteq> None" using Cons.prems by (auto simp: delete_conv')
  with Cons.IH [of ?dir] Cons.prems obtain dir' where
    "remove_files ps ?dir = (dir', Inr ())"
    "map_of dir' = (\<lambda>q. if q \<in> set ps then None else map_of ?dir q)"
    "distinct (map fst ?dir) \<longrightarrow> distinct (map fst dir')"
    by auto
  moreover have "fs_remove p dir = Inr ?dir" using Cons.prems by (simp add: fs_remove_def)
  ultimately show ?case
    using distinct_delete [of dir p] by (auto simp: delete_conv' fun_eq_iff)
qed simp

lemma merge_tables_ok:
  assumes "list_all2 (reads E) readers P" and "merge_pre E cl P []" and "bloom_sizing_ok E"
  obtains m where "merge_post E cl P [] m" and "table_ok E STREAMING_EXPECTED_ITEMS m"
    and "merge_tables E cl readers = (table_file E STREAMING_EXPECTED_ITEMS m, Inr (index_of E 45 m))"
proof -
  obtain heap readers' m where
    fill: "fill_heap E cl [0..<length readers] [] readers = Inr (heap, readers')"
    and loop: "merge_loop E cl heap readers' (streaming_create E) = (writer_at E STREAMING_EXPECTED_ITEMS m, Inr ())"
    and post: "merge_post E cl P [] m"
    using merge_ok [OF assms(1,2)] by metis
  have "set m \<subseteq> set (concat P)" "keys_sorted m" "weight E m \<le> weight E (concat P)"
    using post by (simp_all add: merge_post_def)
  moreover have "list_all (pair_ok E) (concat P)" "weight E (concat P) < 2 ^ 60"
    using assms(2) by (simp_all add: merge_pre_def)
  ultimately have ok: "table_ok E STREAMING_EXPECTED_ITEMS m"
    using assms(3) by (auto simp: table_ok_def entries_ok_def list_all_iff STREAMING_EXPECTED_ITEMS_def
        simp del: set_concat)
  note d = table_okD [OF ok]
  have "merge_tables E cl readers = (table_file E STREAMING_EXPECTED_ITEMS m, Inr (index_of E 45 m))"
    by (simp add: merge_tables_def fill loop finish_at [OF d(1,2,4)])
  with post ok that show thesis by blast
qed

lemma weight_concat_map:
  "weight E (concat (map f (xs @ ys))) = weight E (concat (map f xs)) + weight E (concat (map f ys))"
  by simp

lemma weight_concat_rev: "weight E (concat (rev xs)) = weight E (concat xs)"
  by (induction xs) simp_all

text \<open>The input tables of a compaction meet the conditions of the merge.\<close>

lemma compaction_pre:
  assumes inv: "db_inv E db" and level: "level + 1 < length (leveled_sstable db)"
    and ne: "leveled_sstable db ! level \<noteq> []"
  defines "ts \<equiv> leveled_sstable db ! level @ leveled_sstable db ! (level + 1)"
  shows "merge_pre E (length (leveled_sstable db ! level)) (map (contents E) ts) []"
    and "set ts \<subseteq> set (tables_of db)" and "distinct (map st_file_name ts)"
    and "length (leveled_sstable db ! (level + 1)) \<le> 1"
proof -
  note split = search_order_split [OF level]
  show sub: "set ts \<subseteq> set (tables_of db)" by (auto simp: split ts_def)
  show "distinct (map st_file_name ts)"
    using db_invD(5) [OF inv] by (auto simp: split ts_def distinct_map inj_on_Un)
  have "leveled_sstable db ! (level + 1) = tl (leveled_sstable db) ! level"
    using level by (simp add: nth_tl)
  then show short: "length (leveled_sstable db ! (level + 1)) \<le> 1"
    using db_invD(6) [OF inv] level by (simp add: list_all_length)
  have len: "length ts \<le> 2 * length (leveled_sstable db ! level)"
    using short ne by (cases "leveled_sstable db ! level") (auto simp: ts_def)
  have each: "keys_sorted (contents E t) \<and> list_all (pair_ok E) (contents E t)" if "t \<in> set ts" for t
    using table_atD(1) [OF db_invD(4) [OF inv]] sub that table_okD by (fastforce simp: sstable_inv_def)
  have "weight E (concat (map (contents E) ts)) \<le> weight E (concat (map (contents E) (tables_of db)))"
    by (simp add: split ts_def weight_concat_rev flip: rev_map)
  then have "weight E (concat (map (contents E) ts)) < 2 ^ 60"
    using db_invD(7) [OF inv] by (simp add: db_weight_def)
  then show "merge_pre E (length (leveled_sstable db ! level)) (map (contents E) ts) []"
    using each len by (simp add: merge_pre_def pending_sorted_def list_all_iff) (simp add: keys_sorted_def)
qed

text \<open>What one compaction does to the state.\<close>

lemma compact_level_ok:
  assumes inv: "db_inv E db" and ids: "ids_left db 1" and level: "level + 1 < length (leveled_sstable db)"
    and ne: "leveled_sstable db ! level \<noteq> []"
  obtains t dir where
    "compact_level E level db = (db\<lparr>next_sstable_id := next_sstable_id db + 1, db_dir := dir,
       leveled_sstable := (leveled_sstable db)[level := [], level + 1 := [t]],
       total_compactions := total_compactions db + 1\<rparr>, Inr ())"
    and "sstable_inv E t" and "st_file_name t = sstable_name (next_sstable_id db)"
    and "map_of (contents E t) = map_of (concat (map (contents E)
           (rev (leveled_sstable db ! level) @ rev (leveled_sstable db ! (level + 1)))))"
    and "weight E (contents E t) \<le>
           weight E (concat (map (contents E) (leveled_sstable db ! level @ leveled_sstable db ! (level + 1))))"
    and "map_of dir = (\<lambda>p. if p \<in> st_file_name ` set (leveled_sstable db ! level @ leveled_sstable db ! (level + 1))
           then None else ((map_of (db_dir db))(st_file_name t \<mapsto> st_file t)) p)"
    and "distinct (map fst (db_dir db)) \<longrightarrow> distinct (map fst dir)"
proof -
  let ?cur = "leveled_sstable db ! level" and ?nxt = "leveled_sstable db ! (level + 1)"
  let ?name = "sstable_name (next_sstable_id db)"
  note pre = compaction_pre [OF inv level ne]
  have at: "\<forall>t \<in> set (?cur @ ?nxt). sstable_inv E t \<and> map_of (db_dir db) (st_file_name t) = Some (st_file t)"
    using pre(2) db_invD(4) [OF inv] by (auto simp: table_at_def)
  obtain readers where readers: "open_readers (?cur @ ?nxt) (db_dir db) = Inr readers"
    "list_all2 (reads E) readers (map (contents E) (?cur @ ?nxt))"
    using open_readers_ok [OF at] by blast
  obtain m where post: "merge_post E (length ?cur) (map (contents E) (?cur @ ?nxt)) [] m"
    and ok: "table_ok E STREAMING_EXPECTED_ITEMS m"
    and merge: "merge_tables E (length ?cur) readers
        = (table_file E STREAMING_EXPECTED_ITEMS m, Inr (index_of E 45 m))"
    using merge_tables_ok [OF readers(2) pre(1) db_invD(1) [OF inv]] by blast
  let ?dir = "fs_write ?name (table_file E STREAMING_EXPECTED_ITEMS m) (db_dir db)"
  have "map_of ?dir ?name = Some (table_file E STREAMING_EXPECTED_ITEMS m)" by (simp add: map_of_fs_write)
  from sstable_from_parts_inv [OF ok this] obtain t where
    t: "sstable_from_parts ?name (index_of E 45 m) ?dir = Inr t" "sstable_inv E t" "contents E t = m"
      "st_file_name t = ?name" "st_file t = table_file E STREAMING_EXPECTED_ITEMS m" by metis
  have "\<forall>p \<in> set (map st_file_name (?cur @ ?nxt)). map_of ?dir p \<noteq> None"
    using at by (auto simp: map_of_fs_write)
  from remove_files_ok [OF pre(3) this, unfolded set_map] obtain dir where
    rm: "remove_files (map st_file_name (?cur @ ?nxt)) ?dir = (dir, Inr ())"
    and dir: "map_of dir = (\<lambda>p. if p \<in> st_file_name ` set (?cur @ ?nxt) then None else map_of ?dir p)"
    and dist: "distinct (map fst ?dir) \<longrightarrow> distinct (map fst dir)"
    by blast
  have publish: "publish_compacted level ?cur ?nxt t (db\<lparr>next_sstable_id := next_sstable_id db + 1, db_dir := ?dir\<rparr>)
      = (db\<lparr>next_sstable_id := next_sstable_id db + 1, db_dir := dir,
         leveled_sstable := (leveled_sstable db)[level := [], level + 1 := [t]],
         total_compactions := total_compactions db + 1\<rparr>, Inr ())"
    using level rm by (simp add: publish_compacted_def Let_def)
  show thesis
  proof (rule that)
    show "compact_level E level db = (db\<lparr>next_sstable_id := next_sstable_id db + 1, db_dir := dir,
         leveled_sstable := (leveled_sstable db)[level := [], level + 1 := [t]],
         total_compactions := total_compactions db + 1\<rparr>, Inr ())"
      using level ne readers(1) merge t(1) publish by (simp add: compact_level_def Let_def)
    show "map_of (contents E t) = map_of (concat (map (contents E) (rev ?cur @ rev ?nxt)))"
      using post by (simp add: t(3) merge_post_def by_priority_def rev_map fun_eq_iff)
    show "map_of dir = (\<lambda>p. if p \<in> st_file_name ` set (?cur @ ?nxt)
           then None else ((map_of (db_dir db))(st_file_name t \<mapsto> st_file t)) p)"
      by (simp only: dir map_of_fs_write t(4,5))
    show "distinct (map fst (db_dir db)) \<longrightarrow> distinct (map fst dir)"
      using dist by (simp add: fs_write_def distinct_update)
  qed (use post t in \<open>simp_all add: merge_post_def\<close>)
qed

lemma compact_level_inv:
  assumes inv: "db_inv E db" and ids: "ids_left db 1"
  obtains db' where "compact_level E level db = (db', Inr ())" and "db_inv E db'" and "same_store E db db'"
    and "unat (next_sstable_id db') \<le> unat (next_sstable_id db) + 1"
proof (cases "level + 1 < length (leveled_sstable db) \<and> leveled_sstable db ! level \<noteq> []")
  case False
  then have "compact_level E level db = (db, Inr ())" by (auto simp: compact_level_def Let_def)
  with that inv show thesis by simp
next
  case True
  then have level: "level + 1 < length (leveled_sstable db)" and ne: "leveled_sstable db ! level \<noteq> []" by auto
  let ?cur = "leveled_sstable db ! level" and ?nxt = "leveled_sstable db ! (level + 1)"
  obtain t dir where run: "compact_level E level db =
      (db\<lparr>next_sstable_id := next_sstable_id db + 1, db_dir := dir,
       leveled_sstable := (leveled_sstable db)[level := [], level + 1 := [t]],
       total_compactions := total_compactions db + 1\<rparr>, Inr ())"
    and t: "sstable_inv E t" "st_file_name t = sstable_name (next_sstable_id db)"
    and merged: "map_of (contents E t) = map_of (concat (map (contents E) (rev ?cur @ rev ?nxt)))"
    and weight: "weight E (contents E t) \<le> weight E (concat (map (contents E) (?cur @ ?nxt)))"
    and dir: "map_of dir = (\<lambda>p. if p \<in> st_file_name ` set (?cur @ ?nxt)
           then None else ((map_of (db_dir db))(st_file_name t \<mapsto> st_file t)) p)"
    by (rule compact_level_ok [OF inv ids level ne])
  define ls where "ls = (leveled_sstable db)[level := [], level + 1 := [t]]"
  let ?above = "search_order (take level (leveled_sstable db))"
  let ?below = "search_order (drop (level + 2) (leveled_sstable db))"
  have old: "tables_of db = ?above @ rev ?cur @ rev ?nxt @ ?below"
    and new: "search_order ls = ?above @ t # ?below"
    unfolding ls_def by (rule search_order_split [OF level], rule search_order_compacted [OF level])
  have nx: "next_sstable_id db < next_sstable_id db + 1 \<and>
      unat (next_sstable_id db + 1) = unat (next_sstable_id db) + 1"
    using ids by (intro u32_less_Suc) (simp add: ids_left_def)
  have names: "distinct (map st_file_name (tables_of db))" using db_invD(5) [OF inv] .
  define db' where "db' = db\<lparr>next_sstable_id := next_sstable_id db + 1, db_dir := dir,
       leveled_sstable := ls, total_compactions := total_compactions db + 1\<rparr>"
  have same: "same_store E db db'"
    using merged weight
    by (simp add: same_store_def view_def db_weight_def db'_def old new weight_concat_rev flip: rev_map)
      (simp add: ls_def)
  have "table_at E dir (next_sstable_id db + 1) u" if u: "u \<in> set ?above \<union> set ?below" for u
  proof -
    have at: "table_at E (db_dir db) (next_sstable_id db) u"
      using db_invD(4) [OF inv, of u] u by (auto simp: old)
    have "st_file_name u \<notin> st_file_name ` set (?cur @ ?nxt)" using names u by (auto simp: old)
    moreover have "st_file_name u \<noteq> st_file_name t" using table_atD(3) [OF at] t(2) by auto
    ultimately have "map_of dir (st_file_name u) = map_of (db_dir db) (st_file_name u)" by (simp add: dir)
    with at nx show ?thesis by (auto simp: table_at_def intro: order.strict_trans)
  qed
  moreover have t_fresh: "st_file_name t \<notin> st_file_name ` set (tables_of db)"
    using fresh_name [OF inv] t(2) by (metis imageE)
  then have "table_at E dir (next_sstable_id db + 1) t"
    using t nx by (auto simp: table_at_def dir old)
  ultimately have "\<forall>u \<in> set (search_order ls). table_at E dir (next_sstable_id db + 1) u"
    by (auto simp: new)
  moreover have "distinct (map st_file_name (search_order ls))"
    using names t_fresh by (auto simp: old new)
  moreover have "list_all (\<lambda>l. length l \<le> 1) (tl ls)"
    using db_invD(6) [OF inv] level
    by (auto simp: ls_def list_all_length nth_tl nth_list_update)
  ultimately have "db_inv E db'"
    using same inv by (simp add: db_inv_def same_store_def db'_def)
  with that run same nx show thesis by (simp add: db'_def ls_def)
qed

lemma ids_left_mono: "ids_left db n \<Longrightarrow> m \<le> n \<Longrightarrow> ids_left db m"
  by (simp add: ids_left_def)

lemma compact_levels_inv:
  assumes "db_inv E db" and "ids_left db (length ls)"
  obtains db' where "compact_levels E ls db = (db', Inr ())" and "db_inv E db'" and "same_store E db db'"
    and "unat (next_sstable_id db') \<le> unat (next_sstable_id db) + length ls"
  using assms
proof (induction ls arbitrary: db thesis)
  case (Cons p ls)
  obtain level should where p: "p = (level, should)" by (cases p)
  show ?case
  proof (cases should)
    case True
    obtain db1 where db1: "compact_level E level db = (db1, Inr ())" "db_inv E db1" "same_store E db db1"
      "unat (next_sstable_id db1) \<le> unat (next_sstable_id db) + 1"
      using compact_level_inv [OF Cons.prems(2) ids_left_mono [OF Cons.prems(3)]] by auto
    with Cons.prems(3) have "ids_left db1 (length ls)" by (simp add: ids_left_def)
    with Cons.IH [OF _ db1(2)] obtain db2 where "compact_levels E ls db1 = (db2, Inr ())" "db_inv E db2"
      "same_store E db1 db2" "unat (next_sstable_id db2) \<le> unat (next_sstable_id db1) + length ls" by blast
    with db1 True p Cons.prems(1) same_store_trans [OF db1(3)] show ?thesis by simp
  next
    case False
    with Cons.IH [OF _ Cons.prems(2)] ids_left_mono [OF Cons.prems(3)] obtain db2 where
      "compact_levels E ls db = (db2, Inr ())" "db_inv E db2"
      "same_store E db db2" "unat (next_sstable_id db2) \<le> unat (next_sstable_id db) + length ls" by auto
    with False p Cons.prems(1) show ?thesis by simp
  qed
qed simp

lemma maybe_compact_inv:
  assumes "db_inv E db" and "ids_left db (length (leveled_sstable db))"
  obtains db' where "maybe_compact E db = (db', Inr ())" and "db_inv E db'" and "same_store E db db'"
    and "unat (next_sstable_id db') \<le> unat (next_sstable_id db) + length (leveled_sstable db)"
proof (cases "length (leveled_sstable db) < 2")
  case True
  with that assms show thesis by (simp add: maybe_compact_def)
next
  case False
  let ?s = "map (\<lambda>level. length (leveled_sstable db ! level) \<ge> sstable_threshold db) [0..<length (leveled_sstable db) - 1]"
  have "ids_left db (length (zip [0..<length ?s] ?s))" using assms(2) by (auto elim: ids_left_mono)
  from compact_levels_inv [OF assms(1) this] obtain db' where
    "compact_levels E (zip [0..<length ?s] ?s) db = (db', Inr ())" "db_inv E db'" "same_store E db db'"
    "unat (next_sstable_id db') \<le> unat (next_sstable_id db) + length (zip [0..<length ?s] ?s)" .
  with False that show thesis by (simp add: maybe_compact_def Let_def)
qed

lemma maintain_inv:
  assumes "db_inv E db" and "ids_left db (length (leveled_sstable db) + 1)"
  obtains db' where "maintain E db = (db', Inr ())" and "db_inv E db'" and "same_store E db db'"
    and "unat (next_sstable_id db') \<le> unat (next_sstable_id db) + length (leveled_sstable db) + 1"
proof -
  obtain db1 where db1: "maybe_flush E db = (db1, Inr ())" "db_inv E db1" "same_store E db db1"
    "unat (next_sstable_id db1) \<le> unat (next_sstable_id db) + 1"
  proof (cases "length (db_data db) \<ge> data_threshold db")
    case True
    have "ids_left db 1" using assms(2) by (simp add: ids_left_def)
    from flush_inv [OF assms(1) this] True that show ?thesis by (metis maybe_flush_def)
  qed (use that assms(1) in \<open>simp add: maybe_flush_def\<close>)
  then have "ids_left db1 (length (leveled_sstable db1))"
    using assms(2) by (simp add: ids_left_def same_store_def)
  from maybe_compact_inv [OF db1(2) this] obtain db2 where
    db2: "maybe_compact E db1 = (db2, Inr ())" "db_inv E db2" "same_store E db1 db2"
    "unat (next_sstable_id db2) \<le> unat (next_sstable_id db1) + length (leveled_sstable db1)" by metis
  show thesis
  proof (rule that)
    show "maintain E db = (db2, Inr ())" using db1(1) db2(1) by (simp add: maintain_def)
    show "unat (next_sstable_id db2) \<le> unat (next_sstable_id db) + length (leveled_sstable db) + 1"
      using db1(3,4) db2(4) by (simp add: same_store_def)
  qed (use db2(2) same_store_trans [OF db1(3) db2(3)] in simp_all)
qed

section \<open>Writes\<close>

lemma view_update: "map_of (AList.update k e al @ r) = (map_of (al @ r))(k \<mapsto> e)"
  by (simp add: update_conv' map_add_upd)

lemma weight_update: "distinct (map fst al) \<Longrightarrow> weight E (AList.update k e al) \<le> weight E al + entry_weight E (k, e)"
  by (induction al) auto

lemma pair_ok_update:
  "list_all (pair_ok E) al \<Longrightarrow> pair_ok E (k, e) \<Longrightarrow> list_all (pair_ok E) (AList.update k e al)"
  by (induction al) (auto simp: pair_ok_def)

text \<open>The entry of a logged command.\<close>

fun command_entry :: "command \<Rightarrow> entry" where
  "command_entry (CmdSet k v) = EntrySet v"
| "command_entry (CmdDelete k) = EntryDelete"

lemma apply_record_entry:
  "apply_record r data = AList.update (command_key (lr_command r)) (command_entry (lr_command r)) data"
  by (cases "lr_command r") (simp_all add: apply_record_def)

lemma command_pair_ok: "command_ok E c \<Longrightarrow> pair_ok E (command_key c, command_entry c)"
  by (cases c) (simp_all add: pair_ok_def)

definition write_fits :: "'x ext_scheme \<Rightarrow> rstring \<Rightarrow> entry \<Rightarrow> database \<Rightarrow> bool" where
  "write_fits E key entry db \<longleftrightarrow>
     pair_ok E (key, entry) \<and> db_weight E db + entry_weight E (key, entry) < 2 ^ 60 \<and>
     ids_left db (length (leveled_sstable db) + 1)"

lemma log_and_apply_inv:
  assumes inv: "db_inv E db" and c: "command_ok E c"
    and fits: "write_fits E (command_key c) (command_entry c) db"
  shows "db_inv E (log_and_apply E c (command_key c) (command_entry c) db)"
    and "view E (log_and_apply E c (command_key c) (command_entry c) db) =
      (view E db)(command_key c \<mapsto> command_entry c)"
proof -
  let ?db = "log_and_apply E c (command_key c) (command_entry c) db"
  show "view E ?db = (view E db)(command_key c \<mapsto> command_entry c)"
    by (simp add: view_def log_and_apply_eq view_update del: map_of_append)
  obtain rs where rs: "log_holds E (db_log db) rs" "db_data db = fold apply_record rs []"
    using db_invD(8) [OF inv] by blast
  have "\<exists>rs. log_holds E (db_log ?db) rs \<and> db_data ?db = fold apply_record rs []"
    using log_holds_log [OF rs(1) c] rs(2)
    by (intro exI [of _ "rs @ [log_record_new E (log_len (db_log db)) c]"])
      (simp add: log_and_apply_eq apply_record_entry)
  moreover have "db_weight E ?db < 2 ^ 60"
    using weight_update [OF db_invD(2) [OF inv], of E "command_key c" "command_entry c"] fits
    by (simp add: db_weight_def write_fits_def log_and_apply_eq)
  ultimately show "db_inv E ?db"
    using inv fits pair_ok_update [OF db_invD(3) [OF inv]]
    by (simp add: db_inv_def log_and_apply_eq distinct_update write_fits_def)
qed

lemma write_inv:
  assumes inv: "db_inv E db" and c: "command_ok E c"
    and fits: "write_fits E (command_key c) (command_entry c) db"
  obtains db' where "maintain E (log_and_apply E c (command_key c) (command_entry c) db) = (db', Inr ())"
    and "db_inv E db'" and "view E db' = (view E db)(command_key c \<mapsto> command_entry c)"
    and "length (leveled_sstable db') = length (leveled_sstable db)"
    and "sstable_threshold db' = sstable_threshold db"
    and "unat (next_sstable_id db') \<le> unat (next_sstable_id db) + length (leveled_sstable db) + 1"
    and "db_weight E db' \<le> db_weight E db + entry_weight E (command_key c, command_entry c)"
proof -
  let ?db = "log_and_apply E c (command_key c) (command_entry c) db"
  note w = log_and_apply_inv [OF assms]
  have "ids_left ?db (length (leveled_sstable ?db) + 1)"
    using fits by (simp add: write_fits_def ids_left_def log_and_apply_eq)
  from maintain_inv [OF w(1) this] obtain db' where db': "maintain E ?db = (db', Inr ())" "db_inv E db'" "same_store E ?db db'"
    "unat (next_sstable_id db') \<le> unat (next_sstable_id ?db) + length (leveled_sstable ?db) + 1" .
  have "db_weight E ?db \<le> db_weight E db + entry_weight E (command_key c, command_entry c)"
    using weight_update [OF db_invD(2) [OF inv], of E "command_key c" "command_entry c"]
    by (simp add: db_weight_def log_and_apply_eq)
  with db'(3,4) w(2) show thesis by (intro that [OF db'(1,2)]) (auto simp: same_store_def log_and_apply_eq)
qed

section \<open>Opening a directory\<close>

text \<open>\<open>ids\<close> are the ids of the table files of a directory, which has no log among its files.\<close>

definition table_files :: "files \<Rightarrow> u32 list \<Rightarrow> bool" where
  "table_files dir ids \<longleftrightarrow>
     distinct (map fst dir) \<and> log_name \<notin> dom (map_of dir) \<and> sorted_wrt (<) ids \<and>
     (\<forall>name i. name \<in> dom (map_of dir) \<longrightarrow> parse_sstable_name name = Some i \<longrightarrow>
        name = sstable_name i \<and> i \<in> set ids) \<and>
     (\<forall>i \<in> set ids. sstable_name i \<in> dom (map_of dir))"

lemma table_files_ids:
  assumes "table_files dir ids"
  shows "table_ids dir = ids"
proof -
  let ?f = "\<lambda>(name, _ :: bytes). parse_sstable_name name"
  let ?l = "List.map_filter ?f dir"
  have keys: "distinct (map fst dir)" "dom (map_of dir) = fst ` set dir"
    using assms by (auto simp: table_files_def dom_map_of_conv_image_fst)
  have inj: "inj_on (the \<circ> ?f) (set (filter (\<lambda>x. ?f x \<noteq> None) dir))"
  proof (rule inj_onI)
    fix x y
    assume x: "x \<in> set (filter (\<lambda>x. ?f x \<noteq> None) dir)" and y: "y \<in> set (filter (\<lambda>x. ?f x \<noteq> None) dir)"
      and eq: "(the \<circ> ?f) x = (the \<circ> ?f) y"
    then obtain i where "parse_sstable_name (fst x) = Some i" "parse_sstable_name (fst y) = Some i"
      by (auto split: prod.splits)
    moreover have "fst x \<in> dom (map_of dir)" "fst y \<in> dom (map_of dir)" using x y by (auto simp: keys(2))
    ultimately have "fst x = sstable_name i" "fst y = sstable_name i" using assms unfolding table_files_def by blast+
    then have "fst x = fst y" by simp
    then show "x = y" using keys(1) x y by (auto simp: distinct_map inj_on_def)
  qed
  have "distinct dir" using keys(1) by (simp add: distinct_map)
  then have "distinct ?l"
    using inj by (simp only: List.map_filter_def distinct_map distinct_filter simp_thms)
  moreover have "set ?l = set ids"
  proof -
    have "i \<in> set ?l \<longleftrightarrow> (\<exists>name \<in> fst ` set dir. parse_sstable_name name = Some i)" for i
    proof -
      have "i \<in> set ?l \<longleftrightarrow> (\<exists>x \<in> set dir. parse_sstable_name (fst x) = Some i)"
        by (force simp: List.map_filter_def image_iff split_beta)
      then show ?thesis by simp
    qed
    moreover have "(\<exists>name \<in> fst ` set dir. parse_sstable_name name = Some i) \<longleftrightarrow> i \<in> set ids" for i
      using assms parse_sstable_name [of i] unfolding table_files_def keys(2) by blast
    ultimately show ?thesis by blast
  qed
  moreover have "sorted ids" "distinct ids" using assms by (simp_all add: table_files_def strict_sorted_iff)
  ultimately show ?thesis
    by (simp add: table_ids_def sorted_distinct_set_unique)
qed

lemma load_tables_ok:
  assumes "list_all2 (\<lambda>i t. sstable_open (sstable_name i) (db_dir db) = Inr t) ids ts"
    and "leveled_sstable db = level0 # levels"
  shows "load_tables ids db = Inr (db\<lparr>leveled_sstable := (level0 @ ts) # levels,
      next_sstable_id := fold (\<lambda>i n. max n (i + 1)) ids (next_sstable_id db)\<rparr>)"
  using assms
proof (induction ids arbitrary: db ts level0)
  case (Cons i ids)
  then obtain t us where ts: "ts = t # us" and t: "sstable_open (sstable_name i) (db_dir db) = Inr t"
    and us: "list_all2 (\<lambda>i t. sstable_open (sstable_name i) (db_dir db) = Inr t) ids us"
    by (auto simp: list_all2_Cons1)
  let ?db = "db\<lparr>leveled_sstable := (level0 @ [t]) # levels, next_sstable_id := max (next_sstable_id db) (i + 1)\<rparr>"
  from Cons.IH [of ?db us "level0 @ [t]"] us t Cons.prems(2) show ?case by (simp add: ts)
qed simp

lemma open_image:
  assumes files: "table_files dir ids" and level: "0 < cfg_sstable_level cfg"
    and opens: "list_all2 (\<lambda>i t. sstable_open (sstable_name i) dir = Inr t) ids ts"
    and log: "list_all (record_ok E) rs"
  obtains log where "log_holds E log rs"
    and "open_in_dir E (fs_write log_name (concat (map (write_to E) rs)) dir) cfg =
      Inr \<lparr>db_dir = dir, db_data = fold apply_record rs [], db_log = log,
        leveled_sstable = ts # replicate (cfg_sstable_level cfg - 1) [],
        data_threshold = cfg_data_threshold cfg, sstable_threshold = cfg_sstable_threshold cfg,
        next_sstable_id = fold (\<lambda>i n. max n (i + 1)) ids 0, total_compactions = 0\<rparr>"
proof -
  let ?c = "concat (map (write_to E) rs)"
  let ?log = "logger_new E ?c"
  have holds: "log_holds E ?log rs" using log by (simp add: log_holds_def logger_new_complete)
  have "AList.delete log_name (fs_write log_name ?c dir) = dir"
    using files by (simp add: fs_write_def delete_update_same delete_id table_files_def dom_map_of_conv_image_fst)
  moreover obtain n where n: "cfg_sstable_level cfg = Suc n" using level by (cases "cfg_sstable_level cfg") auto
  ultimately show thesis
    using that [OF holds] opens log_holds_read [OF holds] table_files_ids [OF files]
    by (simp add: open_in_dir_def map_of_fs_write load_sstables_def load_tables_ok recover_def)
qed

text \<open>Opening a table file gives back the table.\<close>

lemma sstable_open_same:
  assumes "table_at E dir next t"
  shows "sstable_open (st_file_name t) dir = Inr t"
proof -
  obtain n where n: "table_ok E n (contents E t)" "st_file t = table_file E n (contents E t)"
    "st_index t = index_of E 45 (contents E t)" "st_bloom_filter t = bloom_of E n (contents E t)"
    using table_atD(1) [OF assms] by (auto simp: sstable_inv_def)
  then have "load_bloom_filter (st_file t) = Inr (st_bloom_filter t)" "load_index (st_file t) = Inr (st_index t)"
    by (simp_all add: load_bloom_table load_index_table)
  then show ?thesis using table_atD(2) [OF assms] by (simp add: sstable_open_def fs_open_def)
qed

lemma fold_max_bound:
  assumes "i \<in> set ids \<or> i < n" and "\<forall>j \<in> set ids. j < (m :: u32)"
  shows "i < fold (\<lambda>i n. max n (i + 1)) ids n"
  using assms
proof (induction ids arbitrary: n)
  case (Cons j ids)
  have "j < m" using Cons.prems by simp
  moreover have "unat m < 2 ^ 32" using unsigned_less [of m] by simp
  ultimately have "j < j + 1" using u32_less_Suc [of j] by (simp add: word_less_nat_alt)
  with Cons show ?case by (auto simp: less_max_iff_disj)
qed simp

section \<open>Surviving a restart\<close>

text \<open>The directory holds exactly the files of the tables, and newer tables have greater ids.\<close>

definition disk_ok :: "database \<Rightarrow> bool" where
  "disk_ok db \<longleftrightarrow>
     leveled_sstable db \<noteq> [] \<and>
     (\<exists>ids. table_files (db_dir db) ids \<and> map sstable_name ids = map st_file_name (rev (tables_of db)))"

lemma tables_open:
  assumes "\<forall>t \<in> set ts. table_at E dir next t" and "map sstable_name ids = map st_file_name ts"
  shows "list_all2 (\<lambda>i t. sstable_open (sstable_name i) dir = Inr t) ids ts"
proof -
  have len: "length ids = length ts" using assms(2) by (metis length_map)
  have "sstable_open (sstable_name (ids ! k)) dir = Inr (ts ! k)" if "k < length ts" for k
  proof -
    have "sstable_name (ids ! k) = st_file_name (ts ! k)" using assms(2) that len by (metis nth_map)
    moreover have "table_at E dir next (ts ! k)" using assms(1) that by simp
    ultimately show ?thesis by (simp add: sstable_open_same)
  qed
  with len show ?thesis by (simp add: list_all2_conv_all_nth)
qed

lemma search_order_replicate [simp]: "search_order (replicate n []) = []"
  by (induction n) auto

lemma table_ids_bound:
  assumes "db_inv E db" and "map sstable_name ids = map st_file_name (rev (tables_of db))"
  shows "\<forall>i \<in> set ids. i < next_sstable_id db"
proof
  fix i assume "i \<in> set ids"
  then have "sstable_name i \<in> set (map st_file_name (rev (tables_of db)))" using assms(2) by (metis image_eqI list.set_map)
  then obtain t where "t \<in> set (tables_of db)" "st_file_name t = sstable_name i" by auto
  with table_atD(3) [OF db_invD(4) [OF assms(1)]] show "i < next_sstable_id db" by force
qed

lemma reopen:
  assumes inv: "db_inv E db" and disk: "disk_ok db" and level: "0 < cfg_sstable_level cfg"
  obtains db' where "open_in_dir E (disk db) cfg = Inr db'" and "db_inv E db'" and "disk_ok db'"
    and "view E db' = view E db" and "sstable_threshold db' = cfg_sstable_threshold cfg"
    and "length (leveled_sstable db') = cfg_sstable_level cfg"
proof -
  obtain ids where files: "table_files (db_dir db) ids"
    and names: "map sstable_name ids = map st_file_name (rev (tables_of db))"
    using disk by (auto simp: disk_ok_def)
  obtain rs where rs: "log_holds E (db_log db) rs" "db_data db = fold apply_record rs []"
    using db_invD(8) [OF inv] by blast
  have at: "\<forall>t \<in> set (rev (tables_of db)). table_at E (db_dir db) (next_sstable_id db) t"
    using db_invD(4) [OF inv] by simp
  have recs: "list_all (record_ok E) rs" "log_file (db_log db) = concat (map (write_to E) rs)"
    using rs(1) by (simp_all add: log_holds_def)
  let ?levels = "rev (tables_of db) # replicate (cfg_sstable_level cfg - 1) []"
  let ?next = "fold (\<lambda>i n. max n (i + 1)) ids 0"
  obtain log where log: "log_holds E log rs"
    and op: "open_in_dir E (disk db) cfg =
      Inr \<lparr>db_dir = db_dir db, db_data = fold apply_record rs [], db_log = log, leveled_sstable = ?levels,
        data_threshold = cfg_data_threshold cfg, sstable_threshold = cfg_sstable_threshold cfg,
        next_sstable_id = ?next, total_compactions = 0\<rparr>"
    using open_image [OF files level tables_open [OF at names] recs(1)] by (metis disk_def recs(2))
  let ?db = "\<lparr>db_dir = db_dir db, db_data = fold apply_record rs [], db_log = log, leveled_sstable = ?levels,
        data_threshold = cfg_data_threshold cfg, sstable_threshold = cfg_sstable_threshold cfg,
        next_sstable_id = ?next, total_compactions = 0\<rparr>"
  have order: "search_order ?levels = tables_of db" by simp
  have "table_at E (db_dir db) ?next t" if t: "t \<in> set (tables_of db)" for t
  proof -
    obtain i where i: "st_file_name t = sstable_name i" using at t by (auto simp: table_at_def)
    then have "sstable_name i \<in> sstable_name ` set ids"
      using names t by (metis image_eqI list.set_map set_rev)
    then have "i \<in> set ids" by auto
    from fold_max_bound [of i ids 0, OF _ table_ids_bound [OF inv names]] this i at t
    show ?thesis by (auto simp: table_at_def)
  qed
  then have "db_inv E ?db"
    using inv log rs(2) by (auto simp: db_inv_def db_weight_def list_all_length)
  moreover have "disk_ok ?db" using files names by (auto simp: disk_ok_def)
  moreover have "view E ?db = view E db" using rs(2) by (simp add: view_def)
  ultimately show thesis using that op level by simp
qed

lemma table_files_new:
  assumes "table_files dir ids" and "\<forall>i \<in> set ids. i < n"
  shows "table_files (fs_write (sstable_name n) c dir) (ids @ [n])"
  using assms unfolding table_files_def
  by (auto simp: map_of_fs_write sorted_wrt_append) (simp_all add: fs_write_def distinct_update)

lemma table_files_rewrite:
  assumes "table_files dir ids" and "n \<in> set ids"
  shows "table_files (fs_write (sstable_name n) c dir) ids"
  using assms unfolding table_files_def
  by (auto simp: map_of_fs_write) (simp_all add: fs_write_def distinct_update)

lemma table_files_remove:
  assumes files: "table_files dir ids" and dist: "distinct (map fst dir')"
    and dir': "\<And>p. map_of dir' p = (if p \<in> N then None else map_of dir p)"
  shows "table_files dir' (filter (\<lambda>i. sstable_name i \<notin> N) ids)"
proof -
  have dom: "dom (map_of dir') = dom (map_of dir) - N" by (auto simp: dir' split: if_splits)
  show ?thesis using files dist unfolding table_files_def dom by (auto intro: sorted_wrt_filter)
qed

lemma flush_disk_ok:
  assumes inv: "db_inv E db" and disk: "disk_ok db" and ids: "ids_left db 1"
    and run: "flush_memory_to_disk E db = (db', r)"
  shows "disk_ok db'"
proof (cases "db_data db = []")
  case True
  with run disk show ?thesis by (simp add: flush_memory_to_disk_def)
next
  case False
  let ?n = "next_sstable_id db"
  have room: "unat ?n + 1 < 2 ^ 32" using ids by (simp add: ids_left_def)
  obtain level0 levels where ls: "leveled_sstable db = level0 # levels"
    using disk by (cases "leveled_sstable db") (auto simp: disk_ok_def)
  obtain t where t: "st_file_name t = sstable_name ?n"
    and db': "db' = db\<lparr>next_sstable_id := ?n + 1,
        db_dir := fs_write (st_file_name t) (st_file t) (writer_create (st_file_name t) (db_dir db)),
        leveled_sstable := (level0 @ [t]) # levels, db_log := logger_truncate (db_log db), db_data := []\<rparr>"
    by (rule flush_ok [OF inv False room]) (use run ls in \<open>simp add: Let_def\<close>)
  obtain js where files: "table_files (db_dir db) js"
    and names: "map sstable_name js = map st_file_name (rev (tables_of db))"
    using disk by (auto simp: disk_ok_def)
  have "table_files (db_dir db') (js @ [?n])"
    using table_files_rewrite [OF table_files_new [OF files table_ids_bound [OF inv names]], of ?n]
    by (simp add: db' t writer_create_def)
  moreover have "map sstable_name (js @ [?n]) = map st_file_name (rev (tables_of db'))"
    using names by (simp add: db' ls t)
  ultimately show ?thesis by (auto simp: disk_ok_def db')
qed

lemma compact_level0_disk_ok:
  assumes inv: "db_inv E db" and disk: "disk_ok db" and ids: "ids_left db 1"
    and run: "compact_level E 0 db = (db', r)"
  shows "disk_ok db'"
proof (cases "1 < length (leveled_sstable db) \<and> leveled_sstable db ! 0 \<noteq> []")
  case False
  then have "compact_level E 0 db = (db, Inr ())" by (auto simp: compact_level_def Let_def)
  with run disk show ?thesis by simp
next
  case True
  then have level: "0 + 1 < length (leveled_sstable db)" and ne: "leveled_sstable db ! 0 \<noteq> []" by auto
  let ?n = "next_sstable_id db" and ?cur = "leveled_sstable db ! 0" and ?nxt = "leveled_sstable db ! 1"
  let ?N = "st_file_name ` set (?cur @ ?nxt)"
  obtain t dir where db': "db' = db\<lparr>next_sstable_id := ?n + 1, db_dir := dir,
        leveled_sstable := (leveled_sstable db)[0 := [], 1 := [t]], total_compactions := total_compactions db + 1\<rparr>"
    and t: "st_file_name t = sstable_name ?n"
    and dir: "\<And>p. map_of dir p = (if p \<in> ?N then None else ((map_of (db_dir db))(st_file_name t \<mapsto> st_file t)) p)"
    and dist: "distinct (map fst (db_dir db)) \<longrightarrow> distinct (map fst dir)"
    by (rule compact_level_ok [OF inv ids level ne]) (use run in \<open>simp add: fun_eq_iff\<close>)
  obtain js where files: "table_files (db_dir db) js"
    and names: "map sstable_name js = map st_file_name (rev (tables_of db))"
    using disk by (auto simp: disk_ok_def)
  let ?below = "search_order (drop 2 (leveled_sstable db))"
  have old: "tables_of db = rev ?cur @ rev ?nxt @ ?below" and new: "tables_of db' = t # ?below"
    using search_order_split [OF level] search_order_compacted [OF level]
    by (simp_all add: db' numeral_2_eq_2)
  have "table_files dir (filter (\<lambda>i. sstable_name i \<notin> ?N) (js @ [?n]))"
  proof (rule table_files_remove)
    show "table_files (fs_write (sstable_name ?n) (st_file t) (db_dir db)) (js @ [?n])"
      by (rule table_files_new [OF files table_ids_bound [OF inv names]])
    show "distinct (map fst dir)" using dist files by (simp add: table_files_def)
  qed (simp add: dir t map_of_fs_write)
  moreover have "map sstable_name (filter (\<lambda>i. sstable_name i \<notin> ?N) (js @ [?n])) =
      map st_file_name (rev (tables_of db'))"
  proof -
    have "set (?cur @ ?nxt) \<subseteq> set (tables_of db)" by (auto simp: old)
    then have "st_file_name t \<notin> ?N" using fresh_name [OF inv] t by (metis imageE subsetD)
    moreover have "filter (\<lambda>m. m \<notin> ?N) (map sstable_name js) = map st_file_name (rev ?below)"
    proof -
      have "\<forall>m \<in> set (map st_file_name (rev ?below)). m \<notin> ?N"
        using db_invD(5) [OF inv] by (auto simp: old)
      then show ?thesis
        unfolding names old by (simp add: filter_id_conv filter_empty_conv image_iff del: set_append) auto
    qed
    ultimately show ?thesis by (simp add: new t filter_map comp_def)
  qed
  ultimately show ?thesis using level by (auto simp: disk_ok_def db')
qed

text \<open>With a threshold of at least two only level 0 is ever compacted.\<close>

lemma compact_levels_none: "list_all (\<lambda>(level, should). \<not> should) ls \<Longrightarrow> compact_levels E ls db = (db, Inr ())"
  by (induction E ls db rule: compact_levels.induct) auto

lemma maybe_compact_level0:
  assumes inv: "db_inv E db" and thr: "2 \<le> sstable_threshold db"
  shows "maybe_compact E db =
    (if length (leveled_sstable db) < 2 \<or> length (leveled_sstable db ! 0) < sstable_threshold db
     then (db, Inr ()) else compact_level E 0 db)"
proof (cases "length (leveled_sstable db) < 2")
  case False
  let ?ls = "leveled_sstable db"
  let ?f = "\<lambda>level. length (?ls ! level) \<ge> sstable_threshold db"
  let ?n = "length ?ls - 1"
  have rest: "\<not> ?f k" if "1 \<le> k" "k < ?n" for k
  proof -
    have "?ls ! k = tl ?ls ! (k - 1)" using that by (simp add: nth_tl)
    then have "length (?ls ! k) \<le> 1" using db_invD(6) [OF inv] that by (simp add: list_all_length)
    with thr show ?thesis by simp
  qed
  have "zip [0..<length (map ?f [0..<?n])] (map ?f [0..<?n]) = map (\<lambda>k. (k, ?f k)) [0..<?n]"
    by (simp add: zip_map2 zip_same_conv_map)
  then have "maybe_compact E db = compact_levels E (map (\<lambda>k. (k, ?f k)) [0..<?n]) db"
    by (simp only: maybe_compact_def Let_def False if_False)
  moreover have "[0..<?n] = 0 # [1..<?n]" using False by (simp add: upt_conv_Cons)
  moreover have "compact_levels E (map (\<lambda>k. (k, ?f k)) [1..<?n]) db1 = (db1, Inr ())" for db1
    using rest by (intro compact_levels_none) (auto simp: list_all_iff)
  ultimately show ?thesis
    using False by (simp split: prod.splits sum.splits)
qed (simp add: maybe_compact_def)

lemma maintain_disk_ok:
  assumes inv: "db_inv E db" and disk: "disk_ok db" and ids: "ids_left db (length (leveled_sstable db) + 1)"
    and thr: "2 \<le> sstable_threshold db" and run: "maintain E db = (db', r)"
  shows "disk_ok db'"
proof -
  have left: "ids_left db 1" using ids by (simp add: ids_left_def)
  obtain db1 where f: "maybe_flush E db = (db1, Inr ())" and inv1: "db_inv E db1" and same: "same_store E db db1"
    and nx: "unat (next_sstable_id db1) \<le> unat (next_sstable_id db) + 1" and disk1: "disk_ok db1"
  proof (cases "length (db_data db) \<ge> data_threshold db")
    case True
    from flush_inv [OF inv left] flush_disk_ok [OF inv disk left] True that show ?thesis by (metis maybe_flush_def)
  qed (use that inv disk in \<open>simp add: maybe_flush_def\<close>)
  have "leveled_sstable db1 \<noteq> []" using disk1 by (simp add: disk_ok_def)
  then have left1: "ids_left db1 1" using ids nx same
    by (cases "leveled_sstable db1") (auto simp: ids_left_def same_store_def)
  have "maybe_compact E db1 = (db', r)" using run f by (simp add: maintain_def)
  moreover have "2 \<le> sstable_threshold db1" using thr same by (simp add: same_store_def)
  ultimately show ?thesis
    using maybe_compact_level0 [OF inv1] compact_level0_disk_ok [OF inv1 disk1 left1] disk1
    by (auto split: if_splits)
qed

section \<open>Crash points\<close>

text \<open>Opening a directory with the tables \<open>ts\<close>, newest first, and the records \<open>rs\<close> in its log.\<close>

lemma crash_open:
  assumes files: "table_files dir js" and names: "map sstable_name js = map st_file_name (rev ts)"
    and at: "\<forall>t \<in> set ts. table_at E dir n t" and log: "log_holds E lg rs" and level: "0 < cfg_sstable_level cfg"
  shows "\<exists>db. open_in_dir E (fs_write log_name (log_file lg) dir) cfg = Inr db \<and>
    (\<forall>key. db_get E key db =
       Inr (entry_value (map_of (fold apply_record rs [] @ concat (map (contents E) ts)) key)))"
proof -
  have recs: "list_all (record_ok E) rs" "log_file lg = concat (map (write_to E) rs)"
    using log by (simp_all add: log_holds_def)
  have "\<forall>t \<in> set (rev ts). table_at E dir n t" using at by simp
  from open_image [OF files level tables_open [OF this names] recs(1)] obtain db where
    op: "open_in_dir E (fs_write log_name (log_file lg) dir) cfg = Inr db"
    and db: "db_data db = fold apply_record rs []"
      "leveled_sstable db = rev ts # replicate (cfg_sstable_level cfg - 1) []"
    by (metis database.select_convs(2,4) recs(2))
  have order: "tables_of db = ts" by (simp add: db)
  have "db_get E key db = Inr (store E db key)" for key
    by (rule db_get_tables) (use at order table_atD(1) in blast)
  with op show ?thesis by (simp add: store_def view_def db)
qed

lemma map_add_twice: "m ++ d ++ d = m ++ d"
  by (rule ext) (simp add: map_add_def split: option.splits)

text \<open>Entries behind those that already cover their keys do not matter.\<close>

lemma map_of_shadow:
  assumes "map_of m = map_of (concat (map c xs))" and "set ys \<subseteq> set xs"
  shows "map_of (m @ concat (map c ys) @ r) = map_of (concat (map c xs) @ r)"
proof
  fix k
  show "map_of (m @ concat (map c ys) @ r) k = map_of (concat (map c xs) @ r) k"
  proof (cases "map_of m k")
    case None
    then have "map_of (concat (map c xs)) k = None" using assms(1) by simp
    then have "map_of (concat (map c ys)) k = None" using assms(2) by (auto simp: map_of_concat_None)
    with None assms(1) show ?thesis by (simp add: map_add_def)
  next
    case (Some e)
    with assms(1) show ?thesis by (simp add: map_add_def)
  qed
qed

lemma compaction_image:
  assumes inv: "db_inv E db" and disk: "disk_ok db" and ids: "ids_left db 1"
    and level: "1 < length (leveled_sstable db)" and ne: "leveled_sstable db ! 0 \<noteq> []"
    and run: "compact_level E 0 db = (db', r)" and t: "t = last (leveled_sstable db' ! 1)"
    and P: "P = take j (map st_file_name (leveled_sstable db ! 0 @ leveled_sstable db ! 1))"
    and dir: "dir = fst (remove_files P (fs_write (st_file_name t) (st_file t) (db_dir db)))"
  obtains js where "table_files dir js"
    and "map sstable_name js =
      map st_file_name (rev (t # filter (\<lambda>u. st_file_name u \<notin> set P) (tables_of db)))"
    and "\<forall>u \<in> set (t # filter (\<lambda>u. st_file_name u \<notin> set P) (tables_of db)).
      table_at E dir (next_sstable_id db + 1) u"
    and "map_of (contents E t) = map_of (concat (map (contents E)
      (rev (leveled_sstable db ! 0) @ rev (leveled_sstable db ! 1))))"
proof -
  let ?n = "next_sstable_id db" and ?dir1 = "fs_write (st_file_name t) (st_file t) (db_dir db)"
  let ?ts = "leveled_sstable db ! 0 @ leveled_sstable db ! 1"
  have level1: "0 + 1 < length (leveled_sstable db)" using level by simp
  have tt: "sstable_inv E t" "st_file_name t = sstable_name ?n"
    "map_of (contents E t) = map_of (concat (map (contents E)
      (rev (leveled_sstable db ! 0) @ rev (leveled_sstable db ! 1))))"
    by (rule compact_level_ok [OF inv ids level1 ne], use run t level in \<open>simp add: nth_list_update\<close>)+
  note pre = compaction_pre [OF inv level1 ne, simplified]
  have P_ts: "set P \<subseteq> st_file_name ` set ?ts" by (auto simp: P dest!: in_set_takeD)
  have "distinct (map st_file_name ?ts)" using compaction_pre(3) [OF inv level1 ne] by simp
  then have "distinct P" unfolding P by (rule distinct_take)
  moreover have "\<forall>p \<in> set P. map_of ?dir1 p \<noteq> None"
    using P_ts pre(2) table_atD(2) [OF db_invD(4) [OF inv]] by (fastforce simp: map_of_fs_write)
  ultimately obtain dir' where rm: "remove_files P ?dir1 = (dir', Inr ())"
    and map: "map_of dir' = (\<lambda>p. if p \<in> set P then None else map_of ?dir1 p)"
    and dist: "distinct (map fst ?dir1) \<longrightarrow> distinct (map fst dir')"
    using remove_files_ok by blast
  then have dir': "dir = dir'" using dir by simp
  obtain js where files: "table_files (db_dir db) js"
    and names: "map sstable_name js = map st_file_name (rev (tables_of db))"
    using disk by (auto simp: disk_ok_def)
  have fresh: "sstable_name ?n \<notin> set P" using P_ts pre(2) fresh_name [OF inv] by fastforce
  have files1: "table_files ?dir1 (js @ [?n])"
    unfolding tt(2) by (rule table_files_new [OF files table_ids_bound [OF inv names]])
  have "table_files dir (filter (\<lambda>i. sstable_name i \<notin> set P) (js @ [?n]))"
    using files1 dist by (intro table_files_remove [OF files1]) (simp_all add: dir' map table_files_def)
  moreover have "map sstable_name (filter (\<lambda>i. sstable_name i \<notin> set P) (js @ [?n])) =
      map st_file_name (rev (t # filter (\<lambda>u. st_file_name u \<notin> set P) (tables_of db)))"
  proof -
    have "map sstable_name (filter (\<lambda>i. sstable_name i \<notin> set P) js) =
        filter (\<lambda>p. p \<notin> set P) (map st_file_name (rev (tables_of db)))"
      by (simp add: filter_map comp_def flip: names)
    then show ?thesis using fresh tt(2) by (simp add: filter_map comp_def rev_filter)
  qed
  moreover have room: "unat ?n + 1 < 2 ^ 32" using ids by (simp add: ids_left_def)
  have "table_at E dir (?n + 1) u" if "u \<in> set (tables_of db)" "st_file_name u \<notin> set P" for u
    using table_at_write [OF db_invD(4) [OF inv that(1)] room, of "st_file t"] that(2)
    by (simp add: table_at_def dir' map tt(2))
  moreover have "table_at E dir (?n + 1) t"
    using tt fresh u32_less_Suc [OF room] by (auto simp: table_at_def dir' map map_of_fs_write)
  ultimately show thesis using that tt(3) by auto
qed

section \<open>Runs\<close>

definition config_ok :: "config \<Rightarrow> bool" where
  "config_ok cfg \<longleftrightarrow> 0 < cfg_sstable_level cfg \<and> 2 \<le> cfg_sstable_threshold cfg"

text \<open>
  The databases that a client can make from an empty directory by inserts, deletes and restarts,
  each with the map that the client expects.
\<close>

inductive db_run :: "'x ext_scheme \<Rightarrow> database \<Rightarrow> (rstring \<rightharpoonup> val) \<Rightarrow> bool" for E where
  run_start: "bloom_sizing_ok E \<Longrightarrow> config_ok cfg \<Longrightarrow> open_in_dir E [] cfg = Inr db \<Longrightarrow>
     db_run E db Map.empty"
| run_insert: "db_run E db m \<Longrightarrow> command_ok E (CmdSet key v) \<Longrightarrow> write_fits E key (EntrySet v) db \<Longrightarrow>
     db_insert E key v db = (db', r) \<Longrightarrow> db_run E db' (m(key \<mapsto> v))"
| run_delete: "db_run E db m \<Longrightarrow> command_ok E (CmdDelete key) \<Longrightarrow> write_fits E key EntryDelete db \<Longrightarrow>
     db_delete E key db = (db', r) \<Longrightarrow> db_run E db' (m(key := None))"
| run_restart: "db_run E db m \<Longrightarrow> config_ok cfg \<Longrightarrow> open_in_dir E (disk db) cfg = Inr db' \<Longrightarrow>
     db_run E db' m"

definition run_inv :: "'x ext_scheme \<Rightarrow> database \<Rightarrow> bool" where
  "run_inv E db \<longleftrightarrow> db_inv E db \<and> disk_ok db \<and> 2 \<le> sstable_threshold db"

lemma write_disk_ok:
  assumes run: "run_inv E db" and c: "command_ok E c"
    and fits: "write_fits E (command_key c) (command_entry c) db"
  obtains db' where "maintain E (log_and_apply E c (command_key c) (command_entry c) db) = (db', Inr ())"
    and "run_inv E db'" and "view E db' = (view E db)(command_key c \<mapsto> command_entry c)"
proof -
  have inv: "db_inv E db" and disk: "disk_ok db" and thr: "2 \<le> sstable_threshold db"
    using run by (simp_all add: run_inv_def)
  let ?db = "log_and_apply E c (command_key c) (command_entry c) db"
  obtain db' where db': "maintain E ?db = (db', Inr ())" "db_inv E db'"
    "view E db' = (view E db)(command_key c \<mapsto> command_entry c)"
    "sstable_threshold db' = sstable_threshold db"
    by (rule write_inv [OF inv c fits])
  have "disk_ok ?db" using disk by (simp add: disk_ok_def log_and_apply_eq)
  moreover have "ids_left ?db (length (leveled_sstable ?db) + 1)"
    using fits by (simp add: write_fits_def ids_left_def log_and_apply_eq)
  ultimately have "disk_ok db'"
    using maintain_disk_ok [OF log_and_apply_inv(1) [OF inv c fits] _ _ _ db'(1)] thr
    by (simp add: log_and_apply_eq)
  with db' thr that show thesis by (simp add: run_inv_def)
qed

lemma open_empty:
  assumes "bloom_sizing_ok E" and "0 < cfg_sstable_level cfg"
  obtains db where "open_in_dir E [] cfg = Inr db" and "db_inv E db" and "disk_ok db"
    and "view E db = Map.empty" and "sstable_threshold db = cfg_sstable_threshold cfg"
    and "next_sstable_id db = 0" and "db_weight E db = 0" and "length (leveled_sstable db) = cfg_sstable_level cfg"
proof -
  let ?db = "\<lparr>db_dir = [], db_data = [], db_log = \<lparr>log_file = [], log_len = 0\<rparr>,
    leveled_sstable = replicate (cfg_sstable_level cfg) [], data_threshold = cfg_data_threshold cfg,
    sstable_threshold = cfg_sstable_threshold cfg, next_sstable_id = 0, total_compactions = 0\<rparr>"
  have rd: "read_records E \<lparr>log_file = [], log_len = 0\<rparr> = ([], \<lparr>log_file = [], log_len = 0\<rparr>)"
    by (rule log_holds_read) (simp add: log_holds_def)
  have "table_ids [] = []" by (simp add: table_ids_def List.map_filter_def)
  then have "open_in_dir E [] cfg = Inr ?db"
    using assms(2) by (simp add: open_in_dir_def load_sstables_def recover_def rd)
  moreover have "db_inv E ?db"
    using assms by (auto simp: db_inv_def db_weight_def list_all_length log_holds_def intro!: exI [of _ "[]"])
  moreover have "disk_ok ?db" using assms(2) by (auto simp: disk_ok_def table_files_def)
  ultimately show thesis using that by (simp add: view_def db_weight_def)
qed

lemma run_inv_run: "db_run E db m \<Longrightarrow> run_inv E db \<and> store E db = m"
proof (induction rule: db_run.induct)
  case (run_start cfg db)
  from run_start(2) have cfg: "0 < cfg_sstable_level cfg" "2 \<le> cfg_sstable_threshold cfg"
    by (simp_all add: config_ok_def)
  show ?case
    by (rule open_empty [OF run_start(1) cfg(1)])
      (use run_start(3) cfg(2) in \<open>simp add: run_inv_def store_def entry_value_def\<close>)
next
  case (run_insert db m key v db' r)
  then have "run_inv E db" "command_ok E (CmdSet key v)"
    "write_fits E (command_key (CmdSet key v)) (command_entry (CmdSet key v)) db" by simp_all
  then show ?case
    by (rule write_disk_ok)
      (use run_insert in \<open>auto simp: db_insert_def store_def entry_value_def fun_eq_iff\<close>)
next
  case (run_delete db m key db' r)
  then have "run_inv E db" "command_ok E (CmdDelete key)"
    "write_fits E (command_key (CmdDelete key)) (command_entry (CmdDelete key)) db" by simp_all
  then show ?case
    by (rule write_disk_ok)
      (use run_delete in \<open>auto simp: db_delete_def store_def entry_value_def fun_eq_iff\<close>)
next
  case (run_restart db m cfg db')
  then have "db_inv E db" "disk_ok db" "0 < cfg_sstable_level cfg"
    by (simp_all add: run_inv_def config_ok_def)
  then show ?case
    by (rule reopen) (use run_restart in \<open>auto simp: run_inv_def config_ok_def store_def\<close>)
qed

section \<open>Properties\<close>

text \<open>
  C1. The database implements a map. For every sequence of inserts, deletes and restarts on a
  database that started empty, across all the flushes and compactions that these cause, \<open>get\<close>
  returns for every key the value of the last write to the key, or nothing after a delete.
\<close>

theorem database_refines_map:
  assumes "db_run E db m"
  shows "db_get E key db = Inr (m key)"
  using run_inv_run [OF assms] db_get_view [of E db key] by (simp add: run_inv_def)

text \<open>A first insert into an empty database, for the witnesses.\<close>

lemma sample_run:
  obtains db where "db_run sample_ext db [[107] \<mapsto> VInt 5]" and "run_inv sample_ext db"
proof -
  have e: "bloom_sizing_ok sample_ext" by simp
  have "0 < cfg_sstable_level config_default" by (simp add: config_default_def)
  from open_empty [OF e this] obtain db0 where db0: "open_in_dir sample_ext [] config_default = Inr db0"
    "next_sstable_id db0 = 0" "db_weight sample_ext db0 = 0" "length (leveled_sstable db0) = 2"
    by (auto simp: config_default_def)
  have run0: "db_run sample_ext db0 Map.empty"
    by (rule run_start [OF e _ db0(1)]) (simp add: config_ok_def config_default_def)
  have "write_fits sample_ext [107] (EntrySet (VInt 5)) db0"
    by (simp add: write_fits_def ids_left_def db0 pair_ok_def key_ok_def val_fits_def entry_weight_def
        i64_to_string_def nat_dec.simps)
  moreover obtain db r where "db_insert sample_ext [107] (VInt 5) db0 = (db, r)" by fastforce
  moreover have "command_ok sample_ext (CmdSet [107] (VInt 5))"
    by (simp add: key_ok_def val_fits_def i64_to_string_def nat_dec.simps)
  ultimately have "db_run sample_ext db (Map.empty([107] \<mapsto> VInt 5))"
    using run_insert [OF run0] by blast
  with run_inv_run that show thesis by blast
qed

theorem database_refines_map_witness:
  "\<exists>db. db_run sample_ext db [[107] \<mapsto> VInt 5] \<and> db_get sample_ext [107] db = Inr (Some (VInt 5))"
proof -
  obtain db where run: "db_run sample_ext db [[107] \<mapsto> VInt 5]" by (rule sample_run)
  with database_refines_map [OF run, of "[107]"] show ?thesis by auto
qed

text \<open>
  C2. Durability: a database that a client has written to can always be opened again from what it
  left on disk, under any admissible configuration, and then answers every \<open>get\<close> as before.
\<close>

theorem database_survives_restart:
  assumes "db_run E db m" and "config_ok cfg"
  shows "\<exists>db'. open_in_dir E (disk db) cfg = Inr db' \<and> (\<forall>key. db_get E key db' = db_get E key db)"
proof -
  have run: "db_inv E db" "disk_ok db" using run_inv_run [OF assms(1)] by (simp_all add: run_inv_def)
  have "0 < cfg_sstable_level cfg" using assms(2) by (simp add: config_ok_def)
  from reopen [OF run this] obtain db' where "open_in_dir E (disk db) cfg = Inr db'" "db_inv E db'"
    "view E db' = view E db" by metis
  with run(1) show ?thesis by (simp add: db_get_view store_def)
qed

theorem database_survives_restart_witness:
  "\<exists>db db'. open_in_dir sample_ext (disk db) config_default = Inr db' \<and>
     db_get sample_ext [107] db' = Inr (Some (VInt 5))"
proof -
  obtain db where run: "db_run sample_ext db [[107] \<mapsto> VInt 5]" and inv: "run_inv sample_ext db"
    by (rule sample_run)
  have "config_ok config_default" by (simp add: config_ok_def config_default_def)
  from database_survives_restart [OF run this] show ?thesis
    using db_get_view [of sample_ext db] run_inv_run [OF run] by (fastforce simp: run_inv_def)
qed

text \<open>
  On any database that satisfies the invariant, with any thresholds and levels, an insert that
  fits succeeds, keeps the invariant, and changes the result of \<open>get\<close> for its key only.
\<close>

theorem insert_get:
  assumes "db_inv E db" and "command_ok E (CmdSet key v)" and "write_fits E key (EntrySet v) db"
  shows "\<exists>db'. db_insert E key v db = (db', Inr ()) \<and> db_inv E db' \<and>
    (\<forall>k. db_get E k db' = (if k = key then Inr (Some v) else db_get E k db))"
proof -
  have "write_fits E (command_key (CmdSet key v)) (command_entry (CmdSet key v)) db" using assms(3) by simp
  from write_inv [OF assms(1,2) this] obtain db' where "db_insert E key v db = (db', Inr ())"
    "db_inv E db'" "view E db' = (view E db)(key \<mapsto> EntrySet v)"
    by (auto simp: db_insert_def)
  with assms(1) show ?thesis by (auto simp: db_get_view store_def entry_value_def)
qed

text \<open>
  A delete hides the key, whichever level its value is in, and no other key.
\<close>

theorem delete_get:
  assumes "db_inv E db" and "command_ok E (CmdDelete key)" and "write_fits E key EntryDelete db"
  shows "\<exists>db'. db_delete E key db = (db', Inr ()) \<and> db_inv E db' \<and>
    (\<forall>k. db_get E k db' = (if k = key then Inr None else db_get E k db))"
proof -
  have "write_fits E (command_key (CmdDelete key)) (command_entry (CmdDelete key)) db" using assms(3) by simp
  from write_inv [OF assms(1,2) this] obtain db' where "db_delete E key db = (db', Inr ())"
    "db_inv E db'" "view E db' = (view E db)(key \<mapsto> EntryDelete)"
    by (auto simp: db_delete_def)
  with assms(1) show ?thesis by (auto simp: db_get_view store_def entry_value_def)
qed

text \<open>An empty database, for the witnesses.\<close>

lemma sample_db:
  obtains db where "db_inv sample_ext db" and "disk_ok db"
    and "\<And>key entry. pair_ok sample_ext (key, entry) \<Longrightarrow> entry_weight sample_ext (key, entry) < 100 \<Longrightarrow>
      write_fits sample_ext key entry db"
    and "next_sstable_id db = 0" and "length (leveled_sstable db) = 2"
proof -
  have e: "bloom_sizing_ok sample_ext" by simp
  have "0 < cfg_sstable_level config_default" by (simp add: config_default_def)
  from open_empty [OF e this] obtain db where db: "db_inv sample_ext db" "disk_ok db"
    and small: "next_sstable_id db = 0" "db_weight sample_ext db = 0" "length (leveled_sstable db) = 2"
    by (metis config_default_def config.select_convs(1))
  show thesis
    by (rule that [OF db]) (simp_all add: write_fits_def ids_left_def small)
qed

lemmas sample_write = key_ok_def val_fits_def pair_ok_def entry_weight_def i64_to_string_def nat_dec.simps

theorem insert_get_witness:
  "\<exists>db db'. db_insert sample_ext [107] (VInt 5) db = (db', Inr ()) \<and>
     db_get sample_ext [107] db' = Inr (Some (VInt 5))"
proof -
  obtain db where "db_inv sample_ext db" "write_fits sample_ext [107] (EntrySet (VInt 5)) db"
    by (rule sample_db) (simp add: sample_write)
  with insert_get [of sample_ext db "[107]" "VInt 5"] show ?thesis by (fastforce simp: sample_write)
qed

theorem delete_get_witness:
  "\<exists>db db'. db_delete sample_ext [107] db = (db', Inr ()) \<and> db_get sample_ext [107] db' = Inr None"
proof -
  obtain db where "db_inv sample_ext db" "write_fits sample_ext [107] EntryDelete db"
    by (rule sample_db) (simp add: sample_write)
  with delete_get [of sample_ext db "[107]"] show ?thesis by (fastforce simp: sample_write)
qed

text \<open>
  C25. A compaction of any level succeeds, keeps the invariant, empties the level, leaves at most one
  table in the next one, and changes no answer of \<open>get\<close>.
\<close>

theorem compaction_preserves_get:
  assumes "db_inv E db" and "ids_left db 1"
  shows "\<exists>db'. compact_level E level db = (db', Inr ()) \<and> db_inv E db' \<and>
    (\<forall>key. db_get E key db' = db_get E key db) \<and>
    (level + 1 < length (leveled_sstable db) \<longrightarrow>
       leveled_sstable db' ! level = [] \<and> length (leveled_sstable db' ! (level + 1)) \<le> 1)"
proof -
  from compact_level_inv [OF assms] obtain db' where
    run: "compact_level E level db = (db', Inr ())" and inv: "db_inv E db'" and same: "same_store E db db'"
    by metis
  have "leveled_sstable db' ! level = [] \<and> length (leveled_sstable db' ! (level + 1)) \<le> 1"
    if level: "level + 1 < length (leveled_sstable db)"
  proof (cases "leveled_sstable db ! level = []")
    case True
    then have "db' = db" using run level by (simp add: compact_level_def Let_def)
    moreover have "leveled_sstable db ! (level + 1) = tl (leveled_sstable db) ! level"
      using level by (simp add: nth_tl)
    ultimately show ?thesis using True db_invD(6) [OF assms(1)] level by (simp add: list_all_length)
  next
    case False
    show ?thesis
      by (rule compact_level_ok [OF assms level False]) (use run level in \<open>auto simp: nth_list_update\<close>)
  qed
  with run inv same assms(1) show ?thesis by (simp add: db_get_view store_def same_store_def)
qed

text \<open>
  A flush succeeds, keeps the invariant and every answer of \<open>get\<close>; when there is a level
  for the table, it leaves the memtable and the log empty.
\<close>

theorem flush_preserves_get:
  assumes "db_inv E db" and "ids_left db 1"
  shows "\<exists>db'. flush_memory_to_disk E db = (db', Inr ()) \<and> db_inv E db' \<and>
    (\<forall>key. db_get E key db' = db_get E key db) \<and>
    (leveled_sstable db \<noteq> [] \<and> db_data db \<noteq> [] \<longrightarrow> db_data db' = [] \<and> log_file (db_log db') = [])"
proof -
  from flush_inv [OF assms] obtain db' where
    run: "flush_memory_to_disk E db = (db', Inr ())" and inv: "db_inv E db'" and same: "same_store E db db'"
    by metis
  have "db_data db' = [] \<and> log_file (db_log db') = []"
    if "leveled_sstable db \<noteq> []" and data: "db_data db \<noteq> []"
  proof -
    have room: "unat (next_sstable_id db) + 1 < 2 ^ 32" using assms(2) by (simp add: ids_left_def)
    obtain l ls where "leveled_sstable db = l # ls" using \<open>leveled_sstable db \<noteq> []\<close> by (cases "leveled_sstable db") auto
    then show ?thesis
      by (rule_tac flush_ok [OF assms(1) data room]) (use run in \<open>auto simp: Let_def logger_truncate_def\<close>)
  qed
  with run inv same assms(1) show ?thesis by (simp add: db_get_view store_def same_store_def)
qed

text \<open>
  C24. Crash safety of a flush: a crash after the table is complete and before the log is truncated
  leaves the table and the log on disk. Opening this directory gives the answers of the database
  before the flush.
\<close>

theorem flush_crash_safe:
  assumes inv: "db_inv E db" and disk: "disk_ok db" and ids: "ids_left db 1"
    and run: "flush_memory_to_disk E db = (db', r)" and cfg: "config_ok cfg"
  shows "\<exists>db''. open_in_dir E (fs_write log_name (log_file (db_log db)) (db_dir db')) cfg = Inr db'' \<and>
    (\<forall>key. db_get E key db'' = db_get E key db)"
proof -
  obtain rs where rs: "log_holds E (db_log db) rs" "db_data db = fold apply_record rs []"
    using db_invD(8) [OF inv] by blast
  have level: "0 < cfg_sstable_level cfg" using cfg by (simp add: config_ok_def)
  from flush_inv [OF inv ids] run have inv': "db_inv E db'" by (metis prod.inject)
  from flush_disk_ok [OF inv disk ids run] obtain js where files: "table_files (db_dir db') js"
    and names: "map sstable_name js = map st_file_name (rev (tables_of db'))" by (auto simp: disk_ok_def)
  have tables: "map_of (db_data db @ concat (map (contents E) (tables_of db'))) = view E db"
  proof (cases "db_data db = []")
    case True
    then show ?thesis using run by (simp add: flush_memory_to_disk_def view_def)
  next
    case False
    have room: "unat (next_sstable_id db) + 1 < 2 ^ 32" using ids by (simp add: ids_left_def)
    obtain l ls where ls: "leveled_sstable db = l # ls"
      using disk by (cases "leveled_sstable db") (auto simp: disk_ok_def)
    show ?thesis
      by (rule flush_ok [OF inv False room]) (use run ls in \<open>auto simp: Let_def view_def map_add_twice\<close>)
  qed
  have "\<forall>t \<in> set (tables_of db'). table_at E (db_dir db') (next_sstable_id db') t"
    using db_invD(4) [OF inv'] by blast
  from crash_open [OF files names this rs(1) level] show ?thesis
    using inv tables by (simp add: db_get_view store_def rs(2) del: map_of_append)
qed

text \<open>With all its steps a compaction leaves the directory of its result.\<close>

lemma removed_upto_all: "length paths \<le> steps \<Longrightarrow> removed_upto steps paths dir = fst (remove_files paths dir)"
  by (induction steps paths dir rule: removed_upto.induct) (auto split: sum.splits)

lemma removed_upto_take: "removed_upto steps paths dir = fst (remove_files (take steps paths) dir)"
  by (induction steps paths dir rule: removed_upto.induct) (auto split: sum.splits)

lemma compact_level_files_complete:
  assumes "length (leveled_sstable db ! level @ leveled_sstable db ! (level + 1)) < steps"
  shows "compact_level_files E steps level db = db_dir (fst (compact_level E level db))"
proof -
  obtain b where "steps = Suc b" "length (leveled_sstable db ! level @ leveled_sstable db ! (level + 1)) \<le> b"
    using assms by (cases steps) auto
  then show ?thesis
    by (auto simp: compact_level_files_def compact_level_def publish_compacted_def removed_upto_all Let_def
        split: sum.splits prod.splits)
qed

lemma compact_level_files_table:
  assumes "level + 1 < length (leveled_sstable db)" and "leveled_sstable db ! level \<noteq> []"
    and run: "compact_level E level db = (db', Inr ())" and t: "t = last (leveled_sstable db' ! (level + 1))"
  shows "compact_level_files E (Suc steps) level db =
    fst (remove_files (take steps (map st_file_name (leveled_sstable db ! level @ leveled_sstable db ! (level + 1))))
      (fs_write (st_file_name t) (st_file t) (db_dir db)))"
proof -
  let ?cur = "leveled_sstable db ! level" and ?nxt = "leveled_sstable db ! (level + 1)" and ?path = "sstable_name (next_sstable_id db)"
  obtain readers where readers: "open_readers (?cur @ ?nxt) (db_dir db) = Inr readers"
    using run assms(1,2) by (cases "open_readers (?cur @ ?nxt) (db_dir db)") (simp_all add: compact_level_def Let_def)
  obtain content r where merge: "merge_tables E (length ?cur) readers = (content, r)" by fastforce
  let ?dir = "fs_write ?path content (db_dir db)"
  obtain compacted where parts: "and_then r (\<lambda>index. sstable_from_parts ?path index ?dir) = Inr compacted"
    using run assms(1,2) readers merge
    by (cases "and_then r (\<lambda>index. sstable_from_parts ?path index ?dir)") (simp_all add: compact_level_def Let_def)
  have "st_file_name compacted = ?path" "st_file compacted = content"
    using parts by (auto simp: and_then_eq_Inr sstable_from_parts_def fs_open_def map_of_fs_write)
  moreover have "t = compacted"
    using run assms(1,2) readers merge parts
    by (auto simp: t compact_level_def publish_compacted_def Let_def split: prod.splits sum.splits)
  ultimately show ?thesis
    using assms(1,2) readers merge parts by (simp add: compact_level_files_def removed_upto_take Let_def)
qed

lemma compaction_stopped:
  assumes inv: "db_inv E db" and disk: "disk_ok db" and ids: "ids_left db 1"
    and level: "1 < length (leveled_sstable db)" and ne: "leveled_sstable db ! 0 \<noteq> []"
    and run: "compact_level E 0 db = (db', r)" and t: "t = last (leveled_sstable db' ! 1)"
    and dir: "dir = fst (remove_files (take j (map st_file_name (leveled_sstable db ! 0 @ leveled_sstable db ! 1)))
        (fs_write (st_file_name t) (st_file t) (db_dir db)))"
    and cfg: "config_ok cfg"
  shows "\<exists>db''. open_in_dir E (fs_write log_name (log_file (db_log db)) dir) cfg = Inr db'' \<and>
    (\<forall>key. db_get E key db'' = db_get E key db)"
proof -
  define P where "P = take j (map st_file_name (leveled_sstable db ! 0 @ leveled_sstable db ! 1))"
  let ?keep = "filter (\<lambda>u. st_file_name u \<notin> set P)"
  obtain rs where rs: "log_holds E (db_log db) rs" "db_data db = fold apply_record rs []"
    using db_invD(8) [OF inv] by blast
  have lv: "0 < cfg_sstable_level cfg" using cfg by (simp add: config_ok_def)
  obtain js where js: "table_files dir js"
    "map sstable_name js = map st_file_name (rev (t # ?keep (tables_of db)))"
    "\<forall>u \<in> set (t # ?keep (tables_of db)). table_at E dir (next_sstable_id db + 1) u"
    and merged: "map_of (contents E t) = map_of (concat (map (contents E)
      (rev (leveled_sstable db ! 0) @ rev (leveled_sstable db ! 1))))"
    by (rule compaction_image [OF inv disk ids level ne run t P_def dir [folded P_def]])
  let ?old = "rev (leveled_sstable db ! 0) @ rev (leveled_sstable db ! 1)"
  let ?below = "search_order (drop 2 (leveled_sstable db))"
  have order: "tables_of db = ?old @ ?below"
    using search_order_split [of 0 "leveled_sstable db"] level by (simp add: numeral_2_eq_2)
  have "set P \<subseteq> st_file_name ` set ?old" by (auto simp: P_def dest!: in_set_takeD)
  moreover have "st_file_name ` set ?old \<inter> st_file_name ` set ?below = {}"
    using db_invD(5) [OF inv, unfolded order map_append [of _ ?old]] by (simp only: distinct_append set_map)
  ultimately have "\<forall>u \<in> set ?below. st_file_name u \<notin> set P" by blast
  then have below: "?keep ?below = ?below" by simp
  have "map_of (contents E t @ concat (map (contents E) (?keep (tables_of db))))
      = map_of (concat (map (contents E) (tables_of db)))"
    using map_of_shadow [OF merged filter_is_subset, of _ "concat (map (contents E) ?below)"]
    by (simp add: order below del: map_of_append)
  then have "map_of (db_data db @ concat (map (contents E) (t # ?keep (tables_of db)))) = view E db"
    by (simp add: view_def)
  then show ?thesis
    using crash_open [OF js rs(1) lv] inv by (simp add: db_get_view store_def rs(2) del: map_of_append)
qed

text \<open>
  C23. Crash safety of a compaction: when a compaction of level 0 stops after any number of its operations on files, from none over the
  written table and some deleted inputs to all of them, the directory opens and answers every \<open>get\<close> as before. (Level 0 is the
  only level that writes ever compact, by \<open>maybe_compact_level0\<close>. The table is written in one step here; what a crash inside
  this step leaves is the subject of \<open>sstable_created_cannot_be_opened\<close>.)
\<close>

theorem compaction_crash_safe:
  assumes inv: "db_inv E db" and disk: "disk_ok db" and ids: "ids_left db 1" and cfg: "config_ok cfg"
  shows "\<exists>db''. open_in_dir E (fs_write log_name (log_file (db_log db)) (compact_level_files E steps 0 db)) cfg = Inr db'' \<and>
    (\<forall>key. db_get E key db'' = db_get E key db)"
proof (cases "1 < length (leveled_sstable db) \<and> leveled_sstable db ! 0 \<noteq> [] \<and> steps \<noteq> 0")
  case True
  then obtain b where b: "steps = Suc b" by (cases steps) auto
  obtain db' where run: "compact_level E 0 db = (db', Inr ())" by (rule compact_level_inv [OF inv ids])
  have level: "1 < length (leveled_sstable db)" "leveled_sstable db ! 0 \<noteq> []" using True by simp_all
  have "compact_level_files E steps 0 db = fst (remove_files (take b (map st_file_name (leveled_sstable db ! 0 @ leveled_sstable db ! 1)))
      (fs_write (st_file_name (last (leveled_sstable db' ! 1))) (st_file (last (leveled_sstable db' ! 1))) (db_dir db)))"
    using compact_level_files_table [of 0 db E db', OF _ level(2) run refl] level(1) by (simp add: b)
  from compaction_stopped [OF inv disk ids level run refl this cfg] show ?thesis .
next
  case False
  have "compact_level_files E steps 0 db = db_dir db"
    using False by (auto simp: compact_level_files_def Let_def split: prod.splits sum.splits)
  moreover have "0 < cfg_sstable_level cfg" using cfg by (simp add: config_ok_def)
  then obtain db'' where "open_in_dir E (disk db) cfg = Inr db''" "db_inv E db''" "view E db'' = view E db"
    using reopen [OF inv disk] by metis
  ultimately show ?thesis using inv by (auto simp: disk_def db_get_view store_def)
qed

text \<open>
  C39. The write-ahead log and the memtable are locked one after the other. If another thread's flush
  runs between the two steps of an insert, it truncates the log with the new record in it, while
  the entry is put into the memtable only afterwards: the insert is visible, but not on disk, and
  a restart returns to the answers from before the insert.
\<close>

theorem flush_between_log_and_apply_loses_write:
  assumes inv: "db_inv E db" and disk: "disk_ok db" and ids: "ids_left db 1" and data: "db_data db \<noteq> []"
    and cfg: "config_ok cfg"
    and run: "flush_memory_to_disk E (log_command E (CmdSet key v) db) = (db1, r)"
    and app: "db2 = apply_entry key (EntrySet v) db1"
  shows "db_get E key db2 = Inr (Some v) \<and>
    (\<exists>db3. open_in_dir E (disk db2) cfg = Inr db3 \<and> (\<forall>k. db_get E k db3 = db_get E k db))"
proof -
  have room: "unat (next_sstable_id db) + 1 < 2 ^ 32" using ids by (simp add: ids_left_def)
  obtain l ls where ls: "leveled_sstable db = l # ls"
    using disk by (cases "leveled_sstable db") (auto simp: disk_ok_def)
  have "snd (flush_memory_to_disk E db) = Inr ()" by (rule flush_inv [OF inv ids]) simp
  then have "flush_memory_to_disk E (log_command E (CmdSet key v) db) = flush_memory_to_disk E db"
    using data ls
    by (auto simp: flush_memory_to_disk_def log_command_def Let_def logger_truncate_def logger_log_def
        split: prod.splits sum.splits)
  then have flush: "flush_memory_to_disk E db = (db1, r)" using run by simp
  from flush_inv [OF inv ids] flush have inv1: "db_inv E db1" and same: "same_store E db db1"
    by (metis prod.inject)+
  have disk1: "disk_ok db1" by (rule flush_disk_ok [OF inv disk ids flush])
  have "disk db2 = disk db1" by (simp add: app disk_def apply_entry_def)
  moreover have "0 < cfg_sstable_level cfg" using cfg by (simp add: config_ok_def)
  ultimately obtain db3 where "open_in_dir E (disk db2) cfg = Inr db3" "db_inv E db3" "view E db3 = view E db1"
    using reopen [OF inv1 disk1] by metis
  moreover have "db_get E key db2 = Inr (Some v)"
    by (simp add: app apply_entry_def db_get_def update_conv' entry_value_def)
  ultimately show ?thesis
    using inv same by (simp add: db_get_view store_def same_store_def)
qed

subsection \<open>Witnesses\<close>

text \<open>A database with one entry in its memtable, and the same database after a flush.\<close>

lemma sample_written:
  obtains db where "db_inv sample_ext db" and "disk_ok db" and "ids_left db 2" and "db_data db \<noteq> []"
    and "length (leveled_sstable db) = 2" and "db_get sample_ext [107] db = Inr (Some (VInt 5))"
proof -
  let ?c = "CmdSet [107] (VInt 5)"
  obtain db0 where db0: "db_inv sample_ext db0" "disk_ok db0" "next_sstable_id db0 = 0"
    "length (leveled_sstable db0) = 2" and fits: "write_fits sample_ext [107] (EntrySet (VInt 5)) db0"
    by (rule sample_db) (simp add: sample_write)
  have c: "command_ok sample_ext ?c" by (simp add: sample_write)
  let ?db = "log_and_apply sample_ext ?c [107] (EntrySet (VInt 5)) db0"
  note w = log_and_apply_inv [OF db0(1) c, simplified, OF fits]
  show thesis
  proof (rule that [of ?db])
    show "db_get sample_ext [107] ?db = Inr (Some (VInt 5))"
      using w by (simp add: db_get_view store_def entry_value_def)
    show "db_data ?db \<noteq> []" by (cases "db_data db0") (auto simp: log_and_apply_eq)
  qed (use w db0 in \<open>simp_all add: disk_ok_def ids_left_def log_and_apply_eq\<close>)
qed

lemma sample_flushed:
  obtains db where "db_inv sample_ext db" and "disk_ok db" and "ids_left db 1"
    and "length (leveled_sstable db) = 2" and "leveled_sstable db ! 0 \<noteq> []"
    and "db_get sample_ext [107] db = Inr (Some (VInt 5))"
proof -
  obtain db where db: "db_inv sample_ext db" "disk_ok db" "ids_left db 2" "db_data db \<noteq> []"
    "length (leveled_sstable db) = 2" "db_get sample_ext [107] db = Inr (Some (VInt 5))"
    by (rule sample_written)
  have left: "ids_left db 1" using db(3) by (simp add: ids_left_def)
  obtain db' where run: "flush_memory_to_disk sample_ext db = (db', Inr ())" and inv: "db_inv sample_ext db'"
    and same: "same_store sample_ext db db'" and nx: "unat (next_sstable_id db') \<le> unat (next_sstable_id db) + 1"
    by (rule flush_inv [OF db(1) left])
  have room: "unat (next_sstable_id db) + 1 < 2 ^ 32" using left by (simp add: ids_left_def)
  obtain l ls where ls: "leveled_sstable db = l # ls" using db(5) by (cases "leveled_sstable db") auto
  have "leveled_sstable db' ! 0 \<noteq> []"
    by (rule flush_ok [OF db(1,4) room]) (use run ls in \<open>auto simp: Let_def\<close>)
  moreover have "db_get sample_ext [107] db' = Inr (Some (VInt 5))"
    using db(1,6) inv same by (simp add: db_get_view store_def same_store_def)
  ultimately show thesis
    using that inv flush_disk_ok [OF db(1,2) left run] db(3,5) same nx
    by (simp add: same_store_def ids_left_def)
qed

lemma sample_config: "config_ok config_default"
  by (simp add: config_ok_def config_default_def)

theorem flush_preserves_get_witness:
  "\<exists>db db'. db_data db \<noteq> [] \<and> flush_memory_to_disk sample_ext db = (db', Inr ()) \<and>
     db_get sample_ext [107] db' = Inr (Some (VInt 5))"
proof -
  obtain db where db: "db_inv sample_ext db" "ids_left db 2" "db_data db \<noteq> []"
    "db_get sample_ext [107] db = Inr (Some (VInt 5))"
    by (rule sample_written)
  then have "ids_left db 1" by (simp add: ids_left_def)
  from flush_preserves_get [OF db(1) this] db(3,4) show ?thesis by auto
qed

theorem compaction_preserves_get_witness:
  "\<exists>db db'. leveled_sstable db ! 0 \<noteq> [] \<and> compact_level sample_ext 0 db = (db', Inr ()) \<and>
     leveled_sstable db' ! 0 = [] \<and> db_get sample_ext [107] db' = Inr (Some (VInt 5))"
proof -
  obtain db where db: "db_inv sample_ext db" "ids_left db 1" "length (leveled_sstable db) = 2"
    "leveled_sstable db ! 0 \<noteq> []" "db_get sample_ext [107] db = Inr (Some (VInt 5))"
    by (rule sample_flushed)
  from compaction_preserves_get [OF db(1,2), of 0] db(3-5) show ?thesis by auto
qed

theorem flush_crash_safe_witness:
  "\<exists>dir db''. open_in_dir sample_ext dir config_default = Inr db'' \<and>
     db_get sample_ext [107] db'' = Inr (Some (VInt 5))"
proof -
  obtain db where db: "db_inv sample_ext db" "disk_ok db" "ids_left db 2"
    "db_get sample_ext [107] db = Inr (Some (VInt 5))"
    by (rule sample_written)
  have left: "ids_left db 1" using db(3) by (simp add: ids_left_def)
  obtain db' r where "flush_memory_to_disk sample_ext db = (db', r)" by fastforce
  from flush_crash_safe [OF db(1,2) left this sample_config] db(4) show ?thesis by fastforce
qed

text \<open>A compaction of one table, stopped before the table is deleted.\<close>

theorem compaction_crash_safe_witness:
  "\<exists>(db :: database) db''. leveled_sstable db ! 0 \<noteq> [] \<and>
     open_in_dir sample_ext (fs_write log_name (log_file (db_log db)) (compact_level_files sample_ext 1 0 db)) config_default = Inr db'' \<and>
     db_get sample_ext [107] db'' = Inr (Some (VInt 5))"
proof -
  obtain db where db: "db_inv sample_ext db" "disk_ok db" "ids_left db 1" "length (leveled_sstable db) = 2"
    "leveled_sstable db ! 0 \<noteq> []" "db_get sample_ext [107] db = Inr (Some (VInt 5))"
    by (rule sample_flushed)
  from compaction_crash_safe [OF db(1-3) sample_config, of 1] db(5,6) show ?thesis by force
qed

theorem flush_between_log_and_apply_loses_write_witness:
  "\<exists>db2 db3. db_get sample_ext [107] db2 = Inr (Some (VInt 6)) \<and>
     open_in_dir sample_ext (disk db2) config_default = Inr db3 \<and>
     db_get sample_ext [107] db3 = Inr (Some (VInt 5))"
proof -
  obtain db where db: "db_inv sample_ext db" "disk_ok db" "ids_left db 2" "db_data db \<noteq> []"
    "db_get sample_ext [107] db = Inr (Some (VInt 5))"
    by (rule sample_written)
  have left: "ids_left db 1" using db(3) by (simp add: ids_left_def)
  obtain db1 r where "flush_memory_to_disk sample_ext (log_command sample_ext (CmdSet [107] (VInt 6)) db) = (db1, r)"
    by fastforce
  from flush_between_log_and_apply_loses_write [OF db(1,2) left db(4) sample_config this refl] db(5)
  show ?thesis by auto
qed

end
