(* ===== verification/Raft_Node.thy ===== *)
theory Raft_Node
  imports Raft_Log_Store Database
begin

text \<open>
  The Raft node (\<open>src/src/raft/node.rs\<close>, \<open>election.rs\<close>, \<open>replication.rs\<close>,
  \<open>message.rs\<close>): its state, every handler, and recovery from disk.

  Handlers take the time \<open>now\<close>, in milliseconds, and return the new node; a panic of the code
  (\<open>expect\<close>, \<open>assert!\<close>, an index out of bounds, \<open>unwrap\<close>) is an error of kind
  \<open>Panicked\<close>. Random election timeouts come from \<open>rand_source\<close>, the sequence of the
  numbers that the generator will return. Writes to the log store and the metadata file are
  best-effort, as in the code. What is printed is not modelled.
\<close>

section \<open>State\<close>

record raft_node =
  rf_db :: database
  rf_id :: node_id
  rf_peers :: "node_id list"
  current_term :: u64
  voted_for :: "node_id option"
  rf_log :: "log_entry list"
  commit_index :: nat
  last_applied :: nat
  next_index :: "(node_id \<times> nat) list"
  match_index :: "(node_id \<times> nat) list"
  rf_role :: role
  votes_received :: "node_id list"
  leader_id :: "node_id option"
  rf_outbox :: outbox
  election_deadline :: nat
  heartbeat_deadline :: nat
  election_timeout :: "nat option"
  pending_requests :: "((nat \<times> u64) \<times> responder) list"
  peer_changes_tx :: "peer_change list option"
  log_store :: "raft_log_store option"
  meta_store :: "bytes option"
  rf_oneshots :: oneshots
  rand_source :: "nat \<Rightarrow> nat"
  rand_pos :: nat

definition panic :: "string \<Rightarrow> 'a io" where
  "panic msg = Inl (IoError Panicked (str msg))"

definition random_range :: "nat \<Rightarrow> nat \<Rightarrow> nat \<Rightarrow> nat" where
  "random_range lo hi r = lo + r mod (hi - lo + 1)"

definition push_outbox :: "node_id \<Rightarrow> message \<Rightarrow> raft_node \<Rightarrow> raft_node" where
  "push_outbox to msg n = n\<lparr>rf_outbox := rf_outbox n @ [(to, msg)]\<rparr>"

text \<open>\<open>responder.send(..., id, role, self.peers.clone(), &mut self.outbox)\<close>\<close>

definition respond ::
  "responder \<Rightarrow> bool \<Rightarrow> val option \<Rightarrow> rstring \<Rightarrow> node_id option \<Rightarrow> u64 \<Rightarrow> raft_node \<Rightarrow> raft_node" where
  "respond rsp success v msg leader term n =
     (case responder_send rsp success v msg leader term (rf_id n) (rf_role n) (rf_peers n)
             (rf_oneshots n, rf_outbox n) of
        (oneshots, out) \<Rightarrow> n\<lparr>rf_oneshots := oneshots, rf_outbox := out\<rparr>)"

section \<open>Durable state\<close>

definition persist_meta :: "raft_node \<Rightarrow> raft_node" where
  "persist_meta n =
     n\<lparr>meta_store := map_option (meta_save (commit_index n) (current_term n) (voted_for n)) (meta_store n)\<rparr>"

definition push_log_entry :: "'x raft_ext_scheme \<Rightarrow> log_entry \<Rightarrow> raft_node \<Rightarrow> raft_node" where
  "push_log_entry E entry n =
     n\<lparr>log_store := map_option (\<lambda>s. case log_store_append E entry s of Inr s' \<Rightarrow> s' | Inl _ \<Rightarrow> s) (log_store n),
       rf_log := rf_log n @ [entry]\<rparr>"

definition truncate_log :: "nat \<Rightarrow> raft_node \<Rightarrow> raft_node" where
  "truncate_log from n =
     n\<lparr>log_store := map_option (truncate_from from) (log_store n), rf_log := take from (rf_log n)\<rparr>"

section \<open>Elections\<close>

definition reset_election_timeout :: "nat \<Rightarrow> raft_node \<Rightarrow> raft_node" where
  "reset_election_timeout now n =
     (case election_timeout n of
        Some timeout \<Rightarrow> n\<lparr>election_deadline := now + timeout\<rparr>
      | None \<Rightarrow>
          n\<lparr>election_deadline := now + random_range 150 300 (rand_source n (rand_pos n)),
            rand_pos := rand_pos n + 1\<rparr>)"

definition set_election_timeout :: "nat \<Rightarrow> nat \<Rightarrow> raft_node \<Rightarrow> raft_node" where
  "set_election_timeout timeout now n =
     n\<lparr>election_timeout := Some timeout, election_deadline := now + timeout\<rparr>"

definition uncertain_message :: rstring where
  "uncertain_message = str ''Leadership changed before confirmation; write outcome may be uncertain''"

definition step_down :: "u64 \<Rightarrow> nat \<Rightarrow> raft_node \<Rightarrow> raft_node" where
  "step_down new_term now n =
     (let n = n\<lparr>current_term := new_term, rf_role := Follower, voted_for := None, leader_id := None\<rparr>;
          n = reset_election_timeout now n;
          n = persist_meta n;
          pending = pending_requests n;
          n = n\<lparr>pending_requests := []\<rparr> in
      fold (\<lambda>(_, rsp) n. respond rsp False None uncertain_message None new_term n) pending n)"

definition make_append_entries :: "node_id \<Rightarrow> raft_node \<Rightarrow> append_entries io" where
  "make_append_entries peer n =
     (case map_of (next_index n) peer of
        None \<Rightarrow> panic ''next_index missing for peer''
      | Some next \<Rightarrow>
          if next < 1 then panic ''assertion failed: next_index >= 1''
          else if next > length (rf_log n) then panic ''assertion failed: next_index <= self.log.len()''
          else
            Inr \<lparr>ae_term = current_term n, ae_leader_id = rf_id n, ae_prev_log_index = next - 1,
                 ae_prev_log_term = le_term (rf_log n ! (next - 1)), ae_entries = drop next (rf_log n),
                 ae_leader_commit = commit_index n\<rparr>)"

definition send_append_entries :: "node_id \<Rightarrow> raft_node \<Rightarrow> raft_node io" where
  "send_append_entries peer n =
     and_then (make_append_entries peer n) (\<lambda>request. Inr (push_outbox peer (MAppendEntries request) n))"

fun send_all :: "node_id list \<Rightarrow> raft_node \<Rightarrow> raft_node io" where
  "send_all [] n = Inr n"
| "send_all (peer # peers) n = and_then (send_append_entries peer n) (send_all peers)"

definition send_heartbeats :: "raft_node \<Rightarrow> raft_node io" where
  "send_heartbeats n = send_all (rf_peers n) n"

fun init_peers :: "node_id list \<Rightarrow> raft_node \<Rightarrow> raft_node io" where
  "init_peers [] n = Inr n"
| "init_peers (peer # peers) n =
     and_then (send_append_entries peer
       (n\<lparr>next_index := AList.update peer (length (rf_log n)) (next_index n),
          match_index := AList.update peer 0 (match_index n)\<rparr>)) (init_peers peers)"

definition become_leader :: "nat \<Rightarrow> raft_node \<Rightarrow> raft_node io" where
  "become_leader now n =
     and_then (init_peers (rf_peers n) (n\<lparr>rf_role := Leader, leader_id := Some (rf_id n)\<rparr>)) (\<lambda>n.
     Inr (n\<lparr>heartbeat_deadline := now + 100\<rparr>))"

definition majority :: "raft_node \<Rightarrow> nat" where
  "majority n = (length (rf_peers n) + 1) div 2 + 1"

definition last_log :: "raft_node \<Rightarrow> (nat \<times> u64) io" where
  "last_log n =
     (if rf_log n = [] then panic ''index out of bounds''
      else Inr (length (rf_log n) - 1, le_term (last (rf_log n))))"

definition start_election :: "nat \<Rightarrow> raft_node \<Rightarrow> raft_node io" where
  "start_election now n =
     (let n = n\<lparr>rf_role := Candidate, leader_id := None, current_term := current_term n + 1,
                voted_for := Some (rf_id n)\<rparr>;
          n = persist_meta n;
          n = n\<lparr>votes_received := [rf_id n]\<rparr> in
      if length (votes_received n) \<ge> majority n then become_leader now n
      else
        let n = reset_election_timeout now n in
        and_then (last_log n) (\<lambda>(last_log_index, last_log_term).
        let request = \<lparr>rv_term = current_term n, rv_candidate_id = rf_id n,
              rv_last_log_index = last_log_index, rv_last_log_term = last_log_term\<rparr> in
        Inr (fold (\<lambda>peer. push_outbox peer (MRequestVote request)) (rf_peers n) n)))"

definition handle_vote_response :: "request_vote_response \<Rightarrow> nat \<Rightarrow> raft_node \<Rightarrow> raft_node io" where
  "handle_vote_response response now n =
     (if vr_term response > current_term n then Inr (step_down (vr_term response) now n)
      else if vr_term response < current_term n then Inr n
      else if rf_role n \<noteq> Candidate then Inr n
      else
        let n = (if vr_vote_granted response
                 then n\<lparr>votes_received := List.insert (vr_voter_id response) (votes_received n)\<rparr> else n) in
        if length (votes_received n) \<ge> majority n then become_leader now n else Inr n)"

definition vote_reply :: "raft_node \<Rightarrow> bool \<Rightarrow> request_vote_response" where
  "vote_reply n granted = \<lparr>vr_term = current_term n, vr_voter_id = rf_id n, vr_vote_granted = granted\<rparr>"

definition log_is_up_to_date :: "request_vote \<Rightarrow> nat \<Rightarrow> u64 \<Rightarrow> bool" where
  "log_is_up_to_date request last_log_index last_log_term \<longleftrightarrow>
     rv_last_log_term request > last_log_term \<or>
     (rv_last_log_term request = last_log_term \<and> rv_last_log_index request \<ge> last_log_index)"

definition handle_request_vote ::
  "request_vote \<Rightarrow> nat \<Rightarrow> raft_node \<Rightarrow> (raft_node \<times> request_vote_response) io" where
  "handle_request_vote request now n =
     (if rv_term request < current_term n then Inr (n, vote_reply n False)
      else
        let n = (if rv_term request > current_term n then step_down (rv_term request) now n else n);
            can_vote = (case voted_for n of None \<Rightarrow> True | Some i \<Rightarrow> i = rv_candidate_id request) in
        if \<not> can_vote then Inr (n, vote_reply n False)
        else
          and_then (last_log n) (\<lambda>(last_log_index, last_log_term).
          if \<not> log_is_up_to_date request last_log_index last_log_term then Inr (n, vote_reply n False)
          else
            let n = n\<lparr>voted_for := Some (rv_candidate_id request)\<rparr>;
                n = persist_meta n;
                n = reset_election_timeout now n in
            Inr (n, vote_reply n True)))"

section \<open>Applying committed entries\<close>

definition committed_message :: "nat \<Rightarrow> rstring" where
  "committed_message index = str ''Write committed and applied at log index '' @ nat_dec index"

definition apply_payload ::
  "'x raft_ext_scheme \<Rightarrow> entry_payload \<Rightarrow> raft_node \<Rightarrow> raft_node \<times> peer_change option \<times> unit io" where
  "apply_payload E payload n =
     (case payload of
        PCommand record \<Rightarrow>
          (case (case lr_command record of
                   CmdSet key v \<Rightarrow> db_insert E key v (rf_db n)
                 | CmdDelete key \<Rightarrow> db_delete E key (rf_db n)) of
             (db, r) \<Rightarrow> (n\<lparr>rf_db := db\<rparr>, None, r))
      | PAddNode i addr \<Rightarrow>
          (let n = (if i \<noteq> rf_id n \<and> i \<notin> set (rf_peers n) then n\<lparr>rf_peers := rf_peers n @ [i]\<rparr> else n);
               n = (if rf_role n = Leader
                    then n\<lparr>next_index := (if map_of (next_index n) i = None
                                then AList.update i (length (rf_log n)) (next_index n) else next_index n),
                           match_index := (if map_of (match_index n) i = None
                                then AList.update i 0 (match_index n) else match_index n)\<rparr>
                    else n) in
           (n, Some (AddPeer i addr), Inr ()))
      | PRemoveNode i \<Rightarrow>
          (n\<lparr>rf_peers := filter (\<lambda>p. p \<noteq> i) (rf_peers n), next_index := AList.delete i (next_index n),
             match_index := AList.delete i (match_index n)\<rparr>, Some (RemovePeer i), Inr ()))"

text \<open>The answer to the client that waits for the entry at \<open>index\<close>.\<close>

definition answer_pending :: "nat \<Rightarrow> u64 \<Rightarrow> unit io \<Rightarrow> raft_node \<Rightarrow> raft_node" where
  "answer_pending index term result n =
     (case map_of (pending_requests n) (index, term) of
        None \<Rightarrow> n
      | Some rsp \<Rightarrow>
          (let n = n\<lparr>pending_requests := AList.delete (index, term) (pending_requests n)\<rparr>;
               leader = (case leader_id n of Some l \<Rightarrow> Some l | None \<Rightarrow> Some (rf_id n)) in
           case result of
             Inr _ \<Rightarrow> respond rsp True None (committed_message index) leader term n
           | Inl e \<Rightarrow>
               respond rsp False None
                 (str ''Log entry committed, but database application failed: '' @ message e) leader term n))"

definition apply_entry_at :: "'x raft_ext_scheme \<Rightarrow> nat \<Rightarrow> raft_node \<Rightarrow> raft_node io" where
  "apply_entry_at E index n =
     (if index \<ge> length (rf_log n) then panic ''index out of bounds''
      else
        let term = le_term (rf_log n ! index) in
        (case apply_payload E (le_payload (rf_log n ! index)) n of
           (n, change, result) \<Rightarrow>
             (let n = n\<lparr>last_applied := index\<rparr>;
                  n = (case change of
                         None \<Rightarrow> n
                       | Some c \<Rightarrow> n\<lparr>peer_changes_tx := map_option (\<lambda>cs. cs @ [c]) (peer_changes_tx n)\<rparr>) in
              Inr (answer_pending index term result n))))"

lemma respond_simps [simp]:
  "rf_db (respond rsp s v m l t n) = rf_db n" "rf_id (respond rsp s v m l t n) = rf_id n"
  "rf_peers (respond rsp s v m l t n) = rf_peers n" "current_term (respond rsp s v m l t n) = current_term n"
  "voted_for (respond rsp s v m l t n) = voted_for n" "rf_log (respond rsp s v m l t n) = rf_log n"
  "commit_index (respond rsp s v m l t n) = commit_index n" "last_applied (respond rsp s v m l t n) = last_applied n"
  "next_index (respond rsp s v m l t n) = next_index n" "match_index (respond rsp s v m l t n) = match_index n"
  "rf_role (respond rsp s v m l t n) = rf_role n" "votes_received (respond rsp s v m l t n) = votes_received n"
  "leader_id (respond rsp s v m l t n) = leader_id n" "pending_requests (respond rsp s v m l t n) = pending_requests n"
  "log_store (respond rsp s v m l t n) = log_store n" "meta_store (respond rsp s v m l t n) = meta_store n"
  "peer_changes_tx (respond rsp s v m l t n) = peer_changes_tx n"
  by (auto simp: respond_def split: prod.splits)

lemma apply_payload_simps:
  assumes "apply_payload E p n = (n', c, r)"
  shows "rf_id n' = rf_id n" "current_term n' = current_term n" "voted_for n' = voted_for n"
    "rf_log n' = rf_log n" "commit_index n' = commit_index n" "last_applied n' = last_applied n"
    "rf_role n' = rf_role n" "votes_received n' = votes_received n" "leader_id n' = leader_id n"
    "rf_outbox n' = rf_outbox n" "meta_store n' = meta_store n" "log_store n' = log_store n"
    "pending_requests n' = pending_requests n"
  using assms by (auto simp: apply_payload_def Let_def split: entry_payload.splits prod.splits)

lemma answer_pending_simps [simp]:
  "rf_db (answer_pending i t r n) = rf_db n" "rf_id (answer_pending i t r n) = rf_id n"
  "rf_peers (answer_pending i t r n) = rf_peers n" "current_term (answer_pending i t r n) = current_term n"
  "voted_for (answer_pending i t r n) = voted_for n" "rf_log (answer_pending i t r n) = rf_log n"
  "commit_index (answer_pending i t r n) = commit_index n" "last_applied (answer_pending i t r n) = last_applied n"
  "next_index (answer_pending i t r n) = next_index n" "match_index (answer_pending i t r n) = match_index n"
  "rf_role (answer_pending i t r n) = rf_role n" "votes_received (answer_pending i t r n) = votes_received n"
  "leader_id (answer_pending i t r n) = leader_id n" "log_store (answer_pending i t r n) = log_store n"
  "meta_store (answer_pending i t r n) = meta_store n"
  by (auto simp: answer_pending_def Let_def split: option.splits sum.splits)

lemma apply_entry_at_simps:
  assumes "apply_entry_at E i n = Inr n'"
  shows "rf_id n' = rf_id n" "current_term n' = current_term n" "voted_for n' = voted_for n"
    "rf_log n' = rf_log n" "commit_index n' = commit_index n" "last_applied n' = i"
    "rf_role n' = rf_role n" "votes_received n' = votes_received n" "leader_id n' = leader_id n"
    "meta_store n' = meta_store n" "log_store n' = log_store n" "i < length (rf_log n)"
proof -
  obtain n1 c r where p: "apply_payload E (le_payload (rf_log n ! i)) n = (n1, c, r)"
    by (metis prod_cases3)
  note k = apply_payload_simps [OF p]
  show "rf_id n' = rf_id n" "current_term n' = current_term n" "voted_for n' = voted_for n"
    "rf_log n' = rf_log n" "commit_index n' = commit_index n" "last_applied n' = i"
    "rf_role n' = rf_role n" "votes_received n' = votes_received n" "leader_id n' = leader_id n"
    "meta_store n' = meta_store n" "log_store n' = log_store n" "i < length (rf_log n)"
    using assms
    by (auto simp: apply_entry_at_def Let_def panic_def p k split: if_splits option.splits)
qed

lemma apply_entry_at_measure:
  "apply_entry_at E i n = Inr n' \<Longrightarrow> commit_index n' = commit_index n \<and> last_applied n' = i"
  using apply_entry_at_simps(5,6) by blast

function apply_committed_entries :: "'x raft_ext_scheme \<Rightarrow> raft_node \<Rightarrow> raft_node io" where
  "apply_committed_entries E n =
     (if last_applied n < commit_index n then
        and_then (apply_entry_at E (last_applied n + 1) n) (\<lambda>n. apply_committed_entries E n)
      else Inr n)"
  by pat_completeness auto
termination
  by (relation "measure (\<lambda>(E, n). commit_index n - last_applied n)")
    (auto dest!: apply_entry_at_measure)

declare apply_committed_entries.simps [simp del]

section \<open>Replication\<close>

definition commit_at :: "nat \<Rightarrow> raft_node \<Rightarrow> raft_node" where
  "commit_at index n =
     (if le_term (rf_log n ! index) \<noteq> current_term n then n
      else
        let replicated = length (filter (\<lambda>(_, m). m \<ge> index) (match_index n)) + 1 in
        if replicated \<ge> majority n then n\<lparr>commit_index := index\<rparr> else n)"

definition update_commit_index :: "'x raft_ext_scheme \<Rightarrow> raft_node \<Rightarrow> raft_node io" where
  "update_commit_index E n =
     (let n = fold commit_at [commit_index n + 1..<length (rf_log n)] n;
          n = persist_meta n in
      apply_committed_entries E n)"

definition last_index :: "raft_node \<Rightarrow> nat" where
  "last_index n = (if rf_log n = [] then 2 ^ 64 - 1 else length (rf_log n) - 1)"

definition append_reply :: "raft_node \<Rightarrow> bool \<Rightarrow> nat \<Rightarrow> append_entries_response" where
  "append_reply n success match =
     \<lparr>ar_term = current_term n, ar_follower_id = rf_id n, ar_success = success, ar_match_index = match\<rparr>"

fun append_loop :: "'x raft_ext_scheme \<Rightarrow> nat \<Rightarrow> log_entry list \<Rightarrow> raft_node \<Rightarrow> raft_node" where
  "append_loop E index [] n = n"
| "append_loop E index (incoming # entries) n =
     append_loop E (index + 1) entries
       (if index < length (rf_log n) then
          if le_term (rf_log n ! index) \<noteq> le_term incoming
          then push_log_entry E incoming (truncate_log index n)
          else n
        else push_log_entry E incoming n)"

definition handle_append_entries ::
  "'x raft_ext_scheme \<Rightarrow> append_entries \<Rightarrow> nat \<Rightarrow> raft_node \<Rightarrow> (raft_node \<times> append_entries_response) io" where
  "handle_append_entries E entries now n =
     (if ae_term entries < current_term n then Inr (n, append_reply n False (last_index n))
      else
        let n = (if ae_term entries > current_term n then step_down (ae_term entries) now n else n);
            n = n\<lparr>rf_role := Follower, leader_id := Some (ae_leader_id entries)\<rparr>;
            n = reset_election_timeout now n;
            prev = ae_prev_log_index entries in
        if prev \<ge> length (rf_log n) then Inr (n, append_reply n False (last_index n))
        else if le_term (rf_log n ! prev) \<noteq> ae_prev_log_term entries
        then Inr (n, append_reply n False (last_index n))
        else
          let match = prev + length (ae_entries entries);
              n = append_loop E (prev + 1) (ae_entries entries) n;
              n = n\<lparr>commit_index := min (ae_leader_commit entries) (length (rf_log n) - 1)\<rparr>;
              n = persist_meta n in
          and_then (apply_committed_entries E n) (\<lambda>n. Inr (n, append_reply n True match)))"

definition handle_append_entries_response ::
  "'x raft_ext_scheme \<Rightarrow> append_entries_response \<Rightarrow> nat \<Rightarrow> raft_node \<Rightarrow> raft_node io" where
  "handle_append_entries_response E response now n =
     (if ar_term response > current_term n then Inr (step_down (ar_term response) now n)
      else if rf_role n \<noteq> Leader then Inr n
      else if ar_term response < current_term n then Inr n
      else
        let peer = ar_follower_id response in
        if ar_success response then
          update_commit_index E
            (n\<lparr>match_index := AList.update peer (ar_match_index response) (match_index n),
               next_index := AList.update peer (ar_match_index response + 1) (next_index n)\<rparr>)
        else
          (case map_of (next_index n) peer of
             None \<Rightarrow> panic ''next_index missing for peer''
           | Some next \<Rightarrow>
               send_append_entries peer
                 (n\<lparr>next_index := AList.update peer (if next > 1 then next - 1 else next) (next_index n)\<rparr>)))"

definition append_command :: "'x raft_ext_scheme \<Rightarrow> command \<Rightarrow> raft_node \<Rightarrow> (raft_node \<times> nat) io" where
  "append_command E command n =
     (if rf_role n \<noteq> Leader then panic ''Only leader can append client commands''
      else
        let index = length (rf_log n);
            n = push_log_entry E \<lparr>le_term = current_term n, le_payload = PCommand (log_record_new E 0 command)\<rparr> n in
        and_then (if rf_peers n = [] then update_commit_index E n else send_all (rf_peers n) n) (\<lambda>n.
        Inr (n, index)))"

definition append_membership_change :: "'x raft_ext_scheme \<Rightarrow> entry_payload \<Rightarrow> raft_node \<Rightarrow> raft_node io" where
  "append_membership_change E payload n =
     (if rf_role n \<noteq> Leader then Inr n
      else
        let n = push_log_entry E \<lparr>le_term = current_term n, le_payload = payload\<rparr> n in
        if rf_peers n = [] then update_commit_index E n else send_heartbeats n)"

definition add_peer :: "'x raft_ext_scheme \<Rightarrow> node_id \<Rightarrow> rstring \<Rightarrow> raft_node \<Rightarrow> raft_node io" where
  "add_peer E i addr n =
     (if rf_role n \<noteq> Leader then Inr n else append_membership_change E (PAddNode i addr) n)"

definition remove_peer :: "'x raft_ext_scheme \<Rightarrow> node_id \<Rightarrow> raft_node \<Rightarrow> raft_node io" where
  "remove_peer E i n =
     (if rf_role n \<noteq> Leader then Inr n else append_membership_change E (PRemoveNode i) n)"

section \<open>Client requests\<close>

definition not_leader_message :: "raft_node \<Rightarrow> rstring" where
  "not_leader_message n =
     (case leader_id n of
        Some leader \<Rightarrow> str ''Not leader; current leader is Node '' @ nat_dec (unat leader)
      | None \<Rightarrow> str ''Node '' @ nat_dec (unat (rf_id n)) @ str '' is not leader and no leader is currently known'')"

definition submit_store_write :: "'x raft_ext_scheme \<Rightarrow> command \<Rightarrow> responder \<Rightarrow> raft_node \<Rightarrow> raft_node io" where
  "submit_store_write E command rsp n =
     (if rf_role n \<noteq> Leader
      then Inr (respond rsp False None (not_leader_message n) (leader_id n) (current_term n) n)
      else
        and_then (append_command E command n) (\<lambda>(n, index).
        if index \<ge> length (rf_log n) then panic ''index out of bounds''
        else
          let term = le_term (rf_log n ! index) in
          if last_applied n \<ge> index then
            Inr (respond rsp True None (committed_message index)
                   (case leader_id n of Some l \<Rightarrow> Some l | None \<Rightarrow> Some (rf_id n)) term n)
          else Inr (n\<lparr>pending_requests := AList.update (index, term) rsp (pending_requests n)\<rparr>)))"

definition raft_get :: "'x raft_ext_scheme \<Rightarrow> rstring \<Rightarrow> raft_node \<Rightarrow> val option io" where
  "raft_get E key n = db_get E key (rf_db n)"

definition handle_store_request :: "'x raft_ext_scheme \<Rightarrow> store_request \<Rightarrow> nat \<Rightarrow> raft_node \<Rightarrow> raft_node io" where
  "handle_store_request E request now n =
     (case sr_operation request of
        OpSet key v \<Rightarrow> submit_store_write E (CmdSet key v) (sr_responder request) n
      | OpDelete key \<Rightarrow> submit_store_write E (CmdDelete key) (sr_responder request) n
      | OpGet key \<Rightarrow>
          (case raft_get E key n of
             Inr v \<Rightarrow> Inr (respond (sr_responder request) True v
                 (str ''Read from Node '' @ nat_dec (unat (rf_id n))) (leader_id n) (current_term n) n)
           | Inl e \<Rightarrow> Inr (respond (sr_responder request) False None (message e) (leader_id n) (current_term n) n))
      | OpStatus \<Rightarrow>
          Inr (respond (sr_responder request) True None
            (str ''Node status OK (role: '' @ role_debug (rf_role n) @ str '')'') (leader_id n) (current_term n) n))"

section \<open>Messages\<close>

definition forward_to_leader :: "message \<Rightarrow> raft_node \<Rightarrow> raft_node" where
  "forward_to_leader msg n = (case leader_id n of Some l \<Rightarrow> push_outbox l msg n | None \<Rightarrow> n)"

definition handle_message :: "'x raft_ext_scheme \<Rightarrow> message \<Rightarrow> nat \<Rightarrow> raft_node \<Rightarrow> raft_node io" where
  "handle_message E msg now n =
     (case msg of
        MRequestVote request \<Rightarrow>
          and_then (handle_request_vote request now n) (\<lambda>(n, response).
          Inr (push_outbox (rv_candidate_id request) (MRequestVoteResponse response) n))
      | MRequestVoteResponse response \<Rightarrow> handle_vote_response response now n
      | MAppendEntries entries \<Rightarrow>
          and_then (handle_append_entries E entries now n) (\<lambda>(n, response).
          Inr (push_outbox (ae_leader_id entries) (MAppendEntriesResponse response) n))
      | MAppendEntriesResponse response \<Rightarrow> handle_append_entries_response E response now n
      | MClientCommand cmd \<Rightarrow>
          if rf_role n = Leader then and_then (append_command E cmd n) (\<lambda>(n, _). Inr n)
          else Inr (forward_to_leader msg n)
      | MClientRequest req \<Rightarrow>
          handle_store_request E
            \<lparr>sr_operation = (case cr_command req of CmdSet key v \<Rightarrow> OpSet key v | CmdDelete key \<Rightarrow> OpDelete key),
             sr_responder = RaftClient (cr_client_id req) (cr_request_id req)\<rparr> now n
      | MClientQuery query \<Rightarrow>
          handle_store_request E
            \<lparr>sr_operation = OpGet (cq_key query),
             sr_responder = RaftClient (cq_client_id query) (cq_request_id query)\<rparr> now n
      | MStatusQuery query \<Rightarrow>
          handle_store_request E
            \<lparr>sr_operation = OpStatus,
             sr_responder = RaftClient (sq_client_id query) (sq_request_id query)\<rparr> now n
      | MAddNode request \<Rightarrow>
          if rf_role n \<noteq> Leader then Inr (forward_to_leader msg n)
          else append_membership_change E (PAddNode (an_id request) (an_addr request)) n
      | MRemoveNode request \<Rightarrow>
          if rf_role n \<noteq> Leader then Inr (forward_to_leader msg n)
          else append_membership_change E (PRemoveNode (rm_id request)) n
      | MClientResponse _ \<Rightarrow> Inr n
      | MTimeout \<Rightarrow> start_election now n)"

definition submit_command :: "'x raft_ext_scheme \<Rightarrow> command \<Rightarrow> nat \<Rightarrow> raft_node \<Rightarrow> raft_node io" where
  "submit_command E cmd now n = handle_message E (MClientCommand cmd) now n"

definition tick :: "nat \<Rightarrow> raft_node \<Rightarrow> raft_node io" where
  "tick now n =
     (if rf_role n = Leader then
        if now \<ge> heartbeat_deadline n then
          and_then (send_heartbeats n) (\<lambda>n. Inr (n\<lparr>heartbeat_deadline := now + 100\<rparr>))
        else Inr n
      else if now \<ge> election_deadline n then start_election now n
      else Inr n)"

definition restart :: "nat \<Rightarrow> raft_node \<Rightarrow> raft_node" where
  "restart now n =
     reset_election_timeout now
       (n\<lparr>rf_role := Follower, leader_id := None, votes_received := [], rf_outbox := [], next_index := [],
          match_index := [], pending_requests := []\<rparr>)"

section \<open>Recovery from disk\<close>

definition raft_log_name :: rstring where
  "raft_log_name = str ''raft_log.bin''"

definition raft_meta_name :: rstring where
  "raft_meta_name = str ''raft_meta.bin''"

definition dummy_entry :: "'x raft_ext_scheme \<Rightarrow> log_entry" where
  "dummy_entry E = \<lparr>le_term = 0, le_payload = PCommand (log_record_new E 0 (CmdSet [] (VString [])))\<rparr>"

definition recover_peer :: "node_id \<Rightarrow> log_entry \<Rightarrow> node_id list \<Rightarrow> node_id list" where
  "recover_peer me entry peers =
     (case le_payload entry of
        PAddNode i _ \<Rightarrow> if i \<noteq> me \<and> i \<notin> set peers then peers @ [i] else peers
      | PRemoveNode i \<Rightarrow> filter (\<lambda>p. p \<noteq> i) peers
      | PCommand _ \<Rightarrow> peers)"

definition file_or_empty :: "rstring \<Rightarrow> files \<Rightarrow> bytes" where
  "file_or_empty name dir = (case map_of dir name of None \<Rightarrow> [] | Some content \<Rightarrow> content)"

text \<open>
  The database is opened without the two Raft files, which lie in the same directory: it reads only the files of its log
  and its tables (\<open>raft_files_ignored\<close> in \<open>Raft_Recovery\<close>).
\<close>

definition new_in_dir ::
  "'x raft_ext_scheme \<Rightarrow> files \<Rightarrow> node_id \<Rightarrow> node_id list \<Rightarrow> config \<Rightarrow> nat \<Rightarrow> (nat \<Rightarrow> nat) \<Rightarrow> raft_node io" where
  "new_in_dir E dir me peers cfg now rand =
     (case log_store_open E (file_or_empty raft_log_name dir) of
        (ls, persisted_log) \<Rightarrow>
          (let meta = file_or_empty raft_meta_name dir;
               state = meta_open meta;
               log = (if persisted_log = [] then [dummy_entry E] else persisted_log);
               safe_commit = min (ms_commit_index state) (length log - 1);
               recovered_peers = fold (recover_peer me) (take safe_commit (drop 1 log)) peers in
           and_then (case open_in_dir E (AList.delete raft_log_name (AList.delete raft_meta_name dir)) cfg of
                       Inr db \<Rightarrow> Inr db | Inl _ \<Rightarrow> panic ''called Result::unwrap() on an Err value'') (\<lambda>db.
           Inr (reset_election_timeout now
             \<lparr>rf_db = db, rf_id = me, rf_peers = recovered_peers, current_term = ms_current_term state,
              voted_for = ms_voted_for state, rf_log = log, commit_index = safe_commit,
              last_applied = safe_commit, next_index = [], match_index = [], rf_role = Follower,
              votes_received = [], leader_id = None, rf_outbox = [], election_deadline = now,
              heartbeat_deadline = now, election_timeout = None, pending_requests = [],
              peer_changes_tx = None, log_store = Some ls, meta_store = Some meta,
              rf_oneshots = [], rand_source = rand, rand_pos = 0\<rparr>))))"

text \<open>The files of a node.\<close>

definition node_disk :: "raft_node \<Rightarrow> files" where
  "node_disk n =
     fs_write raft_log_name (case log_store n of None \<Rightarrow> [] | Some s \<Rightarrow> ls_file s)
       (fs_write raft_meta_name (case meta_store n of None \<Rightarrow> [] | Some m \<Rightarrow> m) (disk (rf_db n)))"

end
