(* ===== verification/Raft_Election.thy ===== *)
theory Raft_Election
  imports Raft_Node
begin

text \<open>
  What the handlers of a Raft node do to its election state. Each handler is one of a few core
  transitions of term, vote and role (\<open>down\<close>, \<open>elect\<close>, \<open>grant\<close>, \<open>add_vote\<close>,
  \<open>lead\<close>) followed by changes that are quiet: they leave this state alone and send no vote. The
  membership is fixed here: the logs hold commands only.
\<close>

section \<open>Well-formed entries, messages and stores\<close>

definition entry_good :: "'x raft_ext_scheme \<Rightarrow> log_entry \<Rightarrow> bool" where
  "entry_good E e \<longleftrightarrow> entry_codec_ok E e \<and> (\<exists>r. le_payload e = PCommand r)"

definition command_good :: "'x raft_ext_scheme \<Rightarrow> command \<Rightarrow> bool" where
  "command_good E c \<longleftrightarrow> (\<forall>t. entry_good E \<lparr>le_term = t, le_payload = PCommand (log_record_new E 0 c)\<rparr>)"

fun msg_good :: "'x raft_ext_scheme \<Rightarrow> message \<Rightarrow> bool" where
  "msg_good E (MAppendEntries a) = list_all (entry_good E) (ae_entries a)"
| "msg_good E (MClientCommand c) = command_good E c"
| "msg_good E (MClientRequest r) = command_good E (cr_command r)"
| "msg_good E (MRequestVote r) = (rv_candidate_id r \<noteq> 0)"
| "msg_good E (MAddNode a) = False"
| "msg_good E (MRemoveNode a) = False"
| "msg_good E _ = True"

fun is_vote :: "message \<Rightarrow> bool" where
  "is_vote (MRequestVoteResponse r) = True"
| "is_vote _ = False"

definition log_good :: "'x raft_ext_scheme \<Rightarrow> raft_node \<Rightarrow> bool" where
  "log_good E n \<longleftrightarrow>
     list_all (entry_good E) (rf_log n) \<and>
     (\<exists>s es. log_store n = Some s \<and> store_holds E s es \<and> list_all (entry_good E) es)"

text \<open>The metadata on disk has the term and the vote of the node.\<close>

definition meta_good :: "raft_node \<Rightarrow> bool" where
  "meta_good n \<longleftrightarrow>
     (\<exists>m. meta_store n = Some m \<and> ms_current_term (meta_open m) = current_term n \<and>
          ms_voted_for (meta_open m) = voted_for n)"

section \<open>Quiet changes\<close>

definition sends :: "'x raft_ext_scheme \<Rightarrow> raft_node \<Rightarrow> raft_node \<Rightarrow> bool" where
  "sends E n n' \<longleftrightarrow>
     (\<exists>ms. rf_outbox n' = rf_outbox n @ ms \<and>
        (log_good E n \<longrightarrow> list_all (\<lambda>(to, m). msg_good E m \<and> \<not> is_vote m) ms))"

lemma sends_same: "rf_outbox n' = rf_outbox n \<Longrightarrow> sends E n n'"
  by (simp add: sends_def)

lemma sends_trans:
  assumes "sends E a b" and "sends E b c" and "log_good E a \<longrightarrow> log_good E b"
  shows "sends E a c"
proof -
  from assms(1) obtain ms where "rf_outbox b = rf_outbox a @ ms"
    "log_good E a \<longrightarrow> list_all (\<lambda>(to, m). msg_good E m \<and> \<not> is_vote m) ms" by (auto simp: sends_def)
  moreover from assms(2) obtain ks where "rf_outbox c = rf_outbox b @ ks"
    "log_good E b \<longrightarrow> list_all (\<lambda>(to, m). msg_good E m \<and> \<not> is_vote m) ks" by (auto simp: sends_def)
  ultimately show ?thesis using assms(3) unfolding sends_def by (intro exI [of _ "ms @ ks"]) simp
qed

definition quiet :: "'x raft_ext_scheme \<Rightarrow> raft_node \<Rightarrow> raft_node \<Rightarrow> bool" where
  "quiet E n n' \<longleftrightarrow>
     rf_id n' = rf_id n \<and> current_term n' = current_term n \<and> voted_for n' = voted_for n \<and>
     votes_received n' = votes_received n \<and> (rf_role n' = rf_role n \<or> rf_role n' = Follower) \<and>
     (log_good E n \<longrightarrow> log_good E n' \<and> rf_peers n' = rf_peers n) \<and>
     (voted_for n \<noteq> Some 0 \<longrightarrow> meta_good n \<longrightarrow> meta_good n') \<and> sends E n n'"

lemma quiet_refl [simp]: "quiet E n n"
  by (simp add: quiet_def sends_same)

lemma quiet_trans [trans]:
  assumes "quiet E a b" and "quiet E b c"
  shows "quiet E a c"
proof -
  have "sends E a c" using assms by (intro sends_trans [of E a b c]) (simp_all add: quiet_def)
  moreover have "rf_role c = rf_role a \<or> rf_role c = Follower"
    using assms by (auto simp: quiet_def)
  ultimately show ?thesis using assms by (simp add: quiet_def)
qed

text \<open>Changes of other fields only.\<close>

lemma quiet_fields:
  assumes "rf_id n' = rf_id n" "current_term n' = current_term n" "voted_for n' = voted_for n"
    "votes_received n' = votes_received n" "rf_role n' = rf_role n \<or> rf_role n' = Follower"
    "rf_log n' = rf_log n" "log_store n' = log_store n" "rf_peers n' = rf_peers n"
    "meta_store n' = meta_store n" "rf_outbox n' = rf_outbox n"
  shows "quiet E n n'"
  using assms by (simp add: quiet_def log_good_def meta_good_def sends_same)

lemma quiet_push: "msg_good E m \<Longrightarrow> \<not> is_vote m \<Longrightarrow> quiet E n (push_outbox to m n)"
  by (simp add: quiet_def push_outbox_def log_good_def meta_good_def sends_def)

lemma quiet_reset: "quiet E n (reset_election_timeout now n)"
  by (rule quiet_fields) (simp_all add: reset_election_timeout_def split: option.splits)

lemma quiet_respond: "quiet E n (respond rsp s v m l t n)"
  by (cases rsp) (simp_all add: quiet_def respond_def responder_send_def log_good_def meta_good_def sends_def)

lemma quiet_persist: "quiet E n (persist_meta n)"
  by (auto simp: quiet_def persist_meta_def log_good_def meta_good_def meta_open_save sends_same)

lemma quiet_push_log:
  assumes "entry_good E e"
  shows "quiet E n (push_log_entry E e n)"
proof -
  have "\<exists>s' fs. log_store (push_log_entry E e n) = Some s' \<and> store_holds E s' fs \<and> list_all (entry_good E) fs"
    if "log_store n = Some s" "store_holds E s es" "list_all (entry_good E) es" for s es
  proof -
    have "entry_codec_ok E e" using assms by (simp add: entry_good_def)
    from store_holds_append [OF that(2) this] obtain s' where "log_store_append E e s = Inr s'"
      "store_holds E s' (es @ [e])" .
    with that assms show ?thesis
      by (intro exI [of _ s'] exI [of _ "es @ [e]"]) (simp add: push_log_entry_def)
  qed
  then have "log_good E n \<longrightarrow> log_good E (push_log_entry E e n)"
    using assms unfolding log_good_def by (auto simp: push_log_entry_def)
  then show ?thesis by (simp add: quiet_def push_log_entry_def meta_good_def sends_same)
qed

lemma quiet_truncate: "quiet E n (truncate_log k n)"
proof -
  have "log_good E n \<longrightarrow> log_good E (truncate_log k n)"
    unfolding log_good_def truncate_log_def
    by (auto simp: list_all_iff dest: in_set_takeD intro!: exI [of _ "take k _"] store_holds_truncate)
  then show ?thesis by (simp add: quiet_def truncate_log_def meta_good_def sends_same)
qed

lemma quiet_append_loop: "list_all (entry_good E) es \<Longrightarrow> quiet E n (append_loop E i es n)"
proof (induction E i es n rule: append_loop.induct)
  case (2 E index incoming es n)
  then have good: "entry_good E incoming" by simp
  let ?m = "if index < length (rf_log n) then
          if le_term (rf_log n ! index) \<noteq> le_term incoming
          then push_log_entry E incoming (truncate_log index n)
          else n
        else push_log_entry E incoming n"
  have "quiet E n ?m"
    using quiet_push_log [OF good] quiet_trans [OF quiet_truncate quiet_push_log [OF good]] by simp
  moreover have "quiet E ?m (append_loop E (index + 1) es ?m)" using 2 by simp
  ultimately have "quiet E n (append_loop E (index + 1) es ?m)" by (rule quiet_trans)
  then show ?case by (simp only: append_loop.simps)
qed simp

lemma quiet_send: "send_append_entries peer n = Inr n' \<Longrightarrow> quiet E n n'"
proof -
  assume "send_append_entries peer n = Inr n'"
  then obtain a where a: "make_append_entries peer n = Inr a" and n': "n' = push_outbox peer (MAppendEntries a) n"
    by (auto simp: send_append_entries_def and_then_eq_Inr)
  then obtain k where "ae_entries a = drop k (rf_log n)"
    by (auto simp: make_append_entries_def panic_def split: option.splits if_splits)
  then have "log_good E n \<longrightarrow> list_all (entry_good E) (ae_entries a)"
    by (auto simp: log_good_def list_all_iff dest: in_set_dropD)
  then show ?thesis
    by (simp add: n' quiet_def push_outbox_def log_good_def meta_good_def sends_def)
qed

lemma quiet_send_all: "send_all ps n = Inr n' \<Longrightarrow> quiet E n n'"
proof (induction ps n rule: send_all.induct)
  case (2 p ps n)
  then obtain m where "send_append_entries p n = Inr m" "send_all ps m = Inr n'"
    by (auto simp: and_then_eq_Inr)
  with 2 quiet_send quiet_trans show ?case by blast
qed simp

lemma quiet_init_peers: "init_peers ps n = Inr n' \<Longrightarrow> quiet E n n'"
proof (induction ps n rule: init_peers.induct)
  case (2 p ps n)
  let ?m = "n\<lparr>next_index := AList.update p (length (rf_log n)) (next_index n),
          match_index := AList.update p 0 (match_index n)\<rparr>"
  obtain m where m: "send_append_entries p ?m = Inr m" "init_peers ps m = Inr n'"
    using "2.prems" by (auto simp: and_then_eq_Inr)
  have "quiet E n ?m" by (rule quiet_fields) simp_all
  also have "quiet E ?m m" by (rule quiet_send [OF m(1)])
  also have "quiet E m n'" using 2 m by blast
  finally show ?case .
qed simp

lemma quiet_answer: "quiet E n (answer_pending i t r n)"
proof (cases "map_of (pending_requests n) (i, t)")
  case (Some rsp)
  let ?m = "n\<lparr>pending_requests := AList.delete (i, t) (pending_requests n)\<rparr>"
  have "quiet E n ?m" by (rule quiet_fields) simp_all
  also have "quiet E ?m (answer_pending i t r n)"
    using Some quiet_respond [of E ?m] by (auto simp: answer_pending_def Let_def split: sum.splits)
  finally show ?thesis .
qed (simp add: answer_pending_def)

lemma quiet_apply_entry:
  assumes "apply_entry_at E i n = Inr n'" and "log_good E n"
  shows "quiet E n n'"
proof -
  have i: "i < length (rf_log n)" using apply_entry_at_simps(12) [OF assms(1)] .
  then have "entry_good E (rf_log n ! i)" using assms(2) by (simp add: log_good_def list_all_length)
  then obtain r where r: "le_payload (rf_log n ! i) = PCommand r" by (auto simp: entry_good_def)
  obtain db rs where "(case lr_command r of CmdSet key v \<Rightarrow> db_insert E key v (rf_db n)
      | CmdDelete key \<Rightarrow> db_delete E key (rf_db n)) = (db, rs)"
    by (rule prod.exhaust)
  then have db: "apply_payload E (PCommand r) n = (n\<lparr>rf_db := db\<rparr>, None, rs)"
    by (simp add: apply_payload_def)
  have n': "n' = answer_pending i (le_term (rf_log n ! i)) rs (n\<lparr>rf_db := db, last_applied := i\<rparr>)"
    using assms(1) i by (simp add: apply_entry_at_def r db Let_def)
  have "quiet E n (n\<lparr>rf_db := db, last_applied := i\<rparr>)" by (rule quiet_fields) simp_all
  also have "quiet E (n\<lparr>rf_db := db, last_applied := i\<rparr>) n'" unfolding n' by (rule quiet_answer)
  finally show ?thesis .
qed

lemma quiet_apply_committed:
  "apply_committed_entries E n = Inr n' \<Longrightarrow> log_good E n \<Longrightarrow> quiet E n n'"
proof (induction E n rule: apply_committed_entries.induct)
  case (1 E n)
  show ?case
  proof (cases "last_applied n < commit_index n")
    case True
    with "1.prems" obtain m where m: "apply_entry_at E (last_applied n + 1) n = Inr m"
      "apply_committed_entries E m = Inr n'"
      by (auto simp: apply_committed_entries.simps [of E n] and_then_eq_Inr)
    have q: "quiet E n m" by (rule quiet_apply_entry [OF m(1) "1.prems"(2)])
    then have "log_good E m" using "1.prems"(2) by (simp add: quiet_def)
    with 1 True m q quiet_trans show ?thesis by blast
  next
    case False
    with "1.prems" show ?thesis by (simp add: apply_committed_entries.simps [of E n])
  qed
qed

lemma commit_at_fields:
  "commit_at i n = n \<or> commit_at i n = n\<lparr>commit_index := i\<rparr>"
  by (simp add: commit_at_def Let_def)

lemma quiet_commit_fold: "quiet E n (fold commit_at is n)"
proof (induction "is" arbitrary: n)
  case (Cons i "is")
  have "quiet E n (commit_at i n)"
    using commit_at_fields [of i n] by (auto intro: quiet_fields)
  with Cons quiet_trans show ?case by simp blast
qed simp

lemma quiet_update_commit:
  assumes "update_commit_index E n = Inr n'" and "log_good E n"
  shows "quiet E n n'"
proof -
  let ?m = "persist_meta (fold commit_at [commit_index n + 1..<length (rf_log n)] n)"
  have q: "quiet E n ?m" by (rule quiet_trans [OF quiet_commit_fold quiet_persist])
  moreover have "quiet E ?m n'"
    using assms q by (intro quiet_apply_committed) (simp_all add: update_commit_index_def Let_def quiet_def)
  ultimately show ?thesis by (rule quiet_trans)
qed

section \<open>The election state\<close>

definition node_good :: "'x raft_ext_scheme \<Rightarrow> raft_node \<Rightarrow> bool" where
  "node_good E n \<longleftrightarrow> log_good E n \<and> meta_good n \<and> voted_for n \<noteq> Some 0 \<and> rf_id n \<noteq> 0"

text \<open>The votes that a candidate or leader counts are in the set \<open>V\<close> of the votes ever cast.\<close>

type_synonym votes = "(u64 \<times> node_id \<times> node_id) set"

definition node_votes :: "votes \<Rightarrow> raft_node \<Rightarrow> bool" where
  "node_votes V n \<longleftrightarrow>
     (rf_role n \<noteq> Follower \<longrightarrow>
        distinct (votes_received n) \<and>
        (\<forall>v \<in> set (votes_received n). (current_term n, v, rf_id n) \<in> V)) \<and>
     (rf_role n = Leader \<longrightarrow> majority n \<le> length (votes_received n))"

definition cast :: "raft_node \<Rightarrow> votes" where
  "cast n = {(current_term n, rf_id n, c) | c. voted_for n = Some c}"

definition vote_mono :: "raft_node \<Rightarrow> raft_node \<Rightarrow> bool" where
  "vote_mono n n' \<longleftrightarrow>
     current_term n \<le> current_term n' \<and>
     (current_term n' = current_term n \<longrightarrow> voted_for n \<noteq> None \<longrightarrow> voted_for n' = voted_for n)"

definition votes_ok :: "'x raft_ext_scheme \<Rightarrow> raft_node \<Rightarrow> raft_node \<Rightarrow> bool" where
  "votes_ok E n n' \<longleftrightarrow>
     (\<exists>ms. rf_outbox n' = rf_outbox n @ ms \<and>
        (\<forall>to m. (to, m) \<in> set ms \<longrightarrow> msg_good E m \<and>
           (\<forall>r. m = MRequestVoteResponse r \<and> vr_vote_granted r \<longrightarrow> (vr_term r, vr_voter_id r, to) \<in> cast n')))"

text \<open>What every handler keeps.\<close>

definition advances :: "'x raft_ext_scheme \<Rightarrow> votes \<Rightarrow> raft_node \<Rightarrow> raft_node \<Rightarrow> bool" where
  "advances E V n n' \<longleftrightarrow>
     node_good E n' \<and> rf_id n' = rf_id n \<and> rf_peers n' = rf_peers n \<and>
     node_votes (V \<union> cast n') n' \<and> vote_mono n n' \<and> votes_ok E n n'"

lemma advances_quiet:
  assumes adv: "advances E V n m" and q: "quiet E m n'"
  shows "advances E V n n'"
proof -
  have good: "log_good E m" using adv by (simp add: advances_def node_good_def)
  have same: "rf_id n' = rf_id m" "current_term n' = current_term m" "voted_for n' = voted_for m"
    "votes_received n' = votes_received m" "rf_role n' = rf_role m \<or> rf_role n' = Follower"
    "rf_peers n' = rf_peers m" using q good by (simp_all add: quiet_def)
  then have cast: "cast n' = cast m" by (simp add: cast_def)
  obtain ms where ms: "rf_outbox n' = rf_outbox m @ ms" "list_all (\<lambda>(to, m). msg_good E m \<and> \<not> is_vote m) ms"
    using q good by (auto simp: quiet_def sends_def)
  obtain ks where ks: "rf_outbox m = rf_outbox n @ ks" "\<forall>to x. (to, x) \<in> set ks \<longrightarrow> msg_good E x \<and>
      (\<forall>r. x = MRequestVoteResponse r \<and> vr_vote_granted r \<longrightarrow> (vr_term r, vr_voter_id r, to) \<in> cast m)"
    using adv by (auto simp: advances_def votes_ok_def)
  have "votes_ok E n n'"
    unfolding votes_ok_def
  proof (intro exI [of _ "ks @ ms"] conjI allI impI)
    show "rf_outbox n' = rf_outbox n @ ks @ ms" using ms ks by simp
    fix to x assume "(to, x) \<in> set (ks @ ms)"
    then consider "(to, x) \<in> set ks" | "(to, x) \<in> set ms" by auto
    then show "msg_good E x" using ks(2) ms(2) by cases (auto simp: list_all_iff)
    fix r assume "x = MRequestVoteResponse r \<and> vr_vote_granted r"
    with \<open>(to, x) \<in> set (ks @ ms)\<close> ks(2) ms(2) show "(vr_term r, vr_voter_id r, to) \<in> cast n'"
      unfolding cast by (auto simp: list_all_iff)
  qed
  moreover have maj: "majority n' = majority m" by (simp add: majority_def same(6))
  have "node_votes (V \<union> cast m) m" using adv by (simp add: advances_def)
  then have "node_votes (V \<union> cast n') n'"
    using same(5) unfolding cast by (elim disjE) (simp_all add: node_votes_def same(1-4) maj)
  moreover have "node_good E n'"
    using adv q same by (auto simp: advances_def node_good_def quiet_def)
  ultimately show ?thesis using adv same by (simp add: advances_def vote_mono_def)
qed

section \<open>Core transitions\<close>

definition down :: "u64 \<Rightarrow> raft_node \<Rightarrow> raft_node" where
  "down t n = persist_meta (n\<lparr>current_term := t, rf_role := Follower, voted_for := None\<rparr>)"

definition elect :: "raft_node \<Rightarrow> raft_node" where
  "elect n = (persist_meta (n\<lparr>rf_role := Candidate, current_term := current_term n + 1,
     voted_for := Some (rf_id n)\<rparr>))\<lparr>votes_received := [rf_id n]\<rparr>"

definition grant :: "node_id \<Rightarrow> raft_node \<Rightarrow> raft_node" where
  "grant c n = persist_meta (n\<lparr>voted_for := Some c\<rparr>)"

definition add_vote :: "node_id \<Rightarrow> raft_node \<Rightarrow> raft_node" where
  "add_vote v n = n\<lparr>votes_received := List.insert v (votes_received n)\<rparr>"

definition lead :: "raft_node \<Rightarrow> raft_node" where
  "lead n = n\<lparr>rf_role := Leader\<rparr>"

lemmas core_defs = down_def elect_def grant_def add_vote_def lead_def persist_meta_def

lemma votes_ok_same: "rf_outbox n' = rf_outbox n \<Longrightarrow> votes_ok E n n'"
  by (simp add: votes_ok_def)

lemma advances_refl: "node_good E n \<Longrightarrow> node_votes V n \<Longrightarrow> advances E V n n"
  by (auto simp: advances_def node_votes_def vote_mono_def votes_ok_same)

lemma meta_good_persist: "voted_for n \<noteq> Some 0 \<Longrightarrow> meta_store n \<noteq> None \<Longrightarrow> meta_good (persist_meta n)"
  by (auto simp: meta_good_def persist_meta_def meta_open_save)

lemma advances_down:
  assumes "node_good E n" and "current_term n < t"
  shows "advances E V n (down t n)"
proof -
  have "meta_good (down t n)"
    unfolding down_def using assms(1) by (intro meta_good_persist) (auto simp: node_good_def meta_good_def)
  then have "node_good E (down t n)"
    using assms(1) by (simp add: node_good_def log_good_def core_defs)
  then show ?thesis
    using assms(2)
    by (auto simp: advances_def node_votes_def vote_mono_def cast_def core_defs intro!: votes_ok_same)
qed

lemma term_Suc: "(t :: u64) \<noteq> - 1 \<Longrightarrow> t < t + 1"
proof -
  assume "t \<noteq> - 1"
  then have "t < - 1" by (simp add: word_order.not_eq_extremum)
  from unat_Suc_u64 [OF this] show "t < t + 1" by (simp add: word_less_nat_alt)
qed

lemma advances_elect:
  assumes "node_good E n" and "current_term n \<noteq> - 1"
  shows "advances E V n (elect n)" and "majority n \<le> 1 \<Longrightarrow> advances E V n (lead (elect n))"
proof -
  have "meta_good (elect n)"
    using assms(1) by (auto simp: node_good_def meta_good_def core_defs meta_open_save)
  then have good: "node_good E (elect n)" "node_good E (lead (elect n))"
    using assms(1) by (simp_all add: node_good_def log_good_def core_defs meta_good_def)
  note t = term_Suc [OF assms(2)]
  show "advances E V n (elect n)"
    using good t by (auto simp: advances_def node_votes_def vote_mono_def cast_def core_defs intro!: votes_ok_same)
  show "advances E V n (lead (elect n))" if "majority n \<le> 1"
    using good t that
    by (auto simp: advances_def node_votes_def vote_mono_def cast_def core_defs majority_def intro!: votes_ok_same)
qed

lemma advances_grant:
  assumes adv: "advances E V n m" and c: "voted_for m = None \<or> voted_for m = Some c" and "c \<noteq> 0"
  shows "advances E V n (grant c m)"
proof -
  have good: "node_good E m" using adv by (simp add: advances_def)
  have "meta_good (grant c m)"
    using good assms(3) unfolding grant_def by (intro meta_good_persist) (auto simp: node_good_def meta_good_def)
  then have "node_good E (grant c m)"
    using good assms(3) by (simp add: node_good_def log_good_def core_defs)
  moreover have "cast m \<subseteq> cast (grant c m)" using c by (auto simp: cast_def core_defs)
  moreover have f: "rf_role (grant c m) = rf_role m" "votes_received (grant c m) = votes_received m"
    "current_term (grant c m) = current_term m" "rf_id (grant c m) = rf_id m" "majority (grant c m) = majority m"
    by (simp_all add: core_defs majority_def)
  have "node_votes (V \<union> cast m) m" using adv by (simp add: advances_def)
  with \<open>cast m \<subseteq> cast (grant c m)\<close> have "node_votes (V \<union> cast (grant c m)) (grant c m)"
    unfolding node_votes_def f by blast
  moreover have "votes_ok E n (grant c m)"
  proof -
    obtain ks where "rf_outbox m = rf_outbox n @ ks" "\<forall>to x. (to, x) \<in> set ks \<longrightarrow> msg_good E x \<and>
        (\<forall>r. x = MRequestVoteResponse r \<and> vr_vote_granted r \<longrightarrow> (vr_term r, vr_voter_id r, to) \<in> cast m)"
      using adv by (auto simp: advances_def votes_ok_def)
    with \<open>cast m \<subseteq> cast (grant c m)\<close> show ?thesis
      unfolding votes_ok_def by (intro exI [of _ ks]) (auto simp: core_defs)
  qed
  moreover have "vote_mono n (grant c m)"
    using adv c by (auto simp: advances_def vote_mono_def core_defs)
  ultimately show ?thesis using adv by (simp add: advances_def core_defs)
qed

lemma advances_add_vote:
  assumes "node_good E n" and "node_votes V n" and "rf_role n = Candidate"
    and "(current_term n, v, rf_id n) \<in> V"
  shows "advances E V n (add_vote v n)"
    and "majority n \<le> length (votes_received (add_vote v n)) \<Longrightarrow> advances E V n (lead (add_vote v n))"
  using assms
  by (auto simp: advances_def node_votes_def vote_mono_def node_good_def log_good_def meta_good_def
      majority_def core_defs intro!: votes_ok_same)

lemma advances_lead:
  assumes "node_good E n" and "node_votes V n" and "rf_role n = Candidate"
    and "majority n \<le> length (votes_received n)"
  shows "advances E V n (lead n)"
  using assms
  by (auto simp: advances_def node_votes_def vote_mono_def node_good_def log_good_def meta_good_def
      majority_def core_defs intro!: votes_ok_same)

section \<open>The handlers\<close>

lemma quiet_step_down: "quiet E (down t n) (step_down t now n)"
proof -
  let ?a = "n\<lparr>current_term := t, rf_role := Follower, voted_for := None, leader_id := None\<rparr>"
  let ?b = "persist_meta (reset_election_timeout now ?a)"
  let ?c = "?b\<lparr>pending_requests := []\<rparr>"
  have respond: "quiet E m (fold (\<lambda>(_, rsp) n. respond rsp False None uncertain_message None t n) ps m)" for m
    and ps :: "((nat \<times> u64) \<times> responder) list"
  proof (induction ps arbitrary: m)
    case (Cons p ps)
    obtain k rsp where p: "p = (k, rsp)" by (cases p)
    have "quiet E m (respond rsp False None uncertain_message None t m)" by (rule quiet_respond)
    from quiet_trans [OF this Cons] show ?case by (simp add: p)
  qed simp
  have "quiet E (down t n) ?c"
    by (rule quiet_fields)
      (simp_all add: down_def persist_meta_def reset_election_timeout_def split: option.splits)
  also have "quiet E ?c (step_down t now n)"
    using respond [of ?c "pending_requests ?b"] by (simp add: step_down_def Let_def)
  finally show ?thesis .
qed

lemma advances_step_down:
  "node_good E n \<Longrightarrow> current_term n < t \<Longrightarrow> advances E V n (step_down t now n)"
  by (rule advances_quiet [OF advances_down quiet_step_down])

lemma quiet_become_leader:
  assumes "become_leader now n = Inr n'"
  shows "quiet E (lead n) n'"
proof -
  let ?a = "n\<lparr>rf_role := Leader, leader_id := Some (rf_id n)\<rparr>"
  obtain m where m: "init_peers (rf_peers n) ?a = Inr m" "n' = m\<lparr>heartbeat_deadline := now + 100\<rparr>"
    using assms by (auto simp: become_leader_def and_then_eq_Inr)
  have "quiet E (lead n) ?a" by (rule quiet_fields) (simp_all add: lead_def)
  also have "quiet E ?a m" by (rule quiet_init_peers [OF m(1)])
  also have "quiet E m n'" unfolding m(2) by (rule quiet_fields) simp_all
  finally show ?thesis .
qed

lemma quiet_push_all:
  "msg_good E m \<Longrightarrow> \<not> is_vote m \<Longrightarrow> quiet E n (fold (\<lambda>p. push_outbox p m) ps n)"
proof (induction ps arbitrary: n)
  case (Cons p ps)
  from quiet_trans [OF quiet_push [OF Cons.prems] Cons.IH [OF Cons.prems]] show ?case by simp
qed simp

lemma advances_start_election:
  assumes good: "node_good E n" and t: "current_term n \<noteq> - 1" and run: "start_election now n = Inr n'"
  shows "advances E V n n'"
proof -
  let ?a = "n\<lparr>rf_role := Candidate, leader_id := None, current_term := current_term n + 1,
                voted_for := Some (rf_id n)\<rparr>"
  let ?b = "(persist_meta ?a)\<lparr>votes_received := [rf_id n]\<rparr>"
  have ab: "quiet E (elect n) ?b" by (rule quiet_fields) (simp_all add: elect_def persist_meta_def)
  have id: "rf_id ?b = rf_id n" "rf_id (persist_meta ?a) = rf_id n" by (simp_all add: persist_meta_def)
  show ?thesis
  proof (cases "majority ?b \<le> 1")
    case True
    then have lead: "become_leader now ?b = Inr n'" using run by (simp add: start_election_def Let_def id)
    have "quiet E (lead (elect n)) (lead ?b)"
      by (rule quiet_fields) (simp_all add: elect_def persist_meta_def lead_def)
    moreover have "majority n \<le> 1" using True by (simp add: majority_def persist_meta_def)
    ultimately show ?thesis
      using advances_quiet [OF advances_elect(2) [OF good t]] quiet_become_leader [OF lead] quiet_trans by blast
  next
    case False
    let ?c = "reset_election_timeout now ?b"
    obtain i lt where n': "n' = fold (\<lambda>peer. push_outbox peer (MRequestVote \<lparr>rv_term = current_term ?c,
        rv_candidate_id = rf_id ?c, rv_last_log_index = i, rv_last_log_term = lt\<rparr>)) (rf_peers ?c) ?c"
      using run False by (auto simp: start_election_def Let_def id and_then_eq_Inr)
    have "rf_id ?c = rf_id n"
      using quiet_reset [of E ?b now] by (simp add: quiet_def persist_meta_def)
    then have "quiet E ?c n'"
      unfolding n' using good by (intro quiet_push_all) (simp_all add: node_good_def)
    with ab quiet_reset quiet_trans have "quiet E (elect n) n'" by blast
    then show ?thesis by (rule advances_quiet [OF advances_elect(1) [OF good t]])
  qed
qed

lemma advances_vote_response:
  assumes good: "node_good E n" and votes: "node_votes V n"
    and V: "vr_vote_granted r \<Longrightarrow> (vr_term r, vr_voter_id r, rf_id n) \<in> V"
    and run: "handle_vote_response r now n = Inr n'"
  shows "advances E V n n'"
proof -
  consider "current_term n < vr_term r" | "n' = n"
    | "vr_term r = current_term n" "rf_role n = Candidate" "\<not> current_term n < vr_term r" "n' \<noteq> n"
    using run by (auto simp: handle_vote_response_def Let_def split: if_splits)
  then show ?thesis
  proof cases
    case 1
    then have "n' = step_down (vr_term r) now n" using run by (simp add: handle_vote_response_def)
    with advances_step_down [OF good 1] show ?thesis by simp
  next
    case 2
    with advances_refl [OF good votes] show ?thesis by simp
  next
    case 3
    let ?m = "if vr_vote_granted r then add_vote (vr_voter_id r) n else n"
    have run': "(if majority ?m \<le> length (votes_received ?m) then become_leader now ?m else Inr ?m) = Inr n'"
      using run 3 unfolding add_vote_def by (simp add: handle_vote_response_def Let_def split del: if_split)
    have maj: "majority ?m = majority n" by (simp add: majority_def add_vote_def)
    have adv: "advances E V n ?m" "majority n \<le> length (votes_received ?m) \<Longrightarrow> advances E V n (lead ?m)"
      using advances_refl [OF good votes] advances_lead [OF good votes] advances_add_vote [OF good votes] V 3
      by auto
    show ?thesis
    proof (cases "majority ?m \<le> length (votes_received ?m)")
      case True
      then have "become_leader now ?m = Inr n'" using run' by simp
      from advances_quiet [OF adv(2) quiet_become_leader [OF this]] True maj show ?thesis by simp
    next
      case False
      then show ?thesis using run' adv(1) by simp
    qed
  qed
qed

text \<open>A granted vote is in the vote of the node, for the candidate that asked.\<close>

lemma advances_request_vote:
  assumes good: "node_good E n" and votes: "node_votes V n" and c: "rv_candidate_id q \<noteq> 0"
    and run: "handle_request_vote q now n = Inr (n', r)"
  shows "advances E V n n' \<and>
    (vr_vote_granted r \<longrightarrow> (vr_term r, vr_voter_id r, rv_candidate_id q) \<in> cast n')"
proof -
  define m where "m = (if rv_term q > current_term n then step_down (rv_term q) now n else n)"
  have adv: "advances E V n m"
    using advances_refl [OF good votes] advances_step_down [OF good] by (simp add: m_def)
  consider "n' = n" "\<not> vr_vote_granted r" | "n' = m" "\<not> vr_vote_granted r"
    | "n' = reset_election_timeout now (grant (rv_candidate_id q) m)" "r = vote_reply n' True"
      "voted_for m = None \<or> voted_for m = Some (rv_candidate_id q)"
    using run
    by (auto simp: handle_request_vote_def Let_def m_def [symmetric] vote_reply_def grant_def and_then_eq_Inr
        split: if_splits option.splits)
  then show ?thesis
  proof cases
    case 1
    with advances_refl [OF good votes] show ?thesis by simp
  next
    case 2
    with adv show ?thesis by simp
  next
    case 3
    have q: "quiet E (grant (rv_candidate_id q) m) n'" unfolding 3(1) by (rule quiet_reset)
    then have "voted_for n' = Some (rv_candidate_id q)" by (simp add: quiet_def grant_def persist_meta_def)
    then have "(vr_term r, vr_voter_id r, rv_candidate_id q) \<in> cast n'"
      by (simp add: 3(2) vote_reply_def cast_def)
    with advances_quiet [OF advances_grant [OF adv 3(3) c] q] show ?thesis by simp
  qed
qed

lemma advances_append_entries:
  assumes good: "node_good E n" and votes: "node_votes V n" and es: "list_all (entry_good E) (ae_entries a)"
    and run: "handle_append_entries E a now n = Inr (n', r)"
  shows "advances E V n n'"
proof -
  define m where "m = (if ae_term a > current_term n then step_down (ae_term a) now n else n)"
  have adv: "advances E V n m"
    using advances_refl [OF good votes] advances_step_down [OF good] by (simp add: m_def)
  define k where "k = reset_election_timeout now (m\<lparr>rf_role := Follower, leader_id := Some (ae_leader_id a)\<rparr>)"
  have mk: "quiet E m k"
    unfolding k_def by (rule quiet_trans [OF quiet_fields quiet_reset]) simp_all
  have good_k: "log_good E k"
    using adv mk by (simp add: advances_def node_good_def quiet_def)
  let ?l = "append_loop E (ae_prev_log_index a + 1) (ae_entries a) k"
  let ?p = "persist_meta (?l\<lparr>commit_index := min (ae_leader_commit a) (length (rf_log ?l) - 1)\<rparr>)"
  have kp: "quiet E k ?p"
  proof -
    have "quiet E k ?l" by (rule quiet_append_loop [OF es])
    also have "quiet E ?l (?l\<lparr>commit_index := min (ae_leader_commit a) (length (rf_log ?l) - 1)\<rparr>)"
      by (rule quiet_fields) simp_all
    also have "quiet E \<dots> ?p" by (rule quiet_persist)
    finally show ?thesis .
  qed
  consider "n' = n" | "n' = k" | "apply_committed_entries E ?p = Inr n'"
    using run
    by (auto simp: handle_append_entries_def Let_def m_def [symmetric] k_def [symmetric] and_then_eq_Inr
        split: if_splits)
  then show ?thesis
  proof cases
    case 1
    with advances_refl [OF good votes] show ?thesis by simp
  next
    case 2
    with advances_quiet [OF adv mk] show ?thesis by simp
  next
    case 3
    have "log_good E ?p" using kp good_k by (simp add: quiet_def)
    from quiet_apply_committed [OF 3 this] kp mk quiet_trans have "quiet E m n'" by blast
    then show ?thesis by (rule advances_quiet [OF adv])
  qed
qed

lemma advances_append_response:
  assumes good: "node_good E n" and votes: "node_votes V n"
    and run: "handle_append_entries_response E r now n = Inr n'"
  shows "advances E V n n'"
proof (cases "ar_term r > current_term n")
  case True
  then have "n' = step_down (ar_term r) now n" using run by (simp add: handle_append_entries_response_def)
  with advances_step_down [OF good True] show ?thesis by simp
next
  case False
  have log: "log_good E n" using good by (simp add: node_good_def)
  let ?p = "ar_follower_id r"
  have fields: "quiet E n (n\<lparr>match_index := a, next_index := b\<rparr>)" "quiet E n (n\<lparr>next_index := b\<rparr>)" for a b
    by (rule quiet_fields; simp)+
  have "quiet E n n'"
  proof (cases "rf_role n = Leader \<and> \<not> ar_term r < current_term n")
    case idle: False
    then have "n' = n"
      using run False
      by (cases "rf_role n = Leader"; cases "ar_term r < current_term n")
        (simp_all add: handle_append_entries_response_def)
    then show ?thesis by simp
  next
    case True
    show ?thesis
    proof (cases "ar_success r")
      case success: True
      let ?m = "n\<lparr>match_index := AList.update ?p (ar_match_index r) (match_index n),
          next_index := AList.update ?p (ar_match_index r + 1) (next_index n)\<rparr>"
      have "update_commit_index E ?m = Inr n'"
        using run False True success by (simp add: handle_append_entries_response_def Let_def)
      moreover have "log_good E ?m" using log by (simp add: log_good_def)
      ultimately show ?thesis using quiet_trans [OF fields(1) quiet_update_commit] by blast
    next
      case failure: False
      obtain k where "map_of (next_index n) ?p = Some k"
        using run False True failure
        by (cases "map_of (next_index n) ?p") (auto simp: handle_append_entries_response_def Let_def panic_def)
      then have "send_append_entries ?p (n\<lparr>next_index := AList.update ?p (if k > 1 then k - 1 else k) (next_index n)\<rparr>) = Inr n'"
        using run False True failure by (simp add: handle_append_entries_response_def Let_def split del: if_split)
      with quiet_trans [OF fields(2) quiet_send] show ?thesis by blast
    qed
  qed
  then show ?thesis by (rule advances_quiet [OF advances_refl [OF good votes]])
qed

lemma quiet_append_command:
  assumes "append_command E c n = Inr (n', i)" and "command_good E c" and "log_good E n"
  shows "quiet E n n'"
proof -
  let ?m = "push_log_entry E \<lparr>le_term = current_term n, le_payload = PCommand (log_record_new E 0 c)\<rparr> n"
  have q: "quiet E n ?m" using assms(2) by (intro quiet_push_log) (simp add: command_good_def)
  moreover have "log_good E ?m" using q assms(3) by (simp add: quiet_def)
  moreover have "(if rf_peers ?m = [] then update_commit_index E ?m else send_all (rf_peers ?m) ?m) = Inr n'"
    using assms(1) by (auto simp: append_command_def Let_def and_then_eq_Inr panic_def split: if_splits)
  ultimately show ?thesis
    using quiet_trans quiet_update_commit quiet_send_all by (metis (mono_tags))
qed

lemma quiet_store_write:
  assumes "submit_store_write E c rsp n = Inr n'" and "command_good E c" and "log_good E n"
  shows "quiet E n n'"
proof (cases "rf_role n = Leader")
  case True
  then obtain m i where m: "append_command E c n = Inr (m, i)"
    and n': "n' = respond rsp True None (committed_message i)
                   (case leader_id m of Some l \<Rightarrow> Some l | None \<Rightarrow> Some (rf_id m)) (le_term (rf_log m ! i)) m
      \<or> n' = m\<lparr>pending_requests := AList.update (i, le_term (rf_log m ! i)) rsp (pending_requests m)\<rparr>"
    using assms(1) by (auto simp: submit_store_write_def Let_def and_then_eq_Inr panic_def split: if_splits)
  have "quiet E n m" by (rule quiet_append_command [OF m assms(2,3)])
  also have "quiet E m n'"
    using n' quiet_respond by (auto intro: quiet_fields)
  finally show ?thesis .
next
  case False
  then show ?thesis using assms(1) quiet_respond by (auto simp: submit_store_write_def)
qed

definition request_good :: "'x raft_ext_scheme \<Rightarrow> store_request \<Rightarrow> bool" where
  "request_good E q \<longleftrightarrow> (\<forall>c. to_command (sr_operation q) = Some c \<longrightarrow> command_good E c)"

lemma quiet_store_request:
  assumes "handle_store_request E q now n = Inr n'" and "request_good E q" and "log_good E n"
  shows "quiet E n n'"
  using assms quiet_store_write quiet_respond
  by (cases "sr_operation q") (auto simp: handle_store_request_def request_good_def split: sum.splits)

lemma quiet_forward:
  "msg_good E m \<Longrightarrow> \<not> is_vote m \<Longrightarrow> quiet E n (forward_to_leader m n)"
  by (auto simp: forward_to_leader_def quiet_push split: option.split)

lemma advances_handle_message:
  assumes good: "node_good E n" and votes: "node_votes V n" and msg: "msg_good E m"
    and V: "\<And>r. m = MRequestVoteResponse r \<Longrightarrow> vr_vote_granted r \<Longrightarrow> (vr_term r, vr_voter_id r, rf_id n) \<in> V"
    and t: "m = MTimeout \<Longrightarrow> current_term n \<noteq> - 1"
    and run: "handle_message E m now n = Inr n'"
  shows "advances E V n n'"
proof -
  have log: "log_good E n" using good by (simp add: node_good_def)
  have q: "quiet E n n' \<Longrightarrow> ?thesis" by (rule advances_quiet [OF advances_refl [OF good votes]])
  show ?thesis
  proof (cases m)
    case (MRequestVote rq)
    then obtain k r where k: "handle_request_vote rq now n = Inr (k, r)"
      and n': "n' = push_outbox (rv_candidate_id rq) (MRequestVoteResponse r) k"
      using run by (auto simp: handle_message_def and_then_eq_Inr)
    from advances_request_vote [OF good votes _ k] msg MRequestVote have adv: "advances E V n k"
      and vote: "vr_vote_granted r \<longrightarrow> (vr_term r, vr_voter_id r, rv_candidate_id rq) \<in> cast k" by simp_all
    have cast: "cast n' = cast k" by (simp add: n' cast_def push_outbox_def)
    obtain ks where ks: "rf_outbox k = rf_outbox n @ ks" "\<forall>to x. (to, x) \<in> set ks \<longrightarrow> msg_good E x \<and>
        (\<forall>r. x = MRequestVoteResponse r \<and> vr_vote_granted r \<longrightarrow> (vr_term r, vr_voter_id r, to) \<in> cast k)"
      using adv by (auto simp: advances_def votes_ok_def)
    have "votes_ok E n n'"
      unfolding votes_ok_def cast
      using ks vote
      by (intro exI [of _ "ks @ [(rv_candidate_id rq, MRequestVoteResponse r)]"]) (auto simp: n' push_outbox_def)
    moreover have "node_votes W n' \<longleftrightarrow> node_votes W k" "node_good E n' \<longleftrightarrow> node_good E k"
      "vote_mono n n' \<longleftrightarrow> vote_mono n k" "rf_id n' = rf_id k" "rf_peers n' = rf_peers k" for W
      by (simp_all add: n' push_outbox_def node_good_def log_good_def meta_good_def node_votes_def
          majority_def vote_mono_def)
    ultimately show ?thesis using adv by (simp add: advances_def cast)
  next
    case (MRequestVoteResponse r)
    with run advances_vote_response [OF good votes V] show ?thesis by (simp add: handle_message_def)
  next
    case (MAppendEntries a)
    then obtain k r where k: "handle_append_entries E a now n = Inr (k, r)"
      and n': "n' = push_outbox (ae_leader_id a) (MAppendEntriesResponse r) k"
      using run by (auto simp: handle_message_def and_then_eq_Inr)
    have "advances E V n k"
      using advances_append_entries [OF good votes _ k] msg MAppendEntries by simp
    moreover have "quiet E k n'" unfolding n' by (rule quiet_push) simp_all
    ultimately show ?thesis by (rule advances_quiet)
  next
    case (MAppendEntriesResponse r)
    with run advances_append_response [OF good votes] show ?thesis by (simp add: handle_message_def)
  next
    case (MClientCommand c)
    show ?thesis
    proof (cases "rf_role n = Leader")
      case True
      then obtain i where "append_command E c n = Inr (n', i)"
        using run MClientCommand by (auto simp: handle_message_def and_then_eq_Inr)
      with quiet_append_command msg MClientCommand log q show ?thesis by fastforce
    next
      case False
      then have "n' = forward_to_leader m n" using run MClientCommand by (simp add: handle_message_def)
      with quiet_forward [OF msg] MClientCommand q show ?thesis by simp
    qed
  next
    case (MClientRequest r)
    have "command_good E (cr_command r)" using msg MClientRequest by simp
    then show ?thesis
      using run MClientRequest quiet_store_request [OF _ _ log] q
      by (cases "cr_command r") (auto simp: handle_message_def request_good_def)
  next
    case (MClientQuery r)
    then show ?thesis
      using run quiet_store_request [OF _ _ log] q by (auto simp: handle_message_def request_good_def)
  next
    case (MStatusQuery r)
    then show ?thesis
      using run quiet_store_request [OF _ _ log] q by (auto simp: handle_message_def request_good_def)
  next
    case MTimeout
    then have "start_election now n = Inr n'" using run by (simp add: handle_message_def)
    with advances_start_election [OF good t [OF MTimeout]] show ?thesis by simp
  qed (use msg run q in \<open>auto simp: handle_message_def\<close>)
qed

lemma advances_tick:
  assumes good: "node_good E n" and votes: "node_votes V n"
    and t: "rf_role n \<noteq> Leader \<and> now \<ge> election_deadline n \<longrightarrow> current_term n \<noteq> - 1"
    and run: "tick now n = Inr n'"
  shows "advances E V n n'"
proof (cases "rf_role n = Leader")
  case True
  show ?thesis
  proof (cases "now \<ge> heartbeat_deadline n")
    case due: True
    obtain k where k: "send_all (rf_peers n) n = Inr k" "n' = k\<lparr>heartbeat_deadline := now + 100\<rparr>"
      using run True due by (auto simp: tick_def send_heartbeats_def and_then_eq_Inr)
    have "quiet E n k" by (rule quiet_send_all [OF k(1)])
    also have "quiet E k n'" unfolding k(2) by (rule quiet_fields) simp_all
    finally show ?thesis by (rule advances_quiet [OF advances_refl [OF good votes]])
  next
    case False
    then show ?thesis using run True advances_refl [OF good votes] by (simp add: tick_def)
  qed
next
  case False
  then show ?thesis
    using run t advances_refl [OF good votes] advances_start_election [OF good]
    by (auto simp: tick_def split: if_splits)
qed

end
