(* ===== verification/Raft_Quorum.thy ===== *)
theory Raft_Quorum
  imports Raft_Types
begin

text \<open>
  Quorums: the interface that elections and commitment rely on, and the majorities of a cluster
  (\<open>cluster_size / 2 + 1\<close> in \<open>src/src/raft/election.rs\<close> and
  \<open>replication.rs\<close>) that provide it.
\<close>

section \<open>Quorums\<close>

text \<open>What elections rely on: any two quorums share a voter.\<close>

locale quorum =
  fixes quorums :: "'v set set"
  assumes overlap: "\<lbrakk> A \<in> quorums; B \<in> quorums \<rbrakk> \<Longrightarrow> A \<inter> B \<noteq> {}"
begin

lemma one_winner:
  assumes once: "\<And>v a b. (v, a) \<in> ballots \<Longrightarrow> (v, b) \<in> ballots \<Longrightarrow> a = b"
    and A: "A \<in> quorums" "\<And>v. v \<in> A \<Longrightarrow> (v, a) \<in> ballots"
    and B: "B \<in> quorums" "\<And>v. v \<in> B \<Longrightarrow> (v, b) \<in> ballots"
  shows "a = b"
proof -
  from overlap [OF A(1) B(1)] obtain v where "v \<in> A" "v \<in> B" by auto
  with A(2) B(2) once show ?thesis by blast
qed

end

definition majorities :: "node_id set \<Rightarrow> node_id set set" where
  "majorities ids = {Q. Q \<subseteq> ids \<and> finite ids \<and> card ids div 2 + 1 \<le> card Q}"

lemma majorities_overlap:
  assumes "A \<in> majorities ids" and "B \<in> majorities ids"
  shows "A \<inter> B \<noteq> {}"
proof
  assume "A \<inter> B = {}"
  moreover have fin: "finite ids" "A \<subseteq> ids" "B \<subseteq> ids" using assms by (auto simp: majorities_def)
  ultimately have "card A + card B = card (A \<union> B)"
    by (metis card_Un_disjoint finite_subset)
  also have "\<dots> \<le> card ids" using fin by (simp add: card_mono)
  finally have "card A + card B \<le> card ids" .
  moreover have "card ids div 2 + 1 \<le> card A" "card ids div 2 + 1 \<le> card B"
    using assms by (auto simp: majorities_def)
  ultimately show False by linarith
qed

interpretation majority_quorum: quorum "majorities ids" for ids
  by unfold_locales (rule majorities_overlap)

end
