(* ===== verification/Raft_Cluster.thy ===== *)
theory Raft_Cluster
  imports Raft_Election Raft_Quorum
begin

text \<open>
  A cluster of Raft nodes over a network that loses, duplicates, delays and reorders messages, with
  nodes that stop and come back from their files at any time. The membership is fixed.

  Shown here: no two nodes are ever leader in the same term.
\<close>

section \<open>The cluster\<close>

record cluster =
  cl_nodes :: "node_id \<Rightarrow> raft_node"
  cl_net :: "(node_id \<times> message) set"
  cl_votes :: votes
  cl_leaders :: "(u64 \<times> node_id) set"

text \<open>
  \<open>cl_votes\<close> and \<open>cl_leaders\<close> are history: every vote that a node held after a step, and
  every node that was leader, with its term.
\<close>

definition leading :: "raft_node \<Rightarrow> (u64 \<times> node_id) set" where
  "leading n = (if rf_role n = Leader then {(current_term n, rf_id n)} else {})"

definition set_node :: "node_id \<Rightarrow> raft_node \<Rightarrow> cluster \<Rightarrow> cluster" where
  "set_node i n c =
     c\<lparr>cl_nodes := (cl_nodes c)(i := n), cl_votes := cl_votes c \<union> cast n,
       cl_leaders := cl_leaders c \<union> leading n\<rparr>"

text \<open>What clients may send to a node as a message.\<close>

fun is_client :: "message \<Rightarrow> bool" where
  "is_client (MClientCommand c) = True"
| "is_client (MClientRequest r) = True"
| "is_client (MClientQuery q) = True"
| "is_client (MStatusQuery q) = True"
| "is_client _ = False"

record membership =
  mb_ids :: "node_id set"
  mb_peers :: "node_id \<Rightarrow> node_id list"
  mb_config :: config

definition membership_ok :: "membership \<Rightarrow> bool" where
  "membership_ok M \<longleftrightarrow>
     finite (mb_ids M) \<and> 0 \<notin> mb_ids M \<and>
     (\<forall>i \<in> mb_ids M. distinct (mb_peers M i) \<and> set (mb_peers M i) = mb_ids M - {i})"

inductive live_step :: "'x raft_ext_scheme \<Rightarrow> membership \<Rightarrow> cluster \<Rightarrow> cluster \<Rightarrow> bool"
  for E :: "'x raft_ext_scheme" and M :: membership where
  Deliver: "\<lbrakk>i \<in> mb_ids M; (i, m) \<in> cl_net c; m = MTimeout \<longrightarrow> current_term (cl_nodes c i) \<noteq> - 1;
     handle_message E m now (cl_nodes c i) = Inr n\<rbrakk> \<Longrightarrow> live_step E M c (set_node i n c)"
| Client: "\<lbrakk>i \<in> mb_ids M; is_client m; msg_good E m;
     handle_message E m now (cl_nodes c i) = Inr n\<rbrakk> \<Longrightarrow> live_step E M c (set_node i n c)"
| Request: "\<lbrakk>i \<in> mb_ids M; request_good E q;
     handle_store_request E q now (cl_nodes c i) = Inr n\<rbrakk> \<Longrightarrow> live_step E M c (set_node i n c)"
| Tick: "\<lbrakk>i \<in> mb_ids M; rf_role (cl_nodes c i) \<noteq> Leader \<and> now \<ge> election_deadline (cl_nodes c i) \<longrightarrow> current_term (cl_nodes c i) \<noteq> - 1;
     tick now (cl_nodes c i) = Inr n\<rbrakk> \<Longrightarrow> live_step E M c (set_node i n c)"
| Send: "\<lbrakk>i \<in> mb_ids M; set sent \<subseteq> set (rf_outbox (cl_nodes c i))\<rbrakk> \<Longrightarrow>
     live_step E M c
       (set_node i (cl_nodes c i\<lparr>rf_outbox := []\<rparr>) c\<lparr>cl_net := cl_net c \<union> set sent\<rparr>)"
| Restart: "i \<in> mb_ids M \<Longrightarrow> live_step E M c (set_node i (restart now (cl_nodes c i)) c)"
| Elect: "\<lbrakk>i \<in> mb_ids M; current_term (cl_nodes c i) \<noteq> - 1;
     start_election now (cl_nodes c i) = Inr n\<rbrakk> \<Longrightarrow> live_step E M c (set_node i n c)"
| Configure: "i \<in> mb_ids M \<Longrightarrow>
     live_step E M c (set_node i (set_election_timeout timeout now (cl_nodes c i)) c)"

text \<open>A node may also stop at any time and be started again on its files.\<close>

inductive cluster_step :: "'x raft_ext_scheme \<Rightarrow> membership \<Rightarrow> cluster \<Rightarrow> cluster \<Rightarrow> bool"
  for E :: "'x raft_ext_scheme" and M :: membership where
  Live: "live_step E M c c' \<Longrightarrow> cluster_step E M c c'"
| Crash: "\<lbrakk>i \<in> mb_ids M;
     new_in_dir E (node_disk (cl_nodes c i)) i (mb_peers M i) (mb_config M) now rand = Inr n\<rbrakk> \<Longrightarrow>
     cluster_step E M c (set_node i n c)"

definition cluster_init :: "'x raft_ext_scheme \<Rightarrow> membership \<Rightarrow> cluster \<Rightarrow> bool" where
  "cluster_init E M c \<longleftrightarrow>
     (\<forall>i \<in> mb_ids M. \<exists>now rand. new_in_dir E [] i (mb_peers M i) (mb_config M) now rand = Inr (cl_nodes c i)) \<and>
     cl_net c = {} \<and> cl_votes c = {} \<and> cl_leaders c = {}"

inductive cluster_reach :: "'x raft_ext_scheme \<Rightarrow> membership \<Rightarrow> cluster \<Rightarrow> bool"
  for E :: "'x raft_ext_scheme" and M :: membership where
  Init: "cluster_init E M c \<Longrightarrow> cluster_reach E M c"
| Step: "cluster_reach E M c \<Longrightarrow> cluster_step E M c c' \<Longrightarrow> cluster_reach E M c'"

text \<open>The states that are reached without such a crash.\<close>

inductive live_reach :: "'x raft_ext_scheme \<Rightarrow> membership \<Rightarrow> cluster \<Rightarrow> bool"
  for E :: "'x raft_ext_scheme" and M :: membership where
  Init: "cluster_init E M c \<Longrightarrow> live_reach E M c"
| Step: "live_reach E M c \<Longrightarrow> live_step E M c c' \<Longrightarrow> live_reach E M c'"

lemma live_reach_cluster: "live_reach E M c \<Longrightarrow> cluster_reach E M c"
  by (induction rule: live_reach.induct) (auto intro: cluster_reach.intros cluster_step.Live)

section \<open>Recovered nodes\<close>

lemma recover_peer_command: "entry_good E e \<Longrightarrow> recover_peer me e peers = peers"
  by (auto simp: entry_good_def recover_peer_def)

lemma recover_peers_good:
  "list_all (entry_good E) es \<Longrightarrow> fold (recover_peer me) es peers = peers"
  by (induction es) (auto simp: recover_peer_command)

lemma meta_open_voted: "ms_voted_for (meta_open m) \<noteq> Some 0"
  by (auto simp: meta_open_def meta_default_def Let_def split: sum.splits)

lemma reset_simps [simp]:
  "rf_id (reset_election_timeout now n) = rf_id n" "rf_peers (reset_election_timeout now n) = rf_peers n"
  "current_term (reset_election_timeout now n) = current_term n"
  "voted_for (reset_election_timeout now n) = voted_for n" "rf_log (reset_election_timeout now n) = rf_log n"
  "rf_role (reset_election_timeout now n) = rf_role n" "rf_outbox (reset_election_timeout now n) = rf_outbox n"
  "log_store (reset_election_timeout now n) = log_store n" "meta_store (reset_election_timeout now n) = meta_store n"
  by (simp_all add: reset_election_timeout_def split: option.splits)

lemma new_in_dir_good:
  assumes run: "new_in_dir E dir me peers cfg now rand = Inr n"
    and log_file: "file_or_empty raft_log_name dir = frames E es" and good: "list_all (entry_good E) es"
    and dummy: "entry_good E (dummy_entry E)" and me: "me \<noteq> 0"
  shows "node_good E n" "rf_id n = me" "rf_peers n = peers" "rf_role n = Follower" "rf_outbox n = []"
    "current_term n = ms_current_term (meta_open (file_or_empty raft_meta_name dir))"
    "voted_for n = ms_voted_for (meta_open (file_or_empty raft_meta_name dir))"
proof -
  have ok: "list_all (entry_codec_ok E) es" using good by (auto simp: list_all_iff entry_good_def)
  obtain s where s: "log_store_open E (frames E es) = (s, es)" "store_holds E s es"
    by (rule store_holds_open [OF ok])
  let ?log = "if es = [] then [dummy_entry E] else es"
  have log: "list_all (entry_good E) ?log" using good dummy by simp
  have peers: "fold (recover_peer me) (take k (drop (Suc 0) es)) peers = peers" for k
    by (rule recover_peers_good [of E]) (use good in \<open>auto simp: list_all_iff dest: in_set_takeD in_set_dropD\<close>)
  have held: "\<exists>es. store_holds E s es \<and> list_all (entry_good E) es" using s(2) good by blast
  note simps = new_in_dir_def log_file s(1) Let_def and_then_eq_Inr node_good_def log_good_def meta_good_def
    meta_open_voted peers
  have "node_good E n \<and> rf_id n = me \<and> rf_peers n = peers \<and> rf_role n = Follower \<and> rf_outbox n = [] \<and>
    current_term n = ms_current_term (meta_open (file_or_empty raft_meta_name dir)) \<and>
    voted_for n = ms_voted_for (meta_open (file_or_empty raft_meta_name dir))"
    using run log me held by (auto simp: simps split: if_splits)
  then show "node_good E n" "rf_id n = me" "rf_peers n = peers" "rf_role n = Follower" "rf_outbox n = []"
    "current_term n = ms_current_term (meta_open (file_or_empty raft_meta_name dir))"
    "voted_for n = ms_voted_for (meta_open (file_or_empty raft_meta_name dir))" by blast+
qed


lemma node_disk_files:
  "file_or_empty raft_log_name (node_disk n) = (case log_store n of None \<Rightarrow> [] | Some s \<Rightarrow> ls_file s)"
  "file_or_empty raft_meta_name (node_disk n) = (case meta_store n of None \<Rightarrow> [] | Some m \<Rightarrow> m)"
  by (simp_all add: file_or_empty_def node_disk_def fs_write_def raft_log_name_def raft_meta_name_def
      update_conv str_def)

lemma advances_recover:
  assumes run: "new_in_dir E (node_disk n) (rf_id n) (rf_peers n) cfg now rand = Inr n'"
    and good: "node_good E n" and dummy: "entry_good E (dummy_entry E)"
  shows "node_good E n'" "rf_id n' = rf_id n" "rf_peers n' = rf_peers n" "rf_role n' = Follower"
    "rf_outbox n' = []" "current_term n' = current_term n" "voted_for n' = voted_for n"
proof -
  obtain s es where s: "log_store n = Some s" "store_holds E s es" "list_all (entry_good E) es"
    using good by (auto simp: node_good_def log_good_def)
  obtain m where m: "meta_store n = Some m" "ms_current_term (meta_open m) = current_term n"
    "ms_voted_for (meta_open m) = voted_for n"
    using good by (auto simp: node_good_def meta_good_def)
  have "file_or_empty raft_log_name (node_disk n) = frames E es"
    using s by (simp add: node_disk_files store_holds_def)
  from new_in_dir_good [OF run this s(3) dummy] good m
  show "node_good E n'" "rf_id n' = rf_id n" "rf_peers n' = rf_peers n" "rf_role n' = Follower"
    "rf_outbox n' = []" "current_term n' = current_term n" "voted_for n' = voted_for n"
    by (simp_all add: node_good_def node_disk_files)
qed

lemma restart_keeps:
  assumes "node_good E n"
  shows "node_good E (restart now n)" "rf_id (restart now n) = rf_id n" "rf_peers (restart now n) = rf_peers n"
    "rf_role (restart now n) = Follower" "rf_outbox (restart now n) = []"
    "current_term (restart now n) = current_term n" "voted_for (restart now n) = voted_for n"
  using assms by (simp_all add: restart_def node_good_def log_good_def meta_good_def)

section \<open>The invariant\<close>

definition votes_valid :: "membership \<Rightarrow> cluster \<Rightarrow> bool" where
  "votes_valid M c \<longleftrightarrow>
     (\<forall>t v x. (t, v, x) \<in> cl_votes c \<longrightarrow>
        v \<in> mb_ids M \<and> t \<le> current_term (cl_nodes c v) \<and>
        (t = current_term (cl_nodes c v) \<longrightarrow> voted_for (cl_nodes c v) = Some x)) \<and>
     (\<forall>t v x y. (t, v, x) \<in> cl_votes c \<longrightarrow> (t, v, y) \<in> cl_votes c \<longrightarrow> x = y)"

definition message_ok :: "'x raft_ext_scheme \<Rightarrow> votes \<Rightarrow> node_id \<times> message \<Rightarrow> bool" where
  "message_ok E V tm \<longleftrightarrow>
     msg_good E (snd tm) \<and>
     (\<forall>r. snd tm = MRequestVoteResponse r \<and> vr_vote_granted r \<longrightarrow> (vr_term r, vr_voter_id r, fst tm) \<in> V)"

definition nodes_valid :: "'x raft_ext_scheme \<Rightarrow> membership \<Rightarrow> cluster \<Rightarrow> bool" where
  "nodes_valid E M c \<longleftrightarrow>
     (\<forall>i \<in> mb_ids M.
        node_good E (cl_nodes c i) \<and> rf_id (cl_nodes c i) = i \<and> rf_peers (cl_nodes c i) = mb_peers M i \<and>
        node_votes (cl_votes c) (cl_nodes c i) \<and>
        (\<forall>tm \<in> set (rf_outbox (cl_nodes c i)). message_ok E (cl_votes c) tm))"

definition leaders_elected :: "membership \<Rightarrow> cluster \<Rightarrow> bool" where
  "leaders_elected M c \<longleftrightarrow>
     (\<forall>t l. (t, l) \<in> cl_leaders c \<longrightarrow> (\<exists>Q \<in> majorities (mb_ids M). \<forall>v \<in> Q. (t, v, l) \<in> cl_votes c))"

definition cluster_inv :: "'x raft_ext_scheme \<Rightarrow> membership \<Rightarrow> cluster \<Rightarrow> bool" where
  "cluster_inv E M c \<longleftrightarrow>
     nodes_valid E M c \<and> votes_valid M c \<and> leaders_elected M c \<and>
     (\<forall>tm \<in> cl_net c. message_ok E (cl_votes c) tm)"

lemma message_ok_mono: "message_ok E V tm \<Longrightarrow> V \<subseteq> W \<Longrightarrow> message_ok E W tm"
  by (auto simp: message_ok_def)

lemma node_votes_mono: "node_votes V n \<Longrightarrow> V \<subseteq> W \<Longrightarrow> node_votes W n"
  by (auto simp: node_votes_def)

lemma set_node_simps [simp]:
  "cl_nodes (set_node i n c) = (cl_nodes c)(i := n)" "cl_net (set_node i n c) = cl_net c"
  "cl_votes (set_node i n c) = cl_votes c \<union> cast n" "cl_leaders (set_node i n c) = cl_leaders c \<union> leading n"
  by (simp_all add: set_node_def)

lemma votes_valid_set_node:
  assumes inv: "votes_valid M c" and i: "i \<in> mb_ids M"
    and n: "rf_id n = i" "vote_mono (cl_nodes c i) n"
  shows "votes_valid M (set_node i n c)"
proof -
  have old: "v \<in> mb_ids M" "t \<le> current_term (cl_nodes c v)"
    "t = current_term (cl_nodes c v) \<Longrightarrow> voted_for (cl_nodes c v) = Some x"
    if "(t, v, x) \<in> cl_votes c" for t v x
    using inv that by (auto simp: votes_valid_def)
  have once: "x = y" if "(t, v, x) \<in> cl_votes c" "(t, v, y) \<in> cl_votes c" for t v x y
    using inv that unfolding votes_valid_def by blast
  have mono: "t \<le> current_term n" "t = current_term n \<Longrightarrow> voted_for n = Some x" if "(t, i, x) \<in> cl_votes c" for t x
    using old [OF that] n(2) by (auto simp: vote_mono_def)
  have new: "t = current_term n \<and> v = i \<and> voted_for n = Some x" if "(t, v, x) \<in> cast n" for t v x
    using that n(1) by (simp add: cast_def)
  let ?node = "(cl_nodes c)(i := n)"
  have "v \<in> mb_ids M \<and> t \<le> current_term (?node v) \<and> (t = current_term (?node v) \<longrightarrow> voted_for (?node v) = Some x)"
    if "(t, v, x) \<in> cl_votes c \<union> cast n" for t v x
    using that
  proof
    assume "(t, v, x) \<in> cl_votes c"
    then show ?thesis using old [of t v x] mono [of t x] i by (cases "v = i") auto
  next
    assume "(t, v, x) \<in> cast n"
    from new [OF this] i show ?thesis by simp
  qed
  moreover have "x = y" if "(t, v, x) \<in> cl_votes c \<union> cast n" "(t, v, y) \<in> cl_votes c \<union> cast n" for t v x y
  proof -
    have key: "voted_for n = Some z" if "(current_term n, i, z) \<in> cl_votes c \<union> cast n" for z
      using that mono(2) new by blast
    show ?thesis
    proof (cases "t = current_term n \<and> v = i")
      case True
      with that key show ?thesis by (metis option.inject)
    next
      case False
      with that new once show ?thesis by blast
    qed
  qed
  ultimately show ?thesis unfolding votes_valid_def set_node_simps by blast
qed

lemma nodes_valid_set_node:
  assumes inv: "nodes_valid E M c"
    and n: "node_good E n" "rf_id n = i" "rf_peers n = mb_peers M i" "node_votes (cl_votes c \<union> cast n) n"
      "\<forall>tm \<in> set (rf_outbox n). message_ok E (cl_votes c \<union> cast n) tm"
  shows "nodes_valid E M (set_node i n c)"
  using assms node_votes_mono [of "cl_votes c"] message_ok_mono [of E "cl_votes c"]
  by (auto simp: nodes_valid_def)

text \<open>A leader has the votes of a majority.\<close>

lemma leader_majority:
  assumes M: "membership_ok M" and i: "i \<in> mb_ids M" and n: "rf_id n = i" "rf_peers n = mb_peers M i"
    and votes: "node_votes V n" and role: "rf_role n = Leader"
    and V: "\<And>t v x. (t, v, x) \<in> V \<Longrightarrow> v \<in> mb_ids M"
  shows "\<exists>Q \<in> majorities (mb_ids M). \<forall>v \<in> Q. (current_term n, v, i) \<in> V"
proof
  have counted: "distinct (votes_received n)" "\<forall>v \<in> set (votes_received n). (current_term n, v, i) \<in> V"
    "majority n \<le> length (votes_received n)"
    using votes role n(1) by (auto simp: node_votes_def)
  show "\<forall>v \<in> set (votes_received n). (current_term n, v, i) \<in> V" by (rule counted)
  have fin: "finite (mb_ids M)" and peers: "distinct (mb_peers M i)" "set (mb_peers M i) = mb_ids M - {i}"
    using M i by (auto simp: membership_ok_def)
  have "length (rf_peers n) = card (mb_ids M - {i})"
    using peers distinct_card [of "mb_peers M i"] n(2) by simp
  then have "length (rf_peers n) + 1 = card (mb_ids M)"
    using card.remove [OF fin i] by simp
  then have "card (mb_ids M) div 2 + 1 \<le> card (set (votes_received n))"
    using counted(1,3) by (simp add: majority_def distinct_card)
  moreover have "set (votes_received n) \<subseteq> mb_ids M" using counted(2) V by blast
  ultimately show "set (votes_received n) \<in> majorities (mb_ids M)" using fin by (simp add: majorities_def)
qed

lemma inv_set_node:
  assumes M: "membership_ok M" and inv: "cluster_inv E M c" and i: "i \<in> mb_ids M"
    and n: "node_good E n" "rf_id n = i" "rf_peers n = mb_peers M i" "node_votes (cl_votes c \<union> cast n) n"
      "vote_mono (cl_nodes c i) n" "\<forall>tm \<in> set (rf_outbox n). message_ok E (cl_votes c \<union> cast n) tm"
  shows "cluster_inv E M (set_node i n c)"
proof -
  have votes: "votes_valid M (set_node i n c)"
    using inv i n by (intro votes_valid_set_node) (simp_all add: cluster_inv_def)
  have members: "v \<in> mb_ids M" if "(t, v, x) \<in> cl_votes c \<union> cast n" for t v x
    using votes that by (auto simp: votes_valid_def)
  have "leaders_elected M (set_node i n c)"
    using inv leader_majority [OF M i n(2,3,4) _ members] n(2)
    by (fastforce simp: cluster_inv_def leaders_elected_def leading_def)
  with votes show ?thesis
    using inv n nodes_valid_set_node [of E M c n i] message_ok_mono [of E "cl_votes c"]
    by (auto simp: cluster_inv_def)
qed

lemma inv_advances:
  assumes M: "membership_ok M" and inv: "cluster_inv E M c" and i: "i \<in> mb_ids M"
    and adv: "advances E (cl_votes c) (cl_nodes c i) n"
  shows "cluster_inv E M (set_node i n c)"
proof (rule inv_set_node [OF M inv i])
  have node: "rf_id (cl_nodes c i) = i" "rf_peers (cl_nodes c i) = mb_peers M i"
    "\<forall>tm \<in> set (rf_outbox (cl_nodes c i)). message_ok E (cl_votes c) tm"
    using inv i by (auto simp: cluster_inv_def nodes_valid_def)
  show "node_good E n" "rf_id n = i" "rf_peers n = mb_peers M i" "node_votes (cl_votes c \<union> cast n) n"
    "vote_mono (cl_nodes c i) n" using adv node by (simp_all add: advances_def)
  from adv obtain ms where out: "rf_outbox n = rf_outbox (cl_nodes c i) @ ms"
    and ms: "\<And>to m. (to, m) \<in> set ms \<Longrightarrow> msg_good E m \<and>
           (\<forall>r. m = MRequestVoteResponse r \<and> vr_vote_granted r \<longrightarrow> (vr_term r, vr_voter_id r, to) \<in> cast n)"
    by (auto simp: advances_def votes_ok_def)
  have "message_ok E (cl_votes c \<union> cast n) tm" if "tm \<in> set ms" for tm
    using ms [of "fst tm" "snd tm"] that by (auto simp: message_ok_def)
  then show "\<forall>tm \<in> set (rf_outbox n). message_ok E (cl_votes c \<union> cast n) tm"
    using out node(3) message_ok_mono [of E "cl_votes c"] by auto
qed

text \<open>A node that comes back is a follower with its old term and vote.\<close>

lemma inv_follower:
  assumes M: "membership_ok M" and inv: "cluster_inv E M c" and i: "i \<in> mb_ids M"
    and n: "node_good E n" "rf_id n = i" "rf_peers n = mb_peers M i" "rf_role n = Follower" "rf_outbox n = []"
      "current_term n = current_term (cl_nodes c i)" "voted_for n = voted_for (cl_nodes c i)"
  shows "cluster_inv E M (set_node i n c)"
  using n by (intro inv_set_node [OF M inv i]) (simp_all add: node_votes_def vote_mono_def)

lemma inv_send:
  assumes inv: "cluster_inv E M c" and i: "i \<in> mb_ids M" and M: "membership_ok M"
    and sent: "set sent \<subseteq> set (rf_outbox (cl_nodes c i))"
  shows "cluster_inv E M (set_node i (cl_nodes c i\<lparr>rf_outbox := []\<rparr>) c\<lparr>cl_net := cl_net c \<union> set sent\<rparr>)"
proof -
  let ?n = "cl_nodes c i\<lparr>rf_outbox := []\<rparr>"
  have node: "node_good E (cl_nodes c i)" "rf_id (cl_nodes c i) = i" "rf_peers (cl_nodes c i) = mb_peers M i"
    "node_votes (cl_votes c) (cl_nodes c i)" "\<forall>tm \<in> set (rf_outbox (cl_nodes c i)). message_ok E (cl_votes c) tm"
    using inv i by (auto simp: cluster_inv_def nodes_valid_def)
  have votes: "node_votes (cl_votes c \<union> cast ?n) ?n"
    using node(4) by (auto simp: node_votes_def majority_def)
  have "cluster_inv E M (set_node i ?n c)"
    by (rule inv_set_node [OF M inv i])
      (use node(1-3) votes in \<open>simp_all add: node_good_def log_good_def meta_good_def vote_mono_def\<close>)
  moreover have "\<forall>tm \<in> set sent. message_ok E (cl_votes c \<union> cast ?n) tm"
    using sent node(5) message_ok_mono [of E "cl_votes c"] by blast
  ultimately show ?thesis
    by (auto simp: cluster_inv_def nodes_valid_def votes_valid_def leaders_elected_def)
qed

lemma live_step_inv:
  assumes step: "live_step E M c c'" and M: "membership_ok M" and inv: "cluster_inv E M c"
  shows "cluster_inv E M c'"
  using step
proof cases
  case (Deliver i m now n)
  have ok: "message_ok E (cl_votes c) (i, m)" using inv Deliver(3) by (auto simp: cluster_inv_def)
  have node: "node_good E (cl_nodes c i)" "rf_id (cl_nodes c i) = i" "node_votes (cl_votes c) (cl_nodes c i)"
    using inv Deliver(2) by (auto simp: cluster_inv_def nodes_valid_def)
  have "advances E (cl_votes c) (cl_nodes c i) n"
    using advances_handle_message [OF node(1,3) _ _ _ Deliver(5)] ok node(2) Deliver(4)
    by (auto simp: message_ok_def)
  with inv_advances [OF M inv Deliver(2)] Deliver(1) show ?thesis by simp
next
  case (Client i m now n)
  have node: "node_good E (cl_nodes c i)" "node_votes (cl_votes c) (cl_nodes c i)"
    using inv Client(2) by (auto simp: cluster_inv_def nodes_valid_def)
  have "advances E (cl_votes c) (cl_nodes c i) n"
    using advances_handle_message [OF node Client(4) _ _ Client(5)] Client(3) by (cases m) auto
  with inv_advances [OF M inv Client(2)] Client(1) show ?thesis by simp
next
  case (Request i q now n)
  have node: "node_good E (cl_nodes c i)" "node_votes (cl_votes c) (cl_nodes c i)"
    using inv Request(2) by (auto simp: cluster_inv_def nodes_valid_def)
  have "quiet E (cl_nodes c i) n"
    using quiet_store_request [OF Request(4,3)] node by (simp add: node_good_def)
  from advances_quiet [OF advances_refl [OF node] this] inv_advances [OF M inv Request(2)] Request(1)
  show ?thesis by simp
next
  case (Tick i now n)
  have node: "node_good E (cl_nodes c i)" "node_votes (cl_votes c) (cl_nodes c i)"
    using inv Tick(2) by (auto simp: cluster_inv_def nodes_valid_def)
  from advances_tick [OF node Tick(3,4)] inv_advances [OF M inv Tick(2)] Tick(1) show ?thesis by simp
next
  case (Send i sent)
  from inv_send [OF inv Send(2) M Send(3)] Send(1) show ?thesis by simp
next
  case (Restart i now)
  have node: "node_good E (cl_nodes c i)" "rf_id (cl_nodes c i) = i" "rf_peers (cl_nodes c i) = mb_peers M i"
    using inv Restart(2) by (auto simp: cluster_inv_def nodes_valid_def)
  from inv_follower [OF M inv Restart(2)] restart_keeps [OF node(1), of now] node Restart(1) show ?thesis by simp
next
  case (Elect i now n)
  have "node_good E (cl_nodes c i)" using inv Elect(2) by (auto simp: cluster_inv_def nodes_valid_def)
  from advances_start_election [OF this Elect(3,4)] inv_advances [OF M inv Elect(2)] Elect(1) show ?thesis by simp
next
  case (Configure i timeout now)
  have node: "node_good E (cl_nodes c i)" "node_votes (cl_votes c) (cl_nodes c i)"
    using inv Configure(2) by (auto simp: cluster_inv_def nodes_valid_def)
  have "quiet E (cl_nodes c i) (set_election_timeout timeout now (cl_nodes c i))"
    by (rule quiet_fields) (simp_all add: set_election_timeout_def)
  from advances_quiet [OF advances_refl [OF node] this] inv_advances [OF M inv Configure(2)] Configure(1)
  show ?thesis by simp
qed

lemma cluster_step_inv:
  assumes step: "cluster_step E M c c'" and M: "membership_ok M" and dummy: "entry_good E (dummy_entry E)"
    and inv: "cluster_inv E M c"
  shows "cluster_inv E M c'"
  using step
proof cases
  case Live
  then show ?thesis by (rule live_step_inv [OF _ M inv])
next
  case (Crash i now rand n)
  have node: "node_good E (cl_nodes c i)" "rf_id (cl_nodes c i) = i" "rf_peers (cl_nodes c i) = mb_peers M i"
    using inv Crash(2) by (auto simp: cluster_inv_def nodes_valid_def)
  have run: "new_in_dir E (node_disk (cl_nodes c i)) (rf_id (cl_nodes c i)) (rf_peers (cl_nodes c i))
      (mb_config M) now rand = Inr n" using Crash(3) node by simp
  from inv_follower [OF M inv Crash(2)] advances_recover [OF run node(1) dummy] node Crash(1) show ?thesis by simp
qed

lemma cluster_init_inv:
  assumes "cluster_init E M c" and "membership_ok M" and "entry_good E (dummy_entry E)"
  shows "cluster_inv E M c"
proof -
  have "nodes_valid E M c"
    unfolding nodes_valid_def
  proof
    fix i assume i: "i \<in> mb_ids M"
    then obtain now rand where run: "new_in_dir E [] i (mb_peers M i) (mb_config M) now rand = Inr (cl_nodes c i)"
      using assms(1) by (auto simp: cluster_init_def)
    have "i \<noteq> 0" using i assms(2) by (auto simp: membership_ok_def)
    with new_in_dir_good [OF run _ _ assms(3), of "[]"]
    show "node_good E (cl_nodes c i) \<and> rf_id (cl_nodes c i) = i \<and> rf_peers (cl_nodes c i) = mb_peers M i \<and>
        node_votes (cl_votes c) (cl_nodes c i) \<and>
        (\<forall>tm \<in> set (rf_outbox (cl_nodes c i)). message_ok E (cl_votes c) tm)"
      by (simp add: file_or_empty_def node_votes_def)
  qed
  with assms(1) show ?thesis
    by (simp add: cluster_inv_def cluster_init_def votes_valid_def leaders_elected_def)
qed

lemma cluster_reach_inv:
  assumes "cluster_reach E M c" and "membership_ok M" and "entry_good E (dummy_entry E)"
  shows "cluster_inv E M c"
  using assms by (induction rule: cluster_reach.induct) (auto intro: cluster_init_inv cluster_step_inv)


lemma leading_recorded:
  assumes "cluster_reach E M c" and "membership_ok M" and "entry_good E (dummy_entry E)"
  shows "\<forall>i \<in> mb_ids M. leading (cl_nodes c i) \<subseteq> cl_leaders c"
  using assms
proof (induction rule: cluster_reach.induct)
  case (Init c)
  show ?case
  proof
    fix i assume "i \<in> mb_ids M"
    with Init obtain now rand where "new_in_dir E [] i (mb_peers M i) (mb_config M) now rand = Inr (cl_nodes c i)"
      by (auto simp: cluster_init_def)
    moreover have "i \<noteq> 0" using Init \<open>i \<in> mb_ids M\<close> by (auto simp: membership_ok_def)
    ultimately show "leading (cl_nodes c i) \<subseteq> cl_leaders c"
      using new_in_dir_good(4) [of E "[]" i _ _ _ _ _ "[]"] Init by (simp add: leading_def file_or_empty_def)
  qed
next
  case (Step c c')
  then have old: "\<forall>i \<in> mb_ids M. leading (cl_nodes c i) \<subseteq> cl_leaders c" by blast
  from Step(2) show ?case
  proof cases
    case Live
    then show ?thesis using old by (cases rule: live_step.cases) (auto simp: leading_def)
  qed (use old in auto)
qed

section \<open>Properties\<close>

text \<open>
  C6. Election safety: in every reachable state of a cluster with fixed membership, whatever the
  network did to the messages and however often nodes were restarted in memory or recovered from
  their files, at most one node has been leader in each term; in particular two nodes that lead at
  the same time lead in different terms.
\<close>

theorem election_safety:
  assumes reach: "cluster_reach E M c" and M: "membership_ok M" and dummy: "entry_good E (dummy_entry E)"
  shows "(\<forall>t a b. (t, a) \<in> cl_leaders c \<and> (t, b) \<in> cl_leaders c \<longrightarrow> a = b) \<and>
    (\<forall>i \<in> mb_ids M. \<forall>j \<in> mb_ids M. rf_role (cl_nodes c i) = Leader \<and> rf_role (cl_nodes c j) = Leader \<and>
       current_term (cl_nodes c i) = current_term (cl_nodes c j) \<longrightarrow> i = j)"
proof -
  have inv: "cluster_inv E M c" by (rule cluster_reach_inv [OF assms])
  have once: "a = b" if "(v, a) \<in> {(v, x). (t, v, x) \<in> cl_votes c}" "(v, b) \<in> {(v, x). (t, v, x) \<in> cl_votes c}"
    for v a b t using inv that by (auto simp: cluster_inv_def votes_valid_def)
  have unique: "a = b" if both: "(t, a) \<in> cl_leaders c" "(t, b) \<in> cl_leaders c" for t a b
  proof -
    obtain A B where "A \<in> majorities (mb_ids M)" "\<forall>v \<in> A. (t, v, a) \<in> cl_votes c"
      "B \<in> majorities (mb_ids M)" "\<forall>v \<in> B. (t, v, b) \<in> cl_votes c"
      using inv both unfolding cluster_inv_def leaders_elected_def by metis
    then show ?thesis
      using majority_quorum.one_winner [where ballots = "{(v, x). (t, v, x) \<in> cl_votes c}" and A = A and B = B] once
      by blast
  qed
  have "(current_term (cl_nodes c i), i) \<in> cl_leaders c" if "i \<in> mb_ids M" "rf_role (cl_nodes c i) = Leader" for i
    using inv leading_recorded [OF assms] that by (auto simp: cluster_inv_def nodes_valid_def leading_def)
  with unique show ?thesis by metis
qed

subsection \<open>Witness\<close>

text \<open>A new node, and an election of node 1 in a cluster of three with the vote of node 2.\<close>

definition fresh_node :: "database \<Rightarrow> node_id \<Rightarrow> node_id list \<Rightarrow> raft_node" where
  "fresh_node db i peers =
     \<lparr>rf_db = db, rf_id = i, rf_peers = peers, current_term = 0, voted_for = None,
      rf_log = [dummy_entry sample_raft_ext], commit_index = 0, last_applied = 0, next_index = [],
      match_index = [], rf_role = Follower, votes_received = [], leader_id = None, rf_outbox = [],
      election_deadline = 150, heartbeat_deadline = 0, election_timeout = None, pending_requests = [],
      peer_changes_tx = None, log_store = Some \<lparr>ls_file = [], ls_offsets = []\<rparr>, meta_store = Some [],
      rf_oneshots = [], rand_source = (\<lambda>_. 0), rand_pos = 1\<rparr>"

lemma fresh_node_new:
  "\<exists>db. \<forall>i peers. new_in_dir sample_raft_ext [] i peers config_default 0 (\<lambda>_. 0) = Inr (fresh_node db i peers)"
proof -
  have "bloom_sizing_ok sample_raft_ext" by (simp add: bloom_sizing_ok_def sample_raft_ext_def sample_ext_def)
  moreover have "0 < cfg_sstable_level config_default" by (simp add: config_default_def)
  ultimately obtain db where db: "open_in_dir sample_raft_ext [] config_default = Inr db" by (rule open_empty)
  have ls: "log_store_open sample_raft_ext [] = (\<lparr>ls_file = [], ls_offsets = []\<rparr>, [])"
    by (simp add: log_store_open_def open_loop.simps read_short)
  have meta: "meta_open [] = meta_default" by (simp add: meta_open_def META_SIZE_def read_exact_def)
  show ?thesis
    by (rule exI [of _ db])
      (simp add: new_in_dir_def file_or_empty_def ls meta meta_default_def db fresh_node_def
        reset_election_timeout_def random_range_def)
qed

lemma sample_record: "log_record_new sample_raft_ext t c = log_record_new sample_ext t c"
proof -
  have "as_bytes sample_raft_ext v = as_bytes sample_ext v" for v
    by (cases v) (simp_all add: sample_raft_ext_def)
  then show ?thesis
    by (cases c) (simp_all add: log_record_new_def calculate_checksum_def)
qed

lemma sample_dummy: "entry_good sample_raft_ext (dummy_entry sample_raft_ext)"
  unfolding entry_good_def dummy_entry_def sample_record
  by (intro conjI sample_codec_command) (simp_all add: key_ok_def val_fits_def write_to_def)

definition sample_membership :: membership where
  "sample_membership =
     \<lparr>mb_ids = {1, 2, 3}, mb_peers = (\<lambda>i. filter (\<lambda>j. j \<noteq> i) [1, 2, 3]), mb_config = config_default\<rparr>"

lemma sample_membership_ok: "membership_ok sample_membership"
  by (auto simp: membership_ok_def sample_membership_def)


lemmas election_run = tick_def start_election_def persist_meta_def majority_def reset_election_timeout_def
  random_range_def last_log_def push_outbox_def handle_message_def handle_request_vote_def
  step_down_def vote_reply_def log_is_up_to_date_def handle_vote_response_def become_leader_def
  send_append_entries_def make_append_entries_def fresh_node_def dummy_entry_def Let_def

text \<open>The leader after its election, and a node that voted for it.\<close>

definition elected :: "'x raft_ext_scheme \<Rightarrow> raft_node \<Rightarrow> bool" where
  "elected E n \<longleftrightarrow>
     rf_id n = 1 \<and> rf_peers n = [2, 3] \<and> current_term n = 1 \<and> rf_log n = [dummy_entry E] \<and> commit_index n = 0 \<and>
     last_applied n = 0 \<and> next_index n = [(2, 1), (3, 1)] \<and> match_index n = [(2, 0), (3, 0)] \<and> rf_role n = Leader \<and>
     leader_id n = Some 1 \<and> heartbeat_deadline n = 1100 \<and> pending_requests n = []"

definition voted :: "'x raft_ext_scheme \<Rightarrow> raft_node \<Rightarrow> bool" where
  "voted E n \<longleftrightarrow>
     rf_id n = 2 \<and> rf_peers n = [1, 3] \<and> current_term n = 1 \<and> rf_log n = [dummy_entry E] \<and> commit_index n = 0 \<and>
     last_applied n = 0 \<and> rf_role n = Follower \<and> pending_requests n = [] \<and> election_timeout n = None"

lemma sample_election:
  obtains c where "live_reach sample_raft_ext sample_membership c" and "(1, 1) \<in> cl_leaders c"
    and "elected sample_raft_ext (cl_nodes c 1)" and "voted sample_raft_ext (cl_nodes c 2)"
proof -
  let ?E = "sample_raft_ext" and ?M = "sample_membership"
  obtain db where db: "\<And>i peers. new_in_dir ?E [] i peers config_default 0 (\<lambda>_. 0) = Inr (fresh_node db i peers)"
    using fresh_node_new by blast
  let ?q = "\<lparr>rv_term = 1, rv_candidate_id = 1, rv_last_log_index = 0, rv_last_log_term = 0\<rparr>"
  let ?r = "\<lparr>vr_term = 1, vr_voter_id = 2, vr_vote_granted = True\<rparr>"
  let ?c0 = "\<lparr>cl_nodes = (\<lambda>i. fresh_node db i (mb_peers ?M i)), cl_net = {}, cl_votes = {}, cl_leaders = {}\<rparr>"
  have r0: "live_reach ?E ?M ?c0"
    by (rule live_reach.Init) (use db in \<open>auto simp: cluster_init_def sample_membership_def\<close>)
  have "\<exists>n. tick 1000 (fresh_node db 1 (mb_peers ?M 1)) = Inr n \<and> rf_outbox n = [(2, MRequestVote ?q), (3, MRequestVote ?q)]
      \<and> current_term n = 1 \<and> rf_role n = Candidate \<and> votes_received n = [1] \<and> rf_id n = 1 \<and> rf_peers n = [2, 3]
      \<and> rf_log n = [dummy_entry ?E] \<and> commit_index n = 0 \<and> last_applied n = 0 \<and> next_index n = [] \<and> match_index n = []
      \<and> pending_requests n = []"
    by (simp add: election_run sample_membership_def)
  then obtain n1 where n1: "tick 1000 (fresh_node db 1 (mb_peers ?M 1)) = Inr n1"
    "rf_outbox n1 = [(2, MRequestVote ?q), (3, MRequestVote ?q)]" "current_term n1 = 1" "rf_role n1 = Candidate"
    "votes_received n1 = [1]" "rf_id n1 = 1" "rf_peers n1 = [2, 3]" "rf_log n1 = [dummy_entry ?E]"
    "commit_index n1 = 0" "last_applied n1 = 0" "next_index n1 = []" "match_index n1 = []" "pending_requests n1 = []" by blast
  let ?c1 = "set_node 1 n1 ?c0"
  have r1: "live_reach ?E ?M ?c1"
    by (rule live_reach.Step [OF r0], rule live_step.Tick [of _ _ _ 1000])
      (use n1(1) in \<open>simp_all add: sample_membership_def fresh_node_def\<close>)
  let ?n2 = "n1\<lparr>rf_outbox := []\<rparr>"
  let ?c2 = "set_node 1 ?n2 ?c1\<lparr>cl_net := {(2, MRequestVote ?q)}\<rparr>"
  have r2: "live_reach ?E ?M ?c2"
    using live_reach.Step [OF r1 live_step.Send [of 1 ?M "[(2, MRequestVote ?q)]" ?c1]] n1(2)
    by (simp add: sample_membership_def)
  have "\<exists>n. handle_message ?E (MRequestVote ?q) 1000 (fresh_node db 2 (mb_peers ?M 2)) = Inr n
      \<and> rf_outbox n = [(1, MRequestVoteResponse ?r)] \<and> voted ?E n"
    by (simp add: voted_def election_run sample_membership_def)
  then obtain n3 where n3: "handle_message ?E (MRequestVote ?q) 1000 (fresh_node db 2 (mb_peers ?M 2)) = Inr n3"
    "rf_outbox n3 = [(1, MRequestVoteResponse ?r)]" "voted ?E n3" by blast
  let ?c3 = "set_node 2 n3 ?c2"
  have r3: "live_reach ?E ?M ?c3"
    by (rule live_reach.Step [OF r2], rule live_step.Deliver [of _ _ "MRequestVote ?q" _ _ 1000])
      (use n3(1) in \<open>simp_all add: sample_membership_def fresh_node_def\<close>)
  let ?c4 = "set_node 2 (n3\<lparr>rf_outbox := []\<rparr>) ?c3\<lparr>cl_net := {(2, MRequestVote ?q), (1, MRequestVoteResponse ?r)}\<rparr>"
  have r4: "live_reach ?E ?M ?c4"
    using live_reach.Step [OF r3 live_step.Send [of 2 ?M "[(1, MRequestVoteResponse ?r)]" ?c3]] n3(2)
    by (simp add: sample_membership_def insert_commute)
  have "\<exists>n. handle_message ?E (MRequestVoteResponse ?r) 1000 ?n2 = Inr n \<and> elected ?E n"
    by (simp add: elected_def election_run n1)
  then obtain n5 where n5: "handle_message ?E (MRequestVoteResponse ?r) 1000 ?n2 = Inr n5" "elected ?E n5" by blast
  have "live_reach ?E ?M (set_node 1 n5 ?c4)"
    by (rule live_reach.Step [OF r4], rule live_step.Deliver [of _ _ "MRequestVoteResponse ?r" _ _ 1000])
      (use n5(1) n1(3) in \<open>simp_all add: sample_membership_def\<close>)
  then show thesis by (rule that) (use n3(3) n5(2) in \<open>simp_all add: leading_def elected_def voted_def\<close>)
qed

theorem election_safety_witness:
  "\<exists>c. cluster_reach sample_raft_ext sample_membership c \<and> (1, 1) \<in> cl_leaders c \<and>
    (\<forall>b. (1, b) \<in> cl_leaders c \<longrightarrow> b = 1)"
proof -
  obtain c where "live_reach sample_raft_ext sample_membership c" and c: "(1, 1) \<in> cl_leaders c"
    by (rule sample_election)
  then have "cluster_reach sample_raft_ext sample_membership c" by (simp add: live_reach_cluster)
  with election_safety [OF this sample_membership_ok sample_dummy] c show ?thesis by blast
qed

end
