(* ===== verification/Raft_Protocol.thy ===== *)
theory Raft_Protocol
  imports Raft_Quorum "HOL-Library.Sublist"
begin

text \<open>
  An abstract specification of Raft with a fixed membership: the part of a node's state that
  consensus is about, the messages that carry it, and one rule per action. The history of the
  protocol is part of the state: the votes ever cast, the log of the leader of each term, and which
  node has stored how much of it. The handlers of the code are shown to be sequences of these
  actions elsewhere.

  Shown here: leaders are unique, logs that agree at an index and term agree up to there, a
  committed entry is in the log of every later leader, and two nodes never apply different entries
  at the same index.
\<close>

section \<open>State and actions\<close>

record 'd core =
  c_term :: u64
  c_vote :: "node_id option"
  c_role :: role
  c_got :: "node_id set"
  c_log :: "log_entry list"
  c_commit :: nat
  c_applied :: nat
  c_match :: "node_id \<rightharpoonup> nat"
  c_state :: 'd

datatype pmsg =
    VoteReq u64 node_id nat u64
  | VoteGrant u64 node_id node_id
  | AppendReq node_id u64 nat u64 "log_entry list" nat
  | AppendAck u64 node_id nat

type_synonym leads = "u64 \<rightharpoonup> node_id \<times> log_entry list"
type_synonym acks = "(u64 \<times> node_id \<times> nat) set"

record 'd proto =
  p_core :: "node_id \<Rightarrow> 'd core"
  p_msgs :: "pmsg set"
  p_votes :: "(u64 \<times> node_id \<times> node_id) set"
  p_lead :: leads
  p_acks :: acks

definition upd :: "node_id \<Rightarrow> ('d core \<Rightarrow> 'd core) \<Rightarrow> 'd proto \<Rightarrow> 'd proto" where
  "upd i g p = p\<lparr>p_core := (p_core p)(i := g (p_core p i))\<rparr>"

lemma upd_simps [simp]:
  "p_core (upd i g p) = (p_core p)(i := g (p_core p i))" "p_msgs (upd i g p) = p_msgs p"
  "p_votes (upd i g p) = p_votes p" "p_lead (upd i g p) = p_lead p" "p_acks (upd i g p) = p_acks p"
  by (simp_all add: upd_def)

text \<open>A follower that accepts entries keeps its log if they are in it.\<close>

definition accept_log :: "nat \<Rightarrow> log_entry list \<Rightarrow> log_entry list \<Rightarrow> log_entry list" where
  "accept_log prev es log =
     (let X = take (Suc prev) log @ es in if prefix X log then log else X)"

definition newer_log :: "u64 \<Rightarrow> nat \<Rightarrow> log_entry list \<Rightarrow> bool" where
  "newer_log t k log \<longleftrightarrow>
     t > le_term (last log) \<or> (t = le_term (last log) \<and> k \<ge> length log - 1)"

inductive proto_step ::
  "node_id set \<Rightarrow> (log_entry \<Rightarrow> 'd \<Rightarrow> 'd) \<Rightarrow> 'd proto \<Rightarrow> 'd proto \<Rightarrow> bool"
  for ids :: "node_id set" and f :: "log_entry \<Rightarrow> 'd \<Rightarrow> 'd" where
  StepDown: "\<lbrakk>i \<in> ids; c_term (p_core p i) < t\<rbrakk> \<Longrightarrow>
     proto_step ids f p (upd i (\<lambda>n. n\<lparr>c_term := t, c_vote := None, c_role := Follower\<rparr>) p)"
| Elect: "\<lbrakk>i \<in> ids; t = c_term (p_core p i) + 1; c_term (p_core p i) < t\<rbrakk> \<Longrightarrow>
     proto_step ids f p
       (upd i (\<lambda>n. n\<lparr>c_term := t, c_vote := Some i, c_role := Candidate, c_got := {i}\<rparr>) p
         \<lparr>p_votes := p_votes p \<union> {(t, i, i)}\<rparr>)"
| Ask: "\<lbrakk>i \<in> ids; n = p_core p i; c_role n = Candidate\<rbrakk> \<Longrightarrow>
     proto_step ids f p
       (p\<lparr>p_msgs := p_msgs p \<union> {VoteReq (c_term n) i (length (c_log n) - 1) (le_term (last (c_log n)))}\<rparr>)"
| Grant: "\<lbrakk>i \<in> ids; n = p_core p i; VoteReq (c_term n) x k t \<in> p_msgs p; c_vote n \<in> {None, Some x};
     newer_log t k (c_log n)\<rbrakk> \<Longrightarrow>
     proto_step ids f p
       (upd i (\<lambda>n. n\<lparr>c_vote := Some x\<rparr>) p
         \<lparr>p_votes := p_votes p \<union> {(c_term n, i, x)}, p_msgs := p_msgs p \<union> {VoteGrant (c_term n) i x}\<rparr>)"
| Collect: "\<lbrakk>i \<in> ids; n = p_core p i; VoteGrant (c_term n) v i \<in> p_msgs p; c_role n = Candidate\<rbrakk> \<Longrightarrow>
     proto_step ids f p (upd i (\<lambda>n. n\<lparr>c_got := insert v (c_got n)\<rparr>) p)"
| Lead: "\<lbrakk>i \<in> ids; n = p_core p i; c_role n = Candidate; c_got n \<in> majorities ids\<rbrakk> \<Longrightarrow>
     proto_step ids f p
       (upd i (\<lambda>n. n\<lparr>c_role := Leader, c_match := (\<lambda>v. if v \<in> ids - {i} then Some 0 else None)\<rparr>) p
         \<lparr>p_lead := (p_lead p)(c_term n \<mapsto> (i, c_log n))\<rparr>)"
| SendAppend: "\<lbrakk>i \<in> ids; n = p_core p i; c_role n = Leader; to \<noteq> i; prev < length (c_log n)\<rbrakk> \<Longrightarrow>
     proto_step ids f p
       (p\<lparr>p_msgs := p_msgs p \<union> {AppendReq to (c_term n) prev (le_term (c_log n ! prev))
                                 (drop (Suc prev) (c_log n)) (c_commit n)}\<rparr>)"
| Propose: "\<lbrakk>i \<in> ids; n = p_core p i; c_role n = Leader; le_term e = c_term n\<rbrakk> \<Longrightarrow>
     proto_step ids f p
       (upd i (\<lambda>n. n\<lparr>c_log := c_log n @ [e]\<rparr>) p
         \<lparr>p_lead := (p_lead p)(c_term n \<mapsto> (i, c_log n @ [e])),
          p_acks := p_acks p \<union> {(c_term n, i, length (c_log n))}\<rparr>)"
| Accept: "\<lbrakk>i \<in> ids; n = p_core p i; AppendReq i (c_term n) prev pt es k \<in> p_msgs p;
     prev < length (c_log n); le_term (c_log n ! prev) = pt; log = accept_log prev es (c_log n)\<rbrakk> \<Longrightarrow>
     proto_step ids f p
       (upd i (\<lambda>n. n\<lparr>c_role := Follower, c_log := log, c_commit := min k (length log - 1)\<rparr>) p
         \<lparr>p_acks := p_acks p \<union> {(c_term n, i, prev + length es)},
          p_msgs := p_msgs p \<union> {AppendAck (c_term n) i (prev + length es)}\<rparr>)"
| Learn: "\<lbrakk>i \<in> ids; n = p_core p i; c_role n = Leader; AppendAck (c_term n) v k \<in> p_msgs p\<rbrakk> \<Longrightarrow>
     proto_step ids f p (upd i (\<lambda>n. n\<lparr>c_match := (c_match n)(v \<mapsto> k)\<rparr>) p)"
| Commit: "\<lbrakk>i \<in> ids; n = p_core p i; c_role n = Leader; c_commit n < k; k < length (c_log n);
     le_term (c_log n ! k) = c_term n; Q \<in> majorities ids;
     \<forall>v \<in> Q. v = i \<or> (\<exists>m. c_match n v = Some m \<and> k \<le> m)\<rbrakk> \<Longrightarrow>
     proto_step ids f p (upd i (\<lambda>n. n\<lparr>c_commit := k\<rparr>) p)"
| Apply: "\<lbrakk>i \<in> ids; n = p_core p i; c_applied n < c_commit n\<rbrakk> \<Longrightarrow>
     proto_step ids f p
       (upd i (\<lambda>n. n\<lparr>c_applied := Suc (c_applied n), c_state := f (c_log n ! Suc (c_applied n)) (c_state n)\<rparr>) p)"
| Follow: "\<lbrakk>i \<in> ids; got \<subseteq> c_got (p_core p i); m \<subseteq>\<^sub>m c_match (p_core p i)\<rbrakk> \<Longrightarrow>
     proto_step ids f p (upd i (\<lambda>n. n\<lparr>c_role := Follower, c_got := got, c_match := m\<rparr>) p)"

section \<open>Invariants\<close>

definition has :: "log_entry list \<Rightarrow> log_entry list \<Rightarrow> nat \<Rightarrow> bool" where
  "has X l k \<longleftrightarrow> k < length X \<and> take (Suc k) X = take (Suc k) l"

definition lacks :: "leads \<Rightarrow> u64 \<Rightarrow> log_entry list \<Rightarrow> nat \<Rightarrow> bool" where
  "lacks L w l k \<longleftrightarrow> (\<exists>own l'. L w = Some (own, l') \<and> \<not> has l' l k)"

definition log_ok :: "leads \<Rightarrow> log_entry \<Rightarrow> log_entry list \<Rightarrow> bool" where
  "log_ok L D X \<longleftrightarrow>
     X \<noteq> [] \<and> hd X = D \<and> (\<forall>k < length X. \<exists>own l. L (le_term (X ! k)) = Some (own, l) \<and> has X l k)"

definition terms_le :: "log_entry list \<Rightarrow> u64 \<Rightarrow> bool" where
  "terms_le X t \<longleftrightarrow> (\<forall>e \<in> set X. le_term e \<le> t)"

definition committed :: "node_id set \<Rightarrow> acks \<Rightarrow> u64 \<Rightarrow> nat \<Rightarrow> bool" where
  "committed ids A t k \<longleftrightarrow> (\<exists>Q \<in> majorities ids. \<forall>v \<in> Q. \<exists>j \<ge> k. (t, v, j) \<in> A)"

definition safe :: "node_id set \<Rightarrow> leads \<Rightarrow> acks \<Rightarrow> u64 \<Rightarrow> log_entry list \<Rightarrow> bool" where
  "safe ids L A T X \<longleftrightarrow>
     length X \<le> 1 \<or>
     (\<exists>t own l k. t \<le> T \<and> L t = Some (own, l) \<and> committed ids A t k \<and> k < length l \<and>
        le_term (l ! k) = t \<and> prefix X (take (Suc k) l))"

definition inv_votes :: "node_id set \<Rightarrow> 'd proto \<Rightarrow> bool" where
  "inv_votes ids p \<longleftrightarrow>
     (\<forall>t v x. (t, v, x) \<in> p_votes p \<longrightarrow>
        v \<in> ids \<and> t \<le> c_term (p_core p v) \<and> (t = c_term (p_core p v) \<longrightarrow> c_vote (p_core p v) = Some x)) \<and>
     (\<forall>t v x y. (t, v, x) \<in> p_votes p \<longrightarrow> (t, v, y) \<in> p_votes p \<longrightarrow> x = y) \<and>
     (\<forall>i \<in> ids. c_role (p_core p i) \<noteq> Follower \<longrightarrow>
        (\<forall>v \<in> c_got (p_core p i). (c_term (p_core p i), v, i) \<in> p_votes p)) \<and>
     (\<forall>t v x. VoteGrant t v x \<in> p_msgs p \<longrightarrow> (t, v, x) \<in> p_votes p)"

definition inv_lead :: "node_id set \<Rightarrow> log_entry \<Rightarrow> 'd proto \<Rightarrow> bool" where
  "inv_lead ids D p \<longleftrightarrow>
     p_lead p 0 = Some (0, [D]) \<and>
     (\<forall>t own l. p_lead p t = Some (own, l) \<longrightarrow> t \<noteq> 0 \<longrightarrow>
        own \<in> ids \<and> t \<le> c_term (p_core p own) \<and> (\<exists>Q \<in> majorities ids. \<forall>v \<in> Q. (t, v, own) \<in> p_votes p)) \<and>
     (\<forall>i \<in> ids. c_role (p_core p i) \<noteq> Follower \<longrightarrow> c_term (p_core p i) \<noteq> 0) \<and>
     (\<forall>i \<in> ids. \<forall>l. c_role (p_core p i) = Candidate \<longrightarrow> p_lead p (c_term (p_core p i)) \<noteq> Some (i, l)) \<and>
     (\<forall>i \<in> ids. c_role (p_core p i) = Leader \<longrightarrow> p_lead p (c_term (p_core p i)) = Some (i, c_log (p_core p i)))"

definition inv_logs :: "node_id set \<Rightarrow> log_entry \<Rightarrow> 'd proto \<Rightarrow> bool" where
  "inv_logs ids D p \<longleftrightarrow>
     (\<forall>i \<in> ids. log_ok (p_lead p) D (c_log (p_core p i)) \<and> terms_le (c_log (p_core p i)) (c_term (p_core p i))) \<and>
     (\<forall>t own l. p_lead p t = Some (own, l) \<longrightarrow> log_ok (p_lead p) D l \<and> terms_le l t) \<and>
     (\<forall>to t prev pt es k. AppendReq to t prev pt es k \<in> p_msgs p \<longrightarrow>
        (\<exists>own l. p_lead p t = Some (own, l) \<and> own \<noteq> to \<and> prev < length l \<and> pt = le_term (l ! prev) \<and>
           prefix (take (Suc prev) l @ es) l \<and> k \<le> prev + length es))"

definition stores :: "leads \<Rightarrow> u64 \<Rightarrow> log_entry list \<Rightarrow> u64 \<Rightarrow> log_entry list \<Rightarrow> nat \<Rightarrow> bool" where
  "stores L T X t l k \<longleftrightarrow> has X l k \<or> (\<exists>w. t < w \<and> w \<le> T \<and> lacks L w l k)"

definition inv_acks :: "node_id set \<Rightarrow> 'd proto \<Rightarrow> bool" where
  "inv_acks ids p \<longleftrightarrow>
     (\<forall>t v j. (t, v, j) \<in> p_acks p \<longrightarrow> v \<in> ids \<and> t \<le> c_term (p_core p v) \<and>
        (\<exists>own l. p_lead p t = Some (own, l) \<and> j < length l \<and>
           (\<forall>k \<le> j. le_term (l ! k) = t \<longrightarrow> stores (p_lead p) (c_term (p_core p v)) (c_log (p_core p v)) t l k))) \<and>
     (\<forall>t v j. AppendAck t v j \<in> p_msgs p \<longrightarrow>
        (t, v, j) \<in> p_acks p \<and> (\<exists>own l. p_lead p t = Some (own, l) \<and> own \<noteq> v))"

definition missed :: "node_id set \<Rightarrow> 'd proto \<Rightarrow> u64 \<Rightarrow> nat \<Rightarrow> bool" where
  "missed ids p t k \<longleftrightarrow>
     (\<exists>Q \<in> majorities ids. \<forall>v \<in> Q. t < c_term (p_core p v) \<and> (\<forall>j \<ge> k. (t, v, j) \<notin> p_acks p))"

definition inv_choice :: "node_id set \<Rightarrow> 'd proto \<Rightarrow> bool" where
  "inv_choice ids p \<longleftrightarrow>
     (\<forall>t own l k u. p_lead p t = Some (own, l) \<longrightarrow> k < length l \<longrightarrow> le_term (l ! k) = t \<longrightarrow> t < u \<longrightarrow>
        lacks (p_lead p) u l k \<longrightarrow> missed ids p t k)"

definition ballot_ok :: "'d proto \<Rightarrow> u64 \<Rightarrow> node_id \<Rightarrow> node_id \<Rightarrow> bool" where
  "ballot_ok p u v x \<longleftrightarrow>
     (\<forall>t j own l k. t < u \<longrightarrow> (t, v, j) \<in> p_acks p \<longrightarrow> k \<le> j \<longrightarrow> p_lead p t = Some (own, l) \<longrightarrow> le_term (l ! k) = t \<longrightarrow>
        stores (p_lead p) u (c_log (p_core p x)) t l k)"

definition inv_ballots :: "node_id set \<Rightarrow> 'd proto \<Rightarrow> bool" where
  "inv_ballots ids p \<longleftrightarrow>
     (\<forall>u v x. (u, v, x) \<in> p_votes p \<longrightarrow> x \<in> ids \<and> u \<le> c_term (p_core p x) \<and>
        (c_term (p_core p x) = u \<longrightarrow> c_role (p_core p x) = Candidate \<longrightarrow> ballot_ok p u v x)) \<and>
     (\<forall>u x k t. VoteReq u x k t \<in> p_msgs p \<longrightarrow> x \<in> ids \<and> u \<le> c_term (p_core p x) \<and>
        (c_term (p_core p x) = u \<longrightarrow> c_role (p_core p x) = Candidate \<longrightarrow>
           k = length (c_log (p_core p x)) - 1 \<and> t = le_term (last (c_log (p_core p x)))))"

definition node_safe ::
  "node_id set \<Rightarrow> (log_entry \<Rightarrow> 'd \<Rightarrow> 'd) \<Rightarrow> 'd \<Rightarrow> leads \<Rightarrow> acks \<Rightarrow> node_id \<Rightarrow> 'd core \<Rightarrow> bool" where
  "node_safe ids f d L A i n \<longleftrightarrow>
     c_commit n < length (c_log n) \<and> c_applied n < length (c_log n) \<and>
     safe ids L A (c_term n) (take (Suc (c_commit n)) (c_log n)) \<and>
     safe ids L A (c_term n) (take (Suc (c_applied n)) (c_log n)) \<and>
     c_state n = fold f (take (c_applied n) (tl (c_log n))) d \<and>
     dom (c_match n) \<subseteq> ids - {i} \<and>
     (c_role n = Leader \<longrightarrow> (\<forall>v k. c_match n v = Some k \<longrightarrow> k = 0 \<or> (c_term n, v, k) \<in> A)) \<and>
     (c_role n = Leader \<longrightarrow> (\<forall>k < length (c_log n). le_term (c_log n ! k) = c_term n \<longrightarrow> (c_term n, i, k) \<in> A))"

definition inv_safe :: "node_id set \<Rightarrow> (log_entry \<Rightarrow> 'd \<Rightarrow> 'd) \<Rightarrow> 'd \<Rightarrow> 'd proto \<Rightarrow> bool" where
  "inv_safe ids f d p \<longleftrightarrow>
     (\<forall>i \<in> ids. node_safe ids f d (p_lead p) (p_acks p) i (p_core p i)) \<and>
     (\<forall>to t prev pt es k own l. AppendReq to t prev pt es k \<in> p_msgs p \<longrightarrow> p_lead p t = Some (own, l) \<longrightarrow>
        safe ids (p_lead p) (p_acks p) t (take (Suc k) l))"

definition proto_inv :: "node_id set \<Rightarrow> log_entry \<Rightarrow> (log_entry \<Rightarrow> 'd \<Rightarrow> 'd) \<Rightarrow> 'd \<Rightarrow> 'd proto \<Rightarrow> bool" where
  "proto_inv ids D f d p \<longleftrightarrow>
     finite ids \<and> 0 \<notin> ids \<and> inv_votes ids p \<and> inv_lead ids D p \<and> inv_logs ids D p \<and> inv_acks ids p \<and>
     inv_choice ids p \<and> inv_ballots ids p \<and> inv_safe ids f d p"


section \<open>Logs\<close>

lemma hasD: "has X l k \<Longrightarrow> k < length X" "has X l k \<Longrightarrow> take (Suc k) X = take (Suc k) l"
  "has X l k \<Longrightarrow> k < length l" "has X l k \<Longrightarrow> i \<le> k \<Longrightarrow> X ! i = l ! i"
proof -
  assume h: "has X l k"
  then show k: "k < length X" and eq: "take (Suc k) X = take (Suc k) l" by (simp_all add: has_def)
  from arg_cong [OF eq, of length] k show "k < length l" by simp
  assume "i \<le> k"
  then show "X ! i = l ! i" using arg_cong [OF eq, of "\<lambda>xs. xs ! i"] by simp
qed

lemma has_refl: "k < length l \<Longrightarrow> has l l k"
  by (simp add: has_def)

lemma has_sym: "has X l k \<Longrightarrow> has l X k"
  using hasD(2,3) [of X l k] by (simp add: has_def)

lemma has_trans: "has X Y k \<Longrightarrow> has Y Z k \<Longrightarrow> has X Z k"
  by (simp add: has_def)

lemma has_le:
  assumes "has X l k" and "j \<le> k"
  shows "has X l j"
proof -
  have "take (Suc j) X = take (Suc j) (take (Suc k) X)" using assms(2) by (simp add: min_def)
  also have "\<dots> = take (Suc j) l" using hasD(2) [OF assms(1)] assms(2) by (simp add: min_def)
  finally show ?thesis using assms by (simp add: has_def)
qed

lemma has_append: "k < length l \<Longrightarrow> has X (l @ zs) k \<longleftrightarrow> has X l k"
  by (simp add: has_def)

lemma has_append_left: "has X l k \<Longrightarrow> has (X @ zs) l k"
  by (simp add: has_def)

lemma has_take: "has (take n X) l k \<longleftrightarrow> k < n \<and> has X l k"
  by (auto simp: has_def min_def)

lemma has_prefix: "prefix P X \<Longrightarrow> has X l k \<Longrightarrow> k < length P \<Longrightarrow> has P l k"
  by (auto simp: prefix_def has_def)

lemma prefix_has: "prefix P X \<Longrightarrow> k < length P \<Longrightarrow> has X P k"
  by (auto simp: prefix_def has_def)

lemma log_okD:
  assumes "log_ok L D X" and "k < length X"
  obtains own l where "L (le_term (X ! k)) = Some (own, l)" and "has X l k"
  using assms by (auto simp: log_ok_def)

lemma log_sorted:
  assumes ok: "log_ok L D X" and le: "\<And>t own l. L t = Some (own, l) \<Longrightarrow> terms_le l t"
    and i: "i \<le> j" "j < length X"
  shows "le_term (X ! i) \<le> le_term (X ! j)"
proof -
  obtain own l where l: "L (le_term (X ! j)) = Some (own, l)" "has X l j"
    by (rule log_okD [OF ok i(2)])
  have "X ! i = l ! i" and "i < length l" using hasD [OF l(2)] i by auto
  then have "X ! i \<in> set l" by simp
  with le [OF l(1)] show ?thesis by (simp add: terms_le_def)
qed

lemma log_agree:
  assumes "log_ok L D X" and "log_ok L D Y" and "k < length X" and "k < length Y"
    and "le_term (X ! k) = le_term (Y ! k)"
  shows "has X Y k"
proof -
  obtain own l where x: "L (le_term (X ! k)) = Some (own, l)" "has X l k" by (rule log_okD [OF assms(1,3)])
  obtain own' l' where y: "L (le_term (Y ! k)) = Some (own', l')" "has Y l' k" by (rule log_okD [OF assms(2,4)])
  from x y assms(5) have "has Y l k" by simp
  from has_trans [OF x(2) has_sym [OF this]] show ?thesis .
qed

text \<open>The logs of leaders only grow, by entries of their term.\<close>

definition lead_ext :: "leads \<Rightarrow> leads \<Rightarrow> bool" where
  "lead_ext L L' \<longleftrightarrow>
     (\<forall>t own l. L t = Some (own, l) \<longrightarrow>
        (\<exists>zs. L' t = Some (own, l @ zs) \<and> (\<forall>e \<in> set zs. le_term e = t)))"

lemma lead_ext_refl [simp]: "lead_ext L L"
  by (simp add: lead_ext_def)

lemma lead_ext_new: "L t = None \<Longrightarrow> lead_ext L (L(t \<mapsto> x))"
  by (auto simp: lead_ext_def)

lemma lead_ext_more: "L t = Some (own, l) \<Longrightarrow> le_term e = t \<Longrightarrow> lead_ext L (L(t \<mapsto> (own, l @ [e])))"
  by (auto simp: lead_ext_def)

lemma lead_extD:
  assumes "lead_ext L L'" and "L t = Some (own, l)"
  obtains zs where "L' t = Some (own, l @ zs)" and "\<forall>e \<in> set zs. le_term e = t"
  using assms unfolding lead_ext_def by blast

lemma log_ok_ext: "log_ok L D X \<Longrightarrow> lead_ext L L' \<Longrightarrow> log_ok L' D X"
  unfolding log_ok_def lead_ext_def by (metis has_append hasD(3))

lemma lacks_ext:
  assumes "lacks L w l k" and ext: "lead_ext L L'" and k: "k < length l" "le_term (l ! k) \<noteq> w"
  shows "lacks L' w l k"
proof -
  obtain own l' where l': "L w = Some (own, l')" "\<not> has l' l k" using assms by (auto simp: lacks_def)
  obtain zs where zs: "L' w = Some (own, l' @ zs)" "\<forall>e \<in> set zs. le_term e = w"
    by (rule lead_extD [OF ext l'(1)])
  have "\<not> has (l' @ zs) l k"
  proof
    assume h: "has (l' @ zs) l k"
    show False
    proof (cases "k < length l'")
      case True
      with h l'(2) show False by (simp add: has_def)
    next
      case False
      with hasD(1) [OF h] hasD(4) [OF h, of k] have "l ! k = zs ! (k - length l')" "k - length l' < length zs"
        by (auto simp: nth_append)
      then have "l ! k \<in> set zs" by simp
      with zs(2) k(2) show False by blast
    qed
  qed
  with zs show ?thesis by (auto simp: lacks_def)
qed

lemma lacks_back:
  assumes "lacks L' w l k" and "lead_ext L L'" and "L w \<noteq> None"
  shows "lacks L w l k"
proof -
  obtain own l' where l': "L w = Some (own, l')" using assms(3) by auto
  obtain zs where "L' w = Some (own, l' @ zs)" by (rule lead_extD [OF assms(2) l'])
  with l' assms(1) show ?thesis using has_append_left [of l' l k zs] by (auto simp: lacks_def)
qed

lemma committed_mono:
  assumes "committed ids A t k" and "A \<subseteq> B"
  shows "committed ids B t k"
proof -
  obtain Q where Q: "Q \<in> majorities ids" "\<forall>v \<in> Q. \<exists>j \<ge> k. (t, v, j) \<in> A"
    using assms(1) unfolding committed_def ..
  from Q(2) have "\<forall>v \<in> Q. \<exists>j \<ge> k. (t, v, j) \<in> B" by (meson assms(2) subsetD)
  with Q(1) show ?thesis unfolding committed_def ..
qed

lemma safeI:
  "\<lbrakk>t \<le> T; L t = Some (own, l); committed ids A t k; k < length l; le_term (l ! k) = t;
    prefix X (take (Suc k) l)\<rbrakk> \<Longrightarrow> safe ids L A T X"
  unfolding safe_def by blast

lemma safeE:
  assumes "safe ids L A T X"
  obtains "length X \<le> 1"
  | t own l k where "t \<le> T" "L t = Some (own, l)" "committed ids A t k" "k < length l" "le_term (l ! k) = t"
      "prefix X (take (Suc k) l)"
  using assms unfolding safe_def by blast

lemma safe_short: "length X \<le> 1 \<Longrightarrow> safe ids L A T X"
  by (simp add: safe_def)

lemma safe_mono:
  assumes "safe ids L A T X" and ext: "lead_ext L L'" and sub: "A \<subseteq> B" and "T \<le> U"
  shows "safe ids L' B U X"
  using assms(1)
proof (cases rule: safeE)
  case (2 t own l k)
  obtain zs where zs: "L' t = Some (own, l @ zs)" by (rule lead_extD [OF ext 2(2)])
  show ?thesis
    by (rule safeI [of t U L' own "l @ zs" ids B k]) (use 2 zs assms(4) committed_mono [OF 2(3) sub] in \<open>auto simp: nth_append\<close>)
qed (rule safe_short)

lemma safe_prefix:
  assumes "safe ids L A T X" and P: "prefix P X"
  shows "safe ids L A T P"
  using assms(1)
proof (cases rule: safeE)
  case 1
  with prefix_length_le [OF P] show ?thesis by (intro safe_short) simp
next
  case (2 t own l k)
  show ?thesis by (rule safeI [of t T L own l ids A k]) (use 2 prefix_order.trans [OF P 2(6)] in simp_all)
qed

section \<open>Consequences of the invariants\<close>

lemmas inv_defs = inv_votes_def inv_lead_def inv_logs_def inv_acks_def inv_choice_def inv_ballots_def inv_safe_def

lemma proto_invD:
  assumes "proto_inv ids D f d p"
  shows "finite ids" "0 \<notin> ids" "inv_votes ids p" "inv_lead ids D p" "inv_logs ids D p" "inv_acks ids p"
    "inv_choice ids p" "inv_ballots ids p" "inv_safe ids f d p"
  using assms by (simp_all add: proto_inv_def)

text \<open>Leader completeness: a committed entry is in the log of every later leader.\<close>

lemma leader_complete:
  assumes choice: "inv_choice ids p"
    and t: "p_lead p t = Some (own, l)" "k < length l" "le_term (l ! k) = t" "committed ids (p_acks p) t k"
    and u: "p_lead p u = Some (own', l')" "t \<le> u"
  shows "has l' l k"
proof (rule ccontr)
  assume not: "\<not> has l' l k"
  with t u have "t < u" by (metis has_refl option.inject order_le_imp_less_or_eq prod.inject)
  moreover have "lacks (p_lead p) u l k" using u(1) not by (simp add: lacks_def)
  ultimately have "missed ids p t k" using choice t unfolding inv_choice_def by blast
  then obtain Q where Q: "Q \<in> majorities ids" "\<forall>v \<in> Q. \<forall>j \<ge> k. (t, v, j) \<notin> p_acks p"
    unfolding missed_def by blast
  obtain R where R: "R \<in> majorities ids" "\<forall>v \<in> R. \<exists>j \<ge> k. (t, v, j) \<in> p_acks p"
    using t(4) by (auto simp: committed_def)
  from majority_quorum.overlap [OF Q(1) R(1)] Q(2) R(2) show False by blast
qed

lemma lead_log_ok:
  assumes "inv_logs ids D p" and "p_lead p t = Some (own, l)"
  shows "log_ok (p_lead p) D l" "terms_le l t"
  using assms by (auto simp: inv_logs_def)

lemma node_log_ok:
  assumes "inv_logs ids D p" and "i \<in> ids"
  shows "log_ok (p_lead p) D (c_log (p_core p i))" "terms_le (c_log (p_core p i)) (c_term (p_core p i))"
  using assms by (auto simp: inv_logs_def)

lemma sorted_log:
  assumes "inv_logs ids D p" and "log_ok (p_lead p) D X" and "i \<le> j" and "j < length X"
  shows "le_term (X ! i) \<le> le_term (X ! j)"
  using log_sorted [OF assms(2) lead_log_ok(2) [OF assms(1)] assms(3,4)] .

text \<open>What is safe is in the log of every later leader.\<close>

lemma safe_in_lead:
  assumes choice: "inv_choice ids p" and logs: "inv_logs ids D p"
    and X: "safe ids (p_lead p) (p_acks p) T X" "X \<noteq> [] \<Longrightarrow> hd X = D"
    and u: "p_lead p u = Some (own, l)" "T \<le> u"
  shows "prefix X l"
  using X(1)
proof (cases rule: safeE)
  case 1
  have "l \<noteq> [] \<and> hd l = D" using lead_log_ok [OF logs u(1)] by (simp add: log_ok_def)
  with 1 X(2) show ?thesis by (cases X; cases l) auto
next
  case (2 t own' m k)
  have "has l m k" using leader_complete [OF choice 2(2,4,5,3) u(1)] 2(1) u(2) by simp
  then have "take (Suc k) m = take (Suc k) l" by (simp add: has_def)
  with 2(6) show ?thesis by (metis prefix_order.trans take_is_prefix)
qed


section \<open>Preservation: votes and leaders\<close>

lemma inv_votesD:
  assumes "inv_votes ids p"
  shows "(t, v, x) \<in> p_votes p \<Longrightarrow> v \<in> ids" "(t, v, x) \<in> p_votes p \<Longrightarrow> t \<le> c_term (p_core p v)"
    "(c_term (p_core p v), v, x) \<in> p_votes p \<Longrightarrow> c_vote (p_core p v) = Some x"
    "(t, v, x) \<in> p_votes p \<Longrightarrow> (t, v, y) \<in> p_votes p \<Longrightarrow> x = y"
    "i \<in> ids \<Longrightarrow> c_role (p_core p i) \<noteq> Follower \<Longrightarrow> v \<in> c_got (p_core p i) \<Longrightarrow> (c_term (p_core p i), v, i) \<in> p_votes p"
    "VoteGrant t v x \<in> p_msgs p \<Longrightarrow> (t, v, x) \<in> p_votes p"
  using assms unfolding inv_votes_def by blast+

lemma inv_votes_upd:
  assumes inv: "inv_votes ids p" and i: "i \<in> ids"
    and core: "\<And>j. j \<noteq> i \<Longrightarrow> p_core p' j = p_core p j" and votes: "p_votes p' = p_votes p \<union> V"
    and mono: "c_term (p_core p i) \<le> c_term (p_core p' i)"
      "\<And>x. c_term (p_core p' i) = c_term (p_core p i) \<Longrightarrow> c_vote (p_core p i) = Some x \<Longrightarrow> c_vote (p_core p' i) = Some x"
    and V: "\<And>t v x. (t, v, x) \<in> V \<Longrightarrow> t = c_term (p_core p' i) \<and> v = i \<and> c_vote (p_core p' i) = Some x"
    and got: "\<And>v. c_role (p_core p' i) \<noteq> Follower \<Longrightarrow> v \<in> c_got (p_core p' i) \<Longrightarrow> (c_term (p_core p' i), v, i) \<in> p_votes p \<union> V"
    and msgs: "\<And>t v x. VoteGrant t v x \<in> p_msgs p' \<Longrightarrow> VoteGrant t v x \<in> p_msgs p \<or> (t, v, x) \<in> V"
  shows "inv_votes ids p'"
proof -
  let ?n = "p_core p' i"
  note D = inv_votesD [OF inv]
  have key: "c_vote ?n = Some x" if "(c_term ?n, i, x) \<in> p_votes p" for x
    using D(2) [OF that] D(3) that mono by (metis antisym)
  have old: "t \<le> c_term ?n" if "(t, i, x) \<in> p_votes p" for t x
    using D(2) [OF that] mono(1) by simp
  have v1: "v \<in> ids \<and> t \<le> c_term (p_core p' v) \<and> (t = c_term (p_core p' v) \<longrightarrow> c_vote (p_core p' v) = Some x)"
    if "(t, v, x) \<in> p_votes p'" for t v x
  proof (cases "(t, v, x) \<in> V")
    case True
    with V [OF True] i show ?thesis by (simp add: core)
  next
    case False
    then have "(t, v, x) \<in> p_votes p" using that votes by simp
    with D(1,2,3) old key show ?thesis by (cases "v = i") (auto simp: core)
  qed
  have v2: "x = y" if "(t, v, x) \<in> p_votes p'" "(t, v, y) \<in> p_votes p'" for t v x y
  proof (cases "t = c_term ?n \<and> v = i")
    case True
    then have "c_vote ?n = Some x" "c_vote ?n = Some y" using that key V votes by auto
    then show ?thesis by simp
  next
    case False
    then show ?thesis using that V D(4) votes by blast
  qed
  have v3: "(c_term (p_core p' j), v, j) \<in> p_votes p'"
    if "j \<in> ids" "c_role (p_core p' j) \<noteq> Follower" "v \<in> c_got (p_core p' j)" for j v
    using that got D(5) by (cases "j = i") (auto simp: core votes)
  have v4: "(t, v, x) \<in> p_votes p'" if "VoteGrant t v x \<in> p_msgs p'" for t v x
    using msgs [OF that] D(6) votes by blast
  show ?thesis unfolding inv_votes_def using v1 v2 v3 v4 by blast
qed

lemma inv_votes_step:
  assumes "proto_step ids f p p'" and inv: "inv_votes ids p"
  shows "inv_votes ids p'"
  using assms(1)
proof cases
  case (StepDown i t)
  show ?thesis by (rule inv_votes_upd [OF inv StepDown(2), where V = "{}"]) (use StepDown(1,3) in auto)
next
  case (Elect i t)
  show ?thesis
    by (rule inv_votes_upd [OF inv Elect(2), where V = "{(t, i, i)}"]) (use Elect(1,3,4) in auto)
next
  case (Ask i n)
  with inv show ?thesis by (simp add: inv_votes_def)
next
  case (Grant i n x k t)
  show ?thesis
    by (rule inv_votes_upd [OF inv Grant(2), where V = "{(c_term n, i, x)}"])
      (use Grant inv_votesD(5) [OF inv Grant(2)] in auto)
next
  case (Collect i n v)
  show ?thesis
    by (rule inv_votes_upd [OF inv Collect(2), where V = "{}"])
      (use Collect inv_votesD(5,6) [OF inv] in auto)
next
  case (Lead i n)
  show ?thesis
    by (rule inv_votes_upd [OF inv Lead(2), where V = "{}"]) (use Lead inv_votesD(5) [OF inv] in auto)
next
  case (SendAppend i n to prev)
  with inv show ?thesis by (simp add: inv_votes_def)
next
  case (Propose i n e)
  show ?thesis
    by (rule inv_votes_upd [OF inv Propose(2), where V = "{}"]) (use Propose inv_votesD(5) [OF inv] in auto)
next
  case (Accept i n prev pt es k log)
  show ?thesis
    by (rule inv_votes_upd [OF inv Accept(2), where V = "{}"]) (use Accept in auto)
next
  case (Learn i n v k)
  show ?thesis
    by (rule inv_votes_upd [OF inv Learn(2), where V = "{}"]) (use Learn inv_votesD(5) [OF inv] in auto)
next
  case (Commit i n k Q)
  show ?thesis
    by (rule inv_votes_upd [OF inv Commit(2), where V = "{}"]) (use Commit inv_votesD(5) [OF inv] in auto)
next
  case (Apply i n)
  show ?thesis
    by (rule inv_votes_upd [OF inv Apply(2), where V = "{}"]) (use Apply inv_votesD(5) [OF inv] in auto)
next
  case (Follow i got m)
  show ?thesis
    by (rule inv_votes_upd [OF inv Follow(2), where V = "{}"]) (use Follow in auto)
qed


lemma inv_leadD:
  assumes "inv_lead ids D p"
  shows "p_lead p 0 = Some (0, [D])"
    "p_lead p t = Some (own, l) \<Longrightarrow> t \<noteq> 0 \<Longrightarrow> own \<in> ids"
    "p_lead p t = Some (own, l) \<Longrightarrow> t \<noteq> 0 \<Longrightarrow> t \<le> c_term (p_core p own)"
    "p_lead p t = Some (own, l) \<Longrightarrow> t \<noteq> 0 \<Longrightarrow> \<exists>Q \<in> majorities ids. \<forall>v \<in> Q. (t, v, own) \<in> p_votes p"
    "i \<in> ids \<Longrightarrow> c_role (p_core p i) \<noteq> Follower \<Longrightarrow> c_term (p_core p i) \<noteq> 0"
    "i \<in> ids \<Longrightarrow> c_role (p_core p i) = Candidate \<Longrightarrow> p_lead p (c_term (p_core p i)) \<noteq> Some (i, l)"
    "i \<in> ids \<Longrightarrow> c_role (p_core p i) = Leader \<Longrightarrow> p_lead p (c_term (p_core p i)) = Some (i, c_log (p_core p i))"
  using assms unfolding inv_lead_def by blast+

lemma inv_leadI:
  assumes "p_lead p 0 = Some (0, [D])"
    and "\<And>t own l. p_lead p t = Some (own, l) \<Longrightarrow> t \<noteq> 0 \<Longrightarrow>
        own \<in> ids \<and> t \<le> c_term (p_core p own) \<and> (\<exists>Q \<in> majorities ids. \<forall>v \<in> Q. (t, v, own) \<in> p_votes p)"
    and "\<And>i. i \<in> ids \<Longrightarrow> c_role (p_core p i) \<noteq> Follower \<Longrightarrow> c_term (p_core p i) \<noteq> 0"
    and "\<And>i l. i \<in> ids \<Longrightarrow> c_role (p_core p i) = Candidate \<Longrightarrow> p_lead p (c_term (p_core p i)) \<noteq> Some (i, l)"
    and "\<And>i. i \<in> ids \<Longrightarrow> c_role (p_core p i) = Leader \<Longrightarrow>
        p_lead p (c_term (p_core p i)) = Some (i, c_log (p_core p i))"
  shows "inv_lead ids D p"
  using assms unfolding inv_lead_def by blast

text \<open>Election safety: a candidate with a majority is the first leader of its term.\<close>

lemma candidate_fresh:
  assumes votes: "inv_votes ids p" and lead: "inv_lead ids D p" and i: "i \<in> ids"
    and n: "c_role (p_core p i) = Candidate" "c_got (p_core p i) \<in> majorities ids"
  shows "p_lead p (c_term (p_core p i)) = None"
proof (rule ccontr)
  let ?t = "c_term (p_core p i)"
  assume "p_lead p ?t \<noteq> None"
  then obtain own l where l: "p_lead p ?t = Some (own, l)" by auto
  have "?t \<noteq> 0" using inv_leadD(5) [OF lead i] n(1) by simp
  then obtain Q where Q: "Q \<in> majorities ids" "\<forall>v \<in> Q. (?t, v, own) \<in> p_votes p"
    using inv_leadD(4) [OF lead l] by blast
  have "\<forall>v \<in> c_got (p_core p i). (?t, v, i) \<in> p_votes p" using inv_votesD(5) [OF votes i] n(1) by simp
  with majority_quorum.overlap [OF Q(1) n(2)] Q(2) inv_votesD(4) [OF votes] have "own = i" by blast
  with l inv_leadD(6) [OF lead i n(1)] show False by simp
qed

lemma inv_lead_upd:
  assumes inv: "inv_lead ids D p" and i: "i \<in> ids"
    and core: "\<And>j. j \<noteq> i \<Longrightarrow> p_core p' j = p_core p j" and same: "p_lead p' = p_lead p"
    and votes: "p_votes p \<subseteq> p_votes p'" and mono: "c_term (p_core p i) \<le> c_term (p_core p' i)"
    and role: "c_role (p_core p' i) = Follower \<or> (c_role (p_core p' i) = c_role (p_core p i) \<and>
      c_term (p_core p' i) = c_term (p_core p i) \<and> c_log (p_core p' i) = c_log (p_core p i))"
  shows "inv_lead ids D p'"
proof -
  note D = inv_leadD [OF inv]
  have "\<exists>Q \<in> majorities ids. \<forall>v \<in> Q. (t, v, own) \<in> p_votes p'" if "p_lead p t = Some (own, l)" "t \<noteq> 0" for t own l
    using D(4) [OF that] votes by blast
  moreover have "t \<le> c_term (p_core p' own)" if "p_lead p t = Some (own, l)" "t \<noteq> 0" for t own l
    using D(3) [OF that] mono core by (cases "own = i") auto
  moreover have "c_term (p_core p' j) \<noteq> 0" if "j \<in> ids" "c_role (p_core p' j) \<noteq> Follower" for j
    using that D(5) [of j] role core by (cases "j = i") auto
  moreover have "p_lead p (c_term (p_core p' j)) \<noteq> Some (j, l)" if "j \<in> ids" "c_role (p_core p' j) = Candidate" for j l
    using that D(6) [of j] role core by (cases "j = i") auto
  moreover have "p_lead p (c_term (p_core p' j)) = Some (j, c_log (p_core p' j))"
    if "j \<in> ids" "c_role (p_core p' j) = Leader" for j
    using that D(7) [of j] role core by (cases "j = i") auto
  ultimately show ?thesis unfolding inv_lead_def same using D(1,2) by blast
qed

lemma inv_lead_elect:
  assumes inv: "inv_lead ids D p" and i: "i \<in> ids" and t: "c_term (p_core p i) < t"
  shows "inv_lead ids D (upd i (\<lambda>n. n\<lparr>c_term := t, c_vote := Some i, c_role := Candidate, c_got := {i}\<rparr>) p
         \<lparr>p_votes := p_votes p \<union> V\<rparr>)"
proof -
  note D = inv_leadD [OF inv]
  have t0: "t \<noteq> 0" using t by auto
  have "p_lead p t \<noteq> Some (i, l)" for l
    using D(3) [of t i l] t t0 by (meson leD)
  moreover have "\<exists>Q \<in> majorities ids. \<forall>v \<in> Q. (t, v, own) \<in> p_votes p \<union> V" if "p_lead p t = Some (own, l)" "t \<noteq> 0" for t own l
    using D(4) [OF that] by blast
  moreover have "own = i \<Longrightarrow> u \<le> t" if "p_lead p u = Some (own, l)" "u \<noteq> 0" for u own l
    using D(3) [OF that] t by auto
  ultimately show ?thesis using D t0 unfolding inv_lead_def by (auto simp del: Un_iff)
qed

lemma inv_lead_lead:
  assumes votes: "inv_votes ids p" and inv: "inv_lead ids D p" and i: "i \<in> ids"
    and n: "n = p_core p i" "c_role n = Candidate" "c_got n \<in> majorities ids"
  shows "inv_lead ids D (upd i (\<lambda>n. n\<lparr>c_role := Leader, c_match := m\<rparr>) p
         \<lparr>p_lead := (p_lead p)(c_term n \<mapsto> (i, c_log n))\<rparr>)"
proof -
  note D = inv_leadD [OF inv]
  have t0: "c_term n \<noteq> 0" using D(5) [OF i] n by simp
  have new: "p_lead p (c_term n) = None" using candidate_fresh [OF votes inv i] n by simp
  have got: "\<exists>Q \<in> majorities ids. \<forall>v \<in> Q. (c_term n, v, i) \<in> p_votes p"
    using inv_votesD(5) [OF votes i] n by (intro bexI [of _ "c_got n"]) auto
  have other: "c_term (p_core p j) \<noteq> c_term n" if "j \<in> ids" "c_role (p_core p j) = Leader" for j
    using D(7) [OF that] new by (metis option.distinct(1))
  show ?thesis using D t0 new got other i n(1) unfolding inv_lead_def
    by (auto simp del: not_None_eq split: if_splits)
qed


lemma inv_lead_propose:
  assumes inv: "inv_lead ids D p" and i: "i \<in> ids" and n: "n = p_core p i" "c_role n = Leader"
    and p': "p_core p' = (p_core p)(i := n\<lparr>c_log := c_log n @ [e]\<rparr>)" "p_votes p' = p_votes p"
      "p_lead p' = (p_lead p)(c_term n \<mapsto> (i, c_log n @ [e]))"
  shows "inv_lead ids D p'"
proof (rule inv_leadI)
  note D = inv_leadD [OF inv]
  have t0: "c_term n \<noteq> 0" using D(5) [OF i] n by simp
  have lead: "p_lead p (c_term n) = Some (i, c_log n)" using D(7) [OF i] n by simp
  show "p_lead p' 0 = Some (0, [D])" using D(1) t0 by (simp add: p')
  fix j assume j: "j \<in> ids"
  show "c_term (p_core p' j) \<noteq> 0" if "c_role (p_core p' j) \<noteq> Follower"
    using that D(5) [OF j] t0 by (cases "j = i") (simp_all add: p')
  show "p_lead p' (c_term (p_core p' j)) \<noteq> Some (j, l)" if "c_role (p_core p' j) = Candidate" for l
    using that D(6) [OF j] n by (cases "j = i") (auto simp: p')
  show "p_lead p' (c_term (p_core p' j)) = Some (j, c_log (p_core p' j))" if "c_role (p_core p' j) = Leader"
    using that D(7) [OF j] lead by (cases "j = i") (auto simp: p')
next
  note D = inv_leadD [OF inv]
  fix t own l assume t: "p_lead p' t = Some (own, l)" "t \<noteq> 0"
  have "p_lead p (c_term n) = Some (i, c_log n)" using D(7) [OF i] n by simp
  with t obtain m where "p_lead p t = Some (own, m)" by (cases "t = c_term n") (auto simp: p')
  from D(2,3,4) [OF this t(2)]
  show "own \<in> ids \<and> t \<le> c_term (p_core p' own) \<and> (\<exists>Q \<in> majorities ids. \<forall>v \<in> Q. (t, v, own) \<in> p_votes p')"
    using n by (auto simp: p')
qed

lemma inv_lead_step:
  assumes step: "proto_step ids f p p'" and votes: "inv_votes ids p" and inv: "inv_lead ids D p"
  shows "inv_lead ids D p'"
  using step
proof cases
  case (Elect i t)
  with inv_lead_elect [OF inv Elect(2,4), of "{(t, i, i)}"] show ?thesis by simp
next
  case (Lead i n)
  with inv_lead_lead [OF votes inv Lead(2-5)] show ?thesis by simp
next
  case (Propose i n e)
  show ?thesis by (rule inv_lead_propose [OF inv Propose(2-4)]) (use Propose in simp_all)
next
  case (StepDown i t)
  show ?thesis by (rule inv_lead_upd [OF inv StepDown(2)]) (use StepDown in auto)
next
  case (Ask i n)
  show ?thesis by (rule inv_lead_upd [OF inv Ask(2)]) (use Ask in auto)
next
  case (Grant i n x k t)
  show ?thesis by (rule inv_lead_upd [OF inv Grant(2)]) (use Grant in auto)
next
  case (Collect i n v)
  show ?thesis by (rule inv_lead_upd [OF inv Collect(2)]) (use Collect in auto)
next
  case (SendAppend i n to prev)
  show ?thesis by (rule inv_lead_upd [OF inv SendAppend(2)]) (use SendAppend in auto)
next
  case (Accept i n prev pt es k log)
  show ?thesis by (rule inv_lead_upd [OF inv Accept(2)]) (use Accept in auto)
next
  case (Learn i n v k)
  show ?thesis by (rule inv_lead_upd [OF inv Learn(2)]) (use Learn in auto)
next
  case (Commit i n k Q)
  show ?thesis by (rule inv_lead_upd [OF inv Commit(2)]) (use Commit in auto)
next
  case (Apply i n)
  show ?thesis by (rule inv_lead_upd [OF inv Apply(2)]) (use Apply in auto)
next
  case (Follow i got m)
  show ?thesis by (rule inv_lead_upd [OF inv Follow(2)]) (use Follow in auto)
qed

section \<open>Preservation: logs\<close>

definition append_ok :: "leads \<Rightarrow> node_id \<Rightarrow> u64 \<Rightarrow> nat \<Rightarrow> u64 \<Rightarrow> log_entry list \<Rightarrow> nat \<Rightarrow> bool" where
  "append_ok L to t prev pt es k \<longleftrightarrow>
     (\<exists>own l. L t = Some (own, l) \<and> own \<noteq> to \<and> prev < length l \<and> pt = le_term (l ! prev) \<and>
           prefix (take (Suc prev) l @ es) l \<and> k \<le> prev + length es)"

lemma append_ok_ext:
  assumes "append_ok L to t prev pt es k" and ext: "lead_ext L L'"
  shows "append_ok L' to t prev pt es k"
proof -
  obtain own l where l: "L t = Some (own, l)" "own \<noteq> to" "prev < length l" "pt = le_term (l ! prev)"
    "prefix (take (Suc prev) l @ es) l" "k \<le> prev + length es"
    using assms(1) unfolding append_ok_def by blast
  obtain zs where "L' t = Some (own, l @ zs)" by (rule lead_extD [OF ext l(1)])
  with l show ?thesis
    unfolding append_ok_def
    by (intro exI [of _ own] exI [of _ "l @ zs"]) (simp add: nth_append prefix_order.trans [OF l(5)])
qed

lemma inv_logsI:
  assumes inv: "inv_logs ids D p" and ext: "lead_ext (p_lead p) (p_lead p')"
    and nodes: "\<And>j. j \<in> ids \<Longrightarrow>
      (c_log (p_core p' j) = c_log (p_core p j) \<and> c_term (p_core p j) \<le> c_term (p_core p' j)) \<or>
      (log_ok (p_lead p') D (c_log (p_core p' j)) \<and> terms_le (c_log (p_core p' j)) (c_term (p_core p' j)))"
    and leads: "\<And>t own l. p_lead p' t = Some (own, l) \<Longrightarrow>
      p_lead p t = Some (own, l) \<or> (log_ok (p_lead p') D l \<and> terms_le l t)"
    and msgs: "\<And>to t prev pt es k. AppendReq to t prev pt es k \<in> p_msgs p' \<Longrightarrow>
      AppendReq to t prev pt es k \<in> p_msgs p \<or> append_ok (p_lead p') to t prev pt es k"
  shows "inv_logs ids D p'"
proof -
  have "log_ok (p_lead p') D (c_log (p_core p' j)) \<and> terms_le (c_log (p_core p' j)) (c_term (p_core p' j))"
    if "j \<in> ids" for j
    using nodes [OF that] node_log_ok [OF inv that] log_ok_ext [OF _ ext]
    by (auto simp: terms_le_def intro: order_trans)
  moreover have "log_ok (p_lead p') D l \<and> terms_le l t" if "p_lead p' t = Some (own, l)" for t own l
    using leads [OF that] lead_log_ok [OF inv] log_ok_ext [OF _ ext] by blast
  moreover have "append_ok (p_lead p') to t prev pt es k" if "AppendReq to t prev pt es k \<in> p_msgs p'" for to t prev pt es k
    using msgs [OF that]
  proof
    assume "AppendReq to t prev pt es k \<in> p_msgs p"
    then have "append_ok (p_lead p) to t prev pt es k" using inv unfolding inv_logs_def append_ok_def by blast
    then show ?thesis by (rule append_ok_ext [OF _ ext])
  qed
  ultimately show ?thesis unfolding inv_logs_def append_ok_def by blast
qed

text \<open>A follower that accepts has the leader's entries, and nothing that contradicts them.\<close>

lemma accept_log_cases:
  assumes inv: "inv_logs ids D p" and i: "i \<in> ids"
    and msg: "AppendReq i t prev pt es k \<in> p_msgs p"
    and prev: "prev < length (c_log (p_core p i))" "le_term (c_log (p_core p i) ! prev) = pt"
  obtains own l X where "p_lead p t = Some (own, l)" and "own \<noteq> i" and "prefix X l"
    and "length X = Suc prev + length es" and "k \<le> prev + length es" and "X = take (Suc prev) l @ es"
    and "prefix X (accept_log prev es (c_log (p_core p i)))"
    and "accept_log prev es (c_log (p_core p i)) =
      (if prefix X (c_log (p_core p i)) then c_log (p_core p i) else X)"
proof -
  have "append_ok (p_lead p) i t prev pt es k" using inv msg unfolding inv_logs_def append_ok_def by blast
  then obtain own l where l: "p_lead p t = Some (own, l)" "own \<noteq> i" "prev < length l" "pt = le_term (l ! prev)"
    "prefix (take (Suc prev) l @ es) l" "k \<le> prev + length es"
    unfolding append_ok_def by blast
  have "has (c_log (p_core p i)) l prev"
    using log_agree [OF node_log_ok(1) [OF inv i] lead_log_ok(1) [OF inv l(1)]] prev l(3,4) by simp
  then have "take (Suc prev) (c_log (p_core p i)) = take (Suc prev) l" by (simp add: has_def)
  then have "accept_log prev es (c_log (p_core p i)) =
      (if prefix (take (Suc prev) l @ es) (c_log (p_core p i)) then c_log (p_core p i) else take (Suc prev) l @ es)"
    by (simp add: accept_log_def Let_def)
  with l show thesis by (intro that [of own l "take (Suc prev) l @ es"]) auto
qed

lemma log_ok_prefix: "log_ok L D X \<Longrightarrow> prefix P X \<Longrightarrow> P \<noteq> [] \<Longrightarrow> log_ok L D P"
  unfolding log_ok_def
proof (elim conjE, intro conjI allI impI)
  fix k
  assume all: "\<forall>k < length X. \<exists>own l. L (le_term (X ! k)) = Some (own, l) \<and> has X l k"
    and P: "prefix P X" and k: "k < length P"
  then obtain own l where "L (le_term (X ! k)) = Some (own, l)" "has X l k"
    using prefix_length_le [OF P] by (meson order_less_le_trans)
  with has_prefix [OF P _ k] P k show "\<exists>own l. L (le_term (P ! k)) = Some (own, l) \<and> has P l k"
    by (auto simp: prefix_def nth_append)
qed (auto simp: prefix_def)

lemma accept_log_ok:
  assumes inv: "inv_logs ids D p" and i: "i \<in> ids"
    and msg: "AppendReq i (c_term (p_core p i)) prev pt es k \<in> p_msgs p"
    and prev: "prev < length (c_log (p_core p i))" "le_term (c_log (p_core p i) ! prev) = pt"
  shows "log_ok (p_lead p) D (accept_log prev es (c_log (p_core p i)))"
    "terms_le (accept_log prev es (c_log (p_core p i))) (c_term (p_core p i))"
proof -
  obtain own l X where X: "p_lead p (c_term (p_core p i)) = Some (own, l)" "prefix X l"
    "length X = Suc prev + length es"
    "accept_log prev es (c_log (p_core p i)) =
      (if prefix X (c_log (p_core p i)) then c_log (p_core p i) else X)"
    by (rule accept_log_cases [OF inv i msg prev])
  have "X \<noteq> []" using X(3) by auto
  then have "log_ok (p_lead p) D X" "terms_le X (c_term (p_core p i))"
    using lead_log_ok [OF inv X(1)] X(2) log_ok_prefix by (auto simp: terms_le_def prefix_def)
  with node_log_ok [OF inv i] X(4)
  show "log_ok (p_lead p) D (accept_log prev es (c_log (p_core p i)))"
    "terms_le (accept_log prev es (c_log (p_core p i))) (c_term (p_core p i))" by simp_all
qed

lemma log_ok_snoc:
  assumes "log_ok L D X" and "L (le_term e) = Some (own, X @ [e])"
  shows "log_ok L D (X @ [e])"
proof -
  have "\<exists>own l. L (le_term ((X @ [e]) ! k)) = Some (own, l) \<and> has (X @ [e]) l k" if "k < length (X @ [e])" for k
  proof (cases "k < length X")
    case True
    then obtain own' l' where "L (le_term (X ! k)) = Some (own', l')" "has X l' k" by (rule log_okD [OF assms(1)])
    with True has_append_left show ?thesis by (auto simp: nth_append)
  next
    case False
    with that assms(2) has_refl [of k "X @ [e]"] show ?thesis by (simp add: nth_append less_Suc_eq)
  qed
  with assms(1) show ?thesis by (simp add: log_ok_def)
qed


lemma inv_logs_step:
  assumes step: "proto_step ids f p p'" and votes: "inv_votes ids p" and lead: "inv_lead ids D p"
    and inv: "inv_logs ids D p" and safe: "inv_safe ids f d p"
  shows "inv_logs ids D p'"
  using step
proof cases
  case (SendAppend i n to prev)
  have l: "p_lead p (c_term n) = Some (i, c_log n)" using inv_leadD(7) [OF lead] SendAppend by simp
  have "c_commit n < length (c_log n)" using safe SendAppend(2,3) by (simp add: inv_safe_def node_safe_def)
  then have "append_ok (p_lead p) to (c_term n) prev (le_term (c_log n ! prev)) (drop (Suc prev) (c_log n)) (c_commit n)"
    using l SendAppend(5,6) unfolding append_ok_def
    by (intro exI [of _ i] exI [of _ "c_log n"]) auto
  then show ?thesis by (intro inv_logsI [OF inv]) (use SendAppend in auto)
next
  case (Lead i n)
  have "p_lead p (c_term n) = None" using candidate_fresh [OF votes lead] Lead by simp
  then have ext: "lead_ext (p_lead p) (p_lead p')" using Lead by (simp add: lead_ext_new)
  have "log_ok (p_lead p') D (c_log n)" "terms_le (c_log n) (c_term n)"
    using node_log_ok [OF inv Lead(2)] log_ok_ext [OF _ ext] Lead(3) by auto
  then show ?thesis by (intro inv_logsI [OF inv ext]) (use Lead in \<open>auto split: if_splits\<close>)
next
  case (Propose i n e)
  have l: "p_lead p (c_term n) = Some (i, c_log n)" using inv_leadD(7) [OF lead] Propose by simp
  have ext: "lead_ext (p_lead p) (p_lead p')" using Propose lead_ext_more [of "p_lead p", OF l] by simp
  have "log_ok (p_lead p') D (c_log n)" using node_log_ok [OF inv Propose(2)] log_ok_ext [OF _ ext] Propose(3) by auto
  then have "log_ok (p_lead p') D (c_log n @ [e])" by (rule log_ok_snoc) (use Propose in simp)
  moreover have "terms_le (c_log n @ [e]) (c_term n)"
    using node_log_ok [OF inv Propose(2)] Propose(3,5) by (simp add: terms_le_def)
  ultimately show ?thesis by (intro inv_logsI [OF inv ext]) (use Propose in \<open>auto split: if_splits\<close>)
next
  case (Accept i n prev pt es k log)
  have "log_ok (p_lead p) D log" "terms_le log (c_term n)"
    using accept_log_ok [OF inv Accept(2)] Accept by simp_all
  then show ?thesis by (intro inv_logsI [OF inv]) (use Accept in auto)
next
  case (StepDown i t)
  then show ?thesis by (intro inv_logsI [OF inv]) auto
next
  case (Elect i t)
  then show ?thesis by (intro inv_logsI [OF inv]) auto
qed (use inv in \<open>auto simp: inv_logs_def\<close>)

section \<open>Preservation: stored entries\<close>

lemma inv_acksD:
  assumes "inv_acks ids p" and "(t, v, j) \<in> p_acks p"
  shows "v \<in> ids" and "t \<le> c_term (p_core p v)"
    and "\<exists>own l. p_lead p t = Some (own, l) \<and> j < length l \<and>
      (\<forall>k \<le> j. le_term (l ! k) = t \<longrightarrow> stores (p_lead p) (c_term (p_core p v)) (c_log (p_core p v)) t l k)"
  using assms unfolding inv_acks_def by blast+

lemma stores_ext:
  assumes "stores L T X t l k" and ext: "lead_ext L L'" and "T \<le> T'" and k: "k < length l" "le_term (l ! k) = t"
    and X: "has X l k \<Longrightarrow> stores L' T' X' t l k"
  shows "stores L' T' X' t l k"
  using assms(1) unfolding stores_def [of L]
proof
  assume "\<exists>w. t < w \<and> w \<le> T \<and> lacks L w l k"
  then obtain w where w: "t < w" "w \<le> T" "lacks L w l k" by blast
  from lacks_ext [OF w(3) ext k(1)] k(2) w(1) have "lacks L' w l k" by auto
  with w(1,2) assms(3) show ?thesis unfolding stores_def by (meson order_trans)
qed (rule X)

lemma inv_acksI:
  assumes inv: "inv_acks ids p" and ext: "lead_ext (p_lead p) (p_lead p')"
    and mono: "\<And>v. v \<in> ids \<Longrightarrow> c_term (p_core p v) \<le> c_term (p_core p' v)"
    and logs: "\<And>v t own l k. v \<in> ids \<Longrightarrow> p_lead p t = Some (own, l) \<Longrightarrow> k < length l \<Longrightarrow> le_term (l ! k) = t \<Longrightarrow>
      t \<le> c_term (p_core p v) \<Longrightarrow> has (c_log (p_core p v)) l k \<Longrightarrow>
      stores (p_lead p') (c_term (p_core p' v)) (c_log (p_core p' v)) t l k"
    and new: "\<And>t v j. (t, v, j) \<in> p_acks p' \<Longrightarrow> (t, v, j) \<in> p_acks p \<or>
      (v \<in> ids \<and> t \<le> c_term (p_core p' v) \<and> (\<exists>own l. p_lead p' t = Some (own, l) \<and> j < length l \<and>
        has (c_log (p_core p' v)) l j))"
    and sub: "p_acks p \<subseteq> p_acks p'"
    and msgs: "\<And>t v j. AppendAck t v j \<in> p_msgs p' \<Longrightarrow> AppendAck t v j \<in> p_msgs p \<or>
      ((t, v, j) \<in> p_acks p' \<and> (\<exists>own l. p_lead p' t = Some (own, l) \<and> own \<noteq> v))"
  shows "inv_acks ids p'"
proof -
  have "v \<in> ids \<and> t \<le> c_term (p_core p' v) \<and> (\<exists>own l. p_lead p' t = Some (own, l) \<and> j < length l \<and>
      (\<forall>k \<le> j. le_term (l ! k) = t \<longrightarrow> stores (p_lead p') (c_term (p_core p' v)) (c_log (p_core p' v)) t l k))"
    if "(t, v, j) \<in> p_acks p'" for t v j
    using new [OF that]
  proof
    assume old: "(t, v, j) \<in> p_acks p"
    obtain own l where l: "p_lead p t = Some (own, l)" "j < length l"
      "\<forall>k \<le> j. le_term (l ! k) = t \<longrightarrow> stores (p_lead p) (c_term (p_core p v)) (c_log (p_core p v)) t l k"
      using inv_acksD(3) [OF inv old] by blast
    have v: "v \<in> ids" "t \<le> c_term (p_core p v)" using inv_acksD(1,2) [OF inv old] by auto
    obtain zs where zs: "p_lead p' t = Some (own, l @ zs)" by (rule lead_extD [OF ext l(1)])
    have "stores (p_lead p') (c_term (p_core p' v)) (c_log (p_core p' v)) t (l @ zs) k"
      if k: "k \<le> j" "le_term ((l @ zs) ! k) = t" for k
    proof -
      have k': "k < length l" "le_term (l ! k) = t" using k l(2) by (auto simp: nth_append)
      have "stores (p_lead p') (c_term (p_core p' v)) (c_log (p_core p' v)) t l k"
        by (rule stores_ext [OF l(3) [rule_format, OF k(1) k'(2)] ext mono [OF v(1)] k'(1,2)])
          (rule logs [OF v(1) l(1) k'(1,2) v(2)])
      then show ?thesis using k'(1) by (simp add: stores_def has_append lacks_def)
    qed
    with zs l(2) v mono [OF v(1)] show ?thesis by (intro conjI exI [of _ own] exI [of _ "l @ zs"]) auto
  next
    assume "v \<in> ids \<and> t \<le> c_term (p_core p' v) \<and> (\<exists>own l. p_lead p' t = Some (own, l) \<and> j < length l \<and>
        has (c_log (p_core p' v)) l j)"
    then show ?thesis using has_le unfolding stores_def by blast
  qed
  moreover have "(t, v, j) \<in> p_acks p' \<and> (\<exists>own l. p_lead p' t = Some (own, l) \<and> own \<noteq> v)"
    if "AppendAck t v j \<in> p_msgs p'" for t v j
    using msgs [OF that]
  proof
    assume "AppendAck t v j \<in> p_msgs p"
    then obtain own l where "(t, v, j) \<in> p_acks p" "p_lead p t = Some (own, l)" "own \<noteq> v"
      using inv unfolding inv_acks_def by blast
    with sub lead_extD [OF ext] show ?thesis by (metis subsetD)
  qed
  ultimately show ?thesis unfolding inv_acks_def by blast
qed


lemma accept_stores:
  assumes inv: "inv_logs ids D p" and i: "i \<in> ids"
    and msg: "AppendReq i (c_term (p_core p i)) prev pt es k' \<in> p_msgs p"
    and prev: "prev < length (c_log (p_core p i))" "le_term (c_log (p_core p i) ! prev) = pt"
    and t: "p_lead p t = Some (own, l)" "k < length l" "t \<le> c_term (p_core p i)" "has (c_log (p_core p i)) l k"
  shows "stores (p_lead p) (c_term (p_core p i)) (accept_log prev es (c_log (p_core p i))) t l k"
proof -
  let ?T = "c_term (p_core p i)" and ?log = "c_log (p_core p i)"
  obtain own' m X where X: "p_lead p ?T = Some (own', m)" "prefix X m"
    "accept_log prev es ?log = (if prefix X ?log then ?log else X)"
    by (rule accept_log_cases [OF inv i msg prev])
  show ?thesis
  proof (cases "has m l k")
    case False
    with X(1) t have "t \<noteq> ?T" using has_refl [of k l] by auto
    with t(3) have "t < ?T" by simp
    moreover have "lacks (p_lead p) ?T l k" using X(1) False by (simp add: lacks_def)
    ultimately show ?thesis unfolding stores_def by blast
  next
    case True
    show ?thesis
    proof (cases "prefix X ?log")
      case True
      with X(3) t(4) show ?thesis by (simp add: stores_def)
    next
      case False
      have "k < length X"
      proof (rule ccontr)
        assume "\<not> k < length X"
        then have "X = take (length X) (take (Suc k) m)" using X(2) by (auto simp: prefix_def min_def)
        also have "take (Suc k) m = take (Suc k) ?log" using hasD(2) [OF True] hasD(2) [OF t(4)] by simp
        finally have "prefix X ?log" by (metis prefix_order.trans take_is_prefix)
        with False show False by simp
      qed
      with has_prefix [OF X(2) True] X(3) False show ?thesis by (simp add: stores_def)
    qed
  qed
qed

lemma inv_acks_step:
  assumes step: "proto_step ids f p p'" and votes: "inv_votes ids p" and lead: "inv_lead ids D p"
    and logs: "inv_logs ids D p" and inv: "inv_acks ids p"
  shows "inv_acks ids p'"
  using step
proof cases
  case (StepDown i t)
  show ?thesis by (rule inv_acksI [OF inv]) (use StepDown in \<open>auto simp: stores_def\<close>)
next
  case (Elect i t)
  show ?thesis by (rule inv_acksI [OF inv]) (use Elect in \<open>auto simp: stores_def\<close>)
next
  case (Lead i n)
  have "p_lead p (c_term n) = None" using candidate_fresh [OF votes lead] Lead by simp
  then have ext: "lead_ext (p_lead p) (p_lead p')" using Lead by (simp add: lead_ext_new)
  show ?thesis by (rule inv_acksI [OF inv ext]) (use Lead in \<open>auto simp: stores_def\<close>)
next
  case (Propose i n e)
  have l: "p_lead p (c_term n) = Some (i, c_log n)" using inv_leadD(7) [OF lead] Propose by simp
  have ext: "lead_ext (p_lead p) (p_lead p')" using Propose lead_ext_more [of "p_lead p", OF l] by simp
  show ?thesis
    by (rule inv_acksI [OF inv ext])
      (use Propose has_append_left in \<open>auto simp: stores_def has_refl\<close>)
next
  case (Accept i n prev pt es k log)
  note msg = Accept(4) [unfolded Accept(3)] and prev = Accept(5,6) [unfolded Accept(3)]
  obtain own m X where X: "p_lead p (c_term n) = Some (own, m)" "own \<noteq> i" "prefix X m"
    "length X = Suc prev + length es" "prefix X log"
    using accept_log_cases [OF logs Accept(2) msg prev] Accept(3,7) by metis
  have long: "prev + length es < length m" using prefix_length_le [OF X(3)] X(4) by simp
  have "has log X (prev + length es)" "has m X (prev + length es)"
    using prefix_has [OF X(5)] prefix_has [OF X(3)] X(4) by simp_all
  then have new: "has log m (prev + length es)" using has_trans has_sym by blast
  have old: "stores (p_lead p) (c_term n) log t l k'"
    if "p_lead p t = Some (own, l)" "k' < length l" "t \<le> c_term n" "has (c_log n) l k'" for t own l k'
    using accept_stores [OF logs Accept(2) msg prev, of t own l k'] that Accept(3,7) by simp
  show ?thesis
    by (rule inv_acksI [OF inv])
      (use Accept(1,2,3) X(1,2) long new old in \<open>auto simp: stores_def split: if_splits\<close>)
qed (use inv in \<open>auto simp: inv_acks_def\<close>)


section \<open>Preservation: choices\<close>

lemma inv_choiceD:
  "\<lbrakk>inv_choice ids p; p_lead p t = Some (own, l); k < length l; le_term (l ! k) = t; t < u; lacks (p_lead p) u l k\<rbrakk>
     \<Longrightarrow> missed ids p t k"
  unfolding inv_choice_def by blast

text \<open>A quorum that has passed a term stays one: stored entries are acknowledged in the current term only.\<close>

lemma missed_mono:
  assumes "missed ids p t k"
    and mono: "\<And>v. v \<in> ids \<Longrightarrow> c_term (p_core p v) \<le> c_term (p_core p' v)"
    and acks: "\<And>t v j. (t, v, j) \<in> p_acks p' \<Longrightarrow> (t, v, j) \<in> p_acks p \<or> t = c_term (p_core p v)"
  shows "missed ids p' t k"
proof -
  obtain Q where Q: "Q \<in> majorities ids" "\<forall>v \<in> Q. t < c_term (p_core p v) \<and> (\<forall>j \<ge> k. (t, v, j) \<notin> p_acks p)"
    using assms(1) unfolding missed_def by blast
  have "t < c_term (p_core p' v) \<and> (\<forall>j \<ge> k. (t, v, j) \<notin> p_acks p')" if v: "v \<in> Q" for v
  proof -
    have "v \<in> ids" using v Q(1) by (auto simp: majorities_def)
    with mono have "c_term (p_core p v) \<le> c_term (p_core p' v)" .
    moreover have "t < c_term (p_core p v)" "\<forall>j \<ge> k. (t, v, j) \<notin> p_acks p" using Q(2) v by auto
    ultimately show ?thesis using acks [of t v] by auto
  qed
  with Q(1) show ?thesis unfolding missed_def by blast
qed

lemma inv_choice_same:
  assumes inv: "inv_choice ids p" and same: "p_lead p' = p_lead p"
    and mono: "\<And>v. v \<in> ids \<Longrightarrow> c_term (p_core p v) \<le> c_term (p_core p' v)"
    and acks: "\<And>t v j. (t, v, j) \<in> p_acks p' \<Longrightarrow> (t, v, j) \<in> p_acks p \<or> t = c_term (p_core p v)"
  shows "inv_choice ids p'"
proof -
  have "missed ids p' t k" if "p_lead p t = Some (own, l)" "k < length l" "le_term (l ! k) = t" "t < u"
    "lacks (p_lead p) u l k" for t own l k u
    by (rule missed_mono [OF inv_choiceD [OF inv that] mono acks])
  then show ?thesis unfolding inv_choice_def same by blast
qed

lemma inv_choice_propose:
  assumes votes: "inv_votes ids p" and lead: "inv_lead ids D p" and acks: "inv_acks ids p"
    and inv: "inv_choice ids p" and i: "i \<in> ids" and n: "n = p_core p i" "c_role n = Leader" "le_term e = c_term n"
    and p': "p_lead p' = (p_lead p)(c_term n \<mapsto> (i, c_log n @ [e]))"
      "p_acks p' = p_acks p \<union> {(c_term n, i, length (c_log n))}" "\<And>v. c_term (p_core p' v) = c_term (p_core p v)"
  shows "inv_choice ids p'"
proof -
  have l0: "p_lead p (c_term n) = Some (i, c_log n)" using inv_leadD(7) [OF lead i] n by simp
  have ext: "lead_ext (p_lead p) (p_lead p')" using lead_ext_more [of "p_lead p", OF l0 n(3)] by (simp add: p')
  have mono: "missed ids p t k \<Longrightarrow> missed ids p' t k" for t k
    by (erule missed_mono) (use p' n(1) in auto)
  have "missed ids p' t k" if l': "p_lead p' t = Some (own, l')" "k < length l'" "le_term (l' ! k) = t"
    and u: "t < u" "lacks (p_lead p') u l' k" for t own l' k u
  proof -
    have Lu: "p_lead p u \<noteq> None" using u(2) l0 by (auto simp: lacks_def p' split: if_splits)
    obtain own l where l: "p_lead p t = Some (own, l)" "l' = l \<or> t = c_term n \<and> l = c_log n \<and> l' = l @ [e]"
      using l'(1) l0 by (cases "t = c_term n") (auto simp: p')
    show ?thesis
    proof (cases "k < length l")
      case True
      then have lk: "le_term (l ! k) = t" "lacks (p_lead p') u l k"
        using l(2) l'(3) u(2) by (auto simp: nth_append lacks_def has_append)
      from inv_choiceD [OF inv l(1) True lk(1) u(1) lacks_back [OF lk(2) ext Lu]] mono show ?thesis by blast
    next
      case False
      with l(2) l'(2) have k: "t = c_term n" "k = length (c_log n)" by auto
      have old: "j < length (c_log n)" if "(t, v, j) \<in> p_acks p" for v j
        using inv_acksD(3) [OF acks that] l0 k(1) by auto
      obtain own' m where m: "p_lead p u = Some (own', m)" using Lu by auto
      have "u \<noteq> 0" using u(1) by auto
      then obtain Q where Q: "Q \<in> majorities ids" "\<forall>v \<in> Q. (u, v, own') \<in> p_votes p"
        using inv_leadD(4) [OF lead m] by blast
      have "t < c_term (p_core p' v) \<and> (\<forall>j \<ge> k. (t, v, j) \<notin> p_acks p')" if "v \<in> Q" for v
      proof -
        have later: "t < c_term (p_core p v)" using inv_votesD(2) [OF votes] Q(2) that u(1) by fastforce
        then have "v \<noteq> i" using k(1) n(1) by auto
        with later old k(2) show ?thesis by (auto simp: p' dest: leD)
      qed
      with Q(1) show ?thesis unfolding missed_def by blast
    qed
  qed
  then show ?thesis unfolding inv_choice_def by blast
qed

lemma inv_choice_lead:
  assumes votes: "inv_votes ids p" and lead: "inv_lead ids D p" and logs: "inv_logs ids D p"
    and ballots: "inv_ballots ids p" and acks: "inv_acks ids p" and inv: "inv_choice ids p" and i: "i \<in> ids"
    and n: "n = p_core p i" "c_role n = Candidate" "c_got n \<in> majorities ids"
    and p': "p_lead p' = (p_lead p)(c_term n \<mapsto> (i, c_log n))" "p_acks p' = p_acks p"
      "\<And>v. c_term (p_core p' v) = c_term (p_core p v)"
  shows "inv_choice ids p'"
proof -
  have new: "p_lead p (c_term n) = None" using candidate_fresh [OF votes lead i] n by simp
  have ext: "lead_ext (p_lead p) (p_lead p')" using lead_ext_new [of "p_lead p", OF new] by (simp add: p')
  have mono: "missed ids p t k \<Longrightarrow> missed ids p' t k" for t k
    by (erule missed_mono) (use p' in auto)
  have fresh: "le_term e \<noteq> c_term n" if "e \<in> set (c_log n)" for e
    using that node_log_ok(1) [OF logs i] new n(1) by (metis in_set_conv_nth log_okD option.distinct(1))
  have "missed ids p' t k" if l': "p_lead p' t = Some (own, l)" "k < length l" "le_term (l ! k) = t"
    and u: "t < u" "lacks (p_lead p') u l k" for t own l k u
  proof -
    have t: "t \<noteq> c_term n" using fresh l' by (auto simp: p')
    then have l: "p_lead p t = Some (own, l)" using l'(1) by (simp add: p')
    show ?thesis
    proof (cases "u = c_term n")
      case False
      then have "lacks (p_lead p) u l k" using u(2) by (simp add: lacks_def p')
      from inv_choiceD [OF inv l l'(2,3) u(1) this] mono show ?thesis by blast
    next
      case True
      then have nohas: "\<not> has (c_log n) l k" using u(2) by (simp add: lacks_def p')
      have got: "(u, v, i) \<in> p_votes p" if "v \<in> c_got n" for v
        using inv_votesD(5) [OF votes i] n that True by simp
      show ?thesis
      proof (cases "\<exists>v \<in> c_got n. \<exists>j \<ge> k. (t, v, j) \<in> p_acks p")
        case True
        then obtain v j where v: "v \<in> c_got n" "k \<le> j" "(t, v, j) \<in> p_acks p" by blast
        from ballots got [OF v(1)] i n(1,2) \<open>u = c_term n\<close> u(1) v(2,3) l l'(3) nohas
        obtain w where w: "t < w" "lacks (p_lead p) w l k" unfolding inv_ballots_def ballot_ok_def stores_def by blast
        from inv_choiceD [OF inv l l'(2,3) w] mono show ?thesis by blast
      next
        case False
        have "t < c_term (p_core p v)" if "v \<in> c_got n" for v
          using inv_votesD(2) [OF votes got [OF that]] u(1) by simp
        with False n(3) have "missed ids p t k" unfolding missed_def by blast
        with mono show ?thesis by blast
      qed
    qed
  qed
  then show ?thesis unfolding inv_choice_def by blast
qed

lemma inv_choice_step:
  assumes step: "proto_step ids f p p'" and votes: "inv_votes ids p" and lead: "inv_lead ids D p"
    and logs: "inv_logs ids D p" and ballots: "inv_ballots ids p" and acks: "inv_acks ids p" and inv: "inv_choice ids p"
  shows "inv_choice ids p'"
  using step
proof cases
  case (Lead i n)
  show ?thesis by (rule inv_choice_lead [OF votes lead logs ballots acks inv Lead(2-5)]) (use Lead in auto)
next
  case (Propose i n e)
  show ?thesis by (rule inv_choice_propose [OF votes lead acks inv Propose(2-5)]) (use Propose in auto)
next
  case (StepDown i t)
  show ?thesis by (rule inv_choice_same [OF inv]) (use StepDown in auto)
next
  case (Elect i t)
  show ?thesis by (rule inv_choice_same [OF inv]) (use Elect in auto)
next
  case (Accept i n prev pt es k log)
  show ?thesis by (rule inv_choice_same [OF inv]) (use Accept in auto)
qed (rule inv_choice_same [OF inv]; auto)+


section \<open>Preservation: ballots\<close>

lemma inv_ballotsD:
  assumes "inv_ballots ids p"
  shows "(u, v, x) \<in> p_votes p \<Longrightarrow> x \<in> ids" "(u, v, x) \<in> p_votes p \<Longrightarrow> u \<le> c_term (p_core p x)"
    "(c_term (p_core p x), v, x) \<in> p_votes p \<Longrightarrow> c_role (p_core p x) = Candidate \<Longrightarrow> ballot_ok p (c_term (p_core p x)) v x"
    "VoteReq u x k t \<in> p_msgs p \<Longrightarrow> x \<in> ids" "VoteReq u x k t \<in> p_msgs p \<Longrightarrow> u \<le> c_term (p_core p x)"
    "VoteReq (c_term (p_core p x)) x k t \<in> p_msgs p \<Longrightarrow> c_role (p_core p x) = Candidate \<Longrightarrow>
       k = length (c_log (p_core p x)) - 1 \<and> t = le_term (last (c_log (p_core p x)))"
  using assms unfolding inv_ballots_def by blast+

lemma ballot_ok_ext:
  assumes ok: "ballot_ok p u v x" and acks: "inv_acks ids p" and ext: "lead_ext (p_lead p) (p_lead p')"
    and log: "c_log (p_core p' x) = c_log (p_core p x)"
    and old: "\<And>t j. t < u \<Longrightarrow> (t, v, j) \<in> p_acks p' \<Longrightarrow> (t, v, j) \<in> p_acks p"
  shows "ballot_ok p' u v x"
  unfolding ballot_ok_def
proof (intro allI impI)
  fix t j own l' k
  assume t: "t < u" "(t, v, j) \<in> p_acks p'" and k: "k \<le> j" and l': "p_lead p' t = Some (own, l')" "le_term (l' ! k) = t"
  have ack: "(t, v, j) \<in> p_acks p" by (rule old [OF t])
  obtain own0 l where l: "p_lead p t = Some (own0, l)" "j < length l" using inv_acksD(3) [OF acks ack] by blast
  obtain zs where zs: "l' = l @ zs" using lead_extD [OF ext l(1)] l'(1) by force
  have lk: "k < length l" "le_term (l ! k) = t" using k l(2) l'(2) zs by (auto simp: nth_append)
  have st: "stores (p_lead p) u (c_log (p_core p x)) t l k"
    using ok t(1) ack k l(1) lk(2) unfolding ballot_ok_def by blast
  have "stores (p_lead p') u (c_log (p_core p x)) t l k"
    by (rule stores_ext [OF st ext order.refl lk]) (simp add: stores_def)
  then show "stores (p_lead p') u (c_log (p_core p' x)) t l' k"
    using lk(1) zs log by (simp add: stores_def has_append lacks_def)
qed

lemma inv_ballotsI:
  assumes inv: "inv_ballots ids p" and votes: "inv_votes ids p'" and acks: "inv_acks ids p"
    and ext: "lead_ext (p_lead p) (p_lead p')"
    and mono: "\<And>v. v \<in> ids \<Longrightarrow> c_term (p_core p v) \<le> c_term (p_core p' v)"
    and cand: "\<And>x. x \<in> ids \<Longrightarrow> c_role (p_core p' x) = Candidate \<Longrightarrow>
      c_role (p_core p x) = Candidate \<and> c_term (p_core p' x) = c_term (p_core p x) \<and> c_log (p_core p' x) = c_log (p_core p x)"
    and new: "\<And>u v x. (u, v, x) \<in> p_votes p' \<Longrightarrow> (u, v, x) \<in> p_votes p \<or>
      (x \<in> ids \<and> u \<le> c_term (p_core p x) \<and> (c_term (p_core p x) = u \<longrightarrow> c_role (p_core p x) = Candidate \<longrightarrow> ballot_ok p u v x))"
    and newa: "\<And>t v j. (t, v, j) \<in> p_acks p' \<Longrightarrow> (t, v, j) \<in> p_acks p \<or> t = c_term (p_core p' v)"
    and msgs: "\<And>u x k t. VoteReq u x k t \<in> p_msgs p' \<Longrightarrow> VoteReq u x k t \<in> p_msgs p \<or>
      (x \<in> ids \<and> u = c_term (p_core p' x) \<and> k = length (c_log (p_core p' x)) - 1 \<and> t = le_term (last (c_log (p_core p' x))))"
  shows "inv_ballots ids p'"
proof -
  note D = inv_ballotsD [OF inv]
  have "x \<in> ids \<and> u \<le> c_term (p_core p' x) \<and>
      (c_term (p_core p' x) = u \<longrightarrow> c_role (p_core p' x) = Candidate \<longrightarrow> ballot_ok p' u v x)"
    if v: "(u, v, x) \<in> p_votes p'" for u v x
  proof -
    have x: "x \<in> ids" "u \<le> c_term (p_core p x)" and ok: "c_term (p_core p x) = u \<Longrightarrow> c_role (p_core p x) = Candidate \<Longrightarrow> ballot_ok p u v x"
      using new [OF v] D(1,2,3) by blast+
    have le: "u \<le> c_term (p_core p' v)" using inv_votesD(2) [OF votes v] .
    have "ballot_ok p' u v x" if "c_term (p_core p' x) = u" "c_role (p_core p' x) = Candidate"
      by (rule ballot_ok_ext [OF ok acks ext]) (use cand [OF x(1)] that newa le in \<open>auto dest: leD\<close>)
    then show ?thesis using x mono [OF x(1)] by (auto intro: order_trans)
  qed
  moreover have "x \<in> ids \<and> u \<le> c_term (p_core p' x) \<and> (c_term (p_core p' x) = u \<longrightarrow> c_role (p_core p' x) = Candidate \<longrightarrow>
           k = length (c_log (p_core p' x)) - 1 \<and> t = le_term (last (c_log (p_core p' x))))"
    if m: "VoteReq u x k t \<in> p_msgs p'" for u x k t
    using msgs [OF m]
  proof
    assume m: "VoteReq u x k t \<in> p_msgs p"
    note x = D(4) [OF m] and le = D(5) [OF m]
    show ?thesis using x le mono [OF x] cand [OF x] D(6) [of x k t] m by (auto intro: order_trans)
  qed auto
  ultimately show ?thesis unfolding inv_ballots_def by blast
qed


text \<open>A log that is at least as new as one with an entry has the entry, or a later leader lacked it.\<close>

lemma newer_log_stores:
  assumes logs: "inv_logs ids D p" and i: "i \<in> ids" and x: "x \<in> ids"
    and newer: "newer_log (le_term (last (c_log (p_core p x)))) (length (c_log (p_core p x)) - 1) (c_log (p_core p i))"
    and l: "p_lead p t = Some (own, l)" "le_term (l ! k) = t" and has_i: "has (c_log (p_core p i)) l k"
  shows "stores (p_lead p) (c_term (p_core p x)) (c_log (p_core p x)) t l k"
proof -
  let ?Y = "c_log (p_core p i)" and ?X = "c_log (p_core p x)"
  let ?m = "length ?X - 1" and ?w = "le_term (last ?X)"
  note okX = node_log_ok [OF logs x] and okY = node_log_ok [OF logs i]
  have ne: "?X \<noteq> []" "?Y \<noteq> []" using okX(1) okY(1) by (auto simp: log_ok_def)
  then have lastX: "?w = le_term (?X ! ?m)" "?m < length ?X" and lastY: "last ?Y = ?Y ! (length ?Y - 1)"
    by (simp_all add: last_conv_nth)
  have kY: "k < length ?Y" "le_term (?Y ! k) = t" using hasD(1,4) [OF has_i] l(2) by auto
  have tY: "t \<le> le_term (last ?Y)"
    unfolding lastY using sorted_log [OF logs okY(1), of k "length ?Y - 1"] kY by simp
  then have t_le: "t \<le> ?w" using newer by (auto simp: newer_log_def)
  obtain own' lw where lw: "p_lead p ?w = Some (own', lw)" "has ?X lw ?m"
    using log_okD [OF okX(1) lastX(2)] lastX(1) by metis
  show ?thesis
  proof (cases "t = ?w")
    case True
    then have "lw = l" using lw(1) l(1) by simp
    moreover have "k \<le> ?m" using newer tY True kY(1) by (auto simp: newer_log_def)
    ultimately show ?thesis using has_le [OF lw(2)] by (simp add: stores_def)
  next
    case False
    with t_le have later: "t < ?w" by simp
    show ?thesis
    proof (cases "has lw l k")
      case False
      then have "lacks (p_lead p) ?w l k" using lw(1) by (simp add: lacks_def)
      moreover have "?w \<le> c_term (p_core p x)" using okX(2) ne(1) by (simp add: terms_le_def)
      ultimately show ?thesis using later unfolding stores_def by blast
    next
      case True
      have "k < ?m"
      proof (rule ccontr)
        assume "\<not> k < ?m"
        then have "le_term (lw ! ?m) \<le> le_term (lw ! k)"
          using sorted_log [OF logs lead_log_ok(1) [OF logs lw(1)], of ?m k] hasD(1) [OF True] by simp
        moreover have "lw ! ?m = ?X ! ?m" "lw ! k = l ! k" using hasD(4) [OF lw(2), of ?m] hasD(4) [OF True, of k] by auto
        ultimately show False using later lastX(1) l(2) by simp
      qed
      then have "has ?X lw k" using has_le [OF lw(2)] by simp
      from has_trans [OF this True] show ?thesis by (simp add: stores_def)
    qed
  qed
qed

lemma grant_ballot:
  assumes logs: "inv_logs ids D p" and acks: "inv_acks ids p" and inv: "inv_ballots ids p" and i: "i \<in> ids"
    and req: "VoteReq (c_term (p_core p i)) x k0 t0 \<in> p_msgs p" and newer: "newer_log t0 k0 (c_log (p_core p i))"
    and x: "c_term (p_core p x) = c_term (p_core p i)" "c_role (p_core p x) = Candidate"
  shows "ballot_ok p (c_term (p_core p i)) i x"
  unfolding ballot_ok_def
proof (intro allI impI)
  fix t j own l k
  assume "t < c_term (p_core p i)" and ack: "(t, i, j) \<in> p_acks p" and k: "k \<le> j"
    and l: "p_lead p t = Some (own, l)" "le_term (l ! k) = t"
  have st: "stores (p_lead p) (c_term (p_core p i)) (c_log (p_core p i)) t l k"
    using inv_acksD(3) [OF acks ack] k l by auto
  have "k0 = length (c_log (p_core p x)) - 1" "t0 = le_term (last (c_log (p_core p x)))"
    using inv_ballotsD(6) [OF inv, of x k0 t0] req x by simp_all
  then have newer': "newer_log (le_term (last (c_log (p_core p x)))) (length (c_log (p_core p x)) - 1) (c_log (p_core p i))"
    using newer by simp
  have "stores (p_lead p) (c_term (p_core p i)) (c_log (p_core p x)) t l k" if "has (c_log (p_core p i)) l k"
    using newer_log_stores [OF logs i inv_ballotsD(4) [OF inv req] newer' l that] x(1) by simp
  with st show "stores (p_lead p) (c_term (p_core p i)) (c_log (p_core p x)) t l k" by (auto simp: stores_def)
qed

lemma inv_ballots_elect:
  assumes inv: "inv_ballots ids p" and acks: "inv_acks ids p" and i: "i \<in> ids" and t: "c_term (p_core p i) < t"
    and p': "p_core p' = (p_core p)(i := p_core p i\<lparr>c_term := t, c_vote := Some i, c_role := Candidate, c_got := {i}\<rparr>)"
      "p_votes p' = p_votes p \<union> {(t, i, i)}" "p_lead p' = p_lead p" "p_acks p' = p_acks p" "p_msgs p' = p_msgs p"
  shows "inv_ballots ids p'"
proof -
  note D = inv_ballotsD [OF inv]
  have self: "ballot_ok p' t i i"
    unfolding ballot_ok_def p'
  proof (intro allI impI)
    fix u j own l k
    assume "u < t" and ack: "(u, i, j) \<in> p_acks p" and k: "k \<le> j" and l: "p_lead p u = Some (own, l)" "le_term (l ! k) = u"
    have "stores (p_lead p) (c_term (p_core p i)) (c_log (p_core p i)) u l k"
      using inv_acksD(3) [OF acks ack] k l by auto
    then show "stores (p_lead p) t (c_log (((p_core p)(i := p_core p i\<lparr>c_term := t, c_vote := Some i,
        c_role := Candidate, c_got := {i}\<rparr>)) i)) u l k"
      using t unfolding stores_def by (auto intro: order_trans)
  qed
  have old: "ballot_ok p' u v x \<longleftrightarrow> ballot_ok p u v x" if "x \<noteq> i" for u v x
    using that by (simp add: ballot_ok_def p')
  have "x \<in> ids \<and> u \<le> c_term (p_core p' x) \<and>
      (c_term (p_core p' x) = u \<longrightarrow> c_role (p_core p' x) = Candidate \<longrightarrow> ballot_ok p' u v x)"
    if v: "(u, v, x) \<in> p_votes p'" for u v x
  proof (cases "(u, v, x) = (t, i, i)")
    case True
    with self i show ?thesis by (simp add: p')
  next
    case False
    then have v: "(u, v, x) \<in> p_votes p" using v by (auto simp: p')
    with D(1,2) [OF v] D(3) [of x v] t show ?thesis by (cases "x = i") (auto simp: old p')
  qed
  moreover have "x \<in> ids \<and> u \<le> c_term (p_core p' x) \<and> (c_term (p_core p' x) = u \<longrightarrow> c_role (p_core p' x) = Candidate \<longrightarrow>
           k = length (c_log (p_core p' x)) - 1 \<and> w = le_term (last (c_log (p_core p' x))))"
    if m: "VoteReq u x k w \<in> p_msgs p'" for u x k w
  proof -
    have m: "VoteReq u x k w \<in> p_msgs p" using m by (simp add: p')
    with D(4,5) [OF m] D(6) [of x k w] t show ?thesis by (cases "x = i") (auto simp: p')
  qed
  ultimately show ?thesis unfolding inv_ballots_def by blast
qed

lemma inv_ballots_step:
  assumes step: "proto_step ids f p p'" and votes: "inv_votes ids p" and lead: "inv_lead ids D p"
    and logs: "inv_logs ids D p" and acks: "inv_acks ids p" and inv: "inv_ballots ids p"
  shows "inv_ballots ids p'"
proof -
  note I = inv_ballotsI [OF inv inv_votes_step [OF step votes] acks]
  show ?thesis
    using step
  proof cases
    case (Elect i t)
    show ?thesis by (rule inv_ballots_elect [OF inv acks Elect(2,4)]) (use Elect in auto)
  next
    case (Grant i n x k t)
    have "ballot_ok p (c_term n) i x" if "c_term (p_core p x) = c_term n" "c_role (p_core p x) = Candidate"
      using grant_ballot [OF logs acks inv Grant(2), of x k t] Grant that by simp
    then show ?thesis by (intro I) (use Grant inv_ballotsD(4,5) [OF inv Grant(4)] in \<open>auto split: if_splits\<close>)
  next
    case (Lead i n)
    have "p_lead p (c_term n) = None" using candidate_fresh [OF votes lead] Lead by simp
    then have "lead_ext (p_lead p) (p_lead p')" using Lead by (simp add: lead_ext_new)
    then show ?thesis by (intro I) (use Lead in \<open>auto split: if_splits\<close>)
  next
    case (Propose i n e)
    have l: "p_lead p (c_term n) = Some (i, c_log n)" using inv_leadD(7) [OF lead] Propose by simp
    have "lead_ext (p_lead p) (p_lead p')" using Propose lead_ext_more [of "p_lead p", OF l] by simp
    then show ?thesis by (intro I) (use Propose in \<open>auto split: if_splits\<close>)
  qed (rule I; auto split: if_splits)+
qed


section \<open>Preservation: committed and applied entries\<close>

lemma node_safe_mono:
  assumes "node_safe ids f d L A i n" and "lead_ext L L'" and "A \<subseteq> B"
  shows "node_safe ids f d L' B i n"
  using assms(1) safe_mono [OF _ assms(2,3) order.refl] assms(3) unfolding node_safe_def by blast

lemma inv_safeI:
  assumes inv: "inv_safe ids f d p" and logs: "inv_logs ids D p"
    and ext: "lead_ext (p_lead p) (p_lead p')" and sub: "p_acks p \<subseteq> p_acks p'"
    and nodes: "\<And>j. j \<in> ids \<Longrightarrow> p_core p' j = p_core p j \<or> node_safe ids f d (p_lead p') (p_acks p') j (p_core p' j)"
    and msgs: "\<And>to t prev pt es k own l. AppendReq to t prev pt es k \<in> p_msgs p' \<Longrightarrow> p_lead p' t = Some (own, l) \<Longrightarrow>
      AppendReq to t prev pt es k \<in> p_msgs p \<or> safe ids (p_lead p') (p_acks p') t (take (Suc k) l)"
  shows "inv_safe ids f d p'"
proof -
  have "node_safe ids f d (p_lead p') (p_acks p') j (p_core p' j)" if "j \<in> ids" for j
    using nodes [OF that]
  proof
    assume "p_core p' j = p_core p j"
    then have "node_safe ids f d (p_lead p) (p_acks p) j (p_core p' j)" using inv that by (simp add: inv_safe_def)
    then show ?thesis by (rule node_safe_mono [OF _ ext sub])
  qed
  moreover have "safe ids (p_lead p') (p_acks p') t (take (Suc k) l')"
    if req: "AppendReq to t prev pt es k \<in> p_msgs p'" "p_lead p' t = Some (own, l')" for to t prev pt es k own l'
    using msgs [OF req]
  proof
    assume m: "AppendReq to t prev pt es k \<in> p_msgs p"
    then have "append_ok (p_lead p) to t prev pt es k" using logs unfolding inv_logs_def append_ok_def by blast
    then obtain own0 l where l: "p_lead p t = Some (own0, l)" "prev < length l" "prefix (take (Suc prev) l @ es) l"
      "k \<le> prev + length es"
      unfolding append_ok_def by blast
    obtain zs where "l' = l @ zs" using lead_extD [OF ext l(1)] req(2) by force
    moreover have "k < length l" using prefix_length_le [OF l(3)] l(2,4) by simp
    ultimately have "take (Suc k) l' = take (Suc k) l" by simp
    moreover have "safe ids (p_lead p) (p_acks p) t (take (Suc k) l)"
      using inv m l(1) unfolding inv_safe_def by blast
    ultimately show ?thesis using safe_mono [OF _ ext sub order.refl] by simp
  qed
  ultimately show ?thesis unfolding inv_safe_def by blast
qed

lemma node_safeD:
  assumes "inv_safe ids f d p" and "i \<in> ids"
  shows "node_safe ids f d (p_lead p) (p_acks p) i (p_core p i)"
  using assms by (simp add: inv_safe_def)

lemma safe_head:
  assumes "inv_logs ids D p" and "i \<in> ids"
  shows "take (Suc k) (c_log (p_core p i)) \<noteq> [] \<Longrightarrow> hd (take (Suc k) (c_log (p_core p i))) = D"
  using node_log_ok(1) [OF assms] by (cases "c_log (p_core p i)") (simp_all add: log_ok_def)

lemma accept_keeps_applied:
  assumes choice: "inv_choice ids p" and logs: "inv_logs ids D p" and safe: "inv_safe ids f d p" and i: "i \<in> ids"
    and msg: "AppendReq i (c_term (p_core p i)) prev pt es k \<in> p_msgs p"
    and prev: "prev < length (c_log (p_core p i))" "le_term (c_log (p_core p i) ! prev) = pt"
  shows "take (Suc (c_applied (p_core p i))) (accept_log prev es (c_log (p_core p i)))
      = take (Suc (c_applied (p_core p i))) (c_log (p_core p i))"
    "c_applied (p_core p i) < length (accept_log prev es (c_log (p_core p i)))"
proof -
  let ?n = "p_core p i"
  let ?P = "take (Suc (c_applied ?n)) (c_log ?n)"
  obtain own l X where X: "p_lead p (c_term ?n) = Some (own, l)" "prefix X l"
    "accept_log prev es (c_log ?n) = (if prefix X (c_log ?n) then c_log ?n else X)"
    by (rule accept_log_cases [OF logs i msg prev])
  note ns = node_safeD [OF safe i, unfolded node_safe_def]
  have P: "prefix ?P l"
    by (rule safe_in_lead [OF choice logs _ safe_head [OF logs i] X(1) order.refl]) (use ns in simp)
  have len: "length ?P = Suc (c_applied ?n)" using ns by simp
  have "prefix ?P X \<or> prefix X (c_log ?n)"
    using prefix_same_cases [OF P X(2)] by (metis prefix_order.trans take_is_prefix)
  then have "prefix ?P (accept_log prev es (c_log ?n))"
    using X(3) take_is_prefix by auto
  then show "take (Suc (c_applied ?n)) (accept_log prev es (c_log ?n)) = ?P"
    "c_applied ?n < length (accept_log prev es (c_log ?n))"
    using len prefix_length_le by (force simp: prefix_def)+
qed

lemma node_safe_accept:
  assumes choice: "inv_choice ids p" and logs: "inv_logs ids D p" and safe: "inv_safe ids f d p" and i: "i \<in> ids"
    and msg: "AppendReq i (c_term (p_core p i)) prev pt es k \<in> p_msgs p"
    and prev: "prev < length (c_log (p_core p i))" "le_term (c_log (p_core p i) ! prev) = pt"
    and log: "log = accept_log prev es (c_log (p_core p i))" and sub: "p_acks p \<subseteq> A"
  shows "node_safe ids f d (p_lead p) A i
    (p_core p i\<lparr>c_role := Follower, c_log := log, c_commit := min k (length log - 1)\<rparr>)"
proof -
  let ?n = "p_core p i"
  note ns = node_safeD [OF safe i, unfolded node_safe_def]
  note mono = safe_mono [OF _ lead_ext_refl sub order.refl]
  obtain own l X where X: "p_lead p (c_term ?n) = Some (own, l)" "prefix X l" "length X = Suc prev + length es"
    "k \<le> prev + length es" "prefix X log"
    using accept_log_cases [OF logs i msg prev] log by metis
  have k: "min k (length log - 1) = k" using prefix_length_le [OF X(5)] X(3,4) by simp
  have "take (Suc k) log = take (Suc k) X" "take (Suc k) l = take (Suc k) X"
    using X(2-5) by (auto simp: prefix_def)
  then have "safe ids (p_lead p) A (c_term ?n) (take (Suc k) log)"
    using safe msg X(1) mono unfolding inv_safe_def by (metis (no_types))
  moreover have "k < length log" using prefix_length_le [OF X(5)] X(3,4) by simp
  moreover note app = accept_keeps_applied [OF choice logs safe i msg prev, folded log]
  moreover have "take (c_applied ?n) (tl log) = take (c_applied ?n) (tl (c_log ?n))"
    using arg_cong [OF app(1), of tl] by (simp add: tl_take)
  ultimately show ?thesis using ns mono k by (simp add: node_safe_def)
qed


lemma commit_safe:
  assumes lead: "inv_lead ids D p" and safe: "inv_safe ids f d p" and i: "i \<in> ids"
    and n: "n = p_core p i" "c_role n = Leader" "0 < k" "k < length (c_log n)" "le_term (c_log n ! k) = c_term n"
    and Q: "Q \<in> majorities ids" "\<forall>v \<in> Q. v = i \<or> (\<exists>m. c_match n v = Some m \<and> k \<le> m)"
  shows "safe ids (p_lead p) (p_acks p) (c_term n) (take (Suc k) (c_log n))"
proof -
  note ns = node_safeD [OF safe i, unfolded node_safe_def, folded n(1)]
  have "\<exists>j \<ge> k. (c_term n, v, j) \<in> p_acks p" if v: "v \<in> Q" for v
  proof (cases "v = i")
    case False
    then obtain m where m: "c_match n v = Some m" "k \<le> m" using Q(2) v by auto
    with ns n(2,3) have "(c_term n, v, m) \<in> p_acks p" by fastforce
    with m(2) show ?thesis by blast
  qed (use ns n in blast)
  then have "committed ids (p_acks p) (c_term n) k" using Q(1) unfolding committed_def by blast
  moreover have "p_lead p (c_term n) = Some (i, c_log n)" using inv_leadD(7) [OF lead i] n by simp
  ultimately show ?thesis
    using n(4,5) by (intro safeI [of "c_term n" "c_term n" "p_lead p" i "c_log n" ids "p_acks p" k]) simp_all
qed

lemma fold_take_Suc: "a < length xs \<Longrightarrow> fold f (take (Suc a) xs) d = f (xs ! a) (fold f (take a xs) d)"
  by (simp add: take_Suc_conv_app_nth)

lemma node_safe_apply:
  assumes "node_safe ids f d L A i n" and "c_applied n < c_commit n"
  shows "node_safe ids f d L A i
    (n\<lparr>c_applied := Suc (c_applied n), c_state := f (c_log n ! Suc (c_applied n)) (c_state n)\<rparr>)"
proof -
  have "c_applied n < length (tl (c_log n))" "tl (c_log n) ! c_applied n = c_log n ! Suc (c_applied n)"
    using assms by (auto simp: node_safe_def nth_tl)
  moreover have "safe ids L A (c_term n) (take (Suc (Suc (c_applied n))) (c_log n))"
  proof (rule safe_prefix)
    show "safe ids L A (c_term n) (take (Suc (c_commit n)) (c_log n))" using assms(1) by (simp add: node_safe_def)
    show "prefix (take (Suc (Suc (c_applied n))) (c_log n)) (take (Suc (c_commit n)) (c_log n))"
      using assms(2) by (metis Suc_leI Suc_le_mono le_SucI min_absorb1 take_is_prefix take_take)
  qed
  ultimately show ?thesis using assms fold_take_Suc [of "c_applied n" "tl (c_log n)" f d] by (simp add: node_safe_def)
qed

lemma node_safe_propose:
  assumes ns: "node_safe ids f d L A i n" and ext: "lead_ext L L'" and sub: "A \<subseteq> B"
    and ack: "(c_term n, i, length (c_log n)) \<in> B"
  shows "node_safe ids f d L' B i (n\<lparr>c_log := c_log n @ [e]\<rparr>)"
proof -
  have ns': "node_safe ids f d L' B i n" by (rule node_safe_mono [OF ns ext sub])
  have "take (c_applied n) (tl (c_log n @ [e])) = take (c_applied n) (tl (c_log n))"
    using ns by (cases "c_log n") (auto simp: node_safe_def)
  with ns' ack show ?thesis by (auto simp: node_safe_def nth_append less_Suc_eq)
qed

lemma node_safe_term:
  assumes ns: "node_safe ids f d L A i n" and le: "c_term n \<le> c_term m" and "c_role m \<noteq> Leader"
    and same: "c_log m = c_log n" "c_commit m = c_commit n" "c_applied m = c_applied n" "c_match m = c_match n"
      "c_state m = c_state n"
  shows "node_safe ids f d L A i m"
  using assms safe_mono [OF _ lead_ext_refl subset_refl le] by (simp add: node_safe_def)

lemma inv_safe_step:
  assumes step: "proto_step ids f p p'" and votes: "inv_votes ids p" and lead: "inv_lead ids D p"
    and logs: "inv_logs ids D p" and acks: "inv_acks ids p" and choice: "inv_choice ids p" and inv: "inv_safe ids f d p"
  shows "inv_safe ids f d p'"
proof -
  note I = inv_safeI [OF inv logs]
  note ns = node_safeD [OF inv]
  show ?thesis
    using step
  proof cases
    case (StepDown i t)
    have "node_safe ids f d (p_lead p) (p_acks p) i (p_core p i\<lparr>c_term := t, c_vote := None, c_role := Follower\<rparr>)"
      by (rule node_safe_term [OF ns [OF StepDown(2)]]) (use StepDown(3) in simp_all)
    then show ?thesis by (intro I) (use StepDown in auto)
  next
    case (Elect i t)
    have "node_safe ids f d (p_lead p) (p_acks p) i
        (p_core p i\<lparr>c_term := t, c_vote := Some i, c_role := Candidate, c_got := {i}\<rparr>)"
      by (rule node_safe_term [OF ns [OF Elect(2)]]) (use Elect(4) in simp_all)
    then show ?thesis by (intro I) (use Elect in auto)
  next
    case (Grant i n x k t)
    have "node_safe ids f d (p_lead p) (p_acks p) i (p_core p i\<lparr>c_vote := Some x\<rparr>)"
      using ns [OF Grant(2)] by (simp add: node_safe_def)
    then show ?thesis by (intro I) (use Grant in auto)
  next
    case (Collect i n v)
    have "node_safe ids f d (p_lead p) (p_acks p) i (p_core p i\<lparr>c_got := insert v (c_got (p_core p i))\<rparr>)"
      using ns [OF Collect(2)] by (simp add: node_safe_def)
    then show ?thesis by (intro I) (use Collect in auto)
  next
    case (Lead i n)
    have new: "p_lead p (c_term n) = None" using candidate_fresh [OF votes lead] Lead by simp
    then have ext: "lead_ext (p_lead p) (p_lead p')" using Lead by (simp add: lead_ext_new)
    have "le_term (c_log n ! k) \<noteq> c_term n" if "k < length (c_log n)" for k
      using that node_log_ok(1) [OF logs Lead(2)] new Lead(3) by (metis log_okD option.distinct(1))
    then have "node_safe ids f d (p_lead p') (p_acks p) i
        (n\<lparr>c_role := Leader, c_match := (\<lambda>v. if v \<in> ids - {i} then Some 0 else None)\<rparr>)"
      using node_safe_mono [OF ns [OF Lead(2)] ext subset_refl] Lead(3)
      by (auto simp: node_safe_def dom_def split: if_splits)
    then show ?thesis by (intro I ext) (use Lead in auto)
  next
    case (SendAppend i n to prev)
    have "p_lead p (c_term n) = Some (i, c_log n)" using inv_leadD(7) [OF lead] SendAppend by simp
    then show ?thesis using ns [OF SendAppend(2)] by (intro I) (use SendAppend in \<open>auto simp: node_safe_def\<close>)
  next
    case (Propose i n e)
    have l: "p_lead p (c_term n) = Some (i, c_log n)" using inv_leadD(7) [OF lead] Propose by simp
    have ext: "lead_ext (p_lead p) (p_lead p')" using Propose lead_ext_more [of "p_lead p", OF l] by simp
    have "node_safe ids f d (p_lead p') (p_acks p') i (n\<lparr>c_log := c_log n @ [e]\<rparr>)"
      unfolding Propose(3) by (rule node_safe_propose [OF ns [OF Propose(2)] ext]) (use Propose in auto)
    then show ?thesis by (intro I ext) (use Propose in auto)
  next
    case (Accept i n prev pt es k log)
    have "node_safe ids f d (p_lead p) (p_acks p') i
        (n\<lparr>c_role := Follower, c_log := log, c_commit := min k (length log - 1)\<rparr>)"
      unfolding Accept(3) by (rule node_safe_accept [OF choice logs inv Accept(2)]) (use Accept in auto)
    then show ?thesis by (intro I) (use Accept in auto)
  next
    case (Learn i n v k)
    have l: "p_lead p (c_term n) = Some (i, c_log n)" using inv_leadD(7) [OF lead] Learn by simp
    obtain own l' where ack: "(c_term n, v, k) \<in> p_acks p" and "p_lead p (c_term n) = Some (own, l')" "own \<noteq> v"
      using acks Learn(5) unfolding inv_acks_def by blast
    then have "v \<noteq> i" using l by simp
    moreover have "v \<in> ids" using inv_acksD(1) [OF acks ack] .
    ultimately have "node_safe ids f d (p_lead p) (p_acks p) i (n\<lparr>c_match := (c_match n)(v \<mapsto> k)\<rparr>)"
      using ns [OF Learn(2)] Learn(3) ack by (auto simp: node_safe_def)
    then show ?thesis by (intro I) (use Learn in auto)
  next
    case (Commit i n k Q)
    have "safe ids (p_lead p) (p_acks p) (c_term n) (take (Suc k) (c_log n))"
      using commit_safe [OF lead inv Commit(2,3,4) _ Commit(6,7,8,9)] Commit(5) by simp
    then have "node_safe ids f d (p_lead p) (p_acks p) i (n\<lparr>c_commit := k\<rparr>)"
      using ns [OF Commit(2)] Commit(3,6) by (auto simp: node_safe_def)
    then show ?thesis by (intro I) (use Commit in auto)
  next
    case (Apply i n)
    have "node_safe ids f d (p_lead p) (p_acks p) i
        (n\<lparr>c_applied := Suc (c_applied n), c_state := f (c_log n ! Suc (c_applied n)) (c_state n)\<rparr>)"
      using node_safe_apply [OF ns [OF Apply(2)]] Apply(3,4) by simp
    then show ?thesis by (intro I) (use Apply in auto)
  next
    case (Follow i got m)
    have "node_safe ids f d (p_lead p) (p_acks p) i (p_core p i\<lparr>c_role := Follower, c_got := got, c_match := m\<rparr>)"
      using ns [OF Follow(2)] map_le_implies_dom_le [OF Follow(4)] by (auto simp: node_safe_def)
    then show ?thesis by (intro I) (use Follow in auto)
  qed (intro I; auto)
qed


section \<open>The protocol is safe\<close>

theorem proto_step_inv:
  assumes "proto_step ids f p p'" and "proto_inv ids D f d p"
  shows "proto_inv ids D f d p'"
proof -
  note D = proto_invD [OF assms(2)]
  show ?thesis
    unfolding proto_inv_def
    using D(1,2) inv_votes_step [OF assms(1) D(3)] inv_lead_step [OF assms(1) D(3,4)]
      inv_logs_step [OF assms(1) D(3,4,5,9)] inv_acks_step [OF assms(1) D(3,4,5,6)]
      inv_choice_step [OF assms(1) D(3,4,5,8,6,7)] inv_ballots_step [OF assms(1) D(3,4,5,6,8)]
      inv_safe_step [OF assms(1) D(3,4,5,6,7,9)]
    by simp
qed

lemma proto_steps_inv:
  "(proto_step ids f)\<^sup>*\<^sup>* p p' \<Longrightarrow> proto_inv ids D f d p \<Longrightarrow> proto_inv ids D f d p'"
  by (induction rule: rtranclp_induct) (auto intro: proto_step_inv)

definition proto_init :: "node_id set \<Rightarrow> log_entry \<Rightarrow> 'd \<Rightarrow> 'd proto" where
  "proto_init ids D d =
     \<lparr>p_core = (\<lambda>i. \<lparr>c_term = 0, c_vote = None, c_role = Follower, c_got = {}, c_log = [D], c_commit = 0,
                    c_applied = 0, c_match = Map.empty, c_state = d\<rparr>),
      p_msgs = {}, p_votes = {}, p_lead = [0 \<mapsto> (0, [D])], p_acks = {}\<rparr>"

lemma proto_init_inv:
  assumes "finite ids" and "0 \<notin> ids" and "le_term D = 0"
  shows "proto_inv ids D f d (proto_init ids D d)"
proof -
  have "log_ok [0 \<mapsto> (0, [D])] D [D]" "terms_le [D] t" for t
    using assms(3) by (simp_all add: log_ok_def has_def terms_le_def)
  with assms show ?thesis
    by (auto simp: proto_inv_def proto_init_def inv_votes_def inv_lead_def inv_logs_def inv_acks_def
        inv_choice_def inv_ballots_def inv_safe_def node_safe_def safe_def lacks_def split: if_splits)
qed

text \<open>Log matching: two logs with entries of the same term at an index agree up to it.\<close>

lemma log_matching:
  assumes inv: "proto_inv ids D f d p" and i: "i \<in> ids" and j: "j \<in> ids"
    and k: "k < length (c_log (p_core p i))" "k < length (c_log (p_core p j))"
      "le_term (c_log (p_core p i) ! k) = le_term (c_log (p_core p j) ! k)"
  shows "take (Suc k) (c_log (p_core p i)) = take (Suc k) (c_log (p_core p j))"
  using log_agree [OF node_log_ok(1) node_log_ok(1) k] proto_invD(5) [OF inv] i j by (simp add: has_def)

text \<open>State machine safety: what two nodes have applied agrees.\<close>

lemma safe_comparable:
  assumes choice: "inv_choice ids p" and logs: "inv_logs ids D p"
    and X: "safe ids (p_lead p) (p_acks p) T X" "X \<noteq> [] \<Longrightarrow> hd X = D"
    and Y: "safe ids (p_lead p) (p_acks p) U Y" "Y \<noteq> [] \<Longrightarrow> hd Y = D" "U \<le> T"
  shows "prefix X Y \<or> prefix Y X"
  using X(1)
proof (cases rule: safeE)
  case 1
  with X(2) Y(2) show ?thesis by (cases X; cases Y) auto
next
  case (2 t own l k)
  show ?thesis
    using Y(1)
  proof (cases rule: safeE)
    case 1
    with X(2) Y(2) show ?thesis by (cases X; cases Y) auto
  next
    case y: (2 u own' m j)
    let ?a = "if t \<le> u then u else t"
    obtain b c where top: "p_lead p ?a = Some (b, c)" using 2(2) y(2) by (cases "t \<le> u") auto
    have "prefix X c" "prefix Y c"
      by (rule safe_in_lead [OF choice logs safeI [of t t "p_lead p" own l ids "p_acks p" k] X(2) top];
          use 2 in simp)
        (rule safe_in_lead [OF choice logs safeI [of u u "p_lead p" own' m ids "p_acks p" j] Y(2) top];
          use y in auto)
    then show ?thesis by (rule prefix_same_cases)
  qed
qed

lemma safe_prefixes_agree:
  assumes inv: "proto_inv ids D f d p" and i: "i \<in> ids" and j: "j \<in> ids" and le: "a \<le> b"
    and a: "a < length (c_log (p_core p i))" "safe ids (p_lead p) (p_acks p) (c_term (p_core p i)) (take (Suc a) (c_log (p_core p i)))"
    and b: "b < length (c_log (p_core p j))" "safe ids (p_lead p) (p_acks p) (c_term (p_core p j)) (take (Suc b) (c_log (p_core p j)))"
  shows "take (Suc a) (c_log (p_core p j)) = take (Suc a) (c_log (p_core p i))"
proof -
  let ?X = "take (Suc a) (c_log (p_core p i))" and ?Y = "take (Suc b) (c_log (p_core p j))"
  note D = proto_invD [OF inv]
  have "prefix ?X ?Y \<or> prefix ?Y ?X"
    using safe_comparable [OF D(7,5) a(2) safe_head [OF D(5) i] b(2) safe_head [OF D(5) j]]
      safe_comparable [OF D(7,5) b(2) safe_head [OF D(5) j] a(2) safe_head [OF D(5) i]] linear by blast
  moreover have len: "length ?X \<le> length ?Y" using a b le by simp
  ultimately have "prefix ?X ?Y" by (metis prefix_length_prefix prefix_order.refl)
  then obtain zs where "?Y = ?X @ zs" by (auto simp: prefix_def)
  from arg_cong [OF this, of "take (Suc a)"] show ?thesis using a b le by (simp add: min_def)
qed

lemma applied_agree:
  assumes inv: "proto_inv ids D f d p" and i: "i \<in> ids" and j: "j \<in> ids"
    and le: "c_applied (p_core p i) \<le> c_applied (p_core p j)"
  shows "take (Suc (c_applied (p_core p i))) (c_log (p_core p j)) =
      take (Suc (c_applied (p_core p i))) (c_log (p_core p i))"
  using node_safeD [OF proto_invD(9) [OF inv] i] node_safeD [OF proto_invD(9) [OF inv] j]
  by (intro safe_prefixes_agree [OF inv i j le]) (simp_all add: node_safe_def)

lemma committed_agree:
  assumes inv: "proto_inv ids D f d p" and i: "i \<in> ids" and j: "j \<in> ids"
    and k: "k \<le> c_commit (p_core p i)" "k \<le> c_commit (p_core p j)"
  shows "c_log (p_core p i) ! k = c_log (p_core p j) ! k"
proof -
  have agree: "c_log (p_core p x) ! k = c_log (p_core p y) ! k"
    if xy: "x \<in> ids" "y \<in> ids" "c_commit (p_core p x) \<le> c_commit (p_core p y)" "k \<le> c_commit (p_core p x)" for x y
  proof -
    note nx = node_safeD [OF proto_invD(9) [OF inv] xy(1), unfolded node_safe_def]
      and ny = node_safeD [OF proto_invD(9) [OF inv] xy(2), unfolded node_safe_def]
    have "take (Suc (c_commit (p_core p x))) (c_log (p_core p y)) = take (Suc (c_commit (p_core p x))) (c_log (p_core p x))"
      by (rule safe_prefixes_agree [OF inv xy(1-3)]) (use nx ny in blast)+
    from arg_cong [OF this, of "\<lambda>l. l ! k"] xy(4) show ?thesis by simp
  qed
  show ?thesis using agree [OF i j] agree [OF j i] k by (metis linear)
qed

end
