(* ===== verification/Raft_Refinement.thy ===== *)
theory Raft_Refinement
  imports Raft_Cluster Raft_Protocol
begin

text \<open>
  The handlers of the Raft node implement the abstract protocol: whatever a handler does to a node
  is a sequence of actions of the protocol. So the clusters of nodes that are restarted in memory, but do
  not lose it, inherit its safety.
\<close>

section \<open>Abstraction\<close>

definition core_of :: "raft_node \<Rightarrow> database core" where
  "core_of n =
     \<lparr>c_term = current_term n, c_vote = voted_for n, c_role = rf_role n, c_got = set (votes_received n),
      c_log = rf_log n, c_commit = commit_index n, c_applied = last_applied n,
      c_match = map_of (match_index n), c_state = rf_db n\<rparr>"

lemma core_simps [simp]:
  "c_term (core_of n) = current_term n" "c_vote (core_of n) = voted_for n" "c_role (core_of n) = rf_role n"
  "c_got (core_of n) = set (votes_received n)" "c_log (core_of n) = rf_log n" "c_commit (core_of n) = commit_index n"
  "c_applied (core_of n) = last_applied n" "c_match (core_of n) = map_of (match_index n)" "c_state (core_of n) = rf_db n"
  by (simp_all add: core_of_def)

fun pmsgs :: "node_id \<times> message \<Rightarrow> pmsg set" where
  "pmsgs (to, MRequestVote r) =
     {VoteReq (rv_term r) (rv_candidate_id r) (rv_last_log_index r) (rv_last_log_term r)}"
| "pmsgs (to, MRequestVoteResponse r) =
     (if vr_vote_granted r then {VoteGrant (vr_term r) (vr_voter_id r) to} else {})"
| "pmsgs (to, MAppendEntries a) =
     {AppendReq to (ae_term a) (ae_prev_log_index a) (ae_prev_log_term a) (ae_entries a) (ae_leader_commit a)}"
| "pmsgs (to, MAppendEntriesResponse r) =
     (if ar_success r then {AppendAck (ar_term r) (ar_follower_id r) (ar_match_index r)} else {})"
| "pmsgs (to, _) = {}"

definition out :: "raft_node \<Rightarrow> pmsg set" where
  "out n = \<Union> (pmsgs ` set (rf_outbox n))"

text \<open>What applying a committed command does to the database.\<close>

definition entry_apply :: "'x raft_ext_scheme \<Rightarrow> log_entry \<Rightarrow> database \<Rightarrow> database" where
  "entry_apply E e db =
     (case le_payload e of
        PCommand r \<Rightarrow>
          fst (case lr_command r of CmdSet key v \<Rightarrow> db_insert E key v db | CmdDelete key \<Rightarrow> db_delete E key db)
      | _ \<Rightarrow> db)"

text \<open>The progress that a node records for its peers.\<close>

definition keys_ok :: "raft_node \<Rightarrow> bool" where
  "keys_ok n \<longleftrightarrow>
     distinct (map fst (match_index n)) \<and> rf_id n \<notin> fst ` set (next_index n) \<and>
     (rf_role n = Leader \<longrightarrow>
        (\<forall>v \<in> set (rf_peers n). \<exists>k. map_of (next_index n) v = Some k \<and> 1 \<le> k \<and> k \<le> length (rf_log n)))"

lemma keys_ok_fields:
  assumes "match_index n' = match_index n" "next_index n' = next_index n" "rf_id n' = rf_id n" "rf_peers n' = rf_peers n"
    "rf_role n' = rf_role n \<or> rf_role n' \<noteq> Leader" "rf_role n' = Leader \<Longrightarrow> length (rf_log n) \<le> length (rf_log n')"
  shows "keys_ok n \<Longrightarrow> keys_ok n'"
  using assms unfolding keys_ok_def by (metis order_trans)

definition matches :: "node_id \<Rightarrow> raft_node \<Rightarrow> database proto \<Rightarrow> database proto \<Rightarrow> bool" where
  "matches i n' p p' \<longleftrightarrow>
     p_core p' = (p_core p)(i := core_of n') \<and> p_msgs p \<subseteq> p_msgs p' \<and> out n' \<subseteq> p_msgs p'"

abbreviation reaches :: "'x raft_ext_scheme \<Rightarrow> membership \<Rightarrow> database proto \<Rightarrow> database proto \<Rightarrow> bool" where
  "reaches E M \<equiv> (proto_step (mb_ids M) (entry_apply E))\<^sup>*\<^sup>*"

definition sim :: "'x raft_ext_scheme \<Rightarrow> membership \<Rightarrow> database \<Rightarrow> node_id \<Rightarrow> pmsg set \<Rightarrow> raft_node \<Rightarrow> raft_node \<Rightarrow> bool" where
  "sim E M d i K n n' \<longleftrightarrow>
     (\<forall>p. proto_inv (mb_ids M) (dummy_entry E) (entry_apply E) d p \<longrightarrow> p_core p i = core_of n \<longrightarrow>
        out n \<union> K \<subseteq> p_msgs p \<longrightarrow> keys_ok n \<longrightarrow>
        keys_ok n' \<and> (\<exists>p'. reaches E M p p' \<and> matches i n' p p'))"

lemma simD:
  assumes "sim E M d i K n n'" and "proto_inv (mb_ids M) (dummy_entry E) (entry_apply E) d p"
    and "p_core p i = core_of n" and "out n \<union> K \<subseteq> p_msgs p" and "keys_ok n"
  obtains p' where "reaches E M p p'" and "matches i n' p p'" and "keys_ok n'"
  using assms unfolding sim_def by blast

lemma simI:
  assumes "\<And>p. \<lbrakk>proto_inv (mb_ids M) (dummy_entry E) (entry_apply E) d p; p_core p i = core_of n;
      out n \<union> K \<subseteq> p_msgs p; keys_ok n\<rbrakk> \<Longrightarrow> keys_ok n' \<and> (\<exists>p'. reaches E M p p' \<and> matches i n' p p')"
  shows "sim E M d i K n n'"
  using assms unfolding sim_def by blast

lemma sim_trans:
  assumes "sim E M d i K a b" and "sim E M d i K b c"
  shows "sim E M d i K a c"
proof (rule simI)
  fix p :: "database proto"
  assume inv: "proto_inv (mb_ids M) (dummy_entry E) (entry_apply E) d p"
    and a: "p_core p i = core_of a" "out a \<union> K \<subseteq> p_msgs p" "keys_ok a"
  obtain p1 where p1: "reaches E M p p1" "matches i b p p1" "keys_ok b" by (rule simD [OF assms(1) inv a])
  have "p_core p1 i = core_of b" "out b \<union> K \<subseteq> p_msgs p1" using p1(2) a(2) by (auto simp: matches_def)
  then obtain p2 where p2: "reaches E M p1 p2" "matches i c p1 p2" "keys_ok c"
    by (rule simD [OF assms(2) proto_steps_inv [OF p1(1) inv] _ _ p1(3)])
  have "matches i c p p2" using p1(2) p2(2) by (auto simp: matches_def)
  with p1(1) p2(1,3) show "keys_ok c \<and> (\<exists>p'. reaches E M p p' \<and> matches i c p p')" by (blast intro: rtranclp_trans)
qed

lemma sim_same:
  assumes "core_of n' = core_of n" and "out n' \<subseteq> out n \<union> K" and "keys_ok n \<Longrightarrow> keys_ok n'"
  shows "sim E M d i K n n'"
proof (rule simI)
  fix p :: "database proto"
  assume "p_core p i = core_of n" "out n \<union> K \<subseteq> p_msgs p" "keys_ok n"
  moreover from this have "matches i n' p p" using assms(1,2) by (auto simp: matches_def)
  ultimately show "keys_ok n' \<and> (\<exists>p'. reaches E M p p' \<and> matches i n' p p')" using assms(3) by blast
qed

text \<open>One action of the protocol.\<close>

lemma sim_step:
  assumes keys: "keys_ok n \<Longrightarrow> keys_ok n'"
    and step: "\<And>p. \<lbrakk>proto_inv (mb_ids M) (dummy_entry E) (entry_apply E) d p; p_core p i = core_of n;
      out n \<union> K \<subseteq> p_msgs p\<rbrakk> \<Longrightarrow>
      \<exists>p'. proto_step (mb_ids M) (entry_apply E) p p' \<and> matches i n' p p'"
  shows "sim E M d i K n n'"
  by (rule simI) (use keys step in \<open>meson r_into_rtranclp\<close>)

section \<open>Frames\<close>

lemma core_of_fields:
  assumes "current_term n' = current_term n" "voted_for n' = voted_for n" "rf_role n' = rf_role n"
    "votes_received n' = votes_received n" "rf_log n' = rf_log n" "commit_index n' = commit_index n"
    "last_applied n' = last_applied n" "match_index n' = match_index n" "rf_db n' = rf_db n"
  shows "core_of n' = core_of n"
  using assms by (simp add: core_of_def)

lemma out_push [simp]: "out (push_outbox to m n) = out n \<union> pmsgs (to, m)"
  by (auto simp: out_def push_outbox_def)

lemma out_respond [simp]: "out (respond rsp s v m l t n) = out n"
  by (cases rsp) (auto simp: out_def respond_def responder_send_def)

lemma core_respond [simp]: "core_of (respond rsp s v m l t n) = core_of n"
  by (rule core_of_fields) simp_all

lemma core_push [simp]: "core_of (push_outbox to m n) = core_of n"
  by (rule core_of_fields) (simp_all add: push_outbox_def)

lemma keys_simps [simp]:
  "keys_ok (respond rsp s v m l t n) = keys_ok n" "keys_ok (push_outbox to msg n) = keys_ok n"
  "keys_ok (reset_election_timeout now n) = keys_ok n" "keys_ok (persist_meta n) = keys_ok n"
  by (simp_all add: keys_ok_def push_outbox_def reset_election_timeout_def persist_meta_def split: option.splits)

lemma core_reset [simp]:
  "core_of (reset_election_timeout now n) = core_of n" "out (reset_election_timeout now n) = out n"
  by (auto simp: core_of_def out_def reset_election_timeout_def split: option.splits)

lemma core_persist [simp]: "core_of (persist_meta n) = core_of n" "out (persist_meta n) = out n"
  by (auto simp: core_of_def out_def persist_meta_def)

lemma sim_push: "pmsgs (to, m) \<subseteq> K \<Longrightarrow> sim E M d i K n (push_outbox to m n)"
  by (rule sim_same) auto

lemma sim_push_both:
  assumes "sim E M d i K n n'"
  shows "sim E M d i K (push_outbox to m n) (push_outbox to m n')"
proof (rule simI)
  fix p :: "database proto"
  assume inv: "proto_inv (mb_ids M) (dummy_entry E) (entry_apply E) d p"
    and p: "p_core p i = core_of (push_outbox to m n)" "out (push_outbox to m n) \<union> K \<subseteq> p_msgs p" "keys_ok (push_outbox to m n)"
  then obtain p' where "reaches E M p p'" "matches i n' p p'" "keys_ok n'"
    using simD [OF assms inv] by auto
  with p show "keys_ok (push_outbox to m n') \<and> (\<exists>p'. reaches E M p p' \<and> matches i (push_outbox to m n') p p')"
    by (intro conjI exI [of _ p']) (auto simp: matches_def)
qed

section \<open>Elections\<close>

lemma respond_all:
  fixes ps :: "((nat \<times> u64) \<times> responder) list"
  shows "core_of (fold (\<lambda>(_, rsp) n. respond rsp s v m l t n) ps n) = core_of n \<and>
    out (fold (\<lambda>(_, rsp) n. respond rsp s v m l t n) ps n) = out n \<and>
    keys_ok (fold (\<lambda>(_, rsp) n. respond rsp s v m l t n) ps n) = keys_ok n"
  by (induction ps arbitrary: n) auto

lemma step_down_core:
  "core_of (step_down t now n) = core_of n\<lparr>c_term := t, c_vote := None, c_role := Follower\<rparr>"
  "out (step_down t now n) = out n" "keys_ok n \<Longrightarrow> keys_ok (step_down t now n)"
proof -
  let ?m = "persist_meta (reset_election_timeout now (n\<lparr>current_term := t, rf_role := Follower, voted_for := None, leader_id := None\<rparr>))"
  have m: "core_of (?m\<lparr>pending_requests := ps\<rparr>) = core_of n\<lparr>c_term := t, c_vote := None, c_role := Follower\<rparr>"
    "out (?m\<lparr>pending_requests := ps\<rparr>) = out n" for ps
    by (auto simp: core_of_def out_def persist_meta_def reset_election_timeout_def split: option.splits)
  have "keys_ok (?m\<lparr>pending_requests := ps\<rparr>)" if "keys_ok n" for ps
    by (rule keys_ok_fields [OF _ _ _ _ _ _ that])
      (auto simp: persist_meta_def reset_election_timeout_def split: option.splits)
  then show "core_of (step_down t now n) = core_of n\<lparr>c_term := t, c_vote := None, c_role := Follower\<rparr>"
    "out (step_down t now n) = out n" "keys_ok n \<Longrightarrow> keys_ok (step_down t now n)"
    unfolding step_down_def Let_def by (simp_all add: respond_all m)
qed

lemma sim_step_down:
  assumes i: "i \<in> mb_ids M" and t: "current_term n < t"
  shows "sim E M d i K n (step_down t now n)"
proof (rule sim_step)
  fix p :: "database proto"
  assume p: "p_core p i = core_of n" "out n \<union> K \<subseteq> p_msgs p"
  show "\<exists>p'. proto_step (mb_ids M) (entry_apply E) p p' \<and> matches i (step_down t now n) p p'"
    by (intro exI [of _ "upd i (\<lambda>n. n\<lparr>c_term := t, c_vote := None, c_role := Follower\<rparr>) p"] conjI proto_step.StepDown)
      (use p i t in \<open>auto simp: matches_def step_down_core\<close>)
qed (simp add: step_down_core)


text \<open>Append requests of a leader.\<close>

lemma sim_send:
  assumes i: "i \<in> mb_ids M" "peer \<noteq> i" and role: "rf_role n = Leader" and run: "send_append_entries peer n = Inr n'"
  shows "sim E M d i K n n' \<and> core_of n' = core_of n \<and> keys_ok n' = keys_ok n"
proof -
  obtain a where a: "make_append_entries peer n = Inr a" and n': "n' = push_outbox peer (MAppendEntries a) n"
    using run by (auto simp: send_append_entries_def and_then_eq_Inr)
  then obtain k where k: "0 < k" "k \<le> length (rf_log n)"
    and a: "a = \<lparr>ae_term = current_term n, ae_leader_id = rf_id n, ae_prev_log_index = k - 1,
                 ae_prev_log_term = le_term (rf_log n ! (k - 1)), ae_entries = drop k (rf_log n),
                 ae_leader_commit = commit_index n\<rparr>"
    by (auto simp: make_append_entries_def panic_def split: option.splits if_splits)
  have "sim E M d i K n n'"
  proof (rule sim_step)
    fix p :: "database proto"
    let ?m = "AppendReq peer (current_term n) (k - 1) (le_term (rf_log n ! (k - 1))) (drop (Suc (k - 1)) (rf_log n)) (commit_index n)"
    assume p: "p_core p i = core_of n" "out n \<union> K \<subseteq> p_msgs p"
    have "proto_step (mb_ids M) (entry_apply E) p (p\<lparr>p_msgs := p_msgs p \<union> {?m}\<rparr>)"
      using proto_step.SendAppend [OF i(1) refl, of p peer "k - 1"] p(1) role i(2) k by simp
    moreover have "matches i n' p (p\<lparr>p_msgs := p_msgs p \<union> {?m}\<rparr>)"
      using p k by (auto simp: matches_def n' a)
    ultimately show "\<exists>p'. proto_step (mb_ids M) (entry_apply E) p p' \<and> matches i n' p p'" by blast
  qed (simp add: n')
  then show ?thesis by (simp add: n')
qed

lemma sim_send_all:
  assumes i: "i \<in> mb_ids M" "i \<notin> set ps" and role: "rf_role n = Leader" and run: "send_all ps n = Inr n'"
  shows "sim E M d i K n n' \<and> core_of n' = core_of n"
  using i(2) role run
proof (induction ps n rule: send_all.induct)
  case (1 n)
  then show ?case by (simp add: sim_same)
next
  case (2 p ps n)
  then obtain m where m: "send_append_entries p n = Inr m" "send_all ps m = Inr n'" by (auto simp: and_then_eq_Inr)
  have a: "sim E M d i K n m \<and> core_of m = core_of n" using sim_send [OF i(1) _ _ m(1)] 2(2,3) by auto
  then have "rf_role m = Leader" using 2(3) core_simps(3) by metis
  with 2(1) [OF m(1)] 2(2) m(2) have "sim E M d i K m n' \<and> core_of n' = core_of m" by simp
  with a sim_trans show ?case by metis
qed

lemma set_update_fst: "fst ` set (AList.update k v al) = insert k (fst ` set al)"
  using update_keys [of k v al] by (metis (no_types) Un_insert_right image_set insert_absorb list.set(1) list.simps(15) set_append sup_bot.right_neutral)

lemma map_of_update: "map_of (AList.update k v al) = (map_of al)(k \<mapsto> v)"
  by (rule update_conv')

text \<open>The loop of \<open>become_leader\<close> sets the progress of the peers and sends to each.\<close>

definition append_reqs :: "node_id set \<Rightarrow> raft_node \<Rightarrow> pmsg set" where
  "append_reqs P n =
     {AppendReq to (current_term n) prev (le_term (rf_log n ! prev)) (drop (Suc prev) (rf_log n)) (commit_index n) | to prev.
        to \<in> P \<and> prev < length (rf_log n)}"

lemma init_peers_core:
  assumes "init_peers ps n = Inr n'"
  shows "core_of n' = core_of n\<lparr>c_match := (\<lambda>v. if v \<in> set ps then Some 0 else map_of (match_index n) v)\<rparr> \<and>
    out n' \<subseteq> out n \<union> append_reqs (set ps) n \<and>
    (distinct (map fst (match_index n)) \<longrightarrow> distinct (map fst (match_index n'))) \<and>
    fst ` set (next_index n') = set ps \<union> fst ` set (next_index n) \<and>
    (\<forall>v \<in> set ps. map_of (next_index n') v = Some (length (rf_log n))) \<and>
    (\<forall>v. v \<notin> set ps \<longrightarrow> map_of (next_index n') v = map_of (next_index n) v) \<and>
    rf_id n' = rf_id n \<and> rf_peers n' = rf_peers n"
  using assms
proof (induction ps n rule: init_peers.induct)
  case (2 q ps n)
  let ?m = "n\<lparr>next_index := AList.update q (length (rf_log n)) (next_index n),
        match_index := AList.update q 0 (match_index n)\<rparr>"
  obtain m a where m: "make_append_entries q ?m = Inr a" "m = push_outbox q (MAppendEntries a) ?m" "init_peers ps m = Inr n'"
    using 2(2) by (auto simp: and_then_eq_Inr send_append_entries_def)
  have ne: "rf_log n \<noteq> []" and a: "a = \<lparr>ae_term = current_term n, ae_leader_id = rf_id n, ae_prev_log_index = length (rf_log n) - 1,
               ae_prev_log_term = le_term (rf_log n ! (length (rf_log n) - 1)), ae_entries = [],
               ae_leader_commit = commit_index n\<rparr>"
    using m(1) by (auto simp: make_append_entries_def panic_def map_of_update split: if_splits)
  have send: "send_append_entries q ?m = Inr m" using m(1,2) by (simp add: send_append_entries_def)
  have core: "core_of m = core_of n\<lparr>c_match := (map_of (match_index n))(q \<mapsto> 0)\<rparr>" 
    and match: "match_index m = AList.update q 0 (match_index n)"
    and nxt: "next_index m = AList.update q (length (rf_log n)) (next_index n)"
    and id: "rf_id m = rf_id n" "rf_peers m = rf_peers n" "rf_log m = rf_log n"
    using m(2) by (auto simp: push_outbox_def core_of_def map_of_update)
  have keys: "fst ` set (next_index m) = insert q (fst ` set (next_index n))"
    unfolding nxt by (rule set_update_fst)
  have reqs: "append_reqs (set ps) m \<subseteq> append_reqs (set (q # ps)) n"
    using m(2) by (auto simp: append_reqs_def push_outbox_def)
  have new: "out m \<subseteq> out n \<union> append_reqs (set (q # ps)) n"
    using ne m(2) a by (auto simp: out_def append_reqs_def push_outbox_def intro!: exI [of _ "length (rf_log n) - 1"])
  note IH = 2(1) [OF send m(3)]
  have "core_of n' = core_of n\<lparr>c_match := (\<lambda>v. if v \<in> set (q # ps) then Some 0 else map_of (match_index n) v)\<rparr>"
    using IH core by (auto simp: match map_of_update fun_eq_iff)
  moreover have "out n' \<subseteq> out n \<union> append_reqs (set (q # ps)) n" using IH reqs new by blast
  moreover have "distinct (map fst (match_index n)) \<longrightarrow> distinct (map fst (match_index n'))"
    using IH by (auto simp: match distinct_update)
  moreover have "\<forall>v \<in> set (q # ps). map_of (next_index n') v = Some (length (rf_log n))"
    "\<forall>v. v \<notin> set (q # ps) \<longrightarrow> map_of (next_index n') v = map_of (next_index n) v"
    using IH by (auto simp: nxt id map_of_update)
  moreover have "fst ` set (next_index n') = set (q # ps) \<union> fst ` set (next_index n)" using IH keys by auto
  moreover have "rf_id n' = rf_id n" "rf_peers n' = rf_peers n" using IH id by simp_all
  ultimately show ?case by simp
qed (simp add: core_of_def)

lemma send_append_reqs:
  assumes "finite S" and "S \<subseteq> append_reqs P n" and "i \<in> mb_ids M" "i \<notin> P" and "p_core p i = core_of n" and "rf_role n = Leader"
  shows "reaches E M p (p\<lparr>p_msgs := p_msgs p \<union> S\<rparr>)"
  using assms(1,2)
proof (induction S)
  case (insert x S)
  then obtain to prev where x: "x = AppendReq to (current_term n) prev (le_term (rf_log n ! prev)) (drop (Suc prev) (rf_log n)) (commit_index n)"
    "to \<in> P" "prev < length (rf_log n)" by (auto simp: append_reqs_def)
  let ?p = "p\<lparr>p_msgs := p_msgs p \<union> S\<rparr>"
  have "to \<noteq> i" using x(2) assms(4) by auto
  then have "proto_step (mb_ids M) (entry_apply E) ?p (?p\<lparr>p_msgs := p_msgs ?p \<union> {x}\<rparr>)"
    using proto_step.SendAppend [OF assms(3) refl, of ?p to prev] assms(5,6) x by simp
  then have "proto_step (mb_ids M) (entry_apply E) ?p (p\<lparr>p_msgs := p_msgs p \<union> insert x S\<rparr>)" by simp
  with insert show ?case by (meson insert_subset rtranclp.rtrancl_into_rtrancl)
qed simp

lemma proto_inv_log:
  assumes "proto_inv ids D f d p" and "i \<in> ids"
  shows "c_log (p_core p i) \<noteq> []"
  using node_log_ok(1) [OF proto_invD(5) [OF assms(1)] assms(2)] by (simp add: log_ok_def)

lemma majority_card:
  assumes M: "membership_ok M" and i: "i \<in> mb_ids M" and n: "rf_peers n = mb_peers M i"
  shows "majority n = card (mb_ids M) div 2 + 1"
proof -
  have fin: "finite (mb_ids M)" and peers: "distinct (mb_peers M i)" "set (mb_peers M i) = mb_ids M - {i}"
    using M i by (auto simp: membership_ok_def)
  then have "length (rf_peers n) + 1 = card (mb_ids M)"
    using card.remove [OF fin i] distinct_card [of "mb_peers M i"] n by simp
  then show ?thesis by (simp add: majority_def)
qed

lemma sim_become_leader:
  assumes M: "membership_ok M" and i: "i \<in> mb_ids M" and n: "rf_peers n = mb_peers M i" "rf_role n = Candidate"
    and votes: "distinct (votes_received n)" "majority n \<le> length (votes_received n)"
    and run: "become_leader now n = Inr n'" and ident: "rf_id n = i"
  shows "sim E M d i K n n'"
proof (rule simI)
  let ?n = "n\<lparr>rf_role := Leader, leader_id := Some (rf_id n)\<rparr>"
  obtain k where k: "init_peers (rf_peers ?n) ?n = Inr k" and n': "n' = k\<lparr>heartbeat_deadline := now + 100\<rparr>"
    using run by (auto simp: become_leader_def and_then_eq_Inr)
  have ids: "set (rf_peers n) = mb_ids M - {i}" using M i n(1) by (auto simp: membership_ok_def)
  note ip = init_peers_core [OF k]
  fix p :: "database proto"
  assume inv: "proto_inv (mb_ids M) (dummy_entry E) (entry_apply E) d p" and p: "p_core p i = core_of n" "out n \<union> K \<subseteq> p_msgs p"
    and keys: "keys_ok n"
  have "set (votes_received n) \<subseteq> mb_ids M"
    using inv_votesD(1,5) [OF proto_invD(3) [OF inv]] i p(1) n(2) by (metis core_simps(3,4) role.distinct(1) subsetI)
  then have got: "set (votes_received n) \<in> majorities (mb_ids M)"
    using votes majority_card [OF M i n(1)] M by (simp add: majorities_def membership_ok_def distinct_card)
  let ?match = "\<lambda>v. if v \<in> mb_ids M - {i} then Some 0 else None"
  let ?p = "upd i (\<lambda>n. n\<lparr>c_role := Leader, c_match := ?match\<rparr>) p\<lparr>p_lead := (p_lead p)(current_term n \<mapsto> (i, rf_log n))\<rparr>"
  have lead: "proto_step (mb_ids M) (entry_apply E) p ?p"
    using proto_step.Lead [OF i refl, of p "entry_apply E"] p(1) n(2) got by simp
  have "dom (map_of (match_index n)) \<subseteq> mb_ids M - {i}"
    using node_safeD [OF proto_invD(9) [OF inv] i] p(1) by (simp add: node_safe_def)
  then have "map_of (match_index n) v = None" if "v \<notin> mb_ids M - {i}" for v using that by (meson domIff subsetD)
  then have "(\<lambda>v. if v \<in> mb_ids M - {i} then Some 0 else map_of (match_index n) v) = ?match" by auto
  then have core: "core_of k = core_of n\<lparr>c_role := Leader, c_match := ?match\<rparr>" using ip by (simp add: core_of_def ids cong del: if_weak_cong)
  let ?S = "out k - out n"
  have "finite (pmsgs x)" for x by (cases x; rename_tac a b; case_tac b) auto
  then have fin: "finite ?S" by (simp add: out_def)
  have sub: "?S \<subseteq> append_reqs (mb_ids M - {i}) k"
    using ip core by (auto simp: append_reqs_def core_of_def out_def ids)
  have "p_core ?p i = core_of k" "rf_role k = Leader" using p(1) core core_simps(3) [of k] by simp_all
  then have send: "reaches E M ?p (?p\<lparr>p_msgs := p_msgs ?p \<union> ?S\<rparr>)" using send_append_reqs [OF fin sub i] by blast
  have "rf_log k = rf_log n" using arg_cong [OF core, of c_log] by simp
  moreover have "1 \<le> length (rf_log n)" using proto_inv_log [OF inv i] p(1) by (cases "rf_log n") auto
  ultimately have "keys_ok n'" using ip keys ids ident by (auto simp: keys_ok_def n')
  moreover have "matches i n' p (?p\<lparr>p_msgs := p_msgs ?p \<union> ?S\<rparr>)"
    using p core by (auto simp: matches_def n' core_of_def out_def)
  ultimately show "keys_ok n' \<and> (\<exists>p'. reaches E M p p' \<and> matches i n' p p')"
    using lead send by (meson converse_rtranclp_into_rtranclp)
qed


lemma sim_elect:
  assumes i: "i \<in> mb_ids M" "rf_id n = i" and t: "current_term n \<noteq> - 1"
    and n': "core_of n' = core_of n\<lparr>c_term := current_term n + 1, c_vote := Some i, c_role := Candidate, c_got := {i}\<rparr>"
      "out n' = out n" "keys_ok n \<Longrightarrow> keys_ok n'"
  shows "sim E M d i K n n'"
proof (rule sim_step)
  fix p :: "database proto"
  let ?t = "current_term n + 1"
  let ?p = "upd i (\<lambda>n. n\<lparr>c_term := ?t, c_vote := Some i, c_role := Candidate, c_got := {i}\<rparr>) p
         \<lparr>p_votes := p_votes p \<union> {(?t, i, i)}\<rparr>"
  assume p: "p_core p i = core_of n" "out n \<union> K \<subseteq> p_msgs p"
  have "proto_step (mb_ids M) (entry_apply E) p ?p"
    using proto_step.Elect [OF i(1), of ?t p "entry_apply E"] p(1) term_Suc [OF t] by simp
  moreover have "matches i n' p ?p" using p n' by (auto simp: matches_def)
  ultimately show "\<exists>p'. proto_step (mb_ids M) (entry_apply E) p p' \<and> matches i n' p p'" by blast
qed (rule n')

lemma push_all:
  "rf_log (fold (\<lambda>peer. push_outbox peer m) ps n) = rf_log n" "core_of (fold (\<lambda>peer. push_outbox peer m) ps n) = core_of n"
  "keys_ok (fold (\<lambda>peer. push_outbox peer m) ps n) = keys_ok n"
  "out (fold (\<lambda>peer. push_outbox peer m) ps n) = out n \<union> (\<Union>peer \<in> set ps. pmsgs (peer, m))"
proof -
  show "rf_log (fold (\<lambda>peer. push_outbox peer m) ps n) = rf_log n"
    by (induction ps arbitrary: n) (simp_all add: push_outbox_def)
qed (induction ps arbitrary: n; auto)+

lemma sim_ask:
  assumes i: "i \<in> mb_ids M" "rf_id n = i" and role: "rf_role n = Candidate" and last: "last_log n = Inr (k, t)"
    and q: "q = \<lparr>rv_term = current_term n, rv_candidate_id = rf_id n, rv_last_log_index = k, rv_last_log_term = t\<rparr>"
  shows "sim E M d i K n (fold (\<lambda>peer. push_outbox peer (MRequestVote q)) ps n)"
proof (rule sim_step)
  fix p :: "database proto"
  let ?m = "VoteReq (current_term n) i (length (rf_log n) - 1) (le_term (last (rf_log n)))"
  assume p: "p_core p i = core_of n" "out n \<union> K \<subseteq> p_msgs p"
  have kt: "k = length (rf_log n) - 1" "t = le_term (last (rf_log n))"
    using last by (auto simp: last_log_def panic_def split: if_splits)
  have "proto_step (mb_ids M) (entry_apply E) p (p\<lparr>p_msgs := p_msgs p \<union> {?m}\<rparr>)"
    using proto_step.Ask [OF i(1) refl, of p "entry_apply E"] p(1) role by simp
  moreover have "matches i (fold (\<lambda>peer. push_outbox peer (MRequestVote q)) ps n) p (p\<lparr>p_msgs := p_msgs p \<union> {?m}\<rparr>)"
    using p i(2) by (auto simp: matches_def push_all q kt)
  ultimately show "\<exists>p'. proto_step (mb_ids M) (entry_apply E) p p' \<and>
      matches i (fold (\<lambda>peer. push_outbox peer (MRequestVote q)) ps n) p p'" by blast
qed (simp add: push_all)

lemma sim_start_election:
  assumes M: "membership_ok M" and i: "i \<in> mb_ids M" "rf_id n = i" "rf_peers n = mb_peers M i"
    and t: "current_term n \<noteq> - 1" and run: "start_election now n = Inr n'"
  shows "sim E M d i K n n'"
proof -
  let ?n = "(persist_meta (n\<lparr>rf_role := Candidate, leader_id := None, current_term := current_term n + 1,
                voted_for := Some (rf_id n)\<rparr>))\<lparr>votes_received := [rf_id n]\<rparr>"
  have f: "rf_id ?n = i" "rf_peers ?n = mb_peers M i" "rf_role ?n = Candidate" "votes_received ?n = [i]" "majority ?n = majority n"
    "rf_log ?n = rf_log n"
    using i by (simp_all add: persist_meta_def majority_def)
  have e: "sim E M d i K n ?n"
    by (rule sim_elect [OF i(1,2) t]) (use i(2) in \<open>simp_all add: core_of_def persist_meta_def out_def keys_ok_def\<close>)
  show ?thesis
  proof (cases "majority n \<le> 1")
    case True
    then have "become_leader now ?n = Inr n'" using run f(5) by (simp add: start_election_def Let_def persist_meta_def)
    from sim_trans [OF e sim_become_leader [OF M i(1) f(2,3) _ _ this f(1)]] True f(4,5) show ?thesis by simp
  next
    case False
    let ?m = "reset_election_timeout now ?n"
    obtain k u where "last_log ?m = Inr (k, u)" and n': "n' = fold (\<lambda>peer. push_outbox peer (MRequestVote
        \<lparr>rv_term = current_term ?m, rv_candidate_id = rf_id ?m, rv_last_log_index = k, rv_last_log_term = u\<rparr>)) (rf_peers ?m) ?m"
      using run False f(5) by (auto simp: start_election_def Let_def and_then_eq_Inr persist_meta_def)
    then have "sim E M d i K ?m n'" unfolding n' by (intro sim_ask [OF i(1)]) (use f in simp_all)
    moreover have "sim E M d i K ?n ?m" by (rule sim_same) auto
    ultimately show ?thesis using e sim_trans by blast
  qed
qed

lemma sim_collect:
  assumes i: "i \<in> mb_ids M" "rf_id n = i" and role: "rf_role n = Candidate"
    and K: "VoteGrant (current_term n) v i \<in> K"
  shows "sim E M d i K n (n\<lparr>votes_received := List.insert v (votes_received n)\<rparr>)"
proof (rule sim_step)
  fix p :: "database proto"
  let ?p = "upd i (\<lambda>n. n\<lparr>c_got := insert v (c_got n)\<rparr>) p"
  assume p: "p_core p i = core_of n" "out n \<union> K \<subseteq> p_msgs p"
  have "proto_step (mb_ids M) (entry_apply E) p ?p"
    using proto_step.Collect [OF i(1) refl, of p v "entry_apply E"] p role K by auto
  moreover have "matches i (n\<lparr>votes_received := List.insert v (votes_received n)\<rparr>) p ?p"
    using p by (auto simp: matches_def core_of_def out_def)
  ultimately show "\<exists>p'. proto_step (mb_ids M) (entry_apply E) p p' \<and>
      matches i (n\<lparr>votes_received := List.insert v (votes_received n)\<rparr>) p p'" by blast
qed (simp add: keys_ok_def)

lemma sim_vote_response:
  assumes M: "membership_ok M" and i: "i \<in> mb_ids M" "rf_id n = i" "rf_peers n = mb_peers M i" and votes: "node_votes V n"
    and K: "pmsgs (i, MRequestVoteResponse r) \<subseteq> K" and run: "handle_vote_response r now n = Inr n'"
  shows "sim E M d i K n n'"
proof (cases "vr_term r = current_term n \<and> rf_role n = Candidate")
  case False
  then have "n' = step_down (vr_term r) now n \<and> current_term n < vr_term r \<or> n' = n"
    using run by (auto simp: handle_vote_response_def split: if_splits)
  then show ?thesis using sim_step_down [OF i(1)] sim_same by blast
next
  case True
  let ?n = "if vr_vote_granted r then n\<lparr>votes_received := List.insert (vr_voter_id r) (votes_received n)\<rparr> else n"
  have s: "sim E M d i K n ?n"
    using sim_collect [OF i(1,2), of "vr_voter_id r" K] K True by (auto intro: sim_same)
  have run': "(if majority ?n \<le> length (votes_received ?n) then become_leader now ?n else Inr ?n) = Inr n'"
    using run True by (simp add: handle_vote_response_def Let_def)
  have "distinct (votes_received ?n)" using votes True by (simp add: node_votes_def)
  then have "sim E M d i K ?n n'"
    using run' sim_become_leader [OF M i(1), of ?n now n'] i(2,3) True by (auto intro: sim_same split: if_splits)
  with s sim_trans show ?thesis by blast
qed


lemma sim_grant:
  assumes i: "i \<in> mb_ids M" "rf_id n = i" and K: "VoteReq (current_term n) x k t \<in> K"
    and can: "voted_for n = None \<or> voted_for n = Some x" and newer: "newer_log t k (rf_log n)"
    and n': "core_of n' = core_of n\<lparr>c_vote := Some x\<rparr>" "out n' = out n \<union> {VoteGrant (current_term n) i x}"
      "keys_ok n \<Longrightarrow> keys_ok n'"
  shows "sim E M d i K n n'"
proof (rule sim_step)
  fix p :: "database proto"
  let ?p = "upd i (\<lambda>n. n\<lparr>c_vote := Some x\<rparr>) p
    \<lparr>p_votes := p_votes p \<union> {(current_term n, i, x)}, p_msgs := p_msgs p \<union> {VoteGrant (current_term n) i x}\<rparr>"
  assume p: "p_core p i = core_of n" "out n \<union> K \<subseteq> p_msgs p"
  have "VoteReq (c_term (p_core p i)) x k t \<in> p_msgs p" "c_vote (p_core p i) \<in> {None, Some x}"
    "newer_log t k (c_log (p_core p i))" using p K can newer by auto
  from proto_step.Grant [OF i(1) refl this, of "entry_apply E"]
  have "proto_step (mb_ids M) (entry_apply E) p ?p" using p(1) by simp
  moreover have "matches i n' p ?p" using p n' by (auto simp: matches_def)
  ultimately show "\<exists>p'. proto_step (mb_ids M) (entry_apply E) p p' \<and> matches i n' p p'" by blast
qed (rule n')

lemma request_vote_cases:
  assumes run: "handle_request_vote q now n = Inr (m, r)" and le: "\<not> rv_term q < current_term n"
    and N: "N = (if rv_term q > current_term n then step_down (rv_term q) now n else n)"
  obtains "m = N" and "\<not> vr_vote_granted r"
  | k t where "last_log N = Inr (k, t)" and "voted_for N = None \<or> voted_for N = Some (rv_candidate_id q)"
      and "log_is_up_to_date q k t"
      and "m = reset_election_timeout now (persist_meta (N\<lparr>voted_for := Some (rv_candidate_id q)\<rparr>))"
      and "r = vote_reply m True"
proof -
  let ?can = "case voted_for N of None \<Rightarrow> True | Some i \<Rightarrow> i = rv_candidate_id q"
  have run': "(if \<not> ?can then Inr (N, vote_reply N False)
        else
          and_then (last_log N) (\<lambda>(last_log_index, last_log_term).
          if \<not> log_is_up_to_date q last_log_index last_log_term then Inr (N, vote_reply N False)
          else
            let n = reset_election_timeout now (persist_meta (N\<lparr>voted_for := Some (rv_candidate_id q)\<rparr>)) in
            Inr (n, vote_reply n True))) = Inr (m, r)"
    using run le unfolding handle_request_vote_def N Let_def by (simp split del: if_split)
  show thesis
  proof (cases "?can \<and> (\<exists>k t. last_log N = Inr (k, t) \<and> log_is_up_to_date q k t)")
    case True
    then show thesis using run' that(2) by (auto simp: Let_def split: option.splits)
  next
    case False
    then show thesis using run' that(1) by (auto simp: Let_def and_then_eq_Inr vote_reply_def split: if_splits)
  qed
qed

lemma vote_core: "core_of (n\<lparr>voted_for := v\<rparr>) = core_of n\<lparr>c_vote := v\<rparr>" "out (n\<lparr>voted_for := v\<rparr>) = out n"
  by (simp_all add: core_of_def out_def)

lemma sim_request_vote:
  assumes i: "i \<in> mb_ids M" "rf_id n = i" and K: "pmsgs (i, MRequestVote q) \<subseteq> K"
    and run: "handle_request_vote q now n = Inr (m, r)"
  shows "sim E M d i K n (push_outbox (rv_candidate_id q) (MRequestVoteResponse r) m)"
proof (cases "rv_term q < current_term n")
  case True
  then have "m = n" "\<not> vr_vote_granted r" using run by (auto simp: handle_request_vote_def vote_reply_def)
  then show ?thesis by (auto intro: sim_push)
next
  case False
  define N where N: "N = (if rv_term q > current_term n then step_down (rv_term q) now n else n)"
  have down: "sim E M d i K n N" using sim_step_down [OF i(1)] by (auto simp: N intro: sim_same)
  have n: "rf_id N = i" "current_term N = rv_term q"
    using i(2) False quiet_step_down [of _ "rv_term q" n now] by (auto simp: N quiet_def down_def persist_meta_def)
  show ?thesis
    using run False N
  proof (cases rule: request_vote_cases)
    case 1
    then show ?thesis using sim_trans [OF down sim_push] by simp
  next
    case (2 k t)
    have newer: "newer_log (rv_last_log_term q) (rv_last_log_index q) (rf_log N)"
      using 2(1,3) by (auto simp: newer_log_def log_is_up_to_date_def last_log_def panic_def split: if_splits)
    have "sim E M d i K N (push_outbox (rv_candidate_id q) (MRequestVoteResponse r) m)"
    proof (rule sim_grant [OF i(1) n(1) _ 2(2) newer])
      show "VoteReq (current_term N) (rv_candidate_id q) (rv_last_log_index q) (rv_last_log_term q) \<in> K" using K n(2) by simp
      show "core_of (push_outbox (rv_candidate_id q) (MRequestVoteResponse r) m) = core_of N\<lparr>c_vote := Some (rv_candidate_id q)\<rparr>"
        by (simp add: 2(4) vote_core)
      have "out m = out N" by (simp add: 2(4) vote_core)
      then show "out (push_outbox (rv_candidate_id q) (MRequestVoteResponse r) m) = out N \<union> {VoteGrant (current_term N) i (rv_candidate_id q)}"
        using n by (simp add: 2(4,5) vote_reply_def persist_meta_def)
      show "keys_ok (push_outbox (rv_candidate_id q) (MRequestVoteResponse r) m)" if "keys_ok N"
        using keys_ok_fields [OF _ _ _ _ _ _ that, of "N\<lparr>voted_for := Some (rv_candidate_id q)\<rparr>"] by (simp add: 2(4))
    qed
    with down sim_trans show ?thesis by blast
  qed
qed

section \<open>Applying and committing\<close>

lemma answer_core [simp]:
  "core_of (answer_pending i t r n) = core_of n" "out (answer_pending i t r n) = out n" "keys_ok (answer_pending i t r n) = keys_ok n"
proof -
  have "core_of (answer_pending i t r n) = core_of n \<and> out (answer_pending i t r n) = out n \<and> keys_ok (answer_pending i t r n) = keys_ok n"
  proof (cases "map_of (pending_requests n) (i, t)")
    case (Some rsp)
    let ?m = "n\<lparr>pending_requests := AList.delete (i, t) (pending_requests n)\<rparr>"
    have "core_of ?m = core_of n" "out ?m = out n" "keys_ok ?m = keys_ok n" by (simp_all add: core_of_def out_def keys_ok_def)
    with Some show ?thesis by (auto simp: answer_pending_def Let_def split: sum.splits)
  qed (simp add: answer_pending_def)
  then show "core_of (answer_pending i t r n) = core_of n" "out (answer_pending i t r n) = out n"
    "keys_ok (answer_pending i t r n) = keys_ok n" by auto
qed

lemma apply_entry_core:
  assumes "apply_entry_at E k n = Inr n'" and "log_good E n"
  shows "core_of n' = core_of n\<lparr>c_applied := k, c_state := entry_apply E (rf_log n ! k) (rf_db n)\<rparr>" "out n' = out n"
    "keys_ok n' = keys_ok n"
proof -
  have k: "k < length (rf_log n)" using apply_entry_at_simps(12) [OF assms(1)] .
  then obtain r where r: "le_payload (rf_log n ! k) = PCommand r"
    using assms(2) by (auto simp: log_good_def list_all_length entry_good_def)
  obtain db rs where db: "(case lr_command r of CmdSet key v \<Rightarrow> db_insert E key v (rf_db n)
      | CmdDelete key \<Rightarrow> db_delete E key (rf_db n)) = (db, rs)" by (rule prod.exhaust)
  have n': "n' = answer_pending k (le_term (rf_log n ! k)) rs (n\<lparr>rf_db := db, last_applied := k\<rparr>)"
    using assms(1) k by (simp add: apply_entry_at_def apply_payload_def r db Let_def)
  have "entry_apply E (rf_log n ! k) (rf_db n) = db" using db by (simp add: entry_apply_def r)
  then show "core_of n' = core_of n\<lparr>c_applied := k, c_state := entry_apply E (rf_log n ! k) (rf_db n)\<rparr>" "out n' = out n"
    "keys_ok n' = keys_ok n"
    unfolding n' answer_core by (simp_all add: core_of_def out_def keys_ok_def)
qed

lemma sim_apply:
  assumes i: "i \<in> mb_ids M" and run: "apply_entry_at E (last_applied n + 1) n = Inr n'" and good: "log_good E n"
    and less: "last_applied n < commit_index n"
  shows "sim E M d i K n n'"
proof (rule sim_step)
  fix p :: "database proto"
  let ?p = "upd i (\<lambda>n. n\<lparr>c_applied := Suc (c_applied n), c_state := entry_apply E (c_log n ! Suc (c_applied n)) (c_state n)\<rparr>) p"
  assume p: "p_core p i = core_of n" "out n \<union> K \<subseteq> p_msgs p"
  have "proto_step (mb_ids M) (entry_apply E) p ?p"
    using proto_step.Apply [OF i refl, of p "entry_apply E"] p(1) less by simp
  moreover have "matches i n' p ?p" using p apply_entry_core [OF run good] by (auto simp: matches_def)
  ultimately show "\<exists>p'. proto_step (mb_ids M) (entry_apply E) p p' \<and> matches i n' p p'" by blast
qed (use apply_entry_core [OF run good] in simp)

lemma sim_apply_committed:
  assumes i: "i \<in> mb_ids M"
  shows "apply_committed_entries E n = Inr n' \<Longrightarrow> log_good E n \<Longrightarrow> sim E M d i K n n'"
proof (induction E n rule: apply_committed_entries.induct)
  case (1 E n)
  show ?case
  proof (cases "last_applied n < commit_index n")
    case True
    with "1.prems" obtain m where m: "apply_entry_at E (last_applied n + 1) n = Inr m" "apply_committed_entries E m = Inr n'"
      by (auto simp: apply_committed_entries.simps [of E n] and_then_eq_Inr)
    have "log_good E m" using quiet_apply_entry [OF m(1) "1.prems"(2)] "1.prems"(2) by (simp add: quiet_def)
    with 1(1) [OF True m(1) m(2)] sim_trans [OF sim_apply [OF i m(1) "1.prems"(2) True]] show ?thesis by blast
  next
    case False
    with "1.prems" show ?thesis by (auto simp: apply_committed_entries.simps [of E n] intro: sim_same)
  qed
qed


lemma commit_quorum:
  assumes M: "membership_ok M" and i: "i \<in> mb_ids M" and peers: "rf_peers n = mb_peers M i"
    and keys: "distinct (map fst (match_index n))" and dom: "dom (map_of (match_index n)) \<subseteq> mb_ids M - {i}"
    and count: "majority n \<le> length (filter (\<lambda>(_, m). k \<le> m) (match_index n)) + 1"
  shows "insert i {v. \<exists>m. map_of (match_index n) v = Some m \<and> k \<le> m} \<in> majorities (mb_ids M)"
proof -
  let ?F = "filter (\<lambda>(_, m). k \<le> m) (match_index n)" and ?Q = "{v. \<exists>m. map_of (match_index n) v = Some m \<and> k \<le> m}"
  have fin: "finite (mb_ids M)" using M by (simp add: membership_ok_def)
  have Q: "?Q \<subseteq> mb_ids M - {i}" using dom by auto
  have "distinct (map fst ?F)" using keys by (rule distinct_map_filter)
  then have "length ?F = card (fst ` set ?F)" using distinct_card [of "map fst ?F"] by simp
  moreover have "fst ` set ?F = ?Q" using keys by (force simp: image_iff)
  ultimately have "card ?Q = length ?F" by simp
  moreover have "i \<notin> ?Q" "finite ?Q" using Q fin finite_subset by auto
  ultimately have "card (insert i ?Q) = length ?F + 1" by simp
  moreover have "?Q \<subseteq> mb_ids M" using Q by auto
  ultimately show ?thesis using count majority_card [OF M i peers] i fin by (simp add: majorities_def)
qed

lemma sim_commit_at:
  assumes M: "membership_ok M" and i: "i \<in> mb_ids M" and n: "rf_peers n = mb_peers M i" "rf_role n = Leader"
    and k: "commit_index n < k" "k < length (rf_log n)"
  shows "sim E M d i K n (commit_at k n)"
proof (cases "commit_at k n = n")
  case True
  then show ?thesis by (simp add: sim_same)
next
  case False
  then have c: "commit_at k n = n\<lparr>commit_index := k\<rparr>" "le_term (rf_log n ! k) = current_term n"
    "majority n \<le> length (filter (\<lambda>(_, m). k \<le> m) (match_index n)) + 1"
    by (auto simp: commit_at_def Let_def split: if_splits)
  show ?thesis
  proof (rule simI)
    fix p :: "database proto"
    let ?p = "upd i (\<lambda>n. n\<lparr>c_commit := k\<rparr>) p"
    let ?Q = "insert i {v. \<exists>m. map_of (match_index n) v = Some m \<and> k \<le> m}"
    assume inv: "proto_inv (mb_ids M) (dummy_entry E) (entry_apply E) d p" and p: "p_core p i = core_of n" "out n \<union> K \<subseteq> p_msgs p"
      and keys: "keys_ok n"
    have "dom (map_of (match_index n)) \<subseteq> mb_ids M - {i}"
      using node_safeD [OF proto_invD(9) [OF inv] i] p(1) by (simp add: node_safe_def)
    then have Q: "?Q \<in> majorities (mb_ids M)" using commit_quorum [OF M i n(1) _ _ c(3)] keys by (simp add: keys_ok_def)
    have "proto_step (mb_ids M) (entry_apply E) p ?p"
      by (rule proto_step.Commit [OF i refl _ _ _ _ Q]) (use p(1) n k c(2) in auto)
    moreover have "matches i (commit_at k n) p ?p" using p by (auto simp: matches_def c(1) core_of_def out_def)
    moreover have "keys_ok (commit_at k n)" using keys by (simp add: c(1) keys_ok_def)
    ultimately show "keys_ok (commit_at k n) \<and> (\<exists>p'. reaches E M p p' \<and> matches i (commit_at k n) p p')" by blast
  qed
qed

lemma sim_commit_fold:
  assumes M: "membership_ok M" and i: "i \<in> mb_ids M"
  shows "rf_peers n = mb_peers M i \<Longrightarrow> rf_role n = Leader \<Longrightarrow> sorted_wrt (<) ks \<Longrightarrow> \<forall>k \<in> set ks. commit_index n < k \<and> k < length (rf_log n) \<Longrightarrow>
    sim E M d i K n (fold commit_at ks n)"
proof (induction ks arbitrary: n)
  case Nil
  then show ?case by (simp add: sim_same)
next
  case (Cons k ks)
  have "sim E M d i K n (commit_at k n)" by (rule sim_commit_at [OF M i]) (use Cons.prems in auto)
  moreover have "sim E M d i K (commit_at k n) (fold commit_at ks (commit_at k n))"
    by (rule Cons.IH) (use Cons.prems commit_at_fields [of k n] in auto)
  ultimately show ?case using sim_trans by (metis fold_simps(2))
qed

lemma sim_update_commit:
  assumes M: "membership_ok M" and i: "i \<in> mb_ids M" and n: "rf_peers n = mb_peers M i" "rf_role n = Leader"
    and good: "log_good E n" and run: "update_commit_index E n = Inr n'"
  shows "sim E M d i K n n'"
proof -
  let ?m = "fold commit_at [commit_index n + 1..<length (rf_log n)] n"
  have "sim E M d i K n ?m" by (rule sim_commit_fold [OF M i n]) auto
  moreover have "sim E M d i K ?m (persist_meta ?m)" by (rule sim_same) auto
  moreover have "log_good E (persist_meta ?m)"
    using quiet_trans [OF quiet_commit_fold quiet_persist, of E n "[commit_index n + 1..<length (rf_log n)]"] good
    unfolding quiet_def by blast
  then have "sim E M d i K (persist_meta ?m) n'"
    using run by (intro sim_apply_committed [OF i]) (simp_all add: update_commit_index_def Let_def)
  ultimately show ?thesis using sim_trans by blast
qed


section \<open>Replication\<close>

fun merge_log :: "nat \<Rightarrow> log_entry list \<Rightarrow> log_entry list \<Rightarrow> log_entry list" where
  "merge_log k [] log = log"
| "merge_log k (e # es) log =
     merge_log (Suc k) es
       (if k < length log then if le_term (log ! k) \<noteq> le_term e then take k log @ [e] else log else log @ [e])"

lemma append_loop_core:
  "core_of (append_loop E k es n) = core_of n\<lparr>c_log := merge_log k es (rf_log n)\<rparr>"
  "out (append_loop E k es n) = out n" "match_index (append_loop E k es n) = match_index n"
  "next_index (append_loop E k es n) = next_index n" "rf_id (append_loop E k es n) = rf_id n"
  "rf_peers (append_loop E k es n) = rf_peers n" "rf_role (append_loop E k es n) = rf_role n"
  by (induction E k es n rule: append_loop.induct)
    (auto simp: core_of_def out_def push_log_entry_def truncate_log_def)

lemma merge_log_eq:
  assumes "k \<le> length log" and "prefix (take k log @ es) l"
    and "\<And>j. j < length log \<Longrightarrow> j < length l \<Longrightarrow> le_term (log ! j) = le_term (l ! j) \<Longrightarrow> has log l j"
  shows "merge_log k es log = (if prefix (take k log @ es) log then log else take k log @ es)"
  using assms
proof (induction es arbitrary: k log)
  case Nil
  then show ?case by (simp add: take_is_prefix)
next
  case (Cons e es)
  let ?X = "take k log @ e # es"
  have l: "k < length l" "l ! k = e" using Cons.prems(1,2) by (auto simp: prefix_def nth_append)
  have ext: "merge_log (Suc k) es (take k log @ [e]) = ?X"
  proof -
    have "prefix (take k log @ [e]) l" using Cons.prems(2) by (auto simp: prefix_def)
    then have "has (take k log @ [e]) l j" if "j < length (take k log @ [e])" for j
      using prefix_has [of "take k log @ [e]" l j] that has_sym by blast
    then have "merge_log (Suc k) es (take k log @ [e]) =
        (if prefix (take (Suc k) (take k log @ [e]) @ es) (take k log @ [e]) then take k log @ [e]
         else take (Suc k) (take k log @ [e]) @ es)"
      by (intro Cons.IH) (use Cons.prems(1,2) in auto)
    moreover have "take (Suc k) (take k log @ [e]) @ es = ?X" using Cons.prems(1) by simp
    ultimately show ?thesis by (auto simp: prefix_def)
  qed
  show ?case
  proof (cases "k < length log")
    case True
    show ?thesis
    proof (cases "le_term (log ! k) = le_term e")
      case False
      have "\<not> prefix ?X log"
      proof
        assume "prefix ?X log"
        then obtain zs where "log = ?X @ zs" by (auto simp: prefix_def)
        then have "log ! k = (?X @ zs) ! k" by (rule arg_cong)
        then show False using True False by (simp add: nth_append)
      qed
      with ext True False show ?thesis by simp
    next
      case same: True
      then have "has log l k" using Cons.prems(3) [OF True] l by simp
      then have "log ! k = e" using hasD(4) [of log l k k] l(2) by simp
      then have X: "take (Suc k) log @ es = ?X" using True by (simp add: take_Suc_conv_app_nth)
      have "merge_log (Suc k) es log = (if prefix (take (Suc k) log @ es) log then log else take (Suc k) log @ es)"
        by (rule Cons.IH) (use True Cons.prems X in auto)
      with True same X show ?thesis by simp
    qed
  next
    case False
    then have k: "k = length log" using Cons.prems(1) by simp
    then have "\<not> prefix ?X log" using prefix_length_le by fastforce
    with ext k show ?thesis by simp
  qed
qed

lemma sim_follow:
  assumes i: "i \<in> mb_ids M"
    and n': "core_of n' = core_of n\<lparr>c_role := Follower, c_got := g, c_match := m\<rparr>" "out n' \<subseteq> out n" "keys_ok n \<Longrightarrow> keys_ok n'"
    and sub: "g \<subseteq> set (votes_received n)" "m \<subseteq>\<^sub>m map_of (match_index n)"
  shows "sim E M d i K n n'"
proof (rule sim_step)
  fix p :: "database proto"
  let ?p = "upd i (\<lambda>n. n\<lparr>c_role := Follower, c_got := g, c_match := m\<rparr>) p"
  assume p: "p_core p i = core_of n" "out n \<union> K \<subseteq> p_msgs p"
  have "proto_step (mb_ids M) (entry_apply E) p ?p" by (rule proto_step.Follow [OF i]) (use p sub in auto)
  moreover have "matches i n' p ?p" using p n' by (auto simp: matches_def)
  ultimately show "\<exists>p'. proto_step (mb_ids M) (entry_apply E) p p' \<and> matches i n' p p'" by blast
qed (rule n')

lemma accept_merge:
  assumes inv: "proto_inv ids D f d p" and i: "i \<in> ids"
    and msg: "AppendReq i (c_term (p_core p i)) prev pt es k \<in> p_msgs p"
    and prev: "prev < length (c_log (p_core p i))" "le_term (c_log (p_core p i) ! prev) = pt"
  shows "merge_log (Suc prev) es (c_log (p_core p i)) = accept_log prev es (c_log (p_core p i))"
proof -
  note logs = proto_invD(5) [OF inv]
  let ?log = "c_log (p_core p i)"
  obtain own l X where X: "p_lead p (c_term (p_core p i)) = Some (own, l)" "prefix X l" "X = take (Suc prev) l @ es"
    "accept_log prev es ?log = (if prefix X ?log then ?log else X)"
    "length X = Suc prev + length es"
    by (rule accept_log_cases [OF logs i msg prev])
  have agree: "has ?log l j" if "j < length ?log" "j < length l" "le_term (?log ! j) = le_term (l ! j)" for j
    by (rule log_agree [OF node_log_ok(1) [OF logs i] lead_log_ok(1) [OF logs X(1)] that])
  have "append_ok (p_lead p) i (c_term (p_core p i)) prev pt es k"
    using logs msg unfolding inv_logs_def append_ok_def by blast
  then have "prev < length l" "pt = le_term (l ! prev)" using X(1) by (auto simp: append_ok_def)
  then have "take (Suc prev) ?log = take (Suc prev) l" using agree [of prev] prev by (simp add: has_def)
  then have "X = take (Suc prev) ?log @ es" using X(3) by simp
  then show ?thesis using merge_log_eq [of "Suc prev" ?log es l] X(2,4) agree prev(1) by simp
qed

lemma sim_accept:
  assumes i: "i \<in> mb_ids M" "rf_id n = i" and role: "rf_role n = Follower"
    and a: "ae_term a = current_term n" "ae_prev_log_index a < length (rf_log n)"
      "le_term (rf_log n ! ae_prev_log_index a) = ae_prev_log_term a"
    and K: "pmsgs (i, MAppendEntries a) \<subseteq> K"
    and m: "m = append_loop E (Suc (ae_prev_log_index a)) (ae_entries a) n"
    and n': "core_of n' = core_of m\<lparr>c_commit := min (ae_leader_commit a) (length (rf_log m) - 1)\<rparr>"
      "out n' = out m \<union> {AppendAck (current_term n) i (ae_prev_log_index a + length (ae_entries a))}"
      "keys_ok m \<Longrightarrow> keys_ok n'"
  shows "sim E M d i K n n'"
proof (rule simI)
  fix p :: "database proto"
  let ?log = "merge_log (Suc (ae_prev_log_index a)) (ae_entries a) (rf_log n)"
  let ?k = "ae_prev_log_index a + length (ae_entries a)"
  let ?p = "upd i (\<lambda>n. n\<lparr>c_role := Follower, c_log := ?log, c_commit := min (ae_leader_commit a) (length ?log - 1)\<rparr>) p
         \<lparr>p_acks := p_acks p \<union> {(current_term n, i, ?k)}, p_msgs := p_msgs p \<union> {AppendAck (current_term n) i ?k}\<rparr>"
  assume inv: "proto_inv (mb_ids M) (dummy_entry E) (entry_apply E) d p"
    and p: "p_core p i = core_of n" "out n \<union> K \<subseteq> p_msgs p" and keys: "keys_ok n"
  have req: "AppendReq i (c_term (p_core p i)) (ae_prev_log_index a) (ae_prev_log_term a) (ae_entries a) (ae_leader_commit a) \<in> p_msgs p"
    using p K a(1) by auto
  have prev: "ae_prev_log_index a < length (c_log (p_core p i))"
    "le_term (c_log (p_core p i) ! ae_prev_log_index a) = ae_prev_log_term a"
    using p a by simp_all
  have step: "proto_step (mb_ids M) (entry_apply E) p ?p"
    using proto_step.Accept [OF i(1) refl req prev refl, of "entry_apply E"] accept_merge [OF inv i(1) req prev] p(1)
    by simp
  have "rf_log m = ?log" using arg_cong [OF append_loop_core(1), of c_log] m by simp
  moreover have "core_of n\<lparr>c_role := Follower, c_log := x, c_commit := y\<rparr> = core_of n\<lparr>c_log := x, c_commit := y\<rparr>" for x y
    using role by (simp add: core_of_def)
  ultimately have "matches i n' p ?p" using p n' by (auto simp: matches_def m append_loop_core)
  moreover have "keys_ok m" using keys role by (simp add: keys_ok_def m append_loop_core)
  ultimately show "keys_ok n' \<and> (\<exists>p'. reaches E M p p' \<and> matches i n' p p')" using n'(3) step by blast
qed


lemma append_entries_cases:
  assumes run: "handle_append_entries E a now n = Inr (m, r)"
    and N: "N = (if ae_term a > current_term n then step_down (ae_term a) now n else n)"
    and F: "F = reset_election_timeout now (N\<lparr>rf_role := Follower, leader_id := Some (ae_leader_id a)\<rparr>)"
    and L: "L = append_loop E (Suc (ae_prev_log_index a)) (ae_entries a) F"
  obtains "m = n" and "\<not> ar_success r"
  | "\<not> ae_term a < current_term n" and "m = F" and "\<not> ar_success r"
  | "\<not> ae_term a < current_term n" and "ae_prev_log_index a < length (rf_log F)"
      and "le_term (rf_log F ! ae_prev_log_index a) = ae_prev_log_term a"
      and "apply_committed_entries E
        (persist_meta (L\<lparr>commit_index := min (ae_leader_commit a) (length (rf_log L) - 1)\<rparr>)) = Inr m"
      and "r = append_reply m True (ae_prev_log_index a + length (ae_entries a))"
proof (cases "ae_term a < current_term n")
  case True
  with run that(1) show thesis by (auto simp: handle_append_entries_def append_reply_def)
next
  case False
  have run': "(if ae_prev_log_index a \<ge> length (rf_log F) then Inr (F, append_reply F False (last_index F))
        else if le_term (rf_log F ! ae_prev_log_index a) \<noteq> ae_prev_log_term a
        then Inr (F, append_reply F False (last_index F))
        else
          let k = ae_prev_log_index a + length (ae_entries a);
              n = L\<lparr>commit_index := min (ae_leader_commit a) (length (rf_log L) - 1)\<rparr>;
              n = persist_meta n in
          and_then (apply_committed_entries E n) (\<lambda>n. Inr (n, append_reply n True k))) = Inr (m, r)"
    using run unfolding handle_append_entries_def N [symmetric] F [symmetric] Let_def L Suc_eq_plus1
    by (simp only: False if_False)
  show thesis
    using run' that(2,3) [OF False] by (auto simp: Let_def and_then_eq_Inr append_reply_def split: if_splits)
qed

lemma sim_append_entries:
  assumes i: "i \<in> mb_ids M" "rf_id n = i" and good: "node_good E n" and es: "list_all (entry_good E) (ae_entries a)"
    and K: "pmsgs (i, MAppendEntries a) \<subseteq> K" and run: "handle_append_entries E a now n = Inr (m, r)"
  shows "sim E M d i K n (push_outbox (ae_leader_id a) (MAppendEntriesResponse r) m)"
proof -
  define N where N: "N = (if ae_term a > current_term n then step_down (ae_term a) now n else n)"
  define F where F: "F = reset_election_timeout now (N\<lparr>rf_role := Follower, leader_id := Some (ae_leader_id a)\<rparr>)"
  define L where L: "L = append_loop E (Suc (ae_prev_log_index a)) (ae_entries a) F"
  define C where C: "C = persist_meta (L\<lparr>commit_index := min (ae_leader_commit a) (length (rf_log L) - 1)\<rparr>)"
  have down: "sim E M d i K n N" using sim_step_down [OF i(1)] by (auto simp: N intro: sim_same)
  have follow: "sim E M d i K N F"
    by (rule sim_follow [OF i(1), where g = "set (votes_received N)" and m = "map_of (match_index N)"])
      (auto simp: F core_of_def out_def reset_election_timeout_def keys_ok_def split: option.splits)
  have qN: "quiet E (if ae_term a > current_term n then down (ae_term a) n else n) N"
    using quiet_step_down by (auto simp: N)
  have goodN: "log_good E N" and idN: "rf_id N = i"
    using qN good i(2) by (auto simp: quiet_def node_good_def down_def persist_meta_def log_good_def split: if_splits)
  have "log_good E F" "rf_id F = i" using goodN idN by (auto simp: F log_good_def)
  then have goodL: "log_good E L" "rf_id L = i" "current_term L = current_term F"
    using quiet_append_loop [OF es, of F "Suc (ae_prev_log_index a)"] by (auto simp: L quiet_def)
  show ?thesis
    using run N F L
  proof (cases rule: append_entries_cases)
    case 1
    then show ?thesis by (auto intro: sim_push)
  next
    case 2
    then show ?thesis using sim_trans [OF down sim_trans [OF follow sim_push]] by simp
  next
    case 3
    have same: "ae_term a = current_term F"
      using 3(1) qN by (auto simp: F N quiet_def down_def persist_meta_def split: if_splits)
    have goodC: "log_good E C" using goodL(1) by (simp add: C log_good_def persist_meta_def)
    have q: "quiet E C m" using quiet_apply_committed [OF 3(4) [folded C] goodC] .
    have r: "r = append_reply C True (ae_prev_log_index a + length (ae_entries a))"
      using q 3(5) by (simp add: append_reply_def quiet_def)
    have "sim E M d i K F (push_outbox (ae_leader_id a) (MAppendEntriesResponse r) C)"
    proof (rule sim_accept [OF i(1) _ _ same 3(2,3) K L])
      have "core_of C = core_of (L\<lparr>commit_index := min (ae_leader_commit a) (length (rf_log L) - 1)\<rparr>)" "out C = out L"
        "keys_ok C = keys_ok L" by (simp_all add: C out_def keys_ok_def persist_meta_def core_of_def)
      moreover have "core_of (L\<lparr>commit_index := x\<rparr>) = core_of L\<lparr>c_commit := x\<rparr>" for x by (simp add: core_of_def)
      ultimately show "core_of (push_outbox (ae_leader_id a) (MAppendEntriesResponse r) C) =
          core_of L\<lparr>c_commit := min (ae_leader_commit a) (length (rf_log L) - 1)\<rparr>"
        and "keys_ok L \<Longrightarrow> keys_ok (push_outbox (ae_leader_id a) (MAppendEntriesResponse r) C)"
        and "out (push_outbox (ae_leader_id a) (MAppendEntriesResponse r) C) =
          out L \<union> {AppendAck (current_term F) i (ae_prev_log_index a + length (ae_entries a))}"
        using goodL(2,3) by (simp_all add: r append_reply_def C persist_meta_def)
    qed (use \<open>rf_id F = i\<close> in \<open>simp_all add: F\<close>)
    moreover have "sim E M d i K (push_outbox (ae_leader_id a) (MAppendEntriesResponse r) C)
        (push_outbox (ae_leader_id a) (MAppendEntriesResponse r) m)"
      by (rule sim_push_both, rule sim_apply_committed [OF i(1) 3(4) [folded C] goodC])
    ultimately show ?thesis using down follow sim_trans by blast
  qed
qed

lemma sim_learn:
  assumes i: "i \<in> mb_ids M" "rf_id n = i" and n: "rf_role n = Leader" "rf_peers n = mb_peers M i"
    and M: "membership_ok M" and K: "AppendAck (current_term n) v k \<in> K"
    and n': "n' = n\<lparr>match_index := AList.update v k (match_index n), next_index := AList.update v (k + 1) (next_index n)\<rparr>"
  shows "sim E M d i K n n'"
proof (rule simI)
  fix p :: "database proto"
  let ?p = "upd i (\<lambda>n. n\<lparr>c_match := (c_match n)(v \<mapsto> k)\<rparr>) p"
  assume inv: "proto_inv (mb_ids M) (dummy_entry E) (entry_apply E) d p"
    and p: "p_core p i = core_of n" "out n \<union> K \<subseteq> p_msgs p" and keys: "keys_ok n"
  have ack: "AppendAck (c_term (p_core p i)) v k \<in> p_msgs p" "c_role (p_core p i) = Leader" using p K n(1) by auto
  have l: "p_lead p (current_term n) = Some (i, rf_log n)"
    using inv_leadD(7) [OF proto_invD(4) [OF inv] i(1) ack(2)] p(1) by simp
  obtain own l' where "(current_term n, v, k) \<in> p_acks p" "p_lead p (current_term n) = Some (own, l')" "own \<noteq> v"
    using proto_invD(6) [OF inv] ack(1) p(1) unfolding inv_acks_def by (metis core_simps(1))
  then have v: "v \<noteq> i" "(current_term n, v, k) \<in> p_acks p" using l by auto
  then have "k < length (rf_log n)" using inv_acksD(3) [OF proto_invD(6) [OF inv] v(2)] l by auto
  then have "keys_ok n'"
    using keys v(1) i(2) by (auto simp: keys_ok_def n' distinct_update set_update_fst map_of_update)
  moreover have "proto_step (mb_ids M) (entry_apply E) p ?p"
    by (rule proto_step.Learn [OF i(1) refl ack(2,1)])
  moreover have "matches i n' p ?p" using p by (auto simp: matches_def n' core_of_def out_def map_of_update)
  ultimately show "keys_ok n' \<and> (\<exists>p'. reaches E M p p' \<and> matches i n' p p')" by blast
qed


text \<open>What is fixed about a node of the cluster.\<close>

definition member :: "'x raft_ext_scheme \<Rightarrow> membership \<Rightarrow> node_id \<Rightarrow> raft_node \<Rightarrow> bool" where
  "member E M i n \<longleftrightarrow> i \<in> mb_ids M \<and> membership_ok M \<and> rf_id n = i \<and> rf_peers n = mb_peers M i \<and> node_good E n"

lemma memberD:
  assumes "member E M i n"
  shows "i \<in> mb_ids M" "membership_ok M" "rf_id n = i" "rf_peers n = mb_peers M i" "log_good E n" "i \<notin> set (rf_peers n)"
    "node_good E n"
  using assms by (auto simp: member_def node_good_def membership_ok_def)

lemma sim_append_response:
  assumes n: "member E M i n" and K: "pmsgs (i, MAppendEntriesResponse r) \<subseteq> K"
    and run: "handle_append_entries_response E r now n = Inr n'"
  shows "sim E M d i K n n'"
proof (cases "ar_term r = current_term n \<and> rf_role n = Leader")
  case False
  then have "n' = step_down (ar_term r) now n \<and> current_term n < ar_term r \<or> n' = n"
    using run by (auto simp: handle_append_entries_response_def split: if_splits)
  then show ?thesis using sim_step_down [OF memberD(1) [OF n]] sim_same by blast
next
  case True
  note D = memberD [OF n]
  let ?v = "ar_follower_id r"
  show ?thesis
  proof (cases "ar_success r")
    case yes: True
    let ?m = "n\<lparr>match_index := AList.update ?v (ar_match_index r) (match_index n),
        next_index := AList.update ?v (ar_match_index r + 1) (next_index n)\<rparr>"
    have upd: "update_commit_index E ?m = Inr n'"
      using run True yes by (simp add: handle_append_entries_response_def Let_def)
    have "sim E M d i K ?m n'"
      by (rule sim_update_commit [OF D(2,1) _ _ _ upd]) (use D True in \<open>simp_all add: log_good_def\<close>)
    moreover have "sim E M d i K n ?m"
      by (rule sim_learn [OF D(1,3) _ D(4,2) _ refl]) (use K True yes in simp_all)
    ultimately show ?thesis using sim_trans by blast
  next
    case no: False
    obtain k where k: "map_of (next_index n) ?v = Some k"
      using run True no by (cases "map_of (next_index n) ?v") (auto simp: handle_append_entries_response_def Let_def panic_def)
    let ?m = "n\<lparr>next_index := AList.update ?v (if k > 1 then k - 1 else k) (next_index n)\<rparr>"
    have send: "send_append_entries ?v ?m = Inr n'"
      using run True no k by (simp add: handle_append_entries_response_def Let_def split del: if_split)
    have in_keys: "?v \<in> fst ` set (next_index n)" using k by (force dest: map_of_SomeD)
    have less: "sim E M d i K n ?m"
    proof (rule sim_same)
      assume keys: "keys_ok n"
      then have "rf_id n \<noteq> ?v" using in_keys by (metis keys_ok_def)
      then show "keys_ok ?m" using keys k by (auto simp: keys_ok_def set_update_fst map_of_update)
    qed (simp_all add: core_of_def out_def)
    have "sim E M d i K n n'" if "?v \<noteq> i"
      using sim_trans [OF less] sim_send [OF D(1) that _ send, of E d K] True by simp
    moreover have "sim E M d i K n n'" if "?v = i"
      unfolding sim_def using in_keys that D(3) by (auto simp: keys_ok_def)
    ultimately show ?thesis by blast
  qed
qed

lemma sim_propose:
  assumes i: "i \<in> mb_ids M" and role: "rf_role n = Leader" and e: "le_term e = current_term n"
  shows "sim E M d i K n (push_log_entry E e n)"
proof (rule sim_step)
  fix p :: "database proto"
  let ?p = "upd i (\<lambda>n. n\<lparr>c_log := c_log n @ [e]\<rparr>) p\<lparr>p_lead := (p_lead p)(current_term n \<mapsto> (i, rf_log n @ [e])),
          p_acks := p_acks p \<union> {(current_term n, i, length (rf_log n))}\<rparr>"
  assume p: "p_core p i = core_of n" "out n \<union> K \<subseteq> p_msgs p"
  have "proto_step (mb_ids M) (entry_apply E) p ?p"
    using proto_step.Propose [OF i refl, of p e "entry_apply E"] p(1) role e by simp
  moreover have "matches i (push_log_entry E e n) p ?p" using p by (auto simp: matches_def core_of_def out_def push_log_entry_def)
  ultimately show "\<exists>p'. proto_step (mb_ids M) (entry_apply E) p p' \<and> matches i (push_log_entry E e n) p p'" by blast
qed (rule keys_ok_fields; simp add: push_log_entry_def)

lemma sim_append_command:
  assumes n: "member E M i n" and c: "command_good E c" and run: "append_command E c n = Inr (n', k)"
  shows "sim E M d i K n n'"
proof -
  note D = memberD [OF n]
  have role: "rf_role n = Leader" using run by (auto simp: append_command_def panic_def split: if_splits)
  let ?e = "\<lparr>le_term = current_term n, le_payload = PCommand (log_record_new E 0 c)\<rparr>"
  let ?m = "push_log_entry E ?e n"
  have m: "rf_role ?m = Leader" "rf_peers ?m = mb_peers M i" "i \<notin> set (rf_peers ?m)"
    using role D by (simp_all add: push_log_entry_def)
  have good: "log_good E ?m" using quiet_push_log [of E ?e n] c D(5) by (simp add: command_good_def quiet_def)
  have run': "(if rf_peers ?m = [] then update_commit_index E ?m else send_all (rf_peers ?m) ?m) = Inr n'"
    using run role by (auto simp: append_command_def Let_def and_then_eq_Inr split: if_splits)
  have "sim E M d i K ?m n'"
  proof (cases "rf_peers ?m = []")
    case True
    show ?thesis by (rule sim_update_commit [OF D(2,1) m(2,1) good]) (use run' True in simp)
  next
    case False
    then have "send_all (rf_peers ?m) ?m = Inr n'" using run' by simp
    then show ?thesis using sim_send_all [OF D(1) m(3,1), of n' E d K] by blast
  qed
  moreover have "sim E M d i K n ?m" by (rule sim_propose [OF D(1) role]) simp
  ultimately show ?thesis using sim_trans by blast
qed

lemma sim_store_request:
  assumes n: "member E M i n" and q: "request_good E q" and run: "handle_store_request E q now n = Inr n'"
  shows "sim E M d i K n n'"
proof -
  have wr: "sim E M d i K n n'" if w: "command_good E c" "submit_store_write E c rsp n = Inr n'" for c rsp
  proof (cases "rf_role n = Leader")
    case True
    obtain m k where m: "append_command E c n = Inr (m, k)"
      using w(2) True by (auto simp: submit_store_write_def and_then_eq_Inr)
    have n': "(\<exists>t l. n' = respond rsp True None (committed_message k) l t m) \<or> (\<exists>ps. n' = m\<lparr>pending_requests := ps\<rparr>)"
      using w(2) True m by (auto simp: submit_store_write_def Let_def panic_def split: if_splits)
    have n': "core_of n' = core_of m" "out n' = out m" "keys_ok n' = keys_ok m"
      using n' by (auto, auto simp: core_of_def out_def keys_ok_def)
    have "sim E M d i K m n'" by (rule sim_same) (use n' in auto)
    with sim_trans [OF sim_append_command [OF n w(1) m]] show ?thesis .
  next
    case False
    then have "core_of n' = core_of n" "out n' = out n" "keys_ok n' = keys_ok n"
      using w(2) by (auto simp: submit_store_write_def)
    then show ?thesis by (intro sim_same) auto
  qed
  have same: "sim E M d i K n (respond rsp b v m l t n)" for rsp b v m l t by (rule sim_same) auto
  show ?thesis
    using run q wr same
    by (cases "sr_operation q") (auto simp: handle_store_request_def request_good_def split: sum.splits)
qed

lemma sim_forward: "pmsgs (to, m) = {} \<Longrightarrow> sim E M d i K n (forward_to_leader m n)" if "\<And>to. pmsgs (to, m) = {}"
  using that by (auto simp: forward_to_leader_def split: option.split intro: sim_same sim_push)

lemma sim_handle_message:
  assumes n: "member E M i n" and votes: "node_votes V n" and msg: "msg_good E m" and K: "pmsgs (i, m) \<subseteq> K"
    and t: "m = MTimeout \<Longrightarrow> current_term n \<noteq> - 1" and run: "handle_message E m now n = Inr n'"
  shows "sim E M d i K n n'"
proof -
  note D = memberD [OF n]
  have same: "sim E M d i K n n" by (rule sim_same) auto
  show ?thesis
  proof (cases m)
    case (MRequestVote q)
    then obtain k r where "handle_request_vote q now n = Inr (k, r)" "n' = push_outbox (rv_candidate_id q) (MRequestVoteResponse r) k"
      using run by (auto simp: handle_message_def and_then_eq_Inr)
    with sim_request_vote [OF D(1,3)] K MRequestVote show ?thesis by blast
  next
    case (MRequestVoteResponse r)
    with sim_vote_response [OF D(2,1,3,4) votes] K run show ?thesis by (simp add: handle_message_def)
  next
    case (MAppendEntries a)
    then obtain k r where "handle_append_entries E a now n = Inr (k, r)" "n' = push_outbox (ae_leader_id a) (MAppendEntriesResponse r) k"
      using run by (auto simp: handle_message_def and_then_eq_Inr)
    with sim_append_entries [OF D(1,3,7)] K msg MAppendEntries show ?thesis by (metis msg_good.simps(1))
  next
    case (MAppendEntriesResponse r)
    with sim_append_response [OF n] K run show ?thesis by (simp add: handle_message_def)
  next
    case (MClientCommand c)
    show ?thesis
    proof (cases "rf_role n = Leader")
      case True
      then obtain k where "append_command E c n = Inr (n', k)"
        using run MClientCommand by (auto simp: handle_message_def and_then_eq_Inr)
      with sim_append_command [OF n] msg MClientCommand show ?thesis by (metis msg_good.simps(2))
    next
      case False
      then show ?thesis using run MClientCommand sim_forward [of m] by (auto simp: handle_message_def)
    qed
  next
    case (MClientRequest r)
    show ?thesis
      by (rule sim_store_request [OF n _ run [unfolded handle_message_def MClientRequest message.case]])
        (use msg MClientRequest in \<open>cases "cr_command r"; simp add: request_good_def\<close>)
  next
    case (MClientQuery r)
    show ?thesis
      by (rule sim_store_request [OF n _ run [unfolded handle_message_def MClientQuery message.case]])
        (simp add: request_good_def)
  next
    case (MStatusQuery r)
    show ?thesis
      by (rule sim_store_request [OF n _ run [unfolded handle_message_def MStatusQuery message.case]])
        (simp add: request_good_def)
  next
    case MTimeout
    then show ?thesis using run t sim_start_election [OF D(2,1,3,4)] by (simp add: handle_message_def)
  qed (use msg run same in \<open>auto simp: handle_message_def\<close>)
qed

lemma sim_tick:
  assumes n: "member E M i n" and t: "rf_role n \<noteq> Leader \<and> now \<ge> election_deadline n \<longrightarrow> current_term n \<noteq> - 1"
    and run: "tick now n = Inr n'"
  shows "sim E M d i K n n'"
proof -
  note D = memberD [OF n]
  have same: "sim E M d i K n n" by (rule sim_same) auto
  have "sim E M d i K n n'" if "rf_role n = Leader" "send_heartbeats n = Inr m" "n' = m\<lparr>heartbeat_deadline := x\<rparr>" for m x
  proof -
    have "sim E M d i K n m" using sim_send_all [OF D(1,6) that(1), of m E d K] that(2) by (simp add: send_heartbeats_def)
    moreover have "sim E M d i K m n'" by (rule sim_same) (simp_all add: that(3) core_of_def out_def keys_ok_def)
    ultimately show ?thesis using sim_trans by blast
  qed
  then show ?thesis
    using run same sim_start_election [OF D(2,1,3,4)] t by (auto simp: tick_def and_then_eq_Inr split: if_splits)
qed

lemma sim_restart:
  assumes i: "i \<in> mb_ids M"
  shows "sim E M d i K n (restart now n)"
  by (rule sim_follow [OF i, where g = "{}" and m = Map.empty])
    (auto simp: restart_def core_of_def out_def keys_ok_def reset_election_timeout_def map_le_def split: option.splits)


section \<open>Live clusters\<close>

text \<open>
  A state of a live cluster is related to the state of the protocol with the same cores, whose
  messages include those under way and those in the outboxes.
\<close>

definition abstracts :: "'x raft_ext_scheme \<Rightarrow> membership \<Rightarrow> database \<Rightarrow> cluster \<Rightarrow> database proto \<Rightarrow> bool" where
  "abstracts E M d c p \<longleftrightarrow>
     proto_inv (mb_ids M) (dummy_entry E) (entry_apply E) d p \<and>
     (\<forall>i \<in> mb_ids M. p_core p i = core_of (cl_nodes c i) \<and> out (cl_nodes c i) \<subseteq> p_msgs p \<and> keys_ok (cl_nodes c i)) \<and>
     \<Union> (pmsgs ` cl_net c) \<subseteq> p_msgs p"

lemma abstracts_sim:
  assumes abs: "abstracts E M d c p" and i: "i \<in> mb_ids M" and K: "K \<subseteq> p_msgs p" and sim: "sim E M d i K (cl_nodes c i) n"
  obtains p' where "reaches E M p p'" and "abstracts E M d (set_node i n c) p'"
proof -
  have inv: "proto_inv (mb_ids M) (dummy_entry E) (entry_apply E) d p"
    and node: "p_core p i = core_of (cl_nodes c i)" "out (cl_nodes c i) \<union> K \<subseteq> p_msgs p" "keys_ok (cl_nodes c i)"
    using abs i K by (auto simp: abstracts_def)
  obtain p' where p': "reaches E M p p'" "matches i n p p'" "keys_ok n" by (rule simD [OF sim inv node])
  have grow: "p_msgs p \<subseteq> p_msgs p'" using p'(2) by (simp add: matches_def)
  have "p_core p' j = core_of (cl_nodes (set_node i n c) j) \<and> out (cl_nodes (set_node i n c) j) \<subseteq> p_msgs p' \<and>
      keys_ok (cl_nodes (set_node i n c) j)" if "j \<in> mb_ids M" for j
  proof (cases "j = i")
    case True
    then show ?thesis using p'(2,3) by (simp add: matches_def)
  next
    case False
    then have "p_core p j = core_of (cl_nodes c j)" "out (cl_nodes c j) \<subseteq> p_msgs p" "keys_ok (cl_nodes c j)"
      using abs that by (simp_all add: abstracts_def)
    with False grow p'(2) show ?thesis by (auto simp: matches_def)
  qed
  moreover have "\<Union> (pmsgs ` cl_net (set_node i n c)) \<subseteq> p_msgs p'" using abs grow unfolding abstracts_def set_node_simps by blast
  ultimately have "abstracts E M d (set_node i n c) p'"
    using proto_steps_inv [OF p'(1) inv] unfolding abstracts_def by blast
  with p'(1) that show thesis by blast
qed

lemma live_step_abstracts:
  assumes step: "live_step E M c c'" and M: "membership_ok M" and inv: "cluster_inv E M c" and abs: "abstracts E M d c p"
  shows "\<exists>p'. reaches E M p p' \<and> abstracts E M d c' p'"
proof -
  have node: "member E M i (cl_nodes c i)" "node_votes (cl_votes c) (cl_nodes c i)" if "i \<in> mb_ids M" for i
    using inv that M by (auto simp: cluster_inv_def nodes_valid_def member_def)
  have good: "msg_good E m" and net: "pmsgs (i, m) \<subseteq> p_msgs p" if "(i, m) \<in> cl_net c" for i m
    using inv abs that by (auto simp: cluster_inv_def message_ok_def abstracts_def)
  show ?thesis
    using step
  proof cases
    case (Deliver i m now n)
    have "sim E M d i (pmsgs (i, m)) (cl_nodes c i) n"
      by (rule sim_handle_message [OF node [OF Deliver(2)] good [OF Deliver(3)] _ _ Deliver(5)]) (use Deliver in auto)
    from abstracts_sim [OF abs Deliver(2) net [OF Deliver(3)] this] Deliver(1) show ?thesis by blast
  next
    case (Client i m now n)
    have "sim E M d i {} (cl_nodes c i) n"
      by (rule sim_handle_message [OF node [OF Client(2)] Client(4) _ _ Client(5)]) (use Client(3) in \<open>cases m; simp\<close>)+
    from abstracts_sim [OF abs Client(2) _ this] Client(1) show ?thesis by blast
  next
    case (Request i q now n)
    have "sim E M d i {} (cl_nodes c i) n" by (rule sim_store_request [OF node(1) [OF Request(2)] Request(3,4)])
    from abstracts_sim [OF abs Request(2) _ this] Request(1) show ?thesis by blast
  next
    case (Tick i now n)
    have "sim E M d i {} (cl_nodes c i) n" by (rule sim_tick [OF node(1) [OF Tick(2)] Tick(3,4)])
    from abstracts_sim [OF abs Tick(2) _ this] Tick(1) show ?thesis by blast
  next
    case (Send i sent)
    let ?n = "cl_nodes c i\<lparr>rf_outbox := []\<rparr>"
    have n: "core_of ?n = core_of (cl_nodes c i)" "out ?n = {}" "keys_ok ?n = keys_ok (cl_nodes c i)"
      by (simp_all add: core_of_def out_def keys_ok_def)
    have "out (cl_nodes c i) \<subseteq> p_msgs p" using abs Send(2) by (simp add: abstracts_def)
    then have "pmsgs x \<subseteq> p_msgs p" if "x \<in> set sent" for x
      using Send(3) that unfolding out_def by blast
    then have "abstracts E M d c' p" using abs Send(1) by (auto simp: abstracts_def n)
    then show ?thesis by blast
  next
    case (Restart i now)
    have "sim E M d i {} (cl_nodes c i) (restart now (cl_nodes c i))" by (rule sim_restart [OF Restart(2)])
    from abstracts_sim [OF abs Restart(2) _ this] Restart(1) show ?thesis by blast
  next
    case (Elect i now n)
    note D = memberD [OF node(1) [OF Elect(2)]]
    have "sim E M d i {} (cl_nodes c i) n" by (rule sim_start_election [OF D(2,1,3,4) Elect(3,4)])
    from abstracts_sim [OF abs Elect(2) _ this] Elect(1) show ?thesis by blast
  next
    case (Configure i timeout now)
    have "sim E M d i {} (cl_nodes c i) (set_election_timeout timeout now (cl_nodes c i))"
      by (rule sim_same) (simp_all add: set_election_timeout_def core_of_def out_def keys_ok_def)
    from abstracts_sim [OF abs Configure(2) _ this] Configure(1) show ?thesis by blast
  qed
qed


lemma new_node_core:
  assumes "new_in_dir E [] i peers cfg now rand = Inr n"
  shows "open_in_dir E [] cfg = Inr (rf_db n)"
    "core_of n = \<lparr>c_term = 0, c_vote = None, c_role = Follower, c_got = {}, c_log = [dummy_entry E], c_commit = 0,
                    c_applied = 0, c_match = Map.empty, c_state = rf_db n\<rparr>"
    "out n = {}" "keys_ok n"
proof -
  have ls: "log_store_open E [] = (\<lparr>ls_file = [], ls_offsets = []\<rparr>, [])"
    by (simp add: log_store_open_def open_loop.simps read_short)
  have meta: "meta_open [] = meta_default" by (simp add: meta_open_def META_SIZE_def read_exact_def)
  obtain db where db: "open_in_dir E [] cfg = Inr db"
    using assms by (cases "open_in_dir E [] cfg") (auto simp: new_in_dir_def file_or_empty_def ls meta panic_def)
  note new = new_in_dir_def file_or_empty_def ls meta meta_default_def db reset_election_timeout_def
  show "open_in_dir E [] cfg = Inr (rf_db n)"
    using assms by (auto simp: new)
  show "core_of n = \<lparr>c_term = 0, c_vote = None, c_role = Follower, c_got = {}, c_log = [dummy_entry E], c_commit = 0,
                    c_applied = 0, c_match = Map.empty, c_state = rf_db n\<rparr>" "out n = {}" "keys_ok n"
    using assms by (auto simp: new core_of_def out_def keys_ok_def)
qed

lemma init_abstracts:
  assumes init: "cluster_init E M c" and M: "membership_ok M" and i: "i \<in> mb_ids M"
  shows "abstracts E M (rf_db (cl_nodes c i)) c (proto_init (mb_ids M) (dummy_entry E) (rf_db (cl_nodes c i)))"
proof -
  have new: "\<exists>now rand. new_in_dir E [] j (mb_peers M j) (mb_config M) now rand = Inr (cl_nodes c j)" if "j \<in> mb_ids M" for j
    using init that by (simp add: cluster_init_def)
  have opened: "open_in_dir E [] (mb_config M) = Inr (rf_db (cl_nodes c j))" if "j \<in> mb_ids M" for j
    using new [OF that] by (blast dest: new_node_core(1))
  have db: "rf_db (cl_nodes c j) = rf_db (cl_nodes c i)" if "j \<in> mb_ids M" for j
    using opened [OF that] opened [OF i] by simp
  have "core_of (cl_nodes c j) = p_core (proto_init (mb_ids M) (dummy_entry E) (rf_db (cl_nodes c i))) j \<and>
      out (cl_nodes c j) = {} \<and> keys_ok (cl_nodes c j)" if j: "j \<in> mb_ids M" for j
  proof -
    obtain now rand where "new_in_dir E [] j (mb_peers M j) (mb_config M) now rand = Inr (cl_nodes c j)" using new [OF j] by blast
    from new_node_core(2-4) [OF this] show ?thesis by (simp add: proto_init_def db [OF j])
  qed
  moreover have "proto_inv (mb_ids M) (dummy_entry E) (entry_apply E) (rf_db (cl_nodes c i))
      (proto_init (mb_ids M) (dummy_entry E) (rf_db (cl_nodes c i)))"
    using M by (intro proto_init_inv) (auto simp: membership_ok_def dummy_entry_def)
  ultimately show ?thesis using init by (auto simp: abstracts_def cluster_init_def)
qed

lemma live_reach_abstracts:
  assumes "live_reach E M c" and M: "membership_ok M" and dummy: "entry_good E (dummy_entry E)"
    and ids: "mb_ids M \<noteq> {}"
  shows "\<exists>d p. reaches E M (proto_init (mb_ids M) (dummy_entry E) d) p \<and>
    open_in_dir E [] (mb_config M) = Inr d \<and> abstracts E M d c p"
  using assms(1)
proof (induction rule: live_reach.induct)
  case (Init c)
  obtain i where i: "i \<in> mb_ids M" using ids by blast
  obtain now rand where "new_in_dir E [] i (mb_peers M i) (mb_config M) now rand = Inr (cl_nodes c i)"
    using Init i by (auto simp: cluster_init_def)
  from new_node_core(1) [OF this] init_abstracts [OF Init M i] show ?case by blast
next
  case (Step c c')
  then obtain d p where p: "reaches E M (proto_init (mb_ids M) (dummy_entry E) d) p" "open_in_dir E [] (mb_config M) = Inr d"
    "abstracts E M d c p" by blast
  have "cluster_inv E M c" by (rule cluster_reach_inv [OF live_reach_cluster [OF Step(1)] M dummy])
  from live_step_abstracts [OF Step(2) M this p(3)] p(1,2) show ?case by (meson rtranclp_trans)
qed

end
