(* ===== verification/Raft_Safety.thy ===== *)
theory Raft_Safety
  imports Raft_Refinement
begin

text \<open>
  What the refinement gives for a cluster of Raft nodes and the databases they keep: the logs
  match, leaders are complete, the nodes apply the same entries in the same order, and a read
  at a node returns what the applied part of its log says.
\<close>

section \<open>Nodes of a live cluster\<close>

lemma live_reach_cores:
  assumes "live_reach E M c" and "membership_ok M" and "entry_good E (dummy_entry E)" and "mb_ids M \<noteq> {}"
  obtains d p where "open_in_dir E [] (mb_config M) = Inr d"
    and "proto_inv (mb_ids M) (dummy_entry E) (entry_apply E) d p"
    and "\<forall>i \<in> mb_ids M. p_core p i = core_of (cl_nodes c i)"
  using live_reach_abstracts [OF assms] that by (auto simp: abstracts_def)

section \<open>What a log says\<close>

text \<open>The map that a sequence of commands makes, and that the database can take them one by one.\<close>

fun command_map :: "command \<Rightarrow> (rstring \<rightharpoonup> val) \<Rightarrow> rstring \<rightharpoonup> val" where
  "command_map (CmdSet key v) m = m(key \<mapsto> v)"
| "command_map (CmdDelete key) m = m(key := None)"

fun entry_map :: "log_entry \<Rightarrow> (rstring \<rightharpoonup> val) \<Rightarrow> rstring \<rightharpoonup> val" where
  "entry_map e m = (case le_payload e of PCommand r \<Rightarrow> command_map (lr_command r) m | _ \<Rightarrow> m)"

definition entry_fits :: "'x ext_scheme \<Rightarrow> log_entry \<Rightarrow> database \<Rightarrow> bool" where
  "entry_fits E e db \<longleftrightarrow>
     (case le_payload e of
        PCommand r \<Rightarrow>
          command_ok E (lr_command r) \<and> write_fits E (command_key (lr_command r)) (command_entry (lr_command r)) db
      | _ \<Rightarrow> True)"

fun log_fits :: "'x raft_ext_scheme \<Rightarrow> log_entry list \<Rightarrow> database \<Rightarrow> bool" where
  "log_fits E [] db = True"
| "log_fits E (e # es) db = (entry_fits E e db \<and> log_fits E es (entry_apply E e db))"

lemma entry_apply_run:
  assumes "db_run E db m" and "entry_fits E e db"
  shows "db_run E (entry_apply E e db) (entry_map e m)"
proof (cases "le_payload e")
  case (PCommand r)
  show ?thesis
  proof (cases "lr_command r")
    case (CmdSet key v)
    obtain db' res where "db_insert E key v db = (db', res)" by fastforce
    with run_insert [OF assms(1)] assms(2) PCommand CmdSet show ?thesis by (auto simp: entry_apply_def entry_fits_def)
  next
    case (CmdDelete key)
    obtain db' res where "db_delete E key db = (db', res)" by fastforce
    with run_delete [OF assms(1)] assms(2) PCommand CmdDelete show ?thesis by (auto simp: entry_apply_def entry_fits_def)
  qed
qed (use assms in \<open>simp_all add: entry_apply_def\<close>)

lemma log_run:
  "db_run E db m \<Longrightarrow> log_fits E es db \<Longrightarrow> db_run E (fold (entry_apply E) es db) (fold entry_map es m)"
  by (induction es arbitrary: db m) (auto dest: entry_apply_run)

text \<open>The database of a node is one that a client could make by the applied entries of the node's log.\<close>

lemma replica_run:
  assumes "live_reach E M c" and "membership_ok M" and "entry_good E (dummy_entry E)" and i: "i \<in> mb_ids M"
    and cfg: "bloom_sizing_ok E" "config_ok (mb_config M)"
    and fits: "\<forall>d. open_in_dir E [] (mb_config M) = Inr d \<longrightarrow>
      log_fits E (take (last_applied (cl_nodes c i)) (tl (rf_log (cl_nodes c i)))) d"
  shows "db_run E (rf_db (cl_nodes c i))
    (fold entry_map (take (last_applied (cl_nodes c i)) (tl (rf_log (cl_nodes c i)))) Map.empty)"
proof -
  let ?es = "take (last_applied (cl_nodes c i)) (tl (rf_log (cl_nodes c i)))"
  have "mb_ids M \<noteq> {}" using i by blast
  from live_reach_cores [OF assms(1-3) this] obtain d p
    where d: "open_in_dir E [] (mb_config M) = Inr d" and inv: "proto_inv (mb_ids M) (dummy_entry E) (entry_apply E) d p"
      and core: "\<forall>i \<in> mb_ids M. p_core p i = core_of (cl_nodes c i)" .
  have "rf_db (cl_nodes c i) = fold (entry_apply E) ?es d"
    using node_safeD [OF proto_invD(9) [OF inv] i] core i by (simp add: node_safe_def core_of_def)
  moreover have "db_run E (fold (entry_apply E) ?es d) (fold entry_map ?es Map.empty)"
    by (rule log_run [OF run_start [OF cfg d]]) (use fits d in blast)
  ultimately show ?thesis by simp
qed

section \<open>A run\<close>

text \<open>
  For the witnesses: after its election node 1 takes a command of a client, replicates it to
  node 2, commits it and sends its commit index to node 2.
\<close>

definition sample_command :: command where
  "sample_command = CmdSet [107] (VInt 5)"

definition sample_write :: log_entry where
  "sample_write = \<lparr>le_term = 1, le_payload = PCommand (log_record_new sample_raft_ext 0 sample_command)\<rparr>"

abbreviation sample_append :: message where
  "sample_append \<equiv> MAppendEntries \<lparr>ae_term = 1, ae_leader_id = 1, ae_prev_log_index = 0, ae_prev_log_term = 0,
     ae_entries = [sample_write], ae_leader_commit = 0\<rparr>"

abbreviation sample_ack :: message where
  "sample_ack \<equiv> MAppendEntriesResponse \<lparr>ar_term = 1, ar_follower_id = 2, ar_success = True, ar_match_index = 1\<rparr>"

abbreviation sample_beat :: message where
  "sample_beat \<equiv> MAppendEntries \<lparr>ae_term = 1, ae_leader_id = 1, ae_prev_log_index = 1, ae_prev_log_term = 1,
     ae_entries = [], ae_leader_commit = 1\<rparr>"

lemma sample_command_good: "command_good sample_raft_ext sample_command"
  unfolding command_good_def entry_good_def sample_record sample_command_def
  by (intro conjI allI sample_codec_command)
    (simp_all add: key_ok_def val_fits_def write_to_def i64_to_string_def nat_dec.simps)

lemmas replication_run = handle_message_def append_command_def push_log_entry_def send_append_entries_def
  make_append_entries_def push_outbox_def handle_append_entries_def reset_election_timeout_def append_reply_def
  persist_meta_def handle_append_entries_response_def update_commit_index_def commit_at_def majority_def
  tick_def send_heartbeats_def Let_def sample_write_def [symmetric]

lemma apply_one:
  assumes "last_applied n = 0" "commit_index n = 1" "length (rf_log n) = 2" "pending_requests n = []"
    "rf_log n ! 1 = sample_write"
  obtains n' where "apply_committed_entries E n = Inr n'" "last_applied n' = 1" "rf_log n' = rf_log n" "commit_index n' = 1"
    "rf_id n' = rf_id n" "rf_peers n' = rf_peers n" "current_term n' = current_term n" "rf_role n' = rf_role n"
    "next_index n' = next_index n" "rf_outbox n' = rf_outbox n" "heartbeat_deadline n' = heartbeat_deadline n"
    "leader_id n' = leader_id n"
proof -
  obtain db r where "db_insert E [107] (VInt 5) (rf_db n) = (db, r)" by fastforce
  with assms show thesis
    by (intro that [of "n\<lparr>rf_db := db, last_applied := 1\<rparr>"])
      (simp_all add: apply_committed_entries.simps apply_entry_at_def apply_payload_def answer_pending_def
        sample_write_def sample_command_def log_record_new_def)
qed

lemma live_send:
  assumes "live_reach E M c" "i \<in> mb_ids M" "m \<in> set (rf_outbox (cl_nodes c i))"
  obtains c' where "live_reach E M c'" "cl_nodes c' = (cl_nodes c)(i := cl_nodes c i\<lparr>rf_outbox := []\<rparr>)" "m \<in> cl_net c'"
  using live_reach.Step [OF assms(1) live_step.Send [OF assms(2), of "[m]"]] assms(3)
  by (intro that) (auto simp: set_node_def)

lemma live_deliver:
  assumes "live_reach E M c" "i \<in> mb_ids M" "(i, m) \<in> cl_net c" "m = MTimeout \<longrightarrow> current_term (cl_nodes c i) \<noteq> - 1"
    "handle_message E m now (cl_nodes c i) = Inr n"
  obtains c' where "live_reach E M c'" "cl_nodes c' = (cl_nodes c)(i := n)" "cl_net c' = cl_net c"
  by (rule that [OF live_reach.Step [OF assms(1) live_step.Deliver [OF assms(2-5)]]]) (simp_all add: set_node_def)

text \<open>The leader takes the command, and the follower stores the entry.\<close>

lemma leader_proposes:
  assumes "elected sample_raft_ext n"
  obtains n' where "handle_message sample_raft_ext (MClientCommand sample_command) 1000 n = Inr n'"
    "rf_log n' = [dummy_entry sample_raft_ext, sample_write]"
    "(2, sample_append) \<in> set (rf_outbox n')"
    "rf_role n' = Leader" "current_term n' = 1" "rf_id n' = 1" "rf_peers n' = [2, 3]" "next_index n' = [(2, 1), (3, 1)]"
    "match_index n' = [(2, 0), (3, 0)]" "commit_index n' = 0" "last_applied n' = 0" "pending_requests n' = []"
    "heartbeat_deadline n' = 1100"
  using assms that by (auto simp: elected_def replication_run dummy_entry_def)

lemma follower_stores:
  assumes "voted sample_raft_ext n"
  obtains n' where "handle_message sample_raft_ext sample_append 1000 n = Inr n'"
    "rf_log n' = [dummy_entry sample_raft_ext, sample_write]"
    "(1, sample_ack) \<in> set (rf_outbox n')"
    "rf_role n' = Follower" "current_term n' = 1" "rf_id n' = 2" "commit_index n' = 0" "last_applied n' = 0"
    "pending_requests n' = []" "election_timeout n' = None"
  using assms that by (auto simp: voted_def replication_run dummy_entry_def apply_committed_entries.simps)

text \<open>The answer of the follower commits the entry, and the next heartbeat tells the follower.\<close>

lemma leader_commits:
  assumes "rf_log n = [dummy_entry sample_raft_ext, sample_write]" "rf_role n = Leader" "current_term n = 1" "rf_id n = 1"
    "rf_peers n = [2, 3]" "next_index n = [(2, 1), (3, 1)]" "match_index n = [(2, 0), (3, 0)]" "commit_index n = 0"
    "last_applied n = 0" "pending_requests n = []" "heartbeat_deadline n = 1100"
  obtains n' where "handle_message sample_raft_ext sample_ack 1000 n = Inr n'"
    "rf_log n' = rf_log n" "rf_role n' = Leader" "current_term n' = 1" "rf_id n' = 1" "rf_peers n' = [2, 3]"
    "next_index n' = [(2, 2), (3, 1)]" "commit_index n' = 1" "last_applied n' = 1" "heartbeat_deadline n' = 1100"
proof -
  let ?n = "persist_meta (n\<lparr>match_index := [(2, 1), (3, 0)], next_index := [(2, Suc (Suc 0)), (3, 1)], commit_index := 1\<rparr>)"
  have t: "le_term sample_write = 1" by (simp add: sample_write_def)
  have "last_applied ?n = 0" "commit_index ?n = 1" "length (rf_log ?n) = 2" "pending_requests ?n = []" "rf_log ?n ! 1 = sample_write"
    using assms by (simp_all add: persist_meta_def)
  then obtain n' where n': "apply_committed_entries sample_raft_ext ?n = Inr n'" "last_applied n' = 1" "rf_log n' = rf_log ?n"
    "commit_index n' = 1" "rf_id n' = rf_id ?n" "rf_peers n' = rf_peers ?n" "current_term n' = current_term ?n"
    "rf_role n' = rf_role ?n" "next_index n' = next_index ?n" "heartbeat_deadline n' = heartbeat_deadline ?n"
    by (rule apply_one)
  have "handle_message sample_raft_ext sample_ack 1000 n = Inr n'"
    using assms n'(1) t
    by (simp add: handle_message_def handle_append_entries_response_def update_commit_index_def commit_at_def majority_def
        persist_meta_def Let_def)
  then show thesis by (rule that) (use n' assms in \<open>simp_all add: persist_meta_def\<close>)
qed

lemma leader_beats:
  assumes "rf_log n = [dummy_entry sample_raft_ext, sample_write]" "rf_role n = Leader" "current_term n = 1" "rf_id n = 1"
    "rf_peers n = [2, 3]" "next_index n = [(2, 2), (3, 1)]" "commit_index n = 1" "last_applied n = 1" "heartbeat_deadline n = 1100"
  obtains n' where "tick 2000 n = Inr n'" "rf_log n' = rf_log n" "commit_index n' = 1" "last_applied n' = 1" "rf_role n' = Leader"
    "current_term n' = 1"
    "(2, sample_beat) \<in> set (rf_outbox n')"
  using assms that
  by (auto simp: tick_def send_heartbeats_def send_append_entries_def make_append_entries_def push_outbox_def
      sample_write_def)

lemma follower_learns:
  assumes "rf_log n = [dummy_entry sample_raft_ext, sample_write]" "rf_role n = Follower" "current_term n = 1" "rf_id n = 2"
    "commit_index n = 0" "last_applied n = 0" "pending_requests n = []" "election_timeout n = None"
  obtains n' where "handle_message sample_raft_ext sample_beat 2000 n = Inr n'"
    "rf_log n' = rf_log n" "commit_index n' = 1" "last_applied n' = 1" "current_term n' = 1"
proof -
  let ?n = "persist_meta (reset_election_timeout 2000 (n\<lparr>rf_role := Follower, leader_id := Some 1\<rparr>)\<lparr>commit_index := 1\<rparr>)"
  have t: "le_term sample_write = 1" by (simp add: sample_write_def)
  have "last_applied ?n = 0" "commit_index ?n = 1" "length (rf_log ?n) = 2" "pending_requests ?n = []" "rf_log ?n ! 1 = sample_write"
    using assms by (simp_all add: persist_meta_def reset_election_timeout_def)
  then obtain n' where n': "apply_committed_entries sample_raft_ext ?n = Inr n'" "last_applied n' = 1" "rf_log n' = rf_log ?n"
    "commit_index n' = 1" "current_term n' = current_term ?n"
    by (rule apply_one)
  have "handle_message sample_raft_ext sample_beat 2000 n =
      Inr (push_outbox 1 (MAppendEntriesResponse (append_reply n' True 1)) n')"
    using assms n'(1) t by (simp add: handle_message_def handle_append_entries_def Let_def)
  then show thesis
    by (rule that) (use n' assms in \<open>simp_all add: persist_meta_def reset_election_timeout_def push_outbox_def\<close>)
qed

lemma sample_commit:
  obtains c f where "live_reach sample_raft_ext sample_membership c"
    "cl_nodes c 2 = f\<lparr>rf_outbox := []\<rparr>" "rf_log f = [dummy_entry sample_raft_ext, sample_write]"
    "rf_role f = Follower" "current_term f = 1" "rf_id f = 2" "commit_index f = 0" "last_applied f = 0"
    "pending_requests f = []" "election_timeout f = None"
    "rf_log (cl_nodes c 1) = [dummy_entry sample_raft_ext, sample_write]" "rf_role (cl_nodes c 1) = Leader"
    "current_term (cl_nodes c 1) = 1" "rf_id (cl_nodes c 1) = 1" "rf_peers (cl_nodes c 1) = [2, 3]"
    "next_index (cl_nodes c 1) = [(2, 2), (3, 1)]" "commit_index (cl_nodes c 1) = 1" "last_applied (cl_nodes c 1) = 1"
    "heartbeat_deadline (cl_nodes c 1) = 1100"
proof -
  let ?E = "sample_raft_ext" and ?M = "sample_membership"
  have ids: "1 \<in> mb_ids ?M" "2 \<in> mb_ids ?M" by (simp_all add: sample_membership_def)
  obtain c0 where c0: "live_reach ?E ?M c0" "elected ?E (cl_nodes c0 1)" "voted ?E (cl_nodes c0 2)" by (rule sample_election)
  obtain n where n: "handle_message ?E (MClientCommand sample_command) 1000 (cl_nodes c0 1) = Inr n"
    "rf_log n = [dummy_entry ?E, sample_write]"
    "(2, sample_append) \<in> set (rf_outbox n)"
    "rf_role n = Leader" "current_term n = 1" "rf_id n = 1" "rf_peers n = [2, 3]" "next_index n = [(2, 1), (3, 1)]"
    "match_index n = [(2, 0), (3, 0)]" "commit_index n = 0" "last_applied n = 0" "pending_requests n = []"
    "heartbeat_deadline n = 1100" by (rule leader_proposes [OF c0(2)])
  have r1: "live_reach ?E ?M (set_node 1 n c0)"
    by (rule live_reach.Step [OF c0(1) live_step.Client [OF ids(1) _ _ n(1)]]) (simp_all add: sample_command_good)
  obtain c2 where c2: "live_reach ?E ?M c2" "cl_nodes c2 = (cl_nodes c0)(1 := n\<lparr>rf_outbox := []\<rparr>)"
    "(2, sample_append) \<in> cl_net c2"
    by (rule live_send [OF r1 ids(1)]) (use n(3) in \<open>auto simp: set_node_def\<close>)
  obtain f where f: "handle_message ?E sample_append 1000 (cl_nodes c0 2) = Inr f"
    "rf_log f = [dummy_entry ?E, sample_write]" "(1, sample_ack) \<in> set (rf_outbox f)"
    "rf_role f = Follower" "current_term f = 1" "rf_id f = 2" "commit_index f = 0" "last_applied f = 0"
    "pending_requests f = []" "election_timeout f = None" by (rule follower_stores [OF c0(3)])
  obtain c3 where c3: "live_reach ?E ?M c3" "cl_nodes c3 = (cl_nodes c2)(2 := f)"
    by (rule live_deliver [OF c2(1) ids(2) c2(3), of 1000 f]) (use f(1) c0(3) c2(2) in \<open>auto simp: voted_def\<close>)
  obtain c4 where c4: "live_reach ?E ?M c4" "cl_nodes c4 = (cl_nodes c3)(2 := f\<lparr>rf_outbox := []\<rparr>)"
    "(1, sample_ack) \<in> cl_net c4"
    by (rule live_send [OF c3(1) ids(2)]) (use f(3) c3(2) in auto)
  obtain m where m: "handle_message ?E sample_ack 1000 (n\<lparr>rf_outbox := []\<rparr>) = Inr m"
    "rf_log m = rf_log (n\<lparr>rf_outbox := []\<rparr>)" "rf_role m = Leader" "current_term m = 1" "rf_id m = 1" "rf_peers m = [2, 3]"
    "next_index m = [(2, 2), (3, 1)]" "commit_index m = 1" "last_applied m = 1" "heartbeat_deadline m = 1100"
    by (rule leader_commits [of "n\<lparr>rf_outbox := []\<rparr>"]) (use n in simp_all)
  obtain c5 where c5: "live_reach ?E ?M c5" "cl_nodes c5 = (cl_nodes c4)(1 := m)"
    by (rule live_deliver [OF c4(1) ids(1) c4(3), of 1000 m]) (use m(1) n(5) c2(2) c3(2) c4(2) in auto)
  show thesis by (rule that [OF c5(1), of f]) (use c5(2) c4(2) c3(2) f m n in simp_all)
qed

lemma sample_replication:
  obtains c where "live_reach sample_raft_ext sample_membership c"
    "rf_log (cl_nodes c 1) = [dummy_entry sample_raft_ext, sample_write]" "rf_log (cl_nodes c 2) = rf_log (cl_nodes c 1)"
    "commit_index (cl_nodes c 1) = 1" "last_applied (cl_nodes c 1) = 1" "rf_role (cl_nodes c 1) = Leader"
    "current_term (cl_nodes c 1) = 1"
    "commit_index (cl_nodes c 2) = 1" "last_applied (cl_nodes c 2) = 1" "current_term (cl_nodes c 2) = 1"
proof (rule sample_commit)
  let ?E = "sample_raft_ext" and ?M = "sample_membership"
  have ids: "1 \<in> mb_ids ?M" "2 \<in> mb_ids ?M" by (simp_all add: sample_membership_def)
  fix c5 f assume r5: "live_reach ?E ?M c5" and f: "cl_nodes c5 2 = f\<lparr>rf_outbox := []\<rparr>" "rf_log f = [dummy_entry ?E, sample_write]"
    "rf_role f = Follower" "current_term f = 1" "rf_id f = 2" "commit_index f = 0" "last_applied f = 0"
    "pending_requests f = []" "election_timeout f = None"
    and m: "rf_log (cl_nodes c5 1) = [dummy_entry ?E, sample_write]" "rf_role (cl_nodes c5 1) = Leader"
    "current_term (cl_nodes c5 1) = 1" "rf_id (cl_nodes c5 1) = 1" "rf_peers (cl_nodes c5 1) = [2, 3]"
    "next_index (cl_nodes c5 1) = [(2, 2), (3, 1)]" "commit_index (cl_nodes c5 1) = 1" "last_applied (cl_nodes c5 1) = 1"
    "heartbeat_deadline (cl_nodes c5 1) = 1100"
  obtain h where h: "tick 2000 (cl_nodes c5 1) = Inr h" "rf_log h = rf_log (cl_nodes c5 1)" "commit_index h = 1" "last_applied h = 1" "rf_role h = Leader"
    "current_term h = 1" "(2, sample_beat) \<in> set (rf_outbox h)"
    by (rule leader_beats [OF m])
  have r6: "live_reach ?E ?M (set_node 1 h c5)"
    by (rule live_reach.Step [OF r5 live_step.Tick [OF ids(1), of _ 2000]]) (use h(1) m(3) in simp_all)
  obtain c7 where c7: "live_reach ?E ?M c7" "cl_nodes c7 = (cl_nodes c5)(1 := h\<lparr>rf_outbox := []\<rparr>)"
    "(2, sample_beat) \<in> cl_net c7"
    by (rule live_send [OF r6 ids(1)]) (use h(7) in \<open>auto simp: set_node_def\<close>)
  obtain g where g: "handle_message ?E sample_beat 2000 (f\<lparr>rf_outbox := []\<rparr>) = Inr g"
    "rf_log g = rf_log (f\<lparr>rf_outbox := []\<rparr>)" "commit_index g = 1" "last_applied g = 1" "current_term g = 1"
    by (rule follower_learns [of "f\<lparr>rf_outbox := []\<rparr>"]) (use f in simp_all)
  obtain c8 where c8: "live_reach ?E ?M c8" "cl_nodes c8 = (cl_nodes c7)(2 := g)"
    by (rule live_deliver [OF c7(1) ids(2) c7(3), of 2000 g]) (use g(1) f(1,4) c7(2) in auto)
  then show thesis using that [OF c8(1)] c8(2) c7(2) g h m(1) f(2) by simp
qed

section \<open>Properties\<close>

text \<open>
  C7. The Raft node implements the abstract protocol: every state that a cluster reaches, with lost,
  repeated and reordered messages and in-memory restarts, is the image of a state that the abstract
  protocol reaches from its initial state; terms, votes, roles, logs, commit and apply positions
  and databases of the nodes are those of the protocol, and the messages under way are among its messages.
\<close>

theorem raft_refines_protocol:
  assumes "live_reach E M c" and "membership_ok M" and "entry_good E (dummy_entry E)" and "mb_ids M \<noteq> {}"
  shows "\<exists>d p. (proto_step (mb_ids M) (entry_apply E))\<^sup>*\<^sup>* (proto_init (mb_ids M) (dummy_entry E) d) p \<and>
    open_in_dir E [] (mb_config M) = Inr d \<and> abstracts E M d c p"
  by (rule live_reach_abstracts [OF assms])

text \<open>
  C9. Log matching: when the logs of two nodes have entries of the same term at an index, the two
  logs are the same up to and including this index.
\<close>

theorem logs_match:
  assumes "live_reach E M c" and "membership_ok M" and "entry_good E (dummy_entry E)"
    and i: "i \<in> mb_ids M" and j: "j \<in> mb_ids M"
    and k: "k < length (rf_log (cl_nodes c i))" "k < length (rf_log (cl_nodes c j))"
      "le_term (rf_log (cl_nodes c i) ! k) = le_term (rf_log (cl_nodes c j) ! k)"
  shows "take (Suc k) (rf_log (cl_nodes c i)) = take (Suc k) (rf_log (cl_nodes c j))"
proof -
  have "mb_ids M \<noteq> {}" using i by blast
  from live_reach_cores [OF assms(1-3) this] obtain d p
    where inv: "proto_inv (mb_ids M) (dummy_entry E) (entry_apply E) d p"
      and core: "\<forall>i \<in> mb_ids M. p_core p i = core_of (cl_nodes c i)" .
  from log_matching [OF inv i j, of k] core i j k show ?thesis by (simp add: core_of_def)
qed

text \<open>A leader has what a node of no newer term has committed.\<close>

lemma leader_has_committed:
  assumes "live_reach E M c" and "membership_ok M" and "entry_good E (dummy_entry E)"
    and i: "i \<in> mb_ids M" and j: "j \<in> mb_ids M"
    and leader: "rf_role (cl_nodes c j) = Leader" "current_term (cl_nodes c i) \<le> current_term (cl_nodes c j)"
  shows "commit_index (cl_nodes c i) < length (rf_log (cl_nodes c i)) \<and>
    commit_index (cl_nodes c i) < length (rf_log (cl_nodes c j)) \<and>
    take (Suc (commit_index (cl_nodes c i))) (rf_log (cl_nodes c j)) =
      take (Suc (commit_index (cl_nodes c i))) (rf_log (cl_nodes c i))"
proof -
  have "mb_ids M \<noteq> {}" using i by blast
  from live_reach_cores [OF assms(1-3) this] obtain d p
    where inv: "proto_inv (mb_ids M) (dummy_entry E) (entry_apply E) d p"
      and core: "\<forall>i \<in> mb_ids M. p_core p i = core_of (cl_nodes c i)" .
  let ?n = "p_core p i" and ?m = "p_core p j"
  note D = proto_invD [OF inv]
  note ni = node_safeD [OF D(9) i, unfolded node_safe_def]
  have "p_lead p (c_term ?m) = Some (j, c_log ?m)"
    using inv_leadD(7) [OF D(4) j] core j leader(1) by (simp add: core_of_def)
  moreover have "c_term ?n \<le> c_term ?m" using core i j leader(2) by (simp add: core_of_def)
  ultimately have "prefix (take (Suc (c_commit ?n)) (c_log ?n)) (c_log ?m)"
    using safe_in_lead [OF D(7,5) _ safe_head [OF D(5) i]] ni by blast
  moreover have len: "c_commit ?n < length (c_log ?n)" using ni by blast
  ultimately obtain zs where zs: "c_log ?m = take (Suc (c_commit ?n)) (c_log ?n) @ zs" by (auto simp: prefix_def)
  then have "c_commit ?n < length (c_log ?m)" "take (Suc (c_commit ?n)) (c_log ?m) = take (Suc (c_commit ?n)) (c_log ?n)"
    using len by (simp_all only: zs) auto
  with core i j len show ?thesis by (simp add: core_of_def)
qed

text \<open>
  C8. Leader completeness: everything that a node has committed is in the log of every leader whose
  term is not older than the term of the node, at the same indices.
\<close>

theorem leaders_complete:
  assumes "live_reach E M c" and "membership_ok M" and "entry_good E (dummy_entry E)"
    and i: "i \<in> mb_ids M" and j: "j \<in> mb_ids M"
    and leader: "rf_role (cl_nodes c j) = Leader" "current_term (cl_nodes c i) \<le> current_term (cl_nodes c j)"
  shows "commit_index (cl_nodes c i) < length (rf_log (cl_nodes c i)) \<and>
    commit_index (cl_nodes c i) < length (rf_log (cl_nodes c j)) \<and>
    take (Suc (commit_index (cl_nodes c i))) (rf_log (cl_nodes c j)) =
      take (Suc (commit_index (cl_nodes c i))) (rf_log (cl_nodes c i))"
  by (rule leader_has_committed [OF assms])

text \<open>
  C5. State machine safety: an index that two nodes have applied has the same entry in both logs,
  so no two nodes ever apply different commands at the same position.
\<close>

theorem state_machine_safety:
  assumes "live_reach E M c" and "membership_ok M" and "entry_good E (dummy_entry E)"
    and i: "i \<in> mb_ids M" and j: "j \<in> mb_ids M"
    and k: "k \<le> last_applied (cl_nodes c i)" "k \<le> last_applied (cl_nodes c j)"
  shows "k < length (rf_log (cl_nodes c i)) \<and> k < length (rf_log (cl_nodes c j)) \<and>
    rf_log (cl_nodes c i) ! k = rf_log (cl_nodes c j) ! k"
proof -
  have "mb_ids M \<noteq> {}" using i by blast
  from live_reach_cores [OF assms(1-3) this] obtain d p
    where inv: "proto_inv (mb_ids M) (dummy_entry E) (entry_apply E) d p"
      and core: "\<forall>i \<in> mb_ids M. p_core p i = core_of (cl_nodes c i)" .
  have len: "c_applied (p_core p x) < length (c_log (p_core p x))" if "x \<in> mb_ids M" for x
    using node_safeD [OF proto_invD(9) [OF inv] that] by (simp add: node_safe_def)
  have agree: "c_log (p_core p x) ! k = c_log (p_core p y) ! k"
    if "x \<in> mb_ids M" "y \<in> mb_ids M" "c_applied (p_core p x) \<le> c_applied (p_core p y)" "k \<le> c_applied (p_core p x)" for x y
    using arg_cong [OF applied_agree [OF inv that(1-3)], of "\<lambda>l. l ! k"] that(4) by simp
  from len [OF i] len [OF j] agree [OF i j] agree [OF j i] core i j k show ?thesis
    by (cases "last_applied (cl_nodes c i) \<le> last_applied (cl_nodes c j)") (auto simp: core_of_def)
qed

text \<open>
  C10. The replicas agree: the database of every node is what the applied entries of its log make of
  the empty database that all nodes start with, and two nodes that have applied the same number of entries have
  the same database.
\<close>

theorem replicas_agree:
  assumes "live_reach E M c" and "membership_ok M" and "entry_good E (dummy_entry E)"
    and i: "i \<in> mb_ids M" and j: "j \<in> mb_ids M"
  shows "(\<exists>d. open_in_dir E [] (mb_config M) = Inr d \<and>
      rf_db (cl_nodes c i) = fold (entry_apply E) (take (last_applied (cl_nodes c i)) (tl (rf_log (cl_nodes c i)))) d) \<and>
    (last_applied (cl_nodes c i) = last_applied (cl_nodes c j) \<longrightarrow> rf_db (cl_nodes c i) = rf_db (cl_nodes c j))"
proof -
  have "mb_ids M \<noteq> {}" using i by blast
  from live_reach_cores [OF assms(1-3) this] obtain d p
    where d: "open_in_dir E [] (mb_config M) = Inr d" and inv: "proto_inv (mb_ids M) (dummy_entry E) (entry_apply E) d p"
      and core: "\<forall>i \<in> mb_ids M. p_core p i = core_of (cl_nodes c i)" .
  have st: "c_state (p_core p x) = fold (entry_apply E) (tl (take (Suc (c_applied (p_core p x))) (c_log (p_core p x)))) d"
    if "x \<in> mb_ids M" for x
    using node_safeD [OF proto_invD(9) [OF inv] that] by (simp add: node_safe_def tl_take)
  have "c_state (p_core p i) = c_state (p_core p j)" if "c_applied (p_core p i) = c_applied (p_core p j)"
    using applied_agree [OF inv i j] that st [OF i] st [OF j] by simp
  with st [OF i] core i j d show ?thesis by (simp add: core_of_def tl_take)
qed

lemma applied_read:
  assumes "live_reach E M c" and "membership_ok M" and "entry_good E (dummy_entry E)" and "i \<in> mb_ids M"
    and "bloom_sizing_ok E" and "config_ok (mb_config M)"
    and "\<forall>d. open_in_dir E [] (mb_config M) = Inr d \<longrightarrow>
      log_fits E (take (last_applied (cl_nodes c i)) (tl (rf_log (cl_nodes c i)))) d"
  shows "raft_get E key (cl_nodes c i) =
    Inr (fold entry_map (take (last_applied (cl_nodes c i)) (tl (rf_log (cl_nodes c i)))) Map.empty key)"
  using run_inv_run [OF replica_run [OF assms]] db_get_view [of E "rf_db (cl_nodes c i)" key]
  by (simp add: raft_get_def run_inv_def)

lemma applied_prefix:
  assumes "live_reach E M c" and "membership_ok M" and "entry_good E (dummy_entry E)"
    and i: "i \<in> mb_ids M" and j: "j \<in> mb_ids M" and le: "last_applied (cl_nodes c i) \<le> last_applied (cl_nodes c j)"
  shows "take (last_applied (cl_nodes c i)) (tl (rf_log (cl_nodes c j))) = take (last_applied (cl_nodes c i)) (tl (rf_log (cl_nodes c i)))"
proof -
  have "mb_ids M \<noteq> {}" using i by blast
  from live_reach_cores [OF assms(1-3) this] obtain d p
    where inv: "proto_inv (mb_ids M) (dummy_entry E) (entry_apply E) d p"
      and core: "\<forall>i \<in> mb_ids M. p_core p i = core_of (cl_nodes c i)" .
  from arg_cong [OF applied_agree [OF inv i j], of tl] core i j le show ?thesis by (simp add: core_of_def tl_take)
qed

text \<open>
  C4. Reads of the replicated store are local: a read at any node, leader or not, returns for every key what the
  applied entries of the node's own log say of it, across the flushes and compactions of the node's database, provided that
  the database can hold these entries; and the applied entries of a node are the first ones that every node has applied
  that has applied as many. So all reads are from one history of the store, but a node that has applied less reads an
  older state of it. The membership is fixed and nodes do not recover from their files.
\<close>

theorem replica_read:
  assumes "live_reach E M c" and "membership_ok M" and "entry_good E (dummy_entry E)" and "i \<in> mb_ids M"
    and "bloom_sizing_ok E" and "config_ok (mb_config M)"
    and "\<forall>d. open_in_dir E [] (mb_config M) = Inr d \<longrightarrow>
      log_fits E (take (last_applied (cl_nodes c i)) (tl (rf_log (cl_nodes c i)))) d"
  shows "raft_get E key (cl_nodes c i) =
      Inr (fold entry_map (take (last_applied (cl_nodes c i)) (tl (rf_log (cl_nodes c i)))) Map.empty key) \<and>
    (\<forall>j \<in> mb_ids M. last_applied (cl_nodes c i) \<le> last_applied (cl_nodes c j) \<longrightarrow>
      take (last_applied (cl_nodes c i)) (tl (rf_log (cl_nodes c j))) = take (last_applied (cl_nodes c i)) (tl (rf_log (cl_nodes c i))))"
  using applied_read [OF assms] applied_prefix [OF assms(1-4)] by blast

subsection \<open>Witnesses\<close>

lemma sample_ids: "1 \<in> mb_ids sample_membership" "2 \<in> mb_ids sample_membership" "mb_ids sample_membership \<noteq> {}"
  by (simp_all add: sample_membership_def)

theorem raft_refines_protocol_witness:
  "\<exists>c d p. last_applied (cl_nodes c 2) = 1 \<and>
     (proto_step {1, 2, 3} (entry_apply sample_raft_ext))\<^sup>*\<^sup>* (proto_init {1, 2, 3} (dummy_entry sample_raft_ext) d) p \<and>
     abstracts sample_raft_ext sample_membership d c p"
proof (rule sample_replication)
  fix c assume c: "live_reach sample_raft_ext sample_membership c" "last_applied (cl_nodes c 2) = 1"
  from raft_refines_protocol [OF c(1) sample_membership_ok sample_dummy sample_ids(3)] c(2) show ?thesis
    by (auto simp: sample_membership_def)
qed

theorem logs_match_witness:
  "\<exists>c. live_reach sample_raft_ext sample_membership c \<and> length (rf_log (cl_nodes c 1)) = 2 \<and>
     take 2 (rf_log (cl_nodes c 1)) = take 2 (rf_log (cl_nodes c 2))"
proof (rule sample_replication)
  fix c assume c: "live_reach sample_raft_ext sample_membership c"
    "rf_log (cl_nodes c 1) = [dummy_entry sample_raft_ext, sample_write]" "rf_log (cl_nodes c 2) = rf_log (cl_nodes c 1)"
  from logs_match [OF c(1) sample_membership_ok sample_dummy sample_ids(1,2), of 1] c show ?thesis
    by (auto simp: numeral_2_eq_2)
qed

theorem leaders_complete_witness:
  "\<exists>c. live_reach sample_raft_ext sample_membership c \<and> rf_role (cl_nodes c 1) = Leader \<and>
     commit_index (cl_nodes c 2) = 1 \<and> take 2 (rf_log (cl_nodes c 1)) = take 2 (rf_log (cl_nodes c 2))"
proof (rule sample_replication)
  fix c assume c: "live_reach sample_raft_ext sample_membership c" "rf_role (cl_nodes c 1) = Leader"
    "current_term (cl_nodes c 1) = 1" "commit_index (cl_nodes c 2) = 1" "current_term (cl_nodes c 2) = 1"
  from leaders_complete [OF c(1) sample_membership_ok sample_dummy sample_ids(2,1)] c show ?thesis
    by (auto simp: numeral_2_eq_2)
qed

theorem state_machine_safety_witness:
  "\<exists>c. live_reach sample_raft_ext sample_membership c \<and> last_applied (cl_nodes c 1) = 1 \<and> last_applied (cl_nodes c 2) = 1 \<and>
     rf_log (cl_nodes c 1) ! 1 = rf_log (cl_nodes c 2) ! 1"
proof (rule sample_replication)
  fix c assume c: "live_reach sample_raft_ext sample_membership c" "last_applied (cl_nodes c 1) = 1" "last_applied (cl_nodes c 2) = 1"
  from state_machine_safety [OF c(1) sample_membership_ok sample_dummy sample_ids(1,2), of 1] c show ?thesis by auto
qed

theorem replicas_agree_witness:
  "\<exists>c. live_reach sample_raft_ext sample_membership c \<and> last_applied (cl_nodes c 1) = 1 \<and>
     rf_db (cl_nodes c 1) = rf_db (cl_nodes c 2)"
proof (rule sample_replication)
  fix c assume c: "live_reach sample_raft_ext sample_membership c" "last_applied (cl_nodes c 1) = 1" "last_applied (cl_nodes c 2) = 1"
  from replicas_agree [OF c(1) sample_membership_ok sample_dummy sample_ids(1,2)] c show ?thesis by auto
qed

lemma sample_sizes: "bloom_sizing_ok sample_raft_ext" "config_ok (mb_config sample_membership)"
  by (simp_all add: bloom_sizing_ok_def sample_raft_ext_def sample_ext_def config_ok_def config_default_def sample_membership_def)

lemma sample_fits:
  "\<forall>d. open_in_dir sample_raft_ext [] (mb_config sample_membership) = Inr d \<longrightarrow> log_fits sample_raft_ext [sample_write] d"
proof -
  have "0 < cfg_sstable_level (mb_config sample_membership)" using sample_sizes(2) by (simp add: config_ok_def)
  from open_empty [OF sample_sizes(1) this] obtain d where d: "open_in_dir sample_raft_ext [] (mb_config sample_membership) = Inr d"
    "next_sstable_id d = 0" "db_weight sample_raft_ext d = 0" "length (leveled_sstable d) = 2"
    by (auto simp: config_default_def sample_membership_def)
  have "log_fits sample_raft_ext [sample_write] d"
    by (simp add: entry_fits_def sample_write_def sample_command_def write_fits_def ids_left_def d pair_ok_def key_ok_def
        val_fits_def entry_weight_def i64_to_string_def nat_dec.simps)
  then show ?thesis using d(1) by simp
qed

text \<open>
  Reads are not linearizable: a write can be committed and applied by the leader while a follower still reads the
  state before the write.
\<close>

lemma stale_read:
  "\<exists>c. live_reach sample_raft_ext sample_membership c \<and>
     rf_role (cl_nodes c 1) = Leader \<and> commit_index (cl_nodes c 1) = 1 \<and>
     raft_get sample_raft_ext [107] (cl_nodes c 1) = Inr (Some (VInt 5)) \<and> raft_get sample_raft_ext [107] (cl_nodes c 2) = Inr None"
proof (rule sample_commit)
  fix c f assume c: "live_reach sample_raft_ext sample_membership c" "cl_nodes c 2 = f\<lparr>rf_outbox := []\<rparr>" "last_applied f = 0"
    "rf_log (cl_nodes c 1) = [dummy_entry sample_raft_ext, sample_write]" "rf_role (cl_nodes c 1) = Leader"
    "commit_index (cl_nodes c 1) = 1" "last_applied (cl_nodes c 1) = 1"
  then have es: "take (last_applied (cl_nodes c 1)) (tl (rf_log (cl_nodes c 1))) = [sample_write]"
    "take (last_applied (cl_nodes c 2)) (tl (rf_log (cl_nodes c 2))) = []" by simp_all
  have "raft_get sample_raft_ext [107] (cl_nodes c 1) = Inr (Some (VInt 5))"
    using applied_read [OF c(1) sample_membership_ok sample_dummy sample_ids(1) sample_sizes, unfolded es, OF sample_fits, of "[107]"]
    by (simp add: sample_write_def sample_command_def)
  moreover have "raft_get sample_raft_ext [107] (cl_nodes c 2) = Inr None"
    using applied_read [OF c(1) sample_membership_ok sample_dummy sample_ids(2) sample_sizes, unfolded es, of "[107]"] by simp
  ultimately show ?thesis using c by blast
qed

theorem replica_read_witness:
  "\<exists>c. live_reach sample_raft_ext sample_membership c \<and> raft_get sample_raft_ext [107] (cl_nodes c 2) = Inr (Some (VInt 5))"
proof (rule sample_replication)
  fix c assume c: "live_reach sample_raft_ext sample_membership c"
    "rf_log (cl_nodes c 1) = [dummy_entry sample_raft_ext, sample_write]" "rf_log (cl_nodes c 2) = rf_log (cl_nodes c 1)"
    "last_applied (cl_nodes c 2) = 1"
  then have es: "take (last_applied (cl_nodes c 2)) (tl (rf_log (cl_nodes c 2))) = [sample_write]" by simp
  from replica_read [OF c(1) sample_membership_ok sample_dummy sample_ids(2) sample_sizes, unfolded es, OF sample_fits, of "[107]"] c(1)
  show ?thesis by (auto simp: sample_write_def sample_command_def)
qed

end
