(* ===== verification/Raft_Progress.thy ===== *)
theory Raft_Progress
  imports Raft_Safety
begin

text \<open>
  The handlers of the Raft node return: in no state that a live cluster of fixed membership reaches do
  the assertions, the \<open>expect\<close>s and the index operations of the node panic, and the loop that applies
  entries ends with everything committed applied.
\<close>

section \<open>Who is written to\<close>

text \<open>Append requests go from their leader to another node, and the answers come from another node.\<close>

definition addressed :: "node_id set \<Rightarrow> node_id \<times> message \<Rightarrow> bool" where
  "addressed ids = (\<lambda>(to, m).
     case m of
       MAppendEntries a \<Rightarrow> to \<in> ids \<and> ae_leader_id a \<in> ids \<and> to \<noteq> ae_leader_id a
     | MAppendEntriesResponse r \<Rightarrow> ar_follower_id r \<in> ids \<and> to \<noteq> ar_follower_id r
     | _ \<Rightarrow> True)"

text \<open>Between two states a node with identity \<open>i\<close> and peers \<open>P\<close> has sent such messages only.\<close>

definition talks :: "node_id set \<Rightarrow> raft_node \<Rightarrow> raft_node \<Rightarrow> bool" where
  "talks ids n n' \<longleftrightarrow> (\<exists>ms. rf_outbox n' = rf_outbox n @ ms \<and> list_all (addressed ids) ms)"

lemma talks_same: "rf_outbox n' = rf_outbox n \<Longrightarrow> talks ids n n'"
  by (simp add: talks_def)

lemma talks_trans: "talks ids n m \<Longrightarrow> talks ids m k \<Longrightarrow> talks ids n k"
  by (fastforce simp: talks_def)

lemma talks_push: "addressed ids (to, m) \<Longrightarrow> talks ids n (push_outbox to m n)"
  by (simp add: talks_def push_outbox_def)

lemma talks_respond: "talks ids n (respond rsp s v m l t n)"
  by (cases rsp) (simp_all add: talks_def respond_def responder_send_def addressed_def)

lemma talks_fold:
  assumes "\<And>x n. x \<in> set xs \<Longrightarrow> talks ids n (f x n)"
  shows "talks ids n (fold f xs n)"
  using assms by (induction xs arbitrary: n) (auto intro: talks_same talks_trans)

lemma talks_step_down: "talks ids n (step_down t now n)"
proof -
  let ?m = "(persist_meta (reset_election_timeout now
    (n\<lparr>current_term := t, rf_role := Follower, voted_for := None, leader_id := None\<rparr>)))"
  have "talks ids n (?m\<lparr>pending_requests := []\<rparr>)"
    by (rule talks_same) (simp add: persist_meta_def)
  moreover have "talks ids (?m\<lparr>pending_requests := []\<rparr>) (step_down t now n)"
    unfolding step_down_def Let_def by (rule talks_fold) (auto intro: talks_respond)
  ultimately show ?thesis by (rule talks_trans)
qed

text \<open>The peers of a node, and what it may send them.\<close>

definition peered :: "node_id set \<Rightarrow> raft_node \<Rightarrow> bool" where
  "peered ids n \<longleftrightarrow> rf_id n \<in> ids \<and> set (rf_peers n) = ids - {rf_id n}"

lemma talks_send:
  assumes "send_append_entries peer n = Inr n'" and "rf_id n \<in> ids" and "peer \<in> ids - {rf_id n}"
  shows "talks ids n n'"
  using assms
  by (auto simp: send_append_entries_def and_then_eq_Inr make_append_entries_def panic_def addressed_def
      split: option.splits if_splits intro!: talks_push)

lemma send_same:
  assumes "send_append_entries peer n = Inr n'"
  shows "rf_id n' = rf_id n" "rf_peers n' = rf_peers n"
  using assms by (auto simp: send_append_entries_def and_then_eq_Inr push_outbox_def)

lemma talks_send_all:
  "send_all ps n = Inr n' \<Longrightarrow> rf_id n \<in> ids \<Longrightarrow> set ps \<subseteq> ids - {rf_id n} \<Longrightarrow> talks ids n n'"
proof (induction ps n rule: send_all.induct)
  case (2 p ps n)
  then obtain m where m: "send_append_entries p n = Inr m" "send_all ps m = Inr n'"
    by (auto simp: and_then_eq_Inr)
  have "talks ids m n'" by (rule "2.IH" [OF m]) (use 2 send_same [OF m(1)] in auto)
  with talks_send [OF m(1)] 2 talks_trans show ?case by fastforce
qed (simp add: talks_same)

lemma talks_init_peers:
  "init_peers ps n = Inr n' \<Longrightarrow> rf_id n \<in> ids \<Longrightarrow> set ps \<subseteq> ids - {rf_id n} \<Longrightarrow> talks ids n n'"
proof (induction ps n rule: init_peers.induct)
  case (2 p ps n)
  let ?m = "n\<lparr>next_index := AList.update p (length (rf_log n)) (next_index n),
          match_index := AList.update p 0 (match_index n)\<rparr>"
  obtain m where m: "send_append_entries p ?m = Inr m" "init_peers ps m = Inr n'"
    using "2.prems" by (auto simp: and_then_eq_Inr)
  have "talks ids n ?m" by (rule talks_same) simp
  moreover have "talks ids ?m m" by (rule talks_send [OF m(1)]) (use 2 in auto)
  moreover have "talks ids m n'" by (rule "2.IH" [OF m]) (use 2 send_same [OF m(1)] in auto)
  ultimately show ?case using talks_trans by blast
qed (simp add: talks_same)

lemma talks_become_leader:
  assumes "become_leader now n = Inr n'" and "peered ids n"
  shows "talks ids n n'"
proof -
  let ?n = "n\<lparr>rf_role := Leader, leader_id := Some (rf_id n)\<rparr>"
  obtain m where m: "init_peers (rf_peers n) ?n = Inr m" "n' = m\<lparr>heartbeat_deadline := now + 100\<rparr>"
    using assms(1) by (auto simp: become_leader_def and_then_eq_Inr)
  have "talks ids ?n m" by (rule talks_init_peers [OF m(1)]) (use assms(2) in \<open>auto simp: peered_def\<close>)
  then show ?thesis by (simp add: talks_def m(2))
qed

lemma talks_start_election:
  assumes "start_election now n = Inr n'" and "peered ids n"
  shows "talks ids n n'"
proof -
  let ?n = "persist_meta (n\<lparr>rf_role := Candidate, leader_id := None, current_term := current_term n + 1,
                voted_for := Some (rf_id n)\<rparr>)\<lparr>votes_received := [rf_id n]\<rparr>"
  have p: "peered ids ?n" "rf_outbox ?n = rf_outbox n" using assms(2) by (simp_all add: peered_def persist_meta_def)
  show ?thesis
  proof (cases "length (votes_received ?n) \<ge> majority ?n")
    case True
    then have "become_leader now ?n = Inr n'" using assms(1) by (simp add: start_election_def persist_meta_def Let_def)
    from talks_become_leader [OF this p(1)] p(2) show ?thesis by (simp add: talks_def)
  next
    case False
    then obtain q where "n' = fold (\<lambda>peer. push_outbox peer (MRequestVote q)) (rf_peers n) (reset_election_timeout now ?n)"
      using assms(1) by (auto simp: start_election_def persist_meta_def Let_def and_then_eq_Inr reset_election_timeout_def
          split: option.splits)
    moreover have "talks ids (reset_election_timeout now ?n) \<dots>"
      by (rule talks_fold) (simp add: talks_push addressed_def)
    ultimately show ?thesis using p(2) by (simp add: talks_def)
  qed
qed

lemma talks_vote_response:
  assumes "handle_vote_response r now n = Inr n'" and "peered ids n"
  shows "talks ids n n'"
proof (cases "vr_term r = current_term n \<and> rf_role n = Candidate")
  case True
  let ?n = "if vr_vote_granted r then n\<lparr>votes_received := List.insert (vr_voter_id r) (votes_received n)\<rparr> else n"
  have "n' = ?n \<or> become_leader now ?n = Inr n'"
    using assms(1) True by (auto simp: handle_vote_response_def Let_def split: if_splits)
  moreover have "talks ids ?n n'" if "become_leader now ?n = Inr n'"
    by (rule talks_become_leader [OF that]) (use assms(2) in \<open>simp add: peered_def\<close>)
  ultimately show ?thesis by (auto simp: talks_def split: if_splits)
qed (use assms(1) talks_step_down in \<open>auto simp: handle_vote_response_def intro: talks_same split: if_splits\<close>)

lemma talks_request_vote:
  assumes "handle_request_vote q now n = Inr (n', r)"
  shows "talks ids n n'"
proof -
  let ?n = "if rv_term q > current_term n then step_down (rv_term q) now n else n"
  have "rf_outbox n' = rf_outbox n \<or> rf_outbox n' = rf_outbox ?n"
    using assms by (auto simp: handle_request_vote_def Let_def and_then_eq_Inr persist_meta_def split: if_splits option.splits)
  moreover have "talks ids n ?n" by (simp add: talks_step_down talks_same)
  ultimately show ?thesis by (auto simp: talks_def)
qed

lemma talks_answer: "talks ids n (answer_pending i t r n)"
proof (cases "map_of (pending_requests n) (i, t)")
  case (Some rsp)
  then show ?thesis
    using talks_respond [of ids "n\<lparr>pending_requests := AList.delete (i, t) (pending_requests n)\<rparr>"]
    by (auto simp: answer_pending_def Let_def talks_def split: sum.splits)
qed (simp add: answer_pending_def talks_same)

lemma talks_apply_entry:
  assumes "apply_entry_at E i n = Inr n'"
  shows "talks ids n n'"
proof -
  obtain m c r where p: "apply_payload E (le_payload (rf_log n ! i)) n = (m, c, r)" by (metis prod_cases3)
  obtain k where "n' = answer_pending i (le_term (rf_log n ! i)) r k" "rf_outbox k = rf_outbox n"
    using assms apply_payload_simps(10) [OF p] by (auto simp: apply_entry_at_def p Let_def panic_def split: if_splits option.splits)
  with talks_answer [of ids k] show ?thesis by (simp add: talks_def)
qed

lemma talks_apply_committed: "apply_committed_entries E n = Inr n' \<Longrightarrow> talks ids n n'"
proof (induction E n rule: apply_committed_entries.induct)
  case (1 E n)
  then show ?case
    by (auto simp: apply_committed_entries.simps [of E n] and_then_eq_Inr
        intro: talks_same talks_trans talks_apply_entry split: if_splits)
qed

lemma commit_fold_same:
  "rf_outbox (fold commit_at ks n) = rf_outbox n" "rf_log (fold commit_at ks n) = rf_log n"
  "rf_id (fold commit_at ks n) = rf_id n" "last_applied (fold commit_at ks n) = last_applied n"
  "commit_index (fold commit_at ks n) \<in> insert (commit_index n) (set ks)"
proof (induction ks arbitrary: n)
  case (Cons k ks)
  { case 1 show ?case using Cons commit_at_fields [of k n] by auto
  next case 2 show ?case using Cons commit_at_fields [of k n] by auto
  next case 3 show ?case using Cons commit_at_fields [of k n] by auto
  next case 4 show ?case using Cons commit_at_fields [of k n] by auto
  next case 5 show ?case using Cons(5) [of "commit_at k n"] commit_at_fields [of k n] by auto }
qed simp_all

lemma talks_update_commit: "update_commit_index E n = Inr n' \<Longrightarrow> talks ids n n'"
  using talks_apply_committed [of E "persist_meta (fold commit_at [commit_index n + 1..<length (rf_log n)] n)" n' ids]
  by (simp add: update_commit_index_def Let_def talks_def persist_meta_def commit_fold_same)

lemma append_loop_same:
  "rf_outbox (append_loop E i es n) = rf_outbox n" "rf_id (append_loop E i es n) = rf_id n"
  by (induction E i es n rule: append_loop.induct) (auto simp: push_log_entry_def truncate_log_def)

lemma talks_append_entries:
  assumes "handle_append_entries E a now n = Inr (n', r)"
  shows "talks ids n n'"
proof -
  let ?n = "if ae_term a > current_term n then step_down (ae_term a) now n else n"
  let ?m = "reset_election_timeout now (?n\<lparr>rf_role := Follower, leader_id := Some (ae_leader_id a)\<rparr>)"
  let ?l = "append_loop E (ae_prev_log_index a + 1) (ae_entries a) ?m"
  let ?k = "persist_meta (?l\<lparr>commit_index := min (ae_leader_commit a) (length (rf_log ?l) - 1)\<rparr>)"
  have "rf_outbox n' = rf_outbox n \<or> rf_outbox n' = rf_outbox ?m \<or> apply_committed_entries E ?k = Inr n'"
    using assms by (auto simp: handle_append_entries_def Let_def and_then_eq_Inr split: if_splits)
  moreover have "talks ids n ?m" using talks_step_down [of ids n] by (auto simp: talks_def)
  moreover have "rf_outbox ?k = rf_outbox ?m" by (simp add: append_loop_same persist_meta_def)
  ultimately show ?thesis
    using talks_apply_committed [of E ?k n' ids] by (auto simp: talks_def)
qed

lemma apply_committed_fields:
  "apply_committed_entries E n = Inr n' \<Longrightarrow>
     rf_id n' = rf_id n \<and> rf_log n' = rf_log n \<and> rf_role n' = rf_role n \<and> commit_index n' = commit_index n \<and>
     last_applied n' = max (last_applied n) (commit_index n)"
proof (induction E n rule: apply_committed_entries.induct)
  case (1 E n)
  show ?case
  proof (cases "last_applied n < commit_index n")
    case True
    with "1.prems" obtain m where m: "apply_entry_at E (last_applied n + 1) n = Inr m" "apply_committed_entries E m = Inr n'"
      by (auto simp: apply_committed_entries.simps [of E n] and_then_eq_Inr)
    from "1.IH" [OF True m] apply_entry_at_simps [OF m(1)] True show ?thesis by auto
  next
    case False
    with "1.prems" show ?thesis by (simp add: apply_committed_entries.simps [of E n])
  qed
qed

lemma step_down_id: "rf_id (step_down t now n) = rf_id n"
proof -
  have "rf_id (fold (\<lambda>(_, rsp) n. respond rsp False None uncertain_message None t n) ps m) = rf_id m"
    for ps :: "((nat \<times> u64) \<times> responder) list" and m
    by (induction ps arbitrary: m) auto
  then show ?thesis by (simp add: step_down_def Let_def persist_meta_def)
qed

lemma append_entries_follower:
  assumes "handle_append_entries E a now n = Inr (n', r)"
  shows "ar_follower_id r = rf_id n"
proof -
  let ?n = "if ae_term a > current_term n then step_down (ae_term a) now n else n"
  let ?m = "reset_election_timeout now (?n\<lparr>rf_role := Follower, leader_id := Some (ae_leader_id a)\<rparr>)"
  let ?l = "append_loop E (ae_prev_log_index a + 1) (ae_entries a) ?m"
  let ?k = "persist_meta (?l\<lparr>commit_index := min (ae_leader_commit a) (length (rf_log ?l) - 1)\<rparr>)"
  have "rf_id ?m = rf_id n" by (simp add: step_down_id)
  moreover have "rf_id ?k = rf_id ?m" by (simp add: append_loop_same persist_meta_def)
  moreover have "ar_follower_id r = rf_id n \<or> ar_follower_id r = rf_id ?m \<or>
      (\<exists>k. ar_follower_id r = rf_id k \<and> apply_committed_entries E ?k = Inr k)"
    using assms by (auto simp: handle_append_entries_def Let_def and_then_eq_Inr append_reply_def split: if_splits)
  ultimately show ?thesis using apply_committed_fields [of E ?k] by (elim disjE exE conjE) (simp_all only:)
qed

lemma talks_append_response:
  assumes run: "handle_append_entries_response E r now n = Inr n'" and "peered ids n" and "addressed ids (rf_id n, MAppendEntriesResponse r)"
  shows "talks ids n n'"
proof -
  let ?m = "n\<lparr>match_index := AList.update (ar_follower_id r) (ar_match_index r) (match_index n),
               next_index := AList.update (ar_follower_id r) (ar_match_index r + 1) (next_index n)\<rparr>"
  have "n' = step_down (ar_term r) now n \<or> n' = n \<or> update_commit_index E ?m = Inr n' \<or>
      (\<exists>k. send_append_entries (ar_follower_id r) (n\<lparr>next_index := k\<rparr>) = Inr n')"
  proof (cases "map_of (next_index n) (ar_follower_id r)")
    case None
    show ?thesis
      using run unfolding handle_append_entries_response_def Let_def None option.case panic_def
      by (cases "ar_term r > current_term n"; cases "rf_role n \<noteq> Leader"; cases "ar_term r < current_term n"; cases "ar_success r") auto
  next
    case (Some k)
    show ?thesis
      using run unfolding handle_append_entries_response_def Let_def Some option.case
      by (cases "ar_term r > current_term n"; cases "rf_role n \<noteq> Leader"; cases "ar_term r < current_term n"; cases "ar_success r") auto
  qed
  then consider "n' = step_down (ar_term r) now n" | "n' = n" | "update_commit_index E ?m = Inr n'"
    | "\<exists>k. send_append_entries (ar_follower_id r) (n\<lparr>next_index := k\<rparr>) = Inr n'" by blast
  then show ?thesis
  proof cases
    case 3
    from talks_update_commit [OF this, of ids] show ?thesis by (simp add: talks_def)
  next
    case 4
    then obtain k where k: "send_append_entries (ar_follower_id r) (n\<lparr>next_index := k\<rparr>) = Inr n'" by blast
    have "talks ids (n\<lparr>next_index := k\<rparr>) n'"
      by (rule talks_send [OF k]) (use assms(2,3) in \<open>simp_all add: peered_def addressed_def, metis\<close>)
    then show ?thesis by (simp add: talks_def)
  qed (simp_all add: talks_step_down talks_same)
qed

lemma talks_append_command:
  assumes "append_command E c n = Inr (n', k)" and "peered ids n"
  shows "talks ids n n'"
proof -
  let ?n = "push_log_entry E \<lparr>le_term = current_term n, le_payload = PCommand (log_record_new E 0 c)\<rparr> n"
  have "talks ids ?n n'" if "send_all (rf_peers n) ?n = Inr n'"
    by (rule talks_send_all [OF that]) (use assms(2) in \<open>auto simp: peered_def push_log_entry_def\<close>)
  moreover have "update_commit_index E ?n = Inr n' \<or> send_all (rf_peers n) ?n = Inr n'"
    using assms(1) by (auto simp: append_command_def Let_def and_then_eq_Inr panic_def push_log_entry_def split: if_splits)
  ultimately have "talks ids ?n n'" using talks_update_commit by blast
  then show ?thesis by (simp add: talks_def push_log_entry_def)
qed

lemma talks_store_write:
  assumes "submit_store_write E c rsp n = Inr n'" and "peered ids n"
  shows "talks ids n n'"
proof (cases "rf_role n = Leader")
  case True
  then obtain m k where m: "append_command E c n = Inr (m, k)"
    using assms(1) by (auto simp: submit_store_write_def and_then_eq_Inr)
  have "talks ids m n'"
    using assms(1) True m by (auto simp: submit_store_write_def Let_def panic_def talks_respond intro: talks_same split: if_splits)
  with talks_append_command [OF m assms(2)] show ?thesis by (rule talks_trans)
qed (use assms(1) in \<open>auto simp: submit_store_write_def talks_respond\<close>)

lemma talks_store_request:
  assumes "handle_store_request E q now n = Inr n'" and "peered ids n"
  shows "talks ids n n'"
  using assms
  by (auto simp: handle_store_request_def talks_respond dest: talks_store_write split: store_operation.splits sum.splits)

lemma talks_handle_message:
  assumes run: "handle_message E m now n = Inr n'" and peered: "peered ids n" and addr: "addressed ids (rf_id n, m)"
    and member: "\<not> (\<exists>r. m = MAddNode r) \<and> \<not> (\<exists>r. m = MRemoveNode r)"
  shows "talks ids n n'"
proof (cases m)
  case (MRequestVote q)
  then obtain k r where "handle_request_vote q now n = Inr (k, r)"
    "n' = push_outbox (rv_candidate_id q) (MRequestVoteResponse r) k"
    using run by (auto simp: handle_message_def and_then_eq_Inr)
  then show ?thesis by (auto intro!: talks_trans [OF talks_request_vote talks_push] simp: addressed_def)
next
  case (MAppendEntries a)
  then obtain k r where k: "handle_append_entries E a now n = Inr (k, r)"
    "n' = push_outbox (ae_leader_id a) (MAppendEntriesResponse r) k"
    using run by (auto simp: handle_message_def and_then_eq_Inr)
  have "addressed ids (ae_leader_id a, MAppendEntriesResponse r)"
    using append_entries_follower [OF k(1)] addr MAppendEntries by (auto simp: addressed_def)
  with k talks_trans [OF talks_append_entries talks_push] show ?thesis by blast
next
  case (MClientCommand c)
  then show ?thesis
    using run peered talks_append_command [of E c n _ _ ids]
    by (auto simp: handle_message_def and_then_eq_Inr forward_to_leader_def addressed_def
        intro: talks_push talks_same split: if_splits option.splits)
qed (use run peered addr member in
  \<open>auto simp: handle_message_def intro: talks_vote_response talks_append_response talks_store_request
     talks_start_election talks_same\<close>)

lemma talks_tick:
  assumes "tick now n = Inr n'" and "peered ids n"
  shows "talks ids n n'"
proof -
  have "talks ids n k" if "send_heartbeats n = Inr k" for k
    by (rule talks_send_all [OF that [unfolded send_heartbeats_def]]) (use assms(2) in \<open>auto simp: peered_def\<close>)
  then show ?thesis
    using assms talks_start_election
    by (auto simp: tick_def and_then_eq_Inr talks_def split: if_splits)
qed

lemma talks_addressed: "talks ids n n' \<Longrightarrow> list_all (addressed ids) (rf_outbox n) \<Longrightarrow> list_all (addressed ids) (rf_outbox n')"
  by (auto simp: talks_def)

definition post_ok :: "membership \<Rightarrow> cluster \<Rightarrow> bool" where
  "post_ok M c \<longleftrightarrow>
     (\<forall>x \<in> cl_net c. addressed (mb_ids M) x) \<and>
     (\<forall>i \<in> mb_ids M. list_all (addressed (mb_ids M)) (rf_outbox (cl_nodes c i)))"

lemma post_ok_step:
  assumes step: "live_step E M c c'" and M: "membership_ok M" and inv: "cluster_inv E M c" and post: "post_ok M c"
  shows "post_ok M c'"
proof -
  let ?ids = "mb_ids M"
  have peered: "peered ?ids (cl_nodes c i)" and id: "rf_id (cl_nodes c i) = i" if "i \<in> ?ids" for i
    using inv M that by (auto simp: cluster_inv_def nodes_valid_def peered_def membership_ok_def)
  have good: "\<not> (\<exists>r. m = MAddNode r) \<and> \<not> (\<exists>r. m = MRemoveNode r)" if "(i, m) \<in> cl_net c" for i m
    using inv that by (auto simp: cluster_inv_def message_ok_def)
  have set_node: "post_ok M (set_node i n c)" if "i \<in> ?ids" "talks ?ids (cl_nodes c i) n" for i n
    using post talks_addressed [OF that(2)] that(1) by (auto simp: post_ok_def set_node_def)
  from step show ?thesis
  proof cases
    case (Deliver i m now n)
    have "addressed ?ids (rf_id (cl_nodes c i), m)" using post Deliver(2,3) id by (simp add: post_ok_def)
    with talks_handle_message [OF Deliver(5) peered [OF Deliver(2)] _ good [OF Deliver(3)]] set_node Deliver(1,2)
    show ?thesis by blast
  next
    case (Client i m now n)
    have "addressed ?ids (rf_id (cl_nodes c i), m)" "\<not> (\<exists>r. m = MAddNode r) \<and> \<not> (\<exists>r. m = MRemoveNode r)"
      using Client(3) by (cases m; simp add: addressed_def)+
    with talks_handle_message [OF Client(5) peered [OF Client(2)]] set_node Client(1,2) show ?thesis by blast
  next
    case (Request i q now n)
    with talks_store_request [OF Request(4) peered] set_node show ?thesis by blast
  next
    case (Tick i now n)
    with talks_tick [OF Tick(4) peered] set_node show ?thesis by blast
  next
    case (Send i sent)
    then show ?thesis using post by (fastforce simp: post_ok_def set_node_def list_all_iff)
  next
    case (Restart i now)
    then show ?thesis using post by (auto simp: post_ok_def set_node_def restart_def)
  next
    case (Elect i now n)
    with talks_start_election [OF Elect(4) peered] set_node show ?thesis by blast
  next
    case (Configure i timeout now)
    then show ?thesis using set_node talks_same by (simp add: set_election_timeout_def)
  qed
qed

lemma live_reach_post:
  assumes "live_reach E M c" and M: "membership_ok M" and dummy: "entry_good E (dummy_entry E)"
  shows "post_ok M c"
  using assms(1)
proof (induction rule: live_reach.induct)
  case (Init c)
  have "rf_outbox (cl_nodes c i) = []" if i: "i \<in> mb_ids M" for i
  proof -
    obtain now rand where "new_in_dir E [] i (mb_peers M i) (mb_config M) now rand = Inr (cl_nodes c i)"
      using Init i by (auto simp: cluster_init_def)
    moreover have "i \<noteq> 0" using M i by (auto simp: membership_ok_def)
    ultimately show ?thesis
      using new_in_dir_good(5) [of E "[]" i _ _ _ _ _ "[]"] dummy by (simp add: file_or_empty_def)
  qed
  then show ?case using Init by (auto simp: post_ok_def cluster_init_def)
next
  case (Step c c')
  then show ?case
    using post_ok_step [OF Step(2) M cluster_reach_inv [OF live_reach_cluster [OF Step(1)] M dummy]] by blast
qed

section \<open>Well-formed nodes\<close>

definition node_well_formed :: "'x raft_ext_scheme \<Rightarrow> node_id \<Rightarrow> node_id set \<Rightarrow> raft_node \<Rightarrow> bool" where
  "node_well_formed E i ids n \<longleftrightarrow>
     rf_id n = i \<and> set (rf_peers n) = ids - {i} \<and>
     rf_log n \<noteq> [] \<and> rf_log n ! 0 = dummy_entry E \<and> log_good E n \<and> meta_good n \<and>
     commit_index n < length (rf_log n) \<and> last_applied n < length (rf_log n) \<and>
     distinct (map fst (match_index n)) \<and> fst ` set (match_index n) \<subseteq> set (rf_peers n) \<and>
     (rf_role n \<noteq> Follower \<longrightarrow> distinct (votes_received n)) \<and>
     (rf_role n = Leader \<longrightarrow>
        majority n \<le> length (votes_received n) \<and>
        (\<forall>v \<in> set (rf_peers n). \<exists>k. map_of (next_index n) v = Some k \<and> 1 \<le> k \<and> k \<le> length (rf_log n)))"

section \<open>Handlers return\<close>

definition steady :: "raft_node \<Rightarrow> bool" where
  "steady n \<longleftrightarrow>
     commit_index n < length (rf_log n) \<and>
     (rf_role n = Leader \<longrightarrow>
        (\<forall>v \<in> set (rf_peers n). \<exists>k. map_of (next_index n) v = Some k \<and> 1 \<le> k \<and> k \<le> length (rf_log n)))"

lemma apply_entry_returns: "i < length (rf_log n) \<Longrightarrow> \<exists>n'. apply_entry_at E i n = Inr n'"
  by (auto simp: apply_entry_at_def Let_def split: prod.splits)

lemma apply_committed_returns:
  "commit_index n < length (rf_log n) \<Longrightarrow> \<exists>n'. apply_committed_entries E n = Inr n'"
proof (induction E n rule: apply_committed_entries.induct)
  case (1 E n)
  show ?case
  proof (cases "last_applied n < commit_index n")
    case True
    with "1.prems" obtain m where m: "apply_entry_at E (last_applied n + 1) n = Inr m"
      using apply_entry_returns [of "last_applied n + 1" n E] by auto
    with "1.IH" [OF True m] "1.prems" apply_entry_at_simps [OF m] True show ?thesis
      by (simp add: apply_committed_entries.simps [of E n])
  next
    case False
    then show ?thesis by (simp add: apply_committed_entries.simps [of E n])
  qed
qed

lemma update_commit_returns:
  assumes "commit_index n < length (rf_log n)"
  shows "\<exists>n'. update_commit_index E n = Inr n'"
  using apply_committed_returns [of "persist_meta (fold commit_at [commit_index n + 1..<length (rf_log n)] n)" E] assms
    commit_fold_same(2,5) [of "[commit_index n + 1..<length (rf_log n)]" n]
  by (auto simp: update_commit_index_def Let_def persist_meta_def)

lemma send_returns:
  assumes "map_of (next_index n) peer = Some k" and "1 \<le> k" and "k \<le> length (rf_log n)"
  shows "\<exists>m. send_append_entries peer n = Inr (push_outbox peer (MAppendEntries m) n)"
  using assms by (auto simp: send_append_entries_def make_append_entries_def)

lemma send_all_returns:
  "\<forall>v \<in> set ps. \<exists>k. map_of (next_index n) v = Some k \<and> 1 \<le> k \<and> k \<le> length (rf_log n) \<Longrightarrow> \<exists>n'. send_all ps n = Inr n' \<and> rf_log n' = rf_log n"
proof (induction ps arbitrary: n)
  case (Cons p ps)
  from Cons.prems obtain k where "map_of (next_index n) p = Some k" "1 \<le> k" "k \<le> length (rf_log n)" by auto
  from send_returns [OF this] obtain a where a: "send_append_entries p n = Inr (push_outbox p (MAppendEntries a) n)" by blast
  from Cons.prems Cons.IH [of "push_outbox p (MAppendEntries a) n"] show ?case by (simp add: a push_outbox_def)
qed simp

lemma init_peers_returns: "rf_log n \<noteq> [] \<Longrightarrow> \<exists>n'. init_peers ps n = Inr n'"
proof (induction ps arbitrary: n)
  case (Cons p ps)
  let ?m = "n\<lparr>next_index := AList.update p (length (rf_log n)) (next_index n), match_index := AList.update p 0 (match_index n)\<rparr>"
  have "map_of (next_index ?m) p = Some (length (rf_log n))" "1 \<le> length (rf_log n)" "length (rf_log n) \<le> length (rf_log ?m)"
    using Cons.prems by (simp_all add: map_of_update Suc_le_eq)
  from send_returns [OF this] obtain a where a: "send_append_entries p ?m = Inr (push_outbox p (MAppendEntries a) ?m)" by blast
  from Cons.IH [of "push_outbox p (MAppendEntries a) ?m"] Cons.prems show ?case by (simp add: a push_outbox_def)
qed simp

lemma become_leader_returns: "rf_log n \<noteq> [] \<Longrightarrow> \<exists>n'. become_leader now n = Inr n'"
  using init_peers_returns [of "n\<lparr>rf_role := Leader, leader_id := Some (rf_id n)\<rparr>" "rf_peers n"]
  by (auto simp: become_leader_def)

lemma start_election_returns: "rf_log n \<noteq> [] \<Longrightarrow> \<exists>n'. start_election now n = Inr n'"
  using become_leader_returns by (simp add: start_election_def Let_def last_log_def persist_meta_def)

lemma vote_response_returns: "rf_log n \<noteq> [] \<Longrightarrow> \<exists>n'. handle_vote_response r now n = Inr n'"
  using become_leader_returns by (simp add: handle_vote_response_def Let_def)

lemma step_down_fields:
  "rf_log (step_down t now n) = rf_log n" "commit_index (step_down t now n) = commit_index n"
  using step_down_core(1) [of t now n] by (simp_all add: core_of_def)

lemma request_vote_returns:
  assumes "rf_log n \<noteq> []"
  shows "\<exists>n' r. handle_request_vote q now n = Inr (n', r)"
proof -
  have "rf_log (if rv_term q > current_term n then step_down (rv_term q) now n else n) \<noteq> []"
    using assms by (simp add: step_down_fields)
  then show ?thesis unfolding handle_request_vote_def Let_def last_log_def by auto
qed

lemma append_entries_returns:
  assumes "rf_log n \<noteq> []"
  shows "\<exists>n' r. handle_append_entries E a now n = Inr (n', r)"
proof -
  let ?n = "if ae_term a > current_term n then step_down (ae_term a) now n else n"
  let ?m = "reset_election_timeout now (?n\<lparr>rf_role := Follower, leader_id := Some (ae_leader_id a)\<rparr>)"
  let ?l = "append_loop E (ae_prev_log_index a + 1) (ae_entries a) ?m"
  let ?k = "persist_meta (?l\<lparr>commit_index := min (ae_leader_commit a) (length (rf_log ?l) - 1)\<rparr>)"
  have ne: "rf_log ?m \<noteq> []" using assms by (simp add: step_down_fields)
  have "rf_log (append_loop E (Suc k) es n) \<noteq> []" if "rf_log n \<noteq> []" for k es n
    using that
  proof (induction es arbitrary: k n)
    case (Cons e es)
    show ?case unfolding append_loop.simps add_Suc
      by (rule Cons.IH) (use Cons.prems in \<open>auto simp: push_log_entry_def truncate_log_def\<close>)
  qed simp
  from this [OF ne, of "ae_prev_log_index a" "ae_entries a"] have "0 < length (rf_log ?l)" by simp
  then have "commit_index ?k < length (rf_log ?k)" unfolding persist_meta_def by (simp add: min_less_iff_disj split del: if_split)
  from apply_committed_returns [OF this, of E] obtain n' where "apply_committed_entries E ?k = Inr n'" by blast
  then show ?thesis unfolding handle_append_entries_def Let_def by auto
qed

lemma append_response_returns:
  assumes "steady n" and "rf_role n = Leader \<longrightarrow> ar_follower_id r \<in> set (rf_peers n)"
  shows "\<exists>n'. handle_append_entries_response E r now n = Inr n'"
proof (cases "rf_role n = Leader")
  case True
  then obtain k where k: "map_of (next_index n) (ar_follower_id r) = Some k" "1 \<le> k" "k \<le> length (rf_log n)"
    using assms by (auto simp: steady_def)
  let ?k = "if k > 1 then k - 1 else k"
  let ?m = "n\<lparr>next_index := AList.update (ar_follower_id r) ?k (next_index n)\<rparr>"
  have "\<exists>n'. send_append_entries (ar_follower_id r) ?m = Inr n'"
  proof -
    have "map_of (next_index ?m) (ar_follower_id r) = Some ?k" "1 \<le> ?k" "?k \<le> length (rf_log ?m)"
      using k by (auto simp: map_of_update)
    from send_returns [OF this] show ?thesis by blast
  qed
  moreover have "\<exists>n'. update_commit_index E (n\<lparr>match_index := x, next_index := y\<rparr>) = Inr n'" for x y
    by (rule update_commit_returns) (use assms(1) in \<open>simp add: steady_def\<close>)
  ultimately show ?thesis unfolding handle_append_entries_response_def Let_def k(1) option.case by simp
qed (simp add: handle_append_entries_response_def)

lemma update_commit_log: "update_commit_index E n = Inr n' \<Longrightarrow> rf_log n' = rf_log n"
  by (auto simp: update_commit_index_def Let_def persist_meta_def commit_fold_same dest: apply_committed_fields)

lemma append_command_returns:
  assumes "steady n" and "rf_role n = Leader"
  shows "\<exists>n'. append_command E c n = Inr (n', length (rf_log n)) \<and> length (rf_log n') = Suc (length (rf_log n))"
proof -
  let ?n = "push_log_entry E \<lparr>le_term = current_term n, le_payload = PCommand (log_record_new E 0 c)\<rparr> n"
  have "\<exists>n'. update_commit_index E ?n = Inr n'"
    by (rule update_commit_returns) (use assms in \<open>simp add: steady_def push_log_entry_def\<close>)
  moreover have "\<exists>n'. send_all (rf_peers ?n) ?n = Inr n' \<and> rf_log n' = rf_log ?n"
    by (rule send_all_returns) (use assms in \<open>fastforce simp: steady_def push_log_entry_def\<close>)
  moreover have "length (rf_log ?n) = Suc (length (rf_log n))" by (simp add: push_log_entry_def)
  ultimately show ?thesis
    using assms(2) update_commit_log [of E ?n] by (auto simp: append_command_def Let_def)
qed

lemma store_write_returns: "steady n \<Longrightarrow> \<exists>n'. submit_store_write E c rsp n = Inr n'"
  using append_command_returns [of n E c] by (auto simp: submit_store_write_def Let_def)

lemma store_request_returns: "steady n \<Longrightarrow> \<exists>n'. handle_store_request E q now n = Inr n'"
  using store_write_returns [of n E] by (simp add: handle_store_request_def split: store_operation.splits sum.splits)

lemma handle_message_returns:
  assumes steady: "steady n" and "peered ids n" and "addressed ids (rf_id n, m)"
    and "\<not> (\<exists>r. m = MAddNode r) \<and> \<not> (\<exists>r. m = MRemoveNode r)"
  shows "\<exists>n'. handle_message E m now n = Inr n'"
proof -
  have log: "rf_log n \<noteq> []" using steady by (auto simp: steady_def)
  show ?thesis
  proof (cases m)
    case (MRequestVote q)
    with request_vote_returns [OF log, of q now] show ?thesis by (auto simp: handle_message_def)
  next
    case (MAppendEntries a)
    with append_entries_returns [OF log, of E a now] show ?thesis by (auto simp: handle_message_def)
  next
    case (MAppendEntriesResponse r)
    have "ar_follower_id r \<in> set (rf_peers n)"
      using assms(2,3) MAppendEntriesResponse by (simp add: peered_def addressed_def) metis
    with append_response_returns [OF steady, of r E now] MAppendEntriesResponse show ?thesis by (simp add: handle_message_def)
  next
    case (MClientCommand c)
    with append_command_returns [OF steady, of E c] show ?thesis by (auto simp: handle_message_def)
  qed (use assms(4) steady log vote_response_returns store_request_returns start_election_returns in
    \<open>simp_all add: handle_message_def\<close>)
qed

lemma tick_returns:
  assumes "steady n"
  shows "\<exists>n'. tick now n = Inr n'"
proof -
  have "\<exists>n'. send_heartbeats n = Inr n'" if "rf_role n = Leader"
    using send_all_returns [of "rf_peers n" n] assms that by (auto simp: steady_def send_heartbeats_def)
  moreover have "rf_log n \<noteq> []" using assms by (auto simp: steady_def)
  ultimately show ?thesis using start_election_returns by (auto simp: tick_def)
qed

section \<open>Properties\<close>

lemma live_reach_steady:
  assumes "live_reach E M c" and "membership_ok M" and "entry_good E (dummy_entry E)" and i: "i \<in> mb_ids M"
  shows "steady (cl_nodes c i)" and "peered (mb_ids M) (cl_nodes c i)" and "rf_id (cl_nodes c i) = i"
proof -
  have "mb_ids M \<noteq> {}" using i by blast
  from live_reach_abstracts [OF assms(1-3) this] obtain d p where abs: "abstracts E M d c p" by blast
  then have "p_core p i = core_of (cl_nodes c i)" "keys_ok (cl_nodes c i)" and inv: "proto_inv (mb_ids M) (dummy_entry E) (entry_apply E) d p"
    using i by (simp_all add: abstracts_def)
  with node_safeD [OF proto_invD(9) [OF inv] i] show "steady (cl_nodes c i)"
    by (auto simp: steady_def node_safe_def keys_ok_def core_of_def)
  have "cluster_inv E M c" by (rule cluster_reach_inv [OF live_reach_cluster [OF assms(1)] assms(2,3)])
  then show "peered (mb_ids M) (cl_nodes c i)" "rf_id (cl_nodes c i) = i"
    using i assms(2) by (auto simp: cluster_inv_def nodes_valid_def peered_def membership_ok_def)
qed

text \<open>
  C16. No handler panics or loops as long as the membership is not changed: in every state that a cluster of fixed
  membership reaches without losing the memory of a node, handling any message that is under way, any command or store request
  of a client, and any tick returns; none of the assertions, unwrapped options and index operations of the
  node fails. Messages that add or remove a node are excluded, and \<open>removed_peer_panics\<close> shows why.
\<close>

theorem handlers_return:
  assumes reach: "live_reach E M c" and M: "membership_ok M" and dummy: "entry_good E (dummy_entry E)" and i: "i \<in> mb_ids M"
  shows "(\<forall>m. (i, m) \<in> cl_net c \<or> is_client m \<longrightarrow> (\<exists>n. handle_message E m now (cl_nodes c i) = Inr n)) \<and>
    (\<exists>n. handle_store_request E q now (cl_nodes c i) = Inr n) \<and> (\<exists>n. tick now (cl_nodes c i) = Inr n)"
proof -
  note n = live_reach_steady [OF assms]
  have inv: "cluster_inv E M c" by (rule cluster_reach_inv [OF live_reach_cluster [OF reach] M dummy])
  have "\<exists>n. handle_message E m now (cl_nodes c i) = Inr n" if m: "(i, m) \<in> cl_net c \<or> is_client m" for m
  proof -
    have "addressed (mb_ids M) (rf_id (cl_nodes c i), m)"
      using live_reach_post [OF reach M dummy] n(3) m by (cases m) (auto simp: post_ok_def addressed_def)
    moreover have "\<not> (\<exists>r. m = MAddNode r) \<and> \<not> (\<exists>r. m = MRemoveNode r)"
      using m inv by (cases m) (auto simp: cluster_inv_def message_ok_def)
    ultimately show ?thesis by (rule handle_message_returns [OF n(1,2)])
  qed
  with store_request_returns [OF n(1)] tick_returns [OF n(1)] show ?thesis by blast
qed

theorem handlers_return_witness:
  "\<exists>c. live_reach sample_raft_ext sample_membership c \<and> rf_role (cl_nodes c 1) = Leader \<and>
     (\<exists>n. handle_message sample_raft_ext (MClientCommand sample_command) 5 (cl_nodes c 1) = Inr n)"
proof (rule sample_replication)
  fix c assume c: "live_reach sample_raft_ext sample_membership c" "rf_role (cl_nodes c 1) = Leader"
  from handlers_return [OF c(1) sample_membership_ok sample_dummy sample_ids(1), of 5] c show ?thesis
    by (metis is_client.simps(1))
qed

text \<open>
  Once a leader has applied the removal of a peer, an answer of this peer in the leader's term that refuses its
  entries makes the leader panic, because the peer has no next index any more.
\<close>

lemma removed_peer_panics:
  assumes "apply_entry_at E k n = Inr n'" and "le_payload (rf_log n ! k) = PRemoveNode j" and "rf_role n = Leader"
    and "ar_follower_id r = j" and "ar_term r = current_term n" and "\<not> ar_success r"
  shows "handle_message E (MAppendEntriesResponse r) now n' = panic ''next_index missing for peer''"
proof -
  have "map_of (next_index n') j = None \<and> rf_role n' = Leader \<and> current_term n' = current_term n"
    using assms(1-3) by (auto simp: apply_entry_at_def apply_payload_def Let_def panic_def answer_pending_def respond_def delete_conv
        split: if_splits option.splits prod.splits)
  with assms(4-6) show ?thesis
    by (simp add: handle_message_def handle_append_entries_response_def panic_def)
qed

text \<open>
  C17. The states of the nodes are well formed: in every state that a cluster of fixed membership reaches without losing the memory
  of a node, each node has its own identity and all others as peers, its log starts with the placeholder, its log file can be read, its metadata file has its term and
  vote, both indexes are within the log, the progress of peers is kept once per peer and for peers only, no vote is
  counted twice, and a leader has a majority of votes and a valid next index for every peer.
\<close>

theorem nodes_well_formed:
  assumes reach: "live_reach E M c" and M: "membership_ok M" and dummy: "entry_good E (dummy_entry E)" and i: "i \<in> mb_ids M"
  shows "node_well_formed E i (mb_ids M) (cl_nodes c i)"
proof -
  let ?n = "cl_nodes c i"
  have ids: "mb_ids M \<noteq> {}" using i by blast
  have "cluster_inv E M c" by (rule cluster_reach_inv [OF live_reach_cluster [OF reach] M dummy])
  then have "node_good E ?n" "node_votes (cl_votes c) ?n" using i by (auto simp: cluster_inv_def nodes_valid_def)
  then have files: "log_good E ?n" "meta_good ?n" and votes: "rf_role ?n \<noteq> Follower \<longrightarrow> distinct (votes_received ?n)"
    "rf_role ?n = Leader \<longrightarrow> majority ?n \<le> length (votes_received ?n)" by (simp_all add: node_good_def node_votes_def)
  from live_reach_abstracts [OF reach M dummy ids] obtain d p where abs: "abstracts E M d c p" by blast
  then have core: "p_core p i = core_of ?n" and keys: "keys_ok ?n" and p: "proto_inv (mb_ids M) (dummy_entry E) (entry_apply E) d p"
    using i by (simp_all add: abstracts_def)
  have "log_ok (p_lead p) (dummy_entry E) (rf_log ?n)" using node_log_ok(1) [OF proto_invD(5) [OF p] i] core by simp
  then have start: "rf_log ?n \<noteq> []" "rf_log ?n ! 0 = dummy_entry E" by (auto simp: log_ok_def simp flip: hd_conv_nth)
  have safe: "commit_index ?n < length (rf_log ?n)" "last_applied ?n < length (rf_log ?n)" "dom (map_of (match_index ?n)) \<subseteq> mb_ids M - {i}"
    using node_safeD [OF proto_invD(9) [OF p] i] core by (simp_all add: node_safe_def)
  have self: "rf_id ?n = i" "set (rf_peers ?n) = mb_ids M - {i}" using live_reach_steady(2,3) [OF assms] by (simp_all add: peered_def)
  have "fst ` set (match_index ?n) \<subseteq> set (rf_peers ?n)" using safe(3) self(2) by (simp add: dom_map_of_conv_image_fst)
  with self start files safe(1,2) votes keys show ?thesis unfolding node_well_formed_def keys_ok_def by blast
qed

theorem nodes_well_formed_witness:
  "\<exists>c. live_reach sample_raft_ext sample_membership c \<and> rf_role (cl_nodes c 1) = Leader \<and>
     node_well_formed sample_raft_ext 1 (mb_ids sample_membership) (cl_nodes c 1)"
proof (rule sample_replication)
  fix c assume c: "live_reach sample_raft_ext sample_membership c" "rf_role (cl_nodes c 1) = Leader"
  with nodes_well_formed [OF c(1) sample_membership_ok sample_dummy sample_ids(1)] show ?thesis by blast
qed

end
