(* ===== verification/Raft_Recovery.thy ===== *)
theory Raft_Recovery
  imports Raft_Progress
begin

text \<open>
  A Raft node that is started again on its files (\<open>RaftNode::new_in_dir\<close>): what it has again of its
  database, and what becomes of its log.
\<close>

section \<open>The files of a node\<close>

lemma raft_names:
  "parse_sstable_name raft_log_name = None" "parse_sstable_name raft_meta_name = None"
  "raft_log_name \<noteq> raft_meta_name" "raft_log_name \<noteq> log_name" "raft_meta_name \<noteq> log_name"
  by (simp_all add: parse_sstable_name_def raft_log_name_def raft_meta_name_def log_name_def strip_prefix_def str_def)

lemma foreign_name: "parse_sstable_name name = None \<Longrightarrow> sstable_name i \<noteq> name"
  by auto

text \<open>A file whose name is not that of a table does not matter to the database.\<close>

lemma drop_file:
  assumes "parse_sstable_name name = None" and "db_inv E db" and "disk_ok db"
  defines "db' \<equiv> db\<lparr>db_dir := AList.delete name (db_dir db)\<rparr>"
  shows "db_inv E db'" "disk_ok db'" "view E db' = view E db"
proof -
  note other = foreign_name [OF assms(1)] foreign_name [OF assms(1), symmetric]
  have tables: "tables_of db' = tables_of db" by (simp add: db'_def)
  have at: "table_at E (db_dir db') k t" if "table_at E (db_dir db) k t" for k t
    using that by (auto simp: table_at_def db'_def delete_conv' other)
  then show "db_inv E db'"
    using assms(2) by (auto simp: db_inv_def tables db_weight_def) (auto simp: db'_def)
  show "view E db' = view E db" by (simp add: view_def tables) (simp add: db'_def)
  obtain ids where "table_files (db_dir db) ids" "map sstable_name ids = map st_file_name (rev (tables_of db))"
    using assms(3) by (auto simp: disk_ok_def)
  moreover from this have "table_files (db_dir db') ids"
    by (auto simp: table_files_def db'_def delete_conv' other distinct_delete split: if_splits)
  ultimately show "disk_ok db'" using assms(3) by (auto simp: disk_ok_def tables db'_def)
qed

text \<open>
  \<open>open_in_dir\<close> does not look at such a file: opening a directory with it or without it gives the same
  database but for the file itself. \<open>new_in_dir\<close> opens the database on the directory that also holds the
  log and the metadata of Raft, which its model takes out beforehand; by this lemma it makes no difference.
\<close>

lemma sstable_open_foreign:
  "parse_sstable_name name = None \<Longrightarrow> sstable_open (sstable_name i) (AList.delete name dir) = sstable_open (sstable_name i) dir"
  by (simp add: sstable_open_def fs_open_def delete_conv' foreign_name)

lemma table_ids_foreign:
  assumes "parse_sstable_name name = None"
  shows "table_ids (AList.delete name dir) = table_ids dir"
proof -
  have "List.map_filter (\<lambda>(name, _). parse_sstable_name name) (AList.delete name dir) =
      List.map_filter (\<lambda>(name, _). parse_sstable_name name) dir"
    using assms by (induction dir) (auto simp: List.map_filter_def)
  then show ?thesis by (simp add: table_ids_def)
qed

lemma load_tables_foreign:
  "parse_sstable_name name = None \<Longrightarrow>
     load_tables ids (db\<lparr>db_dir := AList.delete name (db_dir db)\<rparr>) =
     map_sum id (\<lambda>db. db\<lparr>db_dir := AList.delete name (db_dir db)\<rparr>) (load_tables ids db)"
proof (induction ids arbitrary: db)
  case (Cons i ids)
  show ?case
  proof (cases "sstable_open (sstable_name i) (db_dir db)")
    case (Inr t)
    have swap: "db\<lparr>db_dir := d, leveled_sstable := l, next_sstable_id := x\<rparr> = db\<lparr>leveled_sstable := l, next_sstable_id := x, db_dir := d\<rparr>" for d l x
      by simp
    from Cons.IH [OF Cons.prems, of "db\<lparr>leveled_sstable := (case leveled_sstable db of
              [] \<Rightarrow> [] | level0 # levels \<Rightarrow> (level0 @ [t]) # levels),
           next_sstable_id := max (next_sstable_id db) (i + 1)\<rparr>"] Inr Cons.prems show ?thesis
      by (simp add: sstable_open_foreign swap)
  qed (simp add: sstable_open_foreign Cons.prems)
qed simp

lemma open_foreign:
  assumes "parse_sstable_name name = None" and "name \<noteq> log_name"
  shows "open_in_dir E (AList.delete name dir) cfg =
    map_sum id (\<lambda>db. db\<lparr>db_dir := AList.delete name (db_dir db)\<rparr>) (open_in_dir E dir cfg)"
proof -
  define db where "db = \<lparr>db_dir = AList.delete log_name dir, db_data = [],
    db_log = logger_new E (case map_of dir log_name of None \<Rightarrow> [] | Some content \<Rightarrow> content),
    leveled_sstable = replicate (cfg_sstable_level cfg) [], data_threshold = cfg_data_threshold cfg,
    sstable_threshold = cfg_sstable_threshold cfg, next_sstable_id = 0, total_compactions = 0\<rparr>"
  have "open_in_dir E dir cfg = and_then (load_sstables db) (\<lambda>db. Inr (recover E db))"
    by (simp add: open_in_dir_def db_def Let_def)
  moreover have "open_in_dir E (AList.delete name dir) cfg =
      and_then (load_sstables (db\<lparr>db_dir := AList.delete name (db_dir db)\<rparr>)) (\<lambda>db. Inr (recover E db))"
    using assms(2) by (simp add: open_in_dir_def db_def Let_def delete_conv' delete_twist [of log_name name])
  moreover have "load_sstables (db\<lparr>db_dir := AList.delete name (db_dir db)\<rparr>) =
      map_sum id (\<lambda>db. db\<lparr>db_dir := AList.delete name (db_dir db)\<rparr>) (load_sstables db)"
    using load_tables_foreign [OF assms(1)] by (simp add: load_sstables_def table_ids_foreign [OF assms(1)])
  ultimately show ?thesis by (cases "load_sstables db") (simp_all add: recover_def split: prod.splits)
qed

lemma raft_files_ignored:
  "open_in_dir E (AList.delete raft_log_name (AList.delete raft_meta_name dir)) cfg =
     map_sum id (\<lambda>db. db\<lparr>db_dir := AList.delete raft_log_name (AList.delete raft_meta_name (db_dir db))\<rparr>) (open_in_dir E dir cfg)"
  using raft_names by (cases "open_in_dir E dir cfg") (simp_all add: open_foreign)

lemma node_disk_database:
  "AList.delete raft_log_name (AList.delete raft_meta_name (node_disk n)) =
     disk (rf_db n\<lparr>db_dir := AList.delete raft_log_name (AList.delete raft_meta_name (db_dir (rf_db n)))\<rparr>)"
  using raft_names(3-5)
  by (simp add: node_disk_def disk_def fs_write_def delete_update delete_update_same delete_twist [of raft_log_name])

text \<open>What \<open>new_in_dir\<close> makes of the files of a node.\<close>

lemma new_in_dir_fields:
  assumes "log_store n = Some s" and "store_holds E s es" and "meta_store n = Some m"
    and "open_in_dir E (AList.delete raft_log_name (AList.delete raft_meta_name (node_disk n))) cfg = Inr db"
  obtains n' where "new_in_dir E (node_disk n) i peers cfg now rand = Inr n'" and "rf_db n' = db"
    and "rf_log n' = (if es = [] then [dummy_entry E] else es)"
    and "last_applied n' = min (ms_commit_index (meta_open m)) (length (rf_log n') - 1)"
    and "commit_index n' = last_applied n'" and "current_term n' = ms_current_term (meta_open m)"
proof -
  have "list_all (entry_codec_ok E) es" "ls_file s = frames E es" using assms(2) by (simp_all add: store_holds_def)
  moreover from this(1) obtain s' where s': "log_store_open E (frames E es) = (s', es)" by (rule store_holds_open)
  ultimately have files: "log_store_open E (file_or_empty raft_log_name (node_disk n)) = (s', es)"
    "file_or_empty raft_meta_name (node_disk n) = m" using assms(1,3) by (simp_all add: node_disk_files)
  have "\<exists>n'. new_in_dir E (node_disk n) i peers cfg now rand = Inr n' \<and> rf_db n' = db \<and>
      rf_log n' = (if es = [] then [dummy_entry E] else es) \<and>
      last_applied n' = min (ms_commit_index (meta_open m)) (length (rf_log n') - 1) \<and>
      commit_index n' = last_applied n' \<and> current_term n' = ms_current_term (meta_open m)"
    by (simp add: new_in_dir_def Let_def files assms(4) reset_election_timeout_def)
  with that show thesis by blast
qed

lemma node_restarts:
  assumes run: "db_run E (rf_db n) m" and cfg: "config_ok cfg"
    and store: "log_store n = Some s" "store_holds E s es" "meta_store n = Some meta"
  shows "\<exists>n'. new_in_dir E (node_disk n) i peers cfg now rand = Inr n' \<and>
    current_term n' = ms_current_term (meta_open meta) \<and> (\<forall>key. raft_get E key n' = raft_get E key n)"
proof -
  have db: "db_inv E (rf_db n)" "disk_ok (rf_db n)" using run_inv_run [OF run] by (simp_all add: run_inv_def)
  let ?a = "rf_db n\<lparr>db_dir := AList.delete raft_meta_name (db_dir (rf_db n))\<rparr>"
  let ?b = "?a\<lparr>db_dir := AList.delete raft_log_name (db_dir ?a)\<rparr>"
  note a = drop_file [OF raft_names(2) db]
  note b = drop_file [OF raft_names(1) a(1,2)]
  have "0 < cfg_sstable_level cfg" using cfg by (simp add: config_ok_def)
  from reopen [OF b(1,2) this] obtain db' where db': "open_in_dir E (disk ?b) cfg = Inr db'" "db_inv E db'" "view E db' = view E ?b"
    by metis
  have "open_in_dir E (AList.delete raft_log_name (AList.delete raft_meta_name (node_disk n))) cfg = Inr db'"
    using db'(1) by (simp add: node_disk_database)
  from new_in_dir_fields [OF store this, of i peers now rand] obtain n' where
    "new_in_dir E (node_disk n) i peers cfg now rand = Inr n'" "rf_db n' = db'"
    "current_term n' = ms_current_term (meta_open meta)" by metis
  moreover have "view E db' = view E (rf_db n)" using db'(3) a(3) b(3) by simp
  ultimately show ?thesis using db(1) db'(2) by (simp add: raft_get_def db_get_view store_def)
qed

section \<open>Properties\<close>

text \<open>
  C20. A Raft node can always be started again on its files, and then answers every read as it did
  before: the log and the metadata of Raft and the tables and the log of the database do not
  disturb each other in the directory they share.
\<close>

theorem raft_node_survives_restart:
  assumes run: "db_run E (rf_db n) m" and cfg: "config_ok cfg"
    and store: "log_store n = Some s" "store_holds E s es" "meta_store n = Some meta"
  shows "\<exists>n'. new_in_dir E (node_disk n) i peers cfg now rand = Inr n' \<and>
    current_term n' = ms_current_term (meta_open meta) \<and> (\<forall>key. raft_get E key n' = raft_get E key n)"
  by (rule node_restarts [OF assms])

text \<open>
  C21. The first entry of the log, the placeholder at index 0, is not in the log file. A node that had
  stored entries has, after a restart, all of them one index lower than before: every committed
  entry is at another index than on the other nodes, the entry after the committed ones counts as applied though
  it never was, and when the log starts with an entry of a term other than 0 the node refuses every
  append request that starts at the beginning of the log, the lowest that a leader ever sends.
\<close>

theorem restart_shifts_log:
  assumes log: "rf_log n = dummy_entry E # es" "es \<noteq> []"
    and store: "log_store n = Some s" "store_holds E s es" "meta_store n = Some meta"
    and commit: "ms_commit_index (meta_open meta) = commit_index n"
    and run: "new_in_dir E (node_disk n) i peers cfg now rand = Inr n'"
  shows "(\<forall>k < length es. rf_log n' ! k = rf_log n ! Suc k) \<and> length (rf_log n') = length es \<and>
    last_applied n' = min (commit_index n) (length es - 1) \<and>
    (\<forall>a now m r. le_term (hd es) \<noteq> ae_prev_log_term a \<and> ae_prev_log_index a = 0 \<and>
       handle_append_entries E a now n' = Inr (m, r) \<longrightarrow> \<not> ar_success r \<and> rf_log m = rf_log n')"
proof -
  obtain db where "open_in_dir E (AList.delete raft_log_name (AList.delete raft_meta_name (node_disk n))) cfg = Inr db"
    using run by (auto simp: new_in_dir_def Let_def and_then_eq_Inr panic_def split: prod.splits sum.splits)
  from new_in_dir_fields [OF store this, of i peers now rand] run log(2) obtain
    n': "rf_log n' = es" "last_applied n' = min (commit_index n) (length es - 1)"
    using commit by (metis Inr_inject)
  have "\<not> ar_success r \<and> rf_log m = rf_log n'"
    if a: "le_term (hd es) \<noteq> ae_prev_log_term a" "ae_prev_log_index a = 0" and h: "handle_append_entries E a now n' = Inr (m, r)"
    for a now m r
    by (rule append_entries_cases [OF h refl refl refl])
      (use a log(2) n'(1) in \<open>auto simp: step_down_fields hd_conv_nth split: if_splits\<close>)
  with n' log show ?thesis by auto
qed

subsection \<open>Witnesses\<close>

theorem raft_node_survives_restart_witness:
  "\<exists>c n'. live_reach sample_raft_ext sample_membership c \<and>
     new_in_dir sample_raft_ext (node_disk (cl_nodes c 2)) 2 [1, 3] config_default 0 (\<lambda>_. 0) = Inr n' \<and>
     raft_get sample_raft_ext [107] n' = Inr (Some (VInt 5))"
proof (rule sample_replication)
  let ?E = "sample_raft_ext" and ?M = "sample_membership"
  fix c assume c: "live_reach ?E ?M c" "rf_log (cl_nodes c 1) = [dummy_entry ?E, sample_write]"
    "rf_log (cl_nodes c 2) = rf_log (cl_nodes c 1)" "last_applied (cl_nodes c 2) = 1"
  then have es: "take (last_applied (cl_nodes c 2)) (tl (rf_log (cl_nodes c 2))) = [sample_write]" by simp
  have "cluster_inv ?E ?M c" by (rule cluster_reach_inv [OF live_reach_cluster [OF c(1)] sample_membership_ok sample_dummy])
  then obtain s es m where store: "log_store (cl_nodes c 2) = Some s" "store_holds ?E s es" "meta_store (cl_nodes c 2) = Some m"
    using sample_ids(2) by (auto simp: cluster_inv_def nodes_valid_def node_good_def log_good_def meta_good_def)
  have run: "db_run ?E (rf_db (cl_nodes c 2)) (fold entry_map [sample_write] Map.empty)"
    using replica_run [OF c(1) sample_membership_ok sample_dummy sample_ids(2) sample_sizes, unfolded es, OF sample_fits] .
  have "raft_get ?E [107] (cl_nodes c 2) = Inr (Some (VInt 5))"
    using run_inv_run [OF run] db_get_view [of ?E "rf_db (cl_nodes c 2)" "[107]"]
    by (simp add: raft_get_def run_inv_def sample_write_def sample_command_def)
  moreover have "config_ok config_default" using sample_sizes(2) by (simp add: sample_membership_def)
  ultimately show ?thesis
    using raft_node_survives_restart [OF run _ store, of config_default 2 "[1, 3]" 0 "\<lambda>_. 0"] c(1) by auto
qed

text \<open>A node with one committed entry.\<close>

lemma sample_stored:
  obtains n :: raft_node and s m where "rf_log n = [dummy_entry sample_raft_ext, sample_write]" "log_store n = Some s"
    "store_holds sample_raft_ext s [sample_write]" "meta_store n = Some m" "commit_index n = 1" "ms_commit_index (meta_open m) = 1"
    "db_run sample_raft_ext (rf_db n) Map.empty"
proof -
  let ?E = "sample_raft_ext"
  have "0 < cfg_sstable_level (mb_config sample_membership)" using sample_sizes(2) by (simp add: config_ok_def)
  from open_empty [OF sample_sizes(1) this] obtain db where db: "open_in_dir ?E [] (mb_config sample_membership) = Inr db" by blast
  have s0: "store_holds ?E \<lparr>ls_file = [], ls_offsets = []\<rparr> []" by (simp add: store_holds_def)
  have "entry_codec_ok ?E sample_write"
    using sample_command_good by (simp add: command_good_def entry_good_def sample_write_def)
  from store_holds_append [OF s0 this] obtain s where s: "log_store_append ?E sample_write \<lparr>ls_file = [], ls_offsets = []\<rparr> = Inr s"
    "store_holds ?E s [sample_write]" by auto
  let ?n = "persist_meta (push_log_entry ?E sample_write (fresh_node db 2 [1, 3])\<lparr>commit_index := 1\<rparr>)"
  have "ms_commit_index (meta_open (meta_save 1 0 None [])) = 1" unfolding meta_open_save by simp
  then show thesis
    by (intro that [of ?n s]) (use s run_start [OF sample_sizes db] in
        \<open>simp_all add: persist_meta_def push_log_entry_def fresh_node_def\<close>)
qed

theorem restart_shifts_log_witness:
  "\<exists>n n'. rf_log n = [dummy_entry sample_raft_ext, sample_write] \<and> commit_index n = 1 \<and>
     new_in_dir sample_raft_ext (node_disk n) 2 [1, 3] config_default 0 (\<lambda>_. 0) = Inr n' \<and>
     rf_log n' ! 0 = sample_write \<and> last_applied n' = 0"
proof (rule sample_stored)
  fix n :: raft_node and s m assume n: "rf_log n = [dummy_entry sample_raft_ext, sample_write]" "log_store n = Some s"
    "store_holds sample_raft_ext s [sample_write]" "meta_store n = Some m" "commit_index n = 1" "ms_commit_index (meta_open m) = 1"
    "db_run sample_raft_ext (rf_db n) Map.empty"
  have "config_ok config_default" using sample_sizes(2) by (simp add: sample_membership_def)
  from node_restarts [OF n(7) this n(2-4)] obtain n'
    where n': "new_in_dir sample_raft_ext (node_disk n) 2 [1, 3] config_default 0 (\<lambda>_. 0) = Inr n'" by blast
  from restart_shifts_log [OF n(1) _ n(2-4) _ n'] n n' show ?thesis by auto
qed

end
