(* ===== verification/Raft_Acks.thy ===== *)
theory Raft_Acks
  imports Raft_Recovery
begin

text \<open>
  The answers that clients get: a write that was answered with success is in the applied part of
  the log of the node that answered, and stays there.
\<close>

section \<open>Growth of the protocol state\<close>

definition grows :: "node_id set \<Rightarrow> 'd proto \<Rightarrow> 'd proto \<Rightarrow> bool" where
  "grows ids p p' \<longleftrightarrow>
     lead_ext (p_lead p) (p_lead p') \<and>
     (\<forall>i \<in> ids. c_applied (p_core p i) \<le> c_applied (p_core p' i) \<and>
        take (Suc (c_applied (p_core p i))) (c_log (p_core p' i)) = take (Suc (c_applied (p_core p i))) (c_log (p_core p i)))"

lemma lead_ext_trans:
  assumes "lead_ext L L'" and "lead_ext L' L''"
  shows "lead_ext L L''"
  unfolding lead_ext_def
proof (intro allI impI)
  fix t own l assume l: "L t = Some (own, l)"
  obtain xs where xs: "L' t = Some (own, l @ xs)" "\<forall>e \<in> set xs. le_term e = t" by (rule lead_extD [OF assms(1) l])
  obtain ys where "L'' t = Some (own, (l @ xs) @ ys)" "\<forall>e \<in> set ys. le_term e = t" by (rule lead_extD [OF assms(2) xs(1)])
  with xs show "\<exists>zs. L'' t = Some (own, l @ zs) \<and> (\<forall>e \<in> set zs. le_term e = t)" by (intro exI [of _ "xs @ ys"]) auto
qed

lemma take_take_le: "take n xs = take n ys \<Longrightarrow> m \<le> n \<Longrightarrow> take m xs = take m ys"
  by (metis min.absorb1 take_take)

lemma grows_trans:
  assumes "grows ids p q" and "grows ids q r"
  shows "grows ids p r"
  unfolding grows_def
proof (intro conjI ballI)
  show "lead_ext (p_lead p) (p_lead r)" using assms lead_ext_trans unfolding grows_def by blast
  fix i assume "i \<in> ids"
  then have a: "c_applied (p_core p i) \<le> c_applied (p_core q i)" "c_applied (p_core q i) \<le> c_applied (p_core r i)"
    "take (Suc (c_applied (p_core p i))) (c_log (p_core q i)) = take (Suc (c_applied (p_core p i))) (c_log (p_core p i))"
    "take (Suc (c_applied (p_core q i))) (c_log (p_core r i)) = take (Suc (c_applied (p_core q i))) (c_log (p_core q i))"
    using assms by (simp_all add: grows_def)
  then show "c_applied (p_core p i) \<le> c_applied (p_core r i)" by simp
  show "take (Suc (c_applied (p_core p i))) (c_log (p_core r i)) = take (Suc (c_applied (p_core p i))) (c_log (p_core p i))"
    using take_take_le [OF a(4), of "Suc (c_applied (p_core p i))"] a(1,3) by simp
qed

lemma proto_step_grows:
  assumes step: "proto_step ids f p p'" and inv: "proto_inv ids D f d p"
  shows "grows ids p p'"
proof -
  note D = proto_invD [OF inv]
  from step show ?thesis
  proof cases
    case (Lead i n)
    have "p_lead p (c_term n) = None" using candidate_fresh [OF D(3,4)] Lead by simp
    then show ?thesis using Lead by (simp add: grows_def lead_ext_new)
  next
    case (Propose i n e)
    have l: "p_lead p (c_term n) = Some (i, c_log n)" using inv_leadD(7) [OF D(4)] Propose by simp
    have "c_applied n < length (c_log n)" using node_safeD [OF D(9) Propose(2)] Propose(3) by (simp add: node_safe_def)
    then show ?thesis using Propose lead_ext_more [of "p_lead p", OF l] by (auto simp: grows_def)
  next
    case (Accept i n prev pt es k log)
    have "take (Suc (c_applied n)) log = take (Suc (c_applied n)) (c_log n)"
      using accept_keeps_applied(1) [OF D(7,5,9) Accept(2)] Accept by simp
    then show ?thesis using Accept by (simp add: grows_def)
  qed (auto simp: grows_def)
qed

lemma proto_steps_grow:
  assumes "(proto_step ids f)\<^sup>*\<^sup>* p p'" and "proto_inv ids D f d p"
  shows "grows ids p p'"
  using assms
proof (induction rule: rtranclp_induct)
  case base
  then show ?case by (simp add: grows_def)
next
  case (step q r)
  have "grows ids q r" by (rule proto_step_grows [OF step(2) proto_steps_inv [OF step(1,4)]])
  with step grows_trans show ?case by blast
qed

text \<open>Applied entries are the same everywhere, and in the log of every later leader.\<close>

lemma applied_entries:
  assumes inv: "proto_inv ids D f d p" and i: "i \<in> ids" and j: "j \<in> ids"
    and k: "k \<le> c_applied (p_core p i)" "k \<le> c_applied (p_core p j)"
  shows "k < length (c_log (p_core p j)) \<and> c_log (p_core p j) ! k = c_log (p_core p i) ! k"
proof -
  have len: "c_applied (p_core p j) < length (c_log (p_core p j))"
    using node_safeD [OF proto_invD(9) [OF inv] j] by (simp add: node_safe_def)
  have agree: "c_log (p_core p x) ! k = c_log (p_core p y) ! k"
    if "x \<in> ids" "y \<in> ids" "c_applied (p_core p x) \<le> c_applied (p_core p y)" "k \<le> c_applied (p_core p x)" for x y
    using arg_cong [OF applied_agree [OF inv that(1-3)], of "\<lambda>l. l ! k"] that(4) by simp
  show ?thesis using agree [OF i j] agree [OF j i] len k by (cases "c_applied (p_core p i) \<le> c_applied (p_core p j)") auto
qed

lemma applied_in_leader:
  assumes inv: "proto_inv ids D f d p" and i: "i \<in> ids" and j: "j \<in> ids"
    and leader: "c_role (p_core p j) = Leader" "c_term (p_core p i) \<le> c_term (p_core p j)" and k: "k \<le> c_applied (p_core p i)"
  shows "k < length (c_log (p_core p j)) \<and> c_log (p_core p j) ! k = c_log (p_core p i) ! k"
proof -
  note D = proto_invD [OF inv]
  let ?X = "take (Suc (c_applied (p_core p i))) (c_log (p_core p i))"
  note ni = node_safeD [OF D(9) i, unfolded node_safe_def]
  have "p_lead p (c_term (p_core p j)) = Some (j, c_log (p_core p j))" by (rule inv_leadD(7) [OF D(4) j leader(1)])
  then have "prefix ?X (c_log (p_core p j))"
    using safe_in_lead [OF D(7,5) _ safe_head [OF D(5) i] _ leader(2)] ni by blast
  then obtain zs where zs: "c_log (p_core p j) = ?X @ zs" by (auto simp: prefix_def)
  have "k < length ?X" using ni k by auto
  then show ?thesis unfolding zs by (simp add: nth_append trans_less_add1)
qed

section \<open>Answers of the handlers\<close>

text \<open>
  A node answers a request with success on the channel of a service request, or by a response message to the
  client of a client request.
\<close>

fun is_response :: "message \<Rightarrow> bool" where
  "is_response (MClientResponse r) = True"
| "is_response _ = False"

definition responses :: "raft_node \<Rightarrow> oneshots \<times> (node_id \<times> message) list" where
  "responses n = (rf_oneshots n, filter (\<lambda>(to, m). is_response m) (rf_outbox n))"

definition succeeded :: "raft_node \<Rightarrow> responder \<Rightarrow> bool" where
  "succeeded n rsp \<longleftrightarrow>
     (case rsp of
        Oneshot ch \<Rightarrow> \<exists>r. (ch, r) \<in> set (rf_oneshots n) \<and> sv_success r
      | RaftClient client request \<Rightarrow>
          \<exists>r. (client, MClientResponse r) \<in> set (rf_outbox n) \<and> cp_request_id r = request \<and> cp_success r)"

lemma succeeded_responses:
  "succeeded n rsp \<longleftrightarrow>
     (case rsp of
        Oneshot ch \<Rightarrow> \<exists>r. (ch, r) \<in> set (fst (responses n)) \<and> sv_success r
      | RaftClient client request \<Rightarrow>
          \<exists>r. (client, MClientResponse r) \<in> set (snd (responses n)) \<and> cp_request_id r = request \<and> cp_success r)"
  by (auto simp: succeeded_def responses_def split: responder.splits)

lemma responses_push [simp]: "\<not> is_response m \<Longrightarrow> responses (push_outbox to m n) = responses n"
  by (simp add: responses_def push_outbox_def)

lemma succeeded_cong: "responses n' = responses n \<Longrightarrow> succeeded n' = succeeded n"
  by (rule ext) (simp add: succeeded_responses split: responder.splits)

lemma responses_update [simp]:
  "responses (n\<lparr>rf_peers := x_rf_peers\<rparr>) = responses n" "responses (n\<lparr>current_term := x_current_term\<rparr>) = responses n"
  "responses (n\<lparr>voted_for := x_voted_for\<rparr>) = responses n" "responses (n\<lparr>rf_log := x_rf_log\<rparr>) = responses n"
  "responses (n\<lparr>commit_index := x_commit_index\<rparr>) = responses n"
  "responses (n\<lparr>last_applied := x_last_applied\<rparr>) = responses n" "responses (n\<lparr>next_index := x_next_index\<rparr>) = responses n"
  "responses (n\<lparr>match_index := x_match_index\<rparr>) = responses n" "responses (n\<lparr>rf_role := x_rf_role\<rparr>) = responses n"
  "responses (n\<lparr>votes_received := x_votes_received\<rparr>) = responses n"
  "responses (n\<lparr>leader_id := x_leader_id\<rparr>) = responses n"
  "responses (n\<lparr>election_deadline := x_election_deadline\<rparr>) = responses n"
  "responses (n\<lparr>heartbeat_deadline := x_heartbeat_deadline\<rparr>) = responses n"
  "responses (n\<lparr>pending_requests := x_pending_requests\<rparr>) = responses n"
  "responses (n\<lparr>log_store := x_log_store\<rparr>) = responses n" "responses (n\<lparr>meta_store := x_meta_store\<rparr>) = responses n"
  "responses (n\<lparr>rf_db := x_rf_db\<rparr>) = responses n" "responses (n\<lparr>peer_changes_tx := x_peer_changes_tx\<rparr>) = responses n"
  "responses (n\<lparr>rand_pos := x_rand_pos\<rparr>) = responses n"
  "responses (n\<lparr>election_timeout := x_election_timeout\<rparr>) = responses n"
  by (simp_all add: responses_def)

text \<open>
  Nothing new is answered with success by a handler that is silent; one that answers does so for a pending
  request whose entry it has applied.
\<close>

definition new_success :: "raft_node \<Rightarrow> raft_node \<Rightarrow> responder \<Rightarrow> bool" where
  "new_success n n' rsp \<longleftrightarrow> succeeded n' rsp \<and> \<not> succeeded n rsp"

definition silent :: "raft_node \<Rightarrow> raft_node \<Rightarrow> bool" where
  "silent n n' \<longleftrightarrow> set (pending_requests n') \<subseteq> set (pending_requests n) \<and> (\<forall>rsp. \<not> new_success n n' rsp)"

definition answers :: "raft_node \<Rightarrow> raft_node \<Rightarrow> bool" where
  "answers n n' \<longleftrightarrow>
     set (pending_requests n') \<subseteq> set (pending_requests n) \<and>
     (\<forall>rsp. new_success n n' rsp \<longrightarrow>
        (\<exists>k t. ((k, t), rsp) \<in> set (pending_requests n) \<and> k \<le> last_applied n' \<and> k < length (rf_log n') \<and>
           le_term (rf_log n' ! k) = t))"

lemma new_success_trans: "new_success n k rsp \<Longrightarrow> new_success n m rsp \<or> new_success m k rsp"
  by (auto simp: new_success_def)

lemma silent_same: "set (pending_requests n') \<subseteq> set (pending_requests n) \<Longrightarrow> responses n' = responses n \<Longrightarrow> silent n n'"
  by (simp add: silent_def new_success_def succeeded_responses split: responder.splits)

lemma silent_trans: "silent n m \<Longrightarrow> silent m k \<Longrightarrow> silent n k"
  unfolding silent_def using new_success_trans by blast

lemma silent_answers: "silent n m \<Longrightarrow> answers m k \<Longrightarrow> answers n k"
  unfolding silent_def answers_def using new_success_trans by blast

lemma answers_silent: "silent n n' \<Longrightarrow> answers n n'"
  by (simp add: silent_def answers_def)

lemma answers_trans:
  assumes "answers n m" and "answers m k" and "rf_log k = rf_log m" and "last_applied m \<le> last_applied k"
  shows "answers n k"
  unfolding answers_def
proof (intro conjI allI impI)
  show "set (pending_requests k) \<subseteq> set (pending_requests n)" using assms(1,2) by (auto simp: answers_def)
  fix rsp assume "new_success n k rsp"
  then show "\<exists>j t. ((j, t), rsp) \<in> set (pending_requests n) \<and> j \<le> last_applied k \<and> j < length (rf_log k) \<and>
      le_term (rf_log k ! j) = t"
  proof (rule disjE [OF new_success_trans [of n k rsp m]])
    assume "new_success n m rsp"
    then obtain j t where "((j, t), rsp) \<in> set (pending_requests n)" "j \<le> last_applied m" "j < length (rf_log m)"
      "le_term (rf_log m ! j) = t" using assms(1) unfolding answers_def by blast
    with assms(3,4) show ?thesis by (metis le_trans)
  next
    assume "new_success m k rsp"
    with assms(1,2) show ?thesis unfolding answers_def by blast
  qed
qed

lemma silent_push: "\<not> is_response m \<Longrightarrow> silent n (push_outbox to m n)"
  by (rule silent_same) (simp_all add: push_outbox_def responses_def)

lemma response_appended:
  "(\<exists>r. (c', MClientResponse r) \<in> set (ms @ [(c, MClientResponse r')]) \<and> P r) \<longleftrightarrow>
     (\<exists>r. (c', MClientResponse r) \<in> set ms \<and> P r) \<or> c' = c \<and> P r'"
  by auto

lemma oneshot_appended:
  "(\<exists>r. (c', r) \<in> set (os @ [(c, r')]) \<and> P r) \<longleftrightarrow> (\<exists>r. (c', r) \<in> set os \<and> P r) \<or> c' = c \<and> P r'"
  by auto

lemma succeeded_respond: "succeeded (respond rsp s v m l t n) rsp' \<longleftrightarrow> succeeded n rsp' \<or> rsp' = rsp \<and> s"
proof (cases rsp)
  case (Oneshot ch)
  then show ?thesis
    by (cases rsp') (simp_all add: succeeded_def respond_def responder_send_def oneshot_appended del: set_append)
next
  case r: (RaftClient client request)
  show ?thesis
  proof (cases rsp')
    case (RaftClient client' request')
    with r show ?thesis
      unfolding succeeded_def respond_def responder_send_def by (simp add: response_appended del: set_append) blast
  qed (simp add: r succeeded_def respond_def responder_send_def)
qed

lemma silent_respond: "silent n (respond rsp False v m l t n)"
  by (simp add: silent_def new_success_def succeeded_respond)

lemma silent_fold:
  assumes "\<And>x n. x \<in> set xs \<Longrightarrow> silent n (f x n)"
  shows "silent n (fold f xs n)"
  using assms by (induction xs arbitrary: n) (auto intro: silent_same silent_trans)

lemma silent_step_down: "silent n (step_down t now n)"
proof -
  let ?m = "(persist_meta (reset_election_timeout now
    (n\<lparr>current_term := t, rf_role := Follower, voted_for := None, leader_id := None\<rparr>)))"
  have "silent n (?m\<lparr>pending_requests := []\<rparr>)"
    by (rule silent_same) (simp_all add: persist_meta_def reset_election_timeout_def responses_def split: option.splits)
  moreover have "silent (?m\<lparr>pending_requests := []\<rparr>) (step_down t now n)"
    unfolding step_down_def Let_def by (rule silent_fold) (auto intro: silent_respond)
  ultimately show ?thesis by (rule silent_trans)
qed

text \<open>Most of what a handler does leaves requests and answers alone.\<close>

definition still :: "raft_node \<Rightarrow> raft_node \<Rightarrow> bool" where
  "still n n' \<longleftrightarrow> pending_requests n' = pending_requests n \<and> responses n' = responses n"

lemma still_silent: "still n n' \<Longrightarrow> silent n n'"
  by (simp add: still_def silent_same)

lemma still_trans: "still n m \<Longrightarrow> still m k \<Longrightarrow> still n k"
  by (simp add: still_def)

lemma still_fields: "pending_requests n' = pending_requests n \<Longrightarrow> rf_oneshots n' = rf_oneshots n \<Longrightarrow> rf_outbox n' = rf_outbox n \<Longrightarrow> still n n'"
  by (simp add: still_def responses_def)

lemma still_push: "\<not> is_response m \<Longrightarrow> still n (push_outbox to m n)"
  by (simp add: still_def) (simp add: push_outbox_def)

lemma still_simps [simp]:
  "still n (reset_election_timeout now n)" "still n (persist_meta n)" "still n (push_log_entry E e n)" "still n (truncate_log k n)"
  by (rule still_fields;
      simp add: reset_election_timeout_def persist_meta_def push_log_entry_def truncate_log_def split: option.splits)+

lemma still_append_loop: "still n (append_loop E i es n)"
  by (induction E i es n rule: append_loop.induct) (auto simp: still_def push_log_entry_def truncate_log_def)

lemma still_commit_fold: "still n (fold commit_at ks n)"
proof (induction ks arbitrary: n)
  case (Cons k ks)
  have "still n (commit_at k n)" using commit_at_fields [of k n] by (auto simp: still_def)
  with Cons [of "commit_at k n"] still_trans show ?case by (auto simp: still_def)
qed (simp add: still_def)

lemma still_send: "send_append_entries peer n = Inr n' \<Longrightarrow> still n n'"
  by (auto simp: send_append_entries_def and_then_eq_Inr still_push)

lemma still_send_all: "send_all ps n = Inr n' \<Longrightarrow> still n n'"
proof (induction ps n rule: send_all.induct)
  case (2 p ps n)
  then obtain m where "send_append_entries p n = Inr m" "send_all ps m = Inr n'" by (auto simp: and_then_eq_Inr)
  with 2 still_send still_trans show ?case by blast
qed (simp add: still_def)

lemma still_init_peers: "init_peers ps n = Inr n' \<Longrightarrow> still n n'"
proof (induction ps n rule: init_peers.induct)
  case (2 p ps n)
  let ?m = "n\<lparr>next_index := AList.update p (length (rf_log n)) (next_index n), match_index := AList.update p 0 (match_index n)\<rparr>"
  obtain m where m: "send_append_entries p ?m = Inr m" "init_peers ps m = Inr n'"
    using "2.prems" by (auto simp: and_then_eq_Inr)
  with "2.IH" still_send [OF m(1)] show ?case by (simp add: still_def)
qed (simp add: still_def)

lemma still_become_leader: "become_leader now n = Inr n' \<Longrightarrow> still n n'"
  by (auto simp: become_leader_def and_then_eq_Inr still_def dest!: still_init_peers)

lemma still_push_all:
  assumes "\<not> is_response m"
  shows "still n (fold (\<lambda>peer. push_outbox peer m) ps n)"
proof (induction ps arbitrary: n)
  case (Cons p ps)
  from still_trans [OF still_push [OF assms] Cons] show ?case by simp
qed (simp add: still_def)

lemma still_start_election:
  assumes "start_election now n = Inr n'"
  shows "still n n'"
proof -
  let ?n = "persist_meta (n\<lparr>rf_role := Candidate, leader_id := None, current_term := current_term n + 1,
                voted_for := Some (rf_id n)\<rparr>)\<lparr>votes_received := [rf_id n]\<rparr>"
  have "still ?n n'"
  proof (cases "length (votes_received ?n) \<ge> majority ?n")
    case True
    then have "become_leader now ?n = Inr n'" using assms by (simp add: start_election_def persist_meta_def Let_def)
    then show ?thesis by (rule still_become_leader)
  next
    case False
    then obtain q where "n' = fold (\<lambda>peer. push_outbox peer (MRequestVote q)) (rf_peers n) (reset_election_timeout now ?n)"
      using assms by (auto simp: start_election_def persist_meta_def Let_def and_then_eq_Inr reset_election_timeout_def
          split: option.splits)
    then show ?thesis using still_trans [OF still_simps(1) still_push_all [of "MRequestVote q"]] by simp
  qed
  then show ?thesis by (simp add: still_def persist_meta_def)
qed

lemma silent_vote_response: "handle_vote_response r now n = Inr n' \<Longrightarrow> silent n n'"
  using silent_step_down [of n "vr_term r" now]
  by (auto simp: handle_vote_response_def Let_def still_def intro: silent_same dest!: still_become_leader split: if_splits)

lemma silent_request_vote:
  assumes "handle_request_vote q now n = Inr (n', r)"
  shows "silent n n'"
proof -
  let ?n = "if rv_term q > current_term n then step_down (rv_term q) now n else n"
  have "still n n' \<or> still ?n n'"
    using assms
    by (auto simp: handle_request_vote_def Let_def and_then_eq_Inr still_def persist_meta_def reset_election_timeout_def
        split: if_splits option.splits)
  moreover have "silent n ?n" by (simp add: silent_step_down silent_same)
  ultimately show ?thesis using still_silent silent_trans by blast
qed

text \<open>Applying an entry answers the request that waits for it.\<close>

lemma answers_answer:
  assumes "k \<le> last_applied n" and "k < length (rf_log n)" and "le_term (rf_log n ! k) = t"
  shows "answers n (answer_pending k t r n)"
proof (cases "map_of (pending_requests n) (k, t)")
  case None
  then show ?thesis by (simp add: answer_pending_def answers_silent silent_same)
next
  case (Some rsp)
  let ?n = "n\<lparr>pending_requests := AList.delete (k, t) (pending_requests n)\<rparr>"
  have "\<exists>s v m l. answer_pending k t r n = respond rsp s v m l t ?n"
    using Some by (cases r) (auto simp: answer_pending_def Let_def)
  then obtain s v m l where a: "answer_pending k t r n = respond rsp s v m l t ?n" by blast
  have "((k, t), rsp) \<in> set (pending_requests n)" using Some by (rule map_of_SomeD)
  moreover have "set (pending_requests ?n) \<subseteq> set (pending_requests n)" by (auto simp: AList.delete_eq)
  ultimately show ?thesis
    using assms succeeded_cong [of ?n n] unfolding a answers_def new_success_def by (auto simp: succeeded_respond)
qed

lemma answers_apply_entry:
  assumes "apply_entry_at E k n = Inr n'"
  shows "answers n n'"
proof -
  obtain m c r where p: "apply_payload E (le_payload (rf_log n ! k)) n = (m, c, r)" by (metis prod_cases3)
  have k: "k < length (rf_log n)" by (rule apply_entry_at_simps(12) [OF assms])
  have m: "pending_requests m = pending_requests n" "responses m = responses n" "rf_log m = rf_log n"
    using p by (auto simp: apply_payload_def Let_def split: entry_payload.splits command.splits prod.splits if_splits)
  obtain j where j: "n' = answer_pending k (le_term (rf_log n ! k)) r j" "still n j" "last_applied j = k" "rf_log j = rf_log n"
    using assms m by (auto simp: apply_entry_at_def p Let_def panic_def still_def split: if_splits option.splits)
  have "answers j n'" unfolding j(1) by (rule answers_answer) (use j k in simp_all)
  with j(2) show ?thesis using silent_answers still_silent by blast
qed

lemma answers_apply_committed: "apply_committed_entries E n = Inr n' \<Longrightarrow> answers n n'"
proof (induction E n rule: apply_committed_entries.induct)
  case (1 E n)
  show ?case
  proof (cases "last_applied n < commit_index n")
    case True
    with "1.prems" obtain m where m: "apply_entry_at E (last_applied n + 1) n = Inr m" "apply_committed_entries E m = Inr n'"
      by (auto simp: apply_committed_entries.simps [of E n] and_then_eq_Inr)
    show ?thesis
      by (rule answers_trans [OF answers_apply_entry [OF m(1)] "1.IH" [OF True m]])
        (use apply_committed_fields [OF m(2)] in simp_all)
  next
    case False
    with "1.prems" show ?thesis by (simp add: apply_committed_entries.simps [of E n] answers_silent silent_same)
  qed
qed

lemma answers_update_commit:
  assumes "update_commit_index E n = Inr n'"
  shows "answers n n'"
proof -
  let ?m = "persist_meta (fold commit_at [commit_index n + 1..<length (rf_log n)] n)"
  have "silent n ?m" by (rule still_silent [OF still_trans [OF still_commit_fold still_simps(2)]])
  moreover have "answers ?m n'" by (rule answers_apply_committed) (use assms in \<open>simp add: update_commit_index_def Let_def\<close>)
  ultimately show ?thesis by (rule silent_answers)
qed

lemma answers_append_entries:
  assumes "handle_append_entries E a now n = Inr (n', r)"
  shows "answers n n'"
proof -
  let ?n = "if ae_term a > current_term n then step_down (ae_term a) now n else n"
  let ?m = "reset_election_timeout now (?n\<lparr>rf_role := Follower, leader_id := Some (ae_leader_id a)\<rparr>)"
  let ?l = "append_loop E (Suc (ae_prev_log_index a)) (ae_entries a) ?m"
  let ?k = "persist_meta (?l\<lparr>commit_index := min (ae_leader_commit a) (length (rf_log ?l) - 1)\<rparr>)"
  have nm: "silent n ?m"
  proof -
    have "silent n ?n" by (simp add: silent_step_down silent_same)
    moreover have "still ?n ?m" by (simp add: still_def reset_election_timeout_def split: option.splits)
    ultimately show ?thesis using silent_trans still_silent by blast
  qed
  have lk: "still ?l ?k" by (simp add: still_def persist_meta_def)
  have nk: "silent n ?k" by (rule silent_trans [OF nm still_silent [OF still_trans [OF still_append_loop lk]]])
  show ?thesis
  proof (rule append_entries_cases [OF assms refl refl refl])
    assume "n' = n"
    then show ?thesis by (simp add: answers_silent silent_same)
  next
    assume "n' = ?m"
    with nm show ?thesis using answers_silent by blast
  next
    assume "apply_committed_entries E ?k = Inr n'"
    from silent_answers [OF nk answers_apply_committed [OF this]] show ?thesis .
  qed
qed

lemma answers_append_response:
  assumes "handle_append_entries_response E r now n = Inr n'"
  shows "answers n n'"
proof -
  have "answers (n\<lparr>match_index := x, next_index := y\<rparr>) n' \<Longrightarrow> answers n n'" for x y
    by (rule silent_answers [OF silent_same]) simp_all
  then have commit: "update_commit_index E (n\<lparr>match_index := x, next_index := y\<rparr>) = Inr n' \<Longrightarrow> answers n n'" for x y
    using answers_update_commit by blast
  have send: "send_append_entries p (n\<lparr>next_index := y\<rparr>) = Inr n' \<Longrightarrow> answers n n'" for p y
    by (rule answers_silent [OF still_silent]) (auto simp: still_def dest!: still_send)
  have down: "answers n (step_down (ar_term r) now n)" "answers n n"
    by (simp_all add: answers_silent silent_step_down silent_same)
  show ?thesis
  proof (cases "map_of (next_index n) (ar_follower_id r)")
    case None
    show ?thesis
      using assms down commit unfolding handle_append_entries_response_def Let_def None option.case panic_def
      by (cases "ar_term r > current_term n"; cases "rf_role n \<noteq> Leader"; cases "ar_term r < current_term n"; cases "ar_success r") auto
  next
    case (Some k)
    show ?thesis
      using assms down commit send unfolding handle_append_entries_response_def Let_def Some option.case
      by (cases "ar_term r > current_term n"; cases "rf_role n \<noteq> Leader"; cases "ar_term r < current_term n"; cases "ar_success r") auto
  qed
qed

lemma send_all_fields:
  "send_all ps n = Inr n' \<Longrightarrow> rf_log n' = rf_log n \<and> rf_role n' = rf_role n \<and> current_term n' = current_term n"
  by (induction ps n rule: send_all.induct) (auto simp: and_then_eq_Inr send_append_entries_def push_outbox_def)

lemma apply_committed_term: "apply_committed_entries E n = Inr n' \<Longrightarrow> current_term n' = current_term n"
proof (induction E n rule: apply_committed_entries.induct)
  case (1 E n)
  then show ?case
    by (auto simp: apply_committed_entries.simps [of E n] and_then_eq_Inr dest: apply_entry_at_simps(2) split: if_splits)
qed

lemma update_commit_fields:
  assumes "update_commit_index E n = Inr n'"
  shows "rf_log n' = rf_log n \<and> rf_role n' = rf_role n \<and> current_term n' = current_term n"
proof -
  let ?m = "fold commit_at [commit_index n + 1..<length (rf_log n)] n"
  have "rf_role (fold commit_at ks n) = rf_role n \<and> current_term (fold commit_at ks n) = current_term n" for ks
  proof (induction ks arbitrary: n)
    case (Cons k ks)
    then show ?case using commit_at_fields [of k n] by auto
  qed simp
  then show ?thesis
    using assms apply_committed_fields [of E "persist_meta ?m" n'] apply_committed_term [of E "persist_meta ?m" n']
    by (simp add: update_commit_index_def Let_def persist_meta_def commit_fold_same)
qed

lemma answers_append_command:
  assumes "append_command E c n = Inr (n', k)"
  shows "answers n n'" "k = length (rf_log n)" "k < length (rf_log n')" "rf_role n' = Leader" "current_term n' = current_term n"
    "rf_log n' ! k = \<lparr>le_term = current_term n, le_payload = PCommand (log_record_new E 0 c)\<rparr>"
proof -
  let ?e = "\<lparr>le_term = current_term n, le_payload = PCommand (log_record_new E 0 c)\<rparr>"
  let ?n = "push_log_entry E ?e n"
  have role: "rf_role n = Leader" and k: "k = length (rf_log n)"
    and run: "update_commit_index E ?n = Inr n' \<or> send_all (rf_peers ?n) ?n = Inr n'"
    using assms by (auto simp: append_command_def Let_def and_then_eq_Inr panic_def split: if_splits)
  have "answers ?n n'" using run answers_update_commit still_send_all answers_silent still_silent by blast
  then show "answers n n'" using silent_answers [OF still_silent [OF still_simps(3)]] by blast
  show "k = length (rf_log n)" by (rule k)
  have "rf_log n' = rf_log ?n \<and> rf_role n' = rf_role ?n \<and> current_term n' = current_term ?n"
    using run
  proof
    assume "send_all (rf_peers ?n) ?n = Inr n'"
    then show ?thesis by (rule send_all_fields)
  next
    assume "update_commit_index E ?n = Inr n'"
    then show ?thesis by (rule update_commit_fields)
  qed
  then show "k < length (rf_log n')" "rf_role n' = Leader" "current_term n' = current_term n" "rf_log n' ! k = ?e"
    by (simp_all add: push_log_entry_def k role)
qed

section \<open>Requests of the service\<close>

text \<open>
  \<open>W\<close> gives for each responder the commands of the requests that have it, where \<open>None\<close> stands for a read or a
  status request. A responder of one request has a singleton; a client that uses a request id again has more.
\<close>

type_synonym waiting = "responder \<Rightarrow> command option set"

definition labelled :: "waiting \<Rightarrow> store_request \<Rightarrow> bool" where
  "labelled W q \<longleftrightarrow> to_command (sr_operation q) \<in> W (sr_responder q)"

text \<open>The requests that messages of clients carry.\<close>

fun message_labelled :: "waiting \<Rightarrow> message \<Rightarrow> bool" where
  "message_labelled W (MClientRequest r) = (Some (cr_command r) \<in> W (RaftClient (cr_client_id r) (cr_request_id r)))"
| "message_labelled W (MClientQuery q) = (None \<in> W (RaftClient (cq_client_id q) (cq_request_id q)))"
| "message_labelled W (MStatusQuery q) = (None \<in> W (RaftClient (sq_client_id q) (sq_request_id q)))"
| "message_labelled W _ = True"

definition carries :: "'x raft_ext_scheme \<Rightarrow> waiting \<Rightarrow> responder \<Rightarrow> log_entry \<Rightarrow> bool" where
  "carries E W rsp e \<longleftrightarrow> (\<exists>c. Some c \<in> W rsp \<and> le_payload e = PCommand (log_record_new E 0 c))"

definition serves :: "'x raft_ext_scheme \<Rightarrow> waiting \<Rightarrow> raft_node \<Rightarrow> raft_node \<Rightarrow> bool" where
  "serves E W n n' \<longleftrightarrow>
     (\<forall>k t rsp. ((k, t), rsp) \<in> set (pending_requests n') \<longrightarrow>
        ((k, t), rsp) \<in> set (pending_requests n) \<or>
        rf_role n' = Leader \<and> t = current_term n' \<and> 0 < k \<and> k < length (rf_log n') \<and> le_term (rf_log n' ! k) = t \<and>
        carries E W rsp (rf_log n' ! k)) \<and>
     (\<forall>rsp. new_success n n' rsp \<longrightarrow> None \<notin> W rsp \<longrightarrow>
        (\<exists>k \<le> last_applied n'. k < length (rf_log n') \<and>
           (0 < k \<and> carries E W rsp (rf_log n' ! k) \<or> ((k, le_term (rf_log n' ! k)), rsp) \<in> set (pending_requests n))))"

lemma answers_serves: "answers n n' \<Longrightarrow> serves E W n n'"
  unfolding answers_def serves_def by blast

lemma silent_serves: "silent n n' \<Longrightarrow> serves E W n n'"
  by (rule answers_serves [OF answers_silent])

lemma serves_read: "None \<in> W rsp \<Longrightarrow> serves E W n (respond rsp s v m l t n)"
  by (auto simp: serves_def new_success_def succeeded_respond)

lemma serves_store_write:
  assumes run: "submit_store_write E c rsp n = Inr n'" and W: "Some c \<in> W rsp" and log: "rf_log n \<noteq> []"
  shows "serves E W n n'"
proof (cases "rf_role n = Leader")
  case False
  then show ?thesis using run by (auto simp: submit_store_write_def intro: silent_serves silent_respond)
next
  case True
  then obtain m k where m: "append_command E c n = Inr (m, k)"
    using run by (auto simp: submit_store_write_def and_then_eq_Inr)
  note a = answers_append_command [OF m]
  have k: "0 < k" using a(2) log by simp
  have carries: "carries E W rsp (rf_log m ! k)" using W a(6) by (auto simp: carries_def)
  have old: "\<exists>j \<le> last_applied m. j < length (rf_log m) \<and>
      (0 < j \<and> carries E W x (rf_log m ! j) \<or> ((j, le_term (rf_log m ! j)), x) \<in> set (pending_requests n))"
    if "new_success n m x" for x using a(1) that unfolding answers_def by blast
  have sub: "set (pending_requests m) \<subseteq> set (pending_requests n)" using a(1) by (simp add: answers_def)
  show ?thesis
  proof (cases "last_applied m \<ge> k")
    case applied: True
    obtain v ms l t where n': "n' = respond rsp True v ms l t m"
      using run True m a(3) applied by (auto simp: submit_store_write_def Let_def)
    have "\<exists>j \<le> last_applied m. j < length (rf_log m) \<and>
        (0 < j \<and> carries E W x (rf_log m ! j) \<or> ((j, le_term (rf_log m ! j)), x) \<in> set (pending_requests n))"
      if "new_success n n' x" for x
    proof (cases "x = rsp")
      case True
      with carries k applied a(3) show ?thesis by blast
    next
      case False
      then have "new_success n m x" using that unfolding n' by (simp add: new_success_def succeeded_respond)
      from old [OF this] show ?thesis .
    qed
    then show ?thesis using sub unfolding serves_def n' by auto
  next
    case False
    then have n': "n' = m\<lparr>pending_requests := AList.update (k, le_term (rf_log m ! k)) rsp (pending_requests m)\<rparr>"
      using run True m a(3) by (auto simp: submit_store_write_def Let_def)
    have "set (pending_requests n') \<subseteq> insert ((k, le_term (rf_log m ! k)), rsp) (set (pending_requests m))"
      unfolding n' by (simp add: set_update_sub)
    then have new: "((j, t), x) \<in> set (pending_requests n) \<or>
        t = le_term (rf_log m ! k) \<and> j = k \<and> carries E W x (rf_log m ! k)"
      if "((j, t), x) \<in> set (pending_requests n')" for j t x using that sub carries by blast
    have same: "new_success n n' x = new_success n m x" "rf_log n' = rf_log m" "rf_role n' = Leader"
      "current_term n' = le_term (rf_log m ! k)" "last_applied n' = last_applied m" for x
      using a(4-6) by (simp_all add: n' new_success_def succeeded_def split: responder.splits)
    show ?thesis unfolding serves_def same using new a(3) k old by blast
  qed
qed

lemma serves_store_request:
  assumes "handle_store_request E q now n = Inr n'" and "labelled W q" and "rf_log n \<noteq> []"
  shows "serves E W n n'"
  using assms
  by (auto simp: handle_store_request_def labelled_def intro: serves_read serves_store_write
      split: store_operation.splits sum.splits)

lemma serves_handle_message:
  assumes run: "handle_message E m now n = Inr n'" and "\<not> (\<exists>r. m = MAddNode r) \<and> \<not> (\<exists>r. m = MRemoveNode r)"
    and label: "message_labelled W m" and log: "rf_log n \<noteq> []"
  shows "serves E W n n'"
proof (cases m)
  case (MRequestVote q)
  then obtain k r where "handle_request_vote q now n = Inr (k, r)"
    "n' = push_outbox (rv_candidate_id q) (MRequestVoteResponse r) k"
    using run by (auto simp: handle_message_def and_then_eq_Inr)
  then show ?thesis using silent_trans [OF silent_request_vote silent_push] silent_serves by (metis is_response.simps(3))
next
  case (MAppendEntries a)
  then obtain k r where k: "handle_append_entries E a now n = Inr (k, r)"
    "n' = push_outbox (ae_leader_id a) (MAppendEntriesResponse r) k"
    using run by (auto simp: handle_message_def and_then_eq_Inr)
  have "answers n n'"
    by (rule answers_trans [OF answers_append_entries [OF k(1)]])
      (simp_all add: k(2) answers_silent silent_push, simp_all add: push_outbox_def)
  then show ?thesis by (rule answers_serves)
next
  case (MClientCommand c)
  then show ?thesis
    using run answers_append_command(1) [of E c n]
    by (auto simp: handle_message_def and_then_eq_Inr forward_to_leader_def
        intro: answers_serves silent_serves silent_same silent_serves [OF silent_push] split: if_splits option.splits)
next
  case (MClientRequest r)
  with run label log show ?thesis
    by (auto simp: handle_message_def labelled_def intro!: serves_store_request split: command.splits)
qed (use run assms(2) label log in
  \<open>auto simp: handle_message_def labelled_def intro: silent_serves [OF silent_vote_response] answers_serves [OF answers_append_response]
     serves_store_request silent_serves [OF still_silent [OF still_start_election]] silent_serves [OF silent_same]\<close>)

lemma serves_tick: "tick now n = Inr n' \<Longrightarrow> serves E W n n'"
  by (auto simp: tick_def and_then_eq_Inr send_heartbeats_def still_def responses_def intro!: silent_serves silent_same
      dest!: still_start_election still_send_all split: if_splits)

section \<open>Clusters that serve requests\<close>

inductive served_reach :: "waiting \<Rightarrow> 'x raft_ext_scheme \<Rightarrow> membership \<Rightarrow> cluster \<Rightarrow> bool"
  for W :: waiting and E :: "'x raft_ext_scheme" and M :: membership where
  Init: "cluster_init E M c \<Longrightarrow> served_reach W E M c"
| Deliver: "\<lbrakk>served_reach W E M c; i \<in> mb_ids M; (i, m) \<in> cl_net c; m = MTimeout \<longrightarrow> current_term (cl_nodes c i) \<noteq> - 1;
     message_labelled W m; handle_message E m now (cl_nodes c i) = Inr n\<rbrakk> \<Longrightarrow> served_reach W E M (set_node i n c)"
| Client: "\<lbrakk>served_reach W E M c; i \<in> mb_ids M; is_client m; msg_good E m; message_labelled W m;
     handle_message E m now (cl_nodes c i) = Inr n\<rbrakk> \<Longrightarrow> served_reach W E M (set_node i n c)"
| Request: "\<lbrakk>served_reach W E M c; i \<in> mb_ids M; request_good E q; labelled W q;
     handle_store_request E q now (cl_nodes c i) = Inr n\<rbrakk> \<Longrightarrow> served_reach W E M (set_node i n c)"
| Tick: "\<lbrakk>served_reach W E M c; i \<in> mb_ids M; rf_role (cl_nodes c i) \<noteq> Leader \<and> now \<ge> election_deadline (cl_nodes c i) \<longrightarrow> current_term (cl_nodes c i) \<noteq> - 1;
     tick now (cl_nodes c i) = Inr n\<rbrakk> \<Longrightarrow> served_reach W E M (set_node i n c)"
| Send: "\<lbrakk>served_reach W E M c; i \<in> mb_ids M; set sent \<subseteq> set (rf_outbox (cl_nodes c i))\<rbrakk> \<Longrightarrow>
     served_reach W E M (set_node i (cl_nodes c i\<lparr>rf_outbox := []\<rparr>) c\<lparr>cl_net := cl_net c \<union> set sent\<rparr>)"
| Restart: "\<lbrakk>served_reach W E M c; i \<in> mb_ids M\<rbrakk> \<Longrightarrow>
     served_reach W E M (set_node i (restart now (cl_nodes c i)) c)"
| Elect: "\<lbrakk>served_reach W E M c; i \<in> mb_ids M; current_term (cl_nodes c i) \<noteq> - 1;
     start_election now (cl_nodes c i) = Inr n\<rbrakk> \<Longrightarrow> served_reach W E M (set_node i n c)"
| Configure: "\<lbrakk>served_reach W E M c; i \<in> mb_ids M\<rbrakk> \<Longrightarrow>
     served_reach W E M (set_node i (set_election_timeout timeout now (cl_nodes c i)) c)"

lemma served_reach_live: "served_reach W E M c \<Longrightarrow> live_reach E M c"
  by (induction rule: served_reach.induct) (auto intro: live_reach.intros live_step.intros)

lemma served_inv: "served_reach W E M c \<Longrightarrow> membership_ok M \<Longrightarrow> entry_good E (dummy_entry E) \<Longrightarrow> cluster_inv E M c"
  by (rule cluster_reach_inv [OF live_reach_cluster [OF served_reach_live]])

text \<open>The command of a request is in the applied part of the log of a node.\<close>

definition applied_for :: "'x raft_ext_scheme \<Rightarrow> waiting \<Rightarrow> responder \<Rightarrow> raft_node \<Rightarrow> bool" where
  "applied_for E W rsp n \<longleftrightarrow> (\<exists>k \<le> last_applied n. 0 < k \<and> k < length (rf_log n) \<and> carries E W rsp (rf_log n ! k))"

definition served_ok :: "'x raft_ext_scheme \<Rightarrow> waiting \<Rightarrow> database proto \<Rightarrow> raft_node \<Rightarrow> bool" where
  "served_ok E W p n \<longleftrightarrow>
     (\<forall>k t rsp. ((k, t), rsp) \<in> set (pending_requests n) \<longrightarrow>
        0 < k \<and> (\<exists>own l. p_lead p t = Some (own, l) \<and> k < length l \<and> carries E W rsp (l ! k))) \<and>
     (\<forall>rsp. succeeded n rsp \<longrightarrow> None \<notin> W rsp \<longrightarrow> applied_for E W rsp n)"

lemma served_ok_ext:
  assumes "served_ok E W p n" and "lead_ext (p_lead p) (p_lead p')"
  shows "served_ok E W p' n"
proof -
  have "\<exists>own l. p_lead p' t = Some (own, l) \<and> k < length l \<and> carries E W rsp (l ! k)"
    if "((k, t), rsp) \<in> set (pending_requests n)" for k t rsp
  proof -
    obtain own l where l: "p_lead p t = Some (own, l)" "k < length l" "carries E W rsp (l ! k)"
      using assms(1) \<open>((k, t), rsp) \<in> set (pending_requests n)\<close> unfolding served_ok_def by blast
    obtain zs where "p_lead p' t = Some (own, l @ zs)" by (rule lead_extD [OF assms(2) l(1)])
    with l(2,3) show ?thesis by (auto simp: nth_append)
  qed
  with assms(1) show ?thesis unfolding served_ok_def by blast
qed

lemma applied_for_grows:
  assumes "grows ids p p'" and "i \<in> ids" and core: "p_core p i = core_of n" "p_core p' i = core_of n'" and "applied_for E W rsp n"
  shows "applied_for E W rsp n'"
proof -
  obtain k where k: "k \<le> last_applied n" "0 < k" "k < length (rf_log n)" "carries E W rsp (rf_log n ! k)"
    using assms(5) by (auto simp: applied_for_def)
  have le: "last_applied n \<le> last_applied n'"
    and take: "take (Suc (last_applied n)) (rf_log n') = take (Suc (last_applied n)) (rf_log n)"
    using assms(1,2) core by (auto simp: grows_def core_of_def)
  have "k < length (take (Suc (last_applied n)) (rf_log n'))" unfolding take using k by simp
  with arg_cong [OF take, of "\<lambda>l. l ! k"] k have "rf_log n' ! k = rf_log n ! k" "k < length (rf_log n')" by simp_all
  with le k show ?thesis unfolding applied_for_def by (intro exI [of _ k]) simp
qed

lemma served_ok_step:
  assumes ok: "served_ok E W p n" and serves: "serves E W n n'" and i: "i \<in> ids"
    and core: "p_core p i = core_of n" "p_core p' i = core_of n'" and inv: "proto_inv ids D f d p'" and grows: "grows ids p p'"
  shows "served_ok E W p' n'"
proof -
  have ext: "lead_ext (p_lead p) (p_lead p')" using grows by (simp add: grows_def)
  note old = served_ok_ext [OF ok ext]
  note D = proto_invD [OF inv]
  have logs: "log_ok (p_lead p') D (rf_log n')" using node_log_ok(1) [OF D(5) i] core(2) by (simp add: core_of_def)
  have found: "0 < k \<and> carries E W rsp (rf_log n' ! k)"
    if k: "k < length (rf_log n')" and pend: "((k, le_term (rf_log n' ! k)), rsp) \<in> set (pending_requests n)" for k rsp
  proof -
    obtain own l where l: "0 < k" "p_lead p' (le_term (rf_log n' ! k)) = Some (own, l)" "k < length l" "carries E W rsp (l ! k)"
      using old pend unfolding served_ok_def by blast
    obtain own' l' where "p_lead p' (le_term (rf_log n' ! k)) = Some (own', l')" "has (rf_log n') l' k"
      using logs k by (auto simp: log_ok_def)
    then have "has (rf_log n') l k" using l(2) by simp
    then have "rf_log n' ! k = l ! k" unfolding has_def by (metis lessI nth_take)
    with l(1,4) show ?thesis by simp
  qed
  have lead: "0 < k \<and> (\<exists>own l. p_lead p' t = Some (own, l) \<and> k < length l \<and> carries E W rsp (l ! k))"
    if "((k, t), rsp) \<in> set (pending_requests n')" for k t rsp
    using serves [unfolded serves_def, THEN conjunct1, rule_format, OF that]
  proof
    assume "((k, t), rsp) \<in> set (pending_requests n)"
    then show ?thesis using old unfolding served_ok_def by blast
  next
    assume new: "rf_role n' = Leader \<and> t = current_term n' \<and> 0 < k \<and> k < length (rf_log n') \<and> le_term (rf_log n' ! k) = t \<and>
        carries E W rsp (rf_log n' ! k)"
    then have "p_lead p' t = Some (i, rf_log n')" using inv_leadD(7) [OF D(4) i] core(2) by (simp add: core_of_def)
    with new show ?thesis by blast
  qed
  have "applied_for E W rsp n'" if r: "succeeded n' rsp" and w: "None \<notin> W rsp" for rsp
  proof (cases "succeeded n rsp")
    case True
    then have "applied_for E W rsp n" using ok w unfolding served_ok_def by blast
    then show ?thesis by (rule applied_for_grows [OF grows i core])
  next
    case False
    with r have "new_success n n' rsp" unfolding new_success_def by blast
    with serves w obtain k where "k \<le> last_applied n'" "k < length (rf_log n')"
      "0 < k \<and> carries E W rsp (rf_log n' ! k) \<or> ((k, le_term (rf_log n' ! k)), rsp) \<in> set (pending_requests n)"
      unfolding serves_def by blast
    with found show ?thesis unfolding applied_for_def by blast
  qed
  with lead show ?thesis unfolding served_ok_def by blast
qed

lemma new_node_idle:
  assumes "new_in_dir E [] i peers cfg now rand = Inr n"
  shows "pending_requests n = [] \<and> rf_oneshots n = [] \<and> rf_outbox n = []"
proof -
  obtain ls es db where "log_store_open E (file_or_empty raft_log_name []) = (ls, es)" "open_in_dir E [] cfg = Inr db"
    using assms by (auto simp: new_in_dir_def Let_def and_then_eq_Inr panic_def split: prod.splits sum.splits)
  with assms show ?thesis by (auto simp: new_in_dir_def Let_def reset_election_timeout_def)
qed

definition serving :: "'x raft_ext_scheme \<Rightarrow> waiting \<Rightarrow> membership \<Rightarrow> cluster \<Rightarrow> bool" where
  "serving E W M c \<longleftrightarrow> (\<exists>d p. abstracts E M d c p \<and> (\<forall>i \<in> mb_ids M. served_ok E W p (cl_nodes c i))) \<and>
     (\<forall>to r. (to, MClientResponse r) \<in> cl_net c \<longrightarrow> cp_success r \<longrightarrow> None \<notin> W (RaftClient to (cp_request_id r)) \<longrightarrow>
        (\<exists>i \<in> mb_ids M. applied_for E W (RaftClient to (cp_request_id r)) (cl_nodes c i)))"

lemma serving_step:
  assumes serving: "serving E W M c" and step: "live_step E M c c'" and M: "membership_ok M" and inv: "cluster_inv E M c"
    and i: "i \<in> mb_ids M" and c': "cl_nodes c' = (cl_nodes c)(i := n)" and serves: "rf_log (cl_nodes c i) \<noteq> [] \<Longrightarrow> serves E W (cl_nodes c i) n"
    and net: "cl_net c' \<subseteq> cl_net c \<union> set (rf_outbox (cl_nodes c i))"
  shows "serving E W M c'"
proof -
  obtain d p where abs: "abstracts E M d c p" and ok: "\<forall>i \<in> mb_ids M. served_ok E W p (cl_nodes c i)"
    using serving by (auto simp: serving_def)
  obtain p' where p': "reaches E M p p'" "abstracts E M d c' p'" using live_step_abstracts [OF step M inv abs] by blast
  have pinv: "proto_inv (mb_ids M) (dummy_entry E) (entry_apply E) d p" "proto_inv (mb_ids M) (dummy_entry E) (entry_apply E) d p'"
    using abs p'(2) by (simp_all add: abstracts_def)
  have grows: "grows (mb_ids M) p p'" by (rule proto_steps_grow [OF p'(1) pinv(1)])
  have core: "p_core p j = core_of (cl_nodes c j)" "p_core p' j = core_of (cl_nodes c' j)" if "j \<in> mb_ids M" for j
    using abs p'(2) that by (simp_all add: abstracts_def)
  have "log_ok (p_lead p) (dummy_entry E) (rf_log (cl_nodes c i))"
    using node_log_ok(1) [OF proto_invD(5) [OF pinv(1)] i] core(1) [OF i] by (simp add: core_of_def)
  then have serves: "serves E W (cl_nodes c i) n" using serves by (simp add: log_ok_def)
  have "served_ok E W p' (cl_nodes c' j)" if j: "j \<in> mb_ids M" for j
  proof (cases "j = i")
    case True
    show ?thesis
      unfolding True using served_ok_step [OF _ serves i core(1) [OF i] _ pinv(2) grows] ok i core(2) [OF i] by (simp add: c')
  next
    case False
    with ok j served_ok_ext grows show ?thesis by (simp add: c' grows_def) blast
  qed
  moreover have "\<exists>j \<in> mb_ids M. applied_for E W (RaftClient to (cp_request_id r)) (cl_nodes c' j)"
    if "(to, MClientResponse r) \<in> cl_net c'" "cp_success r" "None \<notin> W (RaftClient to (cp_request_id r))" for to r
  proof -
    have "\<exists>j \<in> mb_ids M. applied_for E W (RaftClient to (cp_request_id r)) (cl_nodes c j)"
    proof (cases "(to, MClientResponse r) \<in> cl_net c")
      case True
      with serving that(2,3) show ?thesis unfolding serving_def by blast
    next
      case False
      then have "(to, MClientResponse r) \<in> set (rf_outbox (cl_nodes c i))" using net that(1) by blast
      then have "succeeded (cl_nodes c i) (RaftClient to (cp_request_id r))" using that(2) by (auto simp: succeeded_def)
      with ok i that(3) show ?thesis unfolding served_ok_def by blast
    qed
    with applied_for_grows [OF grows _ core] show ?thesis by blast
  qed
  ultimately show ?thesis using p'(2) unfolding serving_def by blast
qed

lemma served_reach_serving:
  assumes "served_reach W E M c" and M: "membership_ok M" and dummy: "entry_good E (dummy_entry E)" and ids: "mb_ids M \<noteq> {}"
  shows "serving E W M c"
  using assms(1)
proof (induction rule: served_reach.induct)
  case (Init c)
  obtain i where i: "i \<in> mb_ids M" using ids by blast
  have "pending_requests (cl_nodes c j) = [] \<and> rf_oneshots (cl_nodes c j) = [] \<and> rf_outbox (cl_nodes c j) = []" if j: "j \<in> mb_ids M" for j
  proof -
    obtain now rand where "new_in_dir E [] j (mb_peers M j) (mb_config M) now rand = Inr (cl_nodes c j)"
      using Init j by (auto simp: cluster_init_def)
    then show ?thesis by (rule new_node_idle)
  qed
  with init_abstracts [OF Init M i] Init show ?case
    by (auto simp: serving_def served_ok_def succeeded_def cluster_init_def split: responder.splits)
next
  case (Deliver c i m now n)
  note inv = served_inv [OF Deliver(1) M dummy]
  have "\<not> (\<exists>r. m = MAddNode r) \<and> \<not> (\<exists>r. m = MRemoveNode r)"
    using inv Deliver(3) by (auto simp: cluster_inv_def message_ok_def)
  from serves_handle_message [OF Deliver(6) this Deliver(5)]
  show ?case by (intro serving_step [OF Deliver(7) live_step.Deliver [OF Deliver(2-4,6)] M inv Deliver(2)]) simp_all
next
  case (Client c i m now n)
  note inv = served_inv [OF Client(1) M dummy]
  have "\<not> (\<exists>r. m = MAddNode r) \<and> \<not> (\<exists>r. m = MRemoveNode r)" using Client(3) by (cases m) auto
  from serves_handle_message [OF Client(6) this Client(5)]
  show ?case by (intro serving_step [OF Client(7) live_step.Client [OF Client(2-4,6)] M inv Client(2)]) simp_all
next
  case (Request c i q now n)
  note inv = served_inv [OF Request(1) M dummy]
  from serves_store_request [OF Request(5,4)]
  show ?case by (intro serving_step [OF Request(6) live_step.Request [OF Request(2,3,5)] M inv Request(2)]) simp_all
next
  case (Tick c i now n)
  note inv = served_inv [OF Tick(1) M dummy]
  from serves_tick [OF Tick(4)]
  show ?case by (intro serving_step [OF Tick(5) live_step.Tick [OF Tick(2-4)] M inv Tick(2)]) simp_all
next
  case (Send c i sent)
  note inv = served_inv [OF Send(1) M dummy]
  have "serves E W (cl_nodes c i) (cl_nodes c i\<lparr>rf_outbox := []\<rparr>)"
    by (rule silent_serves) (auto simp: silent_def new_success_def succeeded_def split: responder.splits)
  with Send(3) show ?case by (intro serving_step [OF Send(4) live_step.Send [OF Send(2,3)] M inv Send(2)]) auto
next
  case (Restart c i now)
  note inv = served_inv [OF Restart(1) M dummy]
  have "serves E W (cl_nodes c i) (restart now (cl_nodes c i))"
    by (rule silent_serves)
      (auto simp: silent_def new_success_def succeeded_def restart_def reset_election_timeout_def split: responder.splits option.splits)
  then show ?case by (intro serving_step [OF Restart(3) live_step.Restart [OF Restart(2)] M inv Restart(2)]) simp_all
next
  case (Elect c i now n)
  note inv = served_inv [OF Elect(1) M dummy]
  from silent_serves [OF still_silent [OF still_start_election [OF Elect(4)]]]
  show ?case by (intro serving_step [OF Elect(5) live_step.Elect [OF Elect(2-4)] M inv Elect(2)]) simp_all
next
  case (Configure c i timeout now)
  note inv = served_inv [OF Configure(1) M dummy]
  have "serves E W (cl_nodes c i) (set_election_timeout timeout now (cl_nodes c i))"
    by (rule silent_serves [OF silent_same]) (simp_all add: set_election_timeout_def responses_def)
  then show ?case by (intro serving_step [OF Configure(3) live_step.Configure [OF Configure(2)] M inv Configure(2)]) simp_all
qed

section \<open>Properties\<close>

text \<open>A request has been answered with success, on its channel or by a message that is still with the node or under way.\<close>

definition acknowledged :: "membership \<Rightarrow> cluster \<Rightarrow> responder \<Rightarrow> bool" where
  "acknowledged M c rsp \<longleftrightarrow>
     (\<exists>i \<in> mb_ids M. succeeded (cl_nodes c i) rsp) \<or>
     (\<exists>to r. rsp = RaftClient to (cp_request_id r) \<and> (to, MClientResponse r) \<in> cl_net c \<and> cp_success r)"

text \<open>The database can hold what the node has applied.\<close>

definition applied_fits :: "'x raft_ext_scheme \<Rightarrow> config \<Rightarrow> raft_node \<Rightarrow> bool" where
  "applied_fits E cfg n \<longleftrightarrow>
     bloom_sizing_ok E \<and> config_ok cfg \<and> (\<forall>d. open_in_dir E [] cfg = Inr d \<longrightarrow> log_fits E (take (last_applied n) (tl (rf_log n))) d)"

text \<open>Reads at a node return what a command made of the store, changed by the entries applied after index \<open>k\<close> only.\<close>

definition reads_from :: "'x raft_ext_scheme \<Rightarrow> command \<Rightarrow> nat \<Rightarrow> raft_node \<Rightarrow> bool" where
  "reads_from E cmd k n \<longleftrightarrow> (\<exists>m. \<forall>key. raft_get E key n =
     Inr (fold entry_map (take (last_applied n - k) (drop (Suc k) (rf_log n))) (command_map cmd m) key))"

lemma applied_split:
  assumes "0 < k" and "k \<le> a" and "k < length l"
  shows "take a (tl l) = take (k - 1) (tl l) @ l ! k # take (a - k) (drop (Suc k) l)"
proof -
  obtain x xs j where l: "l = x # xs" "k = Suc j" using assms by (cases l; cases k) auto
  have "take a xs = take j xs @ take (a - j) (drop j xs)" using assms(2) l(2) by (metis Suc_leD le_add_diff_inverse take_add)
  moreover have "drop j xs = xs ! j # drop (Suc j) xs" using assms(3) l by (simp add: Cons_nth_drop_Suc)
  moreover have "a - j = Suc (a - k)" using assms(2) l(2) by simp
  ultimately show ?thesis by (simp add: l)
qed

lemma applied_reads:
  assumes reach: "live_reach E M c" "membership_ok M" "entry_good E (dummy_entry E)" "j \<in> mb_ids M" and fits: "applied_fits E (mb_config M) (cl_nodes c j)"
    and k: "0 < k" "k \<le> last_applied (cl_nodes c j)" "k < length (rf_log (cl_nodes c j))"
    and e: "le_payload (rf_log (cl_nodes c j) ! k) = PCommand (log_record_new E 0 cmd)"
  shows "reads_from E cmd k (cl_nodes c j)"
proof -
  let ?n = "cl_nodes c j"
  have "run_inv E (rf_db ?n) \<and> store E (rf_db ?n) = fold entry_map (take (last_applied ?n) (tl (rf_log ?n))) Map.empty"
    by (rule run_inv_run [OF replica_run [OF reach]]) (use fits in \<open>simp_all add: applied_fits_def\<close>)
  then have "raft_get E key ?n = Inr (fold entry_map (take (last_applied ?n) (tl (rf_log ?n))) Map.empty key)" for key
    using db_get_view [of E "rf_db ?n" key] by (simp add: raft_get_def run_inv_def)
  then show ?thesis unfolding applied_split [OF k] reads_from_def using e by (auto simp: log_record_new_def)
qed

text \<open>
  C3. Acknowledged writes are durable: when a write has been answered with success, on the channel of a service or by a
  response message to a client, its command is in the log of a node of the cluster at an index that the node has applied; every
  node that has applied as much has it at this index too, and so has the log of every leader whose term is not older than the node's.
  Reads at every node that has applied as much return the effect of the command, changed only by entries applied later, as
  long as the database of the node can hold the applied entries.
\<close>

theorem acknowledged_write_durable:
  assumes reach: "served_reach W E M c" and M: "membership_ok M" and dummy: "entry_good E (dummy_entry E)" and ids: "mb_ids M \<noteq> {}"
    and ack: "acknowledged M c rsp" and W: "W rsp = {Some cmd}"
  shows "\<exists>i \<in> mb_ids M. \<exists>k \<le> last_applied (cl_nodes c i). 0 < k \<and> k < length (rf_log (cl_nodes c i)) \<and>
    le_payload (rf_log (cl_nodes c i) ! k) = PCommand (log_record_new E 0 cmd) \<and>
    (\<forall>j \<in> mb_ids M. k \<le> last_applied (cl_nodes c j) \<or>
        rf_role (cl_nodes c j) = Leader \<and> current_term (cl_nodes c i) \<le> current_term (cl_nodes c j) \<longrightarrow>
      k < length (rf_log (cl_nodes c j)) \<and> rf_log (cl_nodes c j) ! k = rf_log (cl_nodes c i) ! k) \<and>
    (\<forall>j \<in> mb_ids M. k \<le> last_applied (cl_nodes c j) \<and> applied_fits E (mb_config M) (cl_nodes c j) \<longrightarrow> reads_from E cmd k (cl_nodes c j))"
proof -
  have serving: "serving E W M c" by (rule served_reach_serving [OF reach M dummy ids])
  obtain d p where abs: "abstracts E M d c p" and ok: "\<forall>i \<in> mb_ids M. served_ok E W p (cl_nodes c i)"
    using serving by (auto simp: serving_def)
  have inv: "proto_inv (mb_ids M) (dummy_entry E) (entry_apply E) d p"
    and core: "\<And>i. i \<in> mb_ids M \<Longrightarrow> p_core p i = core_of (cl_nodes c i)" using abs by (simp_all add: abstracts_def)
  have "None \<notin> W rsp" using W by simp
  then obtain i where i: "i \<in> mb_ids M" "applied_for E W rsp (cl_nodes c i)"
    using ack serving ok unfolding acknowledged_def serving_def served_ok_def by blast
  then obtain k where k: "k \<le> last_applied (cl_nodes c i)" "0 < k" "k < length (rf_log (cl_nodes c i))"
    "le_payload (rf_log (cl_nodes c i) ! k) = PCommand (log_record_new E 0 cmd)"
    using W by (auto simp: applied_for_def carries_def)
  have same: "k < length (rf_log (cl_nodes c j)) \<and> rf_log (cl_nodes c j) ! k = rf_log (cl_nodes c i) ! k"
    if j: "j \<in> mb_ids M" and "k \<le> last_applied (cl_nodes c j) \<or>
        rf_role (cl_nodes c j) = Leader \<and> current_term (cl_nodes c i) \<le> current_term (cl_nodes c j)" for j
    using that(2)
  proof
    assume "k \<le> last_applied (cl_nodes c j)"
    then show ?thesis using applied_entries [OF inv i(1) j] k(1) core [OF i(1)] core [OF j] by (simp add: core_of_def)
  next
    assume "rf_role (cl_nodes c j) = Leader \<and> current_term (cl_nodes c i) \<le> current_term (cl_nodes c j)"
    then show ?thesis using applied_in_leader [OF inv i(1) j] k(1) core [OF i(1)] core [OF j] by (simp add: core_of_def)
  qed
  have "reads_from E cmd k (cl_nodes c j)"
    if "j \<in> mb_ids M" "k \<le> last_applied (cl_nodes c j)" "applied_fits E (mb_config M) (cl_nodes c j)" for j
    by (rule applied_reads [OF served_reach_live [OF reach] M dummy]) (use that k same [of j] in simp_all)
  with i(1) k same show ?thesis by blast
qed

subsection \<open>Witness\<close>

text \<open>A cluster of one node, which elects itself and serves a write on channel 7.\<close>

definition lone_membership :: membership where
  "lone_membership = \<lparr>mb_ids = {1}, mb_peers = (\<lambda>_. []), mb_config = config_default\<rparr>"

definition lone_waiting :: waiting where
  "lone_waiting rsp = (if rsp = Oneshot 7 then {Some sample_command} else UNIV)"

lemma lone_membership_ok: "membership_ok lone_membership"
  by (simp add: membership_ok_def lone_membership_def)

lemma lone_elects:
  obtains n where "tick 1000 (fresh_node db 1 []) = Inr n" "rf_role n = Leader" "current_term n = 1" "rf_id n = 1" "rf_peers n = []"
    "rf_log n = [dummy_entry sample_raft_ext]" "commit_index n = 0" "last_applied n = 0" "match_index n = []"
    "pending_requests n = []" "rf_oneshots n = []" "leader_id n = Some 1"
  using that by (simp add: election_run)

lemma lone_serves:
  assumes "rf_role n = Leader" "current_term n = 1" "rf_id n = 1" "rf_peers n = []" "rf_log n = [dummy_entry sample_raft_ext]"
    "commit_index n = 0" "last_applied n = 0" "match_index n = []" "pending_requests n = []" "rf_oneshots n = []"
  obtains n' r where "handle_store_request sample_raft_ext \<lparr>sr_operation = OpSet [107] (VInt 5), sr_responder = Oneshot 7\<rparr> 1000 n = Inr n'"
    "(7, r) \<in> set (rf_oneshots n')" "sv_success r"
proof -
  let ?E = "sample_raft_ext"
  let ?n = "persist_meta (push_log_entry ?E sample_write n\<lparr>commit_index := 1\<rparr>)"
  have entry: "\<lparr>le_term = 1, le_payload = PCommand (log_record_new ?E 0 (CmdSet [107] (VInt 5)))\<rparr> = sample_write"
    by (simp add: sample_write_def sample_command_def)
  have t: "le_term sample_write = 1" by (simp add: sample_write_def)
  have "last_applied ?n = 0" "commit_index ?n = 1" "length (rf_log ?n) = 2" "pending_requests ?n = []" "rf_log ?n ! 1 = sample_write"
    using assms by (simp_all add: persist_meta_def push_log_entry_def)
  then obtain m where m: "apply_committed_entries ?E ?n = Inr m" "last_applied m = 1" "rf_log m = rf_log ?n" "rf_id m = rf_id ?n"
    by (rule apply_one)
  have "update_commit_index ?E (push_log_entry ?E sample_write n) = Inr m"
    using m(1) assms t by (simp add: update_commit_index_def commit_at_def majority_def push_log_entry_def persist_meta_def Let_def)
  then have "append_command ?E (CmdSet [107] (VInt 5)) n = Inr (m, 1)"
    using assms entry by (simp add: append_command_def push_log_entry_def Let_def)
  moreover have "rf_log m = [dummy_entry ?E, sample_write]" using m(3) assms by (simp add: persist_meta_def push_log_entry_def)
  ultimately have "handle_store_request ?E \<lparr>sr_operation = OpSet [107] (VInt 5), sr_responder = Oneshot 7\<rparr> 1000 n =
      Inr (respond (Oneshot 7) True None (committed_message 1) (case leader_id m of Some l \<Rightarrow> Some l | None \<Rightarrow> Some (rf_id m)) 1 m)"
    using assms(1) m(2) t by (simp add: handle_store_request_def submit_store_write_def Let_def)
  then show thesis
    by (rule that [where r = "\<lparr>sv_success = True, sv_value = None, sv_message = committed_message 1,
        sv_leader_id = (case leader_id m of Some l \<Rightarrow> Some l | None \<Rightarrow> Some (rf_id m)), sv_term = 1\<rparr>"])
      (simp_all add: respond_def responder_send_def)
qed

theorem acknowledged_write_durable_witness:
  "\<exists>c. served_reach lone_waiting sample_raft_ext lone_membership c \<and> acknowledged lone_membership c (Oneshot 7) \<and>
     (\<exists>k \<le> last_applied (cl_nodes c 1). 0 < k \<and> le_payload (rf_log (cl_nodes c 1) ! k) =
        PCommand (log_record_new sample_raft_ext 0 sample_command))"
proof -
  let ?E = "sample_raft_ext" and ?M = "lone_membership" and ?W = lone_waiting
  let ?q = "\<lparr>sr_operation = OpSet [107] (VInt 5), sr_responder = Oneshot 7\<rparr>"
  obtain db where db: "\<And>i peers. new_in_dir ?E [] i peers config_default 0 (\<lambda>_. 0) = Inr (fresh_node db i peers)"
    using fresh_node_new by blast
  let ?c0 = "\<lparr>cl_nodes = (\<lambda>i. fresh_node db i []), cl_net = {}, cl_votes = {}, cl_leaders = {}\<rparr>"
  have ids: "1 \<in> mb_ids ?M" by (simp add: lone_membership_def)
  have r0: "served_reach ?W ?E ?M ?c0"
    by (rule served_reach.Init) (use db in \<open>auto simp: cluster_init_def lone_membership_def\<close>)
  obtain n where n: "tick 1000 (fresh_node db 1 []) = Inr n" "rf_role n = Leader" "current_term n = 1" "rf_id n = 1" "rf_peers n = []"
    "rf_log n = [dummy_entry ?E]" "commit_index n = 0" "last_applied n = 0" "match_index n = []"
    "pending_requests n = []" "rf_oneshots n = []" by (rule lone_elects)
  have r1: "served_reach ?W ?E ?M (set_node 1 n ?c0)"
    by (rule served_reach.Tick [OF r0 ids, of 1000]) (use n(1) in \<open>simp_all add: fresh_node_def\<close>)
  obtain n' r where n': "handle_store_request ?E ?q 1000 n = Inr n'" "(7, r) \<in> set (rf_oneshots n')" "sv_success r"
    by (rule lone_serves [OF n(2-11)])
  have r2: "served_reach ?W ?E ?M (set_node 1 n' (set_node 1 n ?c0))"
    by (rule served_reach.Request [OF r1 ids, of ?q 1000])
      (use n'(1) sample_command_good in \<open>simp_all add: request_good_def labelled_def lone_waiting_def sample_command_def\<close>)
  have ack: "acknowledged ?M (set_node 1 n' (set_node 1 n ?c0)) (Oneshot 7)"
    unfolding acknowledged_def succeeded_def by (rule disjI1, rule bexI [OF _ ids]) (use n'(2,3) in auto)
  have "?W (Oneshot 7) = {Some sample_command}" by (simp add: lone_waiting_def)
  from acknowledged_write_durable [OF r2 lone_membership_ok sample_dummy _ ack this] ids
  obtain i k where "i \<in> mb_ids ?M" "k \<le> last_applied (cl_nodes (set_node 1 n' (set_node 1 n ?c0)) i)" "0 < k"
    "le_payload (rf_log (cl_nodes (set_node 1 n' (set_node 1 n ?c0)) i) ! k) = PCommand (log_record_new ?E 0 sample_command)" by blast
  moreover from this(1) have "i = 1" by (simp add: lone_membership_def)
  ultimately show ?thesis using ack r2 by blast
qed

end
