(* ===== verification/Fault.thy ===== *)
theory Fault
  imports Raft_Acks "HOL-Library.Log_Nat"
begin

unbundle bit_operations_syntax

text \<open>
  The faults that the simulator injects and its random numbers (\<open>src/src/runtime/fault.rs\<close>).
  Instants and durations are milliseconds.
\<close>

section \<open>Faults\<close>

datatype fault =
    CrashNode node_id
  | RestartNode node_id
  | PauseNode node_id
  | ResumeNode node_id
  | BlockLink node_id node_id
  | UnblockLink node_id node_id
  | Partition "node_id list" "node_id list"
  | HealAllPartitions
  | IsolateNode node_id
  | ReconnectNode node_id
  | DropPackets node_id node_id nat
  | DelayLink node_id node_id nat
  | ClearLinkDelay node_id node_id
  | DuplicatePackets node_id node_id nat nat
  | TriggerElection node_id
  | SubmitCommand node_id command

record scheduled_fault =
  trigger_at :: nat
  sf_fault :: fault
  sf_sequence :: u64

record link_fault_policy =
  drop_remaining :: nat
  lp_delay :: "nat option"
  duplicate_remaining :: nat
  duplicate_delay :: nat

definition link_fault_policy_default :: link_fault_policy where
  "link_fault_policy_default =
     \<lparr>drop_remaining = 0, lp_delay = None, duplicate_remaining = 0, duplicate_delay = 0\<rparr>"

section \<open>Queues ordered by time\<close>

text \<open>
  \<open>BinaryHeap\<close> with the reversed orders of \<open>ScheduledFault\<close> and \<open>Event\<close>: \<open>peek\<close> and
  \<open>pop\<close> give an element with the least time and, among those, the least sequence number.
\<close>

definition earlier :: "('a \<Rightarrow> nat \<times> u64) \<Rightarrow> 'a \<Rightarrow> 'a \<Rightarrow> bool" where
  "earlier key x y \<longleftrightarrow> fst (key x) < fst (key y) \<or> (fst (key x) = fst (key y) \<and> snd (key x) < snd (key y))"

fun queue_peek :: "('a \<Rightarrow> nat \<times> u64) \<Rightarrow> 'a list \<Rightarrow> 'a option" where
  "queue_peek key [] = None"
| "queue_peek key (x # xs) =
     (case queue_peek key xs of None \<Rightarrow> Some x | Some y \<Rightarrow> Some (if earlier key y x then y else x))"

definition queue_pop :: "('a \<Rightarrow> nat \<times> u64) \<Rightarrow> 'a list \<Rightarrow> ('a \<times> 'a list) option" where
  "queue_pop key xs = (case queue_peek key xs of None \<Rightarrow> None | Some x \<Rightarrow> Some (x, remove1 x xs))"

definition fault_key :: "scheduled_fault \<Rightarrow> nat \<times> u64" where
  "fault_key f = (trigger_at f, sf_sequence f)"

locale timed_queue =
  fixes peek :: "'q \<Rightarrow> 'a option" and pop :: "'q \<Rightarrow> ('a \<times> 'q) option" and items :: "'q \<Rightarrow> 'a multiset"
    and less :: "'a \<Rightarrow> 'a \<Rightarrow> bool"
  assumes peek_none: "peek q = None \<longleftrightarrow> items q = {#}"
    and peek_least: "peek q = Some x \<Longrightarrow> x \<in># items q \<and> (\<forall>y. y \<in># items q \<longrightarrow> \<not> less y x)"
    and pop_peek: "map_option fst (pop q) = peek q"
    and pop_rest: "pop q = Some (x, q') \<Longrightarrow> items q = add_mset x (items q')"
begin

lemma pop_least:
  assumes "pop q = Some (x, q')"
  shows "x \<in># items q" and "y \<in># items q' \<Longrightarrow> \<not> less y x" and "size (items q') < size (items q)"
proof -
  have "peek q = Some x" using pop_peek [of q] assms by simp
  from peek_least [OF this] pop_rest [OF assms]
  show "x \<in># items q" "y \<in># items q' \<Longrightarrow> \<not> less y x" "size (items q') < size (items q)" by auto
qed

end

lemma queue_peek_none: "queue_peek key xs = None \<longleftrightarrow> xs = []"
  by (cases xs) (auto split: option.splits)

lemma queue_peek_least:
  "queue_peek key xs = Some x \<Longrightarrow> x \<in> set xs \<and> (\<forall>y \<in> set xs. \<not> earlier key y x)"
proof (induction xs arbitrary: x)
  case (Cons a xs)
  show ?case
  proof (cases "queue_peek key xs")
    case None
    then have "xs = []" by (simp add: queue_peek_none)
    with Cons.prems show ?thesis by (simp add: earlier_def)
  next
    case (Some b)
    note b = Cons.IH [OF Some]
    show ?thesis
    proof (cases "earlier key b a")
      case True
      then have "x = b" using Cons.prems Some by simp
      moreover have "\<not> earlier key a b" using True by (auto simp: earlier_def)
      ultimately show ?thesis using b by simp
    next
      case False
      then have x: "x = a" using Cons.prems Some by simp
      have "\<not> earlier key y a" if "y \<in> set xs" for y
      proof
        assume "earlier key y a"
        moreover have "\<not> earlier key y b" using b that by blast
        ultimately show False using False unfolding earlier_def by (auto simp: not_less)
      qed
      then show ?thesis by (simp add: x earlier_def)
    qed
  qed
qed simp

interpretation time_queue: timed_queue "queue_peek key" "queue_pop key" mset "earlier key" for key :: "'a \<Rightarrow> nat \<times> u64"
  by unfold_locales
    (auto simp: queue_peek_none queue_pop_def dest: queue_peek_least split: option.splits)

section \<open>Random numbers\<close>

record deterministic_rng =
  rng_state :: u64

definition rng_new :: "u64 \<Rightarrow> deterministic_rng" where
  "rng_new seed = \<lparr>rng_state = seed\<rparr>"

definition splitmix :: "u64 \<Rightarrow> u64" where
  "splitmix z =
     (let z = (z XOR drop_bit 30 z) * 0xBF58476D1CE4E5B9;
          z = (z XOR drop_bit 27 z) * 0x94D049BB133111EB in
      z XOR drop_bit 31 z)"

definition next_u64 :: "deterministic_rng \<Rightarrow> u64 \<times> deterministic_rng" where
  "next_u64 rng =
     (let rng = rng\<lparr>rng_state := rng_state rng + 0x9E3779B97F4A7C15\<rparr> in
      (splitmix (rng_state rng), rng))"

definition gen_range :: "u64 \<Rightarrow> u64 \<Rightarrow> deterministic_rng \<Rightarrow> (u64 \<times> deterministic_rng) io" where
  "gen_range lo hi rng =
     (if lo \<ge> hi then Inr (lo, rng)
      else if hi - lo + 1 = 0 then panic ''attempt to add with overflow''
      else case next_u64 rng of (x, rng) \<Rightarrow> Inr (lo + x mod (hi - lo + 1), rng))"

definition rng_choose :: "'a list \<Rightarrow> deterministic_rng \<Rightarrow> 'a option \<times> deterministic_rng" where
  "rng_choose xs rng =
     (if xs = [] then (None, rng)
      else case next_u64 rng of (x, rng) \<Rightarrow> (Some (xs ! (unat x mod length xs)), rng))"

text \<open>
  Probabilities are \<open>f64\<close> values, here the rational numbers they stand for: a sum is rounded to
  53 bits, to even. (The values are in the normal range; there are no infinities.)
\<close>

definition pow2 :: "int \<Rightarrow> rat" where
  "pow2 k = (if 0 \<le> k then 2 ^ nat k else 1 / 2 ^ nat (- k))"

definition f64_round :: "rat \<Rightarrow> rat" where
  "f64_round x =
     (if x \<le> 0 then x
      else
        let (p, q) = quotient_of x;
            e = int (floorlog 2 (nat p)) - int (floorlog 2 (nat q));
            e = (if pow2 e \<le> x then e else e - 1);
            y = x * pow2 (52 - e);
            n = \<lfloor>y\<rfloor>;
            r = y - of_int n;
            m = (if r < 1 / 2 \<or> (r = 1 / 2 \<and> even n) then n else n + 1) in
        of_int m * pow2 (e - 52))"

definition next_f64 :: "deterministic_rng \<Rightarrow> rat \<times> deterministic_rng" where
  "next_f64 rng = (case next_u64 rng of (x, rng) \<Rightarrow> (of_int (uint (drop_bit 11 x)) / 2 ^ 53, rng))"

record chaos_config =
  crash_prob :: rat
  restart_prob :: rat
  partition_prob :: rat
  heal_prob :: rat
  packet_drop_prob :: rat
  packet_delay_prob :: rat
  max_packet_delay :: nat

definition chaos_config_default :: chaos_config where
  "chaos_config_default =
     \<lparr>crash_prob = f64_round (5 / 100), restart_prob = f64_round (10 / 100), partition_prob = f64_round (8 / 100),
      heal_prob = f64_round (15 / 100), packet_drop_prob = f64_round (5 / 100),
      packet_delay_prob = f64_round (10 / 100), max_packet_delay = 50\<rparr>"

section \<open>Violations\<close>

datatype invariant_violation =
    ElectionSafetyViolation u64 "node_id list"
  | LogMatchingViolation node_id node_id nat u64 u64
  | StateSafetyViolation nat node_id node_id rstring rstring

section \<open>The generator\<close>

lemma xorshift_inj:
  fixes x y :: u64
  assumes "x XOR drop_bit k x = y XOR drop_bit k y" and "0 < k"
  shows "x = y"
proof -
  let ?d = "x XOR y"
  have "?d = drop_bit k ?d"
    using assms(1) by (metis (no_types, opaque_lifting) drop_bit_xor xor.assoc xor.commute xor_self_eq xor.right_neutral)
  then have "?d = drop_bit (k * n) ?d" for n
  proof (induction n)
    case (Suc n)
    then show ?case by (metis drop_bit_drop_bit mult_Suc_right)
  qed simp
  then have "?d = drop_bit (k * 64) ?d" .
  also have "\<dots> = 0"
  proof -
    have "drop_bit (k * 64) ?d = drop_bit (k * 64 - 64) (drop_bit 64 ?d)"
      using assms(2) by (simp add: drop_bit_drop_bit)
    also have "drop_bit 64 ?d = 0" by (rule drop_bit_word_beyond) simp
    finally show ?thesis by simp
  qed
  finally have "?d = 0" .
  moreover have "x = ?d XOR y" by (simp add: xor.assoc)
  ultimately show ?thesis by simp
qed

lemma mult_inj:
  fixes x y c :: u64
  assumes "x * c = y * c" and "c * c' = 1"
  shows "x = y"
proof -
  have "x * c * c' = y * c * c'" using assms(1) by simp
  then show ?thesis by (simp add: mult.assoc assms(2))
qed

lemma splitmix_inj:
  assumes "splitmix x = splitmix y"
  shows "x = y"
proof -
  have a: "(0xBF58476D1CE4E5B9 :: u64) * 10871156337175269513 = 1" and b: "(0x94D049BB133111EB :: u64) * 3573116690164977347 = 1"
    by simp_all
  let ?f = "\<lambda>z :: u64. (z XOR drop_bit 30 z) * 0xBF58476D1CE4E5B9"
  let ?g = "\<lambda>z :: u64. (z XOR drop_bit 27 z) * 0x94D049BB133111EB"
  have "?g (?f x) XOR drop_bit 31 (?g (?f x)) = ?g (?f y) XOR drop_bit 31 (?g (?f y))"
    using assms by (simp add: splitmix_def Let_def)
  then have "?g (?f x) = ?g (?f y)" by (rule xorshift_inj) simp
  then have "?f x XOR drop_bit 27 (?f x) = ?f y XOR drop_bit 27 (?f y)" by (rule mult_inj [OF _ b])
  then have "?f x = ?f y" by (rule xorshift_inj) simp
  then have "x XOR drop_bit 30 x = y XOR drop_bit 30 y" by (rule mult_inj [OF _ a])
  then show ?thesis by (rule xorshift_inj) simp
qed

text \<open>The state after \<open>n\<close> draws, and the value of draw \<open>n\<close>.\<close>

definition draws :: "nat \<Rightarrow> deterministic_rng \<Rightarrow> deterministic_rng" where
  "draws n = (snd \<circ> next_u64) ^^ n"

lemma draws_state: "rng_state (draws n rng) = rng_state rng + of_nat n * 0x9E3779B97F4A7C15"
proof (induction n)
  case (Suc n)
  have "draws (Suc n) rng = snd (next_u64 (draws n rng))" by (simp add: draws_def)
  with Suc show ?case by (simp add: next_u64_def Let_def algebra_simps)
qed (simp add: draws_def)

lemma gamma_unit: "(0x9E3779B97F4A7C15 :: u64) * 17428512612931826493 = 1"
  by simp

section \<open>Properties\<close>

text \<open>
  The random numbers of a chaos test do not repeat: in the \<open>2 ^ 64\<close> draws from one seed every number
  comes exactly once, because the output function is injective and the states run through all words.
\<close>

theorem rng_no_repetition:
  assumes "m < 2 ^ 64" and "n < 2 ^ 64" and "m \<noteq> n"
  shows "fst (next_u64 (draws m rng)) \<noteq> fst (next_u64 (draws n rng))"
proof
  assume "fst (next_u64 (draws m rng)) = fst (next_u64 (draws n rng))"
  then have "rng_state (draws m rng) = rng_state (draws n rng)"
    using splitmix_inj by (fastforce simp: next_u64_def Let_def)
  then have "of_nat m * 0x9E3779B97F4A7C15 = (of_nat n * 0x9E3779B97F4A7C15 :: u64)" by (simp add: draws_state)
  then have "(of_nat m :: u64) = of_nat n" by (rule mult_inj [OF _ gamma_unit])
  then have "unat (of_nat m :: u64) = unat (of_nat n :: u64)" by simp
  with assms show False by (simp add: unat_of_nat)
qed

theorem rng_no_repetition_witness:
  "fst (next_u64 (draws 0 (rng_new 42))) \<noteq> fst (next_u64 (draws 1 (rng_new 42)))"
  by (rule rng_no_repetition) simp_all

text \<open>
  C36. Numbers drawn from a range are in it, at both ends, whatever the state of the generator; only the range of
  all words, whose size does not fit a word, makes the code panic.
\<close>

theorem gen_range_bounds:
  assumes "lo \<le> hi" and "lo \<noteq> 0 \<or> hi \<noteq> - 1"
  shows "\<exists>x rng'. gen_range lo hi rng = Inr (x, rng') \<and> lo \<le> x \<and> x \<le> hi"
proof (cases "lo = hi")
  case True
  then show ?thesis by (simp add: gen_range_def)
next
  case False
  with assms(1) have less: "lo < hi" by simp
  let ?w = "hi - lo + 1" and ?x = "fst (next_u64 rng)"
  have bound: "unat hi < 2 ^ 64" using unsigned_less [of hi] by simp
  have unat_minus_one_word64: "unat (- 1 :: u64) = 2 ^ 64 - 1" by (simp add: unsigned_minus_1_eq_mask mask_eq_exp_minus_1)
  have u: "unat (hi - lo) = unat hi - unat lo" using assms(1) by (simp add: unat_sub)
  have "hi - lo \<noteq> - 1"
  proof
    assume "hi - lo = - 1"
    then have "unat hi - unat lo = unat (- 1 :: u64)" using u by simp
    then have "unat hi = unat (- 1 :: u64)" "unat lo = 0" using bound by (auto simp: unat_minus_one_word64)
    then show False using assms(2) by (simp add: word_unat_eq_iff)
  qed
  then have w: "?w \<noteq> 0" by (simp add: eq_neg_iff_add_eq_0)
  then have uw: "unat ?w = unat hi - unat lo + 1" using u by (metis Suc_eq_plus1 unatSuc add.commute)
  have "unat (?x mod ?w) < unat ?w" using w by (simp add: unat_mod unat_gt_0)
  then have small: "unat (?x mod ?w) \<le> unat hi - unat lo" using uw by simp
  have "unat lo + unat (?x mod ?w) \<le> unat hi" using small less by (simp add: word_less_nat_alt)
  then have sum: "unat (lo + ?x mod ?w) = unat lo + unat (?x mod ?w)"
    using bound by (simp add: unat_word_ariths)
  then have "lo \<le> lo + ?x mod ?w" "lo + ?x mod ?w \<le> hi"
    using small less by (simp_all add: word_le_nat_alt word_less_nat_alt)
  then show ?thesis using less w by (auto simp: gen_range_def split: prod.splits)
qed

theorem gen_range_bounds_witness:
  "\<exists>x rng'. gen_range 10 50 (rng_new 7) = Inr (x, rng') \<and> 10 \<le> x \<and> x \<le> 50"
  by (rule gen_range_bounds) simp_all

end
