(* ===== verification/Simulator.thy ===== *)
theory Simulator
  imports Fault
begin

text \<open>
  The deterministic simulator of a Raft cluster (\<open>src/src/runtime/simulator.rs\<close>, \<open>Clock\<close> of
  \<open>runtime.rs\<close>): a clock, a queue of messages under way, crashed and paused nodes, blocked links, packet
  faults, a schedule of faults, the check of the safety invariants and the chaos test.

  The maps and sets of the simulation are ordered: the nodes are an association list sorted by
  id. The simulator runs in tests, where the overflow of the term counter panics; what the nodes
  panic with is an error of the operation.
\<close>

section \<open>State\<close>

record event =
  deliver_at :: nat
  ev_sequence :: u64
  ev_from :: node_id
  ev_to :: node_id
  ev_message :: message

definition event_key :: "event \<Rightarrow> nat \<times> u64" where
  "event_key e = (deliver_at e, ev_sequence e)"

record simulation =
  sim_clock :: nat
  sim_events :: "event list"
  sequence_counter :: u64
  sim_nodes :: "(node_id \<times> raft_node) list"
  disabled_nodes :: "node_id set"
  paused_nodes :: "node_id set"
  paused_events :: "(node_id \<times> event list) list"
  blocked_links :: "(node_id \<times> node_id) set"
  link_policies :: "((node_id \<times> node_id) \<times> link_fault_policy) list"
  scheduled_faults :: "scheduled_fault list"
  fault_sequence_counter :: u64

definition simulation_new :: "nat \<Rightarrow> (node_id \<times> raft_node) list \<Rightarrow> simulation" where
  "simulation_new now nodes =
     \<lparr>sim_clock = now, sim_events = [], sequence_counter = 0, sim_nodes = nodes, disabled_nodes = {},
      paused_nodes = {}, paused_events = [], blocked_links = {}, link_policies = [],
      scheduled_faults = [], fault_sequence_counter = 0\<rparr>"

abbreviation node_ids :: "simulation \<Rightarrow> node_id list" where
  "node_ids s \<equiv> map fst (sim_nodes s)"

text \<open>\<open>if let Some(node) = self.nodes.get_mut(&id)\<close>\<close>

definition with_node :: "node_id \<Rightarrow> (raft_node \<Rightarrow> raft_node io) \<Rightarrow> simulation \<Rightarrow> simulation io" where
  "with_node i f s =
     (case map_of (sim_nodes s) i of
        None \<Rightarrow> Inr s
      | Some n \<Rightarrow> and_then (f n) (\<lambda>n. Inr (s\<lparr>sim_nodes := AList.update i n (sim_nodes s)\<rparr>)))"

text \<open>The index operators of the simulation, for tests that reach into a node.\<close>

definition sim_index :: "node_id \<Rightarrow> simulation \<Rightarrow> raft_node io" where
  "sim_index i s = (case map_of (sim_nodes s) i of None \<Rightarrow> panic ''no entry found for key'' | Some n \<Rightarrow> Inr n)"

definition sim_index_mut :: "node_id \<Rightarrow> (raft_node \<Rightarrow> raft_node io) \<Rightarrow> simulation \<Rightarrow> simulation io" where
  "sim_index_mut i f s =
     (case map_of (sim_nodes s) i of
        None \<Rightarrow> panic ''called Option::unwrap() on a None value''
      | Some n \<Rightarrow> and_then (f n) (\<lambda>n. Inr (s\<lparr>sim_nodes := AList.update i n (sim_nodes s)\<rparr>)))"

text \<open>
  The nodes of a new cluster are made in empty directories, each at a time of its own and with its own
  random numbers; the clock starts afterwards, at time \<open>now\<close>.
\<close>

fun make_nodes ::
  "'x raft_ext_scheme \<Rightarrow> (node_id \<Rightarrow> nat) \<Rightarrow> (node_id \<Rightarrow> nat \<Rightarrow> nat) \<Rightarrow> node_id list \<Rightarrow> node_id list \<Rightarrow>
     (node_id \<times> raft_node) list io" where
  "make_nodes E started rand all [] = Inr []"
| "make_nodes E started rand all (i # ids) =
     and_then (new_in_dir E [] i (filter (\<lambda>j. j \<noteq> i) all) config_default (started i) (rand i)) (\<lambda>n.
     and_then (make_nodes E started rand all ids) (\<lambda>nodes. Inr ((i, n) # nodes)))"

text \<open>The election timeouts, in \<open>u64\<close> arithmetic with its overflow checks.\<close>

definition cluster_timeout :: "node_id \<Rightarrow> nat io" where
  "cluster_timeout i =
     (if unat i * 50 \<ge> 2 ^ 64 then panic ''attempt to multiply with overflow''
      else if 150 + unat i * 50 \<ge> 2 ^ 64 then panic ''attempt to add with overflow''
      else Inr (150 + unat i * 50))"

fun set_timeouts :: "nat \<Rightarrow> (node_id \<times> raft_node) list \<Rightarrow> (node_id \<times> raft_node) list io" where
  "set_timeouts now [] = Inr []"
| "set_timeouts now ((i, n) # nodes) =
     and_then (cluster_timeout i) (\<lambda>timeout.
     and_then (set_timeouts now nodes) (\<lambda>nodes. Inr ((i, set_election_timeout timeout now n) # nodes)))"

definition new_cluster ::
  "'x raft_ext_scheme \<Rightarrow> (node_id \<Rightarrow> nat) \<Rightarrow> nat \<Rightarrow> (node_id \<Rightarrow> nat \<Rightarrow> nat) \<Rightarrow> node_id list \<Rightarrow> simulation io" where
  "new_cluster E started now rand ids =
     and_then (make_nodes E started rand ids (sort (remdups ids))) (\<lambda>nodes.
     and_then (set_timeouts now nodes) (\<lambda>nodes. Inr (simulation_new now nodes)))"

lemma set_timeouts_result:
  "set_timeouts now nodes = Inr nodes' \<Longrightarrow>
     nodes' = map (\<lambda>(i, n). (i, set_election_timeout (150 + unat i * 50) now n)) nodes"
  by (induction nodes arbitrary: nodes')
    (auto simp: and_then_eq_Inr cluster_timeout_def panic_def split: if_splits)

lemma set_timeouts_returns:
  "\<forall>i \<in> set (map fst nodes). 150 + unat i * 50 < 2 ^ 64 \<Longrightarrow>
     set_timeouts now nodes = Inr (map (\<lambda>(i, n). (i, set_election_timeout (150 + unat i * 50) now n)) nodes)"
  by (induction nodes) (auto simp: cluster_timeout_def)

section \<open>Messages of a node\<close>

text \<open>One message of an outbox: it is lost, delayed or duplicated as the policy of its link says.\<close>

definition push_event :: "nat \<Rightarrow> node_id \<Rightarrow> node_id \<Rightarrow> message \<Rightarrow> simulation \<Rightarrow> simulation" where
  "push_event due from to msg s =
     s\<lparr>sim_events := \<lparr>deliver_at = due, ev_sequence = sequence_counter s, ev_from = from, ev_to = to,
                       ev_message = msg\<rparr> # sim_events s,
       sequence_counter := sequence_counter s + 1\<rparr>"

definition send_message :: "node_id \<Rightarrow> nat \<Rightarrow> node_id \<times> message \<Rightarrow> simulation \<Rightarrow> simulation" where
  "send_message from now = (\<lambda>(to, msg) s.
     if msg = MTimeout then s
     else if (from, to) \<in> blocked_links s \<or> to \<in> disabled_nodes s then s
     else
       (case map_of (link_policies s) (from, to) of
          None \<Rightarrow> push_event now from to msg s
        | Some policy \<Rightarrow>
            if drop_remaining policy > 0 then
              s\<lparr>link_policies := AList.update (from, to)
                  (policy\<lparr>drop_remaining := drop_remaining policy - 1\<rparr>) (link_policies s)\<rparr>
            else
              let due = (case lp_delay policy of None \<Rightarrow> now | Some delay \<Rightarrow> now + delay) in
              if duplicate_remaining policy > 0 then
                push_event (due + duplicate_delay policy) from to msg
                  (push_event due from to msg
                    (s\<lparr>link_policies := AList.update (from, to)
                        (policy\<lparr>duplicate_remaining := duplicate_remaining policy - 1\<rparr>) (link_policies s)\<rparr>))
              else push_event due from to msg s))"

definition flush_node_outbox :: "node_id \<Rightarrow> simulation \<Rightarrow> simulation" where
  "flush_node_outbox i s =
     (case map_of (sim_nodes s) i of
        None \<Rightarrow> s
      | Some n \<Rightarrow>
          let cleared = s\<lparr>sim_nodes := AList.update i (n\<lparr>rf_outbox := []\<rparr>) (sim_nodes s)\<rparr> in
          if i \<in> disabled_nodes s then cleared
          else if i \<in> paused_nodes s then s
          else fold (send_message i (sim_clock s)) (rf_outbox n) cleared)"

definition flush_all_outboxes :: "simulation \<Rightarrow> simulation" where
  "flush_all_outboxes s = fold flush_node_outbox (node_ids s) s"

section \<open>Faults\<close>

definition disable_node :: "node_id \<Rightarrow> simulation \<Rightarrow> simulation" where
  "disable_node i s =
     (let s = s\<lparr>disabled_nodes := insert i (disabled_nodes s)\<rparr> in
      case map_of (sim_nodes s) i of
        None \<Rightarrow> s
      | Some n \<Rightarrow> s\<lparr>sim_nodes := AList.update i (n\<lparr>rf_outbox := []\<rparr>) (sim_nodes s)\<rparr>)"

definition enable_node :: "node_id \<Rightarrow> simulation \<Rightarrow> simulation" where
  "enable_node i s = s\<lparr>disabled_nodes := disabled_nodes s - {i}\<rparr>"

definition crash_node :: "node_id \<Rightarrow> simulation \<Rightarrow> simulation" where
  "crash_node i s = disable_node i s"

definition restart_node :: "node_id \<Rightarrow> simulation \<Rightarrow> simulation" where
  "restart_node i s =
     (let s = s\<lparr>disabled_nodes := disabled_nodes s - {i}, paused_nodes := paused_nodes s - {i},
                paused_events := AList.delete i (paused_events s)\<rparr> in
      case map_of (sim_nodes s) i of
        None \<Rightarrow> s
      | Some n \<Rightarrow> s\<lparr>sim_nodes := AList.update i (restart (sim_clock s) n) (sim_nodes s)\<rparr>)"

definition pause_node :: "node_id \<Rightarrow> simulation \<Rightarrow> simulation" where
  "pause_node i s = s\<lparr>paused_nodes := insert i (paused_nodes s)\<rparr>"

definition resume_node :: "node_id \<Rightarrow> simulation \<Rightarrow> simulation" where
  "resume_node i s =
     (let s = s\<lparr>paused_nodes := paused_nodes s - {i}\<rparr>;
          s = (case map_of (paused_events s) i of
                 None \<Rightarrow> s
               | Some deferred \<Rightarrow>
                   s\<lparr>paused_events := AList.delete i (paused_events s),
                     sim_events := map (\<lambda>e. e\<lparr>deliver_at := sim_clock s\<rparr>) deferred @ sim_events s\<rparr>) in
      flush_node_outbox i s)"

definition block_link :: "node_id \<Rightarrow> node_id \<Rightarrow> simulation \<Rightarrow> simulation" where
  "block_link from to s = s\<lparr>blocked_links := insert (from, to) (blocked_links s)\<rparr>"

definition unblock_link :: "node_id \<Rightarrow> node_id \<Rightarrow> simulation \<Rightarrow> simulation" where
  "unblock_link from to s = s\<lparr>blocked_links := blocked_links s - {(from, to)}\<rparr>"

definition partition_groups :: "node_id list \<Rightarrow> node_id list \<Rightarrow> simulation \<Rightarrow> simulation" where
  "partition_groups group_a group_b =
     fold (\<lambda>a. fold (\<lambda>b s. block_link b a (block_link a b s)) group_b) group_a"

definition heal_all_partitions :: "simulation \<Rightarrow> simulation" where
  "heal_all_partitions s = s\<lparr>blocked_links := {}\<rparr>"

definition isolate_node :: "node_id \<Rightarrow> simulation \<Rightarrow> simulation" where
  "isolate_node i s =
     fold (\<lambda>peer s. block_link peer i (block_link i peer s)) (filter (\<lambda>p. p \<noteq> i) (node_ids s)) s"

definition reconnect_node :: "node_id \<Rightarrow> simulation \<Rightarrow> simulation" where
  "reconnect_node i s =
     fold (\<lambda>peer s. unblock_link peer i (unblock_link i peer s)) (filter (\<lambda>p. p \<noteq> i) (node_ids s)) s"

definition policy_of :: "node_id \<times> node_id \<Rightarrow> simulation \<Rightarrow> link_fault_policy" where
  "policy_of link s = (case map_of (link_policies s) link of None \<Rightarrow> link_fault_policy_default | Some p \<Rightarrow> p)"

definition drop_packets :: "node_id \<Rightarrow> node_id \<Rightarrow> nat \<Rightarrow> simulation \<Rightarrow> simulation" where
  "drop_packets from to k s =
     (let p = policy_of (from, to) s in
      s\<lparr>link_policies := AList.update (from, to) (p\<lparr>drop_remaining := drop_remaining p + k\<rparr>) (link_policies s)\<rparr>)"

definition delay_link :: "node_id \<Rightarrow> node_id \<Rightarrow> nat \<Rightarrow> simulation \<Rightarrow> simulation" where
  "delay_link from to delay s =
     s\<lparr>link_policies := AList.update (from, to) (policy_of (from, to) s\<lparr>lp_delay := Some delay\<rparr>) (link_policies s)\<rparr>"

definition clear_link_delay :: "node_id \<Rightarrow> node_id \<Rightarrow> simulation \<Rightarrow> simulation" where
  "clear_link_delay from to s =
     (case map_of (link_policies s) (from, to) of
        None \<Rightarrow> s
      | Some p \<Rightarrow> s\<lparr>link_policies := AList.update (from, to) (p\<lparr>lp_delay := None\<rparr>) (link_policies s)\<rparr>)"

definition duplicate_packets :: "node_id \<Rightarrow> node_id \<Rightarrow> nat \<Rightarrow> nat \<Rightarrow> simulation \<Rightarrow> simulation" where
  "duplicate_packets from to k delay s =
     (let p = policy_of (from, to) s in
      s\<lparr>link_policies := AList.update (from, to)
          (p\<lparr>duplicate_remaining := duplicate_remaining p + k, duplicate_delay := delay\<rparr>) (link_policies s)\<rparr>)"

definition schedule_fault :: "nat \<Rightarrow> fault \<Rightarrow> simulation \<Rightarrow> simulation" where
  "schedule_fault due fault s =
     (let s = s\<lparr>fault_sequence_counter := fault_sequence_counter s + 1\<rparr> in
      s\<lparr>scheduled_faults := \<lparr>trigger_at = due, sf_fault = fault, sf_sequence = fault_sequence_counter s\<rparr>
                              # scheduled_faults s\<rparr>)"

definition schedule_fault_after :: "nat \<Rightarrow> fault \<Rightarrow> simulation \<Rightarrow> simulation" where
  "schedule_fault_after delay fault s = schedule_fault (sim_clock s + delay) fault s"

text \<open>Elections with the overflow check of the term.\<close>

definition checked_election :: "nat \<Rightarrow> raft_node \<Rightarrow> raft_node io" where
  "checked_election now n =
     (if current_term n = - 1 then panic ''attempt to add with overflow'' else start_election now n)"

definition checked_tick :: "nat \<Rightarrow> raft_node \<Rightarrow> raft_node io" where
  "checked_tick now n =
     (if rf_role n \<noteq> Leader \<and> now \<ge> election_deadline n then checked_election now n else tick now n)"

definition checked_message :: "'x raft_ext_scheme \<Rightarrow> message \<Rightarrow> nat \<Rightarrow> raft_node \<Rightarrow> raft_node io" where
  "checked_message E m now n = (if m = MTimeout then checked_election now n else handle_message E m now n)"

definition trigger_election :: "node_id \<Rightarrow> simulation \<Rightarrow> simulation io" where
  "trigger_election i s =
     (if i \<in> disabled_nodes s \<or> i \<in> paused_nodes s then Inr s
      else and_then (with_node i (checked_election (sim_clock s)) s) (\<lambda>s. Inr (flush_node_outbox i s)))"

definition apply_fault :: "'x raft_ext_scheme \<Rightarrow> fault \<Rightarrow> simulation \<Rightarrow> simulation io" where
  "apply_fault E fault s =
     (case fault of
        CrashNode i \<Rightarrow> Inr (disable_node i s)
      | RestartNode i \<Rightarrow> Inr (restart_node i s)
      | PauseNode i \<Rightarrow> Inr (pause_node i s)
      | ResumeNode i \<Rightarrow> Inr (resume_node i s)
      | BlockLink from to \<Rightarrow> Inr (block_link from to s)
      | UnblockLink from to \<Rightarrow> Inr (unblock_link from to s)
      | Partition group_a group_b \<Rightarrow> Inr (partition_groups group_a group_b s)
      | HealAllPartitions \<Rightarrow> Inr (heal_all_partitions s)
      | IsolateNode i \<Rightarrow> Inr (isolate_node i s)
      | ReconnectNode i \<Rightarrow> Inr (reconnect_node i s)
      | DropPackets from to k \<Rightarrow> Inr (drop_packets from to k s)
      | DelayLink from to delay \<Rightarrow> Inr (delay_link from to delay s)
      | ClearLinkDelay from to \<Rightarrow> Inr (clear_link_delay from to s)
      | DuplicatePackets from to k delay \<Rightarrow> Inr (duplicate_packets from to k delay s)
      | TriggerElection i \<Rightarrow> trigger_election i s
      | SubmitCommand i command \<Rightarrow>
          and_then (with_node i (submit_command E command (sim_clock s)) s) (\<lambda>s. Inr (flush_node_outbox i s)))"

lemma flush_schedule [simp]: "scheduled_faults (flush_node_outbox i s) = scheduled_faults s"
proof -
  have "scheduled_faults (fold (send_message i now) ms s) = scheduled_faults s" for ms now s
    by (induction ms arbitrary: s) (auto simp: send_message_def push_event_def Let_def split: prod.splits option.splits)
  then show ?thesis by (simp add: flush_node_outbox_def Let_def split: option.splits)
qed

lemma with_node_schedule: "with_node i f s = Inr s' \<Longrightarrow> scheduled_faults s' = scheduled_faults s"
  by (auto simp: with_node_def and_then_eq_Inr split: option.splits)

lemma fold_schedule:
  assumes "\<And>x s. scheduled_faults (f x s) = scheduled_faults s"
  shows "scheduled_faults (fold f xs s) = scheduled_faults s"
  using assms by (induction xs arbitrary: s) auto

lemma apply_fault_schedule: "apply_fault E fault s = Inr s' \<Longrightarrow> scheduled_faults s' = scheduled_faults s"
  by (cases fault)
    (auto simp: apply_fault_def disable_node_def restart_node_def pause_node_def resume_node_def block_link_def
      unblock_link_def partition_groups_def heal_all_partitions_def isolate_node_def reconnect_node_def
      drop_packets_def delay_link_def clear_link_delay_def duplicate_packets_def trigger_election_def Let_def
      and_then_eq_Inr fold_schedule dest!: with_node_schedule split: option.splits if_splits)

lemma pop_schedule: "queue_pop key q = Some (x, q') \<Longrightarrow> length q' < length q"
  using time_queue.pop_least(3) by fastforce

function trigger_due_faults :: "'x raft_ext_scheme \<Rightarrow> simulation \<Rightarrow> simulation io" where
  "trigger_due_faults E s =
     (case queue_pop fault_key (scheduled_faults s) of
        None \<Rightarrow> Inr s
      | Some (scheduled, rest) \<Rightarrow>
          if trigger_at scheduled \<le> sim_clock s then
            and_then (apply_fault E (sf_fault scheduled) (s\<lparr>scheduled_faults := rest\<rparr>)) (\<lambda>s. trigger_due_faults E s)
          else Inr s)"
  by pat_completeness auto
termination
  by (relation "measure (\<lambda>(E, s). length (scheduled_faults s))")
    (auto dest!: pop_schedule apply_fault_schedule)

declare trigger_due_faults.simps [simp del]

section \<open>Leaders\<close>

definition running :: "simulation \<Rightarrow> node_id \<Rightarrow> bool" where
  "running s i \<longleftrightarrow> i \<notin> disabled_nodes s \<and> i \<notin> paused_nodes s"

definition better_leader :: "simulation \<Rightarrow> node_id \<times> raft_node \<Rightarrow> (u64 \<times> node_id) option \<Rightarrow> (u64 \<times> node_id) option" where
  "better_leader s = (\<lambda>(i, n) best.
     if running s i \<and> rf_role n = Leader then
       (case best of
          Some (best_term, _) \<Rightarrow> if current_term n > best_term then Some (current_term n, i) else best
        | None \<Rightarrow> Some (current_term n, i))
     else best)"

definition get_leader :: "simulation \<Rightarrow> node_id option" where
  "get_leader s = map_option snd (fold (better_leader s) (sim_nodes s) None)"

definition leader_count :: "simulation \<Rightarrow> nat" where
  "leader_count s = length (filter (\<lambda>(i, n). running s i \<and> rf_role n = Leader) (sim_nodes s))"

section \<open>Running\<close>

fun tick_nodes :: "nat \<Rightarrow> node_id list \<Rightarrow> simulation \<Rightarrow> simulation io" where
  "tick_nodes now [] s = Inr s"
| "tick_nodes now (i # ids) s =
     (if \<not> running s i then tick_nodes now ids s
      else and_then (with_node i (checked_tick now) s) (\<lambda>s. tick_nodes now ids (flush_node_outbox i s)))"

definition advance_time :: "'x raft_ext_scheme \<Rightarrow> nat \<Rightarrow> simulation \<Rightarrow> simulation io" where
  "advance_time E millis s =
     and_then (trigger_due_faults E (s\<lparr>sim_clock := sim_clock s + millis\<rparr>)) (\<lambda>s.
     tick_nodes (sim_clock s) (node_ids s) s)"

definition route_event :: "'x raft_ext_scheme \<Rightarrow> event \<Rightarrow> simulation \<Rightarrow> simulation io" where
  "route_event E e s =
     (if ev_from e \<in> disabled_nodes s \<or> ev_to e \<in> disabled_nodes s \<or> (ev_from e, ev_to e) \<in> blocked_links s
      then Inr s
      else if ev_to e \<in> paused_nodes s then
        Inr (s\<lparr>paused_events := AList.update (ev_to e)
          ((case map_of (paused_events s) (ev_to e) of None \<Rightarrow> [] | Some es \<Rightarrow> es) @ [e]) (paused_events s)\<rparr>)
      else
        and_then (with_node (ev_to e) (checked_message E (ev_message e) (sim_clock s)) s) (\<lambda>s.
        Inr (flush_node_outbox (ev_to e) s)))"

definition deliver_next :: "'x raft_ext_scheme \<Rightarrow> simulation \<Rightarrow> (simulation \<times> bool) io" where
  "deliver_next E s =
     and_then (trigger_due_faults E s) (\<lambda>s.
     case queue_pop event_key (sim_events s) of
       None \<Rightarrow>
         (case queue_peek fault_key (scheduled_faults s) of
            Some f \<Rightarrow>
              if trigger_at f > sim_clock s then
                and_then (advance_time E (max (trigger_at f - sim_clock s) 1) s) (\<lambda>s. Inr (s, True))
              else Inr (s, False)
          | None \<Rightarrow> Inr (s, False))
     | Some (e, rest) \<Rightarrow>
         and_then (trigger_due_faults E
             (s\<lparr>sim_events := rest, sim_clock := max (sim_clock s) (deliver_at e)\<rparr>)) (\<lambda>s.
         and_then (route_event E e s) (\<lambda>s. Inr (s, True))))"

text \<open>The loop of \<open>run_until_idle\<close> panics when it has made more than 10000 steps.\<close>

fun idle_loop :: "'x raft_ext_scheme \<Rightarrow> nat \<Rightarrow> simulation \<Rightarrow> simulation io" where
  "idle_loop E left s =
     and_then (deliver_next E s) (\<lambda>(s, more).
     if \<not> more then Inr s
     else (case left of 0 \<Rightarrow> panic ''simulation exceeded 10000 steps'' | Suc left \<Rightarrow> idle_loop E left s))"

definition run_until_idle :: "'x raft_ext_scheme \<Rightarrow> simulation \<Rightarrow> simulation io" where
  "run_until_idle E s = idle_loop E 10000 (flush_all_outboxes s)"

fun step_loop :: "'x raft_ext_scheme \<Rightarrow> nat \<Rightarrow> simulation \<Rightarrow> (simulation \<times> nat) io" where
  "step_loop E 0 s = Inr (s, 0)"
| "step_loop E (Suc k) s =
     and_then (deliver_next E s) (\<lambda>(s, more).
     if \<not> more then Inr (s, 0) else and_then (step_loop E k s) (\<lambda>(s, executed). Inr (s, executed + 1)))"

definition run_steps :: "'x raft_ext_scheme \<Rightarrow> nat \<Rightarrow> simulation \<Rightarrow> (simulation \<times> nat) io" where
  "run_steps E max_steps s = step_loop E max_steps (flush_all_outboxes s)"

section \<open>The safety check\<close>

fun first_some :: "('a \<Rightarrow> 'b option) \<Rightarrow> 'a list \<Rightarrow> 'b option" where
  "first_some f [] = None"
| "first_some f (x # xs) = (case f x of None \<Rightarrow> first_some f xs | Some y \<Rightarrow> Some y)"

fun pairs :: "'a list \<Rightarrow> ('a \<times> 'a) list" where
  "pairs [] = []"
| "pairs (x # xs) = map (Pair x) xs @ pairs xs"

definition leaders_in :: "simulation \<Rightarrow> u64 \<Rightarrow> node_id list" where
  "leaders_in s t = map fst (filter (\<lambda>(_, n). rf_role n = Leader \<and> current_term n = t) (sim_nodes s))"

definition check_election :: "simulation \<Rightarrow> invariant_violation option" where
  "check_election s =
     first_some (\<lambda>t. if length (leaders_in s t) > 1 then Some (ElectionSafetyViolation t (leaders_in s t)) else None)
       (sort (remdups (map (\<lambda>(_, n). current_term n) (filter (\<lambda>(_, n). rf_role n = Leader) (sim_nodes s)))))"

definition check_logs :: "(node_id \<times> raft_node) \<times> (node_id \<times> raft_node) \<Rightarrow> invariant_violation option" where
  "check_logs = (\<lambda>((id_a, node_a), (id_b, node_b)).
     first_some (\<lambda>idx.
         if le_term (rf_log node_a ! idx) = le_term (rf_log node_b ! idx) then
           first_some (\<lambda>k.
               if le_term (rf_log node_a ! k) \<noteq> le_term (rf_log node_b ! k)
               then Some (LogMatchingViolation id_a id_b k (le_term (rf_log node_a ! k)) (le_term (rf_log node_b ! k)))
               else None) [1..<idx + 1]
         else None) [1..<min (length (rf_log node_a)) (length (rf_log node_b))])"

text \<open>
  The derived equality of payloads. A float that is not a number is not equal to itself, and the two
  zeros are equal.
\<close>

definition f64_is_nan :: "f64 \<Rightarrow> bool" where
  "f64_is_nan a \<longleftrightarrow> a AND 0x7FFFFFFFFFFFFFFF > 0x7FF0000000000000"

definition f64_eq :: "f64 \<Rightarrow> f64 \<Rightarrow> bool" where
  "f64_eq a b \<longleftrightarrow>
     \<not> f64_is_nan a \<and> \<not> f64_is_nan b \<and>
     (a = b \<or> a AND 0x7FFFFFFFFFFFFFFF = 0 \<and> b AND 0x7FFFFFFFFFFFFFFF = 0)"

fun val_eq :: "val \<Rightarrow> val \<Rightarrow> bool" where
  "val_eq (VInt a) (VInt b) = (a = b)"
| "val_eq (VFloat a) (VFloat b) = f64_eq a b"
| "val_eq (VString a) (VString b) = (a = b)"
| "val_eq _ _ = False"

fun command_eq :: "command \<Rightarrow> command \<Rightarrow> bool" where
  "command_eq (CmdSet k v) (CmdSet l w) = (k = l \<and> val_eq v w)"
| "command_eq (CmdDelete k) (CmdDelete l) = (k = l)"
| "command_eq _ _ = False"

definition record_eq :: "log_record \<Rightarrow> log_record \<Rightarrow> bool" where
  "record_eq r q \<longleftrightarrow> lr_id r = lr_id q \<and> command_eq (lr_command r) (lr_command q) \<and> lr_checksum r = lr_checksum q"

fun payload_eq :: "entry_payload \<Rightarrow> entry_payload \<Rightarrow> bool" where
  "payload_eq (PCommand r) (PCommand q) = record_eq r q"
| "payload_eq (PAddNode i a) (PAddNode j b) = (i = j \<and> a = b)"
| "payload_eq (PRemoveNode i) (PRemoveNode j) = (i = j)"
| "payload_eq _ _ = False"

definition check_commits ::
  "(entry_payload \<Rightarrow> rstring) \<Rightarrow> (node_id \<times> raft_node) \<times> (node_id \<times> raft_node) \<Rightarrow> invariant_violation option" where
  "check_commits debug = (\<lambda>((id_a, node_a), (id_b, node_b)).
     first_some (\<lambda>idx.
         if idx \<ge> length (rf_log node_a) \<or> idx \<ge> length (rf_log node_b) then None
         else
           let entry_a = le_payload (rf_log node_a ! idx); entry_b = le_payload (rf_log node_b ! idx) in
           if \<not> payload_eq entry_a entry_b then Some (StateSafetyViolation idx id_a id_b (debug entry_a) (debug entry_b)) else None)
       [1..<min (commit_index node_a) (commit_index node_b) + 1])"

text \<open>\<open>debug\<close> is the derived \<open>Debug\<close> output of a payload, which only appears in the report.\<close>

definition check_invariants :: "(entry_payload \<Rightarrow> rstring) \<Rightarrow> simulation \<Rightarrow> invariant_violation + unit" where
  "check_invariants debug s =
     (case check_election s of
        Some v \<Rightarrow> Inl v
      | None \<Rightarrow>
          (case first_some check_logs (pairs (sim_nodes s)) of
             Some v \<Rightarrow> Inl v
           | None \<Rightarrow>
               (case first_some (check_commits debug) (pairs (sim_nodes s)) of
                  Some v \<Rightarrow> Inl v
                | None \<Rightarrow> Inr ())))"

section \<open>Chaos\<close>

type_synonym fault_stage = "deterministic_rng \<Rightarrow> (fault option \<times> deterministic_rng) io"

definition crash_stage :: "simulation \<Rightarrow> fault_stage" where
  "crash_stage s rng =
     (let active = filter (\<lambda>i. i \<notin> disabled_nodes s) (node_ids s) in
      if length active > 1 then
        (case rng_choose active rng of (i, rng) \<Rightarrow> Inr (map_option CrashNode i, rng))
      else Inr (None, rng))"

definition restart_stage :: "simulation \<Rightarrow> fault_stage" where
  "restart_stage s rng =
     (case rng_choose (sorted_list_of_set (disabled_nodes s)) rng of (i, rng) \<Rightarrow> Inr (map_option RestartNode i, rng))"

fun shuffle :: "nat \<Rightarrow> 'a list \<Rightarrow> deterministic_rng \<Rightarrow> 'a list \<times> deterministic_rng" where
  "shuffle 0 xs rng = (xs, rng)"
| "shuffle (Suc i) xs rng =
     (case next_u64 rng of
        (x, rng) \<Rightarrow>
          let j = unat x mod (Suc i + 1) in shuffle i (xs[Suc i := xs ! j, j := xs ! Suc i]) rng)"

definition partition_stage :: "simulation \<Rightarrow> fault_stage" where
  "partition_stage s rng =
     (case shuffle (length (node_ids s) - 1) (node_ids s) rng of
        (shuffled, rng) \<Rightarrow>
          let split_idx = max 1 (length shuffled div 2) in
          Inr (Some (Partition (take split_idx shuffled) (drop split_idx shuffled)), rng))"

definition heal_stage :: "simulation \<Rightarrow> fault_stage" where
  "heal_stage s rng = Inr (if blocked_links s \<noteq> {} then Some HealAllPartitions else None, rng)"

definition choose_link :: "simulation \<Rightarrow> deterministic_rng \<Rightarrow> ((node_id \<times> node_id) option \<times> deterministic_rng) io" where
  "choose_link s rng =
     (case rng_choose (node_ids s) rng of
        (None, _) \<Rightarrow> panic ''called Option::unwrap() on a None value''
      | (Some from, rng) \<Rightarrow>
          (case rng_choose (node_ids s) rng of
             (None, _) \<Rightarrow> panic ''called Option::unwrap() on a None value''
           | (Some to, rng) \<Rightarrow> Inr (if from \<noteq> to then Some (from, to) else None, rng)))"

definition drop_stage :: "simulation \<Rightarrow> fault_stage" where
  "drop_stage s rng =
     and_then (choose_link s rng) (\<lambda>(link, rng).
     case link of
       None \<Rightarrow> Inr (None, rng)
     | Some (from, to) \<Rightarrow>
         and_then (gen_range 1 3 rng) (\<lambda>(k, rng). Inr (Some (DropPackets from to (unat k)), rng)))"

definition delay_stage :: "chaos_config \<Rightarrow> simulation \<Rightarrow> fault_stage" where
  "delay_stage cfg s rng =
     and_then (choose_link s rng) (\<lambda>(link, rng).
     case link of
       None \<Rightarrow> Inr (None, rng)
     | Some (from, to) \<Rightarrow>
         and_then (gen_range 5 (of_nat (max (max_packet_delay cfg) 6)) rng) (\<lambda>(millis, rng).
         Inr (Some (DelayLink from to (unat millis)), rng)))"

fun try_stages :: "rat \<Rightarrow> rat \<Rightarrow> (rat \<times> fault_stage) list \<Rightarrow> fault_stage" where
  "try_stages roll cumulative [] rng = Inr (None, rng)"
| "try_stages roll cumulative ((prob, stage) # stages) rng =
     (let cumulative = f64_round (cumulative + prob) in
      if roll < cumulative then
        and_then (stage rng) (\<lambda>(fault, rng).
        case fault of Some f \<Rightarrow> Inr (Some f, rng) | None \<Rightarrow> try_stages roll cumulative stages rng)
      else try_stages roll cumulative stages rng)"

definition random_fault :: "chaos_config \<Rightarrow> simulation \<Rightarrow> fault_stage" where
  "random_fault cfg s rng =
     (if length (node_ids s) < 2 then Inr (None, rng)
      else
        case next_f64 rng of
          (roll, rng) \<Rightarrow>
            try_stages roll 0
              [(crash_prob cfg, crash_stage s), (restart_prob cfg, restart_stage s),
               (partition_prob cfg, partition_stage s), (heal_prob cfg, heal_stage s),
               (packet_drop_prob cfg, drop_stage s), (packet_delay_prob cfg, delay_stage cfg s)] rng)"

definition inject_random_fault ::
  "'x raft_ext_scheme \<Rightarrow> chaos_config \<Rightarrow> deterministic_rng \<Rightarrow> simulation \<Rightarrow> (simulation \<times> deterministic_rng \<times> fault option) io" where
  "inject_random_fault E cfg rng s =
     and_then (random_fault cfg s rng) (\<lambda>(fault, rng).
     case fault of
       None \<Rightarrow> Inr (s, rng, None)
     | Some f \<Rightarrow> and_then (apply_fault E f s) (\<lambda>s. Inr (s, rng, Some f)))"

definition chaos_command :: "nat \<Rightarrow> command" where
  "chaos_command ops = CmdSet (str ''chaos_key_'' @ nat_dec ops) (VInt (of_nat ops))"

definition chaos_write ::
  "'x raft_ext_scheme \<Rightarrow> node_id list \<Rightarrow> deterministic_rng \<Rightarrow> nat \<Rightarrow> simulation \<Rightarrow> (simulation \<times> deterministic_rng \<times> nat) io" where
  "chaos_write E ids rng ops s =
     (case (case get_leader s of Some i \<Rightarrow> (Some i, rng) | None \<Rightarrow> rng_choose ids rng) of
        (None, _) \<Rightarrow> panic ''called Option::unwrap() on a None value''
      | (Some target, rng) \<Rightarrow>
          if running s target then
            and_then (apply_fault E (SubmitCommand target (chaos_command ops)) s) (\<lambda>s. Inr (s, rng, ops + 1))
          else Inr (s, rng, ops))"

definition chaos_move ::
  "'x raft_ext_scheme \<Rightarrow> deterministic_rng \<Rightarrow> simulation \<Rightarrow> (simulation \<times> deterministic_rng) io" where
  "chaos_move E rng s =
     (case next_f64 rng of
        (roll, rng) \<Rightarrow>
          if roll < f64_round (35 / 100) then
            and_then (gen_range 10 50 rng) (\<lambda>(advance_ms, rng).
            and_then (advance_time E (unat advance_ms) s) (\<lambda>s. Inr (s, rng)))
          else and_then (deliver_next E s) (\<lambda>(s, _). Inr (s, rng)))"

text \<open>\<open>left\<close> steps are left of \<open>steps\<close>.\<close>

fun chaos_loop ::
  "'x raft_ext_scheme \<Rightarrow> (entry_payload \<Rightarrow> rstring) \<Rightarrow> chaos_config \<Rightarrow> node_id list \<Rightarrow> nat \<Rightarrow> nat \<Rightarrow> deterministic_rng \<Rightarrow> nat \<Rightarrow>
     simulation \<Rightarrow> (simulation \<times> (invariant_violation + nat)) io" where
  "chaos_loop E debug cfg ids 0 step rng ops s = Inr (s, Inr ops)"
| "chaos_loop E debug cfg ids (Suc left) step rng ops s =
     and_then (if step mod 8 = 0 then chaos_write E ids rng ops s else Inr (s, rng, ops)) (\<lambda>(s, rng, ops).
     and_then (inject_random_fault E cfg rng s) (\<lambda>(s, rng, _).
     and_then (chaos_move E rng s) (\<lambda>(s, rng).
     case check_invariants debug s of
       Inl v \<Rightarrow> Inr (s, Inl v)
     | Inr _ \<Rightarrow> chaos_loop E debug cfg ids left (step + 1) rng ops s)))"

definition converge_node :: "node_id \<Rightarrow> simulation \<Rightarrow> simulation" where
  "converge_node i s =
     (let s = (if i \<in> disabled_nodes s then restart_node i s else s) in
      if i \<in> paused_nodes s then resume_node i s else s)"

definition run_chaos_test ::
  "'x raft_ext_scheme \<Rightarrow> (entry_payload \<Rightarrow> rstring) \<Rightarrow> u64 \<Rightarrow> nat \<Rightarrow> chaos_config \<Rightarrow> simulation \<Rightarrow>
     (simulation \<times> (invariant_violation + nat)) io" where
  "run_chaos_test E debug seed steps cfg s =
     (let ids = node_ids s in
      and_then (chaos_loop E debug cfg ids steps 0 (rng_new seed) 0 s) (\<lambda>(s, result).
      case result of
        Inl v \<Rightarrow> Inr (s, Inl v)
      | Inr ops \<Rightarrow>
          and_then (run_until_idle E (fold converge_node ids (heal_all_partitions s))) (\<lambda>s.
          case check_invariants debug s of Inl v \<Rightarrow> Inr (s, Inl v) | Inr _ \<Rightarrow> Inr (s, Inr ops))))"

end
