(* ===== verification/Simulator_Safety.thy ===== *)
theory Simulator_Safety
  imports Simulator
begin

text \<open>
  Everything that the simulator does to a cluster is a sequence of steps of the cluster: so its
  check of the safety invariants never fails, whatever faults are injected.
\<close>

section \<open>The cluster behind a simulation\<close>

definition sim_membership :: "node_id list \<Rightarrow> membership" where
  "sim_membership ids =
     \<lparr>mb_ids = set ids, mb_peers = (\<lambda>i. filter (\<lambda>j. j \<noteq> i) ids), mb_config = config_default\<rparr>"

lemma sim_membership_simps [simp]:
  "mb_ids (sim_membership ids) = set ids" "mb_peers (sim_membership ids) i = filter (\<lambda>j. j \<noteq> i) ids"
  "mb_config (sim_membership ids) = config_default"
  by (simp_all add: sim_membership_def)

lemma sim_membership_ok: "distinct ids \<Longrightarrow> 0 \<notin> set ids \<Longrightarrow> membership_ok (sim_membership ids)"
  by (auto simp: membership_ok_def)

definition events_of :: "simulation \<Rightarrow> event set" where
  "events_of s = set (sim_events s) \<union> \<Union> (set ` snd ` set (paused_events s))"

definition represents :: "membership \<Rightarrow> simulation \<Rightarrow> cluster \<Rightarrow> bool" where
  "represents M s c \<longleftrightarrow>
     distinct (node_ids s) \<and> set (node_ids s) = mb_ids M \<and>
     (\<forall>i \<in> mb_ids M. map_of (sim_nodes s) i = Some (cl_nodes c i)) \<and>
     (\<forall>e \<in> events_of s. (ev_to e, ev_message e) \<in> cl_net c)"

definition fault_good :: "'x raft_ext_scheme \<Rightarrow> fault \<Rightarrow> bool" where
  "fault_good E fault \<longleftrightarrow> (\<forall>i c. fault = SubmitCommand i c \<longrightarrow> command_good E c)"

text \<open>\<open>K\<close> are messages that have been sent before.\<close>

definition sim_ok :: "'x raft_ext_scheme \<Rightarrow> membership \<Rightarrow> (node_id \<times> message) set \<Rightarrow> simulation \<Rightarrow> bool" where
  "sim_ok E M K s \<longleftrightarrow>
     (\<exists>c. live_reach E M c \<and> represents M s c \<and> K \<subseteq> cl_net c) \<and> (\<forall>f \<in> set (scheduled_faults s). fault_good E (sf_fault f))"

lemma sim_okI:
  "live_reach E M c \<Longrightarrow> represents M s c \<Longrightarrow> K \<subseteq> cl_net c \<Longrightarrow> \<forall>f \<in> set (scheduled_faults s). fault_good E (sf_fault f) \<Longrightarrow> sim_ok E M K s"
  by (auto simp: sim_ok_def)

lemma sim_ok_same:
  assumes "sim_ok E M K s" and "sim_nodes s' = sim_nodes s" and "events_of s' \<subseteq> events_of s"
    and "set (scheduled_faults s') \<subseteq> set (scheduled_faults s)"
  shows "sim_ok E M K s'"
  using assms unfolding sim_ok_def represents_def by (metis subsetD)

lemma represents_node:
  assumes "represents M s c" and "i \<in> mb_ids M" and "sim_nodes s' = AList.update i n (sim_nodes s)"
    and "cl_nodes c' = (cl_nodes c)(i := n)" and "\<forall>e \<in> events_of s'. (ev_to e, ev_message e) \<in> cl_net c'"
  shows "represents M s' c'"
proof -
  have "map_of (sim_nodes s) i \<noteq> None" using assms(1,2) by (simp add: represents_def)
  from update_keeps_keys [OF this, of n] assms show ?thesis by (auto simp: represents_def map_of_update)
qed

lemma represents_lookup:
  assumes "represents M s c" and "map_of (sim_nodes s) i = Some n"
  shows "i \<in> mb_ids M" and "n = cl_nodes c i"
proof -
  have "i \<in> fst ` set (sim_nodes s)" using map_of_SomeD [OF assms(2)] by force
  then show "i \<in> mb_ids M" using assms(1) by (simp add: represents_def)
  then show "n = cl_nodes c i" using assms by (simp add: represents_def)
qed

text \<open>A node may do what is a step of the cluster.\<close>

lemma sim_ok_with_node:
  assumes ok: "sim_ok E M K s" and run: "with_node i f s = Inr s'"
    and step: "\<And>c n. live_reach E M c \<Longrightarrow> represents M s c \<Longrightarrow> K \<subseteq> cl_net c \<Longrightarrow> i \<in> mb_ids M \<Longrightarrow> f (cl_nodes c i) = Inr n \<Longrightarrow> live_step E M c (set_node i n c)"
  shows "sim_ok E M K s'"
proof (cases "map_of (sim_nodes s) i")
  case None
  with ok run show ?thesis by (simp add: with_node_def)
next
  case (Some n)
  obtain c where c: "live_reach E M c" "represents M s c" "K \<subseteq> cl_net c" using ok by (auto simp: sim_ok_def)
  note i = represents_lookup(1) [OF c(2) Some] and n = represents_lookup(2) [OF c(2) Some]
  obtain n' where n': "f n = Inr n'" "s' = s\<lparr>sim_nodes := AList.update i n' (sim_nodes s)\<rparr>"
    using run Some by (auto simp: with_node_def and_then_eq_Inr)
  have live: "live_reach E M (set_node i n' c)" using live_reach.Step [OF c(1) step [OF c i]] n'(1) n by simp
  have "represents M s' (set_node i n' c)"
    by (rule represents_node [OF c(2) i]) (use c(2) n'(2) in \<open>auto simp: represents_def events_of_def\<close>)
  from sim_okI [OF live this] ok n'(2) c(3) show ?thesis by (simp add: sim_ok_def)
qed

lemma send_message_fields:
  "sim_nodes (send_message i now x s) = sim_nodes s" "paused_events (send_message i now x s) = paused_events s"
  "set (sim_events (send_message i now x s)) \<subseteq> set (sim_events s) \<union> {e. (ev_to e, ev_message e) = x}"
  "scheduled_faults (send_message i now x s) = scheduled_faults s"
  by (cases x; auto simp: send_message_def push_event_def Let_def split: option.splits if_splits)+

lemma send_all_messages:
  "sim_nodes (fold (send_message i now) ms s) = sim_nodes s \<and> paused_events (fold (send_message i now) ms s) = paused_events s \<and>
   set (sim_events (fold (send_message i now) ms s)) \<subseteq> set (sim_events s) \<union> {e. (ev_to e, ev_message e) \<in> set ms}"
proof (induction ms arbitrary: s)
  case (Cons x ms)
  from Cons.IH [of "send_message i now x s"] send_message_fields [of i now x s] show ?case by auto
qed simp

lemma sim_ok_flush:
  assumes ok: "sim_ok E M K s"
  shows "sim_ok E M K (flush_node_outbox i s)"
proof (cases "map_of (sim_nodes s) i = None \<or> (i \<in> paused_nodes s \<and> i \<notin> disabled_nodes s)")
  case True
  then show ?thesis using ok by (auto simp: flush_node_outbox_def Let_def split: option.splits)
next
  case False
  obtain c where c: "live_reach E M c" "represents M s c" "K \<subseteq> cl_net c" using ok by (auto simp: sim_ok_def)
  from False obtain n where n: "map_of (sim_nodes s) i = Some n" by auto
  note i = represents_lookup(1) [OF c(2) n] and ni = represents_lookup(2) [OF c(2) n]
  let ?s = "s\<lparr>sim_nodes := AList.update i (n\<lparr>rf_outbox := []\<rparr>) (sim_nodes s)\<rparr>"
  let ?c = "set_node i (n\<lparr>rf_outbox := []\<rparr>) c\<lparr>cl_net := cl_net c \<union> set (rf_outbox n)\<rparr>"
  have live: "live_reach E M ?c" using live_reach.Step [OF c(1) live_step.Send [OF i, of "rf_outbox n"]] ni by simp
  have flush: "flush_node_outbox i s = ?s \<or> flush_node_outbox i s = fold (send_message i (sim_clock s)) (rf_outbox n) ?s"
    using False n by (auto simp: flush_node_outbox_def Let_def)
  moreover have events: "(ev_to e, ev_message e) \<in> cl_net c" if "e \<in> events_of s" for e using c(2) that by (simp add: represents_def)
  ultimately have "\<forall>e \<in> events_of (flush_node_outbox i s). (ev_to e, ev_message e) \<in> cl_net ?c"
    using send_all_messages [of i "sim_clock s" "rf_outbox n" ?s] unfolding events_of_def by (elim disjE) (auto simp: events_of_def)
  moreover have "sim_nodes (flush_node_outbox i s) = AList.update i (n\<lparr>rf_outbox := []\<rparr>) (sim_nodes s)"
    using flush send_all_messages [of i "sim_clock s" "rf_outbox n" ?s] by auto
  ultimately have "represents M (flush_node_outbox i s) ?c" by (intro represents_node [OF c(2) i]) simp_all
  moreover have "K \<subseteq> cl_net ?c" using c(3) by auto
  ultimately show ?thesis using sim_okI [OF live] ok by (simp add: sim_ok_def)
qed

section \<open>Operations\<close>

lemma sim_ok_fold:
  assumes "sim_ok E M K s" and "\<And>x s. sim_ok E M K s \<Longrightarrow> sim_ok E M K (f x s)"
  shows "sim_ok E M K (fold f xs s)"
  using assms(1) by (induction xs arbitrary: s) (simp_all add: assms(2))

lemma sim_ok_flush_all: "sim_ok E M K s \<Longrightarrow> sim_ok E M K (flush_all_outboxes s)"
  unfolding flush_all_outboxes_def by (rule sim_ok_fold) (auto intro: sim_ok_flush)

text \<open>Setting a node to what a step of the cluster makes of it.\<close>

lemma sim_ok_set_node:
  assumes "sim_ok E M K s" and "map_of (sim_nodes s) i = Some n"
    and "\<And>c. cl_nodes c i = n \<Longrightarrow> i \<in> mb_ids M \<Longrightarrow> live_step E M c (set_node i n' c)"
  shows "sim_ok E M K (s\<lparr>sim_nodes := AList.update i n' (sim_nodes s)\<rparr>)"
proof -
  have "with_node i (\<lambda>_. Inr n') s = Inr (s\<lparr>sim_nodes := AList.update i n' (sim_nodes s)\<rparr>)"
    using assms(2) by (simp add: with_node_def)
  from sim_ok_with_node [OF assms(1) this] assms(2,3) represents_lookup(2) show ?thesis by fastforce
qed

lemma step_clear: "i \<in> mb_ids M \<Longrightarrow> live_step E M c (set_node i (cl_nodes c i\<lparr>rf_outbox := []\<rparr>) c)"
  using live_step.Send [of i M "[]" c E] by (simp add: set_node_def)

lemma sim_ok_disable:
  assumes "sim_ok E M K s"
  shows "sim_ok E M K (disable_node i s)"
proof -
  let ?s = "s\<lparr>disabled_nodes := insert i (disabled_nodes s)\<rparr>"
  have ok: "sim_ok E M K ?s" by (rule sim_ok_same [OF assms]) (simp_all add: events_of_def)
  show ?thesis
    using sim_ok_set_node [OF ok, of i] step_clear ok by (fastforce simp: disable_node_def Let_def split: option.splits)
qed

lemma sim_ok_restart:
  assumes "sim_ok E M K s"
  shows "sim_ok E M K (restart_node i s)"
proof -
  let ?s = "s\<lparr>disabled_nodes := disabled_nodes s - {i}, paused_nodes := paused_nodes s - {i},
                paused_events := AList.delete i (paused_events s)\<rparr>"
  have ok: "sim_ok E M K ?s" by (rule sim_ok_same [OF assms]) (auto simp: events_of_def AList.delete_eq)
  show ?thesis
    using sim_ok_set_node [OF ok, of i] live_step.Restart ok by (fastforce simp: restart_node_def Let_def split: option.splits)
qed

lemma sim_ok_resume:
  assumes ok: "sim_ok E M K s"
  shows "sim_ok E M K (resume_node i s)"
proof -
  let ?s = "s\<lparr>paused_nodes := paused_nodes s - {i}\<rparr>"
  have "sim_ok E M K (case map_of (paused_events ?s) i of None \<Rightarrow> ?s
      | Some deferred \<Rightarrow> ?s\<lparr>paused_events := AList.delete i (paused_events ?s),
          sim_events := map (\<lambda>e. e\<lparr>deliver_at := sim_clock ?s\<rparr>) deferred @ sim_events ?s\<rparr>)"
  proof (cases "map_of (paused_events s) i")
    case None
    then show ?thesis using sim_ok_same [OF ok, of ?s] by (simp add: events_of_def)
  next
    case (Some deferred)
    then have in_events: "set deferred \<subseteq> events_of s" by (auto simp: events_of_def dest!: map_of_SomeD intro!: bexI)
    obtain c where c: "live_reach E M c" "represents M s c" "K \<subseteq> cl_net c" using ok by (auto simp: sim_ok_def)
    let ?t = "?s\<lparr>paused_events := AList.delete i (paused_events s),
          sim_events := map (\<lambda>e. e\<lparr>deliver_at := sim_clock s\<rparr>) deferred @ sim_events s\<rparr>"
    have "(ev_to e, ev_message e) \<in> cl_net c" if "e \<in> events_of ?t" for e
    proof -
      have "e \<in> events_of s \<or> (\<exists>d \<in> set deferred. ev_to e = ev_to d \<and> ev_message e = ev_message d)"
        using that by (force simp: events_of_def AList.delete_eq)
      with c(2) in_events show ?thesis by (auto simp: represents_def)
    qed
    then have "represents M ?t c" using c(2) by (simp add: represents_def)
    with c(1,3) ok Some show ?thesis by (auto intro: sim_okI simp: sim_ok_def)
  qed
  then show ?thesis unfolding resume_node_def Let_def by (rule sim_ok_flush)
qed

lemma sim_ok_links:
  assumes "sim_ok E M K s"
  shows "sim_ok E M K (block_link a b s)" "sim_ok E M K (unblock_link a b s)" "sim_ok E M K (heal_all_partitions s)"
    "sim_ok E M K (pause_node i s)" "sim_ok E M K (drop_packets a b k s)" "sim_ok E M K (delay_link a b k s)"
    "sim_ok E M K (clear_link_delay a b s)" "sim_ok E M K (duplicate_packets a b k l s)" "sim_ok E M K (enable_node i s)"
  by (rule sim_ok_same [OF assms];
      simp add: block_link_def unblock_link_def heal_all_partitions_def pause_node_def drop_packets_def delay_link_def
        clear_link_delay_def duplicate_packets_def enable_node_def events_of_def Let_def split: option.splits)+

lemma sim_ok_groups:
  assumes "sim_ok E M K s"
  shows "sim_ok E M K (partition_groups xs ys s)" "sim_ok E M K (isolate_node i s)" "sim_ok E M K (reconnect_node i s)"
  unfolding partition_groups_def isolate_node_def reconnect_node_def
  by (intro sim_ok_fold assms sim_ok_links; assumption)+

lemma step_message:
  assumes "i \<in> mb_ids M" and "(i, m) \<in> cl_net c" and "checked_message E m now (cl_nodes c i) = Inr n"
  shows "live_step E M c (set_node i n c)"
proof (cases "m = MTimeout")
  case True
  then show ?thesis
    using assms by (auto simp: checked_message_def checked_election_def panic_def intro: live_step.Elect split: if_splits)
next
  case False
  then show ?thesis using live_step.Deliver [OF assms(1,2), of E now n] assms(3) by (simp add: checked_message_def)
qed

lemma step_tick:
  assumes "i \<in> mb_ids M" and "checked_tick now (cl_nodes c i) = Inr n"
  shows "live_step E M c (set_node i n c)"
proof (cases "rf_role (cl_nodes c i) \<noteq> Leader \<and> now \<ge> election_deadline (cl_nodes c i)")
  case True
  then show ?thesis
    using assms by (auto simp: checked_tick_def checked_election_def panic_def intro: live_step.Elect split: if_splits)
next
  case False
  then have "tick now (cl_nodes c i) = Inr n" using assms(2) by (auto simp: checked_tick_def)
  with False show ?thesis by (intro live_step.Tick [OF assms(1)]) auto
qed

lemma step_command:
  assumes "i \<in> mb_ids M" and "command_good E cmd" and "submit_command E cmd now (cl_nodes c i) = Inr n"
  shows "live_step E M c (set_node i n c)"
  using live_step.Client [OF assms(1), of "MClientCommand cmd" E now c n] assms(2,3) by (simp add: submit_command_def)

lemma sim_ok_election:
  assumes ok: "sim_ok E M K s" and run: "trigger_election i s = Inr s'"
  shows "sim_ok E M K s'"
proof (cases "i \<in> disabled_nodes s \<or> i \<in> paused_nodes s")
  case False
  then obtain m where m: "with_node i (checked_election (sim_clock s)) s = Inr m" "s' = flush_node_outbox i m"
    using run by (auto simp: trigger_election_def and_then_eq_Inr)
  have "sim_ok E M K m"
    by (rule sim_ok_with_node [OF ok m(1)])
      (auto simp: checked_election_def panic_def intro: live_step.Elect split: if_splits)
  then show ?thesis unfolding m(2) by (rule sim_ok_flush)
qed (use assms in \<open>auto simp: trigger_election_def\<close>)

lemma sim_ok_fault:
  assumes ok: "sim_ok E M K s" and good: "fault_good E fault" and run: "apply_fault E fault s = Inr s'"
  shows "sim_ok E M K s'"
proof (cases fault)
  case (TriggerElection i)
  with run sim_ok_election [OF ok] show ?thesis by (simp add: apply_fault_def)
next
  case (SubmitCommand i cmd)
  then obtain m where m: "with_node i (submit_command E cmd (sim_clock s)) s = Inr m" "s' = flush_node_outbox i m"
    using run by (auto simp: apply_fault_def and_then_eq_Inr)
  have "sim_ok E M K m"
    by (rule sim_ok_with_node [OF ok m(1)]) (use good SubmitCommand in \<open>auto simp: fault_good_def intro: step_command\<close>)
  then show ?thesis unfolding m(2) by (rule sim_ok_flush)
qed (use run sim_ok_disable [OF ok] sim_ok_restart [OF ok] sim_ok_resume [OF ok] sim_ok_links [OF ok] sim_ok_groups [OF ok] in
  \<open>auto simp: apply_fault_def\<close>)

lemma sim_ok_trigger:
  assumes "sim_ok E M K s" and "trigger_due_faults E s = Inr s'"
  shows "sim_ok E M K s'"
  using assms
proof (induction E s rule: trigger_due_faults.induct)
  case (1 E s)
  show ?case
  proof (cases "queue_pop fault_key (scheduled_faults s)")
    case None
    with "1.prems" show ?thesis by (simp add: trigger_due_faults.simps [of E s])
  next
    case (Some p)
    obtain f rest where p: "p = (f, rest)" by force
    note pop = Some [unfolded p]
    show ?thesis
    proof (cases "trigger_at f \<le> sim_clock s")
      case True
      with "1.prems"(2) pop obtain m where m: "apply_fault E (sf_fault f) (s\<lparr>scheduled_faults := rest\<rparr>) = Inr m"
        "trigger_due_faults E m = Inr s'"
        by (auto simp: trigger_due_faults.simps [of E s] and_then_eq_Inr)
      have sub: "f \<in> set (scheduled_faults s)" "set rest \<subseteq> set (scheduled_faults s)"
        using pop by (auto simp: queue_pop_def dest: queue_peek_least subsetD [OF set_remove1_subset] split: option.splits)
      have ok: "sim_ok E M K (s\<lparr>scheduled_faults := rest\<rparr>)"
        by (rule sim_ok_same [OF "1.prems"(1)]) (use sub in \<open>simp_all add: events_of_def\<close>)
      have "sim_ok E M K m" by (rule sim_ok_fault [OF ok _ m(1)]) (use sub "1.prems"(1) in \<open>simp add: sim_ok_def\<close>)
      from "1.IH" [OF pop refl True m(1) this m(2)] show ?thesis .
    next
      case False
      with "1.prems" pop show ?thesis by (simp add: trigger_due_faults.simps [of E s])
    qed
  qed
qed

lemma sim_ok_ticks: "sim_ok E M K s \<Longrightarrow> tick_nodes now ids s = Inr s' \<Longrightarrow> sim_ok E M K s'"
proof (induction now ids s rule: tick_nodes.induct)
  case (2 now i ids s)
  show ?case
  proof (cases "running s i")
    case True
    with "2.prems" obtain m where m: "with_node i (checked_tick now) s = Inr m" "tick_nodes now ids (flush_node_outbox i m) = Inr s'"
      by (auto simp: and_then_eq_Inr)
    have "sim_ok E M K m" by (rule sim_ok_with_node [OF "2.prems"(1) m(1)]) (auto intro: step_tick)
    with "2.IH"(2) [of m] True m sim_ok_flush show ?thesis by blast
  next
    case False
    with "2.prems" "2.IH"(1) show ?thesis by simp
  qed
qed simp

lemma sim_ok_advance:
  assumes ok: "sim_ok E M K s" and run: "advance_time E millis s = Inr s'"
  shows "sim_ok E M K s'"
proof -
  obtain m where m: "trigger_due_faults E (s\<lparr>sim_clock := sim_clock s + millis\<rparr>) = Inr m"
    "tick_nodes (sim_clock m) (node_ids m) m = Inr s'"
    using run by (auto simp: advance_time_def and_then_eq_Inr)
  have "sim_ok E M K (s\<lparr>sim_clock := sim_clock s + millis\<rparr>)" by (rule sim_ok_same [OF ok]) (simp_all add: events_of_def)
  from sim_ok_ticks [OF sim_ok_trigger [OF this m(1)] m(2)] show ?thesis .
qed

lemma sim_ok_route:
  assumes ok: "sim_ok E M K s" and sent: "(ev_to e, ev_message e) \<in> K" and run: "route_event E e s = Inr s'"
  shows "sim_ok E M K s'"
proof -
  let ?old = "case map_of (paused_events s) (ev_to e) of None \<Rightarrow> [] | Some es \<Rightarrow> es"
  have old: "set ?old \<subseteq> events_of s" 
    by (cases "map_of (paused_events s) (ev_to e)") (force simp: events_of_def dest: map_of_SomeD)+
  consider "s' = s"
    | es where "s' = s\<lparr>paused_events := AList.update (ev_to e) (es @ [e]) (paused_events s)\<rparr>" "set es \<subseteq> events_of s"
    | m where "with_node (ev_to e) (checked_message E (ev_message e) (sim_clock s)) s = Inr m" "s' = flush_node_outbox (ev_to e) m"
  proof (cases "ev_from e \<in> disabled_nodes s \<or> ev_to e \<in> disabled_nodes s \<or> (ev_from e, ev_to e) \<in> blocked_links s")
    case True
    with run that(1) show thesis by (simp add: route_event_def)
  next
    case False
    show thesis
    proof (cases "ev_to e \<in> paused_nodes s")
      case True
      with run False that(2) [OF _ old] show thesis by (simp add: route_event_def)
    next
      case unpaused: False
      with run False obtain m where "with_node (ev_to e) (checked_message E (ev_message e) (sim_clock s)) s = Inr m"
        "s' = flush_node_outbox (ev_to e) m" by (auto simp: route_event_def and_then_eq_Inr)
      with that(3) show thesis by blast
    qed
  qed
  then show ?thesis
  proof cases
    case 1
    with ok show ?thesis by simp
  next
    case (2 es)
    obtain c where c: "live_reach E M c" "represents M s c" "K \<subseteq> cl_net c" using ok by (auto simp: sim_ok_def)
    have "(ev_to x, ev_message x) \<in> cl_net c" if "x \<in> events_of s'" for x
    proof -
      have "x \<in> events_of s \<or> x = e"
        using that 2 subsetD [OF set_update_sub [of "ev_to e" "es @ [e]" "paused_events s"]] by (fastforce simp: events_of_def)
      with c(2,3) sent show ?thesis by (auto simp: represents_def)
    qed
    then have "represents M s' c" using c(2) 2(1) by (simp add: represents_def)
    with c(1,3) ok 2(1) show ?thesis by (auto intro: sim_okI simp: sim_ok_def)
  next
    case (3 m)
    have "sim_ok E M K m"
      by (rule sim_ok_with_node [OF ok 3(1)]) (use sent in \<open>blast intro: step_message\<close>)
    then show ?thesis unfolding 3(2) by (rule sim_ok_flush)
  qed
qed

lemma sim_ok_weaken: "sim_ok E M K s \<Longrightarrow> sim_ok E M {} s"
  by (auto simp: sim_ok_def)

lemma sim_ok_pop:
  assumes ok: "sim_ok E M {} s" and pop: "queue_pop event_key (sim_events s) = Some (e, rest)"
  shows "sim_ok E M {(ev_to e, ev_message e)} (s\<lparr>sim_events := rest, sim_clock := t\<rparr>)"
proof -
  obtain c where c: "live_reach E M c" "represents M s c" using ok by (auto simp: sim_ok_def)
  have e: "e \<in> set (sim_events s)" "set rest \<subseteq> set (sim_events s)"
    using pop by (auto simp: queue_pop_def dest: queue_peek_least subsetD [OF set_remove1_subset] split: option.splits)
  then have "represents M (s\<lparr>sim_events := rest, sim_clock := t\<rparr>) c" "{(ev_to e, ev_message e)} \<subseteq> cl_net c"
    using c(2) by (auto simp: represents_def events_of_def)
  from sim_okI [OF c(1) this] ok show ?thesis by (simp add: sim_ok_def)
qed

lemma sim_ok_deliver:
  assumes ok: "sim_ok E M {} s" and run: "deliver_next E s = Inr (s', go)"
  shows "sim_ok E M {} s'"
proof -
  obtain m where m: "trigger_due_faults E s = Inr m" using run by (auto simp: deliver_next_def and_then_eq_Inr)
  have ok_m: "sim_ok E M {} m" by (rule sim_ok_trigger [OF ok m])
  show ?thesis
  proof (cases "queue_pop event_key (sim_events m)")
    case None
    with run m ok_m show ?thesis
      by (auto simp: deliver_next_def and_then_eq_Inr intro: sim_ok_advance split: option.splits if_splits)
  next
    case (Some p)
    obtain e rest where p: "p = (e, rest)" by force
    note pop = Some [unfolded p]
    obtain k where k: "trigger_due_faults E (m\<lparr>sim_events := rest, sim_clock := max (sim_clock m) (deliver_at e)\<rparr>) = Inr k"
      "route_event E e k = Inr s'"
      using run m pop by (auto simp: deliver_next_def and_then_eq_Inr)
    have "sim_ok E M {(ev_to e, ev_message e)} k" by (rule sim_ok_trigger [OF sim_ok_pop [OF ok_m pop] k(1)])
    from sim_ok_route [OF this _ k(2)] sim_ok_weaken show ?thesis by blast
  qed
qed

lemma sim_ok_idle: "sim_ok E M {} s \<Longrightarrow> idle_loop E left s = Inr s' \<Longrightarrow> sim_ok E M {} s'"
proof (induction left arbitrary: s)
  case 0
  then show ?case
    by (auto simp: and_then_eq_Inr panic_def split: if_splits dest: sim_ok_deliver)
next
  case (Suc left)
  then obtain m go where m: "deliver_next E s = Inr (m, go)" by (auto simp: and_then_eq_Inr)
  with Suc.prems(2) have "if go then idle_loop E left m = Inr s' else m = s'" by (cases go) simp_all
  with Suc.IH sim_ok_deliver [OF Suc.prems(1) m] show ?case by (cases go) auto
qed

lemma sim_ok_run_until_idle: "sim_ok E M {} s \<Longrightarrow> run_until_idle E s = Inr s' \<Longrightarrow> sim_ok E M {} s'"
  unfolding run_until_idle_def using sim_ok_idle [OF sim_ok_flush_all] by blast

lemma sim_ok_steps: "sim_ok E M {} s \<Longrightarrow> step_loop E k s = Inr (s', n) \<Longrightarrow> sim_ok E M {} s'"
proof (induction k arbitrary: s n)
  case (Suc k)
  then obtain m go where m: "deliver_next E s = Inr (m, go)"
    "(if \<not> go then Inr (m, 0) else and_then (step_loop E k m) (\<lambda>(s, executed). Inr (s, executed + 1))) = Inr (s', n)"
    by (auto simp: and_then_eq_Inr)
  with Suc sim_ok_deliver [OF Suc.prems(1) m(1)] show ?case by (cases go) (auto simp: and_then_eq_Inr)
qed simp

lemma sim_ok_schedule:
  assumes "sim_ok E M K s" and "fault_good E fault"
  shows "sim_ok E M K (schedule_fault t fault s)"
  using assms by (auto simp: sim_ok_def schedule_fault_def represents_def events_of_def Let_def)

section \<open>New clusters\<close>

lemma make_nodes_ok:
  "make_nodes E started rand all ids = Inr nodes \<Longrightarrow> map fst nodes = ids \<and>
     (\<forall>(i, n) \<in> set nodes. new_in_dir E [] i (filter (\<lambda>j. j \<noteq> i) all) config_default (started i) (rand i) = Inr n)"
  by (induction ids arbitrary: nodes) (auto simp: and_then_eq_Inr)

lemma configured:
  assumes "live_reach E M c" and "set xs \<subseteq> mb_ids M" and "distinct xs"
  shows "\<exists>c'. live_reach E M c' \<and> cl_net c' = cl_net c \<and>
    cl_nodes c' = (\<lambda>i. if i \<in> set xs then set_election_timeout (t i) now (cl_nodes c i) else cl_nodes c i)"
  using assms
proof (induction xs arbitrary: c)
  case Nil
  then show ?case by auto
next
  case (Cons x xs)
  have "live_reach E M (set_node x (set_election_timeout (t x) now (cl_nodes c x)) c)"
    using live_reach.Step [OF Cons.prems(1) live_step.Configure] Cons.prems(2) by simp
  from Cons.IH [OF this] Cons.prems(2,3) obtain c' where c': "live_reach E M c'"
    "cl_net c' = cl_net (set_node x (set_election_timeout (t x) now (cl_nodes c x)) c)"
    "cl_nodes c' = (\<lambda>i. if i \<in> set xs
      then set_election_timeout (t i) now (cl_nodes (set_node x (set_election_timeout (t x) now (cl_nodes c x)) c) i)
      else cl_nodes (set_node x (set_election_timeout (t x) now (cl_nodes c x)) c) i)" by auto
  have "cl_nodes c' = (\<lambda>i. if i \<in> set (x # xs) then set_election_timeout (t i) now (cl_nodes c i) else cl_nodes c i)"
    unfolding c'(3) using Cons.prems(3) by (auto simp: fun_eq_iff set_node_def)
  moreover have "cl_net c' = cl_net c" using c'(2) by (simp add: set_node_def)
  moreover note c'(1)
  ultimately show ?case by blast
qed

lemma map_of_keyed: "map_of (map (\<lambda>(k, v). (k, f k v)) al) k = map_option (f k) (map_of al k)"
  by (induction al) auto

lemma new_cluster_ok:
  assumes run: "new_cluster E started now rand ids = Inr s" and ids: "distinct ids" "0 \<notin> set ids"
  shows "sim_ok E (sim_membership ids) {} s"
proof -
  let ?M = "sim_membership ids"
  obtain nodes where nodes: "make_nodes E started rand ids (sort (remdups ids)) = Inr nodes"
    and s: "s = simulation_new now (map (\<lambda>(i, n). (i, set_election_timeout (150 + unat i * 50) now n)) nodes)"
    using run by (auto simp: new_cluster_def and_then_eq_Inr dest: set_timeouts_result)
  note made = make_nodes_ok [OF nodes]
  let ?c = "\<lparr>cl_nodes = (\<lambda>i. the (map_of nodes i)), cl_net = {}, cl_votes = {}, cl_leaders = {}\<rparr>"
  have keys: "distinct (map fst nodes)" "fst ` set nodes = set ids" using made ids(1) by (auto simp flip: set_map)
  have node: "map_of nodes i = Some (cl_nodes ?c i)" if "i \<in> set ids" for i
  proof -
    have "map_of nodes i \<noteq> None" using keys(2) that by (simp add: map_of_eq_None_iff)
    then show ?thesis by auto
  qed
  have "\<exists>now r. new_in_dir E [] i (mb_peers ?M i) (mb_config ?M) now r = Inr (cl_nodes ?c i)" if "i \<in> mb_ids ?M" for i
  proof -
    have "(i, cl_nodes ?c i) \<in> set nodes" using map_of_SomeD [OF node] that by simp
    from bspec [OF conjunct2 [OF made] this] show ?thesis
      by (intro exI [of _ "started i"] exI [of _ "rand i"]) (simp only: prod.case sim_membership_simps)
  qed
  then have "cluster_init E ?M ?c" by (simp add: cluster_init_def)
  then have "live_reach E ?M ?c" by (rule live_reach.Init)
  from configured [OF this, of ids "\<lambda>i. 150 + unat i * 50" now] ids(1) obtain c where c: "live_reach E ?M c" "cl_net c = {}"
    "cl_nodes c = (\<lambda>i. if i \<in> set ids then set_election_timeout (150 + unat i * 50) now (cl_nodes ?c i) else cl_nodes ?c i)"
    by auto
  have "map_of (sim_nodes s) i = Some (cl_nodes c i)" if "i \<in> set ids" for i
    using node [OF that] that by (auto simp: s simulation_new_def c(3) map_of_keyed)
  then have "represents ?M s c"
    using keys by (auto simp: represents_def events_of_def s simulation_new_def c(2) comp_def case_prod_unfold image_image)
  from sim_okI [OF c(1) this] show ?thesis by (simp add: s simulation_new_def)
qed

section \<open>The safety check\<close>

lemma first_some_none: "first_some f xs = None \<longleftrightarrow> (\<forall>x \<in> set xs. f x = None)"
  by (induction xs) (auto split: option.splits)

lemma pairs_members: "(x, y) \<in> set (pairs xs) \<Longrightarrow> x \<in> set xs \<and> y \<in> set xs"
  by (induction xs) auto

lemma one_element: "distinct xs \<Longrightarrow> (\<And>x y. x \<in> set xs \<Longrightarrow> y \<in> set xs \<Longrightarrow> x = y) \<Longrightarrow> length xs \<le> 1"
  by (metis One_nat_def card_le_Suc0_iff_eq distinct_card finite_set)

text \<open>No entry of a log holds a float that is not a number.\<close>

definition nan_free :: "simulation \<Rightarrow> bool" where
  "nan_free s \<longleftrightarrow> (\<forall>(i, n) \<in> set (sim_nodes s). \<forall>e \<in> set (rf_log n). payload_eq (le_payload e) (le_payload e))"

lemma payload_eq_refl:
  "payload_eq p p \<longleftrightarrow> (\<forall>r k f. p = PCommand r \<longrightarrow> lr_command r = CmdSet k (VFloat f) \<longrightarrow> \<not> f64_is_nan f)"
proof (cases p)
  case (PCommand r)
  have "command_eq c c \<longleftrightarrow> (\<forall>k f. c = CmdSet k (VFloat f) \<longrightarrow> \<not> f64_is_nan f)" for c
  proof (cases c)
    case (CmdSet k v)
    then show ?thesis by (cases v) (simp_all add: f64_eq_def)
  qed simp
  with PCommand show ?thesis by (simp add: record_eq_def)
qed simp_all

lemma sim_ok_invariants:
  assumes ok: "sim_ok E M K s" and M: "membership_ok M" and dummy: "entry_good E (dummy_entry E)" and nan: "nan_free s"
  shows "check_invariants debug s = Inr ()"
proof (cases "mb_ids M = {}")
  case True
  then have "sim_nodes s = []" using ok by (auto simp: sim_ok_def represents_def)
  then show ?thesis by (simp add: check_invariants_def check_election_def)
next
  case False
  obtain c where c: "live_reach E M c" "represents M s c" using ok by (auto simp: sim_ok_def)
  obtain d p where inv: "proto_inv (mb_ids M) (dummy_entry E) (entry_apply E) d p"
    and core: "\<forall>i \<in> mb_ids M. p_core p i = core_of (cl_nodes c i)"
    by (rule live_reach_cores [OF c(1) M dummy False])
  have keys: "distinct (node_ids s)" using c(2) by (simp add: represents_def)
  have node: "i \<in> mb_ids M \<and> p_core p i = core_of n" if "(i, n) \<in> set (sim_nodes s)" for i n
    using represents_lookup [OF c(2) map_of_is_SomeI [OF keys that]] core by simp
  have lead: "p_lead p (current_term n) = Some (i, rf_log n)" if "(i, n) \<in> set (sim_nodes s)" "rf_role n = Leader" for i n
    using inv_leadD(7) [OF proto_invD(4) [OF inv], of i] node [OF that(1)] that(2) by (simp add: core_of_def)
  have "length (leaders_in s t) \<le> 1" for t
  proof (rule one_element)
    show "distinct (leaders_in s t)" unfolding leaders_in_def using keys by (rule distinct_map_filter)
  qed (auto simp: leaders_in_def dest!: lead)
  then have election: "check_election s = None" by (auto simp: check_election_def first_some_none simp flip: not_le)
  have match: "le_term (rf_log n ! k) = le_term (rf_log m ! k)"
    if "(i, n) \<in> set (sim_nodes s)" "(j, m) \<in> set (sim_nodes s)" "x < length (rf_log n)" "x < length (rf_log m)"
      "le_term (rf_log n ! x) = le_term (rf_log m ! x)" "k \<le> x" for i n j m x k
    using arg_cong [OF log_matching [OF inv, of i j x], of "\<lambda>l. l ! k"] node [OF that(1)] node [OF that(2)] that(3-6)
    by (simp add: core_of_def)
  have logs: "first_some check_logs (pairs (sim_nodes s)) = None"
    unfolding first_some_none
  proof clarify
    fix i n j m assume "((i, n), (j, m)) \<in> set (pairs (sim_nodes s))"
    from match [OF conjunct1 [OF pairs_members [OF this]] conjunct2 [OF pairs_members [OF this]]]
    show "check_logs ((i, n), (j, m)) = None" by (auto simp: check_logs_def first_some_none)
  qed
  have agree: "rf_log n ! k = rf_log m ! k"
    if "(i, n) \<in> set (sim_nodes s)" "(j, m) \<in> set (sim_nodes s)" "k \<le> commit_index n" "k \<le> commit_index m" for i n j m k
    using committed_agree [OF inv, of i j k] node [OF that(1)] node [OF that(2)] that(3,4) by (simp add: core_of_def)
  have commits: "first_some (check_commits debug) (pairs (sim_nodes s)) = None"
    unfolding first_some_none
  proof clarify
    fix i n j m assume "((i, n), (j, m)) \<in> set (pairs (sim_nodes s))"
    note members = conjunct1 [OF pairs_members [OF this]] conjunct2 [OF pairs_members [OF this]]
    have "payload_eq (le_payload (rf_log m ! k)) (le_payload (rf_log m ! k))" if "k < length (rf_log m)" for k
      using nan members(2) nth_mem [OF that] by (auto simp: nan_free_def)
    with agree [OF members] show "check_commits debug ((i, n), (j, m)) = None"
      by (auto simp: check_commits_def first_some_none Let_def not_le)
  qed
  show ?thesis by (simp add: check_invariants_def election logs commits)
qed

section \<open>Chaos\<close>

lemma fault_good_other: "(\<And>i c. f \<noteq> SubmitCommand i c) \<Longrightarrow> fault_good E f"
  by (simp add: fault_good_def)

lemma try_stages_good:
  assumes "\<forall>(prob, stage) \<in> set stages. \<forall>rng f rng'. stage rng = Inr (Some f, rng') \<longrightarrow> fault_good E f"
    and "try_stages roll acc stages rng = Inr (Some f, rng')"
  shows "fault_good E f"
  using assms
proof (induction stages arbitrary: acc rng)
  case (Cons x stages)
  obtain prob stage where x: "x = (prob, stage)" by force
  let ?acc = "f64_round (acc + prob)"
  show ?case
  proof (cases "roll < ?acc")
    case True
    with Cons.prems(2) x obtain g rng1 where "stage rng = Inr (g, rng1)"
      and "(case g of Some f \<Rightarrow> Inr (Some f, rng1) | None \<Rightarrow> try_stages roll ?acc stages rng1) = Inr (Some f, rng')"
      by (auto simp: and_then_eq_Inr Let_def)
    moreover have "fault_good E h" if "stage rng = Inr (Some h, r)" for h r using Cons.prems(1) x that by auto
    moreover note Cons.IH [of ?acc rng1] Cons.prems(1)
    ultimately show ?thesis by (cases g) auto
  next
    case False
    with Cons x show ?thesis by (auto simp: Let_def)
  qed
qed simp

lemma random_fault_good: "random_fault cfg s rng = Inr (Some f, rng') \<Longrightarrow> fault_good E f"
proof -
  assume run: "random_fault cfg s rng = Inr (Some f, rng')"
  obtain roll rng1 where "next_f64 rng = (roll, rng1)" by force
  with run have "try_stages roll 0
      [(crash_prob cfg, crash_stage s), (restart_prob cfg, restart_stage s), (partition_prob cfg, partition_stage s),
       (heal_prob cfg, heal_stage s), (packet_drop_prob cfg, drop_stage s), (packet_delay_prob cfg, delay_stage cfg s)] rng1 =
      Inr (Some f, rng')" by (simp add: random_fault_def split: if_splits)
  then show ?thesis
    by (rule try_stages_good [rotated])
      (auto simp: crash_stage_def restart_stage_def partition_stage_def heal_stage_def drop_stage_def delay_stage_def
        and_then_eq_Inr Let_def intro!: fault_good_other split: if_splits prod.splits option.splits)
qed

lemma sim_ok_inject:
  assumes ok: "sim_ok E M K s" and run: "inject_random_fault E cfg rng s = Inr (s', rng', f)"
  shows "sim_ok E M K s'"
proof -
  obtain g rng1 where g: "random_fault cfg s rng = Inr (g, rng1)" using run by (auto simp: inject_random_fault_def and_then_eq_Inr)
  show ?thesis
  proof (cases g)
    case None
    with run g ok show ?thesis by (simp add: inject_random_fault_def)
  next
    case (Some fault)
    with run g have "apply_fault E fault s = Inr s'" by (auto simp: inject_random_fault_def and_then_eq_Inr)
    from sim_ok_fault [OF ok random_fault_good this] g Some show ?thesis by simp
  qed
qed

lemma sim_ok_chaos_write:
  assumes ok: "sim_ok E M K s" and run: "chaos_write E ids rng ops s = Inr (s', rng', ops')"
    and good: "command_good E (chaos_command ops)"
  shows "sim_ok E M K s'" and "ops' \<le> ops + 1"
proof -
  obtain target rng1 where t: "(case get_leader s of Some i \<Rightarrow> (Some i, rng) | None \<Rightarrow> rng_choose ids rng) = (Some target, rng1)"
    using run by (auto simp: chaos_write_def panic_def split: prod.splits option.splits)
  have "(s' = s \<or> apply_fault E (SubmitCommand target (chaos_command ops)) s = Inr s') \<and> ops' \<le> ops + 1"
    using run unfolding chaos_write_def t by (auto simp: and_then_eq_Inr split: if_splits)
  with ok sim_ok_fault [OF ok, of "SubmitCommand target (chaos_command ops)"] good
  show "sim_ok E M K s'" and "ops' \<le> ops + 1" by (auto simp: fault_good_def)
qed

lemma sim_ok_chaos_move:
  assumes "sim_ok E M {} s" and "chaos_move E rng s = Inr (s', rng')"
  shows "sim_ok E M {} s'"
  using assms by (auto simp: chaos_move_def and_then_eq_Inr split: prod.splits if_splits intro: sim_ok_advance sim_ok_deliver)

lemma sim_ok_chaos_loop:
  assumes "sim_ok E M {} s" and "membership_ok M" and "entry_good E (dummy_entry E)"
    and "chaos_loop E debug cfg ids left step rng ops s = Inr (s', r)"
    and "\<forall>k < ops + left. command_good E (chaos_command k)"
  shows "sim_ok E M {} s' \<and> (nan_free s' \<longrightarrow> (\<exists>k. r = Inr k))"
  using assms
proof (induction left arbitrary: step rng ops s)
  case (Suc left)
  from Suc.prems(4) obtain s1 rng1 ops1 s2 rng2 f s3 rng3 where
    w: "(if step mod 8 = 0 then chaos_write E ids rng ops s else Inr (s, rng, ops)) = Inr (s1, rng1, ops1)"
    and i: "inject_random_fault E cfg rng1 s1 = Inr (s2, rng2, f)" and m: "chaos_move E rng2 s2 = Inr (s3, rng3)"
    and rest: "(case check_invariants debug s3 of Inl v \<Rightarrow> Inr (s3, Inl v)
      | Inr _ \<Rightarrow> chaos_loop E debug cfg ids left (step + 1) rng3 ops1 s3) = Inr (s', r)"
    by (auto simp: and_then_eq_Inr)
  have "sim_ok E M {} s1 \<and> ops1 \<le> ops + 1"
    using w sim_ok_chaos_write [OF Suc.prems(1)] Suc.prems(1,5) by (auto split: if_splits)
  then have ok: "sim_ok E M {} s3" and le: "ops1 \<le> ops + 1" using sim_ok_chaos_move [OF sim_ok_inject [OF _ i] m] by auto
  show ?case
  proof (cases "check_invariants debug s3")
    case (Inl v)
    with rest ok sim_ok_invariants [OF ok Suc.prems(2,3)] show ?thesis by auto
  next
    case (Inr u)
    with Suc.IH [OF ok Suc.prems(2,3)] rest le Suc.prems(5) show ?thesis by simp
  qed
qed auto

lemma sim_ok_converge: "sim_ok E M K s \<Longrightarrow> sim_ok E M K (converge_node i s)"
  by (simp add: converge_node_def Let_def sim_ok_restart sim_ok_resume)

lemma sim_ok_chaos_test:
  assumes ok: "sim_ok E M {} s" and M: "membership_ok M" and dummy: "entry_good E (dummy_entry E)"
    and run: "run_chaos_test E debug seed steps cfg s = Inr (s', r)"
    and good: "\<forall>k < steps. command_good E (chaos_command k)"
  shows "sim_ok E M {} s' \<and> (nan_free s' \<longrightarrow> (\<exists>k. r = Inr k))"
proof -
  obtain s1 r1 where loop: "chaos_loop E debug cfg (node_ids s) steps 0 (rng_new seed) 0 s = Inr (s1, r1)"
    using run by (auto simp: run_chaos_test_def and_then_eq_Inr Let_def)
  from sim_ok_chaos_loop [OF ok M dummy this] good
  have ok1: "sim_ok E M {} s1" and r1: "nan_free s1 \<longrightarrow> (\<exists>k. r1 = Inr k)" by auto
  show ?thesis
  proof (cases r1)
    case (Inl v)
    with run loop have "s' = s1" "r = Inl v" by (auto simp: run_chaos_test_def)
    with ok1 r1 Inl show ?thesis by auto
  next
    case (Inr k)
    let ?t = "fold converge_node (node_ids s) (heal_all_partitions s1)"
    have t: "sim_ok E M {} ?t" by (rule sim_ok_fold) (auto intro: sim_ok_links(3) ok1 sim_ok_converge)
    obtain s2 where s2: "run_until_idle E ?t = Inr s2" using run loop Inr by (auto simp: run_chaos_test_def and_then_eq_Inr)
    with run loop Inr have "s' = s2" "r = (case check_invariants debug s2 of Inl v \<Rightarrow> Inl v | Inr _ \<Rightarrow> Inr k)"
      by (auto simp: run_chaos_test_def split: sum.splits)
    with sim_ok_run_until_idle [OF t s2] sim_ok_invariants [OF sim_ok_run_until_idle [OF t s2] M dummy, of debug]
    show ?thesis by auto
  qed
qed

section \<open>What a test may do with a cluster\<close>

text \<open>
  The public operations of the simulator that change a cluster, in any order: faults at once or later, messages
  one by one or until nothing is left, time, random faults and whole chaos tests.
\<close>

inductive sim_reach :: "'x raft_ext_scheme \<Rightarrow> node_id list \<Rightarrow> simulation \<Rightarrow> bool"
  for E :: "'x raft_ext_scheme" and ids :: "node_id list" where
  New: "new_cluster E started now rand ids = Inr s \<Longrightarrow> sim_reach E ids s"
| Fault: "sim_reach E ids s \<Longrightarrow> fault_good E fault \<Longrightarrow> apply_fault E fault s = Inr s' \<Longrightarrow> sim_reach E ids s'"
| Schedule: "sim_reach E ids s \<Longrightarrow> fault_good E fault \<Longrightarrow> sim_reach E ids (schedule_fault t fault s)"
| Flush: "sim_reach E ids s \<Longrightarrow> sim_reach E ids (flush_node_outbox i s)"
| Enable: "sim_reach E ids s \<Longrightarrow> sim_reach E ids (enable_node i s)"
| Advance: "sim_reach E ids s \<Longrightarrow> advance_time E millis s = Inr s' \<Longrightarrow> sim_reach E ids s'"
| Deliver: "sim_reach E ids s \<Longrightarrow> deliver_next E s = Inr (s', go) \<Longrightarrow> sim_reach E ids s'"
| Idle: "sim_reach E ids s \<Longrightarrow> run_until_idle E s = Inr s' \<Longrightarrow> sim_reach E ids s'"
| Run: "sim_reach E ids s \<Longrightarrow> run_steps E k s = Inr (s', n) \<Longrightarrow> sim_reach E ids s'"
| Inject: "sim_reach E ids s \<Longrightarrow> inject_random_fault E cfg rng s = Inr (s', rng', f) \<Longrightarrow> sim_reach E ids s'"
| Chaos: "sim_reach E ids s \<Longrightarrow> run_chaos_test E debug seed steps cfg s = Inr (s', r) \<Longrightarrow>
    \<forall>k < steps. command_good E (chaos_command k) \<Longrightarrow> sim_reach E ids s'"

lemma sim_reach_ok:
  assumes "sim_reach E ids s" and "distinct ids" and "0 \<notin> set ids" and "entry_good E (dummy_entry E)"
  shows "sim_ok E (sim_membership ids) {} s"
  using assms
proof (induction rule: sim_reach.induct)
  case (Run s k s' n)
  then show ?case using sim_ok_steps [OF sim_ok_flush_all] by (auto simp: run_steps_def)
next
  case (Chaos s debug seed steps cfg s' r)
  then show ?case using sim_ok_chaos_test [OF _ sim_membership_ok] by blast
qed (auto intro: new_cluster_ok sim_ok_fault sim_ok_schedule sim_ok_flush sim_ok_links(9) sim_ok_advance sim_ok_deliver
  sim_ok_run_until_idle sim_ok_inject)

section \<open>Properties\<close>

text \<open>
  C11. The simulator finds no violation: whatever faults, commands, messages and chaos tests are applied to a
  new simulated cluster in whatever order, the check of the invariants of Raft (one leader in a term, matching
  logs, the same committed entries) succeeds, as long as the ids of the nodes are distinct and not zero and the logs hold no
  float that is not a number.
\<close>

theorem simulation_keeps_invariants:
  assumes "sim_reach E ids s" and "distinct ids" and "0 \<notin> set ids" and "entry_good E (dummy_entry E)" and "nan_free s"
  shows "check_invariants debug s = Inr ()"
  using sim_ok_invariants [OF sim_reach_ok [OF assms(1-4)] sim_membership_ok] assms by blast

text \<open>
  The check is too strict for floats that are not numbers: two nodes that have both committed the same
  entry, a write of such a float, are reported.
\<close>

theorem nan_commit_reported:
  assumes nodes: "sim_nodes s = [(a, n), (b, m)]" and same: "rf_log n = [d, e]" "rf_log m = [d, e]" "le_term d = 0" "rf_role n = Follower" "rf_role m = Follower"
    and e: "le_payload e = PCommand r" "lr_command r = CmdSet k (VFloat f)" "f64_is_nan f"
    and commit: "commit_index n = 1" "commit_index m = 1"
  shows "check_invariants debug s = Inl (StateSafetyViolation 1 a b (debug (le_payload e)) (debug (le_payload e)))"
proof -
  have "\<not> payload_eq (le_payload e) (le_payload e)" using e by (auto simp: payload_eq_refl)
  then show ?thesis
    using nodes same commit by (simp add: check_invariants_def check_election_def check_logs_def check_commits_def upt_rec Let_def)
qed

subsection \<open>Witnesses\<close>

text \<open>A cluster of three in which node 1 asks for votes.\<close>

lemma sample_simulation:
  obtains db where "new_cluster sample_raft_ext (\<lambda>_. 0) 0 (\<lambda>_ _. 0) [1, 2, 3] =
    Inr (simulation_new 0 [(1, set_election_timeout 200 0 (fresh_node db 1 [2, 3])),
      (2, set_election_timeout 250 0 (fresh_node db 2 [1, 3])), (3, set_election_timeout 300 0 (fresh_node db 3 [1, 2]))])"
proof -
  obtain db where "\<forall>i peers. new_in_dir sample_raft_ext [] i peers config_default 0 (\<lambda>_. 0) = Inr (fresh_node db i peers)"
    using fresh_node_new by blast
  then have "new_cluster sample_raft_ext (\<lambda>_. 0) 0 (\<lambda>_ _. 0) [1, 2, 3] =
    Inr (simulation_new 0 [(1, set_election_timeout 200 0 (fresh_node db 1 [2, 3])),
      (2, set_election_timeout 250 0 (fresh_node db 2 [1, 3])), (3, set_election_timeout 300 0 (fresh_node db 3 [1, 2]))])"
    by (simp add: new_cluster_def cluster_timeout_def)
  then show thesis by (rule that)
qed

theorem simulation_keeps_invariants_witness:
  "\<exists>s. sim_reach sample_raft_ext [1, 2, 3] s \<and> map ev_to (sim_events s) = [3, 2] \<and> check_invariants (\<lambda>_. []) s = Inr ()"
proof (rule sample_simulation)
  fix db
  let ?s = "simulation_new 0 [(1, set_election_timeout 200 0 (fresh_node db 1 [2, 3])),
      (2, set_election_timeout 250 0 (fresh_node db 2 [1, 3])), (3, set_election_timeout 300 0 (fresh_node db 3 [1, 2]))]"
  assume new: "new_cluster sample_raft_ext (\<lambda>_. 0) 0 (\<lambda>_ _. 0) [1, 2, 3] = Inr ?s"
  obtain s where s: "apply_fault sample_raft_ext (TriggerElection 1) ?s = Inr s" "map ev_to (sim_events s) = [3, 2]" "nan_free s"
    by (simp add: nan_free_def record_eq_def log_record_new_def apply_fault_def trigger_election_def simulation_new_def with_node_def checked_election_def
        election_run set_election_timeout_def flush_node_outbox_def send_message_def push_event_def)
  have "sim_reach sample_raft_ext [1, 2, 3] s"
    by (rule sim_reach.Fault [OF sim_reach.New [OF new] _ s(1)]) (simp add: fault_good_def)
  with simulation_keeps_invariants [OF this _ _ sample_dummy s(3), of "\<lambda>_. []"] s(2) show ?thesis by auto
qed

end
