(* ===== verification/Raft_Liveness.thy ===== *)
theory Raft_Liveness
  imports Raft_Recovery
begin

text \<open>
  No state of a cluster is a dead end for elections: from every state some node can be elected in a term that is
  newer than all terms of the state. The node with the most up-to-date log starts elections until its term is the
  newest, every peer grants it its vote, and the votes are delivered.
\<close>

section \<open>Up-to-date logs\<close>

definition better :: "raft_node \<Rightarrow> raft_node \<Rightarrow> bool" where
  "better n m \<longleftrightarrow>
     le_term (last (rf_log n)) > le_term (last (rf_log m)) \<or>
     le_term (last (rf_log n)) = le_term (last (rf_log m)) \<and> length (rf_log n) \<ge> length (rf_log m)"

lemma better_refl: "better n n"
  by (simp add: better_def)

lemma lexicographic_trans:
  fixes a b c :: "'a :: linorder" and x y z :: nat
  shows "a > b \<or> a = b \<and> x \<ge> y \<Longrightarrow> b > c \<or> b = c \<and> y \<ge> z \<Longrightarrow> a > c \<or> a = c \<and> x \<ge> z"
  by auto

lemma better_trans: "better a b \<Longrightarrow> better b c \<Longrightarrow> better a c"
  unfolding better_def by (rule lexicographic_trans)

lemma better_total: "better a b \<or> better b a"
  unfolding better_def by (metis linorder_neqE nat_le_linear)

lemma best_node:
  assumes "finite S" and "S \<noteq> {}"
  shows "\<exists>i \<in> S. \<forall>j \<in> S. better (f i) (f j)"
  using assms
proof (induction rule: finite_ne_induct)
  case (singleton x)
  then show ?case by (simp add: better_refl)
next
  case (insert x S)
  then obtain i where i: "i \<in> S" "\<forall>j \<in> S. better (f i) (f j)" by blast
  show ?case
  proof (cases "better (f i) (f x)")
    case True
    with i show ?thesis by blast
  next
    case False
    then have "better (f x) (f i)" using better_total by blast
    with i better_trans better_refl show ?thesis by blast
  qed
qed

section \<open>A candidate\<close>

lemma init_peers_fields:
  "init_peers ps n = Inr n' \<Longrightarrow>
     rf_role n' = rf_role n \<and> current_term n' = current_term n \<and> rf_log n' = rf_log n \<and> rf_id n' = rf_id n \<and> rf_peers n' = rf_peers n"
  by (induction ps arbitrary: n) (fastforce simp: and_then_eq_Inr send_append_entries_def push_outbox_def)+

lemma become_leader_fields:
  "become_leader now n = Inr n' \<Longrightarrow> rf_role n' = Leader \<and> current_term n' = current_term n \<and> rf_log n' = rf_log n \<and> rf_id n' = rf_id n \<and>
     rf_peers n' = rf_peers n"
  by (auto simp: become_leader_def and_then_eq_Inr dest!: init_peers_fields)

definition vote_request :: "raft_node \<Rightarrow> request_vote" where
  "vote_request n = \<lparr>rv_term = current_term n, rv_candidate_id = rf_id n, rv_last_log_index = length (rf_log n) - 1,
     rv_last_log_term = le_term (last (rf_log n))\<rparr>"

text \<open>A node that wants votes, with those it has and the requests it wants to send.\<close>

definition campaigns :: "node_id list \<Rightarrow> raft_node \<Rightarrow> bool" where
  "campaigns vs n \<longleftrightarrow> rf_role n = Candidate \<and> votes_received n = vs \<and> length vs < majority n"

lemma push_all_outbox:
  "rf_outbox (fold (\<lambda>p. push_outbox p m) ps n) = rf_outbox n @ map (\<lambda>p. (p, m)) ps \<and>
   (fold (\<lambda>p. push_outbox p m) ps n)\<lparr>rf_outbox := []\<rparr> = n\<lparr>rf_outbox := []\<rparr>"
  by (induction ps arbitrary: n) (simp_all add: push_outbox_def)

lemma same_but_outbox:
  assumes "n'\<lparr>rf_outbox := []\<rparr> = n\<lparr>rf_outbox := []\<rparr>"
  shows "rf_role n' = rf_role n \<and> current_term n' = current_term n \<and> rf_log n' = rf_log n \<and> rf_id n' = rf_id n \<and> rf_peers n' = rf_peers n \<and>
    votes_received n' = votes_received n"
proof -
  have "n' = n\<lparr>rf_outbox := rf_outbox n'\<rparr>" using assms by (cases n; cases n') simp
  then show ?thesis by (metis raft_node.select_convs raft_node.surjective raft_node.update_convs)
qed

lemma reset_votes [simp]: "votes_received (reset_election_timeout now n) = votes_received n"
  by (simp add: reset_election_timeout_def split: option.splits)

lemma election_starts:
  assumes "rf_log n \<noteq> []"
  shows "\<exists>n'. start_election now n = Inr n' \<and> current_term n' = current_term n + 1 \<and> rf_log n' = rf_log n \<and> rf_id n' = rf_id n \<and>
    rf_peers n' = rf_peers n \<and>
    (rf_role n' = Leader \<or> campaigns [rf_id n] n' \<and> (\<forall>p \<in> set (rf_peers n). (p, MRequestVote (vote_request n')) \<in> set (rf_outbox n')))"
proof -
  let ?n = "persist_meta (n\<lparr>rf_role := Candidate, leader_id := None, current_term := current_term n + 1, voted_for := Some (rf_id n)\<rparr>)
      \<lparr>votes_received := [rf_id n]\<rparr>"
  have fields: "rf_id ?n = rf_id n" "rf_log ?n = rf_log n" "rf_peers ?n = rf_peers n" "current_term ?n = current_term n + 1" "majority ?n = majority n"
    "rf_role ?n = Candidate" by (simp_all add: persist_meta_def majority_def)
  show ?thesis
  proof (cases "1 \<ge> majority n")
    case True
    then have "start_election now n = become_leader now ?n" by (simp add: start_election_def Let_def persist_meta_def majority_def)
    moreover obtain n' where n': "become_leader now ?n = Inr n'" using become_leader_returns [of ?n now] assms fields(2) by auto
    ultimately have "start_election now n = Inr n'" by simp
    with become_leader_fields [OF n', unfolded fields] show ?thesis by blast
  next
    case False
    let ?m = "reset_election_timeout now ?n"
    have m: "rf_id ?m = rf_id n" "rf_log ?m = rf_log n" "rf_peers ?m = rf_peers n" "current_term ?m = current_term n + 1" "majority ?m = majority n"
      "rf_role ?m = Candidate" "votes_received ?m = [rf_id n]"
      by (simp_all add: persist_meta_def majority_def)
    let ?n' = "fold (\<lambda>p. push_outbox p (MRequestVote (vote_request ?m))) (rf_peers n) ?m"
    have run: "start_election now n = Inr ?n'"
      using False assms by (simp add: start_election_def Let_def last_log_def vote_request_def persist_meta_def majority_def)
    note out = push_all_outbox [of "MRequestVote (vote_request ?m)" "rf_peers n" ?m]
    note same = same_but_outbox [OF conjunct2 [OF out]]
    have "vote_request ?n' = vote_request ?m" using same by (simp add: vote_request_def)
    moreover have "campaigns [rf_id n] ?n'" using same m False by (simp add: campaigns_def majority_def)
    ultimately show ?thesis using run same m out by (intro exI [of _ ?n']) auto
  qed
qed

section \<open>Steps of an election\<close>

abbreviation leads_to :: "'x raft_ext_scheme \<Rightarrow> membership \<Rightarrow> cluster \<Rightarrow> cluster \<Rightarrow> bool" where
  "leads_to E M \<equiv> (live_step E M)\<^sup>*\<^sup>*"

text \<open>The candidate as the others see it.\<close>

definition same_log :: "raft_node \<Rightarrow> raft_node \<Rightarrow> bool" where
  "same_log n n' \<longleftrightarrow> rf_log n' = rf_log n \<and> rf_id n' = rf_id n \<and> rf_peers n' = rf_peers n"

lemma same_log_trans: "same_log a b \<Longrightarrow> same_log b c \<Longrightarrow> same_log a c"
  by (simp add: same_log_def)

text \<open>A node can raise its term as far as the counter goes.\<close>

lemma raise_term:
  assumes "i \<in> mb_ids M" and "rf_log (cl_nodes c i) \<noteq> []" and "unat (current_term (cl_nodes c i)) < T" and "T < 2 ^ 64"
  shows "\<exists>c' n. leads_to E M c c' \<and> cl_nodes c' = (cl_nodes c)(i := n) \<and> unat (current_term n) = T \<and> same_log (cl_nodes c i) n \<and>
    (rf_role n = Leader \<or> campaigns [rf_id n] n \<and> (\<forall>p \<in> set (rf_peers n). (p, MRequestVote (vote_request n)) \<in> set (rf_outbox n)))"
  using assms
proof (induction "T - unat (current_term (cl_nodes c i))" arbitrary: c)
  case (Suc k)
  let ?n = "cl_nodes c i"
  obtain n where n: "start_election 0 ?n = Inr n" "current_term n = current_term ?n + 1" "rf_log n = rf_log ?n" "rf_id n = rf_id ?n" "rf_peers n = rf_peers ?n"
    and role: "rf_role n = Leader \<or> campaigns [rf_id ?n] n \<and> (\<forall>p \<in> set (rf_peers ?n). (p, MRequestVote (vote_request n)) \<in> set (rf_outbox n))"
    using election_starts [OF Suc.prems(2), of 0] by blast
  have lt: "unat (current_term ?n) + unat (1 :: u64) < 2 ^ 64" using Suc.prems(3,4) by simp
  have t: "unat (current_term n) = unat (current_term ?n) + 1" using unat_add_u64 [OF lt] n(2) by simp
  have "current_term ?n \<noteq> - 1"
  proof
    assume "current_term ?n = - 1"
    then have "current_term n = 0" using n(2) by simp
    with t show False by simp
  qed
  then have step: "live_step E M c (set_node i n c)" by (rule live_step.Elect [OF Suc.prems(1) _ n(1)])
  have same: "same_log ?n n" using n by (simp add: same_log_def)
  show ?case
  proof (cases "unat (current_term n) = T")
    case True
    with step same role n show ?thesis by (intro exI [of _ "set_node i n c"] exI [of _ n]) (simp add: r_into_rtranclp)
  next
    case False
    have "k = T - unat (current_term (cl_nodes (set_node i n c) i))" using Suc.hyps(2) t by simp
    moreover have "rf_log (cl_nodes (set_node i n c) i) \<noteq> []" "unat (current_term (cl_nodes (set_node i n c) i)) < T"
      using Suc.prems(2,3) n(3) t False by simp_all
    ultimately obtain c' m where "leads_to E M (set_node i n c) c'" "cl_nodes c' = (cl_nodes (set_node i n c))(i := m)"
      "unat (current_term m) = T" "same_log n m"
      "rf_role m = Leader \<or> campaigns [rf_id m] m \<and> (\<forall>p \<in> set (rf_peers m). (p, MRequestVote (vote_request m)) \<in> set (rf_outbox m))"
      using Suc.hyps(1) [of "set_node i n c"] Suc.prems(1,4) by auto
    with step same same_log_trans show ?thesis
      by (intro exI [of _ c'] exI [of _ m]) (auto intro: converse_rtranclp_into_rtranclp)
  qed
qed simp

text \<open>A peer with an older term grants its vote to a candidate with a better log.\<close>

lemma vote_granted:
  assumes "rf_log m \<noteq> []" and "rf_log n \<noteq> []" and "current_term m < current_term n" and "better n m"
  shows "\<exists>m'. handle_message E (MRequestVote (vote_request n)) now m = Inr m' \<and> current_term m' = current_term n \<and>
    (rf_id n, MRequestVoteResponse \<lparr>vr_term = current_term n, vr_voter_id = rf_id m, vr_vote_granted = True\<rparr>) \<in> set (rf_outbox m')"
proof -
  let ?q = "vote_request n" and ?m = "step_down (current_term n) now m"
  have m: "rf_log ?m = rf_log m" "rf_id ?m = rf_id m" by (simp_all add: step_down_fields step_down_id)
  have f: "current_term ?m = current_term n" "voted_for ?m = None"
    using step_down_core(1) [of "current_term n" now m] by (simp_all add: core_of_def)
  have "log_is_up_to_date ?q (length (rf_log m) - 1) (le_term (last (rf_log m)))"
    using assms(4) by (auto simp: log_is_up_to_date_def vote_request_def better_def)
  then have "\<exists>m'. handle_request_vote ?q now m = Inr (m', \<lparr>vr_term = current_term n, vr_voter_id = rf_id m, vr_vote_granted = True\<rparr>) \<and>
      current_term m' = current_term n"
    using assms(1,3) m f by (simp add: handle_request_vote_def vote_request_def last_log_def vote_reply_def persist_meta_def Let_def)
  then show ?thesis by (auto simp: handle_message_def vote_request_def push_outbox_def)
qed

text \<open>A candidate that gets a vote becomes leader or has one vote more.\<close>

lemma vote_counted:
  assumes "campaigns vs n" and "rf_log n \<noteq> []"
  shows "\<exists>n'. handle_message E (MRequestVoteResponse \<lparr>vr_term = current_term n, vr_voter_id = j, vr_vote_granted = True\<rparr>) now n = Inr n' \<and>
    current_term n' = current_term n \<and> same_log n n' \<and> (rf_role n' = Leader \<or> campaigns (List.insert j vs) n')"
proof -
  let ?n = "n\<lparr>votes_received := List.insert j vs\<rparr>"
  have run: "handle_vote_response \<lparr>vr_term = current_term n, vr_voter_id = j, vr_vote_granted = True\<rparr> now n =
      (if length (List.insert j vs) \<ge> majority n then become_leader now ?n else Inr ?n)"
    using assms(1) by (simp add: handle_vote_response_def campaigns_def Let_def majority_def)
  show ?thesis
  proof (cases "length (List.insert j vs) \<ge> majority n")
    case True
    obtain n' where n': "become_leader now ?n = Inr n'" using become_leader_returns [of ?n now] assms(2) by auto
    with become_leader_fields [OF n'] run True show ?thesis
      by (intro exI [of _ n']) (simp add: handle_message_def same_log_def)
  next
    case False
    with run assms(1) show ?thesis
      by (intro exI [of _ ?n]) (simp add: handle_message_def same_log_def campaigns_def majority_def)
  qed
qed

lemma collect_vote:
  assumes i: "i \<in> mb_ids M" and j: "j \<in> mb_ids M" "j \<noteq> i"
    and cand: "campaigns vs (cl_nodes c i)" "rf_id (cl_nodes c i) = i" "rf_log (cl_nodes c i) \<noteq> []"
    and peer: "rf_id (cl_nodes c j) = j" "rf_log (cl_nodes c j) \<noteq> []" "current_term (cl_nodes c j) < current_term (cl_nodes c i)"
      "better (cl_nodes c i) (cl_nodes c j)"
    and asked: "(j, MRequestVote (vote_request (cl_nodes c i))) \<in> cl_net c"
  shows "\<exists>c' n. leads_to E M c c' \<and> cl_nodes c' i = n \<and> (\<forall>k. k \<noteq> i \<longrightarrow> k \<noteq> j \<longrightarrow> cl_nodes c' k = cl_nodes c k) \<and> cl_net c \<subseteq> cl_net c' \<and>
    current_term n = current_term (cl_nodes c i) \<and> current_term (cl_nodes c' j) = current_term (cl_nodes c i) \<and>
    same_log (cl_nodes c i) n \<and> (rf_role n = Leader \<or> campaigns (List.insert j vs) n)"
proof -
  let ?r = "\<lparr>vr_term = current_term (cl_nodes c i), vr_voter_id = j, vr_vote_granted = True\<rparr>"
  obtain m where m: "handle_message E (MRequestVote (vote_request (cl_nodes c i))) 0 (cl_nodes c j) = Inr m"
    "(i, MRequestVoteResponse ?r) \<in> set (rf_outbox m)" "current_term m = current_term (cl_nodes c i)"
    using vote_granted [OF peer(2) cand(3) peer(3,4), of E 0] cand(2) peer(1) by auto
  let ?c1 = "set_node j m c"
  let ?c2 = "set_node j (cl_nodes ?c1 j\<lparr>rf_outbox := []\<rparr>) ?c1\<lparr>cl_net := cl_net ?c1 \<union> set (rf_outbox m)\<rparr>"
  have s1: "live_step E M c ?c1" by (rule live_step.Deliver [OF j(1) asked _ m(1)]) simp
  have s2: "live_step E M ?c1 ?c2" by (rule live_step.Send [OF j(1)]) simp
  obtain n where n: "handle_message E (MRequestVoteResponse ?r) 0 (cl_nodes c i) = Inr n"
    "current_term n = current_term (cl_nodes c i)" "same_log (cl_nodes c i) n" "rf_role n = Leader \<or> campaigns (List.insert j vs) n"
    using vote_counted [OF cand(1,3), of E j 0] by blast
  have s3: "live_step E M ?c2 (set_node i n ?c2)"
    by (rule live_step.Deliver [OF i, of "MRequestVoteResponse ?r"]) (use m(2) n(1) j(2) in simp_all)
  have "leads_to E M c (set_node i n ?c2)" using s1 s2 s3 by (meson converse_rtranclp_into_rtranclp rtranclp.rtrancl_refl)
  with n m(3) show ?thesis using j(2) by (intro exI [of _ "set_node i n ?c2"] exI [of _ n]) auto
qed

definition can_vote_for :: "raft_node \<Rightarrow> cluster \<Rightarrow> node_id \<Rightarrow> bool" where
  "can_vote_for n c j \<longleftrightarrow>
     rf_id (cl_nodes c j) = j \<and> rf_log (cl_nodes c j) \<noteq> [] \<and> current_term (cl_nodes c j) < current_term n \<and> better n (cl_nodes c j) \<and>
     (j, MRequestVote (vote_request n)) \<in> cl_net c"

definition terms_to :: "node_id set \<Rightarrow> u64 \<Rightarrow> cluster \<Rightarrow> bool" where
  "terms_to ids t c \<longleftrightarrow> (\<forall>j \<in> ids. current_term (cl_nodes c j) \<le> t)"

lemma collect_votes:
  assumes "i \<in> mb_ids M" and "campaigns vs (cl_nodes c i)" and "rf_id (cl_nodes c i) = i" and "rf_log (cl_nodes c i) \<noteq> []"
    and "distinct ps" and "set ps \<subseteq> mb_ids M - {i}" and "set vs \<inter> set ps = {}" and "\<forall>j \<in> set ps. can_vote_for (cl_nodes c i) c j"
    and "terms_to (mb_ids M) (current_term (cl_nodes c i)) c"
  shows "\<exists>c' vs'. leads_to E M c c' \<and> current_term (cl_nodes c' i) = current_term (cl_nodes c i) \<and>
    terms_to (mb_ids M) (current_term (cl_nodes c i)) c' \<and> same_log (cl_nodes c i) (cl_nodes c' i) \<and>
    (rf_role (cl_nodes c' i) = Leader \<or> campaigns vs' (cl_nodes c' i) \<and> length vs' = length vs + length ps)"
  using assms
proof (induction ps arbitrary: c vs)
  case Nil
  then show ?case by (intro exI [of _ c] exI [of _ vs]) (simp add: same_log_def)
next
  case (Cons j ps)
  let ?n = "cl_nodes c i"
  have j: "j \<in> mb_ids M" "j \<noteq> i" "can_vote_for ?n c j" using Cons.prems(6,8) by auto
  from collect_vote [OF Cons.prems(1) j(1,2) Cons.prems(2-4)] j(3)
  obtain c1 where c1: "leads_to E M c c1" "\<forall>k. k \<noteq> i \<longrightarrow> k \<noteq> j \<longrightarrow> cl_nodes c1 k = cl_nodes c k" "cl_net c \<subseteq> cl_net c1"
    "current_term (cl_nodes c1 i) = current_term ?n" "same_log ?n (cl_nodes c1 i)" "current_term (cl_nodes c1 j) = current_term ?n"
    "rf_role (cl_nodes c1 i) = Leader \<or> campaigns (List.insert j vs) (cl_nodes c1 i)"
    unfolding can_vote_for_def by blast
  have terms: "terms_to (mb_ids M) (current_term ?n) c1"
    unfolding terms_to_def
  proof
    fix k assume "k \<in> mb_ids M"
    then show "current_term (cl_nodes c1 k) \<le> current_term ?n"
      using Cons.prems(9) c1(2,4,6) by (cases "k = i \<or> k = j") (auto simp: terms_to_def)
  qed
  show ?case
  proof (cases "rf_role (cl_nodes c1 i) = Leader")
    case True
    with c1(1,4,5) terms show ?thesis by blast
  next
    case False
    have vs: "List.insert j vs = j # vs" using Cons.prems(7) by auto
    have n1: "rf_id (cl_nodes c1 i) = i" "rf_log (cl_nodes c1 i) \<noteq> []" using c1(5) Cons.prems(3,4) by (simp_all add: same_log_def)
    have "vote_request (cl_nodes c1 i) = vote_request ?n" "\<And>m. better (cl_nodes c1 i) m \<longleftrightarrow> better ?n m"
      using c1(4,5) by (simp_all add: vote_request_def same_log_def better_def)
    then have others: "\<forall>k \<in> set ps. can_vote_for (cl_nodes c1 i) c1 k"
      using Cons.prems(5,6,8) c1(2-4) by (auto simp: can_vote_for_def)
    from False c1(7) vs have "campaigns (j # vs) (cl_nodes c1 i)" by simp
    from Cons.IH [OF Cons.prems(1) this n1 _ _ _ others] Cons.prems(5-7) terms c1(4)
    obtain c' vs' where "leads_to E M c1 c'" "current_term (cl_nodes c' i) = current_term (cl_nodes c1 i)"
      "terms_to (mb_ids M) (current_term ?n) c'"
      "same_log (cl_nodes c1 i) (cl_nodes c' i)"
      "rf_role (cl_nodes c' i) = Leader \<or> campaigns vs' (cl_nodes c' i) \<and> length vs' = length (j # vs) + length ps" by auto
    with c1(1,4,5) same_log_trans show ?thesis by (intro exI [of _ c'] exI [of _ vs']) (auto intro: rtranclp_trans)
  qed
qed

text \<open>A node with the best log and the newest term wins its election.\<close>

lemma campaign_wins:
  assumes i: "i \<in> mb_ids M" and cand: "campaigns [i] (cl_nodes c i)" "rf_id (cl_nodes c i) = i" "rf_log (cl_nodes c i) \<noteq> []"
    and peers: "distinct (rf_peers (cl_nodes c i))" "set (rf_peers (cl_nodes c i)) = mb_ids M - {i}"
    and requests: "\<forall>p \<in> set (rf_peers (cl_nodes c i)). (p, MRequestVote (vote_request (cl_nodes c i))) \<in> set (rf_outbox (cl_nodes c i))"
    and others: "\<forall>j \<in> mb_ids M - {i}. rf_id (cl_nodes c j) = j \<and> rf_log (cl_nodes c j) \<noteq> [] \<and>
      current_term (cl_nodes c j) < current_term (cl_nodes c i) \<and> better (cl_nodes c i) (cl_nodes c j)"
  shows "\<exists>c'. leads_to E M c c' \<and> rf_role (cl_nodes c' i) = Leader \<and> current_term (cl_nodes c' i) = current_term (cl_nodes c i) \<and>
    rf_log (cl_nodes c' i) = rf_log (cl_nodes c i) \<and> terms_to (mb_ids M) (current_term (cl_nodes c i)) c'"
proof -
  let ?n = "cl_nodes c i"
  let ?c1 = "set_node i (?n\<lparr>rf_outbox := []\<rparr>) c\<lparr>cl_net := cl_net c \<union> set (rf_outbox ?n)\<rparr>"
  have s1: "live_step E M c ?c1" by (rule live_step.Send [OF i]) simp
  have n1: "cl_nodes ?c1 i = ?n\<lparr>rf_outbox := []\<rparr>" by simp
  have ok: "\<forall>j \<in> set (rf_peers ?n). can_vote_for (cl_nodes ?c1 i) ?c1 j"
    using others requests peers(2) by (auto simp: can_vote_for_def vote_request_def better_def)
  have "campaigns [i] (cl_nodes ?c1 i)" using cand(1) by (simp add: campaigns_def majority_def)
  moreover have "rf_id (cl_nodes ?c1 i) = i" "rf_log (cl_nodes ?c1 i) \<noteq> []" using cand(2,3) by simp_all
  moreover have "set [i] \<inter> set (rf_peers ?n) = {}" "set (rf_peers ?n) \<subseteq> mb_ids M - {i}" using peers(2) by auto
  moreover have "terms_to (mb_ids M) (current_term (cl_nodes ?c1 i)) ?c1"
    using others unfolding terms_to_def by (auto intro: less_imp_le)
  ultimately obtain c' vs' where c': "leads_to E M ?c1 c'" "current_term (cl_nodes c' i) = current_term ?n" "same_log ?n (cl_nodes c' i)"
    "terms_to (mb_ids M) (current_term ?n) c'"
    "rf_role (cl_nodes c' i) = Leader \<or> campaigns vs' (cl_nodes c' i) \<and> length vs' = 1 + length (rf_peers ?n)"
    using collect_votes [OF i, of "[i]" ?c1 "rf_peers ?n" E] peers(1) ok by (auto simp: same_log_def)
  have "\<not> (campaigns vs' (cl_nodes c' i) \<and> length vs' = 1 + length (rf_peers ?n))"
    using c'(3) by (auto simp: campaigns_def majority_def same_log_def)
  with c' s1 show ?thesis unfolding same_log_def by (blast intro: converse_rtranclp_into_rtranclp)
qed

lemma election_possible:
  assumes reach: "live_reach E M c" and M: "membership_ok M" and dummy: "entry_good E (dummy_entry E)" and ids: "mb_ids M \<noteq> {}"
    and terms: "\<forall>j \<in> mb_ids M. current_term (cl_nodes c j) \<noteq> - 1"
  shows "\<exists>c' i. leads_to E M c c' \<and> i \<in> mb_ids M \<and> rf_role (cl_nodes c' i) = Leader \<and>
    (\<forall>j \<in> mb_ids M. current_term (cl_nodes c j) < current_term (cl_nodes c' i)) \<and>
    rf_log (cl_nodes c' i) = rf_log (cl_nodes c i) \<and> terms_to (mb_ids M) (current_term (cl_nodes c' i)) c'"
proof -
  have fin: "finite (mb_ids M)" using M by (simp add: membership_ok_def)
  obtain i where i: "i \<in> mb_ids M" and best: "\<forall>j \<in> mb_ids M. better (cl_nodes c i) (cl_nodes c j)"
    using best_node [OF fin ids, of "cl_nodes c"] by blast
  define T where "T = Suc (Max ((\<lambda>j. unat (current_term (cl_nodes c j))) ` mb_ids M))"
  have below: "unat (current_term (cl_nodes c j)) < T" if "j \<in> mb_ids M" for j
    using fin that by (auto simp: T_def less_Suc_eq_le)
  have "T < 2 ^ 64"
  proof -
    have "unat (current_term (cl_nodes c j)) < 2 ^ 64 - 1" if "j \<in> mb_ids M" for j
    proof -
      have "current_term (cl_nodes c j) \<noteq> - 1" using terms that by blast
      then have "unat (current_term (cl_nodes c j)) \<noteq> unat (- 1 :: u64)" by (simp only: word_unat_eq_iff not_False_eq_True)
      moreover have "unat (- 1 :: u64) = 2 ^ 64 - 1" by (simp add: unsigned_minus_1_eq_mask mask_eq_exp_minus_1)
      moreover have "unat (current_term (cl_nodes c j)) < 2 ^ LENGTH(64)" by (rule unsigned_less)
      ultimately show ?thesis by simp
    qed
    then have "Max ((\<lambda>j. unat (current_term (cl_nodes c j))) ` mb_ids M) < 2 ^ 64 - 1" using fin ids by simp
    then show ?thesis by (simp add: T_def)
  qed
  note ready = live_reach_steady [OF reach M dummy]
  have logs: "rf_log (cl_nodes c j) \<noteq> []" if "j \<in> mb_ids M" for j using ready(1) [OF that] by (auto simp: steady_def)
  obtain c1 n where c1: "leads_to E M c c1" "cl_nodes c1 = (cl_nodes c)(i := n)" "unat (current_term n) = T" "same_log (cl_nodes c i) n"
    and n: "rf_role n = Leader \<or> campaigns [rf_id n] n \<and> (\<forall>p \<in> set (rf_peers n). (p, MRequestVote (vote_request n)) \<in> set (rf_outbox n))"
    using raise_term [OF i logs [OF i] below [OF i] \<open>T < 2 ^ 64\<close>, of E] by blast
  have newer: "current_term (cl_nodes c j) < current_term n" if "j \<in> mb_ids M" for j
    using below [OF that] c1(3) by (simp add: word_less_nat_alt)
  show ?thesis
  proof (cases "rf_role n = Leader")
    case True
    with c1(1,2,4) i newer show ?thesis
      by (intro exI [of _ c1] exI [of _ i]) (auto simp: terms_to_def same_log_def intro: less_imp_le)
  next
    case False
    have inv: "cluster_inv E M c" by (rule cluster_reach_inv [OF live_reach_cluster [OF reach] M dummy])
    have "rf_peers (cl_nodes c i) = mb_peers M i" using inv i by (auto simp: cluster_inv_def nodes_valid_def)
    then have peers: "distinct (rf_peers n)" "set (rf_peers n) = mb_ids M - {i}"
      using c1(4) M i by (auto simp: same_log_def membership_ok_def)
    have id: "rf_id n = i" "rf_log n \<noteq> []" using c1(4) ready(3) [OF i] logs [OF i] by (simp_all add: same_log_def)
    have b: "better n m \<longleftrightarrow> better (cl_nodes c i) m" for m using c1(4) by (simp add: better_def same_log_def)
    have "\<exists>c'. leads_to E M c1 c' \<and> rf_role (cl_nodes c' i) = Leader \<and> current_term (cl_nodes c' i) = current_term (cl_nodes c1 i) \<and>
        rf_log (cl_nodes c' i) = rf_log (cl_nodes c1 i) \<and> terms_to (mb_ids M) (current_term (cl_nodes c1 i)) c'"
      by (rule campaign_wins [OF i]) (use False n id peers logs ready(3) newer best b in \<open>simp_all add: c1(2)\<close>)
    then obtain c' where "leads_to E M c1 c'" "rf_role (cl_nodes c' i) = Leader" "current_term (cl_nodes c' i) = current_term n"
      "rf_log (cl_nodes c' i) = rf_log n" "terms_to (mb_ids M) (current_term n) c'"
      by (auto simp: c1(2))
    with c1(1,4) i newer show ?thesis by (intro exI [of _ c'] exI [of _ i]) (simp add: rtranclp_trans same_log_def)
  qed
qed

section \<open>Property\<close>

text \<open>
  C18. A leader can always be elected: from every state that a cluster reaches without losing the memory of a node, and in
  which no term is the greatest one, steps of the cluster lead to a state in which some node is leader in a term newer than
  all terms before.
\<close>

theorem leader_can_be_elected:
  assumes reach: "live_reach E M c" and M: "membership_ok M" and dummy: "entry_good E (dummy_entry E)" and ids: "mb_ids M \<noteq> {}"
    and terms: "\<forall>j \<in> mb_ids M. current_term (cl_nodes c j) \<noteq> - 1"
  shows "\<exists>c' i. (live_step E M)\<^sup>*\<^sup>* c c' \<and> i \<in> mb_ids M \<and> rf_role (cl_nodes c' i) = Leader \<and>
    (\<forall>j \<in> mb_ids M. current_term (cl_nodes c j) < current_term (cl_nodes c' i))"
  using election_possible [OF assms] by blast

text \<open>A new cluster of three nodes.\<close>

theorem leader_can_be_elected_witness:
  "\<exists>c c' i. live_reach sample_raft_ext sample_membership c \<and> rf_role (cl_nodes c i) = Follower \<and> current_term (cl_nodes c 1) = 0 \<and>
     (live_step sample_raft_ext sample_membership)\<^sup>*\<^sup>* c c' \<and> rf_role (cl_nodes c' i) = Leader \<and> 0 < current_term (cl_nodes c' i)"
proof -
  obtain db where db: "\<And>i peers. new_in_dir sample_raft_ext [] i peers config_default 0 (\<lambda>_. 0) = Inr (fresh_node db i peers)"
    using fresh_node_new by blast
  let ?c = "\<lparr>cl_nodes = (\<lambda>i. fresh_node db i (mb_peers sample_membership i)), cl_net = {}, cl_votes = {}, cl_leaders = {}\<rparr>"
  have reach: "live_reach sample_raft_ext sample_membership ?c"
    by (rule live_reach.Init) (use db in \<open>auto simp: cluster_init_def sample_membership_def\<close>)
  have fresh: "current_term (cl_nodes ?c j) = 0" "rf_role (cl_nodes ?c j) = Follower" for j by (simp_all add: fresh_node_def)
  then have "\<forall>j \<in> mb_ids sample_membership. current_term (cl_nodes ?c j) \<noteq> - 1" by simp
  from leader_can_be_elected [OF reach sample_membership_ok sample_dummy sample_ids(3) this]
  obtain c' i where "(live_step sample_raft_ext sample_membership)\<^sup>*\<^sup>* ?c c'" "rf_role (cl_nodes c' i) = Leader"
    "current_term (cl_nodes ?c 1) < current_term (cl_nodes c' i)" using sample_ids(1) by blast
  with reach fresh show ?thesis by (intro exI [of _ ?c] exI [of _ c'] exI [of _ i]) simp
qed

end
