(* ===== verification/Raft_Writes.thy ===== *)
theory Raft_Writes
  imports Raft_Liveness Raft_Acks
begin

text \<open>
  No state of a cluster is a dead end for writes: from every state a command of a client can be replicated to all
  nodes, committed and applied. The leader sends entries to a peer until the peer has its log, going back one index
  for every refusal; when the last peer has answered, the command is committed.
\<close>

section \<open>A leader sends\<close>

lemma send_all_posts:
  "send_all ps n = Inr n' \<Longrightarrow>
     n'\<lparr>rf_outbox := []\<rparr> = n\<lparr>rf_outbox := []\<rparr> \<and> set (rf_outbox n) \<subseteq> set (rf_outbox n') \<and>
     (\<forall>p \<in> set ps. \<exists>a. make_append_entries p n = Inr a \<and> (p, MAppendEntries a) \<in> set (rf_outbox n'))"
proof (induction ps arbitrary: n)
  case (Cons p ps)
  then obtain a where a: "make_append_entries p n = Inr a" "send_all ps (push_outbox p (MAppendEntries a) n) = Inr n'"
    by (auto simp: and_then_eq_Inr send_append_entries_def)
  have "make_append_entries q (push_outbox p (MAppendEntries a) n) = make_append_entries q n" for q
    by (simp add: make_append_entries_def push_outbox_def split: option.split)
  with Cons.IH [OF a(2)] a(1) show ?case by (auto simp: push_outbox_def)
qed simp

text \<open>What stays of a leader when it sends or applies.\<close>

definition leads_with :: "u64 \<Rightarrow> log_entry list \<Rightarrow> raft_node \<Rightarrow> bool" where
  "leads_with t log n \<longleftrightarrow> rf_role n = Leader \<and> current_term n = t \<and> rf_log n = log"

definition same_indexes :: "raft_node \<Rightarrow> raft_node \<Rightarrow> bool" where
  "same_indexes n n' \<longleftrightarrow> match_index n' = match_index n \<and> next_index n' = next_index n \<and> rf_peers n' = rf_peers n"

lemma same_but_posts:
  assumes "n'\<lparr>rf_outbox := []\<rparr> = n\<lparr>rf_outbox := []\<rparr>"
  shows "same_indexes n n'" and "leads_with t log n' = leads_with t log n"
proof -
  have "n' = n\<lparr>rf_outbox := rf_outbox n'\<rparr>" using assms by (cases n; cases n') simp
  then obtain out where "n' = n\<lparr>rf_outbox := out\<rparr>" by blast
  then show "same_indexes n n'" and "leads_with t log n' = leads_with t log n"
    by (simp_all add: same_indexes_def leads_with_def)
qed

section \<open>Commit\<close>

text \<open>Only membership changes, of which there are none here, touch what a leader knows of its peers.\<close>

definition commands_only :: "log_entry list \<Rightarrow> bool" where
  "commands_only log \<longleftrightarrow> (\<forall>e \<in> set log. \<exists>r. le_payload e = PCommand r)"

lemma log_good_commands: "log_good E n \<Longrightarrow> commands_only (rf_log n)"
  by (auto simp: log_good_def commands_only_def list_all_iff entry_good_def)

lemma apply_entry_keeps:
  assumes "apply_entry_at E i n = Inr n'" and "commands_only (rf_log n)"
  shows "same_indexes n n'"
proof -
  have i: "i < length (rf_log n)" using apply_entry_at_simps(12) [OF assms(1)] .
  then obtain r where "le_payload (rf_log n ! i) = PCommand r" using assms(2) nth_mem unfolding commands_only_def by blast
  with assms(1) i show ?thesis
    by (auto simp: apply_entry_at_def apply_payload_def same_indexes_def Let_def split: prod.splits)
qed

lemma apply_keeps_indexes:
  "apply_committed_entries E n = Inr n' \<Longrightarrow> commands_only (rf_log n) \<Longrightarrow> same_indexes n n'"
proof (induction E n rule: apply_committed_entries.induct)
  case (1 E n)
  show ?case
  proof (cases "last_applied n < commit_index n")
    case True
    with "1.prems" obtain m where m: "apply_entry_at E (last_applied n + 1) n = Inr m" "apply_committed_entries E m = Inr n'"
      by (auto simp: apply_committed_entries.simps [of E n] and_then_eq_Inr)
    have "commands_only (rf_log m)" using apply_entry_at_simps(4) [OF m(1)] "1.prems"(2) by simp
    from "1.IH" [OF True m this] apply_entry_keeps [OF m(1) "1.prems"(2)] show ?thesis by (simp add: same_indexes_def)
  next
    case False
    with "1.prems" show ?thesis by (simp add: apply_committed_entries.simps [of E n] same_indexes_def)
  qed
qed

lemma apply_silent:
  "apply_committed_entries E n = Inr n' \<Longrightarrow> pending_requests n = [] \<Longrightarrow> pending_requests n' = [] \<and> rf_outbox n' = rf_outbox n"
proof (induction E n rule: apply_committed_entries.induct)
  case (1 E n)
  show ?case
  proof (cases "last_applied n < commit_index n")
    case True
    with "1.prems" obtain m where m: "apply_entry_at E (last_applied n + 1) n = Inr m" "apply_committed_entries E m = Inr n'"
      by (auto simp: apply_committed_entries.simps [of E n] and_then_eq_Inr)
    obtain k c r where k: "apply_payload E (le_payload (rf_log n ! (last_applied n + 1))) n = (k, c, r)" by (metis prod_cases3)
    have "pending_requests m = [] \<and> rf_outbox m = rf_outbox n"
      using m(1) "1.prems"(2) k apply_payload_simps(10,13) [OF k]
      by (auto simp: apply_entry_at_def answer_pending_def panic_def Let_def split: if_splits option.splits)
    with "1.IH" [OF True m] show ?thesis by simp
  next
    case False
    with "1.prems" show ?thesis by (simp add: apply_committed_entries.simps [of E n])
  qed
qed

lemma commit_fold_indexes: "\<exists>k. fold commit_at ks n = n\<lparr>commit_index := k\<rparr>"
proof (induction ks arbitrary: n)
  case Nil
  show ?case by (rule exI [of _ "commit_index n"]) simp
next
  case (Cons k ks)
  show ?case using commit_at_fields [of k n] Cons [of n] Cons [of "n\<lparr>commit_index := k\<rparr>"] by auto
qed

text \<open>All peers have the whole log, whose last entry is of the leader's term.\<close>

definition replicated :: "log_entry list \<Rightarrow> raft_node \<Rightarrow> bool" where
  "replicated log n \<longleftrightarrow> (\<forall>p \<in> set (rf_peers n). map_of (match_index n) p = Some (length log - 1))"

definition settled :: "log_entry list \<Rightarrow> raft_node \<Rightarrow> bool" where
  "settled log n \<longleftrightarrow> (replicated log n \<longrightarrow> commit_index n = length log - 1 \<and> length log - 1 \<le> last_applied n)"

lemma replicated_count:
  assumes "replicated (rf_log n) n" and "distinct (rf_peers n)"
  shows "majority n \<le> length (filter (\<lambda>(_, m). m \<ge> length (rf_log n) - 1) (match_index n)) + 1"
proof -
  let ?f = "filter (\<lambda>(_, m). m \<ge> length (rf_log n) - 1) (match_index n)"
  have "(p, length (rf_log n) - 1) \<in> set ?f" if "p \<in> set (rf_peers n)" for p
    using map_of_SomeD [of "match_index n" p "length (rf_log n) - 1"] assms(1) that by (simp add: replicated_def)
  then have "set (rf_peers n) \<subseteq> fst ` set ?f" by force
  then have "card (set (rf_peers n)) \<le> card (fst ` set ?f)" by (intro card_mono) simp_all
  also have "\<dots> \<le> length ?f" using card_image_le [of "set ?f" fst] card_length [of ?f] by simp
  finally show ?thesis using distinct_card [OF assms(2)] by (simp add: majority_def)
qed

lemma replicated_commits:
  assumes run: "update_commit_index E n = Inr n'" and good: "commands_only (rf_log n)" and commit: "commit_index n < length (rf_log n)"
    and leads: "leads_with t log n" and last: "le_term (last log) = t \<or> commit_index n = length log - 1" and peers: "distinct (rf_peers n)"
  shows "leads_with t log n' \<and> same_indexes n n' \<and> settled log n' \<and>
    commit_index n' < length log \<and> (commit_index n = length log - 1 \<longrightarrow> commit_index n' = length log - 1) \<and>
    rf_id n' = rf_id n \<and> (pending_requests n = [] \<longrightarrow> pending_requests n' = [] \<and> rf_outbox n' = rf_outbox n)"
proof -
  let ?ks = "[commit_index n + 1..<length (rf_log n)]"
  obtain k where k: "fold commit_at ?ks n = n\<lparr>commit_index := k\<rparr>" using commit_fold_indexes by blast
  let ?m = "persist_meta (n\<lparr>commit_index := k\<rparr>)"
  have applied: "apply_committed_entries E ?m = Inr n'" using run by (simp only: update_commit_index_def Let_def k)
  have "commands_only (rf_log ?m)" using good by (simp add: persist_meta_def)
  from apply_keeps_indexes [OF applied this] have same: "same_indexes n n'" by (simp add: same_indexes_def persist_meta_def)
  note f = apply_committed_fields [OF applied]
  have l: "leads_with t log n'"
    using f apply_committed_term [OF applied] leads by (simp add: leads_with_def persist_meta_def)
  have same_commit: "k = length log - 1" if "commit_index n = length log - 1"
  proof -
    have ks: "?ks = []" using that leads commit by (simp add: leads_with_def)
    have "n = n\<lparr>commit_index := k\<rparr>" using k unfolding ks by simp
    from arg_cong [OF this, of commit_index] that show ?thesis by simp
  qed
  have "k = length log - 1" if rep: "replicated log n'"
  proof (cases "commit_index n = length log - 1")
    case False
    then have "commit_index n + 1 \<le> length log - 1" "rf_log n = log" "Suc (length log - 1) = length log"
      using leads commit by (auto simp: leads_with_def)
    then have ks: "?ks = [commit_index n + 1..<length log - 1] @ [length log - 1]"
      using upt_Suc_append [of "commit_index n + 1" "length log - 1"] by metis
    obtain j where j: "fold commit_at [commit_index n + 1..<length log - 1] n = n\<lparr>commit_index := j\<rparr>"
      using commit_fold_indexes by blast
    have "replicated log (n\<lparr>commit_index := j\<rparr>)" using rep same by (simp add: replicated_def same_indexes_def)
    from replicated_count [of "n\<lparr>commit_index := j\<rparr>"] this leads peers
    have "majority (n\<lparr>commit_index := j\<rparr>) \<le> length (filter (\<lambda>(_, m). m \<ge> length log - 1) (match_index n)) + 1"
      by (simp add: leads_with_def)
    moreover have "log \<noteq> []" using commit leads by (auto simp: leads_with_def)
    with last False have "le_term (log ! (length log - 1)) = t" by (simp add: last_conv_nth)
    ultimately have "commit_at (length log - 1) (n\<lparr>commit_index := j\<rparr>) = n\<lparr>commit_index := length log - 1\<rparr>"
      using leads by (simp add: commit_at_def Let_def leads_with_def)
    with k j ks have "n\<lparr>commit_index := k\<rparr> = n\<lparr>commit_index := length log - 1\<rparr>" by simp
    from arg_cong [OF this, of commit_index] show ?thesis by simp
  qed (rule same_commit)
  moreover have "k < length log"
    using commit_fold_same(5) [of ?ks n] commit leads k by (auto simp: leads_with_def)
  moreover have "pending_requests n = [] \<longrightarrow> pending_requests n' = [] \<and> rf_outbox n' = rf_outbox n"
    using apply_silent [OF applied] by (simp add: persist_meta_def)
  ultimately show ?thesis using f l same same_commit by (auto simp: settled_def persist_meta_def)
qed

section \<open>An exchange with a peer\<close>

text \<open>A follower that is not ahead answers in the term of the leader, and accepts when it has the entry before.\<close>

lemma length_append_loop:
  "k \<le> length (rf_log n) \<Longrightarrow> k + length es \<le> length (rf_log (append_loop E k es n))"
proof (induction es arbitrary: k n)
  case (Cons e es)
  let ?m = "if k < length (rf_log n) then
      if le_term (rf_log n ! k) \<noteq> le_term e then push_log_entry E e (truncate_log k n) else n
    else push_log_entry E e n"
  have "Suc k \<le> length (rf_log ?m)" using Cons.prems by (simp add: push_log_entry_def truncate_log_def)
  from Cons.IH [OF this] show ?case by simp
qed simp

text \<open>A node that has committed and applied a log of some length.\<close>

definition caught_up :: "nat \<Rightarrow> raft_node \<Rightarrow> bool" where
  "caught_up k n \<longleftrightarrow> commit_index n = k \<and> k \<le> last_applied n"

lemma follower_answers:
  assumes run: "handle_append_entries E a now m = Inr (m', r)" and terms: "current_term m \<le> ae_term a"
  shows "current_term m' = ae_term a \<and> ar_term r = ae_term a \<and>
    (ar_success r \<longrightarrow> ar_match_index r = ae_prev_log_index a + length (ae_entries a) \<and>
      (ae_leader_commit a \<le> ar_match_index r \<longrightarrow> caught_up (ae_leader_commit a) m')) \<and>
    (ae_prev_log_index a < length (rf_log m) \<and> le_term (rf_log m ! ae_prev_log_index a) = ae_prev_log_term a \<longrightarrow> ar_success r)"
proof -
  define N where "N = (if ae_term a > current_term m then step_down (ae_term a) now m else m)"
  define F where "F = reset_election_timeout now (N\<lparr>rf_role := Follower, leader_id := Some (ae_leader_id a)\<rparr>)"
  define L where "L = append_loop E (Suc (ae_prev_log_index a)) (ae_entries a) F"
  have t: "current_term F = ae_term a"
    using terms step_down_core(1) [of "ae_term a" now m] by (auto simp: F_def N_def core_of_def)
  have log: "rf_log F = rf_log m" by (simp add: F_def N_def step_down_fields)
  have tL: "current_term L = current_term F"
    using arg_cong [OF append_loop_core(1), of c_term E "Suc (ae_prev_log_index a)" "ae_entries a" F] by (simp add: L_def core_of_def)
  have later: "\<not> ae_term a < current_term m" using terms by simp
  show ?thesis
  proof (cases "ae_prev_log_index a < length (rf_log F) \<and> le_term (rf_log F ! ae_prev_log_index a) = ae_prev_log_term a")
    case True
    let ?k = "persist_meta (L\<lparr>commit_index := min (ae_leader_commit a) (length (rf_log L) - 1)\<rparr>)"
    have "apply_committed_entries E ?k = Inr m' \<and> r = append_reply m' True (ae_prev_log_index a + length (ae_entries a))"
      using run True later unfolding handle_append_entries_def N_def [symmetric] F_def [symmetric] Let_def Suc_eq_plus1 [symmetric] L_def [symmetric]
      by (auto simp: and_then_eq_Inr split: if_splits)
    moreover have "ae_prev_log_index a + length (ae_entries a) < length (rf_log L)"
      using length_append_loop [of "Suc (ae_prev_log_index a)" F "ae_entries a" E] True by (simp add: L_def)
    ultimately show ?thesis
      using apply_committed_term [of E ?k m'] apply_committed_fields [of E ?k m'] t tL
      by (auto simp: append_reply_def persist_meta_def caught_up_def)
  next
    case False
    then have "m' = F \<and> r = append_reply F False (last_index F)"
      using run later unfolding handle_append_entries_def N_def [symmetric] F_def [symmetric] Let_def by (auto split: if_splits)
    with False t log show ?thesis by (simp add: append_reply_def)
  qed
qed

text \<open>What the leader makes of the answer.\<close>

lemma ack_heard:
  assumes leads: "leads_with t log n" and commit: "commit_index n < length log" and good: "commands_only log" and peers: "distinct (rf_peers n)"
    and last: "le_term (last log) = t \<or> commit_index n = length log - 1"
    and r: "ar_term r = t" "ar_follower_id r = j" "ar_success r" "ar_match_index r = length log - 1"
  obtains n' where "handle_message E (MAppendEntriesResponse r) now n = Inr n'" and "leads_with t log n'" and "rf_peers n' = rf_peers n"
    and "map_of (match_index n') = (map_of (match_index n))(j \<mapsto> length log - 1)"
    and "map_of (next_index n') = (map_of (next_index n))(j \<mapsto> length log)" and "settled log n'"
    and "commit_index n' < length log" and "commit_index n = length log - 1 \<longrightarrow> commit_index n' = length log - 1" and "rf_id n' = rf_id n"
    and "pending_requests n = [] \<longrightarrow> pending_requests n' = [] \<and> rf_outbox n' = rf_outbox n"
proof -
  let ?n = "n\<lparr>match_index := AList.update j (length log - 1) (match_index n), next_index := AList.update j (length log - 1 + 1) (next_index n)\<rparr>"
  have commit': "commit_index ?n < length (rf_log ?n)" using commit leads by (simp add: leads_with_def)
  obtain n' where run: "update_commit_index E ?n = Inr n'" using update_commit_returns [OF commit'] by blast
  have len: "length log - 1 + 1 = length log" using commit by simp
  have "handle_message E (MAppendEntriesResponse r) now n = Inr n'"
    using run r leads by (simp add: handle_message_def handle_append_entries_response_def leads_with_def)
  moreover have "commands_only (rf_log ?n)" "leads_with t log ?n" "distinct (rf_peers ?n)" "le_term (last log) = t \<or> commit_index ?n = length log - 1"
    using good leads peers last by (simp_all add: leads_with_def)
  note replicated_commits [OF run this(1) commit' this(2,4,3)]
  ultimately show thesis using that [of n'] len by (simp add: same_indexes_def map_of_update)
qed

lemma leader_hears:
  assumes leads: "leads_with t log n" and steady: "steady n" and good: "commands_only log" and peers: "distinct (rf_peers n)" "j \<in> set (rf_peers n)"
    and last: "le_term (last log) = t" and ni: "map_of (next_index n) j = Some x"
    and r: "ar_term r = t" "ar_follower_id r = j" "ar_success r \<longrightarrow> ar_match_index r = length log - 1" "x = 1 \<longrightarrow> ar_success r"
  obtains n' where "handle_message E (MAppendEntriesResponse r) now n = Inr n'" and "leads_with t log n'" and "rf_peers n' = rf_peers n"
    and "map_of (match_index n') = (map_of (match_index n))(j \<mapsto> length log - 1) \<and> settled log n' \<and> ar_success r \<or>
      map_of (match_index n') = map_of (match_index n) \<and> 1 < x \<and> map_of (next_index n') j = Some (x - 1)"
    and "commit_index n = length log - 1 \<longrightarrow> commit_index n' = length log - 1"
proof (cases "ar_success r")
  case True
  have "commit_index n < length log" using steady leads by (simp add: steady_def leads_with_def)
  from ack_heard [OF leads this good peers(1) disjI1 [OF last] r(1,2) True] r(3) True that show thesis by metis
next
  case False
  then have x: "x \<noteq> 1" using r(4) by blast
  moreover have "1 \<le> x \<and> x \<le> length log" using steady leads ni peers(2) by (force simp: steady_def leads_with_def)
  ultimately have bound: "1 \<le> x - 1 \<and> x - 1 \<le> length log" "1 < x" by auto
  let ?n = "n\<lparr>next_index := AList.update j (x - 1) (next_index n)\<rparr>"
  have "map_of (next_index ?n) j = Some (x - 1)" "1 \<le> x - 1" "x - 1 \<le> length (rf_log ?n)"
    using bound leads by (simp_all add: map_of_update leads_with_def)
  from send_returns [OF this] obtain a where a: "send_append_entries j ?n = Inr (push_outbox j (MAppendEntries a) ?n)" by blast
  then have "handle_message E (MAppendEntriesResponse r) now n = Inr (push_outbox j (MAppendEntries a) ?n)"
    using False r leads ni bound(2) by (simp add: handle_message_def handle_append_entries_response_def leads_with_def)
  moreover have "leads_with t log (push_outbox j (MAppendEntries a) ?n)" using leads by (simp add: leads_with_def push_outbox_def)
  ultimately show thesis using that bound(2) by (auto simp: push_outbox_def map_of_update)
qed

lemma leads_to_reach: "leads_to E M c c' \<Longrightarrow> live_reach E M c \<Longrightarrow> live_reach E M c'"
  by (induction rule: rtranclp_induct) (auto intro: live_reach.Step)

lemma live_node:
  assumes "live_reach E M c" and "membership_ok M" and "entry_good E (dummy_entry E)" and "i \<in> mb_ids M"
  shows "log_good E (cl_nodes c i)" and "distinct (rf_peers (cl_nodes c i))" and "set (rf_peers (cl_nodes c i)) = mb_ids M - {i}"
    and "rf_log (cl_nodes c i) \<noteq> []" and "hd (rf_log (cl_nodes c i)) = dummy_entry E"
proof -
  have "cluster_inv E M c" by (rule cluster_reach_inv [OF live_reach_cluster [OF assms(1)] assms(2,3)])
  then show "log_good E (cl_nodes c i)" "distinct (rf_peers (cl_nodes c i))" "set (rf_peers (cl_nodes c i)) = mb_ids M - {i}"
    using assms(2,4) by (auto simp: cluster_inv_def nodes_valid_def node_good_def membership_ok_def)
  have "mb_ids M \<noteq> {}" using assms(4) by blast
  from live_reach_cores [OF assms(1-3) this] obtain d p where p: "proto_inv (mb_ids M) (dummy_entry E) (entry_apply E) d p"
    "p_core p i = core_of (cl_nodes c i)" using assms(4) by metis
  from node_log_ok(1) [OF proto_invD(5) [OF p(1)] assms(4)] p(2)
  show "rf_log (cl_nodes c i) \<noteq> []" "hd (rf_log (cl_nodes c i)) = dummy_entry E" by (simp_all add: log_ok_def core_of_def)
qed

text \<open>The leader's entries reach a peer, and the answer reaches the leader.\<close>

lemma leader_posts:
  assumes reach: "live_reach E M c" and M: "membership_ok M" and dummy: "entry_good E (dummy_entry E)" and i: "i \<in> mb_ids M"
    and leads: "leads_with t log (cl_nodes c i)" and j: "j \<in> mb_ids M" "j \<noteq> i"
  obtains c' a where "leads_to E M c c'" and "\<forall>k. k \<noteq> i \<longrightarrow> cl_nodes c' k = cl_nodes c k" and "same_indexes (cl_nodes c i) (cl_nodes c' i)"
    and "commit_index (cl_nodes c' i) = commit_index (cl_nodes c i)" and "leads_with t log (cl_nodes c' i)" and "make_append_entries j (cl_nodes c i) = Inr a" and "(j, MAppendEntries a) \<in> cl_net c'"
proof -
  let ?n = "cl_nodes c i" and ?now = "heartbeat_deadline (cl_nodes c i)"
  have steady: "steady ?n" by (rule live_reach_steady(1) [OF reach M dummy i])
  have role: "rf_role ?n = Leader" using leads by (simp add: leads_with_def)
  obtain m where m: "send_all (rf_peers ?n) ?n = Inr m" using send_all_returns [of "rf_peers ?n" ?n] steady role by (auto simp: steady_def)
  let ?m = "m\<lparr>heartbeat_deadline := ?now + 100\<rparr>"
  let ?c1 = "set_node i ?m c"
  let ?c2 = "set_node i (cl_nodes ?c1 i\<lparr>rf_outbox := []\<rparr>) ?c1\<lparr>cl_net := cl_net ?c1 \<union> set (rf_outbox m)\<rparr>"
  have "tick ?now ?n = Inr ?m" using m role by (simp add: tick_def send_heartbeats_def)
  from live_step.Tick [OF i _ this] have s1: "live_step E M c ?c1" using role by simp
  have s2: "live_step E M ?c1 ?c2" by (rule live_step.Send [OF i]) simp
  have posted: "m\<lparr>rf_outbox := []\<rparr> = ?n\<lparr>rf_outbox := []\<rparr>"
    "\<forall>p \<in> set (rf_peers ?n). \<exists>a. make_append_entries p ?n = Inr a \<and> (p, MAppendEntries a) \<in> set (rf_outbox m)"
    using send_all_posts [OF m] by blast+
  have "j \<in> set (rf_peers ?n)" using live_node(3) [OF reach M dummy i] j by simp
  then obtain a where a: "make_append_entries j ?n = Inr a" "(j, MAppendEntries a) \<in> cl_net ?c2" using posted(2) by auto
  have "same_indexes ?n (cl_nodes ?c2 i)" "leads_with t log (cl_nodes ?c2 i)" "commit_index (cl_nodes ?c2 i) = commit_index ?n"
    using same_but_posts [OF posted(1)] leads arg_cong [OF posted(1), of commit_index] by (simp_all add: same_indexes_def leads_with_def)
  moreover have "leads_to E M c ?c2" using s1 s2 by (meson converse_rtranclp_into_rtranclp rtranclp.rtrancl_refl)
  ultimately show thesis using a by (intro that [of ?c2 a]) simp_all
qed

lemma peer_answers:
  assumes reach: "live_reach E M c" and M: "membership_ok M" and dummy: "entry_good E (dummy_entry E)"
    and j: "j \<in> mb_ids M" and msg: "(j, MAppendEntries a) \<in> cl_net c" and terms: "current_term (cl_nodes c j) \<le> ae_term a"
  obtains c' r where "leads_to E M c c'" and "\<forall>k. k \<noteq> j \<longrightarrow> cl_nodes c' k = cl_nodes c k" and "current_term (cl_nodes c' j) = ae_term a"
    and "(ae_leader_id a, MAppendEntriesResponse r) \<in> cl_net c'" and "ar_term r = ae_term a" and "ar_follower_id r = j"
    and "ar_success r \<longrightarrow> ar_match_index r = ae_prev_log_index a + length (ae_entries a) \<and>
      (ae_leader_commit a \<le> ar_match_index r \<longrightarrow> caught_up (ae_leader_commit a) (cl_nodes c' j))"
    and "ae_prev_log_index a < length (rf_log (cl_nodes c j)) \<and> le_term (rf_log (cl_nodes c j) ! ae_prev_log_index a) = ae_prev_log_term a \<longrightarrow> ar_success r"
proof -
  let ?n = "cl_nodes c j"
  obtain m r where m: "handle_append_entries E a 0 ?n = Inr (m, r)"
    using append_entries_returns [OF live_node(4) [OF reach M dummy j]] by blast
  let ?m = "push_outbox (ae_leader_id a) (MAppendEntriesResponse r) m"
  let ?c1 = "set_node j ?m c"
  let ?c2 = "set_node j (cl_nodes ?c1 j\<lparr>rf_outbox := []\<rparr>) ?c1\<lparr>cl_net := cl_net ?c1 \<union> set (rf_outbox ?m)\<rparr>"
  have "live_step E M c ?c1" by (rule live_step.Deliver [OF j msg, of E 0]) (use m in \<open>simp_all add: handle_message_def\<close>)
  moreover have "live_step E M ?c1 ?c2" by (rule live_step.Send [OF j]) simp
  ultimately have "leads_to E M c ?c2" by (meson converse_rtranclp_into_rtranclp rtranclp.rtrancl_refl)
  moreover have "ar_follower_id r = j" using append_entries_follower [OF m] live_reach_steady(3) [OF reach M dummy j] by simp
  moreover have "caught_up k (cl_nodes ?c2 j) = caught_up k m" for k by (simp add: caught_up_def push_outbox_def)
  moreover have "current_term (cl_nodes ?c2 j) = current_term m" "(ae_leader_id a, MAppendEntriesResponse r) \<in> cl_net ?c2"
    by (simp_all add: push_outbox_def)
  ultimately show thesis using follower_answers [OF m terms] by (intro that [of ?c2 r]) simp_all
qed

definition leads_all :: "membership \<Rightarrow> node_id \<Rightarrow> u64 \<Rightarrow> log_entry list \<Rightarrow> cluster \<Rightarrow> bool" where
  "leads_all M i t log c \<longleftrightarrow> leads_with t log (cl_nodes c i) \<and> terms_to (mb_ids M) t c"

definition kept_but :: "node_id set \<Rightarrow> cluster \<Rightarrow> cluster \<Rightarrow> bool" where
  "kept_but I c c' \<longleftrightarrow> (\<forall>k. k \<notin> I \<longrightarrow> cl_nodes c' k = cl_nodes c k)"

definition commit_kept :: "node_id \<Rightarrow> log_entry list \<Rightarrow> cluster \<Rightarrow> cluster \<Rightarrow> bool" where
  "commit_kept i log c c' \<longleftrightarrow>
     (commit_index (cl_nodes c i) = length log - 1 \<longrightarrow> commit_index (cl_nodes c' i) = length log - 1)"

lemma exchange:
  assumes reach: "live_reach E M c" and M: "membership_ok M" and dummy: "entry_good E (dummy_entry E)" and i: "i \<in> mb_ids M"
    and leads: "leads_all M i t log c" and last: "le_term (last log) = t" and j: "j \<in> mb_ids M" "j \<noteq> i"
    and ni: "map_of (next_index (cl_nodes c i)) j = Some x"
  shows "\<exists>c'. leads_to E M c c' \<and> leads_all M i t log c' \<and> kept_but {i, j} c c' \<and> commit_kept i log c c' \<and>
    (map_of (match_index (cl_nodes c' i)) = (map_of (match_index (cl_nodes c i)))(j \<mapsto> length log - 1) \<and>
        settled log (cl_nodes c' i) \<and> (commit_index (cl_nodes c i) = length log - 1 \<longrightarrow> caught_up (length log - 1) (cl_nodes c' j)) \<or>
      map_of (match_index (cl_nodes c' i)) = map_of (match_index (cl_nodes c i)) \<and> 1 < x \<and> map_of (next_index (cl_nodes c' i)) j = Some (x - 1))"
proof -
  have lw: "leads_with t log (cl_nodes c i)" and tt: "terms_to (mb_ids M) t c" using leads by (simp_all add: leads_all_def)
  obtain c1 a where c1: "leads_to E M c c1" "\<forall>k. k \<noteq> i \<longrightarrow> cl_nodes c1 k = cl_nodes c k" "same_indexes (cl_nodes c i) (cl_nodes c1 i)"
    "commit_index (cl_nodes c1 i) = commit_index (cl_nodes c i)" "leads_with t log (cl_nodes c1 i)" and a: "make_append_entries j (cl_nodes c i) = Inr a" "(j, MAppendEntries a) \<in> cl_net c1"
    by (rule leader_posts [OF reach M dummy i lw j])
  have "rf_id (cl_nodes c i) = i" by (rule live_reach_steady(3) [OF reach M dummy i])
  then have fields: "ae_term a = t" "ae_leader_id a = i" "ae_prev_log_index a = x - 1" "ae_prev_log_term a = le_term (log ! (x - 1))"
    "ae_entries a = drop x log" "ae_leader_commit a = commit_index (cl_nodes c i)" "1 \<le> x" "x \<le> length log"
    using a(1) ni lw by (auto simp: make_append_entries_def leads_with_def panic_def split: if_splits)
  have r1: "live_reach E M c1" by (rule leads_to_reach [OF c1(1) reach])
  have older: "current_term (cl_nodes c1 j) \<le> ae_term a" using tt c1(2) j fields(1) by (simp add: terms_to_def)
  obtain c2 r where c2: "leads_to E M c1 c2" "\<forall>k. k \<noteq> j \<longrightarrow> cl_nodes c2 k = cl_nodes c1 k" "current_term (cl_nodes c2 j) = t"
    "(i, MAppendEntriesResponse r) \<in> cl_net c2" and r: "ar_term r = t" "ar_follower_id r = j"
      "ar_success r \<longrightarrow> ar_match_index r = x - 1 + length (drop x log) \<and>
        (commit_index (cl_nodes c i) \<le> ar_match_index r \<longrightarrow> caught_up (commit_index (cl_nodes c i)) (cl_nodes c2 j))"
      "x - 1 < length (rf_log (cl_nodes c1 j)) \<and> le_term (rf_log (cl_nodes c1 j) ! (x - 1)) = le_term (log ! (x - 1)) \<longrightarrow> ar_success r"
    by (rule peer_answers [OF r1 M dummy j(1) a(2) older, unfolded fields(1-6)])
  have r2: "live_reach E M c2" by (rule leads_to_reach [OF c2(1) r1])
  have n2: "cl_nodes c2 i = cl_nodes c1 i" using c2(2) j(2) by simp
  note live = live_node [OF r2 M dummy i]
  have head: "log \<noteq> [] \<and> hd log = dummy_entry E" using live_node(4,5) [OF reach M dummy i] lw by (simp add: leads_with_def)
  have first: "x = 1 \<longrightarrow> ar_success r"
    using r(4) live_node(4,5) [OF r1 M dummy j(1)] head by (cases "rf_log (cl_nodes c1 j)"; cases log) auto
  obtain n where n: "handle_message E (MAppendEntriesResponse r) 0 (cl_nodes c2 i) = Inr n" "leads_with t log n"
    "map_of (match_index n) = (map_of (match_index (cl_nodes c2 i)))(j \<mapsto> length log - 1) \<and>
        settled log n \<and> ar_success r \<or>
      map_of (match_index n) = map_of (match_index (cl_nodes c2 i)) \<and> 1 < x \<and> map_of (next_index n) j = Some (x - 1)"
    "commit_index (cl_nodes c2 i) = length log - 1 \<longrightarrow> commit_index n = length log - 1"
    by (rule leader_hears [where t = t and log = log and n = "cl_nodes c2 i" and r = r and x = x and j = j and E = E and now = 0])
      (use n2 c1(3,5) live log_good_commands [OF live(1)] live_reach_steady(1) [OF r2 M dummy i] last j ni r first fields(7,8) in \<open>simp_all add: same_indexes_def leads_with_def\<close>)
  let ?c3 = "set_node i n c2"
  have "live_step E M c2 ?c3" by (rule live_step.Deliver [OF i c2(4) _ n(1)]) simp
  then have "leads_to E M c ?c3" using c1(1) c2(1) by (meson rtranclp.rtrancl_into_rtrancl rtranclp_trans)
  moreover have "terms_to (mb_ids M) t ?c3"
    unfolding terms_to_def
  proof
    fix k assume "k \<in> mb_ids M"
    then show "current_term (cl_nodes ?c3 k) \<le> t"
      using tt c1(2) c2(2,3) n(2) by (cases "k = i"; cases "k = j") (simp_all add: terms_to_def leads_with_def)
  qed
  moreover have "kept_but {i, j} c ?c3" "commit_kept i log c ?c3"
    using c1(2,4) c2(2) n(4) n2 by (simp_all add: kept_but_def commit_kept_def)
  moreover have "ar_success r \<longrightarrow> commit_index (cl_nodes c i) = length log - 1 \<longrightarrow> caught_up (length log - 1) (cl_nodes ?c3 j)"
    using r(3) j(2) fields(7,8) by auto
  ultimately show ?thesis using n(2,3) n2 c1(3) by (intro exI [of _ ?c3]) (auto simp: leads_all_def same_indexes_def)
qed

text \<open>As often as the peer refuses, the leader goes back one index, at most to the first.\<close>

lemma replicate_peer:
  assumes "live_reach E M c" and M: "membership_ok M" and dummy: "entry_good E (dummy_entry E)" and i: "i \<in> mb_ids M"
    and "leads_all M i t log c" and last: "le_term (last log) = t" and j: "j \<in> mb_ids M" "j \<noteq> i"
    and "map_of (next_index (cl_nodes c i)) j = Some x"
  shows "\<exists>c'. leads_to E M c c' \<and> leads_all M i t log c' \<and> settled log (cl_nodes c' i) \<and>
    kept_but {i, j} c c' \<and> commit_kept i log c c' \<and>
    (commit_index (cl_nodes c i) = length log - 1 \<longrightarrow> caught_up (length log - 1) (cl_nodes c' j)) \<and>
    map_of (match_index (cl_nodes c' i)) = (map_of (match_index (cl_nodes c i)))(j \<mapsto> length log - 1)"
  using assms(1,5,9)
proof (induction x arbitrary: c rule: less_induct)
  case (less x)
  from exchange [OF less.prems(1) M dummy i less.prems(2) last j less.prems(3)]
  obtain c1 where c1: "leads_to E M c c1" "leads_all M i t log c1" "kept_but {i, j} c c1" "commit_kept i log c c1" and alt:
    "map_of (match_index (cl_nodes c1 i)) = (map_of (match_index (cl_nodes c i)))(j \<mapsto> length log - 1) \<and> settled log (cl_nodes c1 i) \<and>
        (commit_index (cl_nodes c i) = length log - 1 \<longrightarrow> caught_up (length log - 1) (cl_nodes c1 j)) \<or>
      map_of (match_index (cl_nodes c1 i)) = map_of (match_index (cl_nodes c i)) \<and> 1 < x \<and> map_of (next_index (cl_nodes c1 i)) j = Some (x - 1)"
    by metis
  from alt show ?case
  proof
    assume refused: "map_of (match_index (cl_nodes c1 i)) = map_of (match_index (cl_nodes c i)) \<and> 1 < x \<and>
      map_of (next_index (cl_nodes c1 i)) j = Some (x - 1)"
    then have "x - 1 < x" "map_of (next_index (cl_nodes c1 i)) j = Some (x - 1)" by auto
    from less.IH [OF this(1) leads_to_reach [OF c1(1) less.prems(1)] c1(2) this(2)]
    obtain c' where c': "leads_to E M c1 c'" "leads_all M i t log c'" "settled log (cl_nodes c' i)" "kept_but {i, j} c1 c'"
      "commit_kept i log c1 c'" "commit_index (cl_nodes c1 i) = length log - 1 \<longrightarrow> caught_up (length log - 1) (cl_nodes c' j)"
      "map_of (match_index (cl_nodes c' i)) = (map_of (match_index (cl_nodes c1 i)))(j \<mapsto> length log - 1)" by blast
    have "leads_to E M c c'" using c1(1) c'(1) by simp
    with c1 c' refused show ?thesis by (intro exI [of _ c']) (simp add: kept_but_def commit_kept_def)
  qed (use c1 in blast)
qed

lemma replicate_peers:
  assumes "live_reach E M c" and M: "membership_ok M" and dummy: "entry_good E (dummy_entry E)" and i: "i \<in> mb_ids M"
    and "leads_all M i t log c" and last: "le_term (last log) = t" and "set ps \<subseteq> mb_ids M - {i}" and "ps = [] \<longrightarrow> settled log (cl_nodes c i)"
  shows "\<exists>c'. leads_to E M c c' \<and> leads_all M i t log c' \<and> settled log (cl_nodes c' i) \<and>
    kept_but (insert i (set ps)) c c' \<and>
    (commit_index (cl_nodes c i) = length log - 1 \<longrightarrow> (\<forall>p \<in> set ps. caught_up (length log - 1) (cl_nodes c' p))) \<and>
    (\<forall>p. map_of (match_index (cl_nodes c' i)) p = (if p \<in> set ps then Some (length log - 1) else map_of (match_index (cl_nodes c i)) p))"
  using assms(1,5,7,8)
proof (induction ps arbitrary: c)
  case Nil
  then show ?case by (intro exI [of _ c]) (simp add: kept_but_def)
next
  case (Cons j ps)
  have j: "j \<in> mb_ids M" "j \<noteq> i" using Cons.prems(3) by auto
  have "rf_role (cl_nodes c i) = Leader" "j \<in> set (rf_peers (cl_nodes c i))"
    using Cons.prems(2) live_node(3) [OF Cons.prems(1) M dummy i] j by (simp_all add: leads_all_def leads_with_def)
  then obtain x where "map_of (next_index (cl_nodes c i)) j = Some x"
    using live_reach_steady(1) [OF Cons.prems(1) M dummy i] unfolding steady_def by blast
  from replicate_peer [OF Cons.prems(1) M dummy i Cons.prems(2) last j this]
  obtain c1 where c1: "leads_to E M c c1" "leads_all M i t log c1" "settled log (cl_nodes c1 i)"
    "kept_but {i, j} c c1" "commit_kept i log c c1"
    "commit_index (cl_nodes c i) = length log - 1 \<longrightarrow> caught_up (length log - 1) (cl_nodes c1 j)"
    "map_of (match_index (cl_nodes c1 i)) = (map_of (match_index (cl_nodes c i)))(j \<mapsto> length log - 1)" by blast
  from Cons.IH [OF leads_to_reach [OF c1(1) Cons.prems(1)] c1(2)] Cons.prems(3) c1(3)
  obtain c' where c': "leads_to E M c1 c'" "leads_all M i t log c'" "settled log (cl_nodes c' i)" "kept_but (insert i (set ps)) c1 c'"
    "commit_index (cl_nodes c1 i) = length log - 1 \<longrightarrow> (\<forall>p \<in> set ps. caught_up (length log - 1) (cl_nodes c' p))"
    "\<forall>p. map_of (match_index (cl_nodes c' i)) p = (if p \<in> set ps then Some (length log - 1) else map_of (match_index (cl_nodes c1 i)) p)"
    by auto
  have "j \<notin> set ps \<Longrightarrow> cl_nodes c' j = cl_nodes c1 j" using c'(4) j(2) by (simp add: kept_but_def)
  then have "commit_index (cl_nodes c i) = length log - 1 \<longrightarrow> (\<forall>p \<in> set (j # ps). caught_up (length log - 1) (cl_nodes c' p))"
    using c1(5,6) c'(5) by (cases "j \<in> set ps") (auto simp: commit_kept_def)
  moreover have "leads_to E M c c'" using c1(1) c'(1) by simp
  moreover have "kept_but (insert i (set (j # ps))) c c'" using c1(4) c'(4) by (simp add: kept_but_def)
  ultimately show ?case using c'(2,3,6) c1(7) by (intro exI [of _ c']) simp
qed

section \<open>A command\<close>

lemma leader_takes_command:
  assumes leads: "leads_with t log n" and steady: "steady n" and good: "commands_only (rf_log n)" and peers: "distinct (rf_peers n)"
  obtains n' where "handle_message E (MClientCommand cmd) now n = Inr n'" and "rf_peers n = [] \<longrightarrow> settled (rf_log n') n'"
    and "leads_with t (log @ [\<lparr>le_term = t, le_payload = PCommand (log_record_new E 0 cmd)\<rparr>]) n'"
proof -
  let ?e = "\<lparr>le_term = t, le_payload = PCommand (log_record_new E 0 cmd)\<rparr>"
  let ?n = "push_log_entry E ?e n"
  have pushed: "leads_with t (log @ [?e]) ?n" "rf_peers ?n = rf_peers n" using leads by (simp_all add: leads_with_def push_log_entry_def)
  have run: "handle_message E (MClientCommand cmd) now n =
      and_then (if rf_peers n = [] then update_commit_index E ?n else send_all (rf_peers n) ?n) Inr"
    using leads by (cases "if rf_peers n = [] then update_commit_index E ?n else send_all (rf_peers n) ?n")
      (auto simp: handle_message_def append_command_def leads_with_def Let_def push_log_entry_def)
  show thesis
  proof (cases "rf_peers n = []")
    case True
    have commit: "commit_index ?n < length (rf_log ?n)" using steady by (simp add: steady_def push_log_entry_def)
    obtain n' where n': "update_commit_index E ?n = Inr n'" using update_commit_returns [OF commit] by blast
    have "commands_only (rf_log ?n)" using good by (simp add: commands_only_def push_log_entry_def)
    from replicated_commits [OF n' this commit pushed(1)] pushed(2) peers
    have "leads_with t (log @ [?e]) n'" "settled (log @ [?e]) n'" by simp_all
    with run True n' show thesis by (intro that [of n']) (simp_all add: leads_with_def)
  next
    case False
    have "\<exists>n'. send_all (rf_peers n) ?n = Inr n' \<and> rf_log n' = rf_log ?n"
      by (rule send_all_returns) (use steady leads in \<open>fastforce simp: steady_def leads_with_def push_log_entry_def\<close>)
    then obtain n' where n': "send_all (rf_peers n) ?n = Inr n'" by blast
    have "leads_with t (log @ [?e]) n'"
      using same_but_posts(2) [OF conjunct1 [OF send_all_posts [OF n']]] pushed(1) by blast
    with run False n' show thesis by (intro that [of n']) simp_all
  qed
qed

lemma command_replicated:
  assumes reach: "live_reach E M c" and M: "membership_ok M" and dummy: "entry_good E (dummy_entry E)" and i: "i \<in> mb_ids M"
    and leads: "leads_all M i t log c" and cmd: "command_good E cmd"
  defines "e \<equiv> \<lparr>le_term = t, le_payload = PCommand (log_record_new E 0 cmd)\<rparr>"
  shows "\<exists>c'. leads_to E M c c' \<and> leads_all M i t (log @ [e]) c' \<and> settled (log @ [e]) (cl_nodes c' i) \<and> replicated (log @ [e]) (cl_nodes c' i)"
proof -
  note live = live_node [OF reach M dummy i]
  have lw: "leads_with t log (cl_nodes c i)" using leads by (simp add: leads_all_def)
  obtain n where n: "handle_message E (MClientCommand cmd) 0 (cl_nodes c i) = Inr n" "rf_peers (cl_nodes c i) = [] \<longrightarrow> settled (rf_log n) n"
    "leads_with t (log @ [e]) n"
    unfolding e_def by (rule leader_takes_command [OF lw live_reach_steady(1) [OF reach M dummy i] log_good_commands [OF live(1)] live(2)])
  let ?c1 = "set_node i n c"
  have s1: "live_step E M c ?c1" by (rule live_step.Client [OF i _ _ n(1)]) (use cmd in simp_all)
  have r1: "live_reach E M ?c1" by (rule live_reach.Step [OF reach s1])
  have la: "leads_all M i t (log @ [e]) ?c1"
    using leads n(3) unfolding leads_all_def terms_to_def by (simp add: leads_with_def)
  note live1 = live_node [OF r1 M dummy i]
  have "set (rf_peers n) = set (rf_peers (cl_nodes c i))" "rf_log n = log @ [e]"
    using live(3) live1(3) n(3) by (simp_all add: leads_with_def)
  then have "rf_peers n = [] \<longrightarrow> settled (log @ [e]) (cl_nodes ?c1 i)" using n(2) by (cases "rf_peers n") simp_all
  moreover have "le_term (last (log @ [e])) = t" "set (rf_peers n) \<subseteq> mb_ids M - {i}" using live1(3) by (simp_all add: e_def)
  ultimately obtain c' where c': "leads_to E M ?c1 c'" "leads_all M i t (log @ [e]) c'" "settled (log @ [e]) (cl_nodes c' i)"
    "\<forall>p \<in> set (rf_peers n). map_of (match_index (cl_nodes c' i)) p = Some (length (log @ [e]) - 1)"
    using replicate_peers [OF r1 M dummy i la, of "rf_peers n"] by auto
  have "live_reach E M c'" by (rule leads_to_reach [OF c'(1) r1])
  from live_node(3) [OF this M dummy i] live1(3) have "set (rf_peers (cl_nodes c' i)) = set (rf_peers n)" by simp
  with c'(4) have "replicated (log @ [e]) (cl_nodes c' i)" by (simp add: replicated_def)
  with c' s1 show ?thesis by (blast intro: converse_rtranclp_into_rtranclp)
qed

text \<open>One more exchange with every peer tells them of the commit.\<close>

lemma commit_spread:
  assumes reach: "live_reach E M c" and M: "membership_ok M" and dummy: "entry_good E (dummy_entry E)" and i: "i \<in> mb_ids M"
    and leads: "leads_all M i t log c" and last: "le_term (last log) = t"
    and settled: "settled log (cl_nodes c i)" and rep: "replicated log (cl_nodes c i)"
  shows "\<exists>c'. leads_to E M c c' \<and> leads_all M i t log c' \<and> (\<forall>j \<in> mb_ids M. caught_up (length log - 1) (cl_nodes c' j))"
proof -
  let ?ps = "rf_peers (cl_nodes c i)"
  have ps: "set ?ps = mb_ids M - {i}" by (rule live_node(3) [OF reach M dummy i])
  have commit: "commit_index (cl_nodes c i) = length log - 1" using settled rep by (simp add: settled_def)
  from replicate_peers [OF reach M dummy i leads last, of ?ps] ps settled commit
  obtain c' where c': "leads_to E M c c'" "leads_all M i t log c'" "settled log (cl_nodes c' i)"
    "\<forall>p \<in> set ?ps. caught_up (length log - 1) (cl_nodes c' p)"
    "\<forall>p \<in> set ?ps. map_of (match_index (cl_nodes c' i)) p = Some (length log - 1)" by auto
  have "set (rf_peers (cl_nodes c' i)) = set ?ps"
    using live_node(3) [OF leads_to_reach [OF c'(1) reach] M dummy i] ps by simp
  then have "caught_up (length log - 1) (cl_nodes c' i)"
    using c'(3,5) by (simp add: replicated_def settled_def caught_up_def)
  with c' ps show ?thesis by (intro exI [of _ c']) auto
qed

section \<open>Property\<close>

text \<open>
  C19. A write can always be completed: from every state that a cluster reaches without losing the memory of a node, and in
  which no term is the greatest one, steps of the cluster lead to a state in which some node is leader and has a given new command
  in its log behind everything that was there before, and in which every node of the cluster has this log, has
  committed the command and has applied it.
\<close>

theorem write_can_complete:
  assumes "live_reach E M c" and "membership_ok M" and "entry_good E (dummy_entry E)" and "mb_ids M \<noteq> {}"
    and "\<forall>j \<in> mb_ids M. current_term (cl_nodes c j) \<noteq> - 1" and "command_good E cmd"
  shows "\<exists>c' i log. (live_step E M)\<^sup>*\<^sup>* c c' \<and> i \<in> mb_ids M \<and> rf_role (cl_nodes c' i) = Leader \<and>
    log = rf_log (cl_nodes c i) @ [\<lparr>le_term = current_term (cl_nodes c' i), le_payload = PCommand (log_record_new E 0 cmd)\<rparr>] \<and>
    rf_log (cl_nodes c' i) = log \<and>
    (\<forall>j \<in> mb_ids M. take (length log) (rf_log (cl_nodes c' j)) = log \<and>
      commit_index (cl_nodes c' j) = length log - 1 \<and> length log - 1 \<le> last_applied (cl_nodes c' j))"
proof -
  obtain c1 i where c1: "leads_to E M c c1" "i \<in> mb_ids M" "rf_role (cl_nodes c1 i) = Leader"
    "rf_log (cl_nodes c1 i) = rf_log (cl_nodes c i)" "terms_to (mb_ids M) (current_term (cl_nodes c1 i)) c1"
    using election_possible [OF assms(1-5)] by blast
  define t where "t = current_term (cl_nodes c1 i)"
  define log where "log = rf_log (cl_nodes c i) @ [\<lparr>le_term = t, le_payload = PCommand (log_record_new E 0 cmd)\<rparr>]"
  have r1: "live_reach E M c1" by (rule leads_to_reach [OF c1(1) assms(1)])
  have "leads_all M i t (rf_log (cl_nodes c i)) c1" using c1 by (simp add: leads_all_def leads_with_def t_def)
  from command_replicated [OF r1 assms(2,3) c1(2) this assms(6)] obtain c2 where c2: "leads_to E M c1 c2"
    "leads_all M i t log c2" "settled log (cl_nodes c2 i)" "replicated log (cl_nodes c2 i)" unfolding log_def by blast
  have r2: "live_reach E M c2" by (rule leads_to_reach [OF c2(1) r1])
  have "le_term (last log) = t" by (simp add: log_def)
  from commit_spread [OF r2 assms(2,3) c1(2) c2(2) this c2(3,4)] obtain c3 where c3: "leads_to E M c2 c3"
    "leads_all M i t log c3" "\<forall>j \<in> mb_ids M. caught_up (length log - 1) (cl_nodes c3 j)" by blast
  have leader: "rf_role (cl_nodes c3 i) = Leader" "current_term (cl_nodes c3 i) = t" "rf_log (cl_nodes c3 i) = log"
    using c3(2) by (simp_all add: leads_all_def leads_with_def)
  have "take (length log) (rf_log (cl_nodes c3 j)) = log" if j: "j \<in> mb_ids M" for j
  proof -
    have "current_term (cl_nodes c3 j) \<le> current_term (cl_nodes c3 i)" using c3(2) j leader(2) by (simp add: leads_all_def terms_to_def)
    from leader_has_committed [OF leads_to_reach [OF c3(1) r2] assms(2,3) j c1(2) leader(1) this] c3(3) j leader(3)
    show ?thesis by (simp add: caught_up_def log_def)
  qed
  moreover have "leads_to E M c c3" using c1(1) c2(1) c3(1) by simp
  ultimately show ?thesis using c1(2) c3(3) leader unfolding caught_up_def log_def by blast
qed

text \<open>A first write in a new cluster of three nodes.\<close>

theorem write_can_complete_witness:
  "\<exists>c c' i. live_reach sample_raft_ext sample_membership c \<and> rf_role (cl_nodes c i) = Follower \<and>
     (live_step sample_raft_ext sample_membership)\<^sup>*\<^sup>* c c' \<and> rf_role (cl_nodes c' i) = Leader \<and>
     le_payload (rf_log (cl_nodes c' i) ! 1) = PCommand (log_record_new sample_raft_ext 0 sample_command) \<and>
     (\<forall>j \<in> {1, 2, 3}. take 2 (rf_log (cl_nodes c' j)) = rf_log (cl_nodes c' i) \<and>
       commit_index (cl_nodes c' j) = 1 \<and> 1 \<le> last_applied (cl_nodes c' j))"
proof -
  obtain db where db: "\<And>i peers. new_in_dir sample_raft_ext [] i peers config_default 0 (\<lambda>_. 0) = Inr (fresh_node db i peers)"
    using fresh_node_new by blast
  let ?c = "\<lparr>cl_nodes = (\<lambda>i. fresh_node db i (mb_peers sample_membership i)), cl_net = {}, cl_votes = {}, cl_leaders = {}\<rparr>"
  have reach: "live_reach sample_raft_ext sample_membership ?c"
    by (rule live_reach.Init) (use db in \<open>auto simp: cluster_init_def sample_membership_def\<close>)
  have fresh: "current_term (cl_nodes ?c j) = 0" "rf_role (cl_nodes ?c j) = Follower" "rf_log (cl_nodes ?c j) = [dummy_entry sample_raft_ext]" for j
    by (simp_all add: fresh_node_def)
  then have "\<forall>j \<in> mb_ids sample_membership. current_term (cl_nodes ?c j) \<noteq> - 1" by simp
  from write_can_complete [OF reach sample_membership_ok sample_dummy sample_ids(3) this sample_command_good, unfolded fresh(3)]
  obtain c' i L where c': "(live_step sample_raft_ext sample_membership)\<^sup>*\<^sup>* ?c c'" "rf_role (cl_nodes c' i) = Leader"
    "L = [dummy_entry sample_raft_ext] @ [\<lparr>le_term = current_term (cl_nodes c' i), le_payload = PCommand (log_record_new sample_raft_ext 0 sample_command)\<rparr>]"
    "rf_log (cl_nodes c' i) = L"
    "\<forall>j \<in> mb_ids sample_membership. take (length L) (rf_log (cl_nodes c' j)) = L \<and>
       commit_index (cl_nodes c' j) = length L - 1 \<and> length L - 1 \<le> last_applied (cl_nodes c' j)" by blast
  have "length L = 2" using c'(3) by simp
  with c'(4,5) have "\<forall>j \<in> {1, 2, 3}. take 2 (rf_log (cl_nodes c' j)) = rf_log (cl_nodes c' i) \<and>
       commit_index (cl_nodes c' j) = 1 \<and> 1 \<le> last_applied (cl_nodes c' j)" by (simp add: sample_membership_def)
  moreover have "le_payload (rf_log (cl_nodes c' i) ! 1) = PCommand (log_record_new sample_raft_ext 0 sample_command)"
    using c'(3,4) by simp
  ultimately show ?thesis using reach fresh(2) [of i] c'(1,2) by (intro exI [of _ ?c] exI [of _ c'] exI [of _ i]) simp
qed

end
