(* ===== verification/Simulator_Calm.thy ===== *)
theory Simulator_Calm
  imports Simulator
begin

text \<open>
  A simulation without faults delivers every message: \<open>run_until_idle\<close> keeps what every single delivery keeps,
  and ends with no message under way when the deliveries use up a weight that is within its limit of steps.
\<close>

section \<open>Calm simulations\<close>

type_synonym post = "(node_id \<times> message) multiset"

definition calm :: "simulation \<Rightarrow> bool" where
  "calm s \<longleftrightarrow> disabled_nodes s = {} \<and> paused_nodes s = {} \<and> blocked_links s = {} \<and> link_policies s = [] \<and>
     scheduled_faults s = [] \<and> distinct (node_ids s)"

definition posted :: "simulation \<Rightarrow> post" where
  "posted s = mset (map (\<lambda>e. (ev_to e, ev_message e)) (sim_events s))"

definition no_timeouts :: "raft_node \<Rightarrow> bool" where
  "no_timeouts n \<longleftrightarrow> (\<forall>x \<in> set (rf_outbox n). snd x \<noteq> MTimeout)"

lemma calm_send:
  assumes "calm s" and "m \<noteq> MTimeout"
  shows "calm (send_message i now (to, m) s)" and "posted (send_message i now (to, m) s) = add_mset (to, m) (posted s)"
    and "sim_nodes (send_message i now (to, m) s) = sim_nodes s" and "sim_clock (send_message i now (to, m) s) = sim_clock s"
  using assms by (simp_all add: calm_def posted_def send_message_def push_event_def)

lemma calm_send_all:
  "calm s \<Longrightarrow> \<forall>x \<in> set ms. snd x \<noteq> MTimeout \<Longrightarrow>
     calm (fold (send_message i now) ms s) \<and> posted (fold (send_message i now) ms s) = posted s + mset ms \<and>
     sim_nodes (fold (send_message i now) ms s) = sim_nodes s"
proof (induction ms arbitrary: s)
  case (Cons x ms)
  obtain to m where x: "x = (to, m)" by force
  with Cons.prems have "m \<noteq> MTimeout" by auto
  from Cons.IH [OF calm_send(1) [OF Cons.prems(1) this, of i now to]] Cons.prems calm_send [OF Cons.prems(1) this, of i now to] x
  show ?case by simp
qed simp

lemma calm_set_node:
  assumes "calm s" and "map_of (sim_nodes s) i = Some n"
  shows "calm (s\<lparr>sim_nodes := AList.update i n' (sim_nodes s)\<rparr>)"
    and "node_ids (s\<lparr>sim_nodes := AList.update i n' (sim_nodes s)\<rparr>) = node_ids s"
  using assms update_keeps_keys [of "sim_nodes s" i n'] by (simp_all add: calm_def)

lemma calm_flush:
  assumes "calm s" and "map_of (sim_nodes s) i = Some n" and "no_timeouts n"
  shows "calm (flush_node_outbox i s)" and "posted (flush_node_outbox i s) = posted s + mset (rf_outbox n)"
    and "map_of (sim_nodes (flush_node_outbox i s)) = (map_of (sim_nodes s))(i \<mapsto> n\<lparr>rf_outbox := []\<rparr>)"
    and "node_ids (flush_node_outbox i s) = node_ids s"
proof -
  let ?s = "s\<lparr>sim_nodes := AList.update i (n\<lparr>rf_outbox := []\<rparr>) (sim_nodes s)\<rparr>"
  have flush: "flush_node_outbox i s = fold (send_message i (sim_clock s)) (rf_outbox n) ?s"
    using assms by (simp add: flush_node_outbox_def calm_def)
  note set = calm_set_node [OF assms(1,2), of "n\<lparr>rf_outbox := []\<rparr>"]
  have "posted ?s = posted s" by (simp add: posted_def)
  with calm_send_all [OF set(1), of "rf_outbox n" i "sim_clock s"] set(2) assms(3)
  show "calm (flush_node_outbox i s)" "posted (flush_node_outbox i s) = posted s + mset (rf_outbox n)"
    "map_of (sim_nodes (flush_node_outbox i s)) = (map_of (sim_nodes s))(i \<mapsto> n\<lparr>rf_outbox := []\<rparr>)"
    "node_ids (flush_node_outbox i s) = node_ids s"
    unfolding flush by (simp_all add: no_timeouts_def map_of_update)
qed

text \<open>One delivery.\<close>

lemma calm_no_faults: "calm s \<Longrightarrow> trigger_due_faults E s = Inr s"
  by (simp add: trigger_due_faults.simps calm_def queue_pop_def)

lemma calm_deliver:
  assumes calm: "calm s" and events: "sim_events s \<noteq> []"
  shows "\<exists>to m now. (to, m) \<in># posted s \<and>
    (\<forall>n n'. map_of (sim_nodes s) to = Some n \<longrightarrow> m \<noteq> MTimeout \<longrightarrow> handle_message E m now n = Inr n' \<longrightarrow> no_timeouts n' \<longrightarrow>
      (\<exists>s'. deliver_next E s = Inr (s', True) \<and> calm s' \<and> node_ids s' = node_ids s \<and>
         map_of (sim_nodes s') = (map_of (sim_nodes s))(to \<mapsto> n'\<lparr>rf_outbox := []\<rparr>) \<and>
         posted s' = posted s - {#(to, m)#} + mset (rf_outbox n')))"
proof -
  obtain e where peek: "queue_peek event_key (sim_events s) = Some e"
    using events queue_peek_none [of event_key "sim_events s"] by (cases "queue_peek event_key (sim_events s)") simp_all
  then have e: "e \<in> set (sim_events s)" by (simp add: queue_peek_least)
  let ?now = "max (sim_clock s) (deliver_at e)"
  let ?s = "s\<lparr>sim_events := remove1 e (sim_events s), sim_clock := ?now\<rparr>"
  have calm1: "calm ?s" using calm by (simp add: calm_def)
  have posted1: "posted ?s = posted s - {#(ev_to e, ev_message e)#}"
    using e by (simp add: posted_def image_mset_Diff)
  have deliver: "deliver_next E s = and_then (route_event E e ?s) (\<lambda>s. Inr (s, True))"
    using calm_no_faults [OF calm, of E] calm_no_faults [OF calm1, of E] peek by (simp add: deliver_next_def queue_pop_def)
  have "\<exists>s'. deliver_next E s = Inr (s', True) \<and> calm s' \<and> node_ids s' = node_ids s \<and>
      map_of (sim_nodes s') = (map_of (sim_nodes s))(ev_to e \<mapsto> n'\<lparr>rf_outbox := []\<rparr>) \<and>
      posted s' = posted s - {#(ev_to e, ev_message e)#} + mset (rf_outbox n')"
    if n: "map_of (sim_nodes s) (ev_to e) = Some n" "ev_message e \<noteq> MTimeout" "handle_message E (ev_message e) ?now n = Inr n'" "no_timeouts n'" for n n'
  proof -
    let ?t = "?s\<lparr>sim_nodes := AList.update (ev_to e) n' (sim_nodes ?s)\<rparr>"
    have lookup: "map_of (sim_nodes ?s) (ev_to e) = Some n" using n(1) by simp
    note t = calm_set_node [OF calm1 lookup, of n']
    have "map_of (sim_nodes ?t) (ev_to e) = Some n'" by (simp add: map_of_update)
    note f = calm_flush [OF t(1) this n(4)]
    have "route_event E e ?s = Inr (flush_node_outbox (ev_to e) ?t)"
      using calm1 n by (simp add: route_event_def with_node_def checked_message_def calm_def)
    moreover have "posted ?t = posted ?s" by (simp add: posted_def)
    ultimately show ?thesis
      using deliver f t(2) posted1 by (intro exI [of _ "flush_node_outbox (ev_to e) ?t"]) (simp add: map_of_update)
  qed
  moreover have "(ev_to e, ev_message e) \<in># posted s" using e by (force simp: posted_def)
  ultimately show ?thesis by blast
qed

lemma calm_idle: "calm s \<Longrightarrow> sim_events s = [] \<Longrightarrow> deliver_next E s = Inr (s, False)"
  by (simp add: deliver_next_def calm_no_faults queue_pop_def calm_def)

lemma posted_empty: "posted s = {#} \<longleftrightarrow> sim_events s = []"
  by (simp add: posted_def)

section \<open>Rounds of messages\<close>

text \<open>
  An invariant of the nodes and the messages under way that every delivery keeps, at any time, while it uses up some weight.
\<close>

locale calm_round =
  fixes E :: "'x raft_ext_scheme" and inv :: "(node_id \<rightharpoonup> raft_node) \<Rightarrow> post \<Rightarrow> bool" and weight :: "(node_id \<rightharpoonup> raft_node) \<Rightarrow> post \<Rightarrow> nat"
  assumes delivery: "inv N B \<Longrightarrow> (to, m) \<in># B \<Longrightarrow> \<exists>n n'. N to = Some n \<and> m \<noteq> MTimeout \<and> handle_message E m now n = Inr n' \<and> no_timeouts n' \<and>
    inv (N(to \<mapsto> n'\<lparr>rf_outbox := []\<rparr>)) (B - {#(to, m)#} + mset (rf_outbox n')) \<and>
    weight (N(to \<mapsto> n'\<lparr>rf_outbox := []\<rparr>)) (B - {#(to, m)#} + mset (rf_outbox n')) < weight N B"
begin

lemma loop_ends:
  "calm s \<Longrightarrow> inv (map_of (sim_nodes s)) (posted s) \<Longrightarrow> weight (map_of (sim_nodes s)) (posted s) \<le> left \<Longrightarrow>
     \<exists>s'. idle_loop E left s = Inr s' \<and> calm s' \<and> sim_events s' = [] \<and> inv (map_of (sim_nodes s')) {#} \<and> node_ids s' = node_ids s"
proof (induction left arbitrary: s rule: less_induct)
  case (less left)
  show ?case
  proof (cases "sim_events s = []")
    case True
    with less.prems calm_idle [OF less.prems(1) True, of E] show ?thesis by (cases left) (simp_all add: posted_def)
  next
    case False
    from calm_deliver [OF less.prems(1) False, of E] obtain to m now where m: "(to, m) \<in># posted s"
      "\<And>n n'. map_of (sim_nodes s) to = Some n \<Longrightarrow> m \<noteq> MTimeout \<Longrightarrow> handle_message E m now n = Inr n' \<Longrightarrow> no_timeouts n' \<Longrightarrow>
        \<exists>s'. deliver_next E s = Inr (s', True) \<and> calm s' \<and> node_ids s' = node_ids s \<and>
           map_of (sim_nodes s') = (map_of (sim_nodes s))(to \<mapsto> n'\<lparr>rf_outbox := []\<rparr>) \<and>
           posted s' = posted s - {#(to, m)#} + mset (rf_outbox n')" by blast
    from delivery [OF less.prems(2) m(1), of now] m(2) obtain s' where s': "deliver_next E s = Inr (s', True)" "calm s'" "node_ids s' = node_ids s"
      "inv (map_of (sim_nodes s')) (posted s')" "weight (map_of (sim_nodes s')) (posted s') < weight (map_of (sim_nodes s)) (posted s)"
      by (metis (no_types, lifting))
    then obtain k where k: "left = Suc k" "weight (map_of (sim_nodes s')) (posted s') \<le> k" using less.prems(3) by (cases left) auto
    from less.IH [OF _ s'(2,4) k(2)] k(1) s'(1,3) show ?thesis by simp
  qed
qed

end

section \<open>Flushing all nodes\<close>

definition outbox_of :: "simulation \<Rightarrow> node_id \<Rightarrow> (node_id \<times> message) list" where
  "outbox_of s i = (case map_of (sim_nodes s) i of None \<Rightarrow> [] | Some n \<Rightarrow> rf_outbox n)"

definition cleared :: "(node_id \<rightharpoonup> raft_node) \<Rightarrow> node_id \<rightharpoonup> raft_node" where
  "cleared N i = map_option (\<lambda>n. n\<lparr>rf_outbox := []\<rparr>) (N i)"

lemma calm_flush_list:
  assumes "calm s" and "distinct ids" and "\<forall>i \<in> set ids. \<exists>n. map_of (sim_nodes s) i = Some n \<and> no_timeouts n"
  shows "calm (fold flush_node_outbox ids s) \<and> node_ids (fold flush_node_outbox ids s) = node_ids s \<and>
    posted (fold flush_node_outbox ids s) = posted s + (\<Sum>i \<leftarrow> ids. mset (outbox_of s i)) \<and>
    map_of (sim_nodes (fold flush_node_outbox ids s)) = (\<lambda>i. if i \<in> set ids then cleared (map_of (sim_nodes s)) i else map_of (sim_nodes s) i)"
  using assms
proof (induction ids arbitrary: s)
  case (Cons i ids)
  obtain n where n: "map_of (sim_nodes s) i = Some n" "no_timeouts n" using Cons.prems(3) by auto
  note f = calm_flush [OF Cons.prems(1) n]
  have same: "map_of (sim_nodes (flush_node_outbox i s)) j = map_of (sim_nodes s) j" if "j \<in> set ids" for j using Cons.prems(2) that f(3) by auto
  have "(\<Sum>j \<leftarrow> ids. mset (outbox_of (flush_node_outbox i s) j)) = (\<Sum>j \<leftarrow> ids. mset (outbox_of s j))"
    by (rule arg_cong [of _ _ sum_list]) (simp add: outbox_of_def same)
  with Cons.IH [OF f(1)] Cons.prems f same n show ?case by (auto simp: outbox_of_def cleared_def fun_eq_iff)
qed simp

context calm_round
begin

lemma run_ends:
  assumes "calm s" and "\<forall>n \<in> ran (map_of (sim_nodes s)). no_timeouts n"
    and "inv (cleared (map_of (sim_nodes s))) (posted s + (\<Sum>i \<leftarrow> node_ids s. mset (outbox_of s i)))"
    and "weight (cleared (map_of (sim_nodes s))) (posted s + (\<Sum>i \<leftarrow> node_ids s. mset (outbox_of s i))) \<le> 10000"
  shows "\<exists>s'. run_until_idle E s = Inr s' \<and> calm s' \<and> sim_events s' = [] \<and> inv (map_of (sim_nodes s')) {#} \<and> node_ids s' = node_ids s"
proof -
  have boxes: "\<forall>i \<in> set (node_ids s). \<exists>n. map_of (sim_nodes s) i = Some n \<and> no_timeouts n"
  proof
    fix i assume "i \<in> set (node_ids s)"
    then obtain n where "map_of (sim_nodes s) i = Some n" by (metis map_of_eq_None_iff not_None_eq set_map)
    with assms(2) show "\<exists>n. map_of (sim_nodes s) i = Some n \<and> no_timeouts n" by (auto intro: ranI)
  qed
  have "(\<lambda>i. if i \<in> set (node_ids s) then cleared (map_of (sim_nodes s)) i else map_of (sim_nodes s) i) = cleared (map_of (sim_nodes s))"
  proof
    fix i
    have "map_of (sim_nodes s) i = None" if "i \<notin> set (node_ids s)" using that by (simp add: map_of_eq_None_iff)
    then show "(if i \<in> set (node_ids s) then cleared (map_of (sim_nodes s)) i else map_of (sim_nodes s) i) = cleared (map_of (sim_nodes s)) i"
      by (auto simp: cleared_def)
  qed
  moreover have "distinct (node_ids s)" using assms(1) by (simp add: calm_def)
  note f = calm_flush_list [OF assms(1) this boxes, folded flush_all_outboxes_def]
  ultimately have "calm (flush_all_outboxes s)" "node_ids (flush_all_outboxes s) = node_ids s"
    "map_of (sim_nodes (flush_all_outboxes s)) = cleared (map_of (sim_nodes s))"
    "posted (flush_all_outboxes s) = posted s + (\<Sum>i \<leftarrow> node_ids s. mset (outbox_of s i))" using f by metis+
  with loop_ends [of "flush_all_outboxes s" 10000] assms(3,4) show ?thesis by (simp only: run_until_idle_def)
qed

end

end
