(* ===== verification/Raft_Round.thy ===== *)
theory Raft_Round
  imports Raft_Writes Simulator_Calm
begin

text \<open>
  A round of messages in a simulation without faults: a leader that has posted its entries to all peers, or a candidate
  that has posted its requests for votes in a new cluster. When no message is left, the node leads, all peers have its log,
  and it has committed all of it.
\<close>

section \<open>Messages of a round\<close>

record round =
  rd_leader :: node_id
  rd_peers :: "node_id list"
  rd_log :: "log_entry list"
  rd_next :: nat
  rd_commit :: nat

definition ask :: "round \<Rightarrow> message" where
  "ask R = MRequestVote \<lparr>rv_term = 1, rv_candidate_id = rd_leader R, rv_last_log_index = 0, rv_last_log_term = 0\<rparr>"

definition vote :: "node_id \<Rightarrow> message" where
  "vote p = MRequestVoteResponse \<lparr>vr_term = 1, vr_voter_id = p, vr_vote_granted = True\<rparr>"

definition entries :: "round \<Rightarrow> message" where
  "entries R = MAppendEntries \<lparr>ae_term = 1, ae_leader_id = rd_leader R, ae_prev_log_index = rd_next R - 1,
     ae_prev_log_term = le_term (rd_log R ! (rd_next R - 1)), ae_entries = drop (rd_next R) (rd_log R), ae_leader_commit = rd_commit R\<rparr>"

definition ack :: "round \<Rightarrow> node_id \<Rightarrow> message" where
  "ack R p = MAppendEntriesResponse \<lparr>ar_term = 1, ar_follower_id = p, ar_success = True, ar_match_index = length (rd_log R) - 1\<rparr>"

definition round_ok :: "round \<Rightarrow> bool" where
  "round_ok R \<longleftrightarrow> distinct (rd_peers R) \<and> rd_leader R \<notin> set (rd_peers R) \<and> commands_only (rd_log R) \<and>
     1 \<le> rd_next R \<and> length (rd_log R) - 1 \<le> rd_next R \<and> rd_next R \<le> length (rd_log R) \<and> rd_commit R < length (rd_log R)"

section \<open>Peers\<close>

definition peer_state :: "round \<Rightarrow> node_id \<Rightarrow> raft_node \<Rightarrow> bool" where
  "peer_state R p n \<longleftrightarrow> rf_id n = p \<and> rf_outbox n = [] \<and> pending_requests n = [] \<and>
     (current_term n = 0 \<and> voted_for n = None \<or> current_term n = 1 \<and> voted_for n \<in> {None, Some (rd_leader R)}) \<and>
     rf_log n \<in> {take (rd_next R) (rd_log R), rd_log R}"

definition has_entries :: "round \<Rightarrow> raft_node \<Rightarrow> bool" where
  "has_entries R n \<longleftrightarrow> rf_log n = rd_log R \<and> commit_index n = rd_commit R \<and> current_term n = 1"

lemma reset_form: "\<exists>d k. reset_election_timeout now n = n\<lparr>election_deadline := d, rand_pos := k\<rparr>"
proof (cases "election_timeout n")
  case (Some t)
  then have "reset_election_timeout now n = n\<lparr>election_deadline := now + t, rand_pos := rand_pos n\<rparr>" by (simp add: reset_election_timeout_def)
  then show ?thesis by blast
qed (auto simp: reset_election_timeout_def)

lemma reset_keeps [simp]:
  "pending_requests (reset_election_timeout now n) = pending_requests n" "commit_index (reset_election_timeout now n) = commit_index n"
  "rf_outbox (reset_election_timeout now n) = rf_outbox n" "voted_for (reset_election_timeout now n) = voted_for n"
  by (simp_all add: reset_election_timeout_def split: option.splits)

lemma step_down_form:
  assumes "pending_requests n = []"
  shows "\<exists>d k m. step_down t now n =
    n\<lparr>current_term := t, rf_role := Follower, voted_for := None, leader_id := None, election_deadline := d, rand_pos := k, meta_store := m, pending_requests := []\<rparr>"
proof -
  obtain d k where "reset_election_timeout now (n\<lparr>current_term := t, rf_role := Follower, voted_for := None, leader_id := None\<rparr>) =
    n\<lparr>current_term := t, rf_role := Follower, voted_for := None, leader_id := None, election_deadline := d, rand_pos := k\<rparr>"
    using reset_form by blast
  then show ?thesis using assms by (auto simp: step_down_def Let_def persist_meta_def)
qed

text \<open>What a node becomes that first goes to a newer term if it has to.\<close>

lemma catch_up:
  assumes "peer_state R p n"
  obtains m where "(if 1 > current_term n then step_down 1 now n else n) = m" and "current_term m = 1" and "voted_for m \<in> {None, Some (rd_leader R)}"
    and "rf_id m = p" and "rf_outbox m = []" and "pending_requests m = []" and "rf_log m = rf_log n" and "commit_index m = commit_index n"
proof (cases "current_term n = 1")
  case True
  with assms that [of n] show thesis by (simp add: peer_state_def)
next
  case False
  then have "current_term n = 0" using assms by (auto simp: peer_state_def)
  moreover obtain d k m where "step_down 1 now n =
      n\<lparr>current_term := 1, rf_role := Follower, voted_for := None, leader_id := None, election_deadline := d, rand_pos := k, meta_store := m, pending_requests := []\<rparr>"
    using step_down_form assms unfolding peer_state_def by blast
  ultimately show thesis using that [of "step_down 1 now n"] assms by (simp add: peer_state_def)
qed

lemma peer_votes:
  assumes n: "peer_state R p n" and first: "rd_log R = [e]" "le_term e = 0" "rd_next R = 1"
  obtains n' where "handle_message E (ask R) now n = Inr n'" and "rf_outbox n' = [(rd_leader R, vote p)]"
    and "peer_state R p (n'\<lparr>rf_outbox := []\<rparr>)" and "has_entries R n \<longrightarrow> has_entries R n'"
proof -
  let ?q = "\<lparr>rv_term = 1, rv_candidate_id = rd_leader R, rv_last_log_index = 0, rv_last_log_term = 0\<rparr>"
  obtain m where m: "(if 1 > current_term n then step_down 1 now n else n) = m" "current_term m = 1" "voted_for m \<in> {None, Some (rd_leader R)}"
    "rf_id m = p" "rf_outbox m = []" "pending_requests m = []" "rf_log m = rf_log n" "commit_index m = commit_index n"
    by (rule catch_up [OF n])
  have log: "rf_log n = [e]" using n first by (auto simp: peer_state_def)
  let ?m = "persist_meta (m\<lparr>voted_for := Some (rd_leader R)\<rparr>)"
  have "\<not> 1 < current_term n" using n by (auto simp: peer_state_def)
  moreover have "(case voted_for m of None \<Rightarrow> True | Some i \<Rightarrow> i = rd_leader R)" using m(3) by auto
  ultimately have "handle_request_vote ?q now n = Inr (reset_election_timeout now ?m, vote_reply (reset_election_timeout now ?m) True)"
    unfolding handle_request_vote_def Let_def request_vote.select_convs m(1)
    using m(7) log first(2) by (simp add: last_log_def log_is_up_to_date_def)
  then have "handle_message E (ask R) now n = Inr (push_outbox (rd_leader R) (MRequestVoteResponse (vote_reply (reset_election_timeout now ?m) True)) (reset_election_timeout now ?m))"
    by (simp add: handle_message_def ask_def)
  then show thesis
    by (rule that) (use m n log in \<open>simp_all add: push_outbox_def persist_meta_def vote_def vote_reply_def peer_state_def has_entries_def\<close>)
qed

text \<open>Entries that follow the log of the peer, or that it already has.\<close>

lemma append_rest:
  assumes "rf_log n \<in> {take x L, L}" and "length L - 1 \<le> x" and "x \<le> length L" and "L \<noteq> []"
  shows "\<exists>s. append_loop E x (drop x L) n = n\<lparr>rf_log := L, log_store := s\<rparr>"
proof (cases "x = length L")
  case True
  with assms(1) have "append_loop E x (drop x L) n = n\<lparr>rf_log := L, log_store := log_store n\<rparr>" by auto
  then show ?thesis by blast
next
  case False
  obtain ys z where L: "L = ys @ [z]" using assms(4) by (cases L rule: rev_cases) auto
  with False assms(2,3) have x: "x = length ys" by simp
  show ?thesis
  proof (cases "rf_log n = L")
    case True
    then have "append_loop E x (drop x L) n = n\<lparr>rf_log := L, log_store := log_store n\<rparr>" by (simp add: L x)
    then show ?thesis by blast
  next
    case False
    then have "rf_log n = ys" using assms(1) by (simp add: L x)
    then have "append_loop E x (drop x L) n = n\<lparr>rf_log := L, log_store :=
        map_option (\<lambda>s. case log_store_append E z s of Inr s' \<Rightarrow> s' | Inl _ \<Rightarrow> s) (log_store n)\<rparr>"
      by (simp add: L x push_log_entry_def)
    then show ?thesis by blast
  qed
qed

lemma apply_keeps_vote: "apply_committed_entries E n = Inr n' \<Longrightarrow> voted_for n' = voted_for n"
proof (induction E n rule: apply_committed_entries.induct)
  case (1 E n)
  then show ?case
    by (auto simp: apply_committed_entries.simps [of E n] and_then_eq_Inr dest: apply_entry_at_simps(3) split: if_splits)
qed

lemma peer_takes_entries:
  assumes R: "round_ok R" and n: "peer_state R p n"
  obtains n' where "handle_message E (entries R) now n = Inr n'" and "rf_outbox n' = [(rd_leader R, ack R p)]"
    and "peer_state R p (n'\<lparr>rf_outbox := []\<rparr>)" and "has_entries R n'"
proof -
  let ?x = "rd_next R" and ?log = "rd_log R"
  let ?a = "\<lparr>ae_term = 1, ae_leader_id = rd_leader R, ae_prev_log_index = ?x - 1,
     ae_prev_log_term = le_term (?log ! (?x - 1)), ae_entries = drop ?x ?log, ae_leader_commit = rd_commit R\<rparr>"
  have R': "1 \<le> ?x" "length ?log - 1 \<le> ?x" "?x \<le> length ?log" "rd_commit R < length ?log" "?log \<noteq> []"
    using R by (auto simp: round_ok_def)
  obtain m where m: "(if 1 > current_term n then step_down 1 now n else n) = m" "current_term m = 1" "voted_for m \<in> {None, Some (rd_leader R)}"
    "rf_id m = p" "rf_outbox m = []" "pending_requests m = []" "rf_log m = rf_log n" "commit_index m = commit_index n"
    by (rule catch_up [OF n])
  let ?F = "reset_election_timeout now (m\<lparr>rf_role := Follower, leader_id := Some (rd_leader R)\<rparr>)"
  have log: "rf_log ?F \<in> {take ?x ?log, ?log}" using n m(7) by (simp add: peer_state_def)
  then have prev: "?x - 1 < length (rf_log ?F)" "rf_log ?F ! (?x - 1) = ?log ! (?x - 1)" using R' by auto
  obtain s where s: "append_loop E ?x (drop ?x ?log) ?F = ?F\<lparr>rf_log := ?log, log_store := s\<rparr>"
    using append_rest [OF log R'(2,3,5)] by blast
  let ?k = "persist_meta (?F\<lparr>rf_log := ?log, log_store := s, commit_index := rd_commit R\<rparr>)"
  have "commit_index ?k < length (rf_log ?k)" using R'(4) by (simp add: persist_meta_def)
  from apply_committed_returns [OF this] obtain k where k: "apply_committed_entries E ?k = Inr k" by blast
  have pend: "pending_requests ?k = []" using m(6) by (simp add: persist_meta_def)
  note f = apply_committed_fields [OF k] apply_committed_term [OF k] apply_silent [OF k pend] apply_keeps_vote [OF k]
  have "\<not> 1 < current_term n" using n by (auto simp: peer_state_def)
  then have "handle_append_entries E ?a now n = Inr (k, append_reply k True (length ?log - 1))"
    unfolding handle_append_entries_def Let_def append_entries.select_convs m(1)
    using prev s k R' by simp
  then have "handle_message E (entries R) now n = Inr (push_outbox (rd_leader R) (MAppendEntriesResponse (append_reply k True (length ?log - 1))) k)"
    by (simp add: handle_message_def entries_def)
  then show thesis
    by (rule that) (use f m n in \<open>simp_all add: push_outbox_def persist_meta_def append_reply_def ack_def peer_state_def has_entries_def\<close>)
qed

section \<open>The leader\<close>

definition leader_state :: "round \<Rightarrow> raft_node \<Rightarrow> bool" where
  "leader_state R n \<longleftrightarrow> rf_id n = rd_leader R \<and> rf_peers n = rd_peers R \<and> current_term n = 1 \<and> rf_log n = rd_log R \<and>
     rf_outbox n = [] \<and> pending_requests n = [] \<and> commit_index n < length (rd_log R) \<and>
     (le_term (last (rd_log R)) = 1 \<or> commit_index n = length (rd_log R) - 1)"

definition matched :: "round \<Rightarrow> raft_node \<Rightarrow> node_id \<Rightarrow> bool" where
  "matched R n p \<longleftrightarrow> map_of (match_index n) p = Some (length (rd_log R) - 1) \<and> map_of (next_index n) p = Some (length (rd_log R))"

lemma leader_takes_ack:
  assumes R: "round_ok R" and n: "leader_state R n" "rf_role n = Leader"
  obtains n' where "handle_message E (ack R p) now n = Inr n'" and "leader_state R n'" and "rf_role n' = Leader"
    and "settled (rd_log R) n'" and "matched R n' p" and "\<forall>q. matched R n q \<longrightarrow> matched R n' q"
proof -
  let ?r = "\<lparr>ar_term = 1, ar_follower_id = p, ar_success = True, ar_match_index = length (rd_log R) - 1\<rparr>"
  have "leads_with 1 (rd_log R) n" "commit_index n < length (rd_log R)" "commands_only (rd_log R)" "distinct (rf_peers n)"
    "le_term (last (rd_log R)) = 1 \<or> commit_index n = length (rd_log R) - 1"
    using R n by (simp_all add: leads_with_def leader_state_def round_ok_def)
  from ack_heard [OF this, of ?r p E now] obtain n' where n': "handle_message E (MAppendEntriesResponse ?r) now n = Inr n'"
    "leads_with 1 (rd_log R) n'" "rf_peers n' = rf_peers n"
    "map_of (match_index n') = (map_of (match_index n))(p \<mapsto> length (rd_log R) - 1)"
    "map_of (next_index n') = (map_of (next_index n))(p \<mapsto> length (rd_log R))" "settled (rd_log R) n'"
    "commit_index n' < length (rd_log R)" "commit_index n = length (rd_log R) - 1 \<longrightarrow> commit_index n' = length (rd_log R) - 1" "rf_id n' = rf_id n"
    "pending_requests n = [] \<longrightarrow> pending_requests n' = [] \<and> rf_outbox n' = rf_outbox n" by auto
  then show thesis
    using n by (intro that [of n']) (auto simp: ack_def leader_state_def leads_with_def matched_def)
qed

lemma init_peers_posts:
  assumes "rf_log n \<noteq> []"
  shows "\<exists>n'. init_peers ps n = Inr n' \<and> rf_role n' = rf_role n \<and> current_term n' = current_term n \<and> rf_log n' = rf_log n \<and> rf_id n' = rf_id n \<and>
    rf_peers n' = rf_peers n \<and> commit_index n' = commit_index n \<and> pending_requests n' = pending_requests n \<and>
    rf_outbox n' = rf_outbox n @ map (\<lambda>p. (p, MAppendEntries \<lparr>ae_term = current_term n, ae_leader_id = rf_id n, ae_prev_log_index = length (rf_log n) - 1,
      ae_prev_log_term = le_term (rf_log n ! (length (rf_log n) - 1)), ae_entries = [], ae_leader_commit = commit_index n\<rparr>)) ps"
  using assms
proof (induction ps arbitrary: n)
  case (Cons p ps)
  let ?m = "n\<lparr>next_index := AList.update p (length (rf_log n)) (next_index n), match_index := AList.update p 0 (match_index n)\<rparr>"
  let ?a = "\<lparr>ae_term = current_term n, ae_leader_id = rf_id n, ae_prev_log_index = length (rf_log n) - 1,
      ae_prev_log_term = le_term (rf_log n ! (length (rf_log n) - 1)), ae_entries = [], ae_leader_commit = commit_index n\<rparr>"
  have "make_append_entries p ?m = Inr ?a" using Cons.prems by (simp add: make_append_entries_def map_of_update)
  then have "init_peers (p # ps) n = init_peers ps (push_outbox p (MAppendEntries ?a) ?m)" by (simp add: send_append_entries_def)
  with Cons.IH [of "push_outbox p (MAppendEntries ?a) ?m"] Cons.prems show ?case by (simp add: push_outbox_def)
qed simp

lemma leader_starts:
  assumes R: "round_ok R" "rd_next R = length (rd_log R)" and n: "leader_state R n" "commit_index n = rd_commit R"
  obtains n' where "become_leader now n = Inr n'" and "leader_state R (n'\<lparr>rf_outbox := []\<rparr>)" and "rf_role n' = Leader"
    and "rf_outbox n' = map (\<lambda>p. (p, entries R)) (rd_peers R)"
proof -
  have "rf_log (n\<lparr>rf_role := Leader, leader_id := Some (rf_id n)\<rparr>) \<noteq> []" using R n by (auto simp: leader_state_def round_ok_def)
  from init_peers_posts [OF this, of "rf_peers n"] n R(2) show thesis
    by (auto simp: become_leader_def leader_state_def entries_def intro: that)
qed

lemma candidate_takes_vote:
  assumes R: "round_ok R" "rd_next R = length (rd_log R)" and n: "leader_state R n" "commit_index n = rd_commit R" "campaigns vs n"
  obtains n' where "handle_message E (vote p) now n = Inr n'" and "leader_state R (n'\<lparr>rf_outbox := []\<rparr>)"
    and "campaigns (List.insert p vs) n' \<and> commit_index n' = rd_commit R \<and> rf_outbox n' = [] \<or>
      rf_role n' = Leader \<and> rf_outbox n' = map (\<lambda>p. (p, entries R)) (rd_peers R)"
proof -
  let ?n = "n\<lparr>votes_received := List.insert p vs\<rparr>"
  have run: "handle_message E (vote p) now n = (if length (List.insert p vs) \<ge> majority n then become_leader now ?n else Inr ?n)"
    using n by (simp add: handle_message_def vote_def handle_vote_response_def campaigns_def leader_state_def Let_def majority_def)
  have n': "leader_state R ?n" "commit_index ?n = rd_commit R" using n by (simp_all add: leader_state_def)
  show thesis
  proof (cases "length (List.insert p vs) \<ge> majority n")
    case True
    from leader_starts [OF R n', of now] run True that show thesis by metis
  next
    case False
    with run n n' show thesis by (intro that [of ?n]) (simp_all add: leader_state_def campaigns_def majority_def)
  qed
qed

lemma leader_ignores_vote:
  "leader_state R n \<Longrightarrow> rf_role n = Leader \<Longrightarrow> handle_message E (vote p) now n = Inr n"
  by (simp add: handle_message_def vote_def handle_vote_response_def leader_state_def)

section \<open>The invariant of a round\<close>

definition first_round :: "round \<Rightarrow> bool" where
  "first_round R \<longleftrightarrow> (\<exists>e. rd_log R = [e] \<and> le_term e = 0) \<and> rd_next R = 1"

definition voting :: "round \<Rightarrow> node_id list \<Rightarrow> post \<Rightarrow> bool" where
  "voting R vs B \<longleftrightarrow>
     (\<forall>x \<in># B. \<exists>p \<in> set (rd_peers R). x = (p, ask R) \<or> x = (rd_leader R, vote p)) \<and>
     (\<forall>p \<in> set (rd_peers R). (p, ask R) \<in># B \<or> (rd_leader R, vote p) \<in># B \<or> p \<in> set vs)"

definition replicating :: "round \<Rightarrow> (node_id \<rightharpoonup> raft_node) \<Rightarrow> raft_node \<Rightarrow> post \<Rightarrow> bool" where
  "replicating R N n B \<longleftrightarrow>
     (\<forall>x \<in># B. \<exists>p \<in> set (rd_peers R). x = (p, ask R) \<or> x = (rd_leader R, vote p) \<or> x = (p, entries R) \<or>
        x = (rd_leader R, ack R p) \<and> has_entries R (the (N p))) \<and>
     (\<forall>p \<in> set (rd_peers R). (p, entries R) \<in># B \<or> (rd_leader R, ack R p) \<in># B \<or> matched R n p \<and> has_entries R (the (N p))) \<and>
     (settled (rd_log R) n \<or> (\<exists>p. (p, entries R) \<in># B \<or> (rd_leader R, ack R p) \<in># B))"

definition candidate_or_leader :: "round \<Rightarrow> (node_id \<rightharpoonup> raft_node) \<Rightarrow> post \<Rightarrow> raft_node \<Rightarrow> bool" where
  "candidate_or_leader R N B n \<longleftrightarrow> leader_state R n \<and>
     (first_round R \<and> commit_index n = rd_commit R \<and> (\<exists>vs. campaigns vs n \<and> rd_leader R \<in> set vs \<and> voting R vs B) \<or>
      rf_role n = Leader \<and> replicating R N n B)"

definition round_inv :: "round \<Rightarrow> (node_id \<rightharpoonup> raft_node) \<Rightarrow> post \<Rightarrow> bool" where
  "round_inv R N B \<longleftrightarrow> round_ok R \<and> (\<forall>p \<in> set (rd_peers R). \<exists>n. N p = Some n \<and> peer_state R p n) \<and>
     (\<exists>n. N (rd_leader R) = Some n \<and> candidate_or_leader R N B n) \<and> (\<forall>p. (p, ask R) \<in># B \<longrightarrow> first_round R)"

fun message_weight :: "message \<Rightarrow> nat" where
  "message_weight (MRequestVote _) = 2"
| "message_weight (MRequestVoteResponse _) = 1"
| "message_weight (MAppendEntries _) = 2"
| "message_weight (MAppendEntriesResponse _) = 1"
| "message_weight _ = 0"

definition post_weight :: "post \<Rightarrow> nat" where
  "post_weight B = sum_mset (image_mset (\<lambda>x. message_weight (snd x)) B)"

definition round_weight :: "round \<Rightarrow> (node_id \<rightharpoonup> raft_node) \<Rightarrow> post \<Rightarrow> nat" where
  "round_weight R N B = post_weight B + (if rf_role (the (N (rd_leader R))) = Leader then 0 else 2 * length (rd_peers R))"

lemma message_simps [simp]:
  "ask R \<noteq> vote p" "ask R \<noteq> entries R" "ask R \<noteq> ack R p" "vote p \<noteq> ask R" "vote p \<noteq> entries R" "vote p \<noteq> ack R q"
  "entries R \<noteq> ask R" "entries R \<noteq> vote p" "entries R \<noteq> ack R p" "ack R p \<noteq> ask R" "ack R p \<noteq> vote q" "ack R p \<noteq> entries R"
  "vote p = vote q \<longleftrightarrow> p = q" "ack R p = ack R q \<longleftrightarrow> p = q"
  "message_weight (ask R) = 2" "message_weight (vote p) = 1" "message_weight (entries R) = 2" "message_weight (ack R p) = 1"
  "ask R \<noteq> MTimeout" "vote p \<noteq> MTimeout" "entries R \<noteq> MTimeout" "ack R p \<noteq> MTimeout" "MTimeout \<noteq> entries R"
  by (simp_all add: ask_def vote_def entries_def ack_def)

lemma post_weight_simps [simp]:
  "post_weight {#} = 0" "post_weight (add_mset x B) = message_weight (snd x) + post_weight B" "post_weight (B + C) = post_weight B + post_weight C"
  by (simp_all add: post_weight_def)

lemma post_weight_all: "post_weight (mset (map (\<lambda>p. (p, m)) ps)) = message_weight m * length ps"
  by (induction ps) simp_all

lemma post_weight_take: "x \<in># B \<Longrightarrow> post_weight B = message_weight (snd x) + post_weight (B - {#x#})"
  by (metis insert_DiffM post_weight_simps(2))

lemma post_keeps: "y \<in># B \<Longrightarrow> y \<noteq> x \<Longrightarrow> y \<in># B - {#x#} + C"
  by (metis in_diff_count count_single not_gr0 gr0I union_iff zero_less_diff diff_zero count_greater_zero_iff)

lemma has_entries_outbox [simp]: "has_entries R (n\<lparr>rf_outbox := x\<rparr>) = has_entries R n"
  by (simp add: has_entries_def)

lemma round_invD:
  assumes "round_inv R N B"
  shows "round_ok R" and "p \<in> set (rd_peers R) \<Longrightarrow> \<exists>n. N p = Some n \<and> peer_state R p n"
    and "\<exists>n. N (rd_leader R) = Some n \<and> candidate_or_leader R N B n" and "(p, ask R) \<in># B \<Longrightarrow> first_round R"
    and "p \<in> set (rd_peers R) \<Longrightarrow> p \<noteq> rd_leader R"
  using assms by (auto simp: round_inv_def round_ok_def)

abbreviation deliver_to :: "node_id \<Rightarrow> raft_node \<Rightarrow> (node_id \<rightharpoonup> raft_node) \<Rightarrow> node_id \<rightharpoonup> raft_node" where
  "deliver_to to n N \<equiv> N(to \<mapsto> n\<lparr>rf_outbox := []\<rparr>)"

abbreviation post_after :: "node_id \<Rightarrow> message \<Rightarrow> raft_node \<Rightarrow> post \<Rightarrow> post" where
  "post_after to m n B \<equiv> B - {#(to, m)#} + mset (rf_outbox n)"

text \<open>A peer that gets a message answers with one that weighs less.\<close>

lemma peer_delivery:
  assumes inv: "round_inv R N B" and p: "p \<in> set (rd_peers R)" and m: "(p, m) \<in># B" and n: "N p = Some n"
    and n': "rf_outbox n' = [(rd_leader R, r)]" "peer_state R p (n'\<lparr>rf_outbox := []\<rparr>)" "has_entries R n \<longrightarrow> has_entries R n'"
    and r: "m = ask R \<and> r = vote p \<or> m = entries R \<and> r = ack R p \<and> has_entries R n'"
  shows "round_inv R (deliver_to p n' N) (post_after p m n' B)"
    and "round_weight R (deliver_to p n' N) (post_after p m n' B) < round_weight R N B"
proof -
  let ?N = "deliver_to p n' N" and ?B = "post_after p m n' B"
  note D = round_invD [OF inv]
  have pl: "p \<noteq> rd_leader R" by (rule D(5) [OF p])
  have B: "?B = B - {#(p, m)#} + {#(rd_leader R, r)#}" using n'(1) by simp
  have keep: "y \<in># ?B" if "y \<in># B" "y \<noteq> (p, m)" for y using post_keeps [OF that] .
  have from_B: "y \<in># B \<or> y = (rd_leader R, r)" if "y \<in># ?B" for y using that in_diffD unfolding B by fastforce
  have has: "has_entries R (the (?N q))" if "has_entries R (the (N q))" for q using that n n'(3) by auto
  have out: "(rd_leader R, r) \<in># ?B" by (simp add: B)
  obtain l where l: "N (rd_leader R) = Some l" "candidate_or_leader R N B l" using D(3) by blast
  have "candidate_or_leader R ?N ?B l"
    using l(2) unfolding candidate_or_leader_def
  proof (elim conjE disjE exE, goal_cases)
    case (1 vs)
    then have "m = ask R" using m pl unfolding voting_def by fastforce
    with r have r': "m = ask R" "r = vote p" by auto
    have "\<exists>q \<in> set (rd_peers R). x = (q, ask R) \<or> x = (rd_leader R, vote q)" if "x \<in># ?B" for x
      using from_B [OF that] 1 p r' unfolding voting_def by auto
    moreover have "(q, ask R) \<in># ?B \<or> (rd_leader R, vote q) \<in># ?B \<or> q \<in> set vs" if "q \<in> set (rd_peers R)" for q
      using 1 that keep [of "(q, ask R)"] keep [of "(rd_leader R, vote q)"] out r' pl unfolding voting_def by (cases "q = p") auto
    ultimately have "voting R vs ?B" unfolding voting_def by blast
    with 1 show ?case by blast
  next
    case 2
    note old = 2(3) [unfolded replicating_def]
    have "\<exists>q \<in> set (rd_peers R). x = (q, ask R) \<or> x = (rd_leader R, vote q) \<or> x = (q, entries R) \<or>
        x = (rd_leader R, ack R q) \<and> has_entries R (the (?N q))" if "x \<in># ?B" for x
    proof (cases "x \<in># B")
      case True
      with old has show ?thesis by blast
    next
      case False
      with from_B [OF that] r p show ?thesis by fastforce
    qed
    moreover have "(q, entries R) \<in># ?B \<or> (rd_leader R, ack R q) \<in># ?B \<or> matched R l q \<and> has_entries R (the (?N q))"
      if "q \<in> set (rd_peers R)" for q
      using old that keep [of "(q, entries R)"] keep [of "(rd_leader R, ack R q)"] out r pl has [of q] by (cases "q = p") auto
    moreover have "settled (rd_log R) l \<or> (\<exists>q. (q, entries R) \<in># ?B \<or> (rd_leader R, ack R q) \<in># ?B)"
      using old keep out r pl by (metis message_simps(7,9) prod.inject)
    ultimately have "replicating R ?N l ?B" unfolding replicating_def by blast
    with 2 show ?case by blast
  qed
  moreover have "\<exists>n. ?N q = Some n \<and> peer_state R q n" if "q \<in> set (rd_peers R)" for q
    using D(2) [OF that] n'(2) by (cases "q = p") auto
  moreover have "first_round R" if "(q, ask R) \<in># ?B" for q using from_B [OF that] D(4) m r by auto
  ultimately show "round_inv R ?N ?B" using l(1) D(1) pl unfolding round_inv_def by auto
  show "round_weight R ?N ?B < round_weight R N B"
    using post_weight_take [OF m] r pl by (auto simp: round_weight_def B)
qed

text \<open>The leader gets a message.\<close>

lemma leader_delivery:
  assumes inv: "round_inv R N B" and m: "(rd_leader R, m) \<in># B" "\<forall>p. m \<noteq> ask R" and n': "candidate_or_leader R (deliver_to (rd_leader R) n' N) (post_after (rd_leader R) m n' B) (n'\<lparr>rf_outbox := []\<rparr>)"
    and out: "\<forall>x \<in> set (rf_outbox n'). snd x \<noteq> ask R"
  shows "round_inv R (deliver_to (rd_leader R) n' N) (post_after (rd_leader R) m n' B)"
proof -
  note D = round_invD [OF inv]
  have "first_round R" if "(q, ask R) \<in># post_after (rd_leader R) m n' B" for q
    using that out D(4) by (auto dest: in_diffD)
  moreover have "\<exists>n. deliver_to (rd_leader R) n' N q = Some n \<and> peer_state R q n" if "q \<in> set (rd_peers R)" for q
    using D(2,5) [OF that] by auto
  ultimately show ?thesis using D(1) n' unfolding round_inv_def by auto
qed

lemma replicating_mono:
  assumes "replicating R N n B" and "\<And>y. y \<in># B' \<Longrightarrow> y \<in># B" and "\<And>q. (q, entries R) \<in># B \<Longrightarrow> (q, entries R) \<in># B'"
    and "\<And>q. (rd_leader R, ack R q) \<in># B \<Longrightarrow> (rd_leader R, ack R q) \<in># B'"
  shows "replicating R N n B'"
  using assms unfolding replicating_def by blast

lemma vote_delivery:
  assumes inv: "round_inv R N B" and p: "p \<in> set (rd_peers R)" and m: "(rd_leader R, vote p) \<in># B"
  shows "\<exists>n n'. N (rd_leader R) = Some n \<and> handle_message E (vote p) now n = Inr n' \<and> no_timeouts n' \<and>
    round_inv R (deliver_to (rd_leader R) n' N) (post_after (rd_leader R) (vote p) n' B) \<and>
    round_weight R (deliver_to (rd_leader R) n' N) (post_after (rd_leader R) (vote p) n' B) < round_weight R N B"
proof -
  let ?l = "rd_leader R" and ?B = "B - {#(rd_leader R, vote p)#}"
  note D = round_invD [OF inv]
  obtain n where n: "N ?l = Some n" "leader_state R n" "candidate_or_leader R N B n" using D(3) unfolding candidate_or_leader_def by blast
  have sub: "y \<in># B" if "y \<in># ?B" for y using that by (rule in_diffD)
  have keep: "y \<in># ?B" if "y \<in># B" "y \<noteq> (?l, vote p)" for y using post_keeps [OF that, of "{#}"] by simp
  have w: "post_weight B = 1 + post_weight ?B" using post_weight_take [OF m] by simp
  show ?thesis
  proof (cases "rf_role n = Leader")
    case True
    then have "replicating R N n B" using n(3) by (auto simp: candidate_or_leader_def campaigns_def)
    then have "replicating R N n ?B" by (rule replicating_mono) (auto intro: sub keep)
    moreover have same: "n\<lparr>rf_outbox := []\<rparr> = n" "N(?l \<mapsto> n) = N" "rf_outbox n = []"
      using n(1,2) by (simp_all add: leader_state_def fun_upd_idem)
    ultimately have "candidate_or_leader R (deliver_to ?l n N) (post_after ?l (vote p) n B) (n\<lparr>rf_outbox := []\<rparr>)"
      unfolding same using n(2) True by (simp add: candidate_or_leader_def)
    from leader_delivery [OF inv m _ this] leader_ignores_vote [OF n(2) True, of E p now] n(1,2) w True show ?thesis
      by (intro exI [of _ n]) (simp add: leader_state_def no_timeouts_def round_weight_def)
  next
    case False
    then obtain vs where c: "first_round R" "commit_index n = rd_commit R" "campaigns vs n" "?l \<in> set vs" "voting R vs B"
      using n(3) by (auto simp: candidate_or_leader_def)
    have R: "rd_next R = length (rd_log R)" using c(1) by (auto simp: first_round_def)
    obtain n' where n': "handle_message E (vote p) now n = Inr n'" "leader_state R (n'\<lparr>rf_outbox := []\<rparr>)"
      and alt: "campaigns (List.insert p vs) n' \<and> commit_index n' = rd_commit R \<and> rf_outbox n' = [] \<or>
        rf_role n' = Leader \<and> rf_outbox n' = map (\<lambda>p. (p, entries R)) (rd_peers R)"
      by (rule candidate_takes_vote [OF D(1) R n(2) c(2,3)])
    have votes: "\<exists>q \<in> set (rd_peers R). x = (q, ask R) \<or> x = (?l, vote q)" if "x \<in># ?B" for x
      using c(5) sub [OF that] unfolding voting_def by blast
    have "candidate_or_leader R (deliver_to ?l n' N) (post_after ?l (vote p) n' B) (n'\<lparr>rf_outbox := []\<rparr>)"
      using alt
    proof
      assume a: "campaigns (List.insert p vs) n' \<and> commit_index n' = rd_commit R \<and> rf_outbox n' = []"
      have "(q, ask R) \<in># ?B \<or> (?l, vote q) \<in># ?B \<or> q \<in> set (List.insert p vs)" if "q \<in> set (rd_peers R)" for q
        using c(5) that keep [of "(q, ask R)"] keep [of "(?l, vote q)"] unfolding voting_def by (cases "q = p") auto
      then have "voting R (List.insert p vs) ?B" using votes unfolding voting_def by blast
      with a c(1,4) n'(2) show ?thesis by (auto simp: candidate_or_leader_def campaigns_def majority_def)
    next
      assume a: "rf_role n' = Leader \<and> rf_outbox n' = map (\<lambda>p. (p, entries R)) (rd_peers R)"
      then have "replicating R (deliver_to ?l n' N) (n'\<lparr>rf_outbox := []\<rparr>) (post_after ?l (vote p) n' B)"
        using votes p unfolding replicating_def by fastforce
      with a n'(2) show ?thesis by (simp add: candidate_or_leader_def)
    qed
    moreover have "\<forall>x \<in> set (rf_outbox n'). snd x \<noteq> ask R" "no_timeouts n'" using alt by (auto simp: no_timeouts_def)
    moreover have "round_weight R (deliver_to ?l n' N) (post_after ?l (vote p) n' B) < round_weight R N B"
      using alt n(1) False w by (auto simp: round_weight_def campaigns_def post_weight_all simp del: mset_map)
    ultimately show ?thesis using leader_delivery [OF inv m] n(1) n'(1) by simp
  qed
qed

lemma ack_delivery:
  assumes inv: "round_inv R N B" and p: "p \<in> set (rd_peers R)" and m: "(rd_leader R, ack R p) \<in># B"
  shows "\<exists>n n'. N (rd_leader R) = Some n \<and> handle_message E (ack R p) now n = Inr n' \<and> no_timeouts n' \<and>
    round_inv R (deliver_to (rd_leader R) n' N) (post_after (rd_leader R) (ack R p) n' B) \<and>
    round_weight R (deliver_to (rd_leader R) n' N) (post_after (rd_leader R) (ack R p) n' B) < round_weight R N B"
proof -
  let ?l = "rd_leader R" and ?B = "B - {#(rd_leader R, ack R p)#}"
  note D = round_invD [OF inv]
  obtain n where n: "N ?l = Some n" "leader_state R n" "candidate_or_leader R N B n" using D(3) unfolding candidate_or_leader_def by blast
  have sub: "y \<in># B" if "y \<in># ?B" for y using that by (rule in_diffD)
  have keep: "y \<in># ?B" if "y \<in># B" "y \<noteq> (?l, ack R p)" for y using post_keeps [OF that, of "{#}"] by simp
  have w: "post_weight B = 1 + post_weight ?B" using post_weight_take [OF m] by simp
  have rep: "rf_role n = Leader" "replicating R N n B"
    using n(3) m unfolding candidate_or_leader_def voting_def by fastforce+
  obtain n' where n': "handle_message E (ack R p) now n = Inr n'" "leader_state R n'" "rf_role n' = Leader"
    "settled (rd_log R) n'" "matched R n' p" "\<forall>q. matched R n q \<longrightarrow> matched R n' q"
    by (rule leader_takes_ack [OF D(1) n(2) rep(1)])
  have out: "rf_outbox n' = []" "n'\<lparr>rf_outbox := []\<rparr> = n'" using n'(2) by (simp_all add: leader_state_def)
  have has: "has_entries R (the (N p))" using rep(2) m unfolding replicating_def by fastforce
  have other: "the ((N(?l \<mapsto> n')) q) = the (N q)" if "q \<in> set (rd_peers R)" for q using D(5) [OF that] by simp
  note old = rep(2) [unfolded replicating_def]
  have "\<exists>q \<in> set (rd_peers R). x = (q, ask R) \<or> x = (?l, vote q) \<or> x = (q, entries R) \<or> x = (?l, ack R q) \<and> has_entries R (the ((N(?l \<mapsto> n')) q))"
    if "x \<in># ?B" for x
    using old sub [OF that] other by fastforce
  moreover have "(q, entries R) \<in># ?B \<or> (?l, ack R q) \<in># ?B \<or> matched R n' q \<and> has_entries R (the ((N(?l \<mapsto> n')) q))"
    if q: "q \<in> set (rd_peers R)" for q
    using old q keep [of "(q, entries R)"] keep [of "(?l, ack R q)"] n'(5,6) has other [OF q] by (cases "q = p") auto
  ultimately have "replicating R (N(?l \<mapsto> n')) n' ?B" using n'(4) unfolding replicating_def by blast
  then have "candidate_or_leader R (deliver_to ?l n' N) (post_after ?l (ack R p) n' B) (n'\<lparr>rf_outbox := []\<rparr>)"
    unfolding out using n'(2,3) by (simp add: candidate_or_leader_def)
  from leader_delivery [OF inv m _ this] out(1)
  have "round_inv R (deliver_to ?l n' N) (post_after ?l (ack R p) n' B)" by simp
  moreover have "round_weight R (deliver_to ?l n' N) (post_after ?l (ack R p) n' B) < round_weight R N B" "no_timeouts n'"
    using n(1) n'(3) rep(1) out(1) w by (simp_all add: no_timeouts_def round_weight_def)
  ultimately show ?thesis using n(1) n'(1) by blast
qed

text \<open>Every delivery keeps the invariant.\<close>

lemma round_delivery:
  assumes inv: "round_inv R N B" and m: "(to, m) \<in># B"
  shows "\<exists>n n'. N to = Some n \<and> m \<noteq> MTimeout \<and> handle_message E m now n = Inr n' \<and> no_timeouts n' \<and>
    round_inv R (deliver_to to n' N) (post_after to m n' B) \<and> round_weight R (deliver_to to n' N) (post_after to m n' B) < round_weight R N B"
proof -
  note D = round_invD [OF inv]
  obtain p where p: "p \<in> set (rd_peers R)"
    and cases: "(to, m) = (p, ask R) \<or> (to, m) = (rd_leader R, vote p) \<or> (to, m) = (p, entries R) \<or> (to, m) = (rd_leader R, ack R p)"
    using D(3) m unfolding candidate_or_leader_def voting_def replicating_def by blast
  obtain n where n: "N p = Some n" "peer_state R p n" using D(2) [OF p] by blast
  from cases show ?thesis
  proof (elim disjE)
    assume t: "(to, m) = (p, ask R)"
    with D(4) m obtain e where e: "rd_log R = [e]" "le_term e = 0" "rd_next R = 1" by (auto simp: first_round_def)
    obtain n' where n': "handle_message E (ask R) now n = Inr n'" "rf_outbox n' = [(rd_leader R, vote p)]"
      "peer_state R p (n'\<lparr>rf_outbox := []\<rparr>)" "has_entries R n \<longrightarrow> has_entries R n'" by (rule peer_votes [OF n(2) e])
    from peer_delivery [OF inv p _ n(1) n'(2-4), of "ask R"] m t n(1) n'(1,2) show ?thesis by (auto simp: no_timeouts_def)
  next
    assume t: "(to, m) = (p, entries R)"
    obtain n' where n': "handle_message E (entries R) now n = Inr n'" "rf_outbox n' = [(rd_leader R, ack R p)]"
      "peer_state R p (n'\<lparr>rf_outbox := []\<rparr>)" "has_entries R n'" by (rule peer_takes_entries [OF D(1) n(2)])
    from peer_delivery [OF inv p _ n(1) n'(2,3), of "entries R"] m t n(1) n'(1,2,4) show ?thesis by (auto simp: no_timeouts_def)
  qed (use vote_delivery [OF inv p] ack_delivery [OF inv p] m in auto)
qed

interpretation raft_round: calm_round E "round_inv R" "round_weight R" for E :: "'x raft_ext_scheme" and R :: round
  by unfold_locales (rule round_delivery)

section \<open>The end of a round\<close>

definition round_done :: "round \<Rightarrow> (node_id \<rightharpoonup> raft_node) \<Rightarrow> bool" where
  "round_done R N \<longleftrightarrow> round_ok R \<and>
     (\<exists>n. N (rd_leader R) = Some n \<and> leader_state R n \<and> rf_role n = Leader \<and> commit_index n = length (rd_log R) - 1 \<and>
        length (rd_log R) - 1 \<le> last_applied n \<and> (\<forall>p \<in> set (rd_peers R). matched R n p)) \<and>
     (\<forall>p \<in> set (rd_peers R). \<exists>n. N p = Some n \<and> peer_state R p n \<and> has_entries R n)"

lemma round_ends:
  assumes "round_inv R N {#}"
  shows "round_done R N"
proof -
  note D = round_invD [OF assms]
  obtain n where n: "N (rd_leader R) = Some n" "leader_state R n" "candidate_or_leader R N {#} n"
    using D(3) unfolding candidate_or_leader_def by blast
  have "\<not> campaigns vs n" if "rd_leader R \<in> set vs" "voting R vs {#}" for vs
  proof
    assume c: "campaigns vs n"
    have "set (rd_leader R # rd_peers R) \<subseteq> set vs" using that by (auto simp: voting_def)
    then have "card (set (rd_leader R # rd_peers R)) \<le> card (set vs)" by (intro card_mono) simp_all
    then have "length (rd_leader R # rd_peers R) \<le> length vs"
      using D(1) card_length [of vs] distinct_card [of "rd_leader R # rd_peers R"] by (simp add: round_ok_def)
    moreover have "length vs < (length (rd_peers R) + 1) div 2 + 1" using c n(2) by (simp add: campaigns_def majority_def leader_state_def)
    ultimately show False by simp
  qed
  with n(3) have rep: "rf_role n = Leader" "replicating R N n {#}" by (auto simp: candidate_or_leader_def)
  then have all: "\<forall>p \<in> set (rd_peers R). matched R n p \<and> has_entries R (the (N p))" "settled (rd_log R) n"
    by (auto simp: replicating_def)
  then have "commit_index n = length (rd_log R) - 1 \<and> length (rd_log R) - 1 \<le> last_applied n"
    using n(2) by (simp add: settled_def replicated_def matched_def leader_state_def)
  with n rep(1) all(1) D(1,2) show ?thesis unfolding round_done_def by fastforce
qed

section \<open>Running a round\<close>

lemma outboxes_of_one:
  assumes "distinct ids" and "l \<in> set ids" and "\<forall>i \<in> set ids - {l}. outbox_of s i = []"
  shows "(\<Sum>i \<leftarrow> ids. mset (outbox_of s i)) = mset (outbox_of s l)"
proof -
  have "(\<Sum>i \<leftarrow> ids. mset (outbox_of s i)) = (\<Sum>i \<in> set ids. mset (outbox_of s i))" using assms(1) by (simp add: sum_list_distinct_conv_sum_set)
  also have "\<dots> = mset (outbox_of s l) + (\<Sum>i \<in> set ids - {l}. mset (outbox_of s i))" using assms(2) by (simp add: sum.remove)
  also have "(\<Sum>i \<in> set ids - {l}. mset (outbox_of s i)) = {#}" using assms(3) by (intro sum.neutral) simp
  finally show ?thesis by simp
qed

lemma round_runs:
  assumes calm: "calm s" "set (node_ids s) = insert (rd_leader R) (set (rd_peers R))" and B: "B = posted s + mset (rf_outbox n)"
    and R: "round_ok R" and n: "map_of (sim_nodes s) (rd_leader R) = Some n" "no_timeouts n"
    and peers: "\<forall>p \<in> set (rd_peers R). \<exists>m. map_of (sim_nodes s) p = Some m \<and> peer_state R p m"
    and start: "candidate_or_leader R (cleared (map_of (sim_nodes s))) B (n\<lparr>rf_outbox := []\<rparr>)"
    and ask: "\<forall>p. (p, ask R) \<in># B \<longrightarrow> first_round R"
    and weight: "post_weight B + (if rf_role n = Leader then 0 else 2 * length (rd_peers R)) \<le> 10000"
  shows "\<exists>s'. run_until_idle E s = Inr s' \<and> calm s' \<and> sim_events s' = [] \<and> round_done R (map_of (sim_nodes s')) \<and> node_ids s' = node_ids s"
proof -
  let ?N = "cleared (map_of (sim_nodes s))" and ?B = "posted s + (\<Sum>i \<leftarrow> node_ids s. mset (outbox_of s i))"
  have empty: "outbox_of s i = []" if "i \<in> set (rd_peers R)" for i using peers that by (auto simp: outbox_of_def peer_state_def)
  have B': "?B = B"
    using outboxes_of_one [of "node_ids s" "rd_leader R" s] calm empty n(1) by (auto simp: calm_def outbox_of_def B)
  have "\<exists>m. ?N p = Some m \<and> peer_state R p m" if p: "p \<in> set (rd_peers R)" for p
  proof -
    obtain m where m: "map_of (sim_nodes s) p = Some m" "peer_state R p m" using peers p by blast
    then have "m\<lparr>rf_outbox := []\<rparr> = m" by (simp add: peer_state_def)
    with m show ?thesis by (simp add: cleared_def)
  qed
  moreover have "?N (rd_leader R) = Some (n\<lparr>rf_outbox := []\<rparr>)" using n(1) by (simp add: cleared_def)
  ultimately have inv: "round_inv R ?N ?B" unfolding B' round_inv_def using R start ask by auto
  have w: "round_weight R ?N ?B \<le> 10000" unfolding B' using weight n(1) by (simp add: round_weight_def cleared_def)
  have "no_timeouts m" if m: "m \<in> ran (map_of (sim_nodes s))" for m
  proof -
    obtain i where i: "map_of (sim_nodes s) i = Some m" using m by (auto simp: ran_def)
    then have "i \<in> set (node_ids s)" by (auto simp: dest: map_of_SomeD intro: rev_image_eqI)
    then show ?thesis using calm(2) i n peers by (auto simp: no_timeouts_def peer_state_def)
  qed
  with raft_round.run_ends [OF calm(1) _ inv w] round_ends show ?thesis by blast
qed

definition rested :: "node_id \<Rightarrow> node_id list \<Rightarrow> log_entry list \<Rightarrow> nat \<Rightarrow> simulation \<Rightarrow> bool" where
  "rested l ps L c s \<longleftrightarrow> calm s \<and> sim_events s = [] \<and> set (node_ids s) = insert l (set ps) \<and>
     round_done \<lparr>rd_leader = l, rd_peers = ps, rd_log = L, rd_next = length L, rd_commit = c\<rparr> (map_of (sim_nodes s))"

lemma round_rests:
  assumes "round_done R N"
  shows "round_done (R\<lparr>rd_next := length (rd_log R)\<rparr>) N"
proof -
  have "round_ok (R\<lparr>rd_next := length (rd_log R)\<rparr>)" using assms by (auto simp: round_done_def round_ok_def)
  moreover have "peer_state (R\<lparr>rd_next := length (rd_log R)\<rparr>) p n" "has_entries (R\<lparr>rd_next := length (rd_log R)\<rparr>) n"
    if "peer_state R p n" "has_entries R n" for p n
    using that by (simp_all add: peer_state_def has_entries_def)
  ultimately show ?thesis using assms by (fastforce simp: round_done_def leader_state_def matched_def)
qed

text \<open>What a leader posts when all peers are at the same index.\<close>

lemma send_all_exact:
  assumes "\<forall>p \<in> set ps. map_of (next_index n) p = Some x" and "1 \<le> x" and "x \<le> length (rf_log n)"
  shows "send_all ps n = Inr (n\<lparr>rf_outbox := rf_outbox n @ map (\<lambda>p. (p, MAppendEntries
    \<lparr>ae_term = current_term n, ae_leader_id = rf_id n, ae_prev_log_index = x - 1, ae_prev_log_term = le_term (rf_log n ! (x - 1)),
     ae_entries = drop x (rf_log n), ae_leader_commit = commit_index n\<rparr>)) ps\<rparr>)"
  using assms
proof (induction ps arbitrary: n)
  case (Cons p ps)
  let ?a = "\<lparr>ae_term = current_term n, ae_leader_id = rf_id n, ae_prev_log_index = x - 1, ae_prev_log_term = le_term (rf_log n ! (x - 1)),
     ae_entries = drop x (rf_log n), ae_leader_commit = commit_index n\<rparr>"
  have "send_append_entries p n = Inr (push_outbox p (MAppendEntries ?a) n)"
    using Cons.prems by (simp add: send_append_entries_def make_append_entries_def)
  with Cons.IH [of "push_outbox p (MAppendEntries ?a) n"] Cons.prems show ?case by (simp add: push_outbox_def)
qed simp

text \<open>A leader that acts on its own starts a round.\<close>

lemma leader_acts:
  assumes s: "rested l ps L c s" and n: "map_of (sim_nodes s) l = Some n" and run: "f n = Inr n'"
    and R: "R = \<lparr>rd_leader = l, rd_peers = ps, rd_log = L', rd_next = length L, rd_commit = length L - 1\<rparr>" "round_ok R" "take (length L) L' = L"
    and n': "leader_state R (n'\<lparr>rf_outbox := []\<rparr>)" "rf_role n' = Leader" "rf_outbox n' = map (\<lambda>p. (p, entries R)) ps" "ps = [] \<longrightarrow> settled L' n'"
    and size: "length ps \<le> 5000"
  shows "\<exists>s' s''. sim_index_mut l f s = Inr s' \<and> run_until_idle E s' = Inr s'' \<and> rested l ps L' (length L - 1) s'' \<and> node_ids s'' = node_ids s"
proof -
  let ?s = "s\<lparr>sim_nodes := AList.update l n' (sim_nodes s)\<rparr>"
  have calm: "calm s" "sim_events s = []" "set (node_ids s) = insert l (set ps)"
    and dn: "round_done \<lparr>rd_leader = l, rd_peers = ps, rd_log = L, rd_next = length L, rd_commit = c\<rparr> (map_of (sim_nodes s))"
    using s by (simp_all add: rested_def)
  note set = calm_set_node [OF calm(1) n, of n']
  have lookup: "map_of (sim_nodes ?s) l = Some n'" by (simp add: map_of_update)
  have sel: "rd_leader R = l" "rd_peers R = ps" by (simp_all add: R(1))
  have peers: "\<forall>p \<in> set (rd_peers R). \<exists>m. map_of (sim_nodes ?s) p = Some m \<and> peer_state R p m"
    using dn R by (fastforce simp: round_done_def round_ok_def map_of_update peer_state_def has_entries_def)
  have "replicating R N (n'\<lparr>rf_outbox := []\<rparr>) (mset (rf_outbox n'))" for N
    using n'(3,4) R(1) by (cases ps) (auto simp: replicating_def settled_def replicated_def)
  then have start: "candidate_or_leader R N (mset (rf_outbox n')) (n'\<lparr>rf_outbox := []\<rparr>)" for N
    using n'(1,2) by (simp add: candidate_or_leader_def)
  have post: "no_timeouts n'" "\<forall>p. (p, ask R) \<in> set (rf_outbox n') \<longrightarrow> first_round R" using n'(3) by (auto simp: no_timeouts_def)
  have weight: "post_weight (mset (rf_outbox n')) + (if rf_role n' = Leader then 0 else 2 * length (rd_peers R)) \<le> 10000"
    using n'(2,3) size by (simp add: post_weight_all del: mset_map)
  have start1: "calm ?s" "sim_events ?s = []" "set (node_ids ?s) = insert (rd_leader R) (set (rd_peers R))" "map_of (sim_nodes ?s) (rd_leader R) = Some n'"
    using set calm lookup unfolding sel by simp_all
  obtain s' where s': "run_until_idle E ?s = Inr s'" "calm s'" "sim_events s' = []" "round_done R (map_of (sim_nodes s'))" "node_ids s' = node_ids ?s"
    using round_runs [where B = "mset (rf_outbox n')", OF start1(1,3) _ R(2) start1(4) post(1) peers start _ weight, of E] start1(2) post(2)
    by (auto simp: posted_def)
  have "sim_index_mut l f s = Inr ?s" using n run by (simp add: sim_index_mut_def)
  moreover have "rested l ps L' (length L - 1) s'"
    using s' set(2) calm(3) round_rests [OF s'(4)] by (simp add: rested_def R(1))
  ultimately show ?thesis using s'(1,5) set(2) by auto
qed

lemma rested_leader:
  assumes "rested l ps L c s"
  obtains n where "map_of (sim_nodes s) l = Some n" and "rf_role n = Leader" and "rf_id n = l" and "rf_peers n = ps" and "current_term n = 1" and "rf_log n = L"
    and "rf_outbox n = []" and "pending_requests n = []" and "commit_index n = length L - 1" and "length L - 1 \<le> last_applied n"
    and "\<forall>p \<in> set ps. map_of (next_index n) p = Some (length L)" and "L \<noteq> []" and "commands_only L" and "distinct ps" and "l \<notin> set ps"
proof -
  let ?R = "\<lparr>rd_leader = l, rd_peers = ps, rd_log = L, rd_next = length L, rd_commit = c\<rparr>"
  obtain n where n: "map_of (sim_nodes s) l = Some n" "leader_state ?R n" "rf_role n = Leader" "commit_index n = length L - 1" "length L - 1 \<le> last_applied n"
    "\<forall>p \<in> set ps. matched ?R n p" and R: "round_ok ?R"
    using assms by (auto simp: rested_def round_done_def)
  have "L \<noteq> []" using R by (auto simp: round_ok_def)
  with n R show thesis by (intro that [of n]) (simp_all add: leader_state_def matched_def round_ok_def)
qed

lemma beat_round:
  assumes s: "rested l ps L c s" and size: "length ps \<le> 5000"
  shows "\<exists>s' s''. sim_index_mut l send_heartbeats s = Inr s' \<and> run_until_idle E s' = Inr s'' \<and> rested l ps L (length L - 1) s'' \<and> node_ids s'' = node_ids s"
proof -
  obtain n where n: "map_of (sim_nodes s) l = Some n" "rf_role n = Leader" "rf_id n = l" "rf_peers n = ps" "current_term n = 1" "rf_log n = L"
    "rf_outbox n = []" "pending_requests n = []" "commit_index n = length L - 1" "length L - 1 \<le> last_applied n"
    "\<forall>p \<in> set ps. map_of (next_index n) p = Some (length L)" "L \<noteq> []" "commands_only L" "distinct ps" "l \<notin> set ps"
    by (rule rested_leader [OF s])
  define R where "R = \<lparr>rd_leader = l, rd_peers = ps, rd_log = L, rd_next = length L, rd_commit = length L - 1\<rparr>"
  have "1 \<le> length L" using n(12) by (simp add: Suc_le_eq)
  then have run: "send_heartbeats n = Inr (n\<lparr>rf_outbox := map (\<lambda>p. (p, entries R)) ps\<rparr>)"
    using send_all_exact [of ps n "length L"] n by (simp add: send_heartbeats_def entries_def R_def)
  show ?thesis
    by (rule leader_acts [where f = send_heartbeats, OF s n(1) run R_def _ _ _ _ _ _ size])
      (use n in \<open>simp_all add: R_def round_ok_def leader_state_def settled_def Suc_le_eq\<close>)
qed

lemma command_round:
  assumes s: "rested l ps L c s" and size: "length ps \<le> 5000"
  shows "\<exists>s' s''. sim_index_mut l (\<lambda>n. and_then (append_command E cmd n) (\<lambda>(n, _). Inr n)) s = Inr s' \<and> run_until_idle E s' = Inr s'' \<and>
    rested l ps (L @ [\<lparr>le_term = 1, le_payload = PCommand (log_record_new E 0 cmd)\<rparr>]) (length L - 1) s'' \<and> node_ids s'' = node_ids s"
proof -
  obtain n where n: "map_of (sim_nodes s) l = Some n" "rf_role n = Leader" "rf_id n = l" "rf_peers n = ps" "current_term n = 1" "rf_log n = L"
    "rf_outbox n = []" "pending_requests n = []" "commit_index n = length L - 1" "length L - 1 \<le> last_applied n"
    "\<forall>p \<in> set ps. map_of (next_index n) p = Some (length L)" "L \<noteq> []" "commands_only L" "distinct ps" "l \<notin> set ps"
    by (rule rested_leader [OF s])
  define e where "e = \<lparr>le_term = 1, le_payload = PCommand (log_record_new E 0 cmd)\<rparr>"
  define R where "R = \<lparr>rd_leader = l, rd_peers = ps, rd_log = L @ [e], rd_next = length L, rd_commit = length L - 1\<rparr>"
  have len: "1 \<le> length L" using n(12) by (simp add: Suc_le_eq)
  have ok: "round_ok R" using n len by (auto simp: round_ok_def R_def commands_only_def e_def)
  let ?n = "push_log_entry E e n"
  have pushed: "rf_role ?n = Leader" "rf_id ?n = l" "rf_peers ?n = ps" "current_term ?n = 1" "rf_log ?n = L @ [e]" "rf_outbox ?n = []"
    "pending_requests ?n = []" "commit_index ?n = length L - 1" "next_index ?n = next_index n"
    using n by (simp_all add: push_log_entry_def)
  have command: "append_command E cmd n = and_then (if ps = [] then update_commit_index E ?n else send_all ps ?n) (\<lambda>n. Inr (n, length L))"
    using n pushed(3) by (simp add: append_command_def Let_def e_def)
  obtain n' where n': "append_command E cmd n = Inr (n', length L)" "leader_state R (n'\<lparr>rf_outbox := []\<rparr>)" "rf_role n' = Leader"
    "rf_outbox n' = map (\<lambda>p. (p, entries R)) ps" "ps = [] \<longrightarrow> settled (L @ [e]) n'"
  proof (cases "ps = []")
    case True
    have commit: "commit_index ?n < length (rf_log ?n)" using pushed len by simp
    obtain n' where run: "update_commit_index E ?n = Inr n'" using update_commit_returns [OF commit] by blast
    have "commands_only (rf_log ?n)" "leads_with 1 (L @ [e]) ?n" "le_term (last (L @ [e])) = 1 \<or> commit_index ?n = length (L @ [e]) - 1" "distinct (rf_peers ?n)"
      using n(13,14) pushed by (auto simp: commands_only_def leads_with_def e_def)
    from replicated_commits [OF run this(1) commit this(2-4)] pushed True command run show thesis
      by (intro that [of n']) (simp_all add: leads_with_def same_indexes_def leader_state_def R_def e_def)
  next
    case False
    have "send_all ps ?n = Inr (?n\<lparr>rf_outbox := map (\<lambda>p. (p, entries R)) ps\<rparr>)"
      using send_all_exact [of ps ?n "length L"] n(11) pushed len by (simp add: entries_def R_def)
    with False command pushed len show thesis
      by (intro that [of "?n\<lparr>rf_outbox := map (\<lambda>p. (p, entries R)) ps\<rparr>"]) (simp_all add: leader_state_def R_def e_def)
  qed
  have "and_then (append_command E cmd n) (\<lambda>(n, _). Inr n) = Inr n'" using n'(1) by simp
  from leader_acts [OF s n(1), of "\<lambda>n. and_then (append_command E cmd n) (\<lambda>(n, _). Inr n)", OF this R_def ok _ n'(2-5) size] show ?thesis
    by (simp add: e_def)
qed

section \<open>A new cluster\<close>

definition new_state :: "'x raft_ext_scheme \<Rightarrow> node_id \<Rightarrow> node_id list \<Rightarrow> raft_node \<Rightarrow> bool" where
  "new_state E i ps n \<longleftrightarrow> rf_id n = i \<and> rf_peers n = ps \<and> current_term n = 0 \<and> voted_for n = None \<and> rf_log n = [dummy_entry E] \<and>
     commit_index n = 0 \<and> rf_outbox n = [] \<and> pending_requests n = []"

lemma new_node_state:
  assumes "bloom_sizing_ok E" and "0 < cfg_sstable_level cfg"
  shows "\<exists>n. new_in_dir E [] i ps cfg now rand = Inr n \<and> new_state E i ps n"
proof -
  obtain db where db: "open_in_dir E [] cfg = Inr db" by (rule Database.open_empty [OF assms])
  have ls: "log_store_open E [] = (\<lparr>ls_file = [], ls_offsets = []\<rparr>, [])" by (simp add: log_store_open_def open_loop.simps read_short)
  have meta: "meta_open [] = meta_default" by (simp add: meta_open_def META_SIZE_def read_exact_def)
  show ?thesis
    by (simp add: new_in_dir_def file_or_empty_def ls meta meta_default_def db new_state_def)
qed

lemma new_nodes_state:
  assumes "bloom_sizing_ok E"
  shows "\<exists>nodes. make_nodes E started rand all ids = Inr nodes \<and> map fst nodes = ids \<and>
    (\<forall>(i, n) \<in> set nodes. new_state E i (filter (\<lambda>j. j \<noteq> i) all) n)"
proof (induction ids)
  case (Cons i ids)
  have "0 < cfg_sstable_level config_default" by (simp add: config_default_def)
  from new_node_state [OF assms this, of i "filter (\<lambda>j. j \<noteq> i) all" "started i" "rand i"] Cons show ?case by auto
qed simp

lemma new_cluster_state:
  assumes "bloom_sizing_ok E" and "sorted ids" and "distinct ids" and fits: "\<forall>i \<in> set ids. 150 + unat i * 50 < 2 ^ 64"
  shows "\<exists>s. new_cluster E started now rand ids = Inr s \<and> calm s \<and> sim_events s = [] \<and> node_ids s = ids \<and>
    (\<forall>i \<in> set ids. \<exists>n. map_of (sim_nodes s) i = Some n \<and> new_state E i (filter (\<lambda>j. j \<noteq> i) ids) n)"
proof -
  obtain nodes where nodes: "make_nodes E started rand ids ids = Inr nodes" "map fst nodes = ids"
    "\<forall>(i, n) \<in> set nodes. new_state E i (filter (\<lambda>j. j \<noteq> i) ids) n" using new_nodes_state [OF assms(1)] by blast
  let ?f = "\<lambda>(i, n). (i, set_election_timeout (150 + unat i * 50) now n)"
  have ids: "sort (remdups ids) = ids" using assms(2,3) by (simp add: distinct_remdups_id sorted_sort_id)
  have keys: "map fst (map ?f nodes) = ids" using nodes(2) by (simp add: comp_def case_prod_beta)
  have "\<exists>n. map_of (map ?f nodes) i = Some n \<and> new_state E i (filter (\<lambda>j. j \<noteq> i) ids) n" if i: "i \<in> set ids" for i
  proof -
    obtain n where n: "(i, n) \<in> set nodes" using i nodes(2) by force
    then have "(i, set_election_timeout (150 + unat i * 50) now n) \<in> set (map ?f nodes)" by force
    moreover have "distinct (map fst (map ?f nodes))" using keys assms(3) by simp
    ultimately have "map_of (map ?f nodes) i = Some (set_election_timeout (150 + unat i * 50) now n)"
      by (rule map_of_is_SomeI [rotated])
    moreover have "new_state E i (filter (\<lambda>j. j \<noteq> i) ids) n" using nodes(3) n by auto
    ultimately show ?thesis by (simp add: new_state_def set_election_timeout_def)
  qed
  moreover have "set_timeouts now nodes = Inr (map ?f nodes)" by (rule set_timeouts_returns) (unfold nodes(2), rule fits)
  then have "new_cluster E started now rand ids = Inr (simulation_new now (map ?f nodes))"
    unfolding new_cluster_def ids nodes(1) by simp
  moreover have "calm (simulation_new now (map ?f nodes))" using keys assms(3) by (simp only: calm_def simulation_new_def simulation.select_convs simp_thms)
  moreover have "sim_events (simulation_new now (map ?f nodes)) = []" "sim_nodes (simulation_new now (map ?f nodes)) = map ?f nodes"
    by (simp_all add: simulation_new_def)
  ultimately show ?thesis using keys by (intro exI [of _ "simulation_new now (map ?f nodes)"]) (simp only: simp_thms, blast)
qed

text \<open>The node that starts the first election leads at once when it is alone, and asks all peers otherwise.\<close>

lemma first_election:
  assumes n: "new_state E l ps n" and ps: "distinct ps" "l \<notin> set ps" "length ps \<le> 2500"
    and R: "R = \<lparr>rd_leader = l, rd_peers = ps, rd_log = [dummy_entry E], rd_next = 1, rd_commit = 0\<rparr>"
  obtains n' where "start_election now n = Inr n'" and "no_timeouts n'" and "\<forall>N. candidate_or_leader R N (mset (rf_outbox n')) (n'\<lparr>rf_outbox := []\<rparr>)"
    and "post_weight (mset (rf_outbox n')) + (if rf_role n' = Leader then 0 else 2 * length ps) \<le> 10000"
proof -
  have ok: "round_ok R" using ps by (simp add: R round_ok_def commands_only_def dummy_entry_def)
  have first: "first_round R" by (simp add: first_round_def R dummy_entry_def)
  let ?n = "persist_meta (n\<lparr>rf_role := Candidate, leader_id := None, current_term := 1, voted_for := Some l\<rparr>)\<lparr>votes_received := [l]\<rparr>"
  have lead: "leader_state R ?n" "commit_index ?n = rd_commit R" using n by (simp_all add: leader_state_def R new_state_def persist_meta_def)
  have maj: "majority ?n = (length ps + 1) div 2 + 1" using n by (simp add: majority_def new_state_def persist_meta_def)
  show thesis
  proof (cases ps)
    case Nil
    obtain n' where n': "become_leader now ?n = Inr n'" "leader_state R (n'\<lparr>rf_outbox := []\<rparr>)" "rf_role n' = Leader" "rf_outbox n' = []"
      using leader_starts [OF ok _ lead, of now] Nil by (auto simp: R)
    have "start_election now n = Inr n'"
      using n n'(1) Nil maj by (simp add: start_election_def Let_def new_state_def persist_meta_def majority_def)
    moreover have "settled (rd_log R) (n'\<lparr>rf_outbox := []\<rparr>)" using n'(2) by (simp add: settled_def leader_state_def R)
    then have "candidate_or_leader R N (mset (rf_outbox n')) (n'\<lparr>rf_outbox := []\<rparr>)" for N
      using n'(2-4) Nil by (simp add: candidate_or_leader_def replicating_def R)
    ultimately show thesis using n' by (intro that [of n']) (simp_all add: no_timeouts_def)
  next
    case (Cons p qs)
    let ?m = "reset_election_timeout now ?n"
    let ?n' = "fold (\<lambda>p. push_outbox p (ask R)) ps ?m"
    have m: "rf_log ?m = [dummy_entry E]" "rf_id ?m = l" "current_term ?m = 1" "rf_peers ?m = ps"
      using n by (simp_all add: new_state_def persist_meta_def)
    have "start_election now n = Inr ?n'"
      using n m maj Cons by (simp add: start_election_def Let_def last_log_def new_state_def persist_meta_def majority_def ask_def R dummy_entry_def)
    moreover note out = push_all_outbox [of "ask R" ps ?m]
    have box: "rf_outbox ?n' = map (\<lambda>p. (p, ask R)) ps" using out n by (simp add: new_state_def persist_meta_def)
    have same: "?n'\<lparr>rf_outbox := []\<rparr> = ?m\<lparr>rf_outbox := []\<rparr>" using out by simp
    have role: "rf_role ?n' = Candidate" using same_but_outbox [OF same] by (simp add: persist_meta_def)
    have "leader_state R (?n'\<lparr>rf_outbox := []\<rparr>)" "campaigns [l] (?n'\<lparr>rf_outbox := []\<rparr>)" "commit_index (?n'\<lparr>rf_outbox := []\<rparr>) = rd_commit R"
      unfolding same using n maj Cons by (simp_all add: leader_state_def campaigns_def majority_def new_state_def persist_meta_def R)
    moreover have "voting R [l] (mset (rf_outbox ?n'))" unfolding box by (auto simp: voting_def R)
    ultimately have "candidate_or_leader R N (mset (rf_outbox ?n')) (?n'\<lparr>rf_outbox := []\<rparr>)" for N
      using first unfolding candidate_or_leader_def by (auto simp: R intro!: exI [of _ "[l]"])
    moreover have "no_timeouts ?n'" unfolding no_timeouts_def box by (auto simp: ask_def)
    moreover have "post_weight (mset (rf_outbox ?n')) + (if rf_role ?n' = Leader then 0 else 2 * length ps) \<le> 10000"
      unfolding box role using ps(3) by (simp add: post_weight_all del: mset_map)
    ultimately show thesis using \<open>start_election now n = Inr ?n'\<close> that by blast
  qed
qed

lemma election_round:
  assumes calm: "calm s" "sim_events s = []" "set (node_ids s) = insert l (set ps)" and ps: "distinct ps" "l \<notin> set ps" "length ps \<le> 2500"
    and l: "map_of (sim_nodes s) l = Some n" "new_state E l ps n"
    and peers: "\<forall>p \<in> set ps. \<exists>m qs. map_of (sim_nodes s) p = Some m \<and> new_state E p qs m"
  shows "\<exists>s' s''. trigger_election l s = Inr s' \<and> run_until_idle E s' = Inr s'' \<and> rested l ps [dummy_entry E] 0 s'' \<and> node_ids s'' = node_ids s"
proof -
  define R where "R = \<lparr>rd_leader = l, rd_peers = ps, rd_log = [dummy_entry E], rd_next = 1, rd_commit = 0\<rparr>"
  have sel: "rd_leader R = l" "rd_peers R = ps" by (simp_all add: R_def)
  have R: "round_ok R" "first_round R" using ps by (simp_all add: R_def round_ok_def first_round_def commands_only_def dummy_entry_def)
  obtain n' where n': "start_election (sim_clock s) n = Inr n'" "no_timeouts n'"
    "\<forall>N. candidate_or_leader R N (mset (rf_outbox n')) (n'\<lparr>rf_outbox := []\<rparr>)"
    "post_weight (mset (rf_outbox n')) + (if rf_role n' = Leader then 0 else 2 * length ps) \<le> 10000"
    by (rule first_election [OF l(2) ps R_def])
  let ?s = "s\<lparr>sim_nodes := AList.update l n' (sim_nodes s)\<rparr>" and ?m = "n'\<lparr>rf_outbox := []\<rparr>"
  note set = calm_set_node [OF calm(1) l(1), of n']
  have "map_of (sim_nodes ?s) l = Some n'" by (simp add: map_of_update)
  note f = calm_flush [OF set(1) this n'(2)]
  have trigger: "trigger_election l s = Inr (flush_node_outbox l ?s)"
    using calm(1) l n'(1) by (simp add: trigger_election_def calm_def with_node_def checked_election_def new_state_def)
  have nodes: "map_of (sim_nodes (flush_node_outbox l ?s)) (rd_leader R) = Some ?m" "set (node_ids (flush_node_outbox l ?s)) = insert (rd_leader R) (set (rd_peers R))"
    "mset (rf_outbox n') = posted (flush_node_outbox l ?s) + mset (rf_outbox ?m)" "no_timeouts ?m"
    unfolding f using calm(2,3) set(2) sel by (simp_all add: posted_def no_timeouts_def)
  have "peer_state R p m" if "new_state E p qs m" for p qs m using that by (simp add: peer_state_def new_state_def R_def)
  then have "\<exists>m. map_of (sim_nodes (flush_node_outbox l ?s)) p = Some m \<and> peer_state R p m" if "p \<in> set (rd_peers R)" for p
    using peers that ps(2) unfolding f sel by (fastforce simp: map_of_update)
  then obtain s' where s': "run_until_idle E (flush_node_outbox l ?s) = Inr s'" "calm s'" "sim_events s' = []" "round_done R (map_of (sim_nodes s'))"
    "node_ids s' = node_ids (flush_node_outbox l ?s)"
    using round_runs [OF f(1) nodes(2,3) R(1) nodes(1,4), of E] n'(3,4) R(2) sel(2) by auto
  have "rested l ps [dummy_entry E] 0 s'" using s' f(4) set(2) calm(3) by (simp add: rested_def R_def)
  with trigger s'(1,5) f(4) set(2) show ?thesis by auto
qed

end
