(* ===== verification/Simulator_Chaos.thy ===== *)
theory Simulator_Chaos
  imports Simulator_Safety Raft_Round
begin

text \<open>
  A chaos test from the first draw to the last delivery: three nodes of which node 1 has asked for votes, one step in
  which a command is submitted, node 2 crashes and the request to it is lost, and the convergence at the end, in which node 2 is
  restarted and node 1 is elected by the vote of node 3.
\<close>

section \<open>The random numbers\<close>

lemma chaos_draws:
  "next_u64 (rng_new 20) = (3900778703475868044, \<lparr>rng_state = 0x9e3779b97f4a7c29\<rparr>)"
  "next_u64 \<lparr>rng_state = 0x9e3779b97f4a7c29\<rparr> = (357812285139149957, \<lparr>rng_state = 0x3c6ef372fe94f83e\<rparr>)"
  "next_u64 \<lparr>rng_state = 0x3c6ef372fe94f83e\<rparr> = (4645975589145387511, \<lparr>rng_state = 0xdaa66d2c7ddf7453\<rparr>)"
  "next_u64 \<lparr>rng_state = 0xdaa66d2c7ddf7453\<rparr> = (6666434255463217276, \<lparr>rng_state = 0x78dde6e5fd29f068\<rparr>)"
  by (simp_all add: next_u64_def rng_new_def splitmix_def Let_def take_bit_eq_mod)

lemma chaos_rounds: "f64_round 1 = 1" "f64_round (7 / 20) = 3152519739159347 / 9007199254740992"
  by code_simp+

definition crash_config :: chaos_config where
  "crash_config = \<lparr>crash_prob = 1, restart_prob = 0, partition_prob = 0, heal_prob = 0, packet_drop_prob = 0,
     packet_delay_prob = 0, max_packet_delay = 50\<rparr>"

section \<open>The start\<close>

definition first_term :: round where
  "first_term = \<lparr>rd_leader = 1, rd_peers = [2, 3], rd_log = [dummy_entry sample_raft_ext], rd_next = 1, rd_commit = 0\<rparr>"

definition asked :: "raft_node \<Rightarrow> raft_node \<Rightarrow> raft_node \<Rightarrow> simulation" where
  "asked c a b =
     \<lparr>sim_clock = 0,
      sim_events = [\<lparr>deliver_at = 0, ev_sequence = 1, ev_from = 1, ev_to = 3, ev_message = ask first_term\<rparr>,
        \<lparr>deliver_at = 0, ev_sequence = 0, ev_from = 1, ev_to = 2, ev_message = ask first_term\<rparr>],
      sequence_counter = 2, sim_nodes = [(1, c), (2, a), (3, b)], disabled_nodes = {}, paused_nodes = {}, paused_events = [],
      blocked_links = {}, link_policies = [], scheduled_faults = [], fault_sequence_counter = 0\<rparr>"

definition candidate :: "raft_node \<Rightarrow> bool" where
  "candidate c \<longleftrightarrow> leader_state first_term c \<and> campaigns [1] c \<and> rf_role c = Candidate \<and> leader_id c = None \<and> commit_index c = 0"

definition voter :: "node_id \<Rightarrow> raft_node \<Rightarrow> bool" where
  "voter i n \<longleftrightarrow> peer_state first_term i n \<and> rf_role n = Follower \<and> commit_index n = 0 \<and> rf_log n = [dummy_entry sample_raft_ext]"

lemma chaos_start:
  obtains c a b where "sim_reach sample_raft_ext [1, 2, 3] (asked c a b)" and "candidate c" and "voter 2 a" and "voter 3 b"
proof (rule sample_simulation)
  fix db
  let ?s = "simulation_new 0 [(1, set_election_timeout 200 0 (fresh_node db 1 [2, 3])),
      (2, set_election_timeout 250 0 (fresh_node db 2 [1, 3])), (3, set_election_timeout 300 0 (fresh_node db 3 [1, 2]))]"
  assume new: "new_cluster sample_raft_ext (\<lambda>_. 0) 0 (\<lambda>_ _. 0) [1, 2, 3] = Inr ?s"
  obtain c a b where run: "apply_fault sample_raft_ext (TriggerElection 1) ?s = Inr (asked c a b)" "candidate c" "voter 2 a" "voter 3 b"
    by (simp add: asked_def apply_fault_def trigger_election_def simulation_new_def with_node_def checked_election_def
        start_election_def set_election_timeout_def flush_node_outbox_def send_message_def push_event_def fresh_node_def Let_def
        majority_def last_log_def persist_meta_def reset_election_timeout_def push_outbox_def ask_def first_term_def dummy_entry_def
        candidate_def voter_def leader_state_def campaigns_def peer_state_def)
  have "sim_reach sample_raft_ext [1, 2, 3] (asked c a b)"
    by (rule sim_reach.Fault [OF sim_reach.New [OF new] _ run(1)]) (simp add: fault_good_def)
  from that [OF this run(2-4)] show thesis .
qed

section \<open>The step\<close>

definition crashed :: "raft_node \<Rightarrow> raft_node \<Rightarrow> raft_node \<Rightarrow> simulation" where
  "crashed c a b = asked c a b\<lparr>disabled_nodes := {2},
     sim_events := [\<lparr>deliver_at = 0, ev_sequence = 1, ev_from = 1, ev_to = 3, ev_message = ask first_term\<rparr>]\<rparr>"

lemma chaos_step:
  assumes "candidate c" and "voter 2 a" and "voter 3 b"
  shows "chaos_loop E debug crash_config [1, 2, 3] 1 0 (rng_new 20) 0 (asked c a b) = Inr (crashed c a b, Inr 1)"
proof -
  have roles: "rf_role c = Candidate" "rf_role a = Follower" "rf_role b = Follower" using assms by (simp_all add: candidate_def voter_def)
  have boxes: "c\<lparr>rf_outbox := []\<rparr> = c" "a\<lparr>rf_outbox := []\<rparr> = a"
    using assms by (simp_all add: candidate_def voter_def leader_state_def peer_state_def)
  have "get_leader (asked c a b) = None" using roles by (simp add: get_leader_def asked_def better_leader_def running_def)
  then have "chaos_write E [1, 2, 3] (rng_new 20) 0 (asked c a b) = Inr (asked c a b, \<lparr>rng_state = 0x9e3779b97f4a7c29\<rparr>, 1)"
    using assms(1) boxes(1) by (simp add: chaos_write_def rng_choose_def chaos_draws running_def apply_fault_def with_node_def asked_def
        submit_command_def handle_message_def candidate_def forward_to_leader_def flush_node_outbox_def leader_state_def)
  moreover have "inject_random_fault E crash_config \<lparr>rng_state = 0x9e3779b97f4a7c29\<rparr> (asked c a b) =
      Inr (asked c a b\<lparr>disabled_nodes := {2}\<rparr>, \<lparr>rng_state = 0xdaa66d2c7ddf7453\<rparr>, Some (CrashNode 2))"
    using boxes by (simp add: inject_random_fault_def random_fault_def next_f64_def chaos_draws crash_config_def chaos_rounds
        crash_stage_def asked_def rng_choose_def apply_fault_def disable_node_def Let_def)
  moreover have "chaos_move E \<lparr>rng_state = 0xdaa66d2c7ddf7453\<rparr> (asked c a b\<lparr>disabled_nodes := {2}\<rparr>) =
      Inr (crashed c a b, \<lparr>rng_state = 0x78dde6e5fd29f068\<rparr>)"
    by (simp add: chaos_move_def next_f64_def chaos_draws chaos_rounds deliver_next_def trigger_due_faults.simps asked_def
        queue_pop_def earlier_def event_key_def route_event_def crashed_def)
  moreover have "check_invariants debug (crashed c a b) = Inr ()"
    using assms roles by (simp add: check_invariants_def check_election_def crashed_def asked_def check_logs_def check_commits_def
        voter_def candidate_def leader_state_def first_term_def)
  ultimately show ?thesis by simp
qed

section \<open>The convergence\<close>

lemma idle_loop_deliver: "deliver_next E s = Inr (s', True) \<Longrightarrow> idle_loop E (Suc k) s = idle_loop E k s'"
  by (subst idle_loop.simps) simp

lemma calm_deliver_one:
  assumes "calm s" and "posted s = {#(to, m)#}" and "map_of (sim_nodes s) to = Some n" and "m \<noteq> MTimeout"
    and "\<And>now. \<exists>n'. handle_message E m now n = Inr n' \<and> no_timeouts n' \<and> P n'"
  shows "\<exists>s' n'. deliver_next E s = Inr (s', True) \<and> P n' \<and> calm s' \<and> node_ids s' = node_ids s \<and>
    map_of (sim_nodes s') = (map_of (sim_nodes s))(to \<mapsto> n'\<lparr>rf_outbox := []\<rparr>) \<and> posted s' = mset (rf_outbox n')"
proof -
  have "sim_events s \<noteq> []" using assms(2) posted_empty [of s] by auto
  from calm_deliver [OF assms(1) this, of E] obtain to' m' now where d: "(to', m') \<in># posted s"
    "\<And>n n'. map_of (sim_nodes s) to' = Some n \<Longrightarrow> m' \<noteq> MTimeout \<Longrightarrow> handle_message E m' now n = Inr n' \<Longrightarrow> no_timeouts n' \<Longrightarrow>
      (\<exists>s'. deliver_next E s = Inr (s', True) \<and> calm s' \<and> node_ids s' = node_ids s \<and>
         map_of (sim_nodes s') = (map_of (sim_nodes s))(to' \<mapsto> n'\<lparr>rf_outbox := []\<rparr>) \<and>
         posted s' = posted s - {#(to', m')#} + mset (rf_outbox n'))" by blast
  obtain n' where n': "handle_message E m now n = Inr n'" "no_timeouts n'" "P n'" using assms(5) by blast
  have "to' = to" "m' = m" using d(1) assms(2) by simp_all
  with d(2) [of n n'] assms(2-4) n' show ?thesis by auto
qed

definition converged :: "raft_node \<Rightarrow> raft_node \<Rightarrow> raft_node \<Rightarrow> simulation" where
  "converged c a b = crashed c (restart 0 a) b\<lparr>disabled_nodes := {}\<rparr>"

lemma chaos_converges: "fold converge_node [1, 2, 3] (heal_all_partitions (crashed c a b)) = converged c a b"
  by (simp add: converge_node_def heal_all_partitions_def crashed_def asked_def restart_node_def converged_def)

lemma first_term_ok: "round_ok first_term" "first_round first_term"
  by (simp_all add: round_ok_def first_round_def first_term_def commands_only_def dummy_entry_def)

lemma chaos_idle:
  assumes c: "candidate c" and a: "voter 2 a" and b: "voter 3 b"
  obtains s where "run_until_idle E (converged c a b) = Inr s" and "round_done first_term (map_of (sim_nodes s))" and "node_ids s = [1, 2, 3]"
proof -
  let ?s = "converged c a b" and ?R = first_term
  have a': "peer_state ?R 2 (restart 0 a)" using a by (auto simp: voter_def restart_def peer_state_def)
  have boxes: "c\<lparr>rf_outbox := []\<rparr> = c" "b\<lparr>rf_outbox := []\<rparr> = b" "restart 0 a\<lparr>rf_outbox := []\<rparr> = restart 0 a"
    using c b a' by (simp_all add: candidate_def voter_def leader_state_def peer_state_def)
  have R: "rd_leader ?R = 1" "rd_peers ?R = [2, 3]" "rd_next ?R = length (rd_log ?R)" "rd_commit ?R = 0" by (simp_all add: first_term_def)
  have flush: "flush_all_outboxes ?s = ?s"
    using boxes c b a' by (simp add: flush_all_outboxes_def flush_node_outbox_def converged_def crashed_def asked_def
        candidate_def voter_def leader_state_def peer_state_def)
  have s: "calm ?s" "posted ?s = {#(3, ask ?R)#}" "node_ids ?s = [1, 2, 3]" "map_of (sim_nodes ?s) = [1 \<mapsto> c, 2 \<mapsto> restart 0 a, 3 \<mapsto> b]"
    by (simp_all add: calm_def posted_def converged_def crashed_def asked_def fun_eq_iff)
  have "\<exists>n'. handle_message E (ask ?R) now b = Inr n' \<and> no_timeouts n' \<and>
      (rf_outbox n' = [(1, vote 3)] \<and> peer_state ?R 3 (n'\<lparr>rf_outbox := []\<rparr>))" for now
    by (rule peer_votes [of ?R 3 b "dummy_entry sample_raft_ext" E now])
      (use b in \<open>auto simp: voter_def first_term_def dummy_entry_def no_timeouts_def\<close>)
  from calm_deliver_one [OF s(1,2) _ _ this] s(3,4) obtain s1 n3 where s1: "deliver_next E ?s = Inr (s1, True)" "rf_outbox n3 = [(1, vote 3)]"
    "peer_state ?R 3 (n3\<lparr>rf_outbox := []\<rparr>)" "calm s1" "node_ids s1 = [1, 2, 3]"
    "map_of (sim_nodes s1) = [1 \<mapsto> c, 2 \<mapsto> restart 0 a, 3 \<mapsto> n3\<lparr>rf_outbox := []\<rparr>]" "posted s1 = {#(1, vote 3)#}" by auto
  have "\<exists>n'. handle_message E (vote 3) now c = Inr n' \<and> no_timeouts n' \<and>
      (leader_state ?R (n'\<lparr>rf_outbox := []\<rparr>) \<and> rf_role n' = Leader \<and> rf_outbox n' = map (\<lambda>p. (p, entries ?R)) [2, 3])" for now
    by (rule candidate_takes_vote [of ?R c "[1]" E 3 now])
      (use c R first_term_ok in \<open>auto simp: candidate_def no_timeouts_def campaigns_def majority_def leader_state_def\<close>)
  from calm_deliver_one [OF s1(4,7) _ _ this] s1(5,6) obtain s2 n1 where s2: "deliver_next E s1 = Inr (s2, True)"
    "leader_state ?R (n1\<lparr>rf_outbox := []\<rparr>)" "rf_role n1 = Leader" "rf_outbox n1 = map (\<lambda>p. (p, entries ?R)) [2, 3]"
    "calm s2" "node_ids s2 = [1, 2, 3]"
    "map_of (sim_nodes s2) = [1 \<mapsto> n1\<lparr>rf_outbox := []\<rparr>, 2 \<mapsto> restart 0 a, 3 \<mapsto> n3\<lparr>rf_outbox := []\<rparr>]"
    "posted s2 = mset (map (\<lambda>p. (p, entries ?R)) [2, 3])" by (auto simp: fun_upd_twist)
  have "replicating ?R (map_of (sim_nodes s2)) (n1\<lparr>rf_outbox := []\<rparr>) (posted s2)"
    unfolding replicating_def s2(8) R by auto
  then have "round_inv ?R (map_of (sim_nodes s2)) (posted s2)"
    unfolding round_inv_def s2(7) R candidate_or_leader_def using first_term_ok a' s1(3) s2(2,3) by auto
  moreover have "round_weight ?R (map_of (sim_nodes s2)) (posted s2) \<le> 9998"
    unfolding round_weight_def s2(7,8) R using s2(3) by simp
  ultimately obtain s' where s': "idle_loop E 9998 s2 = Inr s'" "round_inv ?R (map_of (sim_nodes s')) {#}" "node_ids s' = [1, 2, 3]"
    using raft_round.loop_ends [OF s2(5)] s2(6) by metis
  have "idle_loop E (Suc (Suc 9998)) ?s = Inr s'"
    using idle_loop_deliver [OF s1(1), of "Suc 9998"] idle_loop_deliver [OF s2(1), of 9998] s'(1) by (simp only:)
  moreover have "Suc (Suc 9998) = (10000 :: nat)" by simp
  ultimately have "run_until_idle E ?s = Inr s'" unfolding run_until_idle_def flush by (simp only:)
  from that [OF this round_ends [OF s'(2)] s'(3)] show thesis .
qed

section \<open>The test\<close>

lemma round_done_logs:
  assumes "round_done R (map_of (sim_nodes s))" and "set (node_ids s) = insert (rd_leader R) (set (rd_peers R))" and "distinct (node_ids s)"
    and "(i, n) \<in> set (sim_nodes s)"
  shows "rf_log n = rd_log R"
proof -
  have "map_of (sim_nodes s) i = Some n" using assms(3,4) by simp
  moreover have "i \<in> set (node_ids s)" using assms(4) by force
  ultimately show ?thesis using assms(1,2) by (auto simp: round_done_def leader_state_def has_entries_def)
qed

lemma chaos_command_good: "command_good sample_raft_ext (chaos_command 0)"
  unfolding command_good_def entry_good_def sample_record chaos_command_def
  by (intro conjI allI sample_codec_command)
    (simp_all add: key_ok_def val_fits_def write_to_def i64_to_string_def nat_dec.simps str_def)

text \<open>
  C12. A chaos test that ends passes: when a chaos test of a simulated cluster, whose nodes have distinct ids other than zero, ends
  with any seed, number of steps and fault probabilities, and leaves no float that is not a number in a log, it
  reports the number of its writes and never a violation, and the cluster it leaves satisfies the invariants.
\<close>

theorem chaos_test_passes:
  assumes "sim_reach E ids s" and "distinct ids" and "0 \<notin> set ids" and "entry_good E (dummy_entry E)"
    and "\<forall>k < steps. command_good E (chaos_command k)"
    and "run_chaos_test E debug seed steps cfg s = Inr (s', r)" and "nan_free s'"
  shows "(\<exists>ops. r = Inr ops) \<and> check_invariants debug s' = Inr ()"
  using sim_ok_chaos_test [OF sim_reach_ok [OF assms(1-4)] sim_membership_ok assms(4,6)] sim_ok_invariants [OF _ sim_membership_ok]
    assms(2-7) by blast

text \<open>
  In the test above, whose step submits a command, crashes a node and loses a message, the remaining nodes elect node 1.
\<close>

theorem chaos_test_passes_witness:
  "\<exists>s s' n. sim_reach sample_raft_ext [1, 2, 3] s \<and> length (sim_events s) = 2 \<and>
     run_chaos_test sample_raft_ext (\<lambda>_. []) 20 1 crash_config s = Inr (s', Inr 1) \<and> check_invariants (\<lambda>_. []) s' = Inr () \<and>
     map_of (sim_nodes s') 1 = Some n \<and> rf_role n = Leader"
proof (rule chaos_start)
  fix c a b assume reach: "sim_reach sample_raft_ext [1, 2, 3] (asked c a b)" and nodes: "candidate c" "voter 2 a" "voter 3 b"
  obtain s where s: "run_until_idle sample_raft_ext (converged c a b) = Inr s" "round_done first_term (map_of (sim_nodes s))"
    "node_ids s = [1, 2, 3]" by (rule chaos_idle [OF nodes])
  have ids: "node_ids (asked c a b) = [1, 2, 3]" by (simp add: asked_def)
  obtain r where run: "run_chaos_test sample_raft_ext (\<lambda>_. []) 20 1 crash_config (asked c a b) = Inr (s, r)" and r: "r = Inr 1 \<or> (\<exists>v. r = Inl v)"
    by (cases "check_invariants (\<lambda>_. []) s")
      (simp_all only: run_chaos_test_def ids Let_def chaos_step [OF nodes] chaos_converges s(1) and_then_Inr prod.case sum.case, blast+)
  have "nan_free s"
    using round_done_logs [OF s(2)] s(3) by (auto simp: nan_free_def first_term_def dummy_entry_def record_eq_def log_record_new_def)
  from chaos_test_passes [OF reach _ _ sample_dummy _ run this] have ok: "(\<exists>ops. r = Inr ops) \<and> check_invariants (\<lambda>_. []) s = Inr ()"
    using chaos_command_good by simp
  obtain n where "map_of (sim_nodes s) 1 = Some n" "rf_role n = Leader" using s(2) by (auto simp: round_done_def first_term_def)
  moreover have "length (sim_events (asked c a b)) = 2" by (simp add: asked_def)
  moreover have "run_chaos_test sample_raft_ext (\<lambda>_. []) 20 1 crash_config (asked c a b) = Inr (s, Inr 1)" using run r ok by auto
  ultimately show ?thesis using reach ok by blast
qed

end
