(* ===== verification/Runtime.thy ===== *)
theory Runtime
  imports Raft_Acks
begin

text \<open>
  The task that runs a node (\<open>src/src/runtime/runtime.rs\<close>): it takes messages, requests of the
  services and ticks, one at a time, and hands what the node wants to send to a transport. The transport is
  an argument, as it is a type parameter in the code; the channels of the services are numbers, as in the node.
\<close>

section \<open>Requests of the services\<close>

text \<open>\<open>ServiceOperation\<close>, \<open>ServiceRequest\<close> of \<open>runtime/service.rs\<close>.\<close>

datatype service_operation =
    SvSet rstring val
  | SvDelete rstring
  | SvGet rstring
  | SvStatus
  | SvAddNode u64 rstring
  | SvRemoveNode u64

record service_request =
  rq_operation :: service_operation
  rq_response_tx :: channel

section \<open>The runtime\<close>

record 't runtime =
  rt_node :: raft_node
  rt_transport :: 't

type_synonym 't send = "node_id \<Rightarrow> node_id \<Rightarrow> message \<Rightarrow> 't \<Rightarrow> 't"

definition flush_outbox :: "'t send \<Rightarrow> 't runtime \<Rightarrow> 't runtime" where
  "flush_outbox send rt =
     rt\<lparr>rt_node := rt_node rt\<lparr>rf_outbox := []\<rparr>,
        rt_transport := fold (\<lambda>(to, msg) t. if msg = MTimeout then t else send (rf_id (rt_node rt)) to msg t)
          (rf_outbox (rt_node rt)) (rt_transport rt)\<rparr>"

text \<open>\<open>request.response_tx.send\<close> with the fixed answers of the membership operations.\<close>

definition answer_submitted :: "channel \<Rightarrow> rstring \<Rightarrow> raft_node \<Rightarrow> raft_node" where
  "answer_submitted ch msg n =
     n\<lparr>rf_oneshots := rf_oneshots n @
         [(ch, \<lparr>sv_success = True, sv_value = None, sv_message = msg, sv_leader_id = None, sv_term = 0\<rparr>)]\<rparr>"

definition handle_service_request :: "'x raft_ext_scheme \<Rightarrow> service_request \<Rightarrow> nat \<Rightarrow> raft_node \<Rightarrow> raft_node io" where
  "handle_service_request E request now n =
     (let store = (\<lambda>op. handle_store_request E \<lparr>sr_operation = op, sr_responder = Oneshot (rq_response_tx request)\<rparr> now n) in
      case rq_operation request of
        SvAddNode i addr \<Rightarrow>
          and_then (handle_message E (MAddNode \<lparr>an_id = i, an_addr = addr\<rparr>) now n) (\<lambda>n.
          Inr (answer_submitted (rq_response_tx request) (str ''Add-node request submitted to Raft'') n))
      | SvRemoveNode i \<Rightarrow>
          and_then (handle_message E (MRemoveNode \<lparr>rm_id = i\<rparr>) now n) (\<lambda>n.
          Inr (answer_submitted (rq_response_tx request) (str ''Remove-node request submitted to Raft'') n))
      | SvSet key v \<Rightarrow> store (OpSet key v)
      | SvDelete key \<Rightarrow> store (OpDelete key)
      | SvGet key \<Rightarrow> store (OpGet key)
      | SvStatus \<Rightarrow> store OpStatus)"

text \<open>The branches of the \<open>select!\<close>; a channel that is closed ends the task.\<close>

datatype runtime_event =
    Received "message option"
  | Requested "service_request option"
  | Ticked

definition runtime_step ::
  "'x raft_ext_scheme \<Rightarrow> 't send \<Rightarrow> nat \<Rightarrow> runtime_event \<Rightarrow> 't runtime \<Rightarrow> 't runtime option io" where
  "runtime_step E send now ev rt =
     (let run = (\<lambda>result. and_then result (\<lambda>n. Inr (Some (flush_outbox send (rt\<lparr>rt_node := n\<rparr>))))) in
      case ev of
        Received (Some msg) \<Rightarrow> run (handle_message E msg now (rt_node rt))
      | Received None \<Rightarrow> Inr None
      | Requested (Some request) \<Rightarrow> run (handle_service_request E request now (rt_node rt))
      | Requested None \<Rightarrow> Inr None
      | Ticked \<Rightarrow> run (tick now (rt_node rt)))"

section \<open>A cluster of runtimes\<close>

text \<open>The transport of the cluster keeps every message for its addressee.\<close>

definition net_send :: "(node_id \<times> message) set send" where
  "net_send from to msg net = insert (to, msg) net"

definition runtime_of :: "node_id \<Rightarrow> cluster \<Rightarrow> (node_id \<times> message) set runtime" where
  "runtime_of i c = \<lparr>rt_node = cl_nodes c i, rt_transport = cl_net c\<rparr>"

definition set_runtime :: "node_id \<Rightarrow> (node_id \<times> message) set runtime \<Rightarrow> cluster \<Rightarrow> cluster" where
  "set_runtime i rt c = set_node i (rt_node rt) c\<lparr>cl_net := rt_transport rt\<rparr>"

text \<open>The command for which the caller of a request waits.\<close>

fun operation_command :: "service_operation \<Rightarrow> command option" where
  "operation_command (SvSet key v) = Some (CmdSet key v)"
| "operation_command (SvDelete key) = Some (CmdDelete key)"
| "operation_command _ = None"

fun changes_members :: "service_operation \<Rightarrow> bool" where
  "changes_members (SvAddNode i addr) = True"
| "changes_members (SvRemoveNode i) = True"
| "changes_members _ = False"

text \<open>
  What happens to the runtime of a node: a message that was sent to it, a message of a client that can be stored,
  a request that keeps the membership, or a tick. The term counter does not overflow. \<open>W\<close> names the commands that responders
  wait for; where it is \<open>UNIV\<close> it excludes nothing.
\<close>

definition event_allowed :: "waiting \<Rightarrow> 'x raft_ext_scheme \<Rightarrow> node_id \<Rightarrow> nat \<Rightarrow> runtime_event \<Rightarrow> cluster \<Rightarrow> bool" where
  "event_allowed W E i now ev c \<longleftrightarrow>
     (case ev of
        Received (Some msg) \<Rightarrow>
          message_labelled W msg \<and>
          ((i, msg) \<in> cl_net c \<and> (msg = MTimeout \<longrightarrow> current_term (cl_nodes c i) \<noteq> - 1) \<or> is_client msg \<and> msg_good E msg)
      | Requested (Some request) \<Rightarrow>
          \<not> changes_members (rq_operation request) \<and>
          operation_command (rq_operation request) \<in> W (Oneshot (rq_response_tx request)) \<and>
          (\<forall>cmd. operation_command (rq_operation request) = Some cmd \<longrightarrow> command_good E cmd)
      | Ticked \<Rightarrow>
          rf_role (cl_nodes c i) \<noteq> Leader \<and> now \<ge> election_deadline (cl_nodes c i) \<longrightarrow> current_term (cl_nodes c i) \<noteq> - 1
      | _ \<Rightarrow> False)"

inductive runtime_reach :: "waiting \<Rightarrow> 'x raft_ext_scheme \<Rightarrow> membership \<Rightarrow> cluster \<Rightarrow> bool"
  for W :: waiting and E :: "'x raft_ext_scheme" and M :: membership where
  Init: "cluster_init E M c \<Longrightarrow> runtime_reach W E M c"
| Step: "\<lbrakk>runtime_reach W E M c; i \<in> mb_ids M; event_allowed W E i now ev c;
     runtime_step E net_send now ev (runtime_of i c) = Inr (Some rt)\<rbrakk> \<Longrightarrow> runtime_reach W E M (set_runtime i rt c)"

lemma flush_net:
  "rt_transport (flush_outbox net_send rt) =
     rt_transport rt \<union> set (filter (\<lambda>(to, msg). msg \<noteq> MTimeout) (rf_outbox (rt_node rt)))"
proof -
  have "fold (\<lambda>(to, msg) t. if msg = MTimeout then t else net_send i to msg t) ms net =
      net \<union> set (filter (\<lambda>(to, msg). msg \<noteq> MTimeout) ms)" for i ms net
    by (induction ms arbitrary: net) (auto simp: net_send_def)
  then show ?thesis by (simp add: flush_outbox_def)
qed

lemma set_node_twice: "set_node i (n\<lparr>rf_outbox := []\<rparr>) (set_node i n c) = set_node i (n\<lparr>rf_outbox := []\<rparr>) c"
  by (auto simp: set_node_def cast_def leading_def)

lemma served_flush:
  assumes "served_reach W E M (set_node i n c)" and "i \<in> mb_ids M"
  shows "served_reach W E M (set_runtime i (flush_outbox net_send ((runtime_of i c)\<lparr>rt_node := n\<rparr>)) c)"
proof -
  let ?sent = "filter (\<lambda>(to, msg). msg \<noteq> MTimeout) (rf_outbox n)"
  have "served_reach W E M
      (set_node i (cl_nodes (set_node i n c) i\<lparr>rf_outbox := []\<rparr>) (set_node i n c)\<lparr>cl_net := cl_net (set_node i n c) \<union> set ?sent\<rparr>)"
    by (rule served_reach.Send [OF assms]) simp
  moreover have "set_runtime i (flush_outbox net_send ((runtime_of i c)\<lparr>rt_node := n\<rparr>)) c =
      set_node i (n\<lparr>rf_outbox := []\<rparr>) c\<lparr>cl_net := cl_net c \<union> set ?sent\<rparr>"
    by (simp add: set_runtime_def flush_net runtime_of_def) (simp add: flush_outbox_def)
  ultimately show ?thesis by (simp add: set_node_twice)
qed

lemma served_request:
  assumes "served_reach W E M c" and "i \<in> mb_ids M" and "handle_service_request E request now (cl_nodes c i) = Inr n"
    and "\<not> changes_members (rq_operation request)" and "operation_command (rq_operation request) \<in> W (Oneshot (rq_response_tx request))"
    and "\<forall>cmd. operation_command (rq_operation request) = Some cmd \<longrightarrow> command_good E cmd"
  shows "served_reach W E M (set_node i n c)"
proof -
  obtain op where op: "handle_store_request E \<lparr>sr_operation = op, sr_responder = Oneshot (rq_response_tx request)\<rparr> now (cl_nodes c i) = Inr n"
    "to_command op = operation_command (rq_operation request)"
    using assms(3,4) by (cases "rq_operation request") (auto simp: handle_service_request_def Let_def)
  show ?thesis
    by (rule served_reach.Request [OF assms(1,2) _ _ op(1)]) (use assms(5,6) op(2) in \<open>auto simp: request_good_def labelled_def split: option.splits\<close>)
qed

section \<open>Properties\<close>

text \<open>
  C14. The runtimes implement the cluster: whatever messages, reads, writes, status requests and ticks the runtimes of the nodes
  process, in whatever order, the cluster they make is reached by steps of the cluster that serves requests, so that what holds
  there (agreement, durability of acknowledged writes) holds for the runtimes. Requests and messages that add or remove nodes are
  excluded, as everywhere in the theorems on clusters.
\<close>

theorem runtimes_refine_cluster:
  assumes "runtime_reach W E M c"
  shows "served_reach W E M c"
  using assms
proof (induction rule: runtime_reach.induct)
  case (Init c)
  then show ?case by (rule served_reach.Init)
next
  case (Step c i now ev rt)
  have "\<exists>n. served_reach W E M (set_node i n c) \<and> rt = flush_outbox net_send ((runtime_of i c)\<lparr>rt_node := n\<rparr>)"
  proof (cases ev)
    case (Received m)
    with Step obtain msg n where msg: "m = Some msg" "handle_message E msg now (cl_nodes c i) = Inr n"
      "rt = flush_outbox net_send ((runtime_of i c)\<lparr>rt_node := n\<rparr>)"
      by (cases m) (auto simp: runtime_step_def runtime_of_def and_then_eq_Inr)
    with Step Received show ?thesis
      by (auto simp: event_allowed_def intro: served_reach.Deliver served_reach.Client)
  next
    case (Requested r)
    with Step obtain request n where request: "r = Some request" "handle_service_request E request now (cl_nodes c i) = Inr n"
      "rt = flush_outbox net_send ((runtime_of i c)\<lparr>rt_node := n\<rparr>)"
      by (cases r) (auto simp: runtime_step_def runtime_of_def and_then_eq_Inr)
    with Step Requested served_request [OF Step.IH Step.hyps(2) request(2)] show ?thesis by (auto simp: event_allowed_def)
  next
    case Ticked
    with Step obtain n where "tick now (cl_nodes c i) = Inr n" "rt = flush_outbox net_send ((runtime_of i c)\<lparr>rt_node := n\<rparr>)"
      by (auto simp: runtime_step_def runtime_of_def and_then_eq_Inr)
    with Step Ticked show ?thesis by (auto simp: event_allowed_def intro: served_reach.Tick)
  qed
  with served_flush Step.hyps(2) show ?case by blast
qed

text \<open>
  A membership request can be lost and yet be answered with success: a node that knows no leader answers a request to add
  or to remove a node as submitted and does nothing else; nothing is appended or sent.
\<close>

theorem membership_request_dropped:
  assumes "rf_role n \<noteq> Leader" and "leader_id n = None" and "changes_members (rq_operation request)"
  shows "\<exists>msg. handle_service_request E request now n = Inr (answer_submitted (rq_response_tx request) msg n)"
  using assms by (cases "rq_operation request") (auto simp: handle_service_request_def handle_message_def forward_to_leader_def)

subsection \<open>Witnesses\<close>

theorem membership_request_dropped_witness:
  "\<exists>db msg. handle_service_request sample_raft_ext \<lparr>rq_operation = SvAddNode 4 [], rq_response_tx = 7\<rparr> 0 (fresh_node db 1 [2, 3]) =
     Inr (answer_submitted 7 msg (fresh_node db 1 [2, 3])) \<and> rf_role (fresh_node db 1 [2, 3]) = Follower"
proof -
  fix db
  show ?thesis
    using membership_request_dropped [of "fresh_node db 1 [2, 3]" "\<lparr>rq_operation = SvAddNode 4 [], rq_response_tx = 7\<rparr>" sample_raft_ext 0]
    by (auto simp: fresh_node_def)
qed

text \<open>The only node of a cluster elects itself at a tick.\<close>

theorem runtimes_refine_cluster_witness:
  "\<exists>c. runtime_reach lone_waiting sample_raft_ext lone_membership c \<and> rf_role (cl_nodes c 1) = Leader \<and>
     served_reach lone_waiting sample_raft_ext lone_membership c"
proof -
  let ?E = "sample_raft_ext" and ?M = "lone_membership" and ?W = lone_waiting
  obtain db where db: "\<And>i peers. new_in_dir ?E [] i peers config_default 0 (\<lambda>_. 0) = Inr (fresh_node db i peers)"
    using fresh_node_new by blast
  let ?c0 = "\<lparr>cl_nodes = (\<lambda>i. fresh_node db i []), cl_net = {}, cl_votes = {}, cl_leaders = {}\<rparr>"
  have r0: "runtime_reach ?W ?E ?M ?c0"
    by (rule runtime_reach.Init) (use db in \<open>auto simp: cluster_init_def lone_membership_def\<close>)
  obtain n where n: "tick 1000 (fresh_node db 1 []) = Inr n" "rf_role n = Leader" by (rule lone_elects)
  let ?rt = "flush_outbox net_send ((runtime_of 1 ?c0)\<lparr>rt_node := n\<rparr>)"
  have "runtime_reach ?W ?E ?M (set_runtime 1 ?rt ?c0)"
    by (rule runtime_reach.Step [OF r0, of 1 1000 Ticked])
      (use n(1) in \<open>simp_all add: lone_membership_def event_allowed_def runtime_step_def runtime_of_def fresh_node_def\<close>)
  moreover have "rf_role (cl_nodes (set_runtime 1 ?rt ?c0) 1) = Leader" using n(2) by (simp add: set_runtime_def flush_outbox_def)
  ultimately show ?thesis using runtimes_refine_cluster by blast
qed

end
