(* ===== verification/Text.thy ===== *)
theory Text
  imports Prelude
begin

text \<open>
  The operations of \<open>str\<close> that the services and the programs use: white space at the ends and between
  words, splitting at a character, lower case and unsigned numbers. Strings are their UTF-8 bytes.
\<close>

section \<open>White space\<close>

text \<open>
  The characters with the property \<open>White_Space\<close>, encoded. The first byte of a character is never a byte inside
  another one, so that looking at bytes is looking at characters.
\<close>

definition white_chars :: "bytes list" where
  "white_chars =
     [[0x09], [0x0A], [0x0B], [0x0C], [0x0D], [0x20], [0xC2, 0x85], [0xC2, 0xA0], [0xE1, 0x9A, 0x80],
      [0xE2, 0x80, 0x80], [0xE2, 0x80, 0x81], [0xE2, 0x80, 0x82], [0xE2, 0x80, 0x83], [0xE2, 0x80, 0x84],
      [0xE2, 0x80, 0x85], [0xE2, 0x80, 0x86], [0xE2, 0x80, 0x87], [0xE2, 0x80, 0x88], [0xE2, 0x80, 0x89],
      [0xE2, 0x80, 0x8A], [0xE2, 0x80, 0xA8], [0xE2, 0x80, 0xA9], [0xE2, 0x80, 0xAF], [0xE2, 0x81, 0x9F],
      [0xE3, 0x80, 0x80]]"

text \<open>The number of bytes of a white character at the front or at the end, 0 when there is none.\<close>

definition white_front :: "bytes \<Rightarrow> nat" where
  "white_front bs = (case find (\<lambda>w. take (length w) bs = w) white_chars of None \<Rightarrow> 0 | Some w \<Rightarrow> length w)"

definition white_end :: "bytes \<Rightarrow> nat" where
  "white_end bs = (case find (\<lambda>w. drop (length bs - length w) bs = w) white_chars of None \<Rightarrow> 0 | Some w \<Rightarrow> length w)"

lemma white_front_le: "white_front bs \<le> length bs"
proof (cases "find (\<lambda>w. take (length w) bs = w) white_chars")
  case (Some w)
  then have "take (length w) bs = w" by (auto simp: find_Some_iff)
  then have "length w \<le> length bs" by (metis length_take min.cobounded1)
  with Some show ?thesis by (simp add: white_front_def)
qed (simp add: white_front_def)

lemma white_end_le: "white_end bs \<le> length bs"
proof (cases "find (\<lambda>w. drop (length bs - length w) bs = w) white_chars")
  case (Some w)
  then have "drop (length bs - length w) bs = w" by (auto simp: find_Some_iff)
  then have "length w \<le> length bs" by (metis diff_le_self length_drop)
  with Some show ?thesis by (simp add: white_end_def)
qed (simp add: white_end_def)

lemma white_front_shrinks: "white_front bs \<noteq> 0 \<Longrightarrow> length bs - white_front bs < length bs"
  using white_front_le [of bs] by linarith

lemma white_end_shrinks: "white_end bs \<noteq> 0 \<Longrightarrow> length bs - white_end bs < length bs"
  using white_end_le [of bs] by linarith

function trim_start :: "bytes \<Rightarrow> bytes" where
  "trim_start bs = (if white_front bs = 0 then bs else trim_start (drop (white_front bs) bs))"
  by pat_completeness auto
termination
  by (relation "measure length") (simp_all add: white_front_shrinks)

function trim_end :: "bytes \<Rightarrow> bytes" where
  "trim_end bs = (if white_end bs = 0 then bs else trim_end (take (length bs - white_end bs) bs))"
  by pat_completeness auto
termination
  by (relation "measure length") (simp_all add: white_end_shrinks)

declare trim_start.simps [simp del] trim_end.simps [simp del]

definition trim :: "bytes \<Rightarrow> bytes" where
  "trim bs = trim_end (trim_start bs)"

text \<open>\<open>split_whitespace\<close>: \<open>word\<close> is the part of the current word that has been read.\<close>

function split_words :: "bytes \<Rightarrow> bytes \<Rightarrow> bytes list" where
  "split_words word bs =
     (if bs = [] then if word = [] then [] else [word]
      else if white_front bs = 0 then split_words (word @ [hd bs]) (tl bs)
      else (if word = [] then [] else [word]) @ split_words [] (drop (white_front bs) bs))"
  by pat_completeness auto
termination
  by (relation "measure (\<lambda>(word, bs). length bs)") (simp_all add: white_front_shrinks)

declare split_words.simps [simp del]

definition split_whitespace :: "bytes \<Rightarrow> bytes list" where
  "split_whitespace bs = split_words [] bs"

section \<open>Splitting, joining, case\<close>

fun split_at_byte :: "u8 \<Rightarrow> bytes \<Rightarrow> bytes list" where
  "split_at_byte c [] = [[]]"
| "split_at_byte c (b # bs) =
     (if b = c then [] # split_at_byte c bs
      else (case split_at_byte c bs of [] \<Rightarrow> [[b]] | p # ps \<Rightarrow> (b # p) # ps))"

text \<open>\<open>splitn(2, c)\<close>\<close>

definition split_once :: "u8 \<Rightarrow> bytes \<Rightarrow> bytes list" where
  "split_once c bs = (if c \<in> set bs then [takeWhile (\<lambda>b. b \<noteq> c) bs, tl (dropWhile (\<lambda>b. b \<noteq> c) bs)] else [bs])"

fun join_with :: "bytes \<Rightarrow> bytes list \<Rightarrow> bytes" where
  "join_with sep [] = []"
| "join_with sep [p] = p"
| "join_with sep (p # q # ps) = p @ sep @ join_with sep (q # ps)"

definition ascii_lower :: "bytes \<Rightarrow> bytes" where
  "ascii_lower bs = map (\<lambda>b. if 65 \<le> b \<and> b \<le> 90 then b + 32 else b) bs"

section \<open>Unsigned numbers\<close>

definition u64_to_string :: "u64 \<Rightarrow> bytes" where
  "u64_to_string w = nat_dec (unat w)"

definition u64_parse :: "bytes \<Rightarrow> u64 option" where
  "u64_parse bs =
     (let ds = (case bs of b # r \<Rightarrow> if b = 43 then r else bs | [] \<Rightarrow> []) in
      if ds = [] then None
      else case dec_nat 0 ds of None \<Rightarrow> None
           | Some n \<Rightarrow> if n < 2 ^ 64 then Some (of_nat n) else None)"

lemma u64_parse_to_string [simp, codec]: "u64_parse (u64_to_string w) = Some w"
proof -
  have "unat w < 2 ^ LENGTH(64)" by (rule unsigned_less)
  moreover obtain b r where "nat_dec (unat w) = b # r" "b \<noteq> 43" using nat_dec_head by blast
  moreover have "dec_nat 0 (nat_dec (unat w)) = Some (unat w)" by (rule dec_nat_nat_dec)
  ultimately show ?thesis by (simp add: u64_parse_def u64_to_string_def del: dec_nat.simps)
qed

section \<open>Lemmas\<close>

lemma split_at_byte_nonempty [simp]: "split_at_byte c bs \<noteq> []"
  by (induction bs) (auto split: list.splits)

lemma split_at_byte_clean: "c \<notin> set p \<Longrightarrow> split_at_byte c p = [p]"
  by (induction p) auto

lemma split_at_byte_append: "c \<notin> set p \<Longrightarrow> split_at_byte c (p @ c # bs) = p # split_at_byte c bs"
  by (induction p) auto

lemma split_join: "ps \<noteq> [] \<Longrightarrow> \<forall>p \<in> set ps. c \<notin> set p \<Longrightarrow> split_at_byte c (join_with [c] ps) = ps"
  by (induction "[c]" ps rule: join_with.induct) (auto simp: split_at_byte_clean split_at_byte_append)

lemma split_once_append: "c \<notin> set p \<Longrightarrow> split_once c (p @ c # bs) = [p, bs]"
  by (auto simp: split_once_def takeWhile_append dropWhile_append)

text \<open>A word: not empty, without a white character anywhere.\<close>

definition is_word :: "bytes \<Rightarrow> bool" where
  "is_word w \<longleftrightarrow> w \<noteq> [] \<and> (\<forall>b \<in> set w. 0x21 \<le> b \<and> b \<le> 0x7E)"

lemma white_front_word: "0x21 \<le> b \<Longrightarrow> b \<le> 0x7E \<Longrightarrow> white_front (b # bs) = 0"
proof -
  assume b: "0x21 \<le> b" "b \<le> 0x7E"
  have "\<forall>w \<in> set white_chars. w \<noteq> [] \<and> (hd w < 0x21 \<or> 0x7E < hd w)" by (simp add: white_chars_def)
  then have "\<forall>w \<in> set white_chars. take (length w) (b # bs) \<noteq> w"
    using b by (metis (no_types) hd_take leD length_greater_0_conv list.sel(1))
  then have "find (\<lambda>w. take (length w) (b # bs) = w) white_chars = None" by (simp only: find_None_iff) blast
  then show ?thesis by (simp add: white_front_def)
qed

lemma white_end_word: "0x21 \<le> b \<Longrightarrow> b \<le> 0x7E \<Longrightarrow> white_end (bs @ [b]) = 0"
proof -
  assume b: "0x21 \<le> b" "b \<le> 0x7E"
  have last: "\<forall>w \<in> set white_chars. w \<noteq> [] \<and> (last w < 0x21 \<or> 0x7E < last w)" by (simp add: white_chars_def)
  have "drop (length (bs @ [b]) - length w) (bs @ [b]) \<noteq> w" if w: "w \<in> set white_chars" for w
  proof
    assume eq: "drop (length (bs @ [b]) - length w) (bs @ [b]) = w"
    then have "last w = b" using last w by (metis last_drop last_snoc drop_eq_Nil not_le)
    with last w b show False by (metis leD)
  qed
  then have "find (\<lambda>w. drop (length (bs @ [b]) - length w) (bs @ [b]) = w) white_chars = None"
    by (simp only: find_None_iff) blast
  then show ?thesis by (simp add: white_end_def)
qed

lemma white_front_space: "white_front (0x20 # bs) = 1"
  by (simp add: white_front_def white_chars_def)

lemma split_words_word:
  "\<forall>b \<in> set w. 0x21 \<le> b \<and> b \<le> 0x7E \<Longrightarrow> split_words word (w @ bs) = split_words (word @ w) bs"
proof (induction w arbitrary: word)
  case (Cons b w)
  have "split_words word ((b # w) @ bs) = split_words (word @ [b]) (w @ bs)"
    using Cons.prems by (subst split_words.simps) (simp add: white_front_word)
  with Cons show ?case by simp
qed simp

lemma split_words_space: "word \<noteq> [] \<Longrightarrow> split_words word (0x20 # bs) = word # split_words [] bs"
  by (subst split_words.simps) (simp add: white_front_space)

lemma split_whitespace_words: "\<forall>w \<in> set ws. is_word w \<Longrightarrow> split_whitespace (join_with [0x20] ws) = ws"
  unfolding split_whitespace_def
proof (induction "[0x20 :: u8]" ws rule: join_with.induct)
  case 1
  show ?case by (simp add: split_words.simps)
next
  case (2 p)
  then show ?case using split_words_word [of p "[]" "[]"] by (simp add: is_word_def split_words.simps [of p "[]"])
next
  case (3 p q ps)
  then show ?case using split_words_word [of p "[]"] by (simp add: is_word_def split_words_space)
qed

end
