(* ===== verification/Service.thy ===== *)
theory Service
  imports Runtime Text
begin

text \<open>
  The services in front of a runtime: the JSON protocol with its registry of nodes
  (\<open>src/src/runtime/service.rs\<close>) and the gRPC service (\<open>src/src/runtime/grpc_service.rs\<close>).

  The runtime behind a service is an argument \<open>submit\<close>: it takes an operation and its state and says what becomes
  of the request: the channel to the runtime is closed, the answer is dropped, it is given, or it never comes, as for
  a write of a leader that has lost its majority. A service that waits for such an answer does nothing more. JSON
  texts are read and written by \<open>serde_json\<close>, which is a parameter; sockets are byte sequences. The
  registry of nodes is updated by tasks of their own, which a connection only starts; they run later, in any order.
\<close>

section \<open>The registry of nodes\<close>

type_synonym cluster_manager = "(u64 \<times> rstring) list"

definition cluster_manager_new :: "(u64 \<times> rstring) list \<Rightarrow> cluster_manager" where
  "cluster_manager_new initial = fold (\<lambda>(i, addr). AList.update i addr) initial []"

definition get_address :: "u64 \<Rightarrow> cluster_manager \<Rightarrow> rstring option" where
  "get_address node_id cm = map_of cm node_id"

definition manager_add_node :: "u64 \<Rightarrow> rstring \<Rightarrow> cluster_manager \<Rightarrow> cluster_manager" where
  "manager_add_node node_id addr cm = AList.update node_id addr cm"

definition manager_remove_node :: "u64 \<Rightarrow> cluster_manager \<Rightarrow> cluster_manager" where
  "manager_remove_node node_id cm = AList.delete node_id cm"

definition cluster_manager_default :: cluster_manager where
  "cluster_manager_default = cluster_manager_new
     [(1, str ''node1:7001''), (2, str ''node2:7002''), (3, str ''node3:7003'')]"

section \<open>Wire types\<close>

datatype wire_value = WInt i64 | WFloat f64 | WString rstring

datatype wire_request =
    WSet rstring wire_value
  | WGet rstring
  | WDelete rstring
  | WStatus
  | WAddNode u64 rstring
  | WRemoveNode u64

record wire_response =
  wr_success :: bool
  wr_value :: "wire_value option"
  wr_message :: rstring
  wr_leader_id :: "u64 option"
  wr_term :: u64

fun from_wire :: "wire_value \<Rightarrow> val" where
  "from_wire (WInt v) = VInt v"
| "from_wire (WFloat v) = VFloat v"
| "from_wire (WString v) = VString v"

fun to_wire :: "val \<Rightarrow> wire_value" where
  "to_wire (VInt v) = WInt v"
| "to_wire (VFloat v) = WFloat v"
| "to_wire (VString v) = WString v"

fun wire_operation :: "wire_request \<Rightarrow> service_operation" where
  "wire_operation (WSet key v) = SvSet key (from_wire v)"
| "wire_operation (WGet key) = SvGet key"
| "wire_operation (WDelete key) = SvDelete key"
| "wire_operation WStatus = SvStatus"
| "wire_operation (WAddNode i addr) = SvAddNode i addr"
| "wire_operation (WRemoveNode i) = SvRemoveNode i"

text \<open>
  The tasks that update the registry: a request starts its task before it is sent to the runtime, and the
  task runs at some later time.
\<close>

datatype registry_task = AddTask u64 rstring | RemoveTask u64

fun registry_tasks :: "wire_request \<Rightarrow> registry_task list" where
  "registry_tasks (WAddNode i addr) = [AddTask i addr]"
| "registry_tasks (WRemoveNode i) = [RemoveTask i]"
| "registry_tasks _ = []"

fun run_task :: "registry_task \<Rightarrow> cluster_manager \<Rightarrow> cluster_manager" where
  "run_task (AddTask i addr) cm = manager_add_node i addr cm"
| "run_task (RemoveTask i) cm = manager_remove_node i cm"

section \<open>The JSON protocol\<close>

record json_ext =
  parse_request :: "rstring \<Rightarrow> rstring + wire_request"
  print_response :: "wire_response \<Rightarrow> bytes io"

text \<open>What becomes of a request: \<open>Unanswered\<close> stands for a channel that stays open and is never written.\<close>

datatype reply = Closed | Dropped | Unanswered | Answered service_response

type_synonym 's submit = "service_operation \<Rightarrow> 's \<Rightarrow> reply \<times> 's"

definition failure_response :: "rstring \<Rightarrow> wire_response" where
  "failure_response msg =
     \<lparr>wr_success = False, wr_value = None, wr_message = msg, wr_leader_id = None, wr_term = 0\<rparr>"

fun wire_answer :: "reply \<Rightarrow> wire_response option" where
  "wire_answer Closed = Some (failure_response (str ''Raft runtime unavailable''))"
| "wire_answer Dropped = Some (failure_response (str ''Raft runtime dropped the response''))"
| "wire_answer Unanswered = None"
| "wire_answer (Answered r) = Some
     \<lparr>wr_success = sv_success r, wr_value = map_option to_wire (sv_value r), wr_message = sv_message r,
      wr_leader_id = sv_leader_id r, wr_term = sv_term r\<rparr>"

text \<open>The answer to one line, unless it never comes, with the tasks started so far and the runtime.\<close>

definition serve_line ::
  "json_ext \<Rightarrow> 's submit \<Rightarrow> rstring \<Rightarrow> registry_task list \<times> 's \<Rightarrow>
    wire_response option \<times> registry_task list \<times> 's" where
  "serve_line J submit line = (\<lambda>(tasks, s).
     case parse_request J (trim line) of
       Inl e \<Rightarrow> (Some (failure_response (str ''Invalid JSON request: '' @ e)), tasks, s)
     | Inr request \<Rightarrow>
         (case submit (wire_operation request) s of
            (reply, s) \<Rightarrow> (wire_answer reply, tasks @ registry_tasks request, s)))"

text \<open>\<open>read_line\<close>: up to and with the next newline, or to the end.\<close>

definition read_line :: "bytes \<Rightarrow> bytes \<times> bytes" where
  "read_line bs =
     (if 10 \<in> set bs then (takeWhile (\<lambda>b. b \<noteq> 10) bs @ [10], tl (dropWhile (\<lambda>b. b \<noteq> 10) bs)) else (bs, []))"

lemma read_line_progress: "bs \<noteq> [] \<Longrightarrow> length (snd (read_line bs)) < length bs"
  by (cases bs) (auto simp: read_line_def less_Suc_eq_le intro: order_trans [OF diff_le_self length_dropWhile_le])

text \<open>
  The bytes that are written back, the tasks started and the runtime afterwards, and the result: \<open>None\<close>
  when the connection waits for an answer that never comes.
\<close>

function handle_connection ::
  "json_ext \<Rightarrow> 's submit \<Rightarrow> bytes \<Rightarrow> registry_task list \<times> 's \<Rightarrow>
    bytes \<times> (registry_task list \<times> 's) \<times> unit io option" where
  "handle_connection J submit bs st =
     (if bs = [] then ([], st, Some (Inr ()))
      else if \<not> utf8_valid (fst (read_line bs)) then
        ([], st, Some (Inl (IoError InvalidData (str ''stream did not contain valid UTF-8''))))
      else
        case serve_line J submit (fst (read_line bs)) st of
          (None, st) \<Rightarrow> ([], st, None)
        | (Some response, st) \<Rightarrow>
            (case print_response J response of
               Inl e \<Rightarrow> ([], st, Some (Inl e))
             | Inr printed \<Rightarrow>
                 (case handle_connection J submit (snd (read_line bs)) st of
                    (rest, st, result) \<Rightarrow> (printed @ [10] @ rest, st, result))))"
  by pat_completeness auto
termination
  by (relation "measure (\<lambda>(J, submit, bs, st). length bs)") (simp_all add: read_line_progress)

declare handle_connection.simps [simp del]

section \<open>The gRPC service\<close>

text \<open>The protobuf value, whose \<open>oneof\<close> may be missing, and the statuses that the service returns.\<close>

datatype proto_data = IntValue i64 | FloatValue f64 | StringValue rstring

type_synonym proto_value = "proto_data option"

datatype grpc_status = Unavailable rstring | Internal rstring | InvalidArgument rstring

record kv_response =
  kv_success :: bool
  kv_value :: "proto_value option"
  kv_message :: rstring
  kv_leader_id :: "u64 option"
  kv_term :: u64

text \<open>\<open>f64::is_finite\<close> on the bit pattern: not all bits of the exponent are set.\<close>

definition f64_is_finite :: "f64 \<Rightarrow> bool" where
  "f64_is_finite a \<longleftrightarrow> a AND 0x7FF0000000000000 \<noteq> 0x7FF0000000000000"

definition from_proto :: "proto_value \<Rightarrow> grpc_status + val" where
  "from_proto value =
     (case value of
        Some (IntValue v) \<Rightarrow> Inr (VInt v)
      | Some (FloatValue v) \<Rightarrow>
          if \<not> f64_is_finite v then Inl (InvalidArgument (str ''float value must be finite'')) else Inr (VFloat v)
      | Some (StringValue v) \<Rightarrow> Inr (VString v)
      | None \<Rightarrow> Inl (InvalidArgument (str ''value is required'')))"

fun to_proto :: "val \<Rightarrow> proto_value" where
  "to_proto (VInt v) = Some (IntValue v)"
| "to_proto (VFloat v) = Some (FloatValue v)"
| "to_proto (VString v) = Some (StringValue v)"

definition to_response :: "service_response \<Rightarrow> kv_response" where
  "to_response r =
     \<lparr>kv_success = sv_success r, kv_value = map_option to_proto (sv_value r), kv_message = sv_message r,
      kv_leader_id = sv_leader_id r, kv_term = sv_term r\<rparr>"

text \<open>The calls of the gRPC service: the response, unless the call waits for ever.\<close>

definition dispatch :: "'s submit \<Rightarrow> service_operation \<Rightarrow> 's \<Rightarrow> (grpc_status + service_response) option \<times> 's" where
  "dispatch submit operation s =
     (case submit operation s of
        (Closed, s) \<Rightarrow> (Some (Inl (Unavailable (str ''Raft runtime unavailable''))), s)
      | (Dropped, s) \<Rightarrow> (Some (Inl (Internal (str ''Raft runtime dropped the response''))), s)
      | (Unanswered, s) \<Rightarrow> (None, s)
      | (Answered r, s) \<Rightarrow> (Some (Inr r), s))"

type_synonym grpc_result = "(grpc_status + kv_response) option"

definition dispatch_response :: "'s submit \<Rightarrow> service_operation \<Rightarrow> 's \<Rightarrow> grpc_result \<times> 's" where
  "dispatch_response submit operation s =
     (case dispatch submit operation s of (result, s) \<Rightarrow> (map_option (map_sum id to_response) result, s))"

definition grpc_get :: "'s submit \<Rightarrow> rstring \<Rightarrow> 's \<Rightarrow> grpc_result \<times> 's" where
  "grpc_get submit key = dispatch_response submit (SvGet key)"

definition grpc_set :: "'s submit \<Rightarrow> rstring \<Rightarrow> proto_value option \<Rightarrow> 's \<Rightarrow> grpc_result \<times> 's" where
  "grpc_set submit key value s =
     (case value of
        None \<Rightarrow> (Some (Inl (InvalidArgument (str ''value is required''))), s)
      | Some value \<Rightarrow>
          (case from_proto value of
             Inl status \<Rightarrow> (Some (Inl status), s)
           | Inr v \<Rightarrow> dispatch_response submit (SvSet key v) s))"

definition grpc_delete :: "'s submit \<Rightarrow> rstring \<Rightarrow> 's \<Rightarrow> grpc_result \<times> 's" where
  "grpc_delete submit key = dispatch_response submit (SvDelete key)"

definition grpc_status_call :: "'s submit \<Rightarrow> 's \<Rightarrow> grpc_result \<times> 's" where
  "grpc_status_call submit = dispatch_response submit SvStatus"

section \<open>Properties\<close>

text \<open>
  What a connection is to do, said without it: the requests of some lines, and the replies when some operations are
  made one after the other, none after one that is not answered.
\<close>

definition request_of :: "json_ext \<Rightarrow> bytes \<Rightarrow> rstring + wire_request" where
  "request_of J line = parse_request J (trim (line @ [10]))"

definition requests :: "json_ext \<Rightarrow> bytes list \<Rightarrow> wire_request list" where
  "requests J lines = concat (map (\<lambda>l. case request_of J l of Inl _ \<Rightarrow> [] | Inr r \<Rightarrow> [r]) lines)"

fun replies :: "'s submit \<Rightarrow> service_operation list \<Rightarrow> 's \<Rightarrow> reply list \<times> 's" where
  "replies submit [] s = ([], s)"
| "replies submit (op # ops) s =
     (case submit op s of (r, s) \<Rightarrow>
        if r = Unanswered then ([r], s) else (case replies submit ops s of (rs, s) \<Rightarrow> (r # rs, s)))"

lemma requests_simps [simp]:
  "requests J [] = []"
  "request_of J l = Inl e \<Longrightarrow> requests J (l # ls) = requests J ls"
  "request_of J l = Inr r \<Longrightarrow> requests J (l # ls) = r # requests J ls"
  by (simp_all add: requests_def)

lemma wire_answer_None [simp]: "wire_answer r = None \<longleftrightarrow> r = Unanswered"
  by (cases r) simp_all

lemma read_line_line: "10 \<notin> set l \<Longrightarrow> read_line ((l @ [10]) @ bs) = (l @ [10], bs)"
  by (simp add: read_line_def takeWhile_append dropWhile_append)

text \<open>The text that answers the \<open>i\<close>-th of some lines, when \<open>rs\<close> are the replies to their requests.\<close>

definition answer_text :: "json_ext \<Rightarrow> bytes list \<Rightarrow> reply list \<Rightarrow> nat \<Rightarrow> bytes \<Rightarrow> bool" where
  "answer_text J lines rs i text \<longleftrightarrow>
     (case request_of J (lines ! i) of
        Inl e \<Rightarrow> print_response J (failure_response (str ''Invalid JSON request: '' @ e)) = Inr text
      | Inr _ \<Rightarrow> length (requests J (take i lines)) < length rs \<and>
          (\<exists>response. wire_answer (rs ! length (requests J (take i lines))) = Some response \<and>
             print_response J response = Inr text))"

lemma answer_text_Cons:
  "request_of J l = Inl e \<Longrightarrow> answer_text J (l # lines) rs (Suc i) text = answer_text J lines rs i text"
  "request_of J l = Inr req \<Longrightarrow> answer_text J (l # lines) (r # rs) (Suc i) text = answer_text J lines rs i text"
  by (simp_all add: answer_text_def split: sum.split)

definition newlines :: "bytes list \<Rightarrow> bytes" where
  "newlines lines = concat (map (\<lambda>l. l @ [10]) lines)"

lemma newlines_simps [simp]: "newlines [] = []" "newlines (l # ls) = l @ [10] @ newlines ls"
  by (simp_all add: newlines_def)

definition plain_line :: "bytes \<Rightarrow> bool" where
  "plain_line l \<longleftrightarrow> 10 \<notin> set l \<and> utf8_valid (l @ [10])"

lemma handle_connection_line:
  assumes "plain_line l"
  shows "handle_connection J submit (newlines (l # lines)) st =
    (case serve_line J submit (l @ [10]) st of
       (None, st) \<Rightarrow> ([], st, None)
     | (Some response, st) \<Rightarrow>
         (case print_response J response of
            Inl e \<Rightarrow> ([], st, Some (Inl e))
          | Inr printed \<Rightarrow>
              (case handle_connection J submit (newlines lines) st of
                 (rest, st, result) \<Rightarrow> (printed @ [10] @ rest, st, result))))"
  using assms read_line_line [of l "newlines lines"]
  by (subst handle_connection.simps) (simp add: plain_line_def split: prod.splits option.splits sum.splits)

text \<open>
  What a connection leaves that was sent some lines: the written texts are single lines, each answers the line at its place,
  the runtime has got the operations of the requests one by one and the tasks of these requests were started. Without an unanswered
  request all lines are answered; otherwise the texts end before the line of this request, which is the last that was made.
\<close>

definition connection_ok ::
  "json_ext \<Rightarrow> 's submit \<Rightarrow> bytes list \<Rightarrow> registry_task list \<times> 's \<Rightarrow> bytes list \<Rightarrow>
    registry_task list \<times> 's \<Rightarrow> unit io option \<Rightarrow> bool" where
  "connection_ok J submit lines st texts st' result \<longleftrightarrow>
     (case replies submit (map wire_operation (requests J lines)) (snd st) of (rs, s') \<Rightarrow>
        length texts \<le> length lines \<and> (\<forall>text \<in> set texts. 10 \<notin> set text) \<and>
        (\<forall>i < length texts. answer_text J lines rs i (texts ! i)) \<and>
        st' = (fst st @ concat (map registry_tasks (take (length rs) (requests J lines))), s') \<and>
        (if Unanswered \<in> set rs
         then result = None \<and> length texts < length lines \<and> length (requests J (take (length texts + 1) lines)) = length rs
         else result = Some (Inr ()) \<and> length texts = length lines))"

lemma connection_ok_Nil: "connection_ok J submit [] st [] st (Some (Inr ()))"
  by (simp add: connection_ok_def)

lemma connection_ok_invalid:
  assumes "request_of J l = Inl e" and "print_response J (failure_response (str ''Invalid JSON request: '' @ e)) = Inr text"
    and "10 \<notin> set text" and "connection_ok J submit lines st texts st' result"
  shows "connection_ok J submit (l # lines) st (text # texts) st' result"
proof -
  obtain rs s' where "replies submit (map wire_operation (requests J lines)) (snd st) = (rs, s')" by force
  moreover have "answer_text J (l # lines) rs 0 text" using assms(1,2) by (simp add: answer_text_def)
  ultimately show ?thesis
    using assms by (auto simp: connection_ok_def All_less_Suc2 answer_text_Cons)
qed

lemma connection_ok_waiting:
  assumes "request_of J l = Inr req" and "submit (wire_operation req) s = (Unanswered, s')"
  shows "connection_ok J submit (l # lines) (tasks, s) [] (tasks @ registry_tasks req, s') None"
  using assms by (simp add: connection_ok_def)

lemma connection_ok_answered:
  assumes "request_of J l = Inr req" and "submit (wire_operation req) s = (reply, s1)" and "wire_answer reply = Some response"
    and "print_response J response = Inr text" and "10 \<notin> set text"
    and "connection_ok J submit lines (tasks @ registry_tasks req, s1) texts st' result"
  shows "connection_ok J submit (l # lines) (tasks, s) (text # texts) st' result"
proof -
  have reply: "reply \<noteq> Unanswered" using assms(3) by auto
  obtain rs s' where "replies submit (map wire_operation (requests J lines)) s1 = (rs, s')" by force
  moreover have "answer_text J (l # lines) (reply # rs) 0 text" using assms by (simp add: answer_text_def)
  ultimately show ?thesis
    using assms reply by (auto simp: connection_ok_def All_less_Suc2 answer_text_Cons)
qed

text \<open>One line more in front.\<close>

lemma connection_line:
  assumes "plain_line l" and "\<forall>r. \<exists>out. print_response J r = Inr out \<and> 10 \<notin> set out"
    and rest: "\<And>st. \<exists>texts st' result. handle_connection J submit (newlines lines) st = (newlines texts, st', result) \<and>
      connection_ok J submit lines st texts st' result"
  shows "\<exists>texts st' result. handle_connection J submit (newlines (l # lines)) st = (newlines texts, st', result) \<and>
    connection_ok J submit (l # lines) st texts st' result"
proof -
  obtain tasks s where st: "st = (tasks, s)" by force
  note line = handle_connection_line [of l J submit lines st]
  show ?thesis
  proof (cases "request_of J l")
    case (Inl e)
    define r where "r = failure_response (str ''Invalid JSON request: '' @ e)"
    obtain line_out where out: "print_response J r = Inr line_out" "10 \<notin> set line_out" using assms(2) by blast
    from rest [of st] obtain texts st' result where
      "handle_connection J submit (newlines lines) st = (newlines texts, st', result)"
      "connection_ok J submit lines st texts st' result" by blast
    moreover have "serve_line J submit (l @ [10]) st = (Some r, st)"
      using Inl by (simp add: serve_line_def request_of_def st r_def)
    ultimately have "handle_connection J submit (newlines (l # lines)) st = (newlines (line_out # texts), st', result) \<and>
        connection_ok J submit (l # lines) st (line_out # texts) st' result"
      using assms(1) line out connection_ok_invalid [OF Inl _ out(2)] by (simp add: r_def)
    then show ?thesis by blast
  next
    case (Inr req)
    obtain reply s1 where reply: "submit (wire_operation req) s = (reply, s1)" by force
    let ?st1 = "(tasks @ registry_tasks req, s1)"
    have serve: "serve_line J submit (l @ [10]) st = (wire_answer reply, ?st1)"
      using Inr reply by (simp add: serve_line_def request_of_def st)
    show ?thesis
    proof (cases "wire_answer reply")
      case None
      then have "handle_connection J submit (newlines (l # lines)) st = (newlines [], ?st1, None)"
        using assms(1) line serve by simp
      moreover have "connection_ok J submit (l # lines) st [] ?st1 None"
        unfolding st by (rule connection_ok_waiting [OF Inr]) (use reply None in simp)
      ultimately show ?thesis by blast
    next
      case (Some r)
      obtain line_out where out: "print_response J r = Inr line_out" "10 \<notin> set line_out" using assms(2) by blast
      from rest [of ?st1] obtain texts st' result where rest:
        "handle_connection J submit (newlines lines) ?st1 = (newlines texts, st', result)"
        "connection_ok J submit lines ?st1 texts st' result" by blast
      have "handle_connection J submit (newlines (l # lines)) st = (newlines (line_out # texts), st', result)"
        using assms(1) line serve Some out rest by simp
      with connection_ok_answered [OF Inr reply Some out rest(2)] show ?thesis unfolding st by blast
    qed
  qed
qed

text \<open>
  C35. A connection of the JSON service answers its lines by one line each, in order: when a client sends lines of UTF-8
  text and the responses are printed without a newline, the requests of the lines reach the runtime in their order
  and once each, a line that is no request is answered by an error and makes none, and the \<open>i\<close>-th line written back is the
  response to the \<open>i\<close>-th line. The connection ends without an error once all lines are answered; when the runtime never
  answers a request, the lines before it are answered, the connection waits, and no later line is read. A task to update the
  registry is started for every request of a change of nodes that was made.
\<close>

theorem connection_answers_lines:
  assumes "\<forall>l \<in> set lines. plain_line l" and "\<forall>r. \<exists>out. print_response J r = Inr out \<and> 10 \<notin> set out"
  shows "\<exists>texts st' result. handle_connection J submit (newlines lines) st = (newlines texts, st', result) \<and>
    connection_ok J submit lines st texts st' result"
  using assms(1)
proof (induction lines arbitrary: st)
  case Nil
  have "handle_connection J submit (newlines []) st = (newlines [], st, Some (Inr ()))" by (simp add: handle_connection.simps)
  then show ?case using connection_ok_Nil by blast
next
  case (Cons l lines)
  show ?case by (rule connection_line [OF _ assms(2)]) (use Cons in simp_all)
qed

text \<open>
  The two services agree on a write: the JSON service and the gRPC service make the same request of the runtime for the
  same key and finite value, wait for ever in the same cases, and report the same outcome; a failure of the runtime is a
  status of one and an unsuccessful response of the other.
\<close>

theorem services_agree:
  assumes "parse_request J (trim line) = Inr (WSet key (to_wire v))" and "\<forall>f. v = VFloat f \<longrightarrow> f64_is_finite f"
    and "serve_line J submit line (tasks, s) = (w, tasks', s')" and "grpc_set submit key (Some (to_proto v)) s = (g, s'')"
  shows "s'' = s' \<and> (w = None \<longleftrightarrow> g = None) \<and> (case (w, g) of
      (Some w, Some (Inl _)) \<Rightarrow> \<not> wr_success w
    | (Some w, Some (Inr r)) \<Rightarrow> kv_success r = wr_success w \<and> kv_value r = map_option (to_proto \<circ> from_wire) (wr_value w) \<and>
        kv_message r = wr_message w \<and> kv_leader_id r = wr_leader_id w \<and> kv_term r = wr_term w
    | _ \<Rightarrow> True)"
proof -
  have wire: "from_wire (to_wire x) = x" for x by (cases x) simp_all
  have proto: "from_proto (to_proto v) = Inr v" using assms(2) by (cases v) (simp_all add: from_proto_def)
  obtain answer t where submit: "submit (SvSet key v) s = (answer, t)" by force
  have w: "w = wire_answer answer" "s' = t" using assms(1,3) submit by (auto simp: serve_line_def wire)
  have g: "s'' = t" "g = (case answer of Closed \<Rightarrow> Some (Inl (Unavailable (str ''Raft runtime unavailable'')))
      | Dropped \<Rightarrow> Some (Inl (Internal (str ''Raft runtime dropped the response''))) | Unanswered \<Rightarrow> None
      | Answered r \<Rightarrow> Some (Inr (to_response r)))"
    using assms(4) submit proto by (auto simp: grpc_set_def dispatch_response_def dispatch_def split: reply.splits)
  show ?thesis
    using w g
    by (cases answer) (simp_all add: failure_response_def to_response_def option.map_comp comp_def wire)
qed

text \<open>
  The gRPC service writes only finite values: a write without a value or with a float that is not finite is refused
  with \<open>InvalidArgument\<close> and makes no request, whatever the runtime does; every other value comes back from its
  protobuf form.
\<close>

theorem grpc_set_validates:
  "(if \<exists>f. v = VFloat f \<and> \<not> f64_is_finite f
    then \<exists>msg. grpc_set submit key (Some (to_proto v)) s = (Some (Inl (InvalidArgument msg)), s)
    else from_proto (to_proto v) = Inr v) \<and>
   (\<exists>msg. grpc_set submit key None s = (Some (Inl (InvalidArgument msg)), s)) \<and>
   (\<exists>msg. grpc_set submit key (Some None) s = (Some (Inl (InvalidArgument msg)), s))"
  by (cases v) (simp_all add: grpc_set_def from_proto_def)

text \<open>
  The tasks that update the registry may run in another order than the requests that start them: a node that is removed and then
  added again under a new address is missing from the registry when the second task runs first.
\<close>

lemma registry_tasks_race:
  "concat (map registry_tasks [WRemoveNode i, WAddNode i addr]) = [RemoveTask i, AddTask i addr] \<and>
   get_address i (fold run_task [RemoveTask i, AddTask i addr] cm) = Some addr \<and>
   get_address i (fold run_task [AddTask i addr, RemoveTask i] cm) = None"
  by (simp add: get_address_def manager_add_node_def manager_remove_node_def update_conv' delete_conv')

subsection \<open>Witnesses\<close>

text \<open>
  A parser that takes every text for a write of it, and a runtime that records the requests and answers all but the
  second.
\<close>

definition sample_json :: json_ext where
  "sample_json =
     \<lparr>parse_request = (\<lambda>line. if line = [] then Inl [] else Inr (WSet line (WInt 5))),
      print_response = (\<lambda>r. Inr (if wr_success r then [79, 75] else [69]))\<rparr>"

definition sample_submit :: "service_operation list submit" where
  "sample_submit op ops =
     (if length ops = 1 then Unanswered
      else Answered \<lparr>sv_success = True, sv_value = None, sv_message = [], sv_leader_id = None, sv_term = 1\<rparr>, ops @ [op])"

lemma sample_trim: "trim [107, 10] = [107]" "trim [107] = [107]" "trim [10] = []"
  by (simp_all add: trim_def trim_start.simps trim_end.simps white_front_def white_end_def white_chars_def)

text \<open>Of the four lines, the first two are answered, the request of the third never is, and the fourth is not read.\<close>

theorem connection_answers_lines_witness:
  "\<exists>texts st' result.
    handle_connection sample_json sample_submit (newlines [[107], [], [107], [107]]) ([], []) = (newlines texts, st', result) \<and>
    connection_ok sample_json sample_submit [[107], [], [107], [107]] ([], []) texts st' result \<and>
    st' = ([], [SvSet [107] (VInt 5), SvSet [107] (VInt 5)]) \<and> result = None \<and> length texts < 4"
proof -
  let ?lines = "[[107], [], [107], [107]] :: bytes list"
  have "\<forall>l \<in> set ?lines. plain_line l" by (simp add: plain_line_def)
  moreover have "\<forall>r. \<exists>text. print_response sample_json r = Inr text \<and> 10 \<notin> set text" by (simp add: sample_json_def)
  ultimately obtain texts st' result where
    run: "handle_connection sample_json sample_submit (newlines ?lines) ([], []) = (newlines texts, st', result)"
      "connection_ok sample_json sample_submit ?lines ([], []) texts st' result"
    using connection_answers_lines [of ?lines sample_json sample_submit "([], [])"] by blast
  have "requests sample_json ?lines = [WSet [107] (WInt 5), WSet [107] (WInt 5), WSet [107] (WInt 5)]"
    by (simp add: requests_def request_of_def sample_trim sample_json_def)
  then have "st' = ([], [SvSet [107] (VInt 5), SvSet [107] (VInt 5)]) \<and> result = None \<and> length texts < 4"
    using run(2) by (simp add: connection_ok_def sample_submit_def)
  with run show ?thesis by blast
qed

theorem services_agree_witness:
  "snd (grpc_set sample_submit [107] (Some (to_proto (VInt 5))) []) = snd (snd (serve_line sample_json sample_submit [107] ([], [])))"
proof -
  obtain w tasks s' where w: "serve_line sample_json sample_submit [107] ([], []) = (w, tasks, s')" by (metis prod_cases3)
  obtain g s'' where g: "grpc_set sample_submit [107] (Some (to_proto (VInt 5))) [] = (g, s'')" by force
  have "parse_request sample_json (trim [107]) = Inr (WSet [107] (to_wire (VInt 5)))" by (simp add: sample_trim sample_json_def)
  from services_agree [OF this _ w g] w g show ?thesis by simp
qed

end
