(* ===== verification/Network.thy ===== *)
theory Network
  imports Raft_Log_Store "HOL-Library.Sublist"
begin

text \<open>
  The transport between the nodes (\<open>src/src/raft/network.rs\<close>): connections with a handshake, a
  writer task and a reader task each, the table of the senders, the registry of the peers.

  A connection is a pair of byte streams. The tasks of the runtime are operations on the state of the
  network that may happen in any order; a task that waits is an operation that changes nothing. What the
  other end sends, and whether the operating system can connect, are arguments of the operations.
\<close>

section \<open>Codec\<close>

text \<open>\<open>bincode::serialize_into\<close> and \<open>bincode::deserialize\<close> at the type of messages.\<close>

record net_ext = raft_ext +
  serialize_message :: "message \<Rightarrow> bytes io"
  deserialize_message :: "bytes \<Rightarrow> message io"

definition MAX_MESSAGE_SIZE :: nat where
  "MAX_MESSAGE_SIZE = 16 * 1024 * 1024"

section \<open>Frames\<close>

text \<open>One round of the writer task: a message that cannot be serialised is skipped.\<close>

definition write_frame :: "'x net_ext_scheme \<Rightarrow> message \<Rightarrow> bytes" where
  "write_frame E msg =
     (case serialize_message E msg of
        Inl _ \<Rightarrow> []
      | Inr buf \<Rightarrow> u32_be (of_nat (length buf)) @ buf)"

text \<open>
  One round of the reader task: \<open>Inr None\<close> when the stream ends before a length, an error when the task
  ends for another reason.
\<close>

definition read_message :: "'x net_ext_scheme \<Rightarrow> bytes \<Rightarrow> (message \<times> bytes) option io" where
  "read_message E bs =
     (case read_exact 4 bs of
        Inl _ \<Rightarrow> Inr None
      | Inr (len_buf, rest) \<Rightarrow>
          let len = unat (u32_from_be len_buf) in
          if len > MAX_MESSAGE_SIZE then Inl (IoError InvalidData (str ''Message is too large''))
          else
            and_then (read_exact len rest) (\<lambda>(msg_buf, rest).
            and_then (deserialize_message E msg_buf) (\<lambda>msg. Inr (Some (msg, rest)))))"

lemma read_message_progress: "read_message E bs = Inr (Some (msg, rest)) \<Longrightarrow> length rest < length bs"
  by (auto simp: read_message_def and_then_eq_Inr read_exact_Inr Let_def split: sum.splits prod.splits if_splits)

text \<open>The messages that the reader task hands to the node from a stream, and where it stopped at an error.\<close>

function reader_loop :: "'x net_ext_scheme \<Rightarrow> message list \<Rightarrow> nat \<Rightarrow> bytes \<Rightarrow> message list \<times> nat option" where
  "reader_loop E acc pos bs =
     (case read_message E bs of
        Inr (Some (msg, rest)) \<Rightarrow> reader_loop E (acc @ [msg]) (pos + (length bs - length rest)) rest
      | Inr None \<Rightarrow> (acc, None)
      | Inl e \<Rightarrow> (acc, Some pos))"
  by pat_completeness auto
termination
  by (relation "measure (\<lambda>(E, acc, pos, bs). length bs)") (auto dest: read_message_progress)

declare reader_loop.simps [simp del]

text \<open>
  What the code relies on: a message is read back from its own bytes. The reader accepts up to 16 MiB.
\<close>

definition message_codec_ok :: "'x net_ext_scheme \<Rightarrow> message \<Rightarrow> bool" where
  "message_codec_ok E msg \<longleftrightarrow>
     (case serialize_message E msg of
        Inl _ \<Rightarrow> False
      | Inr buf \<Rightarrow> length buf \<le> MAX_MESSAGE_SIZE \<and> deserialize_message E buf = Inr msg)"

lemma message_codec_okE:
  assumes "message_codec_ok E msg"
  obtains buf where "serialize_message E msg = Inr buf" "length buf \<le> MAX_MESSAGE_SIZE" "deserialize_message E buf = Inr msg"
    "write_frame E msg = u32_be (of_nat (length buf)) @ buf" "unat (of_nat (length buf) :: u32) = length buf"
proof -
  from assms obtain buf where buf: "serialize_message E msg = Inr buf" "length buf \<le> MAX_MESSAGE_SIZE" "deserialize_message E buf = Inr msg"
    by (auto simp: message_codec_ok_def split: sum.splits)
  then have "unat (of_nat (length buf) :: u32) = length buf"
    by (simp add: MAX_MESSAGE_SIZE_def unat_of_nat)
  with buf show thesis by (intro that) (simp_all add: write_frame_def)
qed

lemma read_message_frame: "message_codec_ok E msg \<Longrightarrow> read_message E (write_frame E msg @ rest) = Inr (Some (msg, rest))"
  by (erule message_codec_okE) (simp add: read_message_def Let_def)

lemma read_message_torn:
  assumes "message_codec_ok E msg" and "write_frame E msg = p @ q" and "q \<noteq> []"
  shows "read_message E p = Inr None \<or> (\<exists>e. read_message E p = Inl e)"
proof (cases "length p < 4")
  case True
  then show ?thesis by (simp add: read_message_def)
next
  case False
  from assms(1) obtain buf where buf: "length buf \<le> MAX_MESSAGE_SIZE" "write_frame E msg = u32_be (of_nat (length buf)) @ buf"
    "unat (of_nat (length buf) :: u32) = length buf" by (rule message_codec_okE)
  from buf(2) assms(2) have eq: "u32_be (of_nat (length buf)) @ buf = p @ q" by simp
  have "take 4 (u32_be (of_nat (length buf)) @ buf) = take 4 p" using False by (simp add: eq)
  then have head: "take 4 p = u32_be (of_nat (length buf))" by simp
  have "length (drop 4 p) < length buf" using arg_cong [OF eq, of length] assms(3) False by (cases q) auto
  then have "\<exists>e. read_message E p = Inl e"
    using False buf(1,3) by (simp add: read_message_def read_exact_def head Let_def)
  then show ?thesis ..
qed

lemma read_message_nil: "read_message E [] = Inr None"
  by (simp add: read_message_def)

interpretation frames: record_log "write_frame E" "read_message E" "message_codec_ok E" "reader_loop E"
  for E :: "'x net_ext_scheme"
proof
  show "reader_loop E acc pos bs =
      (case read_message E bs of
         Inr (Some (r, rest)) \<Rightarrow> reader_loop E (acc @ [r]) (pos + (length bs - length rest)) rest
       | Inr None \<Rightarrow> (acc, None) | Inl e \<Rightarrow> (acc, Some pos))" for acc pos bs
    by (rule reader_loop.simps)
qed (rule read_message_frame read_message_nil read_message_torn; assumption)+

section \<open>State\<close>

text \<open>
  \<open>cn_queue\<close> is the channel of the writer task, \<open>cn_written\<close> what it has written,
  \<open>cn_arrived\<close> what has arrived and is not read; \<open>cn_eof\<close> says that nothing more arrives,
  \<open>cn_reading\<close> that the reader task has not ended. \<open>cn_broken\<close> says that the writer task has ended
  because the other end is lost.
\<close>

record connection =
  cn_peer :: node_id
  cn_queue :: "message list"
  cn_written :: bytes
  cn_broken :: bool
  cn_arrived :: bytes
  cn_eof :: bool
  cn_reading :: bool

text \<open>
  A sender in the table of the active senders is the number of its connection. \<open>node_rx\<close> are the
  messages handed to the node.
\<close>

record network =
  nw_local_id :: node_id
  nw_local_addr :: rstring
  nw_peers :: "(node_id \<times> rstring) list"
  active_senders :: "(node_id \<times> nat) list"
  nw_connections :: "connection list"
  node_rx :: "message list"

definition network_new :: "node_id \<Rightarrow> rstring \<Rightarrow> (node_id \<times> rstring) list \<Rightarrow> network" where
  "network_new local_id local_addr peers =
     \<lparr>nw_local_id = local_id, nw_local_addr = local_addr, nw_peers = peers, active_senders = [],
      nw_connections = [], node_rx = []\<rparr>"

definition set_connection :: "nat \<Rightarrow> connection \<Rightarrow> network \<Rightarrow> network" where
  "set_connection c cn w = w\<lparr>nw_connections := (nw_connections w)[c := cn]\<rparr>"

section \<open>Operations\<close>

text \<open>\<open>NetworkTransport::send\<close>: a message for a peer without a connection, or with a broken one, is lost.\<close>

definition transport_send :: "node_id \<Rightarrow> message \<Rightarrow> network \<Rightarrow> network" where
  "transport_send to msg w =
     (case map_of (active_senders w) to of
        None \<Rightarrow> w
      | Some c \<Rightarrow>
          let cn = nw_connections w ! c in
          if c < length (nw_connections w) \<and> \<not> cn_broken cn then set_connection c (cn\<lparr>cn_queue := cn_queue cn @ [msg]\<rparr>) w
          else w)"

definition spawn_connection_tasks :: "node_id \<Rightarrow> bytes \<Rightarrow> bytes \<Rightarrow> network \<Rightarrow> network" where
  "spawn_connection_tasks peer_id written arrived w =
     w\<lparr>active_senders := AList.update peer_id (length (nw_connections w)) (active_senders w),
       nw_connections := nw_connections w @
         [\<lparr>cn_peer = peer_id, cn_queue = [], cn_written = written, cn_broken = False, cn_arrived = arrived, cn_eof = False,
           cn_reading = True\<rparr>]\<rparr>"

text \<open>The bytes that have arrived on an accepted connection, up to its end when they are fewer than 8.\<close>

definition handle_incoming_connection :: "bytes \<Rightarrow> network \<Rightarrow> network" where
  "handle_incoming_connection bs w =
     (case read_exact 8 bs of
        Inl _ \<Rightarrow> w
      | Inr (id_buf, rest) \<Rightarrow> spawn_connection_tasks (u64_from_be id_buf) [] rest w)"

text \<open>\<open>writable\<close> says whether the handshake can be written.\<close>

definition outgoing_spawn :: "node_id \<Rightarrow> network \<Rightarrow> network" where
  "outgoing_spawn peer_id w = spawn_connection_tasks peer_id (u64_be (nw_local_id w)) [] w"

definition handle_outgoing_connection :: "node_id \<Rightarrow> bool \<Rightarrow> network \<Rightarrow> network" where
  "handle_outgoing_connection peer_id writable w =
     (if \<not> writable then w
      else if map_of (active_senders w) peer_id \<noteq> None then w
      else outgoing_spawn peer_id w)"

text \<open>
  One round of the writer task of connection \<open>c\<close>; \<open>written\<close> is how much of the frame the operating system takes
  before the connection breaks, or \<open>None\<close> when it does not break.
\<close>

definition writer_step :: "'x net_ext_scheme \<Rightarrow> nat \<Rightarrow> nat option \<Rightarrow> network \<Rightarrow> network" where
  "writer_step E c written w =
     (if c < length (nw_connections w) then
        let cn = nw_connections w ! c in
        (case cn_queue cn of
           [] \<Rightarrow> w
         | msg # queue \<Rightarrow>
             if cn_broken cn then w
             else
               let frame = write_frame E msg;
                   cn = (case written of
                           None \<Rightarrow> cn\<lparr>cn_queue := queue, cn_written := cn_written cn @ frame\<rparr>
                         | Some k \<Rightarrow>
                             if k < length frame
                             then cn\<lparr>cn_queue := [], cn_written := cn_written cn @ take k frame, cn_broken := True\<rparr>
                             else cn\<lparr>cn_queue := queue, cn_written := cn_written cn @ frame\<rparr>) in
               set_connection c cn w)
      else w)"

text \<open>
  One round of the reader task of connection \<open>c\<close>: it waits while its next message is not complete and the stream
  has not ended. \<open>node_open\<close> says whether the node still takes messages.
\<close>

definition frame_ready :: "bytes \<Rightarrow> bool" where
  "frame_ready bs \<longleftrightarrow>
     4 \<le> length bs \<and>
     (let len = unat (u32_from_be (take 4 bs)) in len > MAX_MESSAGE_SIZE \<or> 4 + len \<le> length bs)"

definition end_reader :: "nat \<Rightarrow> network \<Rightarrow> network" where
  "end_reader c w =
     (let cn = nw_connections w ! c in
      set_connection c (cn\<lparr>cn_reading := False\<rparr>)
        (w\<lparr>active_senders := AList.delete (cn_peer cn) (active_senders w)\<rparr>))"

definition reader_step :: "'x net_ext_scheme \<Rightarrow> nat \<Rightarrow> bool \<Rightarrow> network \<Rightarrow> network" where
  "reader_step E c node_open w =
     (if c < length (nw_connections w) \<and> cn_reading (nw_connections w ! c) then
        let cn = nw_connections w ! c in
        if \<not> frame_ready (cn_arrived cn) \<and> \<not> cn_eof cn then w
        else
          (case read_message E (cn_arrived cn) of
             Inr (Some (msg, rest)) \<Rightarrow>
               if node_open then set_connection c (cn\<lparr>cn_arrived := rest\<rparr>) (w\<lparr>node_rx := node_rx w @ [msg]\<rparr>)
               else end_reader c w
           | _ \<Rightarrow> end_reader c w)
      else w)"

text \<open>Bytes of the other end, and the end of its stream.\<close>

definition bytes_arrive :: "nat \<Rightarrow> bytes \<Rightarrow> bool \<Rightarrow> network \<Rightarrow> network" where
  "bytes_arrive c bs eof w =
     (let cn = nw_connections w ! c in
      if c < length (nw_connections w) \<and> \<not> cn_eof cn
      then set_connection c (cn\<lparr>cn_arrived := cn_arrived cn @ bs, cn_eof := eof\<rparr>) w
      else w)"

text \<open>
  The reconnect task: one round over a snapshot of the registry. \<open>connect addr\<close> says whether a connection
  to an address can be made, and if so whether the handshake can be written.
\<close>

definition reconnect_peer :: "(rstring \<Rightarrow> bool option) \<Rightarrow> node_id \<times> rstring \<Rightarrow> network \<Rightarrow> network" where
  "reconnect_peer connect = (\<lambda>(peer_id, peer_addr) w.
     if nw_local_id w \<le> peer_id then w
     else if map_of (active_senders w) peer_id \<noteq> None then w
     else (case connect peer_addr of Some writable \<Rightarrow> handle_outgoing_connection peer_id writable w | None \<Rightarrow> w))"

definition reconnect_round :: "(rstring \<Rightarrow> bool option) \<Rightarrow> network \<Rightarrow> network" where
  "reconnect_round connect w = fold (reconnect_peer connect) (nw_peers w) w"

definition handle_peer_change :: "(rstring \<Rightarrow> bool option) \<Rightarrow> peer_change \<Rightarrow> network \<Rightarrow> network" where
  "handle_peer_change connect change w =
     (case change of
        AddPeer i addr \<Rightarrow>
          let w = w\<lparr>nw_peers := AList.update i addr (nw_peers w)\<rparr> in
          if nw_local_id w > i then
            (case connect addr of Some writable \<Rightarrow> handle_outgoing_connection i writable w | None \<Rightarrow> w)
          else w
      | RemovePeer i \<Rightarrow>
          w\<lparr>nw_peers := AList.delete i (nw_peers w), active_senders := AList.delete i (active_senders w)\<rparr>)"

section \<open>Runs of the network\<close>

text \<open>
  The tasks of a node, in any order, with what the outside does. An outgoing connection looks up its peer under one lock and
  is entered under another: \<open>Enter\<close> is the second half of one whose look-up was made at some earlier time.
\<close>

datatype net_op =
    Transport node_id message
  | Accept bytes
  | Write nat "nat option"
  | Read nat bool
  | Arrive nat bytes bool
  | Reconnect "rstring \<Rightarrow> bool option"
  | Change "rstring \<Rightarrow> bool option" peer_change
  | Enter node_id

fun net_apply :: "'x net_ext_scheme \<Rightarrow> net_op \<Rightarrow> network \<Rightarrow> network" where
  "net_apply E (Transport to msg) w = transport_send to msg w"
| "net_apply E (Accept bs) w = handle_incoming_connection bs w"
| "net_apply E (Write c written) w = writer_step E c written w"
| "net_apply E (Read c node_open) w = reader_step E c node_open w"
| "net_apply E (Arrive c bs eof) w = bytes_arrive c bs eof w"
| "net_apply E (Reconnect connect) w = reconnect_round connect w"
| "net_apply E (Change connect change) w = handle_peer_change connect change w"
| "net_apply E (Enter peer_id) w = outgoing_spawn peer_id w"

fun sent_to :: "node_id \<Rightarrow> net_op list \<Rightarrow> message list" where
  "sent_to p [] = []"
| "sent_to p (op # ops) = (case op of Transport to msg \<Rightarrow> if to = p then [msg] else [] | _ \<Rightarrow> []) @ sent_to p ops"

lemma sent_to_append [simp]: "sent_to p (xs @ ys) = sent_to p xs @ sent_to p ys"
  by (induction xs) auto

text \<open>
  What a connection has written is a handshake or nothing, then frames of messages that were sent to its peer, in
  order, and a torn frame when it broke.
\<close>

definition stream_ok :: "'x net_ext_scheme \<Rightarrow> node_id \<Rightarrow> message list \<Rightarrow> connection \<Rightarrow> bool" where
  "stream_ok E me sent cn \<longleftrightarrow>
     (\<exists>hs ms torn. hs \<in> {[], u64_be me} \<and> cn_written cn = hs @ concat (map (write_frame E) ms) @ torn \<and>
        (torn = [] \<and> subseq (ms @ cn_queue cn) sent \<or>
         cn_broken cn \<and> cn_queue cn = [] \<and> (\<exists>m rest. subseq (ms @ [m]) sent \<and> write_frame E m = torn @ rest)))"

definition net_inv :: "'x net_ext_scheme \<Rightarrow> node_id \<Rightarrow> net_op list \<Rightarrow> network \<Rightarrow> bool" where
  "net_inv E me ops w \<longleftrightarrow>
     nw_local_id w = me \<and>
     (\<forall>(p, c) \<in> set (active_senders w). c < length (nw_connections w) \<and> cn_peer (nw_connections w ! c) = p) \<and>
     (\<forall>cn \<in> set (nw_connections w). stream_ok E me (sent_to (cn_peer cn) ops) cn)"

lemma stream_ok_more: "stream_ok E me sent cn \<Longrightarrow> stream_ok E me (sent @ more') cn"
  unfolding stream_ok_def
proof (elim exE)
  fix hs ms torn
  assume *: "hs \<in> {[], u64_be me} \<and> cn_written cn = hs @ concat (map (write_frame E) ms) @ torn \<and>
    (torn = [] \<and> subseq (ms @ cn_queue cn) sent \<or>
     cn_broken cn \<and> cn_queue cn = [] \<and> (\<exists>m rest. subseq (ms @ [m]) sent \<and> write_frame E m = torn @ rest))"
  show "\<exists>hs ms torn. hs \<in> {[], u64_be me} \<and> cn_written cn = hs @ concat (map (write_frame E) ms) @ torn \<and>
    (torn = [] \<and> subseq (ms @ cn_queue cn) (sent @ more') \<or>
     cn_broken cn \<and> cn_queue cn = [] \<and> (\<exists>m rest. subseq (ms @ [m]) (sent @ more') \<and> write_frame E m = torn @ rest))"
    by (rule exI [of _ hs], rule exI [of _ ms], rule exI [of _ torn]) (use * in \<open>auto intro: list_emb_prefix\<close>)
qed

lemma net_inv_more: "net_inv E me ops w \<Longrightarrow> net_inv E me (ops @ more') w"
  by (auto simp: net_inv_def stream_ok_more)

lemma net_inv_set:
  assumes inv: "net_inv E me ops w" and "c < length (nw_connections w)" and "cn_peer cn = cn_peer (nw_connections w ! c)"
    and "stream_ok E me (sent_to (cn_peer cn) ops) cn"
  shows "net_inv E me ops (set_connection c cn w)"
proof -
  have "set ((nw_connections w)[c := cn]) \<subseteq> insert cn (set (nw_connections w))" by (rule set_update_subset_insert)
  with assms show ?thesis by (fastforce simp: net_inv_def set_connection_def nth_list_update)
qed

lemma net_inv_send:
  assumes inv: "net_inv E me ops w"
  shows "net_inv E me (ops @ [Transport to msg]) (transport_send to msg w)"
proof (cases "map_of (active_senders w) to")
  case None
  with net_inv_more [OF inv] show ?thesis by (simp add: transport_send_def)
next
  case (Some c)
  let ?cn = "nw_connections w ! c"
  have c: "c < length (nw_connections w)" "cn_peer ?cn = to" using inv map_of_SomeD [OF Some] by (auto simp: net_inv_def)
  then have ok: "stream_ok E me (sent_to to ops) ?cn" using inv nth_mem [OF c(1)] by (auto simp: net_inv_def)
  have "stream_ok E me (sent_to to ops @ [msg]) (?cn\<lparr>cn_queue := cn_queue ?cn @ [msg]\<rparr>)" if "\<not> cn_broken ?cn"
  proof -
    from ok that obtain hs ms where "hs \<in> {[], u64_be me}" "cn_written ?cn = hs @ concat (map (write_frame E) ms)"
      "subseq (ms @ cn_queue ?cn) (sent_to to ops)" by (auto simp: stream_ok_def)
    moreover from this(3) have "subseq ((ms @ cn_queue ?cn) @ [msg]) (sent_to to ops @ [msg])" by (intro list_emb_append_mono) simp_all
    ultimately show ?thesis by (auto simp: stream_ok_def)
  qed
  with net_inv_set [OF net_inv_more [OF inv, of "[Transport to msg]"] c(1), of "?cn\<lparr>cn_queue := cn_queue ?cn @ [msg]\<rparr>"]
    net_inv_more [OF inv] c Some show ?thesis
    by (simp add: transport_send_def Let_def)
qed

lemma net_inv_write:
  assumes inv: "net_inv E me ops w"
  shows "net_inv E me ops (writer_step E c written w)"
proof (cases "c < length (nw_connections w) \<and> \<not> cn_broken (nw_connections w ! c) \<and> cn_queue (nw_connections w ! c) \<noteq> []")
  case True
  let ?cn = "nw_connections w ! c" and ?sent = "sent_to (cn_peer (nw_connections w ! c)) ops"
  from True obtain msg queue where q: "cn_queue ?cn = msg # queue" by (auto simp: neq_Nil_conv)
  have "stream_ok E me ?sent ?cn" using inv True nth_mem [of c "nw_connections w"] by (auto simp: net_inv_def)
  with True obtain hs ms where hs: "hs \<in> {[], u64_be me}" "cn_written ?cn = hs @ concat (map (write_frame E) ms)"
    and sub: "subseq (ms @ msg # queue) ?sent" by (auto simp: stream_ok_def q)
  have set: "net_inv E me ops (set_connection c cn w)" if "cn_peer cn = cn_peer ?cn" "stream_ok E me ?sent cn" for cn
    using net_inv_set [OF inv, of c cn] True that by simp
  have whole: "stream_ok E me ?sent (?cn\<lparr>cn_queue := queue, cn_written := cn_written ?cn @ write_frame E msg\<rparr>)"
    unfolding stream_ok_def using hs sub by (intro exI [of _ hs] exI [of _ "ms @ [msg]"] exI [of _ "[]"]) simp
  have first: "subseq (ms @ [msg]) ?sent" 
  proof (rule subseq_order.trans)
    show "subseq (ms @ [msg]) (ms @ msg # queue)" by (intro list_emb_append_mono) simp_all
  qed (rule sub)
  have torn: "stream_ok E me ?sent
      (?cn\<lparr>cn_queue := [], cn_written := cn_written ?cn @ take k (write_frame E msg), cn_broken := True\<rparr>)" for k
    unfolding stream_ok_def using hs first
    by (intro exI [of _ hs] exI [of _ ms] exI [of _ "take k (write_frame E msg)"]) (auto intro!: exI [of _ msg] exI [of _ "drop k (write_frame E msg)"])
  show ?thesis
    using True q set [OF _ whole] set [OF _ torn] by (cases written) (simp_all add: writer_step_def Let_def)
next
  case False
  with inv show ?thesis by (auto simp: writer_step_def Let_def split: list.splits)
qed

lemma net_inv_same:
  assumes "net_inv E me ops w" and "nw_local_id w' = nw_local_id w" and "nw_connections w' = nw_connections w"
    and "set (active_senders w') \<subseteq> set (active_senders w)"
  shows "net_inv E me ops w'"
  using assms by (fastforce simp: net_inv_def)

lemma stream_ok_received:
  "stream_ok E me sent cn \<Longrightarrow> cn_written cn' = cn_written cn \<Longrightarrow> cn_queue cn' = cn_queue cn \<Longrightarrow> cn_broken cn' = cn_broken cn \<Longrightarrow>
     stream_ok E me sent cn'"
  by (simp add: stream_ok_def)

lemma net_inv_receive:
  assumes inv: "net_inv E me ops w" and c: "c < length (nw_connections w)" and same: "cn_peer cn' = cn_peer (nw_connections w ! c)"
    "cn_written cn' = cn_written (nw_connections w ! c)" "cn_queue cn' = cn_queue (nw_connections w ! c)"
    "cn_broken cn' = cn_broken (nw_connections w ! c)"
  shows "net_inv E me ops (set_connection c cn' w)"
proof (rule net_inv_set [OF inv c same(1)])
  have "stream_ok E me (sent_to (cn_peer (nw_connections w ! c)) ops) (nw_connections w ! c)"
    using inv nth_mem [OF c] by (auto simp: net_inv_def)
  from stream_ok_received [OF this same(2-4)] same(1) show "stream_ok E me (sent_to (cn_peer cn') ops) cn'" by simp
qed

lemma net_inv_end:
  assumes "net_inv E me ops w" and "c < length (nw_connections w)"
  shows "net_inv E me ops (end_reader c w)"
proof -
  have "net_inv E me ops (w\<lparr>active_senders := AList.delete (cn_peer (nw_connections w ! c)) (active_senders w)\<rparr>)"
    by (rule net_inv_same [OF assms(1)]) (auto simp: AList.delete_eq)
  then show ?thesis unfolding end_reader_def Let_def by (rule net_inv_receive) (use assms(2) in simp_all)
qed

lemma net_inv_read:
  assumes inv: "net_inv E me ops w"
  shows "net_inv E me ops (reader_step E c node_open w)"
proof (cases "c < length (nw_connections w)")
  case True
  have "net_inv E me ops (set_connection c ((nw_connections w ! c)\<lparr>cn_arrived := rest\<rparr>) (w\<lparr>node_rx := node_rx w @ [msg]\<rparr>))" for rest msg
    by (rule net_inv_receive) (use True in \<open>simp_all add: net_inv_same [OF inv]\<close>)
  with inv net_inv_end [OF inv True] show ?thesis
    by (auto simp: reader_step_def Let_def split: sum.splits option.splits)
qed (simp add: reader_step_def inv)

lemma net_inv_arrive:
  assumes inv: "net_inv E me ops w"
  shows "net_inv E me ops (bytes_arrive c bs eof w)"
  using inv by (auto simp: bytes_arrive_def Let_def intro: net_inv_receive [OF inv])

lemma net_inv_spawn:
  assumes inv: "net_inv E me ops w" and "written \<in> {[], u64_be me}"
  shows "net_inv E me ops (spawn_connection_tasks p written arrived w)"
proof -
  have new: "stream_ok E me sent \<lparr>cn_peer = p, cn_queue = [], cn_written = written, cn_broken = False, cn_arrived = arrived, cn_eof = False,
      cn_reading = True\<rparr>" for sent
    unfolding stream_ok_def using assms(2) by (intro exI [of _ written] exI [of _ "[]"]) auto
  have "set (AList.update p (length (nw_connections w)) (active_senders w)) \<subseteq>
      insert (p, length (nw_connections w)) (set (active_senders w))" by (rule set_update_sub)
  with inv new show ?thesis by (fastforce simp: net_inv_def spawn_connection_tasks_def nth_append)
qed

lemma net_inv_enter: "net_inv E me ops w \<Longrightarrow> net_inv E me ops (outgoing_spawn p w)"
  using net_inv_spawn [of E me ops w "u64_be (nw_local_id w)"] by (auto simp: outgoing_spawn_def net_inv_def)

lemma net_inv_outgoing: "net_inv E me ops w \<Longrightarrow> net_inv E me ops (handle_outgoing_connection p writable w)"
  by (simp add: handle_outgoing_connection_def net_inv_enter)

lemma net_inv_incoming: "net_inv E me ops w \<Longrightarrow> net_inv E me ops (handle_incoming_connection bs w)"
  by (auto simp: handle_incoming_connection_def net_inv_spawn split: sum.splits)

lemma net_inv_reconnect:
  assumes "net_inv E me ops w"
  shows "net_inv E me ops (reconnect_round connect w)"
proof -
  have "net_inv E me ops (fold (reconnect_peer connect) ps w)" for ps
    using assms by (induction ps arbitrary: w) (auto simp: reconnect_peer_def net_inv_outgoing split: prod.splits option.splits)
  then show ?thesis by (simp add: reconnect_round_def)
qed

lemma net_inv_change:
  assumes inv: "net_inv E me ops w"
  shows "net_inv E me ops (handle_peer_change connect change w)"
proof (cases change)
  case (AddPeer i addr)
  have "net_inv E me ops (w\<lparr>nw_peers := AList.update i addr (nw_peers w)\<rparr>)" by (rule net_inv_same [OF inv]) simp_all
  with AddPeer net_inv_outgoing show ?thesis by (auto simp: handle_peer_change_def Let_def split: option.splits)
next
  case (RemovePeer i)
  then show ?thesis
    unfolding handle_peer_change_def by (auto intro!: net_inv_same [OF inv] simp: AList.delete_eq)
qed

lemma net_inv_apply: "net_inv E me ops w \<Longrightarrow> net_inv E me (ops @ [op]) (net_apply E op w)"
  by (cases op)
    (auto intro: net_inv_send net_inv_more net_inv_incoming net_inv_write net_inv_read net_inv_arrive net_inv_reconnect net_inv_change net_inv_enter)

lemma net_inv_run: "net_inv E me ops (fold (net_apply E) ops (network_new me addr peers))"
proof (induction ops rule: rev_induct)
  case Nil
  show ?case by (simp add: net_inv_def network_new_def)
next
  case (snoc op ops)
  then show ?case by (simp add: net_inv_apply)
qed

text \<open>What the reader of the other end gets from the frames of some messages, wherever they are cut.\<close>

lemma reader_prefix:
  assumes ok: "list_all (message_codec_ok E) ms"
  shows "subseq (fst (reader_loop E [] 0 (take n (concat (map (write_frame E) ms))))) ms"
proof -
  let ?file = "concat (map (write_frame E) ms)"
  have "take n ?file = take (min n (length ?file)) ?file" by (simp add: min_def)
  moreover obtain m t where "reader_loop E [] 0 (take (min n (length ?file)) ?file) = (take m ms, t)"
    by (rule frames.scan_prefix [OF ok, of "min n (length ?file)"]) simp_all
  ultimately have "fst (reader_loop E [] 0 (take n ?file)) = take m ms" by simp
  moreover have "subseq (take m ms) (take m ms @ drop m ms)" by (rule list_emb_prefix) simp
  ultimately show ?thesis by simp
qed

section \<open>Properties\<close>

text \<open>
  C15. Connections deliver in order: whatever the tasks of a node do and in whatever order, what a connection to a
  peer has written is a handshake or nothing, then a stream; a reader of any initial part of this
  stream gets messages that the node sent to this peer, in the order in which they were sent, none twice.
\<close>

theorem connection_delivers_in_order:
  assumes cn: "cn \<in> set (nw_connections (fold (net_apply E) ops (network_new me addr peers)))"
    and codec: "\<forall>m \<in> set (sent_to (cn_peer cn) ops). message_codec_ok E m"
  shows "\<exists>hs stream. hs \<in> {[], u64_be me} \<and> cn_written cn = hs @ stream \<and>
    (\<forall>n. subseq (fst (reader_loop E [] 0 (take n stream))) (sent_to (cn_peer cn) ops))"
proof -
  let ?sent = "sent_to (cn_peer cn) ops"
  from net_inv_run [of E me ops addr peers] cn have "stream_ok E me ?sent cn" by (auto simp: net_inv_def)
  then obtain hs ms torn where hs: "hs \<in> {[], u64_be me}" "cn_written cn = hs @ concat (map (write_frame E) ms) @ torn"
    and torn: "torn = [] \<and> subseq (ms @ cn_queue cn) ?sent \<or> (\<exists>m rest. subseq (ms @ [m]) ?sent \<and> write_frame E m = torn @ rest)"
    unfolding stream_ok_def by blast
  obtain all rest where all: "subseq all ?sent" "concat (map (write_frame E) all) = (concat (map (write_frame E) ms) @ torn) @ rest"
    using torn
  proof
    assume *: "torn = [] \<and> subseq (ms @ cn_queue cn) ?sent"
    then have "subseq ms ?sent" by (metis list_emb_prefix subseq_order.refl subseq_order.trans)
    with * that [of ms "[]"] show thesis by simp
  next
    assume "\<exists>m rest. subseq (ms @ [m]) ?sent \<and> write_frame E m = torn @ rest"
    then obtain m r where "subseq (ms @ [m]) ?sent" "write_frame E m = torn @ r" by blast
    with that [of "ms @ [m]" r] show thesis by simp
  qed
  have ok: "list_all (message_codec_ok E) all"
    unfolding list_all_iff using codec list_emb_set [OF all(1)] by metis
  let ?stream = "concat (map (write_frame E) ms) @ torn"
  have "subseq (fst (reader_loop E [] 0 (take n ?stream))) ?sent" for n
  proof -
    have "take n ?stream = take (min n (length ?stream)) (?stream @ rest)" by (simp add: min_def)
    then show ?thesis
      using reader_prefix [OF ok, of "min n (length ?stream)"] all(2) subseq_order.trans [OF _ all(1)] by metis
  qed
  with hs show ?thesis by blast
qed

text \<open>
  A message over 16 MiB ends the connection: the reader of a stream hands on the messages before it and stops at it,
  so that nothing after it on the connection is ever delivered. The writer has no such limit.
\<close>

theorem oversize_message_stops_reader:
  assumes "list_all (message_codec_ok E) ms" and "serialize_message E big = Inr buf"
    and "MAX_MESSAGE_SIZE < length buf" and "length buf < 2 ^ 32"
  shows "reader_loop E [] 0 (concat (map (write_frame E) (ms @ [big])) @ rest) =
    (ms, Some (length (concat (map (write_frame E) ms))))"
proof -
  have "\<exists>e. read_message E (write_frame E big @ rest) = Inl e"
    using assms(2-4) by (simp add: read_message_def write_frame_def Let_def unat_of_nat_u32)
  then show ?thesis
    using frames.scan_append [OF assms(1), of "[]" 0 "write_frame E big @ rest"] reader_loop.simps [of E ms _ "write_frame E big @ rest"]
    by auto
qed

text \<open>
  C33. The reader of a replaced connection disconnects its replacement: when a peer has connected a second time and
  the old connection ends, the sender of the new connection is removed although the new
  connection is as it was; messages to the peer are lost, and when the peer has the greater id the
  node does not connect again.
\<close>

theorem stale_reader_drops_peer:
  assumes a: "a < length (nw_connections w)" "cn_peer (nw_connections w ! a) = p" "cn_reading (nw_connections w ! a)"
      "cn_eof (nw_connections w ! a)" "cn_arrived (nw_connections w ! a) = []"
    and b: "map_of (active_senders w) p = Some b" "b \<noteq> a"
    and w': "w' = reader_step E a node_open w"
  shows "nw_connections w' ! b = nw_connections w ! b \<and> map_of (active_senders w') p = None \<and>
    transport_send p msg w' = w' \<and> (nw_local_id w \<le> p \<longrightarrow> reconnect_peer connect (p, addr) w' = w')"
proof -
  have "w' = end_reader a w" using a w' by (simp add: reader_step_def read_message_nil Let_def)
  with a b show ?thesis
    by (simp add: end_reader_def set_connection_def transport_send_def reconnect_peer_def Let_def delete_conv')
qed

subsection \<open>Witnesses\<close>

text \<open>A codec of status queries, and of one message that is too large.\<close>

definition sample_net_ext :: net_ext where
  "sample_net_ext = raft_ext.extend sample_raft_ext
     \<lparr>serialize_message = (\<lambda>m. case m of
          MStatusQuery q \<Rightarrow> Inr (u64_le (sq_request_id q) @ u64_le (sq_client_id q))
        | MTimeout \<Rightarrow> Inr (replicate (MAX_MESSAGE_SIZE + 1) 0)
        | _ \<Rightarrow> Inl (IoError InvalidData [])),
      deserialize_message = (\<lambda>bs. if length bs = 16
        then Inr (MStatusQuery \<lparr>sq_request_id = u64_from_le (take 8 bs), sq_client_id = u64_from_le (drop 8 bs)\<rparr>)
        else Inl (IoError InvalidData []))\<rparr>"

lemma sample_net_codec:
  "serialize_message sample_net_ext (MStatusQuery q) = Inr (u64_le (sq_request_id q) @ u64_le (sq_client_id q))"
  "serialize_message sample_net_ext MTimeout = Inr (replicate (MAX_MESSAGE_SIZE + 1) 0)"
  "message_codec_ok sample_net_ext (MStatusQuery q)"
  by (simp_all add: sample_net_ext_def raft_ext.defs net_ext.defs message_codec_ok_def MAX_MESSAGE_SIZE_def)

abbreviation sample_query :: message where
  "sample_query \<equiv> MStatusQuery \<lparr>sq_request_id = 1, sq_client_id = 9\<rparr>"

theorem connection_delivers_in_order_witness:
  "\<exists>cn hs stream. cn \<in> set (nw_connections (fold (net_apply sample_net_ext)
       [Accept (u64_be 2), Transport 2 sample_query, Write 0 None] (network_new 1 [] []))) \<and>
     length (cn_written cn) = 20 \<and> hs \<in> {[], u64_be 1} \<and> cn_written cn = hs @ stream \<and>
     (\<forall>n. subseq (fst (reader_loop sample_net_ext [] 0 (take n stream))) [sample_query])"
proof -
  let ?ops = "[Accept (u64_be 2), Transport 2 sample_query, Write 0 None]"
  let ?w = "fold (net_apply sample_net_ext) ?ops (network_new 1 [] [])"
  obtain cn where cn: "nw_connections ?w = [cn]" "cn_peer cn = 2" "length (cn_written cn) = 20"
    by (simp add: network_new_def handle_incoming_connection_def spawn_connection_tasks_def transport_send_def set_connection_def
        writer_step_def write_frame_def sample_net_codec read_exact_def Let_def)
  then have mem: "cn \<in> set (nw_connections ?w)" by simp
  moreover have "\<forall>m \<in> set (sent_to (cn_peer cn) ?ops). message_codec_ok sample_net_ext m" by (simp add: cn(2) sample_net_codec)
  ultimately have "\<exists>hs stream. hs \<in> {[], u64_be 1} \<and> cn_written cn = hs @ stream \<and>
      (\<forall>n. subseq (fst (reader_loop sample_net_ext [] 0 (take n stream))) (sent_to (cn_peer cn) ?ops))"
    by (rule connection_delivers_in_order)
  with mem cn(2,3) show ?thesis by auto
qed

theorem oversize_message_stops_reader_witness:
  "reader_loop sample_net_ext [] 0 (concat (map (write_frame sample_net_ext) ([sample_query] @ [MTimeout])) @ write_frame sample_net_ext sample_query) =
    ([sample_query], Some 20)"
proof -
  have "list_all (message_codec_ok sample_net_ext) [sample_query]" by (simp add: sample_net_codec)
  moreover have "MAX_MESSAGE_SIZE < length (replicate (MAX_MESSAGE_SIZE + 1) (0 :: u8))"
    "length (replicate (MAX_MESSAGE_SIZE + 1) (0 :: u8)) < 2 ^ 32" by (simp_all add: MAX_MESSAGE_SIZE_def)
  ultimately show ?thesis
    using oversize_message_stops_reader [OF _ sample_net_codec(2), of "[sample_query]" "write_frame sample_net_ext sample_query"]
    by (simp add: write_frame_def sample_net_codec)
qed

text \<open>Peer 2 of node 1 connects, connects again, and the first connection ends.\<close>

theorem stale_reader_drops_peer_witness:
  "let w = fold (net_apply sample_net_ext) [Accept (u64_be 2), Accept (u64_be 2), Arrive 0 [] True] (network_new 1 [] []);
       w' = reader_step sample_net_ext 0 True w in
   map_of (active_senders w) 2 = Some 1 \<and> map_of (active_senders w') 2 = None \<and> transport_send 2 sample_query w' = w'"
proof -
  let ?w = "fold (net_apply sample_net_ext) [Accept (u64_be 2), Accept (u64_be 2), Arrive 0 [] True] (network_new 1 [] [])"
  have w: "0 < length (nw_connections ?w)" "cn_peer (nw_connections ?w ! 0) = 2" "cn_reading (nw_connections ?w ! 0)"
      "cn_eof (nw_connections ?w ! 0)" "cn_arrived (nw_connections ?w ! 0) = []" "map_of (active_senders ?w) 2 = Some 1" "(1 :: nat) \<noteq> 0"
    by (simp_all add: network_new_def handle_incoming_connection_def spawn_connection_tasks_def bytes_arrive_def set_connection_def
        read_exact_def Let_def)
  from stale_reader_drops_peer [OF w refl, of sample_net_ext True sample_query] w(6) show ?thesis by (simp add: Let_def)
qed

end
