(* ===== verification/Programs.thy ===== *)
theory Programs
  imports Service Network
begin

text \<open>
  The programs: the command line of a node (\<open>src/src/bin/node.rs\<close>) and the interactive client
  (\<open>src/src/bin/client.rs\<close>). What they print is left out.
\<close>

section \<open>The command line of a node\<close>

record node_args =
  na_id :: "u64 option"
  na_addr :: "rstring option"
  na_api_addr :: "rstring option"
  na_grpc_addr :: "rstring option"
  na_peers :: "rstring list"
  na_dir :: "rstring option"
  na_verbose :: bool

definition no_args :: node_args where
  "no_args = \<lparr>na_id = None, na_addr = None, na_api_addr = None, na_grpc_addr = None, na_peers = [], na_dir = None, na_verbose = False\<rparr>"

definition verbose_flags :: "rstring list" where
  "verbose_flags = [str ''--log'', str ''-v'', str ''--verbose'']"

definition value_flags :: "rstring list" where
  "value_flags = [str ''--id'', str ''--addr'', str ''--api-addr'', str ''--grpc-addr'', str ''--peers'', str ''--dir'', str ''--data-dir'']"

text \<open>The value of a flag. Only the id can be refused.\<close>

definition set_flag :: "rstring \<Rightarrow> rstring \<Rightarrow> node_args \<Rightarrow> node_args io" where
  "set_flag flag v a =
     (if flag = str ''--id'' then
        (case u64_parse v of
           None \<Rightarrow> Inl (IoError InvalidInput (str ''invalid digit found in string''))
         | Some i \<Rightarrow> Inr (a\<lparr>na_id := Some i\<rparr>))
      else if flag = str ''--addr'' then Inr (a\<lparr>na_addr := Some v\<rparr>)
      else if flag = str ''--api-addr'' then Inr (a\<lparr>na_api_addr := Some v\<rparr>)
      else if flag = str ''--grpc-addr'' then Inr (a\<lparr>na_grpc_addr := Some v\<rparr>)
      else if flag = str ''--peers'' then Inr (a\<lparr>na_peers := na_peers a @ split_at_byte 44 v\<rparr>)
      else Inr (a\<lparr>na_dir := Some v\<rparr>))"

text \<open>An argument that is not a flag: the id, then the address, then peers.\<close>

definition set_positional :: "rstring \<Rightarrow> node_args \<Rightarrow> node_args" where
  "set_positional x a =
     (if na_id a = None \<and> u64_parse x \<noteq> None then a\<lparr>na_id := u64_parse x\<rparr>
      else if na_addr a = None \<and> na_id a \<noteq> None then a\<lparr>na_addr := Some x\<rparr>
      else a\<lparr>na_peers := na_peers a @ [x]\<rparr>)"

fun parse_args :: "rstring list \<Rightarrow> node_args \<Rightarrow> node_args io" where
  "parse_args [] a = Inr a"
| "parse_args [x] a =
     (if x \<in> set verbose_flags then Inr (a\<lparr>na_verbose := True\<rparr>)
      else if x \<in> set value_flags then Inr a
      else Inr (set_positional x a))"
| "parse_args (x # y # args) a =
     (if x \<in> set verbose_flags then parse_args (y # args) (a\<lparr>na_verbose := True\<rparr>)
      else if x \<in> set value_flags then and_then (set_flag x y a) (\<lambda>a. parse_args args a)
      else parse_args (y # args) (set_positional x a))"

text \<open>\<open>id:addr\<close>; anything else is skipped.\<close>

definition add_peer_arg :: "rstring \<Rightarrow> (node_id \<times> rstring) list \<times> node_id list \<Rightarrow> (node_id \<times> rstring) list \<times> node_id list" where
  "add_peer_arg peer_str = (\<lambda>(peers_map, peer_ids).
     case split_once 58 peer_str of
       [i, addr] \<Rightarrow>
         (case u64_parse i of
            Some pid \<Rightarrow> (AList.update pid addr peers_map, peer_ids @ [pid])
          | None \<Rightarrow> (peers_map, peer_ids))
     | _ \<Rightarrow> (peers_map, peer_ids))"

record node_setup =
  ns_id :: node_id
  ns_addr :: rstring
  ns_api_addr :: rstring
  ns_grpc_addr :: rstring
  ns_dir :: rstring
  ns_peers :: "(node_id \<times> rstring) list"
  ns_peer_ids :: "node_id list"

text \<open>\<open>None\<close> is the exit with the usage text. \<open>temp_dir\<close> is the directory for temporary files.\<close>

definition node_main :: "rstring \<Rightarrow> rstring list \<Rightarrow> node_setup option io" where
  "node_main temp_dir args =
     and_then (parse_args args no_args) (\<lambda>a.
     case (na_id a, na_addr a) of
       (Some id_num, Some addr) \<Rightarrow>
         (case fold add_peer_arg (na_peers a) ([], []) of
            (peers_map, peer_ids) \<Rightarrow>
              Inr (Some
                \<lparr>ns_id = id_num, ns_addr = addr,
                 ns_api_addr = (case na_api_addr a of Some x \<Rightarrow> x | None \<Rightarrow> str ''127.0.0.1:'' @ u64_to_string (7000 + id_num)),
                 ns_grpc_addr = (case na_grpc_addr a of Some x \<Rightarrow> x | None \<Rightarrow> str ''127.0.0.1:'' @ u64_to_string (8000 + id_num)),
                 ns_dir = (case na_dir a of Some x \<Rightarrow> x | None \<Rightarrow> temp_dir @ str ''/kv_store_node_'' @ u64_to_string id_num),
                 ns_peers = peers_map, ns_peer_ids = peer_ids\<rparr>))
     | _ \<Rightarrow> Inr None)"

section \<open>The client\<close>

definition parse_value :: "'x ext_scheme \<Rightarrow> rstring \<Rightarrow> val" where
  "parse_value E s =
     (case i64_parse s of
        Some i \<Rightarrow> VInt i
      | None \<Rightarrow> (case f64_parse E s of Some f \<Rightarrow> VFloat f | None \<Rightarrow> VString s))"

text \<open>
  A connection of the client: what it has written, whether the other end still takes bytes, and the bytes
  that arrive until the stream ends.
\<close>

record client_stream =
  cs_written :: bytes
  cs_writable :: bool
  cs_incoming :: bytes

record cluster_client =
  cc_addr :: rstring
  cc_stream :: "client_stream option"
  cc_client_id :: node_id
  cc_request_counter :: u64

text \<open>\<open>tcp\<close> is the new connection, or \<open>None\<close> when there is no node at the address.\<close>

definition client_connect :: "client_stream option \<Rightarrow> rstring \<Rightarrow> node_id \<Rightarrow> cluster_client" where
  "client_connect tcp addr client_id =
     \<lparr>cc_addr = addr,
      cc_stream = (case tcp of
          Some s \<Rightarrow> if cs_writable s then Some (s\<lparr>cs_written := cs_written s @ u64_be client_id\<rparr>) else None
        | None \<Rightarrow> None),
      cc_client_id = client_id, cc_request_counter = 1\<rparr>"

definition MAX_RESPONSE_SIZE :: nat where
  "MAX_RESPONSE_SIZE = 16 * 1024 * 1024"

text \<open>The response of the node, or \<open>None\<close> for each of the failures that are only printed.\<close>

definition client_send :: "'x net_ext_scheme \<Rightarrow> message \<Rightarrow> cluster_client \<Rightarrow> client_response option \<times> cluster_client" where
  "client_send E msg cc =
     (case cc_stream cc of
        None \<Rightarrow> (None, cc)
      | Some s \<Rightarrow>
          (case serialize_message E msg of
             Inl _ \<Rightarrow> (None, cc)
           | Inr buf \<Rightarrow>
               if \<not> cs_writable s then (None, cc\<lparr>cc_stream := None\<rparr>)
               else
                 let s = s\<lparr>cs_written := cs_written s @ u32_be (of_nat (length buf)) @ buf\<rparr> in
                 (case read_exact 4 (cs_incoming s) of
                    Inl _ \<Rightarrow> (None, cc\<lparr>cc_stream := None\<rparr>)
                  | Inr (len_buf, rest) \<Rightarrow>
                      let resp_len = unat (u32_from_be len_buf) in
                      if resp_len = 0 \<or> resp_len > MAX_RESPONSE_SIZE then (None, cc\<lparr>cc_stream := None\<rparr>)
                      else
                        (case read_exact resp_len rest of
                           Inl _ \<Rightarrow> (None, cc\<lparr>cc_stream := None\<rparr>)
                         | Inr (resp_buf, rest) \<Rightarrow>
                             (case deserialize_message E resp_buf of
                                Inr (MClientResponse resp) \<Rightarrow> Some resp
                              | _ \<Rightarrow> None,
                              cc\<lparr>cc_stream := Some (s\<lparr>cs_incoming := rest\<rparr>)\<rparr>)))))"

text \<open>A request with the next number.\<close>

definition client_request_with ::
  "'x net_ext_scheme \<Rightarrow> (u64 \<Rightarrow> message) \<Rightarrow> cluster_client \<Rightarrow> client_response option \<times> cluster_client" where
  "client_request_with E build cc =
     client_send E (build (cc_request_counter cc)) (cc\<lparr>cc_request_counter := cc_request_counter cc + 1\<rparr>)"

definition send_status :: "'x net_ext_scheme \<Rightarrow> cluster_client \<Rightarrow> client_response option \<times> cluster_client" where
  "send_status E cc =
     client_request_with E (\<lambda>i. MStatusQuery \<lparr>sq_request_id = i, sq_client_id = cc_client_id cc\<rparr>) cc"

definition get_key :: "'x net_ext_scheme \<Rightarrow> rstring \<Rightarrow> cluster_client \<Rightarrow> client_response option \<times> cluster_client" where
  "get_key E key cc =
     client_request_with E (\<lambda>i. MClientQuery \<lparr>cq_request_id = i, cq_client_id = cc_client_id cc, cq_key = key\<rparr>) cc"

definition set_key :: "'x net_ext_scheme \<Rightarrow> rstring \<Rightarrow> val \<Rightarrow> cluster_client \<Rightarrow> client_response option \<times> cluster_client" where
  "set_key E key v cc =
     client_request_with E
       (\<lambda>i. MClientRequest \<lparr>cr_request_id = i, cr_client_id = cc_client_id cc, cr_command = CmdSet key v\<rparr>) cc"

definition delete_key :: "'x net_ext_scheme \<Rightarrow> rstring \<Rightarrow> cluster_client \<Rightarrow> client_response option \<times> cluster_client" where
  "delete_key E key cc =
     client_request_with E
       (\<lambda>i. MClientRequest \<lparr>cr_request_id = i, cr_client_id = cc_client_id cc, cr_command = CmdDelete key\<rparr>) cc"

text \<open>The address in the arguments of the program, the first of which is its name.\<close>

definition client_target :: "rstring list \<Rightarrow> rstring" where
  "client_target args =
     (if length args > 1 \<and> take 1 (args ! 1) \<noteq> str ''-'' then args ! 1 else str ''127.0.0.1:6001'')"

text \<open>What a line asks for. \<open>Usage\<close> and \<open>Unknown\<close> only print; an empty line does nothing.\<close>

datatype client_action =
    Quit
  | Help
  | Status
  | Connect rstring
  | Get rstring
  | Set rstring val
  | Delete rstring
  | Usage
  | Unknown rstring
  | Nothing

text \<open>
  The names of the commands are ASCII and without \<open>k\<close>, so that the lower case of characters that are
  not ASCII never makes one of them.
\<close>

definition parse_line :: "'x ext_scheme \<Rightarrow> rstring \<Rightarrow> client_action" where
  "parse_line E line =
     (case split_whitespace (trim line) of
        [] \<Rightarrow> Nothing
      | name # args \<Rightarrow>
          let cmd_name = ascii_lower name in
          if cmd_name = str ''exit'' \<or> cmd_name = str ''quit'' then Quit
          else if cmd_name = str ''help'' then Help
          else if cmd_name = str ''status'' then Status
          else if cmd_name = str ''connect'' then (case args of [] \<Rightarrow> Usage | addr # _ \<Rightarrow> Connect addr)
          else if cmd_name = str ''get'' then (case args of [] \<Rightarrow> Usage | key # _ \<Rightarrow> Get key)
          else if cmd_name = str ''set'' then
            (case args of
               key # v # vs \<Rightarrow> Set key (parse_value E (join_with [32] (v # vs)))
             | _ \<Rightarrow> Usage)
          else if cmd_name = str ''delete'' \<or> cmd_name = str ''del'' then (case args of [] \<Rightarrow> Usage | key # _ \<Rightarrow> Delete key)
          else Unknown name)"

text \<open>One round of the loop; \<open>None\<close> ends it. \<open>tcp\<close> gives the connection to an address.\<close>

definition client_step ::
  "'x net_ext_scheme \<Rightarrow> (rstring \<Rightarrow> client_stream option) \<Rightarrow> rstring \<Rightarrow> cluster_client \<Rightarrow>
     (client_response option \<times> cluster_client) option" where
  "client_step E tcp line cc =
     (case parse_line E line of
        Quit \<Rightarrow> None
      | Status \<Rightarrow> Some (send_status E cc)
      | Connect addr \<Rightarrow> Some (None, client_connect (tcp addr) addr (cc_client_id cc))
      | Get key \<Rightarrow> Some (get_key E key cc)
      | Set key v \<Rightarrow> Some (set_key E key v cc)
      | Delete key \<Rightarrow> Some (delete_key E key cc)
      | _ \<Rightarrow> Some (None, cc))"

section \<open>Lemmas\<close>


definition peer_text :: "node_id \<times> rstring \<Rightarrow> rstring" where
  "peer_text = (\<lambda>(i, addr). u64_to_string i @ 58 # addr)"

lemma u64_text:
  shows "\<exists>b r. u64_to_string i = b # r \<and> b \<noteq> 45" and "58 \<notin> set (u64_to_string i)" and "44 \<notin> set (u64_to_string i)"
proof -
  show "\<exists>b r. u64_to_string i = b # r \<and> b \<noteq> 45" using nat_dec_head unfolding u64_to_string_def by blast
  have "\<forall>b \<in> set (u64_to_string i). is_digit b" unfolding u64_to_string_def by (rule nat_dec_digits)
  then show "58 \<notin> set (u64_to_string i)" "44 \<notin> set (u64_to_string i)" by (auto simp: is_digit_def)
qed

lemma flags_dash: "x \<in> set verbose_flags \<union> set value_flags \<Longrightarrow> \<exists>r. x = 45 # r"
  by (auto simp: verbose_flags_def value_flags_def str_def)

lemma not_flag: "x = b # r \<Longrightarrow> b \<noteq> 45 \<Longrightarrow> x \<notin> set verbose_flags \<and> x \<notin> set value_flags"
  using flags_dash by fastforce

lemma id_not_flag: "u64_to_string i @ r \<notin> set verbose_flags \<and> u64_to_string i @ r \<notin> set value_flags"
proof -
  obtain b q where "u64_to_string i = b # q" "b \<noteq> 45" using u64_text(1) by blast
  then show ?thesis using not_flag [of "u64_to_string i @ r" b "q @ r"] by simp
qed

lemma peer_not_flag: "peer_text p \<notin> set verbose_flags \<and> peer_text p \<notin> set value_flags"
  using id_not_flag by (cases p) (simp add: peer_text_def)

lemma parse_peers:
  "na_id a \<noteq> None \<Longrightarrow> na_addr a \<noteq> None \<Longrightarrow> parse_args (map peer_text ps) a = Inr (a\<lparr>na_peers := na_peers a @ map peer_text ps\<rparr>)"
proof (induction ps arbitrary: a)
  case (Cons p ps)
  have "parse_args (map peer_text (p # ps)) a = parse_args (map peer_text ps) (set_positional (peer_text p) a)"
    using peer_not_flag [of p] by (cases ps) simp_all
  also have "set_positional (peer_text p) a = a\<lparr>na_peers := na_peers a @ [peer_text p]\<rparr>" using Cons.prems by (auto simp: set_positional_def)
  finally show ?case using Cons.IH [of "a\<lparr>na_peers := na_peers a @ [peer_text p]\<rparr>"] Cons.prems by simp
qed simp

lemma add_peers:
  "fold add_peer_arg (map peer_text ps) (al, ids) = (fold (\<lambda>(i, addr). AList.update i addr) ps al, ids @ map fst ps)"
  by (induction ps arbitrary: al ids) (auto simp: add_peer_arg_def peer_text_def split_once_append u64_text(2))

lemma trim_words:
  assumes "ws \<noteq> []" and "\<forall>w \<in> set ws. is_word w"
  shows "trim (join_with [32] ws @ [10]) = join_with [32] ws"
proof -
  let ?line = "join_with [32] ws"
  obtain w rest where ws: "ws = w # rest" using assms(1) by (cases ws) auto
  have head: "\<exists>b r. ?line = b # r \<and> 0x21 \<le> b \<and> b \<le> 0x7E"
    using assms(2) ws by (cases w; cases rest) (auto simp: is_word_def)
  have "?line \<noteq> [] \<and> 0x21 \<le> last ?line \<and> last ?line \<le> 0x7E"
    using assms by (induction "[32 :: u8]" ws rule: join_with.induct) (auto simp: is_word_def)
  then obtain q b where q: "?line = q @ [b]" "0x21 \<le> b" "b \<le> 0x7E" by (metis append_butlast_last_id)
  have "white_front (?line @ [10]) = 0" using head white_front_word by auto
  then have start: "trim_start (?line @ [10]) = ?line @ [10]" by (simp add: trim_start.simps)
  have "white_end (?line @ [10]) = 1" by (simp add: white_end_def white_chars_def)
  moreover have "white_end ?line = 0" unfolding q(1) by (rule white_end_word [OF q(2,3)])
  ultimately have "trim_end (?line @ [10]) = ?line"
    using trim_end.simps [of "?line @ [10]"] trim_end.simps [of ?line] by simp
  with start show ?thesis by (simp add: trim_def)
qed

lemma set_line:
  assumes "is_word key" and "ws \<noteq> []" and "\<forall>w \<in> set ws. is_word w"
  shows "parse_line E (join_with [32] (str ''set'' # key # ws) @ [10]) = Set key (parse_value E (join_with [32] ws))"
proof -
  have set: "is_word (str ''set'')" by (simp add: is_word_def str_def)
  have "trim (join_with [32] (str ''set'' # key # ws) @ [10]) = join_with [32] (str ''set'' # key # ws)"
    by (rule trim_words) (use assms set in auto)
  moreover have "split_whitespace (join_with [32] (str ''set'' # key # ws)) = str ''set'' # key # ws"
    by (rule split_whitespace_words) (use assms set in auto)
  moreover obtain v vs where "ws = v # vs" using assms(2) by (cases ws) auto
  ultimately show ?thesis by (simp add: parse_line_def ascii_lower_def str_def)
qed

section \<open>Properties\<close>

text \<open>
  The two forms of the command line of a node mean the same: the id, the address and the peers in this order, and the flags
  with the peers joined by commas, give the setup with exactly these peers and the default addresses.
\<close>

theorem node_command_line:
  assumes addr: "addr \<notin> set verbose_flags" "addr \<notin> set value_flags" and ps: "ps \<noteq> []" "\<forall>(i, a) \<in> set ps. 44 \<notin> set a"
    and conf: "conf = \<lparr>ns_id = i, ns_addr = addr, ns_api_addr = str ''127.0.0.1:'' @ u64_to_string (7000 + i),
      ns_grpc_addr = str ''127.0.0.1:'' @ u64_to_string (8000 + i), ns_dir = tmp @ str ''/kv_store_node_'' @ u64_to_string i,
      ns_peers = fold (\<lambda>(i, addr). AList.update i addr) ps [], ns_peer_ids = map fst ps\<rparr>"
  shows "node_main tmp (u64_to_string i # addr # map peer_text ps) = Inr (Some conf) \<and>
    node_main tmp [str ''--id'', u64_to_string i, str ''--addr'', addr, str ''--peers'', join_with [44] (map peer_text ps)] = Inr (Some conf)"
proof
  let ?a = "no_args\<lparr>na_id := Some i, na_addr := Some addr\<rparr>"
  have "parse_args (u64_to_string i # addr # map peer_text ps) no_args = parse_args (addr # map peer_text ps) (no_args\<lparr>na_id := Some i\<rparr>)"
    using id_not_flag [of i "[]"] by (simp add: set_positional_def no_args_def)
  also have "\<dots> = parse_args (map peer_text ps) ?a"
    using addr ps(1) by (cases ps) (simp_all add: set_positional_def no_args_def)
  also have "\<dots> = Inr (?a\<lparr>na_peers := map peer_text ps\<rparr>)" by (simp add: parse_peers no_args_def)
  finally show "node_main tmp (u64_to_string i # addr # map peer_text ps) = Inr (Some conf)"
    by (simp add: node_main_def conf add_peers no_args_def)
  have "\<forall>p \<in> set (map peer_text ps). 44 \<notin> set p" using ps(2) u64_text(3) by (auto simp: peer_text_def)
  then have "split_at_byte 44 (join_with [44] (map peer_text ps)) = map peer_text ps" using ps(1) by (intro split_join) simp_all
  moreover have "str ''--id'' \<notin> set verbose_flags" "str ''--addr'' \<notin> set verbose_flags" "str ''--peers'' \<notin> set verbose_flags"
    "str ''--id'' \<in> set value_flags" "str ''--addr'' \<in> set value_flags" "str ''--peers'' \<in> set value_flags"
    "str ''--addr'' \<noteq> str ''--id''" "str ''--peers'' \<notin> {str ''--id'', str ''--addr'', str ''--api-addr'', str ''--grpc-addr''}"
    by (simp_all add: verbose_flags_def value_flags_def str_def)
  ultimately show "node_main tmp [str ''--id'', u64_to_string i, str ''--addr'', addr, str ''--peers'', join_with [44] (map peer_text ps)] =
      Inr (Some conf)"
    by (simp add: node_main_def set_flag_def conf add_peers no_args_def)
qed

text \<open>
  C34. A write typed into the client reaches the node and its answer the client: when a client has connected to a node and a line
  \<open>set key words\<close> is typed, the node that accepts the bytes of the client hands on one message, the write of the value
  of the words under the key with the number and the id of the client, and a response that the node writes is returned by the client.
\<close>

theorem client_write_roundtrip:
  assumes words: "is_word key" "ws \<noteq> []" "\<forall>w \<in> set ws. is_word w"
    and request: "request = MClientRequest \<lparr>cr_request_id = 1, cr_client_id = cid, cr_command = CmdSet key (parse_value E (join_with [32] ws))\<rparr>"
    and codec: "message_codec_ok E request" "message_codec_ok E (MClientResponse resp)" "length (write_frame E (MClientResponse resp)) > 4"
    and cc: "cc = client_connect (Some \<lparr>cs_written = [], cs_writable = True, cs_incoming = write_frame E (MClientResponse resp) @ more'\<rparr>) addr cid"
  shows "\<exists>cc' s. client_step E tcp (join_with [32] (str ''set'' # key # ws) @ [10]) cc = Some (Some resp, cc') \<and> cc_stream cc' = Some s \<and>
    node_rx (reader_step E 0 True (handle_incoming_connection (cs_written s) (network_new me naddr ps))) = [request]"
proof -
  obtain buf where buf: "serialize_message E request = Inr buf" "write_frame E request = u32_be (of_nat (length buf)) @ buf"
    "length buf \<le> MAX_MESSAGE_SIZE" "unat (of_nat (length buf) :: u32) = length buf" using codec(1) by (rule message_codec_okE)
  obtain out' where out': "length out' \<le> MAX_MESSAGE_SIZE" "deserialize_message E out' = Inr (MClientResponse resp)"
    "write_frame E (MClientResponse resp) = u32_be (of_nat (length out')) @ out'" "unat (of_nat (length out') :: u32) = length out'"
    using codec(2) by (rule message_codec_okE)
  have len: "length out' \<noteq> 0" "\<not> length out' > MAX_RESPONSE_SIZE"
    using codec(3) out'(1,3) by (auto simp: MAX_RESPONSE_SIZE_def MAX_MESSAGE_SIZE_def)
  let ?cc = "cc\<lparr>cc_request_counter := 2, cc_stream := Some \<lparr>cs_written = u64_be cid @ write_frame E request, cs_writable = True, cs_incoming = more'\<rparr>\<rparr>"
  have "client_step E tcp (join_with [32] (str ''set'' # key # ws) @ [10]) cc = Some (set_key E key (parse_value E (join_with [32] ws)) cc)"
    by (simp only: client_step_def set_line [OF words] client_action.case)
  also have "set_key E key (parse_value E (join_with [32] ws)) cc = client_send E request (cc\<lparr>cc_request_counter := 2\<rparr>)"
    by (simp add: set_key_def client_request_with_def request cc client_connect_def)
  also have "\<dots> = (Some resp, ?cc)"
    using len out' buf(1,2) by (simp add: client_send_def cc client_connect_def Let_def)
  finally have step: "client_step E tcp (join_with [32] (str ''set'' # key # ws) @ [10]) cc = Some (Some resp, ?cc)" .
  let ?w = "handle_incoming_connection (u64_be cid @ write_frame E request) (network_new me naddr ps)"
  have "frame_ready (write_frame E request)" using buf(2-4) by (simp add: frame_ready_def Let_def)
  moreover have "read_message E (write_frame E request) = Inr (Some (request, []))" using read_message_frame [OF codec(1), of "[]"] by simp
  ultimately have "node_rx (reader_step E 0 True ?w) = [request]"
    by (simp add: handle_incoming_connection_def spawn_connection_tasks_def network_new_def reader_step_def set_connection_def Let_def)
  with step show ?thesis by auto
qed

subsection \<open>Witnesses\<close>

theorem node_command_line_witness:
  "node_main [] (u64_to_string 1 # [97] # map peer_text [(2, [98])]) =
     node_main [] [str ''--id'', u64_to_string 1, str ''--addr'', [97], str ''--peers'', join_with [44] (map peer_text [(2, [98])])]"
proof -
  have "[97] \<notin> set verbose_flags" "[97] \<notin> set value_flags" by (simp_all add: verbose_flags_def value_flags_def str_def)
  from node_command_line [OF this, of "[(2, [98])]" _ 1 "[]", OF _ _ refl] show ?thesis by simp
qed

text \<open>A codec of two messages, the write of 5 under \<open>k\<close> and the answer to it.\<close>

abbreviation sample_client_write :: message where
  "sample_client_write \<equiv> MClientRequest \<lparr>cr_request_id = 1, cr_client_id = 10000, cr_command = CmdSet [107] (VInt 5)\<rparr>"

definition sample_answer :: client_response where
  "sample_answer = \<lparr>cp_request_id = 1, cp_success = True, cp_value = None, cp_message = [], cp_leader_id = Some 1, cp_node_id = 1,
     cp_role = [], cp_term = 1, cp_peers = []\<rparr>"

definition sample_client_ext :: net_ext where
  "sample_client_ext = raft_ext.extend sample_raft_ext
     \<lparr>serialize_message = (\<lambda>m. if m = sample_client_write then Inr [1] else if m = MClientResponse sample_answer then Inr [2]
        else Inl (IoError InvalidData [])),
      deserialize_message = (\<lambda>bs. if bs = [1] then Inr sample_client_write else if bs = [2] then Inr (MClientResponse sample_answer)
        else Inl (IoError InvalidData []))\<rparr>"

theorem client_write_roundtrip_witness:
  "\<exists>cc' s. client_step sample_client_ext (\<lambda>_. None) (join_with [32] [str ''set'', [107], [53]] @ [10])
      (client_connect (Some \<lparr>cs_written = [], cs_writable = True, cs_incoming = write_frame sample_client_ext (MClientResponse sample_answer) @ []\<rparr>)
        [] 10000) = Some (Some sample_answer, cc') \<and> cc_stream cc' = Some s \<and>
    node_rx (reader_step sample_client_ext 0 True (handle_incoming_connection (cs_written s) (network_new 1 [] []))) = [sample_client_write]"
proof -
  have words: "is_word [107]" "[[53 :: u8]] \<noteq> []" "\<forall>w \<in> set [[53]]. is_word w" by (simp_all add: is_word_def)
  have "i64_parse [53] = Some 5" by (simp add: i64_parse_def)
  then have request: "sample_client_write = MClientRequest \<lparr>cr_request_id = 1, cr_client_id = 10000,
      cr_command = CmdSet [107] (parse_value sample_client_ext (join_with [32] [[53]]))\<rparr>" by (simp add: parse_value_def)
  have codec: "message_codec_ok sample_client_ext sample_client_write" "message_codec_ok sample_client_ext (MClientResponse sample_answer)"
    "length (write_frame sample_client_ext (MClientResponse sample_answer)) > 4"
    by (simp_all add: message_codec_ok_def write_frame_def sample_client_ext_def raft_ext.defs net_ext.defs MAX_MESSAGE_SIZE_def)
  show ?thesis by (rule client_write_roundtrip [OF words request codec refl])
qed

end
