(* ===== verification/Test_Cluster.thy ===== *)
theory Test_Cluster
  imports Raft_Round
begin

text \<open>
  The fixture of the integration tests (\<open>src/src/testing/cluster.rs\<close>): a simulated cluster whose committed entries are also
  applied to one database per node, a workload of writes and the check that all databases have them.

  The maps of the fixture are association lists; its temporary directories are empty when the databases are opened.
\<close>

section \<open>The fixture\<close>

record test_cluster =
  tc_sim :: simulation
  tc_databases :: "(node_id \<times> database) list"
  db_applied :: "(node_id \<times> nat) list"

definition config_new :: "nat \<Rightarrow> nat \<Rightarrow> nat \<Rightarrow> config" where
  "config_new sl dt st = \<lparr>cfg_sstable_level = sl, cfg_data_threshold = dt, cfg_sstable_threshold = st\<rparr>"

definition cluster_ids :: "nat \<Rightarrow> node_id list" where
  "cluster_ids nodes = map of_nat [1..<nodes + 1]"

fun open_databases :: "'x ext_scheme \<Rightarrow> config \<Rightarrow> node_id list \<Rightarrow> (node_id \<times> database) list \<times> (node_id \<times> nat) list \<Rightarrow>
     ((node_id \<times> database) list \<times> (node_id \<times> nat) list) io" where
  "open_databases E cfg [] (databases, applied) = Inr (databases, applied)"
| "open_databases E cfg (i # ids) (databases, applied) =
     (case open_in_dir E [] cfg of
        Inl _ \<Rightarrow> panic ''Failed DB open''
      | Inr db \<Rightarrow> open_databases E cfg ids (AList.update i db databases, AList.update i 0 applied))"

definition new_with_config ::
  "'x raft_ext_scheme \<Rightarrow> (node_id \<Rightarrow> nat) \<Rightarrow> nat \<Rightarrow> (node_id \<Rightarrow> nat \<Rightarrow> nat) \<Rightarrow> nat \<Rightarrow> config \<Rightarrow> test_cluster io" where
  "new_with_config E started now rand nodes cfg =
     and_then (new_cluster E started now rand (cluster_ids nodes)) (\<lambda>sim.
     and_then (open_databases E cfg (cluster_ids nodes) ([], [])) (\<lambda>(databases, applied).
     and_then (trigger_election 1 sim) (\<lambda>sim.
     and_then (run_until_idle E sim) (\<lambda>sim.
     and_then (sim_index 1 sim) (\<lambda>node.
     if rf_role node \<noteq> Leader then panic ''assertion left == right failed''
     else Inr \<lparr>tc_sim = sim, tc_databases = databases, db_applied = applied\<rparr>)))))"

definition test_cluster_new ::
  "'x raft_ext_scheme \<Rightarrow> (node_id \<Rightarrow> nat) \<Rightarrow> nat \<Rightarrow> (node_id \<Rightarrow> nat \<Rightarrow> nat) \<Rightarrow> nat \<Rightarrow> test_cluster io" where
  "test_cluster_new E started now rand nodes = new_with_config E started now rand nodes (config_new 3 200 4)"

section \<open>Applying committed entries\<close>

definition committed_entries :: "nat \<Rightarrow> raft_node \<Rightarrow> (nat \<times> entry_payload) list" where
  "committed_entries applied node =
     List.map_filter (\<lambda>index. if index < length (rf_log node) then Some (index, le_payload (rf_log node ! index)) else None)
       [applied + 1..<commit_index node + 1]"

fun collect_committed :: "(node_id \<times> nat) list \<Rightarrow> (node_id \<times> raft_node) list \<Rightarrow> (node_id \<times> (nat \<times> entry_payload) list) list io" where
  "collect_committed applied [] = Inr []"
| "collect_committed applied ((i, node) # nodes) =
     (case map_of applied i of
        None \<Rightarrow> panic ''called Option::unwrap() on a None value''
      | Some a \<Rightarrow> and_then (collect_committed applied nodes) (\<lambda>rest. Inr ((i, committed_entries a node) # rest)))"

definition unwrap_write :: "database \<times> unit io \<Rightarrow> database io" where
  "unwrap_write = (\<lambda>(db, r). case r of Inr _ \<Rightarrow> Inr db | Inl _ \<Rightarrow> panic ''called Result::unwrap() on an Err value'')"

definition apply_to_database :: "'x ext_scheme \<Rightarrow> entry_payload \<Rightarrow> database \<Rightarrow> database io" where
  "apply_to_database E payload db =
     (case payload of
        PCommand record \<Rightarrow>
          (case lr_command record of
             CmdSet key v \<Rightarrow> unwrap_write (db_insert E key v db)
           | CmdDelete key \<Rightarrow> unwrap_write (db_delete E key db))
      | PAddNode _ _ \<Rightarrow> Inr db
      | PRemoveNode _ \<Rightarrow> Inr db)"

fun drain_entries :: "'x ext_scheme \<Rightarrow> node_id \<Rightarrow> (nat \<times> entry_payload) list \<Rightarrow> database \<Rightarrow> (node_id \<times> nat) list \<Rightarrow>
     (database \<times> (node_id \<times> nat) list) io" where
  "drain_entries E i [] db applied = Inr (db, applied)"
| "drain_entries E i ((index, payload) # es) db applied =
     and_then (apply_to_database E payload db) (\<lambda>db. drain_entries E i es db (AList.update i index applied))"

fun drain_nodes :: "'x ext_scheme \<Rightarrow> (node_id \<times> (nat \<times> entry_payload) list) list \<Rightarrow> test_cluster \<Rightarrow> test_cluster io" where
  "drain_nodes E [] tc = Inr tc"
| "drain_nodes E ((i, es) # rest) tc =
     (case map_of (tc_databases tc) i of
        None \<Rightarrow> panic ''called Option::unwrap() on a None value''
      | Some db \<Rightarrow>
          and_then (drain_entries E i es db (db_applied tc)) (\<lambda>(db, applied).
          drain_nodes E rest (tc\<lparr>tc_databases := AList.update i db (tc_databases tc), db_applied := applied\<rparr>)))"

definition apply_committed :: "'x ext_scheme \<Rightarrow> test_cluster \<Rightarrow> test_cluster io" where
  "apply_committed E tc =
     and_then (collect_committed (db_applied tc) (sim_nodes (tc_sim tc))) (\<lambda>committed. drain_nodes E committed tc)"

section \<open>The workload\<close>

definition zero_padded :: "nat \<Rightarrow> nat \<Rightarrow> rstring" where
  "zero_padded width n = replicate (width - length (nat_dec n)) 48 @ nat_dec n"

definition workload_key :: "nat \<Rightarrow> rstring" where
  "workload_key i = str ''k_'' @ zero_padded 6 i"

definition workload_value :: "nat \<Rightarrow> val" where
  "workload_value i = VString (str ''v_'' @ nat_dec i)"

fun submit_writes :: "'x raft_ext_scheme \<Rightarrow> nat list \<Rightarrow> test_cluster \<Rightarrow> test_cluster io" where
  "submit_writes E [] tc = Inr tc"
| "submit_writes E (i # is) tc =
     and_then (sim_index_mut 1 (\<lambda>n. and_then (append_command E (CmdSet (workload_key i) (workload_value i)) n) (\<lambda>(n, _). Inr n)) (tc_sim tc)) (\<lambda>sim.
     and_then (run_until_idle E sim) (\<lambda>sim.
     and_then (apply_committed E (tc\<lparr>tc_sim := sim\<rparr>)) (submit_writes E is)))"

definition beat :: "'x raft_ext_scheme \<Rightarrow> simulation \<Rightarrow> simulation io" where
  "beat E s = and_then (sim_index_mut 1 send_heartbeats s) (run_until_idle E)"

definition execute_workload :: "'x raft_ext_scheme \<Rightarrow> nat \<Rightarrow> test_cluster \<Rightarrow> test_cluster io" where
  "execute_workload E num_ops tc =
     and_then (submit_writes E [0..<num_ops] tc) (\<lambda>tc.
     and_then (beat E (tc_sim tc)) (\<lambda>sim.
     and_then (beat E sim) (\<lambda>sim.
     apply_committed E (tc\<lparr>tc_sim := sim\<rparr>))))"

section \<open>The check\<close>

fun verify_key :: "'x ext_scheme \<Rightarrow> rstring \<Rightarrow> val \<Rightarrow> (node_id \<times> database) list \<Rightarrow> bool io" where
  "verify_key E key expected [] = Inr True"
| "verify_key E key expected ((i, db) # dbs) =
     (case db_get E key db of
        Inl _ \<Rightarrow> panic ''called Result::unwrap() on an Err value''
      | Inr actual \<Rightarrow>
          if (case actual of None \<Rightarrow> False | Some v \<Rightarrow> val_eq v expected) then verify_key E key expected dbs
          else Inr False)"

fun verify_keys :: "'x ext_scheme \<Rightarrow> nat list \<Rightarrow> (node_id \<times> database) list \<Rightarrow> bool io" where
  "verify_keys E [] dbs = Inr True"
| "verify_keys E (i # is) dbs =
     and_then (verify_key E (workload_key i) (workload_value i) dbs) (\<lambda>ok. if ok then verify_keys E is dbs else Inr False)"

definition verify_correctness :: "'x ext_scheme \<Rightarrow> test_cluster \<Rightarrow> bool io" where
  "verify_correctness E tc =
     and_then (sim_index 1 (tc_sim tc)) (\<lambda>node.
     verify_keys E (filter (\<lambda>i. i mod 10 = 0) [0..<commit_index node]) (tc_databases tc))"

section \<open>Databases and logs\<close>

definition workload_entry :: "'x raft_ext_scheme \<Rightarrow> nat \<Rightarrow> log_entry" where
  "workload_entry E i = \<lparr>le_term = 1, le_payload = PCommand (log_record_new E 0 (CmdSet (workload_key i) (workload_value i)))\<rparr>"

lemma log_fits_append: "log_fits E (xs @ ys) db \<longleftrightarrow> log_fits E xs db \<and> log_fits E ys (fold (entry_apply E) xs db)"
  by (induction xs arbitrary: db) simp_all

lemma apply_to_database_ok:
  assumes "db_run E db m" and "entry_fits E e db"
  shows "apply_to_database E (le_payload e) db = Inr (entry_apply E e db)"
proof (cases "le_payload e")
  case (PCommand r)
  let ?c = "lr_command r"
  have "run_inv E db" "command_ok E ?c" "write_fits E (command_key ?c) (command_entry ?c) db"
    using run_inv_run [OF assms(1)] assms(2) PCommand by (simp_all add: entry_fits_def)
  then obtain db' where "maintain E (log_and_apply E ?c (command_key ?c) (command_entry ?c) db) = (db', Inr ())"
    by (rule write_disk_ok)
  with PCommand show ?thesis
    by (cases ?c) (simp_all add: apply_to_database_def entry_apply_def unwrap_write_def db_insert_def db_delete_def)
qed (simp_all add: apply_to_database_def entry_apply_def)

text \<open>Draining the entries between two indexes of a log into the database that has those before.\<close>

lemma committed_entries_log:
  assumes "rf_log node = D # es" and "commit_index node \<le> length es"
  shows "committed_entries a node = map (\<lambda>k. (k + 1, le_payload (es ! k))) [a..<commit_index node]"
proof -
  have "[a + 1..<commit_index node + 1] = map Suc [a..<commit_index node]" by (simp add: map_Suc_upt)
  then show ?thesis
    using assms unfolding committed_entries_def by (simp add: List.map_filter_def comp_def)
qed

lemma drain_log:
  assumes "db_run E d m" and "log_fits E es d" and "a \<le> c" and "c \<le> length es"
  shows "drain_entries E i (map (\<lambda>k. (k + 1, le_payload (es ! k))) [a..<c]) (fold (entry_apply E) (take a es) d) applied =
    Inr (fold (entry_apply E) (take c es) d, if a = c then applied else AList.update i c applied)"
  using assms(3)
proof (induction "c - a" arbitrary: a applied)
  case 0
  then show ?case by simp
next
  case (Suc k)
  then have a: "a < c" "[a..<c] = a # [a + 1..<c]" "a < length es" using assms(4) by (auto simp: upt_conv_Cons)
  let ?db = "fold (entry_apply E) (take a es) d"
  have es: "es = take a es @ es ! a # drop (Suc a) es" using a(3) by (simp add: id_take_nth_drop [symmetric])
  have fits: "log_fits E (take a es) d" "entry_fits E (es ! a) ?db"
    using assms(2) log_fits_append [of E "take a es" "es ! a # drop (Suc a) es" d] es by simp_all
  have "apply_to_database E (le_payload (es ! a)) ?db = Inr (fold (entry_apply E) (take (Suc a) es) d)"
    using apply_to_database_ok [OF log_run [OF assms(1) fits(1)] fits(2)] a(3) by (simp add: fold_take_Suc)
  moreover have "k = c - Suc a" "Suc a \<le> c" using Suc a(1) by simp_all
  note Suc.hyps(1) [OF this, of "AList.update i (a + 1) applied"]
  ultimately show ?case using a by (cases "Suc a = c") simp_all
qed

section \<open>States of the fixture\<close>

text \<open>The database of node \<open>i\<close> has the first \<open>g i\<close> entries of the log \<open>es\<close>, which does not count the first one.\<close>

definition databases_at :: "'x raft_ext_scheme \<Rightarrow> node_id list \<Rightarrow> log_entry list \<Rightarrow> database \<Rightarrow> (node_id \<Rightarrow> nat) \<Rightarrow> test_cluster \<Rightarrow> bool" where
  "databases_at E ids es d g tc \<longleftrightarrow> map fst (tc_databases tc) = ids \<and>
     (\<forall>i \<in> set ids. map_of (tc_databases tc) i = Some (fold (entry_apply E) (take (g i) es) d) \<and> map_of (db_applied tc) i = Some (g i))"

lemma drain_all:
  assumes d: "db_run E d m" "log_fits E es d" and "distinct xs" and "set xs \<subseteq> set ids" and "\<forall>i \<in> set xs. g i \<le> h i \<and> h i \<le> length es"
    and "databases_at E ids es d g tc"
  shows "\<exists>tc'. drain_nodes E (map (\<lambda>i. (i, map (\<lambda>k. (k + 1, le_payload (es ! k))) [g i..<h i])) xs) tc = Inr tc' \<and> tc_sim tc' = tc_sim tc \<and>
    databases_at E ids es d (\<lambda>i. if i \<in> set xs then h i else g i) tc'"
  using assms(3-6)
proof (induction xs arbitrary: tc g)
  case Nil
  then show ?case by simp
next
  case (Cons i xs)
  let ?db = "fold (entry_apply E) (take (g i) es) d" and ?db' = "fold (entry_apply E) (take (h i) es) d"
  let ?applied = "if g i = h i then db_applied tc else AList.update i (h i) (db_applied tc)"
  let ?tc = "tc\<lparr>tc_databases := AList.update i ?db' (tc_databases tc), db_applied := ?applied\<rparr>"
  have i: "i \<in> set ids" "map_of (tc_databases tc) i = Some ?db" "map_of (db_applied tc) i = Some (g i)" using Cons.prems(2,4) by (simp_all add: databases_at_def)
  have drain: "drain_entries E i (map (\<lambda>k. (k + 1, le_payload (es ! k))) [g i..<h i]) ?db (db_applied tc) = Inr (?db', ?applied)"
    using drain_log [OF d, of "g i" "h i" i "db_applied tc"] Cons.prems(3) by simp
  have "map fst (AList.update i ?db' (tc_databases tc)) = map fst (tc_databases tc)"
    using update_keeps_keys [of "tc_databases tc" i ?db'] i(2) by simp
  then have at: "databases_at E ids es d (g(i := h i)) ?tc"
    using Cons.prems(4) i(3) by (auto simp: databases_at_def map_of_update)
  define part where "part g j = (j, map (\<lambda>k. (k + 1, le_payload (es ! k))) [g j..<h j])" for g :: "node_id \<Rightarrow> nat" and j
  have parts: "map (part g) xs = map (part (g(i := h i))) xs" using Cons.prems(1) by (auto simp: part_def)
  have head: "drain_nodes E (map (part g) (i # xs)) tc = drain_nodes E (map (part (g(i := h i))) xs) ?tc"
    unfolding parts [symmetric] using drain i(2) by (simp add: part_def)
  have "\<forall>j \<in> set xs. (g(i := h i)) j \<le> h j \<and> h j \<le> length es" using Cons.prems(1,3) by auto
  then obtain tc' where tc': "drain_nodes E (map (part (g(i := h i))) xs) ?tc = Inr tc'" "tc_sim tc' = tc_sim tc"
    "databases_at E ids es d (\<lambda>j. if j \<in> set xs then h j else (g(i := h i)) j) tc'"
    using Cons.IH [OF _ _ _ at] Cons.prems(1,2) unfolding part_def by auto
  have "(\<lambda>j. if j \<in> set xs then h j else (g(i := h i)) j) = (\<lambda>j. if j \<in> set (i # xs) then h j else g j)" using Cons.prems(1) by auto
  with head tc' show ?case unfolding part_def by auto
qed

text \<open>All nodes hold the log, the leader has committed it and the others the first \<open>c\<close> entries of it.\<close>

definition commits :: "log_entry list \<Rightarrow> nat \<Rightarrow> node_id \<Rightarrow> nat" where
  "commits es c i = (if i = 1 then length es else c)"

definition cluster_at :: "'x raft_ext_scheme \<Rightarrow> node_id list \<Rightarrow> log_entry list \<Rightarrow> nat \<Rightarrow> simulation \<Rightarrow> bool" where
  "cluster_at E ps es c s \<longleftrightarrow> rested 1 ps (dummy_entry E # es) c s \<and> node_ids s = 1 # ps \<and> distinct (1 # ps)"

lemma cluster_at_node:
  assumes "cluster_at E ps es c s" and "(i, n) \<in> set (sim_nodes s)"
  shows "rf_log n = dummy_entry E # es" and "commit_index n = commits es c i" and "commits es c i \<le> length es" and "i \<in> set (1 # ps)"
proof -
  let ?R = "\<lparr>rd_leader = 1, rd_peers = ps, rd_log = dummy_entry E # es, rd_next = length (dummy_entry E # es), rd_commit = c\<rparr>"
  have R: "round_done ?R (map_of (sim_nodes s))" and ids: "distinct (node_ids s)" "node_ids s = 1 # ps"
    using assms(1) unfolding cluster_at_def rested_def by (blast, simp_all)
  have ok: "round_ok ?R" using R unfolding round_done_def by blast
  have n: "map_of (sim_nodes s) i = Some n" using ids(1) assms(2) by (rule map_of_is_SomeI)
  show i: "i \<in> set (1 # ps)" using assms(2) ids(2) by (metis fst_conv image_eqI set_map)
  show "commits es c i \<le> length es" using ok by (simp add: commits_def round_ok_def)
  show "rf_log n = dummy_entry E # es" "commit_index n = commits es c i"
    using R ok i n unfolding round_done_def by (auto simp: round_ok_def commits_def leader_state_def has_entries_def)
qed

lemma collect_ok:
  assumes "\<forall>(i, n) \<in> set nodes. map_of applied i = Some (g i) \<and> committed_entries (g i) n = f i"
  shows "collect_committed applied nodes = Inr (map (\<lambda>i. (i, f i)) (map fst nodes))"
  using assms by (induction nodes) auto

lemma apply_committed_ok:
  assumes s: "cluster_at E ps es c (tc_sim tc)" and d: "db_run E d m" "log_fits E es d" and at: "databases_at E (1 # ps) es d g tc"
    and le: "\<forall>i \<in> set (1 # ps). g i \<le> commits es c i"
  shows "\<exists>tc'. apply_committed E tc = Inr tc' \<and> tc_sim tc' = tc_sim tc \<and> databases_at E (1 # ps) es d (commits es c) tc'"
proof -
  let ?f = "\<lambda>i. map (\<lambda>k. (k + 1, le_payload (es ! k))) [g i..<commits es c i]"
  have ids: "node_ids (tc_sim tc) = 1 # ps" "distinct (1 # ps)" using s by (simp_all add: cluster_at_def)
  have "map_of (db_applied tc) i = Some (g i) \<and> committed_entries (g i) n = ?f i" if "(i, n) \<in> set (sim_nodes (tc_sim tc))" for i n
    using cluster_at_node [OF s that] committed_entries_log [of n "dummy_entry E" es "g i"] at unfolding databases_at_def by metis
  then have collect: "collect_committed (db_applied tc) (sim_nodes (tc_sim tc)) = Inr (map (\<lambda>i. (i, ?f i)) (1 # ps))"
    using collect_ok [of "sim_nodes (tc_sim tc)" "db_applied tc" g ?f] ids(1) by auto
  have "commits es c i \<le> length es" if "i \<in> set (1 # ps)" for i
    using that ids(1) cluster_at_node(3) [OF s] by (metis (no_types, lifting) image_iff set_map prod.collapse)
  then obtain tc' where "drain_nodes E (map (\<lambda>i. (i, ?f i)) (1 # ps)) tc = Inr tc'" "tc_sim tc' = tc_sim tc"
    "databases_at E (1 # ps) es d (\<lambda>i. if i \<in> set (1 # ps) then commits es c i else g i) tc'"
    using drain_all [OF d ids(2) subset_refl _ at, of "commits es c"] le by blast
  with collect show ?thesis by (auto simp: apply_committed_def databases_at_def)
qed

definition fixture_at :: "'x raft_ext_scheme \<Rightarrow> node_id list \<Rightarrow> log_entry list \<Rightarrow> nat \<Rightarrow> database \<Rightarrow> test_cluster \<Rightarrow> bool" where
  "fixture_at E ps es c d tc \<longleftrightarrow> cluster_at E ps es c (tc_sim tc) \<and> databases_at E (1 # ps) es d (commits es c) tc"

lemma cluster_at_commits:
  assumes "cluster_at E ps es c s" and "i \<in> set (1 # ps)"
  shows "commits es c i \<le> length es"
proof -
  have "i \<in> fst ` set (sim_nodes s)" using assms by (simp add: cluster_at_def flip: set_map)
  then show ?thesis using cluster_at_node(3) [OF assms(1)] by auto
qed

lemma commits_mono:
  assumes "cluster_at E ps es c s" and "length es \<le> length es'" and "length es \<le> c'"
  shows "\<forall>i \<in> set (1 # ps). commits es c i \<le> commits es' c' i"
proof
  fix i assume "i \<in> set (1 # ps)"
  from cluster_at_commits [OF assms(1) this] assms(2,3) show "commits es c i \<le> commits es' c' i" by (simp add: commits_def split: if_splits)
qed

lemma submit_ok:
  assumes d: "db_run E d m" and size: "length ps \<le> 2500" and "fixture_at E ps es c d tc" and "log_fits E (es @ map (workload_entry E) is) d"
  shows "\<exists>tc' c'. submit_writes E is tc = Inr tc' \<and> fixture_at E ps (es @ map (workload_entry E) is) c' d tc'"
  using assms(3,4)
proof (induction "is" arbitrary: es c tc)
  case Nil
  then show ?case by auto
next
  case (Cons i "is")
  let ?w = "workload_entry E i" and ?f = "\<lambda>n. and_then (append_command E (CmdSet (workload_key i) (workload_value i)) n) (\<lambda>(n, _). Inr n)"
  have at: "cluster_at E ps es c (tc_sim tc)" "databases_at E (1 # ps) es d (commits es c) tc" using Cons.prems(1) by (simp_all add: fixture_at_def)
  then have "rested 1 ps (dummy_entry E # es) c (tc_sim tc)" by (simp add: cluster_at_def)
  from command_round [OF this, of E "CmdSet (workload_key i) (workload_value i)"] size obtain s' s'' where s: "sim_index_mut 1 ?f (tc_sim tc) = Inr s'"
    "run_until_idle E s' = Inr s''" "rested 1 ps (dummy_entry E # es @ [?w]) (length es) s''" "node_ids s'' = node_ids (tc_sim tc)"
    by (auto simp: workload_entry_def)
  let ?tc = "tc\<lparr>tc_sim := s''\<rparr>"
  have c1: "cluster_at E ps (es @ [?w]) (length es) (tc_sim ?tc)" using s(3,4) at(1) by (simp add: cluster_at_def)
  have "databases_at E (1 # ps) (es @ [?w]) d (commits es c) ?tc"
    using at(2) cluster_at_commits [OF at(1)] unfolding databases_at_def by simp
  moreover have "\<forall>j \<in> set (1 # ps). commits es c j \<le> commits (es @ [?w]) (length es) j"
    by (rule commits_mono [OF at(1)]) simp_all
  moreover have "log_fits E (es @ [?w]) d" using Cons.prems(2) log_fits_append [of E "es @ [?w]" "map (workload_entry E) is" d] by simp
  ultimately obtain tc1 where tc1: "apply_committed E ?tc = Inr tc1" "fixture_at E ps (es @ [?w]) (length es) d tc1"
    using apply_committed_ok [OF c1 d, of "commits es c"] c1 by (auto simp: fixture_at_def)
  from Cons.IH [OF tc1(2)] Cons.prems(2) s(1,2) tc1(1) show ?case by simp
qed

lemma beat_ok:
  assumes "cluster_at E ps es c s" and "length ps \<le> 2500"
  shows "\<exists>s'. beat E s = Inr s' \<and> cluster_at E ps es (length es) s'"
  using beat_round [of 1 ps "dummy_entry E # es" c s E] assms by (auto simp: cluster_at_def beat_def)

lemma execute_ok:
  assumes d: "db_run E d m" and size: "length ps \<le> 2500" and "fixture_at E ps es c d tc" and fits: "log_fits E (es @ map (workload_entry E) [0..<k]) d"
  shows "\<exists>tc'. execute_workload E k tc = Inr tc' \<and>
    fixture_at E ps (es @ map (workload_entry E) [0..<k]) (length es + k) d tc'"
proof -
  let ?es = "es @ map (workload_entry E) [0..<k]"
  obtain tc1 c1 where tc1: "submit_writes E [0..<k] tc = Inr tc1" "cluster_at E ps ?es c1 (tc_sim tc1)" "databases_at E (1 # ps) ?es d (commits ?es c1) tc1"
    using submit_ok [OF assms] by (auto simp: fixture_at_def)
  obtain s1 where s1: "beat E (tc_sim tc1) = Inr s1" "cluster_at E ps ?es (length ?es) s1" using beat_ok [OF tc1(2) size] by blast
  obtain s2 where s2: "beat E s1 = Inr s2" "cluster_at E ps ?es (length ?es) s2" using beat_ok [OF s1(2) size] by blast
  have "databases_at E (1 # ps) ?es d (commits ?es c1) (tc1\<lparr>tc_sim := s2\<rparr>)" using tc1(3) by (simp add: databases_at_def)
  moreover have "\<forall>i \<in> set (1 # ps). commits ?es c1 i \<le> commits ?es (length ?es) i"
    by (rule commits_mono [OF tc1(2)]) simp_all
  moreover have "cluster_at E ps ?es (length ?es) (tc_sim (tc1\<lparr>tc_sim := s2\<rparr>))" using s2(2) by simp
  note apply_committed_ok [OF this d fits]
  ultimately obtain tc' where "apply_committed E (tc1\<lparr>tc_sim := s2\<rparr>) = Inr tc'" "tc_sim tc' = s2" "databases_at E (1 # ps) ?es d (commits ?es (length ?es)) tc'"
    by auto
  with tc1(1) s1(1) s2 show ?thesis by (simp add: execute_workload_def fixture_at_def)
qed

section \<open>A new fixture\<close>

lemma cluster_ids_form:
  assumes "1 \<le> nodes" and "nodes < 2 ^ 64"
  shows "cluster_ids nodes = 1 # map of_nat [2..<nodes + 1]" and "sorted (cluster_ids nodes)" and "distinct (cluster_ids nodes)"
proof -
  show "cluster_ids nodes = 1 # map of_nat [2..<nodes + 1]" 
    using assms(1) upt_conv_Cons [of 1 "nodes + 1"] by (simp add: cluster_ids_def numeral_2_eq_2 del: upt_Suc)
  have le: "of_nat i \<le> (of_nat j :: u64)" if "i \<le> j" "j < 2 ^ 64" for i j
    using that by (simp add: word_of_nat_less_eq_iff take_bit_nat_eq_self)
  show "sorted (cluster_ids nodes)"
    unfolding cluster_ids_def sorted_map
    by (rule sorted_wrt_mono_rel [OF _ sorted_upt]) (use assms(2) le in auto)
  have "inj_on (of_nat :: nat \<Rightarrow> u64) {..<2 ^ 64}" by (rule inj_onI) (simp add: word_of_nat_eq_iff take_bit_nat_eq_self)
  then have "inj_on (of_nat :: nat \<Rightarrow> u64) (set [1..<nodes + 1])" by (rule inj_on_subset) (use assms(2) in auto)
  then show "distinct (cluster_ids nodes)" by (simp add: cluster_ids_def distinct_map)
qed

lemma open_databases_ok:
  assumes "open_in_dir E [] cfg = Inr d" and "distinct ids" and "set ids \<inter> set (map fst dbs) = {}" and "set ids \<inter> set (map fst applied) = {}"
  shows "open_databases E cfg ids (dbs, applied) = Inr (dbs @ map (\<lambda>i. (i, d)) ids, applied @ map (\<lambda>i. (i, 0)) ids)"
  using assms(2-4)
proof (induction ids arbitrary: dbs applied)
  case (Cons i ids)
  have new: "AList.update k v al = al @ [(k, v)]" if "k \<notin> set (map fst al)" for k v and al :: "(node_id \<times> 'v) list"
    using that by (induction al) auto
  show ?case using Cons assms(1) by (simp add: new)
qed simp

lemma new_fixture_ok:
  assumes "bloom_sizing_ok E" and "config_ok cfg" and "1 \<le> nodes" and "nodes \<le> 2501"
  obtains tc d where "new_with_config E started now rand nodes cfg = Inr tc" and "open_in_dir E [] cfg = Inr d" and "db_run E d Map.empty"
    and "fixture_at E (map of_nat [2..<nodes + 1]) [] 0 d tc"
proof -
  define ps :: "node_id list" where "ps = map of_nat [2..<nodes + 1]"
  have "nodes < 2 ^ 64" using assms(4) by simp
  note ids = cluster_ids_form [OF assms(3) this, folded ps_def]
  have ps: "distinct ps" "1 \<notin> set ps" using ids(3) unfolding ids(1) by simp_all
  have len: "length ps \<le> 2500" using assms(4) by (simp add: ps_def del: upt_Suc)
  have "filter (\<lambda>j. j \<noteq> 1) ps = ps" by (rule filter_True) (use ps(2) in blast)
  then have filter: "filter (\<lambda>j. j \<noteq> 1) (cluster_ids nodes) = ps" by (simp only: ids(1) filter.simps simp_thms if_False)
  have fits: "\<forall>i \<in> set (cluster_ids nodes). 150 + unat i * 50 < 2 ^ 64"
  proof
    fix i assume "i \<in> set (cluster_ids nodes)"
    then obtain k where "i = of_nat k" "k \<le> 2501" using assms(4) by (auto simp: cluster_ids_def)
    moreover from this have "unat i = k" by (simp add: unat_of_nat take_bit_nat_eq_self)
    ultimately show "150 + unat i * 50 < 2 ^ 64" by simp
  qed
  obtain s where s: "new_cluster E started now rand (cluster_ids nodes) = Inr s" "calm s" "sim_events s = []" "node_ids s = cluster_ids nodes"
    and new: "\<forall>i \<in> set (cluster_ids nodes). \<exists>n. map_of (sim_nodes s) i = Some n \<and> new_state E i (filter (\<lambda>j. j \<noteq> i) (cluster_ids nodes)) n"
    using new_cluster_state [OF assms(1) ids(2,3) fits] by blast
  obtain n where n: "map_of (sim_nodes s) 1 = Some n" "new_state E 1 ps n" using new filter by (auto simp: ids(1))
  have set: "set (node_ids s) = insert 1 (set ps)" using s(4) by (simp add: ids(1))
  have peers: "\<forall>p \<in> set ps. \<exists>m qs. map_of (sim_nodes s) p = Some m \<and> new_state E p qs m"
    using new unfolding ids(1) by (metis list.set_intros(2))
  obtain s1 s2 where s12: "trigger_election 1 s = Inr s1" "run_until_idle E s1 = Inr s2" "rested 1 ps [dummy_entry E] 0 s2" "node_ids s2 = node_ids s"
    using election_round [OF s(2,3) set ps len n peers] by blast
  obtain n2 where n2: "map_of (sim_nodes s2) 1 = Some n2" "rf_role n2 = Leader" by (rule rested_leader [OF s12(3)])
  have level: "0 < cfg_sstable_level cfg" using assms(2) by (simp add: config_ok_def)
  obtain d where d: "open_in_dir E [] cfg = Inr d" by (rule Database.open_empty [OF assms(1) level])
  let ?tc = "\<lparr>tc_sim = s2, tc_databases = map (\<lambda>i. (i, d)) (cluster_ids nodes), db_applied = map (\<lambda>i. (i, 0)) (cluster_ids nodes)\<rparr>"
  have new_tc: "new_with_config E started now rand nodes cfg = Inr ?tc"
    using s(1) open_databases_ok [OF d ids(3), of "[]" "[]"] s12 n2 by (simp add: new_with_config_def sim_index_def)
  have "cluster_at E ps [] 0 s2" using s12(3,4) s(4) ids(3) by (simp add: cluster_at_def ids(1))
  moreover have "databases_at E (1 # ps) [] d (commits [] 0) ?tc"
    unfolding databases_at_def ids(1) [symmetric] by (auto simp: commits_def map_of_map_restrict comp_def)
  ultimately have "fixture_at E ps [] 0 d ?tc" by (simp add: fixture_at_def)
  from that [OF new_tc d run_start [OF assms(1,2) d] this [unfolded ps_def]] show thesis .
qed

section \<open>What the check finds\<close>

lemma zero_padded_inj: "zero_padded w i = zero_padded w j \<Longrightarrow> i = j"
proof -
  have zeros: "dec_nat 0 (replicate k 48 @ ds) = dec_nat 0 ds" for k and ds :: bytes by (induction k) simp_all
  have "dec_nat 0 (zero_padded w k) = Some k" for k by (simp add: zero_padded_def zeros dec_nat_nat_dec)
  then show "zero_padded w i = zero_padded w j \<Longrightarrow> i = j" by (metis option.inject)
qed

lemma workload_map:
  "fold entry_map (map (workload_entry E) is) m (workload_key i) = (if i \<in> set is then Some (workload_value i) else m (workload_key i))"
proof (induction "is" arbitrary: m)
  case (Cons j "is")
  have "workload_key j = workload_key i \<longleftrightarrow> i = j" using zero_padded_inj by (auto simp: workload_key_def)
  then show ?case using Cons by (auto simp: workload_entry_def)
qed simp

lemma verify_key_value:
  assumes "\<forall>(i, db) \<in> set dbs. db_get E key db = Inr v" and "dbs \<noteq> []"
  shows "verify_key E key (VString w) dbs = Inr (v = Some (VString w))"
proof -
  have match: "(case v of None \<Rightarrow> False | Some x \<Rightarrow> val_eq x (VString w)) \<longleftrightarrow> v = Some (VString w)"
    by (cases v; cases "the v") auto
  have "verify_key E key (VString w) dbs = Inr (dbs = [] \<or> v = Some (VString w))"
    using assms(1)
  proof (induction dbs)
    case (Cons x dbs)
    obtain i db where x: "x = (i, db)" by force
    with Cons.prems have "db_get E key db = Inr v" by simp
    with Cons match x show ?case by (cases "v = Some (VString w)") simp_all
  qed simp
  with assms(2) show ?thesis by simp
qed

lemma verify_keys_value:
  assumes "\<And>i. verify_key E (workload_key i) (workload_value i) dbs = Inr (ok i)"
  shows "verify_keys E is dbs = Inr (list_all ok is)"
  by (induction "is") (simp_all add: assms)

lemma verify_fixture:
  assumes d: "db_run E d Map.empty" "log_fits E (map (workload_entry E) is) d" and at: "fixture_at E ps (map (workload_entry E) is) (length is) d tc"
  shows "verify_correctness E tc = Inr (\<forall>i < length is. i mod 10 = 0 \<longrightarrow> i \<in> set is)"
proof -
  let ?es = "map (workload_entry E) is"
  have c: "cluster_at E ps ?es (length is) (tc_sim tc)" and dbs: "databases_at E (1 # ps) ?es d (commits ?es (length is)) tc"
    using at by (simp_all add: fixture_at_def)
  have "rested 1 ps (dummy_entry E # ?es) (length is) (tc_sim tc)" using c by (simp add: cluster_at_def)
  then obtain n where n: "map_of (sim_nodes (tc_sim tc)) 1 = Some n" "commit_index n = length (dummy_entry E # ?es) - 1" by (rule rested_leader)
  let ?m = "fold entry_map ?es Map.empty"
  have run: "db_run E (fold (entry_apply E) ?es d) ?m" by (rule log_run [OF d])
  have get: "db_get E key db = Inr (?m key)" if "(i, db) \<in> set (tc_databases tc)" for i db key
  proof -
    have keys: "map fst (tc_databases tc) = 1 # ps" using dbs unfolding databases_at_def by blast
    have "distinct (1 # ps)" using c unfolding cluster_at_def by blast
    then have "distinct (map fst (tc_databases tc))" unfolding keys .
    moreover have "i \<in> set (map fst (tc_databases tc))" using that by force
    then have "i \<in> set (1 # ps)" unfolding keys .
    ultimately have "db = fold (entry_apply E) (take (commits ?es (length is) i) ?es) d" using dbs that unfolding databases_at_def by (metis map_of_is_SomeI option.inject)
    moreover have "take (commits ?es (length is) i) ?es = ?es" by (simp add: commits_def)
    ultimately have "db = fold (entry_apply E) ?es d" by simp
    with run_inv_run [OF run] db_get_view [of E db key] show ?thesis by (simp add: run_inv_def)
  qed
  have "tc_databases tc \<noteq> []" using dbs by (auto simp: databases_at_def)
  then have "verify_key E (workload_key i) (workload_value i) (tc_databases tc) = Inr (?m (workload_key i) = Some (workload_value i))" for i
    unfolding workload_value_def by (intro verify_key_value) (use get in auto)
  then have "verify_key E (workload_key i) (workload_value i) (tc_databases tc) = Inr (i \<in> set is)" for i by (simp add: workload_map)
  from verify_keys_value [OF this] n show ?thesis by (auto simp: verify_correctness_def sim_index_def list_all_iff)
qed

section \<open>Workloads that fit\<close>

text \<open>A database with room for \<open>n\<close> writes of weight \<open>w\<close> each, whatever flushes and compactions they cause.\<close>

definition has_room :: "'x ext_scheme \<Rightarrow> nat \<Rightarrow> nat \<Rightarrow> database \<Rightarrow> bool" where
  "has_room E w n db \<longleftrightarrow>
     unat (next_sstable_id db) + n * (length (leveled_sstable db) + 1) < 2 ^ 32 \<and> db_weight E db + n * w < 2 ^ 60"

definition small_entry :: "'x ext_scheme \<Rightarrow> nat \<Rightarrow> log_entry \<Rightarrow> bool" where
  "small_entry E w e \<longleftrightarrow> (case le_payload e of
     PCommand r \<Rightarrow> command_ok E (lr_command r) \<and> entry_weight E (command_key (lr_command r), command_entry (lr_command r)) \<le> w
   | _ \<Rightarrow> False)"

lemma has_room_apply:
  assumes "db_run E db m" and "small_entry E w e" and "has_room E w (Suc n) db"
  shows "entry_fits E e db" and "has_room E w n (entry_apply E e db)"
proof -
  obtain r where r: "le_payload e = PCommand r" using assms(2) by (auto simp: small_entry_def split: entry_payload.splits)
  let ?c = "lr_command r"
  have c: "command_ok E ?c" and w: "entry_weight E (command_key ?c, command_entry ?c) \<le> w" using assms(2) r by (simp_all add: small_entry_def)
  have inv: "db_inv E db" using run_inv_run [OF assms(1)] by (simp add: run_inv_def)
  have fits: "write_fits E (command_key ?c) (command_entry ?c) db"
    using command_pair_ok [OF c] w assms(3) by (simp add: write_fits_def ids_left_def has_room_def)
  then show "entry_fits E e db" using r c by (simp add: entry_fits_def)
  obtain db' where db': "maintain E (log_and_apply E ?c (command_key ?c) (command_entry ?c) db) = (db', Inr ())"
    "length (leveled_sstable db') = length (leveled_sstable db)"
    "unat (next_sstable_id db') \<le> unat (next_sstable_id db) + length (leveled_sstable db) + 1"
    "db_weight E db' \<le> db_weight E db + entry_weight E (command_key ?c, command_entry ?c)"
    by (rule write_inv [OF inv c fits])
  have "entry_apply E e db = db'" using db'(1) r by (cases ?c) (simp_all add: entry_apply_def db_insert_def db_delete_def)
  then show "has_room E w n (entry_apply E e db)" using db'(2-) w assms(3) by (simp add: has_room_def)
qed

lemma has_room_fits:
  "db_run E db m \<Longrightarrow> list_all (small_entry E w) es \<Longrightarrow> has_room E w (length es) db \<Longrightarrow> log_fits E es db"
proof (induction es arbitrary: db m)
  case (Cons e es)
  then have e: "small_entry E w e" "has_room E w (Suc (length es)) db" by simp_all
  note room = has_room_apply [OF Cons.prems(1) e]
  from Cons.IH [OF entry_apply_run [OF Cons.prems(1) room(1)] _ room(2)] Cons.prems(2) room(1) show ?case by simp
qed simp

lemma nat_dec_length: "i < 10 ^ n \<Longrightarrow> 0 < n \<Longrightarrow> length (nat_dec i) \<le> n"
proof (induction i arbitrary: n rule: nat_dec.induct)
  case (1 i)
  show ?case
  proof (cases "i < 10")
    case True
    then show ?thesis using 1(3) by (subst nat_dec.simps) simp
  next
    case False
    obtain k where n: "n = Suc k" using 1(3) by (cases n) simp_all
    have "0 < k" using 1(2) False n by (cases k) simp_all
    moreover have "i div 10 < 10 ^ k" using 1(2) n by (simp add: less_mult_imp_div_less mult.commute)
    ultimately have "length (nat_dec (i div 10)) \<le> k" using 1(1) False by simp
    then show ?thesis using False n by (subst nat_dec.simps) simp
  qed
qed

text \<open>Commands whose key is a prefix and a padded number, and whose value is a prefix and a number.\<close>

definition ascii :: "bytes \<Rightarrow> bool" where
  "ascii bs \<longleftrightarrow> (\<forall>b \<in> set bs. b \<le> 0x7F)"

lemma ascii_nat_dec: "ascii (nat_dec i)"
  unfolding ascii_def
proof
  fix b assume "b \<in> set (nat_dec i)"
  then have "b \<le> 57" using nat_dec_digits [of i] by (simp add: is_digit_def)
  then show "b \<le> 0x7F" by (rule order_trans) simp
qed

lemma numbered_command:
  assumes "i < 2 ^ 32" and "ascii p" and "ascii q" and "length p \<le> 10" and "length q \<le> 10"
  shows "command_ok E (CmdSet (p @ zero_padded 6 i) (VString (q @ nat_dec i)))" and "command_ok E (CmdDelete (p @ zero_padded 6 i))"
    and "length (p @ zero_padded 6 i) \<le> length p + 10" and "length (q @ nat_dec i) \<le> length q + 10"
proof -
  have dec: "length (nat_dec i) \<le> 10" using assms(1) by (intro nat_dec_length) simp_all
  then show lens: "length (p @ zero_padded 6 i) \<le> length p + 10" "length (q @ nat_dec i) \<le> length q + 10"
    by (simp_all add: zero_padded_def)
  have "ascii (p @ zero_padded 6 i)" "ascii (q @ nat_dec i)"
    using assms(2,3) ascii_nat_dec [of i] by (auto simp: ascii_def zero_padded_def)
  then have "utf8_valid (p @ zero_padded 6 i)" "utf8_valid (q @ nat_dec i)" by (simp_all only: ascii_def utf8_valid_ascii)
  then show "command_ok E (CmdSet (p @ zero_padded 6 i) (VString (q @ nat_dec i)))" "command_ok E (CmdDelete (p @ zero_padded 6 i))"
    using lens assms(4,5) by (simp_all add: key_ok_def val_fits_def)
qed

lemma workload_small: "i < 2 ^ 32 \<Longrightarrow> small_entry E 60 (workload_entry E i)"
  using numbered_command(1) [of i "str ''k_''" "str ''v_''" E] numbered_command(3,4) [of i "str ''k_''" "str ''v_''"]
  by (simp add: small_entry_def workload_entry_def log_record_new_def entry_weight_def workload_key_def workload_value_def ascii_def str_def)

text \<open>
  A flush and a compaction of each level take a table id each, of which there are \<open>2 ^ 32\<close>: this bounds the writes
  that a database of a given number of levels takes for sure.
\<close>

lemma workload_fits:
  assumes "bloom_sizing_ok E" and "config_ok cfg" and d: "open_in_dir E [] cfg = Inr d"
    and ids: "\<forall>i \<in> set is. i < length is" and len: "length is * (cfg_sstable_level cfg + 1) < 2 ^ 32"
  shows "log_fits E (map (workload_entry E) is) d"
proof (rule has_room_fits)
  show "db_run E d Map.empty" by (rule run_start [OF assms(1-3)])
  have le: "length is \<le> length is * (cfg_sstable_level cfg + 1)" by simp
  show "list_all (small_entry E 60) (map (workload_entry E) is)"
  proof (simp only: list_all_iff set_map ball_simps, rule ballI)
    fix i assume "i \<in> set is"
    then have "i < length is" using ids by blast
    then show "small_entry E 60 (workload_entry E i)" using le len by (intro workload_small) linarith
  qed
  have "0 < cfg_sstable_level cfg" using assms(2) by (simp add: config_ok_def)
  then obtain d' where "open_in_dir E [] cfg = Inr d'" "next_sstable_id d' = 0" "db_weight E d' = 0"
    "length (leveled_sstable d') = cfg_sstable_level cfg" by (rule Database.open_empty [OF assms(1)])
  moreover have "length is * 60 < 2 ^ 60" using le len by simp
  ultimately show "has_room E 60 (length (map (workload_entry E) is)) d" using d len by (simp add: has_room_def)
qed

section \<open>Properties\<close>

text \<open>
  C13. The integration test passes: for every size up to 2501 nodes and every configuration with at least one level and a
  table threshold of at least two, the fixture is made, runs a workload of any number of writes that the ids of the tables allow,
  and the check then finds every key it asks for in the database of every node. Simulator, election, replication, commitment and
  databases together do what a client of a single map expects.
\<close>

theorem workload_verified:
  assumes "bloom_sizing_ok E" and "config_ok cfg" and "1 \<le> nodes" and "nodes \<le> 2501"
    and "num_ops * (cfg_sstable_level cfg + 1) < 2 ^ 32"
  shows "\<exists>tc tc'. new_with_config E started now rand nodes cfg = Inr tc \<and> execute_workload E num_ops tc = Inr tc' \<and>
    verify_correctness E tc' = Inr True"
proof -
  obtain tc d where tc: "new_with_config E started now rand nodes cfg = Inr tc" "open_in_dir E [] cfg = Inr d" "db_run E d Map.empty"
    "fixture_at E (map of_nat [2..<nodes + 1]) [] 0 d tc" by (rule new_fixture_ok [OF assms(1-4)])
  have fits: "log_fits E (map (workload_entry E) [0..<num_ops]) d" by (rule workload_fits [OF assms(1,2) tc(2)]) (use assms(5) in simp_all)
  have "length (map of_nat [2..<nodes + 1] :: node_id list) \<le> 2500" using assms(4) by (simp del: upt_Suc)
  from execute_ok [OF tc(3) this tc(4), of num_ops] fits obtain tc' where tc': "execute_workload E num_ops tc = Inr tc'"
    "fixture_at E (map of_nat [2..<nodes + 1]) (map (workload_entry E) [0..<num_ops]) (length [0..<num_ops]) d tc'" by auto
  from verify_fixture [OF tc(3) fits tc'(2)] have "verify_correctness E tc' = Inr True" by simp
  with tc(1) tc'(1) show ?thesis by blast
qed

text \<open>
  The check takes the number of committed entries for the number of keys: after a second workload of ten or more writes it asks for
  keys that no workload has, and reports a mismatch although every database has what was written.
\<close>

theorem second_workload_reported:
  assumes "bloom_sizing_ok E" and "config_ok cfg" and "1 \<le> nodes" and "nodes \<le> 2501" and "10 \<le> num_ops"
    and "2 * num_ops * (cfg_sstable_level cfg + 1) < 2 ^ 32"
  shows "\<exists>tc tc1 tc2. new_with_config E started now rand nodes cfg = Inr tc \<and> execute_workload E num_ops tc = Inr tc1 \<and>
    execute_workload E num_ops tc1 = Inr tc2 \<and> verify_correctness E tc2 = Inr False"
proof -
  obtain tc d where tc: "new_with_config E started now rand nodes cfg = Inr tc" "open_in_dir E [] cfg = Inr d" "db_run E d Map.empty"
    "fixture_at E (map of_nat [2..<nodes + 1]) [] 0 d tc" by (rule new_fixture_ok [OF assms(1-4)])
  let ?is = "[0..<num_ops] @ [0..<num_ops]"
  have fits: "log_fits E (map (workload_entry E) ?is) d"
    by (rule workload_fits [OF assms(1,2) tc(2)]) (use assms(6) in \<open>auto simp: mult_2\<close>)
  then have fits1: "log_fits E (map (workload_entry E) [0..<num_ops]) d" by (simp add: log_fits_append)
  have len: "length (map of_nat [2..<nodes + 1] :: node_id list) \<le> 2500" using assms(4) by (simp del: upt_Suc)
  from execute_ok [OF tc(3) len tc(4), of num_ops] fits1 obtain tc1 where tc1: "execute_workload E num_ops tc = Inr tc1"
    "fixture_at E (map of_nat [2..<nodes + 1]) (map (workload_entry E) [0..<num_ops]) num_ops d tc1" by auto
  from execute_ok [OF tc(3) len tc1(2), of num_ops] fits obtain tc2 where tc2: "execute_workload E num_ops tc1 = Inr tc2"
    "fixture_at E (map of_nat [2..<nodes + 1]) (map (workload_entry E) ?is) (length ?is) d tc2" by auto
  define k where "k = (num_ops + 9) div 10 * 10"
  have "k + (num_ops + 9) mod 10 = num_ops + 9" "(num_ops + 9) mod 10 < 10" unfolding k_def by (rule div_mult_mod_eq) simp
  then have k: "num_ops \<le> k" "k < num_ops + 10" by linarith+
  have in_range: "k < length ?is" using k(2) assms(5) unfolding length_append length_upt by linarith
  have tenth: "k mod 10 = 0" by (simp add: k_def)
  have unwritten: "k \<notin> set ?is" using k(1) unfolding set_append set_upt by force
  have "\<not> (\<forall>i < length ?is. i mod 10 = 0 \<longrightarrow> i \<in> set ?is)"
  proof
    assume "\<forall>i < length ?is. i mod 10 = 0 \<longrightarrow> i \<in> set ?is"
    from this [rule_format, OF in_range tenth] unwritten show False by contradiction
  qed
  with verify_fixture [OF tc(3) fits tc2(2)] have "verify_correctness E tc2 = Inr False" by simp
  with tc(1) tc1(1) tc2(1) show ?thesis by blast
qed

subsection \<open>Witnesses\<close>

text \<open>A three-node fixture with the default configuration and a workload of a hundred writes.\<close>

theorem workload_verified_witness:
  "\<exists>tc tc'. test_cluster_new sample_raft_ext (\<lambda>_. 0) 0 (\<lambda>_ _. 0) 3 = Inr tc \<and> execute_workload sample_raft_ext 100 tc = Inr tc' \<and>
     verify_correctness sample_raft_ext tc' = Inr True"
  unfolding test_cluster_new_def
  by (rule workload_verified [OF sample_sizes(1)]) (simp_all add: config_ok_def config_new_def)

theorem second_workload_reported_witness:
  "\<exists>tc tc1 tc2. test_cluster_new sample_raft_ext (\<lambda>_. 0) 0 (\<lambda>_ _. 0) 3 = Inr tc \<and> execute_workload sample_raft_ext 100 tc = Inr tc1 \<and>
     execute_workload sample_raft_ext 100 tc1 = Inr tc2 \<and> verify_correctness sample_raft_ext tc2 = Inr False"
  unfolding test_cluster_new_def
  by (rule second_workload_reported [OF sample_sizes(1)]) (simp_all add: config_ok_def config_new_def)

end
