(* ===== verification/Bench.thy ===== *)
theory Bench
  imports Test_Cluster Text "HOL-Library.Log_Nat"
begin

text \<open>
  The benchmark program (\<open>src/src/bin/bench.rs\<close>): latency statistics, the five workloads on one database, the
  workload on a simulated cluster, and the run of all experiments.

  The clock is a parameter, the time in nanoseconds at each of its readings, and the model counts the readings. The throughput,
  a quotient of floats that is only printed, is a parameter too. The tables that the program prints are not modelled.
\<close>

section \<open>System metrics\<close>

text \<open>\<open>statm\<close> is the text of \<open>/proc/self/statm\<close>, if it can be read.\<close>

definition get_memory_rss_bytes :: "bytes option \<Rightarrow> u64" where
  "get_memory_rss_bytes statm =
     (case statm of
        None \<Rightarrow> 0
      | Some text \<Rightarrow>
          (let parts = split_whitespace text in
           if 2 \<le> length parts then (case u64_parse (parts ! 1) of Some rss_pages \<Rightarrow> rss_pages * 4096 | None \<Rightarrow> 0)
           else 0))"

section \<open>Latency statistics\<close>

text \<open>
  A natural number rounded to the 53 significant bits of a 64-bit float, ties to even. A product with a float below one is
  computed on its significand and then shifted by 53 bits; the constants are the significands of \<open>0.50\<close>, \<open>0.95\<close> and
  \<open>0.99\<close>.
\<close>

definition f64_nearest :: "nat \<Rightarrow> nat" where
  "f64_nearest x =
     (let k = floorlog 2 x - 53; q = x div 2 ^ k; r = x mod 2 ^ k in
      if 2 * r < 2 ^ k \<or> 2 * r = 2 ^ k \<and> even q then q * 2 ^ k else (q + 1) * 2 ^ k)"

definition percentile_index :: "nat \<Rightarrow> nat \<Rightarrow> nat" where
  "percentile_index p n = min (f64_nearest (f64_nearest n * p) div 2 ^ 53) (n - 1)"

definition P50 :: nat where "P50 = 0x10000000000000"

definition P95 :: nat where "P95 = 0x1E666666666666"

definition P99 :: nat where "P99 = 0x1FAE147AE147AE"

record latency_stats =
  ls_throughput :: f64
  ls_p50 :: nat
  ls_p95 :: nat
  ls_p99 :: nat
  ls_min :: nat
  ls_max :: nat

definition calculate_latency_stats :: "(nat \<Rightarrow> nat \<Rightarrow> f64) \<Rightarrow> nat list \<Rightarrow> nat \<Rightarrow> latency_stats io" where
  "calculate_latency_stats rate latencies total_time =
     (let latencies = sort latencies; n = length latencies in
      if n = 0 then panic ''Cannot calculate statistics for zero operations''
      else Inr \<lparr>ls_throughput = rate n total_time,
        ls_p50 = latencies ! percentile_index P50 n,
        ls_p95 = latencies ! percentile_index P95 n,
        ls_p99 = latencies ! percentile_index P99 n,
        ls_min = latencies ! 0,
        ls_max = latencies ! (n - 1)\<rparr>)"

section \<open>Experiments\<close>

record bench_experiment =
  ex_name :: rstring
  ex_config :: config

definition experiments :: "bench_experiment list" where
  "experiments =
     [\<lparr>ex_name = str ''baseline_3_levels'', ex_config = config_new 3 100 100\<rparr>,
      \<lparr>ex_name = str ''levels_4'', ex_config = config_new 4 100 100\<rparr>,
      \<lparr>ex_name = str ''levels_5'', ex_config = config_new 5 100 100\<rparr>,
      \<lparr>ex_name = str ''data_threshold_50'', ex_config = config_new 4 50 100\<rparr>,
      \<lparr>ex_name = str ''data_threshold_200'', ex_config = config_new 4 200 100\<rparr>,
      \<lparr>ex_name = str ''sstable_threshold_50'', ex_config = config_new 4 100 50\<rparr>,
      \<lparr>ex_name = str ''sstable_threshold_200'', ex_config = config_new 4 100 200\<rparr>]"

text \<open>The compaction time, which the database model does not have, is left out of the result.\<close>

record experiment_result =
  er_name :: rstring
  er_config :: config
  er_insert :: latency_stats
  er_read_hit :: latency_stats
  er_read_miss :: latency_stats
  er_update :: latency_stats
  er_delete :: latency_stats
  er_memory_bytes :: u64
  er_disk_bytes :: nat
  er_compaction_count :: u64

section \<open>Timed loops\<close>

text \<open>
  A loop that reads the clock before and after every operation: its latencies, and the number of clock readings so far.
  \<open>elapsed\<close> is zero for a clock that went back.
\<close>

fun timed_ops :: "(nat \<Rightarrow> 's \<Rightarrow> 's io) \<Rightarrow> (nat \<Rightarrow> nat) \<Rightarrow> nat list \<Rightarrow> 's \<Rightarrow> nat list \<Rightarrow> nat \<Rightarrow> ('s \<times> nat list \<times> nat) io" where
  "timed_ops operation clock [] s latencies k = Inr (s, latencies, k)"
| "timed_ops operation clock (i # is) s latencies k =
     and_then (operation i s) (\<lambda>s. timed_ops operation clock is s (latencies @ [clock (k + 1) - clock k]) (k + 2))"

definition measured :: "(nat \<Rightarrow> nat \<Rightarrow> f64) \<Rightarrow> (nat \<Rightarrow> nat) \<Rightarrow> (nat \<Rightarrow> 's \<Rightarrow> 's io) \<Rightarrow> ('s \<Rightarrow> 's io) \<Rightarrow> nat \<Rightarrow> 's \<times> nat \<Rightarrow>
     (latency_stats \<times> 's \<times> nat) io" where
  "measured rate clock operation epilogue num_ops = (\<lambda>(s, k).
     and_then (timed_ops operation clock [0..<num_ops] s [] (k + 1)) (\<lambda>(s, latencies, k').
     and_then (epilogue s) (\<lambda>s.
     and_then (calculate_latency_stats rate latencies (clock k' - clock k)) (\<lambda>stats.
     Inr (stats, s, k' + 1)))))"

section \<open>The standalone benchmark\<close>

definition bench_key :: "nat \<Rightarrow> rstring" where
  "bench_key i = str ''key_'' @ zero_padded 6 i"

definition bench_value :: "nat \<Rightarrow> val" where
  "bench_value i = VString (str ''val_'' @ nat_dec i)"

definition bench_new_value :: "nat \<Rightarrow> val" where
  "bench_new_value i = VString (str ''new_val_'' @ nat_dec i)"

definition bench_missing_key :: "nat \<Rightarrow> rstring" where
  "bench_missing_key i = str ''missing_'' @ zero_padded 6 i"

definition unwrap_read :: "'a io \<Rightarrow> database \<Rightarrow> database io" where
  "unwrap_read r db = (case r of Inr _ \<Rightarrow> Inr db | Inl _ \<Rightarrow> panic ''called Result::unwrap() on an Err value'')"

definition standalone_ops :: nat where "standalone_ops = 10000"

type_synonym phases = "latency_stats \<times> latency_stats \<times> latency_stats \<times> latency_stats \<times> latency_stats"

definition run_phases :: "'x ext_scheme \<Rightarrow> (nat \<Rightarrow> nat \<Rightarrow> f64) \<Rightarrow> (nat \<Rightarrow> nat) \<Rightarrow> nat \<Rightarrow> database \<times> nat \<Rightarrow> (phases \<times> database \<times> nat) io" where
  "run_phases E rate clock num_ops s =
     and_then (measured rate clock (\<lambda>i db. unwrap_write (db_insert E (bench_key i) (bench_value i) db)) Inr num_ops s) (\<lambda>(inserts, s).
     and_then (measured rate clock (\<lambda>i db. unwrap_read (db_get E (bench_key i) db) db) Inr num_ops s) (\<lambda>(hits, s).
     and_then (measured rate clock (\<lambda>i db. unwrap_read (db_get E (bench_missing_key i) db) db) Inr num_ops s) (\<lambda>(misses, s).
     and_then (measured rate clock (\<lambda>i db. unwrap_write (db_insert E (bench_key i) (bench_new_value i) db)) Inr num_ops s) (\<lambda>(updates, s).
     and_then (measured rate clock (\<lambda>i db. unwrap_write (db_delete E (bench_key i) db)) Inr (num_ops div 2) s) (\<lambda>(deletes, s).
     Inr ((inserts, hits, misses, updates, deletes), s))))))"

definition run_standalone :: "'x ext_scheme \<Rightarrow> (nat \<Rightarrow> nat \<Rightarrow> f64) \<Rightarrow> (nat \<Rightarrow> nat) \<Rightarrow> bytes option \<Rightarrow> bench_experiment \<Rightarrow> nat \<Rightarrow>
     (experiment_result \<times> nat) io" where
  "run_standalone E rate clock statm ex k =
     (case open_in_dir E [] (ex_config ex) of
        Inl _ \<Rightarrow> panic ''Failed DB open''
      | Inr db \<Rightarrow>
          and_then (run_phases E rate clock standalone_ops (db, k)) (\<lambda>((inserts, hits, misses, updates, deletes), db, k).
          Inr (\<lparr>er_name = ex_name ex, er_config = ex_config ex, er_insert = inserts, er_read_hit = hits,
            er_read_miss = misses, er_update = updates, er_delete = deletes, er_memory_bytes = get_memory_rss_bytes statm,
            er_disk_bytes = disk_usage_bytes db, er_compaction_count = total_compactions db\<rparr>, k)))"

section \<open>The cluster benchmark\<close>

definition cluster_write :: "'x raft_ext_scheme \<Rightarrow> nat \<Rightarrow> test_cluster \<Rightarrow> test_cluster io" where
  "cluster_write E i tc =
     and_then (sim_index_mut 1 (\<lambda>n. and_then (append_command E (CmdSet (workload_key i) (workload_value i)) n) (\<lambda>(n, _). Inr n)) (tc_sim tc)) (\<lambda>sim.
     and_then (run_until_idle E sim) (\<lambda>sim. apply_committed E (tc\<lparr>tc_sim := sim\<rparr>)))"

definition two_heartbeats :: "'x raft_ext_scheme \<Rightarrow> test_cluster \<Rightarrow> test_cluster io" where
  "two_heartbeats E tc =
     and_then (beat E (tc_sim tc)) (\<lambda>sim. and_then (beat E sim) (\<lambda>sim. apply_committed E (tc\<lparr>tc_sim := sim\<rparr>)))"

definition benchmark_cluster :: "'x raft_ext_scheme \<Rightarrow> (nat \<Rightarrow> nat \<Rightarrow> f64) \<Rightarrow> (nat \<Rightarrow> nat) \<Rightarrow> (node_id \<Rightarrow> nat) \<Rightarrow> nat \<Rightarrow> (node_id \<Rightarrow> nat \<Rightarrow> nat) \<Rightarrow>
     nat \<Rightarrow> nat \<Rightarrow> nat \<Rightarrow> (latency_stats \<times> test_cluster \<times> nat) io" where
  "benchmark_cluster E rate clock started now rand nodes num_ops k =
     and_then (test_cluster_new E started now rand nodes) (\<lambda>cluster.
     measured rate clock (cluster_write E) (two_heartbeats E) num_ops (cluster, k))"

section \<open>The program\<close>

fun run_experiments :: "'x ext_scheme \<Rightarrow> (nat \<Rightarrow> nat \<Rightarrow> f64) \<Rightarrow> (nat \<Rightarrow> nat) \<Rightarrow> bytes option \<Rightarrow> bench_experiment list \<Rightarrow> nat \<Rightarrow>
     (experiment_result list \<times> nat) io" where
  "run_experiments E rate clock statm [] k = Inr ([], k)"
| "run_experiments E rate clock statm (e # es) k =
     and_then (run_standalone E rate clock statm e k) (\<lambda>(result, k).
     and_then (run_experiments E rate clock statm es k) (\<lambda>(results, k). Inr (result # results, k)))"

fun run_clusters :: "'x raft_ext_scheme \<Rightarrow> (nat \<Rightarrow> nat \<Rightarrow> f64) \<Rightarrow> (nat \<Rightarrow> nat) \<Rightarrow> (node_id \<Rightarrow> nat) \<Rightarrow> nat \<Rightarrow> (node_id \<Rightarrow> nat \<Rightarrow> nat) \<Rightarrow> nat list \<Rightarrow> nat \<Rightarrow>
     latency_stats list io" where
  "run_clusters E rate clock started now rand [] k = Inr []"
| "run_clusters E rate clock started now rand (nodes # sizes) k =
     and_then (benchmark_cluster E rate clock started now rand nodes 2000 k) (\<lambda>(stats, _, k).
     and_then (run_clusters E rate clock started now rand sizes k) (\<lambda>rest. Inr (stats # rest)))"

definition bench_main :: "'x raft_ext_scheme \<Rightarrow> (nat \<Rightarrow> nat \<Rightarrow> f64) \<Rightarrow> (nat \<Rightarrow> nat) \<Rightarrow> bytes option \<Rightarrow> (node_id \<Rightarrow> nat) \<Rightarrow> nat \<Rightarrow> (node_id \<Rightarrow> nat \<Rightarrow> nat) \<Rightarrow>
     (experiment_result list \<times> latency_stats list) io" where
  "bench_main E rate clock statm started now rand =
     and_then (run_experiments E rate clock statm experiments 0) (\<lambda>(results, k).
     and_then (run_clusters E rate clock started now rand [1, 3, 5] k) (\<lambda>stats. Inr (results, stats)))"

section \<open>Rounding\<close>

lemma f64_nearest_bounds:
  assumes "53 < floorlog 2 x"
  shows "2 ^ (floorlog 2 x - 1) \<le> f64_nearest x" and "f64_nearest x \<le> 2 ^ floorlog 2 x"
proof -
  define k where "k = floorlog 2 x - 53"
  let ?q = "x div 2 ^ k"
  have fl: "floorlog 2 x - 1 = 52 + k" "floorlog 2 x = 53 + k" using assms by (simp_all add: k_def)
  have "0 < x" using assms by (cases x) (simp_all add: floorlog_def)
  with floorlog_bounds [of x 2] fl have x: "2 ^ 52 * 2 ^ k \<le> x" "x < 2 ^ 53 * 2 ^ k" by (simp_all add: power_add)
  from x(1) have lo: "2 ^ 52 \<le> ?q" by (simp add: less_eq_div_iff_mult_less_eq)
  from x(2) have hi: "?q + 1 \<le> 2 ^ 53" by (simp add: less_mult_imp_div_less Suc_le_eq)
  have "f64_nearest x = ?q * 2 ^ k \<or> f64_nearest x = (?q + 1) * 2 ^ k" by (simp add: f64_nearest_def Let_def k_def)
  moreover have "?q * 2 ^ k \<le> (?q + 1) * 2 ^ k" by simp
  moreover note mult_le_mono1 [OF lo, of "2 ^ k"] mult_le_mono1 [OF hi, of "2 ^ k"]
  ultimately have "2 ^ 52 * 2 ^ k \<le> f64_nearest x" "f64_nearest x \<le> 2 ^ 53 * 2 ^ k" by (metis order_trans)+
  then show "2 ^ (floorlog 2 x - 1) \<le> f64_nearest x" "f64_nearest x \<le> 2 ^ floorlog 2 x" unfolding fl(1) by (simp_all only: fl(2) power_add)
qed

lemma f64_nearest_exact: "x < 2 ^ 53 \<Longrightarrow> f64_nearest x = x"
  using floorlog_leI [of x 2 53] by (simp add: f64_nearest_def)

lemma f64_nearest_mono:
  assumes "x \<le> y"
  shows "f64_nearest x \<le> f64_nearest y"
proof (cases "floorlog 2 x = floorlog 2 y")
  case True
  define k where "k = floorlog 2 y - 53"
  let ?q = "\<lambda>x. x div 2 ^ k" and ?r = "\<lambda>x. x mod 2 ^ k"
  have round: "f64_nearest z = (if 2 * ?r z < 2 ^ k \<or> 2 * ?r z = 2 ^ k \<and> even (?q z) then ?q z * 2 ^ k else (?q z + 1) * 2 ^ k)"
    if "z = x \<or> z = y" for z using that True by (auto simp: f64_nearest_def Let_def k_def)
  have "?q x \<le> ?q y" using assms by (rule div_le_mono)
  then consider "?q x = ?q y" | "?q x + 1 \<le> ?q y" by linarith
  then show ?thesis
  proof cases
    case 1
    have "?q x * 2 ^ k + ?r x \<le> ?q y * 2 ^ k + ?r y" using assms by (simp only: div_mult_mod_eq)
    with 1 have "?r x \<le> ?r y" by simp
    with 1 show ?thesis by (simp add: round)
  next
    case 2
    have "f64_nearest x \<le> (?q x + 1) * 2 ^ k" by (simp add: round)
    also have "\<dots> \<le> ?q y * 2 ^ k" using 2 by (rule mult_le_mono1)
    also have "\<dots> \<le> f64_nearest y" by (simp add: round)
    finally show ?thesis .
  qed
next
  case False
  then have less: "floorlog 2 x < floorlog 2 y" using floorlog_mono [OF assms, of 2] by simp
  show ?thesis
  proof (cases "53 < floorlog 2 y")
    case True
    have "f64_nearest x \<le> 2 ^ (floorlog 2 y - 1)"
    proof (cases "53 < floorlog 2 x")
      case True
      then have "f64_nearest x \<le> 2 ^ floorlog 2 x" by (rule f64_nearest_bounds)
      also have "\<dots> \<le> 2 ^ (floorlog 2 y - 1)" using less by (intro power_increasing) simp_all
      finally show ?thesis .
    next
      case False
      then have "x < 2 ^ 53" by (intro floorlog_leD) simp_all
      then have "f64_nearest x \<le> 2 ^ 53" by (simp add: f64_nearest_exact)
      also have "\<dots> \<le> 2 ^ (floorlog 2 y - 1)" using True by (intro power_increasing) simp_all
      finally show ?thesis .
    qed
    also have "\<dots> \<le> f64_nearest y" using True by (rule f64_nearest_bounds)
    finally show ?thesis .
  next
    case small: False
    then have "x < 2 ^ 53" "y < 2 ^ 53" using less by (intro floorlog_leD; simp)+
    with assms show ?thesis by (simp add: f64_nearest_exact)
  qed
qed

lemma percentile_index_mono: "p \<le> q \<Longrightarrow> percentile_index p n \<le> percentile_index q n"
  unfolding percentile_index_def by (intro min.mono div_le_mono f64_nearest_mono mult_le_mono2 order_refl)

lemma percentile_index_less: "0 < n \<Longrightarrow> percentile_index p n < n"
  by (simp add: percentile_index_def)

lemma median_index:
  assumes "0 < n" and "n < 2 ^ 53"
  shows "percentile_index P50 n = n div 2"
proof -
  have "f64_nearest (n * 2 ^ 52) = n * 2 ^ 52"
  proof (cases "floorlog 2 n \<le> 1")
    case True
    then have "n = 1" using floorlog_leD [of 2 n 1] assms(1) by simp
    then show ?thesis by (simp add: f64_nearest_exact)
  next
    case False
    have "floorlog 2 n \<le> 53" using assms(2) by (intro floorlog_leI) simp_all
    then have k: "floorlog 2 (n * 2 ^ 52) - 53 \<le> 52" using floorlog_power [of n 2 52] assms(1) by simp
    then have "2 ^ (floorlog 2 (n * 2 ^ 52) - 53) dvd n * (2 :: nat) ^ 52" by (intro dvd_mult le_imp_power_dvd)
    then show ?thesis unfolding f64_nearest_def Let_def by (auto simp: dvd_eq_mod_eq_0)
  qed
  moreover have "f64_nearest n = n" using assms(2) by (rule f64_nearest_exact)
  moreover have "P50 = 2 ^ 52" by (simp add: P50_def)
  moreover have "n * 2 ^ 52 div 2 ^ 53 = n div 2"
  proof -
    have "(2 :: nat) ^ 53 = 2 ^ 52 * 2" by simp
    then show ?thesis by (metis div_mult_mult1 mult.commute power_not_zero zero_neq_numeral)
  qed
  ultimately show ?thesis using assms(1) by (simp add: percentile_index_def)
qed

text \<open>The significands are those of the floats next to the decimal constants of the program.\<close>

lemma percentile_constants:
  "of_nat P50 / 2 ^ 53 = (50 / 100 :: rat)" "\<bar>of_nat P95 / 2 ^ 53 - 95 / 100\<bar> < (1 / 2 ^ 54 :: rat)" "\<bar>of_nat P99 / 2 ^ 53 - 99 / 100\<bar> < (1 / 2 ^ 54 :: rat)"
  by (simp_all add: P50_def P95_def P99_def)

section \<open>Loops that return\<close>

lemma stats_return: "latencies \<noteq> [] \<Longrightarrow> \<exists>stats. calculate_latency_stats rate latencies total_time = Inr stats"
  unfolding calculate_latency_stats_def Let_def by simp

lemma timed_ops_inv:
  assumes step: "\<And>i s. i < n \<Longrightarrow> Q i s \<Longrightarrow> \<exists>s'. operation i s = Inr s' \<and> Q (Suc i) s'"
    and "Q j s" and "j \<le> n"
  shows "\<exists>s' ls k'. timed_ops operation clock [j..<n] s latencies k = Inr (s', latencies @ ls, k') \<and> length ls = n - j \<and> Q n s'"
  using assms(2,3)
proof (induction "n - j" arbitrary: j s latencies k)
  case 0
  then show ?case by simp
next
  case (Suc d)
  then have j: "j < n" "[j..<n] = j # [Suc j..<n]" "d = n - Suc j" by (simp_all add: upt_conv_Cons)
  obtain s1 where s1: "operation j s = Inr s1" "Q (Suc j) s1" using step [OF j(1) Suc.prems(1)] by blast
  from Suc.hyps(1) [OF j(3) s1(2), of "latencies @ [clock (k + 1) - clock k]" "k + 2"] j(1) obtain s' ls k' where
    "timed_ops operation clock [Suc j..<n] s1 (latencies @ [clock (k + 1) - clock k]) (k + 2) = Inr (s', (latencies @ [clock (k + 1) - clock k]) @ ls, k')"
    "length ls = n - Suc j" "Q n s'" by auto
  with j s1(1) show ?case by (intro exI [of _ s'] exI [of _ "(clock (k + 1) - clock k) # ls"] exI [of _ k']) simp
qed

lemma measured_inv:
  assumes "\<And>i s. i < n \<Longrightarrow> Q i s \<Longrightarrow> \<exists>s'. operation i s = Inr s' \<and> Q (Suc i) s'" and "Q 0 s" and "0 < n"
    and last: "\<And>s. Q n s \<Longrightarrow> \<exists>s'. epilogue s = Inr s' \<and> R s'"
  shows "\<exists>stats s' k'. measured rate clock operation epilogue n (s, k) = Inr (stats, s', k') \<and> R s'"
proof -
  obtain s1 ls k' where s1: "timed_ops operation clock [0..<n] s [] (k + 1) = Inr (s1, ls, k')" "length ls = n" "Q n s1"
    using timed_ops_inv [of n Q operation 0 s clock "[]" "k + 1", OF assms(1,2)] by auto
  obtain s' where "epilogue s1 = Inr s'" "R s'" using last [OF s1(3)] by blast
  moreover obtain stats where "calculate_latency_stats rate ls (clock k' - clock k) = Inr stats"
    using stats_return [of ls rate "clock k' - clock k"] s1(2) assms(3) by auto
  ultimately show ?thesis using s1(1) by (auto simp: measured_def)
qed

section \<open>The workloads of the standalone benchmark\<close>

text \<open>The database after \<open>s\<close> inserts, \<open>u\<close> updates and \<open>d\<close> deletes, with room for \<open>n\<close> more writes.\<close>

definition bench_state :: "'x raft_ext_scheme \<Rightarrow> nat \<Rightarrow> nat \<Rightarrow> nat \<Rightarrow> nat \<Rightarrow> database \<Rightarrow> bool" where
  "bench_state E n s u d db \<longleftrightarrow> has_room E 70 n db \<and> (\<exists>m. db_run E db m \<and>
     (\<forall>i. m (bench_key i) = (if i < d then None else if i < u then Some (bench_new_value i) else if i < s then Some (bench_value i) else None)))"

lemma bench_key_inj: "bench_key i = bench_key j \<longleftrightarrow> i = j"
  using zero_padded_inj by (auto simp: bench_key_def)

lemma room_write:
  fixes E :: "'x raft_ext_scheme"
  assumes "db_run E db m" and "has_room E w (Suc n) db" and "command_ok E c" and "entry_weight E (command_key c, command_entry c) \<le> w"
  shows "\<exists>db'. apply_to_database E (PCommand (log_record_new E 0 c)) db = Inr db' \<and> db_run E db' (command_map c m) \<and> has_room E w n db'"
proof -
  let ?e = "\<lparr>le_term = 0, le_payload = PCommand (log_record_new E 0 c)\<rparr>"
  have c: "lr_command (log_record_new E 0 c) = c" by (simp add: log_record_new_def)
  then have "small_entry E w ?e" using assms(3,4) by (simp add: small_entry_def)
  note room = has_room_apply [OF assms(1) this assms(2)]
  from apply_to_database_ok [OF assms(1) room(1)] entry_apply_run [OF assms(1) room(1)] room(2) c show ?thesis by simp
qed

lemma bench_commands:
  assumes "i < 2 ^ 32"
  shows "command_ok E (CmdSet (bench_key i) (bench_value i))" and "command_ok E (CmdSet (bench_key i) (bench_new_value i))"
    and "command_ok E (CmdDelete (bench_key i))"
    and "entry_weight E (bench_key i, EntrySet (bench_value i)) \<le> 70" and "entry_weight E (bench_key i, EntrySet (bench_new_value i)) \<le> 70"
    and "entry_weight E (bench_key i, EntryDelete) \<le> 70"
proof -
  have p: "ascii (str ''key_'')" "ascii (str ''val_'')" "ascii (str ''new_val_'')" "length (str ''key_'') = 4" "length (str ''val_'') = 4"
    "length (str ''new_val_'') = 8" by (simp_all add: ascii_def str_def)
  note set = numbered_command [OF assms p(1,2)] and update = numbered_command [OF assms p(1,3)]
  show "command_ok E (CmdSet (bench_key i) (bench_value i))" "command_ok E (CmdSet (bench_key i) (bench_new_value i))"
    "command_ok E (CmdDelete (bench_key i))"
    using set(1) update(1) set(2) p(4-) unfolding bench_key_def bench_value_def bench_new_value_def by simp_all
  show "entry_weight E (bench_key i, EntrySet (bench_value i)) \<le> 70" "entry_weight E (bench_key i, EntrySet (bench_new_value i)) \<le> 70"
    "entry_weight E (bench_key i, EntryDelete) \<le> 70"
    using set(3,4) update(3,4) p(4-) unfolding bench_key_def bench_value_def bench_new_value_def entry_weight_def by simp_all
qed

lemma bench_insert:
  assumes "bench_state E (Suc n) i 0 0 db" and "i < 2 ^ 32"
  shows "\<exists>db'. unwrap_write (db_insert E (bench_key i) (bench_value i) db) = Inr db' \<and> bench_state E n (Suc i) 0 0 db'"
proof -
  let ?c = "CmdSet (bench_key i) (bench_value i)"
  obtain m where m: "has_room E 70 (Suc n) db" "db_run E db m" "\<forall>j. m (bench_key j) = (if j < i then Some (bench_value j) else None)"
    using assms(1) by (auto simp: bench_state_def)
  have "entry_weight E (command_key ?c, command_entry ?c) \<le> 70" using bench_commands(4) [OF assms(2)] by simp
  from room_write [OF m(2,1) bench_commands(1) [OF assms(2)] this] obtain db' where
    "unwrap_write (db_insert E (bench_key i) (bench_value i) db) = Inr db'" "db_run E db' (m(bench_key i \<mapsto> bench_value i))" "has_room E 70 n db'"
    by (auto simp: apply_to_database_def log_record_new_def)
  moreover have "\<forall>j. (m(bench_key i \<mapsto> bench_value i)) (bench_key j) = (if j < Suc i then Some (bench_value j) else None)"
    using m(3) by (auto simp: bench_key_inj less_Suc_eq)
  ultimately show ?thesis by (auto simp: bench_state_def)
qed

lemma bench_update:
  assumes "bench_state E (Suc n) s i 0 db" and "i < s" and "s < 2 ^ 32"
  shows "\<exists>db'. unwrap_write (db_insert E (bench_key i) (bench_new_value i) db) = Inr db' \<and> bench_state E n s (Suc i) 0 db'"
proof -
  let ?c = "CmdSet (bench_key i) (bench_new_value i)"
  have i: "i < 2 ^ 32" using assms(2,3) by simp
  obtain m where m: "has_room E 70 (Suc n) db" "db_run E db m"
    "\<forall>j. m (bench_key j) = (if j < i then Some (bench_new_value j) else if j < s then Some (bench_value j) else None)"
    using assms(1) by (auto simp: bench_state_def)
  have "entry_weight E (command_key ?c, command_entry ?c) \<le> 70" using bench_commands(5) [OF i] by simp
  from room_write [OF m(2,1) bench_commands(2) [OF i] this] obtain db' where
    "unwrap_write (db_insert E (bench_key i) (bench_new_value i) db) = Inr db'" "db_run E db' (m(bench_key i \<mapsto> bench_new_value i))" "has_room E 70 n db'"
    by (auto simp: apply_to_database_def log_record_new_def)
  moreover have "\<forall>j. (m(bench_key i \<mapsto> bench_new_value i)) (bench_key j) =
      (if j < Suc i then Some (bench_new_value j) else if j < s then Some (bench_value j) else None)"
    using m(3) assms(2) by (auto simp: bench_key_inj less_Suc_eq)
  ultimately show ?thesis by (auto simp: bench_state_def)
qed

lemma bench_delete:
  assumes "bench_state E (Suc n) s s i db" and "i < s" and "s < 2 ^ 32"
  shows "\<exists>db'. unwrap_write (db_delete E (bench_key i) db) = Inr db' \<and> bench_state E n s s (Suc i) db'"
proof -
  let ?c = "CmdDelete (bench_key i)"
  have i: "i < 2 ^ 32" using assms(2,3) by simp
  obtain m where m: "has_room E 70 (Suc n) db" "db_run E db m"
    "\<forall>j. m (bench_key j) = (if j < i then None else if j < s then Some (bench_new_value j) else None)"
    using assms(1) by (auto simp: bench_state_def)
  have "entry_weight E (command_key ?c, command_entry ?c) \<le> 70" using bench_commands(6) [OF i] by simp
  from room_write [OF m(2,1) bench_commands(3) [OF i] this] obtain db' where
    "unwrap_write (db_delete E (bench_key i) db) = Inr db'" "db_run E db' (m(bench_key i := None))" "has_room E 70 n db'"
    by (auto simp: apply_to_database_def log_record_new_def)
  moreover have "\<forall>j. (m(bench_key i := None)) (bench_key j) =
      (if j < Suc i then None else if j < s then Some (bench_new_value j) else None)"
    using m(3) by (auto simp: bench_key_inj less_Suc_eq)
  ultimately show ?thesis by (auto simp: bench_state_def)
qed

lemma bench_read:
  assumes "bench_state E n s u d db"
  shows "unwrap_read (db_get E key db) db = Inr db"
proof -
  obtain m where "db_run E db m" using assms by (auto simp: bench_state_def)
  then have "db_inv E db" using run_inv_run by (auto simp: run_inv_def)
  then show ?thesis using db_get_view [of E db key] by (simp add: unwrap_read_def)
qed

lemma insert_phase:
  assumes "bench_state E (r + n) 0 0 0 db" and "0 < n" and "n < 2 ^ 32"
  shows "\<exists>stats db' k'. measured rate clock (\<lambda>i db. unwrap_write (db_insert E (bench_key i) (bench_value i) db)) Inr n (db, k) = Inr (stats, db', k') \<and>
    bench_state E r n 0 0 db'"
proof (rule measured_inv)
  fix i db assume i: "i < n" and "bench_state E (r + (n - i)) i 0 0 db"
  then have "bench_state E (Suc (r + (n - Suc i))) i 0 0 db" by (simp add: Suc_diff_Suc)
  then show "\<exists>db'. unwrap_write (db_insert E (bench_key i) (bench_value i) db) = Inr db' \<and> bench_state E (r + (n - Suc i)) (Suc i) 0 0 db'"
    by (rule bench_insert) (use i assms in simp_all)
qed (use assms in simp_all)

lemma update_phase:
  assumes "bench_state E (r + n) n 0 0 db" and "0 < n" and "n < 2 ^ 32"
  shows "\<exists>stats db' k'. measured rate clock (\<lambda>i db. unwrap_write (db_insert E (bench_key i) (bench_new_value i) db)) Inr n (db, k) = Inr (stats, db', k') \<and>
    bench_state E r n n 0 db'"
proof (rule measured_inv)
  fix i db assume i: "i < n" and "bench_state E (r + (n - i)) n i 0 db"
  then have "bench_state E (Suc (r + (n - Suc i))) n i 0 db" by (simp add: Suc_diff_Suc)
  then show "\<exists>db'. unwrap_write (db_insert E (bench_key i) (bench_new_value i) db) = Inr db' \<and> bench_state E (r + (n - Suc i)) n (Suc i) 0 db'"
    by (rule bench_update) (use i assms in simp_all)
qed (use assms in simp_all)

lemma delete_phase:
  assumes "bench_state E d n n 0 db" and "0 < d" and "d \<le> n" and "n < 2 ^ 32"
  shows "\<exists>stats db' k'. measured rate clock (\<lambda>i db. unwrap_write (db_delete E (bench_key i) db)) Inr d (db, k) = Inr (stats, db', k') \<and>
    bench_state E 0 n n d db'"
proof (rule measured_inv)
  fix i db assume i: "i < d" and "bench_state E (d - i) n n i db"
  then have "bench_state E (Suc (d - Suc i)) n n i db" by (simp add: Suc_diff_Suc)
  then show "\<exists>db'. unwrap_write (db_delete E (bench_key i) db) = Inr db' \<and> bench_state E (d - Suc i) n n (Suc i) db'"
    by (rule bench_delete) (use i assms in simp_all)
qed (use assms in simp_all)

lemma read_phase:
  assumes "bench_state E r s u d db" and "0 < n"
  shows "\<exists>stats db' k'. measured rate clock (\<lambda>i db. unwrap_read (db_get E (key i) db) db) Inr n (db, k) = Inr (stats, db', k') \<and>
    bench_state E r s u d db'"
proof (rule measured_inv)
  fix i :: nat and db
  assume "bench_state E r s u d db"
  with bench_read [OF this] show "\<exists>db'. unwrap_read (db_get E (key i) db) db = Inr db' \<and> bench_state E r s u d db'" by simp
qed (use assms in simp_all)

lemma phases_return:
  assumes "bench_state E (n div 2 + n + n) 0 0 0 db" and n: "2 \<le> n" "n < 2 ^ 32"
  shows "\<exists>stats db' k'. run_phases E rate clock n (db, k) = Inr (stats, db', k') \<and> bench_state E 0 n n (n div 2) db'"
proof -
  have pos: "0 < n" "0 < n div 2" "n div 2 \<le> n" using n(1) by simp_all
  let ?read = "\<lambda>key. measured rate clock (\<lambda>i db. unwrap_read (db_get E (key i) db) db) Inr n"
  let ?set = "\<lambda>v. measured rate clock (\<lambda>i db. unwrap_write (db_insert E (bench_key i) (v i) db)) Inr n"
  obtain inserts db1 k1 where s1: "?set bench_value (db, k) = Inr (inserts, db1, k1)" "bench_state E (n div 2 + n) n 0 0 db1"
    using insert_phase [OF assms(1) pos(1) n(2)] by blast
  obtain hits db2 k2 where s2: "?read bench_key (db1, k1) = Inr (hits, db2, k2)" "bench_state E (n div 2 + n) n 0 0 db2"
    using read_phase [OF s1(2) pos(1)] by blast
  obtain misses db3 k3 where s3: "?read bench_missing_key (db2, k2) = Inr (misses, db3, k3)" "bench_state E (n div 2 + n) n 0 0 db3"
    using read_phase [OF s2(2) pos(1)] by blast
  obtain updates db4 k4 where s4: "?set bench_new_value (db3, k3) = Inr (updates, db4, k4)" "bench_state E (n div 2) n n 0 db4"
    using update_phase [OF s3(2) pos(1) n(2)] by blast
  obtain deletes db5 k5 where "measured rate clock (\<lambda>i db. unwrap_write (db_delete E (bench_key i) db)) Inr (n div 2) (db4, k4) = Inr (deletes, db5, k5)"
    "bench_state E 0 n n (n div 2) db5"
    using delete_phase [OF s4(2) pos(2,3) n(2)] by blast
  with s1(1) s2(1) s3(1) s4(1) show ?thesis by (simp add: run_phases_def)
qed

text \<open>A new database has room for the writes that its table ids allow.\<close>

lemma new_bench_state:
  assumes "bloom_sizing_ok E" and "config_ok cfg" and len: "n * (cfg_sstable_level cfg + 1) < 2 ^ 32"
  obtains db where "open_in_dir E [] cfg = Inr db" and "bench_state E n 0 0 0 db"
proof -
  have "0 < cfg_sstable_level cfg" using assms(2) by (simp add: config_ok_def)
  then obtain db where db: "open_in_dir E [] cfg = Inr db" "next_sstable_id db = 0" "db_weight E db = 0"
    "length (leveled_sstable db) = cfg_sstable_level cfg" by (rule Database.open_empty [OF assms(1)])
  have "n \<le> n * (cfg_sstable_level cfg + 1)" by simp
  then have "n * 70 < 2 ^ 60" using len by simp
  then have "has_room E 70 n db" using len by (simp add: has_room_def db)
  with run_start [OF assms(1,2) db(1)] db(1) that show thesis by (fastforce simp: bench_state_def)
qed

section \<open>The cluster benchmark writes the workload of the fixture\<close>

lemma submit_write: "submit_writes E (i # is) tc = and_then (cluster_write E i tc) (submit_writes E is)"
  by (simp add: cluster_write_def and_then_def split: sum.splits)

lemma timed_submit:
  "submit_writes E is tc = Inr tc' \<Longrightarrow>
   \<exists>ls k'. timed_ops (cluster_write E) clock is tc latencies k = Inr (tc', latencies @ ls, k') \<and> length ls = length is"
proof (induction "is" arbitrary: tc latencies k)
  case Nil
  then show ?case by simp
next
  case (Cons i "is")
  obtain tc1 where tc1: "cluster_write E i tc = Inr tc1" "submit_writes E is tc1 = Inr tc'"
    using Cons.prems by (cases "cluster_write E i tc") (simp_all add: submit_write del: submit_writes.simps)
  let ?l = "clock (k + 1) - clock k"
  from Cons.IH [OF tc1(2), of "latencies @ [?l]" "k + 2"] obtain ls k' where
    "timed_ops (cluster_write E) clock is tc1 (latencies @ [?l]) (k + 2) = Inr (tc', (latencies @ [?l]) @ ls, k')" "length ls = length is" by blast
  with tc1(1) show ?case by (intro exI [of _ "?l # ls"] exI [of _ k']) simp
qed

lemma cluster_measured:
  assumes "execute_workload E n tc = Inr tc'" and "0 < n"
  shows "\<exists>stats k'. measured rate clock (cluster_write E) (two_heartbeats E) n (tc, k) = Inr (stats, tc', k')"
proof -
  obtain tc1 where tc1: "submit_writes E [0..<n] tc = Inr tc1" "two_heartbeats E tc1 = Inr tc'"
    using assms(1) by (cases "submit_writes E [0..<n] tc") (simp_all add: execute_workload_def two_heartbeats_def)
  obtain ls k' where ls: "timed_ops (cluster_write E) clock [0..<n] tc [] (k + 1) = Inr (tc1, ls, k')" "length ls = n"
    using timed_submit [OF tc1(1), of clock "[]" "k + 1"] by auto
  moreover obtain stats where "calculate_latency_stats rate ls (clock k' - clock k) = Inr stats"
    using stats_return [of ls rate "clock k' - clock k"] ls(2) assms(2) by auto
  ultimately show ?thesis using tc1(2) by (simp add: measured_def)
qed

lemma cluster_benchmark_returns:
  assumes "bloom_sizing_ok E" and "1 \<le> nodes" and "nodes \<le> 2501" and "0 < n" and "n * 4 < 2 ^ 32"
  shows "\<exists>stats tc k'. benchmark_cluster E rate clock started now rand nodes n k = Inr (stats, tc, k')"
proof -
  have cfg: "config_ok (config_new 3 200 4)" "n * (cfg_sstable_level (config_new 3 200 4) + 1) < 2 ^ 32"
    using assms(5) by (simp_all add: config_ok_def config_new_def)
  obtain tc d where tc: "new_with_config E started now rand nodes (config_new 3 200 4) = Inr tc" "open_in_dir E [] (config_new 3 200 4) = Inr d"
    "db_run E d Map.empty" "fixture_at E (map of_nat [2..<nodes + 1]) [] 0 d tc" by (rule new_fixture_ok [OF assms(1) cfg(1) assms(2,3)])
  have fits: "log_fits E (map (workload_entry E) [0..<n]) d"
    by (rule workload_fits [OF assms(1) cfg(1) tc(2)]) (use cfg(2) in simp_all)
  have "length (map of_nat [2..<nodes + 1] :: node_id list) \<le> 2500" using assms(3) by (simp del: upt_Suc)
  from execute_ok [OF tc(3) this tc(4), of n] fits obtain tc' where "execute_workload E n tc = Inr tc'" by auto
  from cluster_measured [OF this assms(4)] tc(1) show ?thesis by (force simp: benchmark_cluster_def test_cluster_new_def)
qed

section \<open>Properties\<close>

text \<open>
  The latencies that the benchmark reports are latencies that it measured, in the order of their names, between the least
  and the greatest one, and the first percentile is the median, although the index of a percentile is computed in floating point.
\<close>

theorem latency_stats_ordered:
  assumes "calculate_latency_stats rate latencies total_time = Inr stats"
  shows "{ls_min stats, ls_p50 stats, ls_p95 stats, ls_p99 stats, ls_max stats} \<subseteq> set latencies \<and>
    sorted [ls_min stats, ls_p50 stats, ls_p95 stats, ls_p99 stats, ls_max stats] \<and>
    (\<forall>l \<in> set latencies. ls_min stats \<le> l \<and> l \<le> ls_max stats) \<and>
    (length latencies < 2 ^ 53 \<longrightarrow> ls_p50 stats = sort latencies ! (length latencies div 2))"
proof -
  let ?s = "sort latencies" and ?n = "length latencies"
  have n: "0 < ?n" and stats: "stats = \<lparr>ls_throughput = rate ?n total_time, ls_p50 = ?s ! percentile_index P50 ?n,
      ls_p95 = ?s ! percentile_index P95 ?n, ls_p99 = ?s ! percentile_index P99 ?n, ls_min = ?s ! 0, ls_max = ?s ! (?n - 1)\<rparr>"
    using assms unfolding calculate_latency_stats_def Let_def by (simp_all add: panic_def split: if_splits)
  have mono: "?s ! i \<le> ?s ! j" if "i \<le> j" "j < ?n" for i j using that by (intro sorted_nth_mono) simp_all
  have mem: "?s ! i \<in> set latencies" if "i < ?n" for i using nth_mem [of i ?s] that by simp
  have p: "percentile_index P50 ?n \<le> percentile_index P95 ?n" "percentile_index P95 ?n \<le> percentile_index P99 ?n"
    by (rule percentile_index_mono, simp add: P50_def P95_def P99_def)+
  have last: "percentile_index P99 ?n \<le> ?n - 1" by (simp add: percentile_index_def)
  have range: "?s ! 0 \<le> l \<and> l \<le> ?s ! (?n - 1)" if "l \<in> set latencies" for l
  proof -
    have "l \<in> set ?s" using that by simp
    then obtain i where "i < ?n" "l = ?s ! i" unfolding in_set_conv_nth by auto
    then show ?thesis using mono [of 0 i] mono [of i "?n - 1"] by auto
  qed
  have fields: "ls_min stats = ?s ! 0" "ls_p50 stats = ?s ! percentile_index P50 ?n" "ls_p95 stats = ?s ! percentile_index P95 ?n"
    "ls_p99 stats = ?s ! percentile_index P99 ?n" "ls_max stats = ?s ! (?n - 1)" by (simp_all only: stats latency_stats.simps)
  note less = percentile_index_less [OF n]
  have s: "?s ! 0 \<le> ?s ! percentile_index P50 ?n" "?s ! percentile_index P50 ?n \<le> ?s ! percentile_index P95 ?n"
    "?s ! percentile_index P95 ?n \<le> ?s ! percentile_index P99 ?n" "?s ! percentile_index P99 ?n \<le> ?s ! (?n - 1)"
    by (rule mono; use p last n less in simp)+
  show ?thesis
    unfolding fields
  proof (intro conjI ballI impI)
    show "{?s ! 0, ?s ! percentile_index P50 ?n, ?s ! percentile_index P95 ?n, ?s ! percentile_index P99 ?n, ?s ! (?n - 1)} \<subseteq> set latencies"
      using mem n less by simp
    show "sorted [?s ! 0, ?s ! percentile_index P50 ?n, ?s ! percentile_index P95 ?n, ?s ! percentile_index P99 ?n, ?s ! (?n - 1)]"
      using s by (simp only: sorted2 sorted1 simp_thms)
    show "?s ! percentile_index P50 ?n = ?s ! (?n div 2)" if "?n < 2 ^ 53" using median_index [OF n that] by (simp only:)
  qed (use range in blast)+
qed

text \<open>
  After the five workloads of the benchmark every key reads as the last write to it says: the first half is deleted, the
  second half has the updated values, and no other key is there, whatever flushes and compactions the configuration causes.
\<close>

theorem standalone_outcome:
  fixes E :: "'x raft_ext_scheme"
  assumes "bloom_sizing_ok E" and "config_ok cfg" and "2 \<le> n" and "(n div 2 + n + n) * (cfg_sstable_level cfg + 1) < 2 ^ 32"
  shows "\<exists>db stats db' k'. open_in_dir E [] cfg = Inr db \<and> run_phases E rate clock n (db, k) = Inr (stats, db', k') \<and>
    (\<forall>i. db_get E (bench_key i) db' = Inr (if n div 2 \<le> i \<and> i < n then Some (bench_new_value i) else None))"
proof -
  obtain db where db: "open_in_dir E [] cfg = Inr db" "bench_state E (n div 2 + n + n) 0 0 0 db"
    by (rule new_bench_state [OF assms(1,2,4)])
  have "n \<le> (n div 2 + n + n) * (cfg_sstable_level cfg + 1)" by simp
  then have "n < 2 ^ 32" using assms(4) by linarith
  from phases_return [OF db(2) assms(3) this] obtain stats db' k' where
    ran: "run_phases E rate clock n (db, k) = Inr (stats, db', k')" "bench_state E 0 n n (n div 2) db'" by blast
  obtain m where m: "db_run E db' m" "\<forall>i. m (bench_key i) = (if i < n div 2 then None else if i < n then Some (bench_new_value i) else None)"
    using ran(2) unfolding bench_state_def by auto
  have "db_get E (bench_key i) db' = Inr (m (bench_key i))" for i
    using run_inv_run [OF m(1)] db_get_view [of E db' "bench_key i"] by (simp add: run_inv_def)
  with m(2) have "\<forall>i. db_get E (bench_key i) db' = Inr (if n div 2 \<le> i \<and> i < n then Some (bench_new_value i) else None)" by (simp add: not_less)
  with db(1) ran(1) show ?thesis by blast
qed

lemma standalone_returns:
  fixes E :: "'x raft_ext_scheme"
  assumes "bloom_sizing_ok E" and "config_ok (ex_config ex)" and "cfg_sstable_level (ex_config ex) \<le> 5"
  shows "\<exists>result k'. run_standalone E rate clock statm ex k = Inr (result, k') \<and> er_name result = ex_name ex"
proof -
  let ?n = standalone_ops
  have room: "(?n div 2 + ?n + ?n) * (cfg_sstable_level (ex_config ex) + 1) < 2 ^ 32" using assms(3) by (simp add: standalone_ops_def)
  obtain db where db: "open_in_dir E [] (ex_config ex) = Inr db" "bench_state E (?n div 2 + ?n + ?n) 0 0 0 db"
    by (rule new_bench_state [OF assms(1,2) room])
  have "2 \<le> ?n" "?n < 2 ^ 32" by (simp_all add: standalone_ops_def)
  from phases_return [OF db(2) this] obtain stats db' k' where "run_phases E rate clock ?n (db, k) = Inr (stats, db', k')" by blast
  with db(1) show ?thesis by (cases stats) (simp add: run_standalone_def)
qed

lemma experiments_return:
  fixes E :: "'x raft_ext_scheme"
  assumes "bloom_sizing_ok E" and "\<forall>ex \<in> set exs. config_ok (ex_config ex) \<and> cfg_sstable_level (ex_config ex) \<le> 5"
  shows "\<exists>results k'. run_experiments E rate clock statm exs k = Inr (results, k') \<and> map er_name results = map ex_name exs"
  using assms(2)
proof (induction exs arbitrary: k)
  case (Cons ex exs)
  then obtain result k1 where one: "run_standalone E rate clock statm ex k = Inr (result, k1)" "er_name result = ex_name ex"
    using standalone_returns [OF assms(1)] by (metis list.set_intros(1))
  from Cons obtain results k' where "run_experiments E rate clock statm exs k1 = Inr (results, k')" "map er_name results = map ex_name exs"
    by (metis list.set_intros(2))
  with one show ?case by simp
qed simp

lemma clusters_return:
  assumes "bloom_sizing_ok E" and "\<forall>nodes \<in> set sizes. 1 \<le> nodes \<and> nodes \<le> 2501"
  shows "\<exists>stats. run_clusters E rate clock started now rand sizes k = Inr stats \<and> length stats = length sizes"
  using assms(2)
proof (induction sizes arbitrary: k)
  case (Cons nodes sizes)
  then have nodes: "1 \<le> nodes" "nodes \<le> 2501" by simp_all
  obtain stats tc k1 where one: "benchmark_cluster E rate clock started now rand nodes 2000 k = Inr (stats, tc, k1)"
    using cluster_benchmark_returns [OF assms(1) nodes, of 2000 rate clock started now rand k] by auto
  from Cons obtain rest where "run_clusters E rate clock started now rand sizes k1 = Inr rest" "length rest = length sizes"
    by (metis list.set_intros(2))
  with one show ?case by simp
qed simp

text \<open>
  C37. The benchmark program runs to its end: on every clock, for all its experiments and for its clusters of one, three and five nodes,
  none of the assertions and of the unwrapped results of the databases, the simulator and the statistics fails.
\<close>

theorem benchmark_completes:
  fixes E :: "'x raft_ext_scheme"
  assumes "bloom_sizing_ok E"
  shows "\<exists>results stats. bench_main E rate clock statm started now rand = Inr (results, stats) \<and>
    map er_name results = map ex_name experiments \<and> length stats = 3"
proof -
  have "\<forall>ex \<in> set experiments. config_ok (ex_config ex) \<and> cfg_sstable_level (ex_config ex) \<le> 5"
    by (simp add: experiments_def config_ok_def config_new_def)
  from experiments_return [OF assms this] obtain results k where
    "run_experiments E rate clock statm experiments 0 = Inr (results, k)" "map er_name results = map ex_name experiments" by blast
  moreover have "\<forall>nodes \<in> set [1, 3, 5]. 1 \<le> nodes \<and> nodes \<le> (2501 :: nat)" by simp
  from clusters_return [OF assms this] obtain stats where
    "run_clusters E rate clock started now rand [1, 3, 5] k = Inr stats" "length stats = length [1 :: nat, 3, 5]" by blast
  ultimately show ?thesis by (simp add: bench_main_def del: run_clusters.simps)
qed

subsection \<open>Witnesses\<close>

theorem latency_stats_ordered_witness:
  "\<exists>stats. calculate_latency_stats (\<lambda>_ _. 0) [30, 10, 20] 60 = Inr stats \<and> sorted [ls_min stats, ls_p50 stats, ls_p95 stats, ls_p99 stats, ls_max stats]"
proof -
  obtain stats where stats: "calculate_latency_stats (\<lambda>_ _. 0) [30, 10, 20] 60 = Inr stats" using stats_return [of "[30, 10, 20]"] by auto
  with latency_stats_ordered [OF stats] show ?thesis by blast
qed

theorem standalone_outcome_witness:
  "\<exists>db stats db' k'. open_in_dir sample_raft_ext [] (config_new 3 2 2) = Inr db \<and> run_phases sample_raft_ext (\<lambda>_ _. 0) id 10 (db, 0) = Inr (stats, db', k') \<and>
     db_get sample_raft_ext (bench_key 3) db' = Inr None \<and> db_get sample_raft_ext (bench_key 7) db' = Inr (Some (bench_new_value 7))"
proof -
  have "config_ok (config_new 3 2 2)" "(2 :: nat) \<le> 10" "((10 :: nat) div 2 + 10 + 10) * (cfg_sstable_level (config_new 3 2 2) + 1) < 2 ^ 32"
    by (simp_all add: config_ok_def config_new_def)
  from standalone_outcome [OF sample_sizes(1) this, of "\<lambda>_ _. 0" id 0] show ?thesis by force
qed

theorem benchmark_completes_witness:
  "\<exists>results stats. bench_main sample_raft_ext (\<lambda>_ _. 0) id None (\<lambda>_. 0) 0 (\<lambda>_ _. 0) = Inr (results, stats) \<and>
     map er_name results = map ex_name experiments \<and> length stats = 3"
  by (rule benchmark_completes [OF sample_sizes(1)])

end
