(* ===== verification/Spec2Isabelle.thy ===== *)
theory Spec2Isabelle
  imports Simulator_Chaos Programs Bench
begin

text \<open>
  A verification of a replicated key-value store: an LSM-tree database, a Raft implementation that replicates it,
  a deterministic simulator that tests the replication, and the network, services and programs around them.

  \<^bold>\<open>The program and its model.\<close> Every theory models one part of \<open>src/src\<close>; the definitions have the names of the
  functions and follow their branches.

  \<^item> \<open>Prelude\<close>: machine integers as words, strings and files as byte lists, \<open>io::Result\<close> as a sum type with the
    early return of \<open>?\<close> (\<open>and_then\<close>), integers and UTF-8 as bytes, decimal numbers; the record \<open>ext\<close> of the code that
    is not in the repository (text of floats, XXH3, the floating-point sizes of Bloom filters).
    \<open>Text\<close>: the operations on strings that the services and programs use.
  \<^item> \<open>Wal_Record\<close>, \<open>Wal_Logger\<close> (\<open>lsm/wal\<close>): the records of the write-ahead log with their checksum, and the log
    file with its recovery. \<open>Record_Log\<close> is the contract, as a locale, that this log, the Raft log
    file and the frames of the network share.
  \<^item> \<open>Bloom\<close>, \<open>Sstable_Format\<close>, \<open>Sstable\<close> (\<open>lsm/sstable\<close>): filters, the byte format and its index, both writers and
    both readers of tables.
  \<^item> \<open>Compaction\<close>, \<open>Database\<close> (\<open>database\<close>): the k-way merge, and the database with memtable, flush, levels, compaction
    and recovery. The state is the record \<open>database\<close>, which holds the files of its directory.
  \<^item> \<open>Raft_Types\<close>, \<open>Raft_Log_Store\<close>, \<open>Raft_Node\<close> (\<open>raft\<close>): messages, the log and metadata files, and every handler of a
    node (\<open>handle_message\<close>, \<open>handle_store_request\<close>, \<open>tick\<close>, \<open>restart\<close>, \<open>new_in_dir\<close>) on the record \<open>raft_node\<close>. The
    clock is an argument; random timeouts come from a sequence in the state; messages go to an outbox and answers of
    requests to a list of channel sends.
  \<^item> \<open>Network\<close> (\<open>raft/network.rs\<close>): connections, the reader, writer and reconnection tasks as operations that may happen in
    any order.
  \<^item> \<open>Runtime\<close>, \<open>Service\<close> (\<open>runtime/runtime.rs\<close>, \<open>service.rs\<close>, \<open>grpc_service.rs\<close>): the loop that runs a node, and the
    JSON and gRPC services in front of it.
  \<^item> \<open>Fault\<close>, \<open>Simulator\<close> (\<open>runtime/fault.rs\<close>, \<open>simulator.rs\<close>): the random numbers, the queues of events and faults,
    every operation of the simulation, the check of the invariants and the chaos test.
  \<^item> \<open>Programs\<close> (\<open>bin/node.rs\<close>, \<open>bin/client.rs\<close>): the command line of a node and the interactive client.
  \<^item> \<open>Test_Cluster\<close> (\<open>testing/cluster.rs\<close>): the fixture of the integration tests, a simulated cluster with one more database per
    node, its workload and its check. \<open>Bench\<close> (\<open>bin/bench.rs\<close>): the latency statistics, the workloads on one database
    and on clusters, and the run of all experiments.

  \<^bold>\<open>How the parts interact.\<close> A client or a service sends a request to the runtime of a node, which passes it to
  \<open>handle_store_request\<close>; the leader appends a command to its log and sends the tail of the log to its peers; when a majority
  has stored an entry the leader commits it, every node applies the committed entries to its database in order
  (\<open>apply_committed_entries\<close>, which calls \<open>db_insert\<close> and \<open>db_delete\<close>), and the waiting request is answered. The database
  logs each write, applies it to the memtable, flushes the memtable to a table when it is full and merges the tables of
  a full level.

  \<^bold>\<open>What is proved.\<close>
  \<^item> Storage: encoders and decoders are inverse, a torn or damaged record is refused, what a crash leaves of a log is a
    prefix of it; tables answer lookups like their entries, with either writer; Bloom filters have no false negatives; the merge
    keeps the newest version of each key. \<open>Database\<close> proves that the database refines a map across flushes, compactions and
    restarts, and that a crash after a flush has written its table and after any operation on files of a compaction loses nothing
    (\<open>compact_level_files\<close> is the directory after the first operations of \<open>compact_level\<close>).
  \<^item> Raft: \<open>Raft_Quorum\<close> and \<open>Raft_Election\<close>, \<open>Raft_Cluster\<close> prove election safety for a cluster with message loss,
    duplication, reordering, restarts in memory and recoveries from files. \<open>Raft_Protocol\<close> is an abstract Raft protocol with its
    invariant, \<open>Raft_Refinement\<close> shows that the handlers implement it, and \<open>Raft_Safety\<close> concludes log matching, leader
    completeness, state machine safety, agreement of the databases, and what a read returns: reads are local and from one history, but
    not linearizable (\<open>stale_read\<close>). \<open>Raft_Acks\<close> proves that writes acknowledged on a channel or by a response message are durable
    and readable, \<open>Raft_Progress\<close> that no handler of a reachable cluster panics or fails to return while the membership
    stays (\<open>removed_peer_panics\<close> shows what a removal can do), and that the states stay well formed, \<open>Raft_Liveness\<close> that a
    leader can always be elected, \<open>Raft_Writes\<close> that a write can always be committed and applied by every node, \<open>Raft_Recovery\<close> what
    a restart from files preserves and what it does not.
  \<^item> Around it: the runtimes refine the cluster (\<open>Runtime\<close>); a connection delivers a subsequence of what was sent to its peer
    (\<open>Network\<close>); everything that the simulator does is a run of the cluster, so its check never fails
    (\<open>Simulator_Safety\<close>), and what it does without faults is determined: \<open>Simulator_Calm\<close> and \<open>Raft_Round\<close> show that
    an election, a command and a heartbeat each come to rest with the expected states of all nodes; \<open>Simulator_Chaos\<close> shows that a
    chaos test that ends reports no violation, and runs one; a connection of the JSON service answers its lines one by one until a request is never
    answered (\<open>Service\<close>); a typed write reaches the node and its answer the client (\<open>Programs\<close>).
  \<^item> All together: the integration test passes for every size, configuration and workload within the bounds (\<open>Test_Cluster\<close>), and
    the benchmark runs to its end (\<open>Bench\<close>); both go through election, replication, commitment and the databases.

  \<^bold>\<open>Interfaces.\<close> The locales are \<open>record_log\<close> (files and streams of records), \<open>approx_set\<close> (filters), \<open>lookup_tables\<close> (tables),
  \<open>max_heap\<close> (the heap of the merge), \<open>quorum\<close> (majorities), \<open>timed_queue\<close> (the queues of the simulator) and \<open>calm_round\<close> (a run of the simulator without faults, with
  an invariant and a measure of the messages still to come); each is
  interpreted on the definitions of the model.

  \<^bold>\<open>Bounds and fuel.\<close> Loops are recursive functions with termination proofs, except those that the code bounds itself: the loop
  of \<open>run_until_idle\<close> has its limit of 10000 steps, after which it panics, and the chaos test its number of steps. A round of the fixture takes at most
  four deliveries per peer, so that clusters of up to 2501 nodes stay below the limit. A database takes as many writes as its table ids, of 32
  bits, allow: one per flush and one per level for each write are enough. Lengths
  and counters that the code keeps in \<open>usize\<close> are natural numbers, ids and terms are words of 64 bits; an election at the
  greatest term would overflow and is excluded in the cluster theorems (in the simulator it is a panic, as in a test build).
  Times are milliseconds; the timeouts of a new simulated cluster are computed with the overflow checks of \<open>u64\<close>. The floats of the chaos
  test are rationals that are rounded like IEEE doubles; probabilities that are infinite or not a number are not modelled.

  \<^bold>\<open>Assumptions of the theorems.\<close> The cluster theorems fix the membership (no add-node or remove-node request), exclude node
  id 0, which the code uses for no vote, and assume that the codec of log entries reads back what it wrote for the commands of
  the clients. After a recovery from files only election safety and the answers to reads are claimed, since
  \<open>restart_shifts_log\<close> shows that the log is then shifted by one index. Handlers are atomic, as they are in the task that
  runs a node; the database locks are atomicity of its operations, except in the theorem on an insert that is
  interleaved with a flush. \<open>step_down\<close> answers the waiting requests in the order in which they came, the code in the order of a hash
  map; every answer goes to its own client. \<open>new_in_dir\<close> opens the database without the two Raft files of the shared
  directory, which \<open>raft_files_ignored\<close> proves to make no difference. The look-up and the entry of an outgoing connection are two
  steps with any others in between (\<open>Enter\<close>). The runtime behind a service may leave a request without an answer, and the
  tasks that update the registry of nodes run on their own.

  \<^bold>\<open>Not modelled.\<close> Failures of the operating system (file errors, full disks), sockets and the scheduling of tasks beyond their
  interleaving, printing and log switches, metrics, the time that compactions take; \<open>start_with_api\<close> and the listeners, which bind sockets and
  spawn the modelled tasks; accessors that only return a field; the tables that the benchmark prints; and the programs in other languages (the Go API server, the dashboard, the TypeScript extension).
\<close>

end
